(* ===== verification/Prelude.thy ===== *)
theory Prelude
  imports Main "HOL-Library.Word" "HOL-Library.Monad_Syntax"
begin

text \<open>
  Shared vocabulary of the development: the machine integers of the library, pointers and
  stores, storage with object lifetimes, and the facts about words, lists and pointer rings
  that several components use.

  Conventions.  \<^verbatim>\<open>std::size_t\<close> is a 64-bit word and \<^verbatim>\<open>uint32_t\<close> a 32-bit word, so every
  arithmetic operation wraps exactly as in the code.  A pointer is \<open>addr option\<close>, \<open>None\<close>
  being \<^verbatim>\<open>nullptr\<close>.  An operation that can run into undefined behaviour (a null or dangling
  dereference, an index outside its array, constructing over a live object, reading or
  destroying raw storage) returns an option; \<open>None\<close> is that fault.  An operation that may be
  left by a C++ exception returns a value of type \<open>res\<close>.
\<close>

unbundle bit_operations_syntax

type_synonym size_t = "64 word"
type_synonym u32 = "32 word"
type_synonym u8 = "8 word"
type_synonym addr = nat

datatype 'r res = Ret 'r | Exn

lemma bool_res_case:
  "(case r of Ret True \<Rightarrow> A | Ret False \<Rightarrow> B | Exn \<Rightarrow> C)
     \<longleftrightarrow> r = Ret True \<and> A \<or> r = Ret False \<and> B \<or> r = Exn \<and> C"
  by (auto split: res.splits bool.splits)

lemma option_res_case:
  "(case r of Exn \<Rightarrow> A | Ret None \<Rightarrow> B | Ret (Some a) \<Rightarrow> C a)
     \<longleftrightarrow> r = Exn \<and> A \<or> r = Ret None \<and> B \<or> (\<exists>a. r = Ret (Some a) \<and> C a)"
  by (auto split: res.splits option.splits)

named_theorems word_idx \<open>reading words that hold free-running indices as natural numbers\<close>
named_theorems heap_simps \<open>reads and writes of pointer stores\<close>

section \<open>Loops\<close>

text \<open>
  A loop whose body may leave it, go round again or fault.  The body maps the loop state to
  \<open>Inl\<close> the next state or \<open>Inr\<close> the result; \<open>loop body s = None\<close> means that the loop faults or
  never ends, so that termination is always part of a statement about a result.
\<close>

partial_function (option) loop :: "('s \<Rightarrow> ('s + 'r) option) \<Rightarrow> 's \<Rightarrow> 'r option" where
  "loop body s = (case body s of None \<Rightarrow> None
     | Some x \<Rightarrow> (case x of Inl s' \<Rightarrow> loop body s' | Inr r \<Rightarrow> Some r))"

declare loop.simps [code]

lemma loop_fault: "body s = None \<Longrightarrow> loop body s = None"
  by (subst loop.simps) simp

lemma loop_again: "body s = Some (Inl s') \<Longrightarrow> loop body s = loop body s'"
  by (subst loop.simps) simp

lemma loop_exit: "body s = Some (Inr r) \<Longrightarrow> loop body s = Some r"
  by (subst loop.simps) simp

text \<open>What holds of the state through a loop holds of its result.\<close>

lemma loop_result:
  assumes "loop body s = Some r" "P s" "\<And>s s'. P s \<Longrightarrow> body s = Some (Inl s') \<Longrightarrow> P s'"
    "\<And>s r. P s \<Longrightarrow> body s = Some (Inr r) \<Longrightarrow> Q r"
  shows "Q r"
proof -
  have "body = body \<longrightarrow> P s \<longrightarrow> Q r"
  proof (rule loop.raw_induct [where P = "\<lambda>b s r. b = body \<longrightarrow> P s \<longrightarrow> Q r", OF _ assms(1)])
    fix lp b s r
    assume IH: "\<And>b s r. lp b s = Some r \<Longrightarrow> b = body \<longrightarrow> P s \<longrightarrow> Q r"
      and "(case b s of None \<Rightarrow> None | Some (Inl s') \<Rightarrow> lp b s' | Some (Inr r) \<Rightarrow> Some r) = Some r"
    then show "b = body \<longrightarrow> P s \<longrightarrow> Q r" using assms(3,4) by (auto split: option.splits sum.splits)
  qed
  with assms(2) show ?thesis by simp
qed

section \<open>Pointer stores\<close>

type_synonym 'v store = "addr \<Rightarrow> 'v option"

definition deref :: "'v store \<Rightarrow> addr option \<Rightarrow> 'v option" where
  "deref h p = Option.bind p h"

definition modify :: "'v store \<Rightarrow> addr option \<Rightarrow> ('v \<Rightarrow> 'v) \<Rightarrow> 'v store option" where
  "modify h p f = (case p of None \<Rightarrow> None
     | Some a \<Rightarrow> (case h a of None \<Rightarrow> None | Some v \<Rightarrow> Some (h(a \<mapsto> f v))))"

lemma deref_None [simp, heap_simps]: "deref h None = None"
  by (simp add: deref_def)

lemma deref_Some [simp, heap_simps]: "deref h (Some a) = h a"
  by (simp add: deref_def)

lemma modify_None [simp, heap_simps]: "modify h None f = None"
  by (simp add: modify_def)

lemma modify_Some [heap_simps]: "h a = Some v \<Longrightarrow> modify h (Some a) f = Some (h(a \<mapsto> f v))"
  by (simp add: modify_def)

lemma modify_eq_Some:
  "modify h p f = Some h' \<longleftrightarrow> (\<exists>a v. p = Some a \<and> h a = Some v \<and> h' = h(a \<mapsto> f v))"
  by (auto simp: modify_def split: option.splits)

section \<open>Storage with object lifetimes\<close>

text \<open>
  An array of slots: \<open>None\<close> is raw storage, \<open>Some v\<close> a live object.  Constructing over a live
  object, reading or destroying raw storage, and leaving the array are faults.
\<close>

type_synonym 'a slots = "'a option list"

definition construct_at :: "'a slots \<Rightarrow> nat \<Rightarrow> 'a \<Rightarrow> 'a slots option" where
  "construct_at xs i v = (if i < length xs \<and> xs ! i = None then Some (xs[i := Some v]) else None)"

definition read_at :: "'a slots \<Rightarrow> nat \<Rightarrow> 'a option" where
  "read_at xs i = (if i < length xs then xs ! i else None)"

definition destroy_at :: "'a slots \<Rightarrow> nat \<Rightarrow> 'a slots option" where
  "destroy_at xs i = (if i < length xs \<and> xs ! i \<noteq> None then Some (xs[i := None]) else None)"

lemma construct_at_ok [simp]:
  "i < length xs \<Longrightarrow> xs ! i = None \<Longrightarrow> construct_at xs i v = Some (xs[i := Some v])"
  by (simp add: construct_at_def)

lemma destroy_at_ok [simp]:
  "i < length xs \<Longrightarrow> xs ! i = Some v \<Longrightarrow> destroy_at xs i = Some (xs[i := None])"
  by (simp add: destroy_at_def)

lemma read_at_ok [simp]: "i < length xs \<Longrightarrow> read_at xs i = xs ! i"
  by (simp add: read_at_def)

lemma construct_at_SomeD:
  "construct_at xs i v = Some ys \<Longrightarrow> i < length xs \<and> xs ! i = None \<and> ys = xs[i := Some v]"
  by (auto simp: construct_at_def split: if_splits)

lemma destroy_at_SomeD:
  "destroy_at xs i = Some ys \<Longrightarrow> i < length xs \<and> xs ! i \<noteq> None \<and> ys = xs[i := None]"
  by (auto simp: destroy_at_def split: if_splits)

section \<open>Words as free-running indices\<close>

text \<open>
  The queues count with indices that only grow and wrap at \<open>2 ^ 64\<close>.  A proof names the
  unwrapped index as a natural number \<open>n\<close> and reads the word as \<open>of_nat n\<close>.
\<close>

lemma mask_of_nat [word_idx]:
  "(of_nat n :: 'w::len word) AND (2 ^ k - 1) = of_nat (n mod 2 ^ k)"
  by (simp add: take_bit_of_nat flip: take_bit_eq_mask mask_eq_exp_minus_1 take_bit_eq_mod)

lemma and_not_mask_of_nat [word_idx]:
  "(of_nat h :: 'w::len word) AND NOT (2 ^ k - 1) = of_nat (h div 2 ^ k * 2 ^ k)"
proof -
  let ?x = "of_nat h :: 'w word"
  have "?x AND NOT (mask k) = push_bit k (drop_bit k ?x)"
    by (rule bit_eqI) (auto simp: bit_simps)
  then have "(?x AND NOT (mask k)) + take_bit k ?x = ?x" by (simp only: bits_ident)
  also have "?x = of_nat (h div 2 ^ k * 2 ^ k) + of_nat (h mod 2 ^ k)"
    by (simp only: of_nat_add [symmetric] div_mult_mod_eq)
  also have "of_nat (h mod 2 ^ k) = take_bit k ?x"
    by (simp only: take_bit_of_nat take_bit_eq_mod [where 'a = nat])
  finally show ?thesis by (simp only: mask_eq_exp_minus_1 add_right_cancel)
qed

lemma unat_and_mask [word_idx]:
  "unat ((x :: 'w::len word) AND (2 ^ k - 1)) = unat x mod 2 ^ k"
  by (simp add: unsigned_take_bit_eq flip: take_bit_eq_mask mask_eq_exp_minus_1 take_bit_eq_mod)

lemma unat_drop_bit_div [word_idx]: "unat (drop_bit n (x :: 'w::len word)) = unat x div 2 ^ n"
  by (subst unat_drop_bit_eq) (rule drop_bit_eq_div)

lemma unat_of_nat_small [word_idx]:
  "n < 2 ^ LENGTH('w) \<Longrightarrow> unat (of_nat n :: 'w::len word) = n"
  by (simp add: unat_of_nat)

lemma of_nat_diff_word: "b \<le> a \<Longrightarrow> (of_nat a :: 'w::len word) - of_nat b = of_nat (a - b)"
  by simp

lemma unat_of_nat_diff [word_idx]:
  "b \<le> a \<Longrightarrow> a - b < 2 ^ LENGTH('w) \<Longrightarrow> unat ((of_nat a :: 'w::len word) - of_nat b) = a - b"
  by (simp add: unat_of_nat del: of_nat_diff flip: of_nat_diff)

lemma unat_pow2 [word_idx]: "k < LENGTH('w) \<Longrightarrow> unat ((2::'w::len word) ^ k) = 2 ^ k"
  by (metis of_nat_numeral of_nat_power power_strict_increasing_iff one_less_numeral_iff
      semiring_norm(76) unat_of_nat_small)

lemma unat_inc:
  assumes "x < y"
  shows "unat (x + 1) = unat (x :: 'w::len word) + 1"
proof -
  have "Suc (unat x) \<le> unat y" using assms by (simp add: word_less_nat_alt)
  also have "unat y < 2 ^ LENGTH('w)" by (rule unsigned_less)
  finally show ?thesis by (simp add: unat_word_ariths)
qed

section \<open>Rings of pointers\<close>

text \<open>
  \<open>ring nx bs\<close>: following \<open>nx\<close> from any element of \<open>bs\<close> visits the others in order and
  comes back.
\<close>

definition ring :: "(addr \<Rightarrow> addr option) \<Rightarrow> addr list \<Rightarrow> bool" where
  "ring nx bs \<longleftrightarrow> bs \<noteq> [] \<and> distinct bs
     \<and> successively (\<lambda>a b. nx a = Some b) (bs @ [hd bs])"

lemma ring_distinct: "ring nx bs \<Longrightarrow> distinct bs"
  by (simp add: ring_def)

lemma ring_nonempty: "ring nx bs \<Longrightarrow> bs \<noteq> []"
  by (simp add: ring_def)

lemma ring_singleton [simp]: "ring nx [a] \<longleftrightarrow> nx a = Some a"
  by (simp add: ring_def)

lemma ring_last: "ring nx bs \<Longrightarrow> nx (last bs) = Some (hd bs)"
  by (auto simp: ring_def successively_append_iff)

lemma ring_nth:
  assumes "ring nx bs" "i < length bs"
  shows "nx (bs ! i) = Some (bs ! (Suc i mod length bs))"
proof -
  from assms have s: "successively (\<lambda>a b. nx a = Some b) (bs @ [hd bs])" and ne: "bs \<noteq> []"
    by (auto simp: ring_def)
  have "nx ((bs @ [hd bs]) ! i) = Some ((bs @ [hd bs]) ! Suc i)"
    using successively_nth [OF s, of i] assms(2) by simp
  then show ?thesis
    using assms(2) ne by (cases "Suc i = length bs") (auto simp: nth_append hd_conv_nth)
qed

lemma ring_next_mem: "ring nx bs \<Longrightarrow> a \<in> set bs \<Longrightarrow> \<exists>b \<in> set bs. nx a = Some b"
  by (metis in_set_conv_nth length_pos_if_in_set mod_less_divisor nth_mem ring_nth)

lemma ring_rotate1: "ring nx bs \<Longrightarrow> ring nx (rotate1 bs)"
  by (cases bs) (auto simp: ring_def successively_append_iff successively_Cons hd_append
      split: if_splits)

lemma ring_snoc_Cons: "ring nx (xs @ [a]) \<longleftrightarrow> ring nx (a # xs)"
  by (cases xs rule: rev_cases)
     (auto simp: ring_def successively_append_iff successively_Cons hd_append split: if_splits)

text \<open>Linking a node in between the last and the first.\<close>

lemma ring_link:
  assumes "ring nx xs" "a \<notin> set xs" "nx' a = Some (hd xs)" "nx' (last xs) = Some a"
    and "\<And>x. x \<in> set xs \<Longrightarrow> x \<noteq> last xs \<Longrightarrow> nx' x = nx x"
  shows "ring nx' (xs @ [a])"
proof -
  have ne: "xs \<noteq> []" and d: "distinct xs" and s: "successively (\<lambda>a b. nx a = Some b) xs"
    using assms(1) by (auto simp: ring_def successively_append_iff)
  have "successively (\<lambda>a b. nx' a = Some b) xs"
  proof (subst successively_conv_nth, intro allI impI)
    fix i assume i: "Suc i < length xs"
    have "xs ! i \<noteq> last xs"
      using d ne i by (simp add: last_conv_nth nth_eq_iff_index_eq)
    then show "nx' (xs ! i) = Some (xs ! Suc i)"
      using assms(5) [of "xs ! i"] successively_nth [OF s i] i by simp
  qed
  then show ?thesis
    using assms(2-4) d ne by (auto simp: ring_def successively_append_iff)
qed

lemma ring_cong: "(\<And>a. a \<in> set bs \<Longrightarrow> nx a = nx' a) \<Longrightarrow> ring nx bs \<longleftrightarrow> ring nx' bs"
  unfolding ring_def
  by (intro conj_cong refl, rule successively_cong) auto

end
