(* ===== verification/Utility.thy ===== *)
theory Utility
  imports Prelude
begin

text \<open>
  \<^verbatim>\<open>common/utility.h\<close>: the wrap-around comparison of free-running indices, the rounding to a
  power of two, the bit width that gives the logarithm of the block size, the relaxed swap of
  two atomics, and \<^verbatim>\<open>Pair\<close> with its comparison operators.
\<close>

section \<open>Circular comparison\<close>

definition CircularLessThan :: "'w::len word \<Rightarrow> 'w word \<Rightarrow> bool" where
  "CircularLessThan a b \<longleftrightarrow> a - b > push_bit (LENGTH('w) - 1) 1"

lemma unat_half [simp]: "unat ((2 :: 'w::len word) ^ (LENGTH('w) - Suc 0)) = 2 ^ (LENGTH('w) - Suc 0)"
  by (simp add: unat_pow2)

lemma two_pow_half: "(2::nat) ^ LENGTH('w::len) = 2 * 2 ^ (LENGTH('w) - 1)"
  by (metis Suc_diff_1 len_gt_0 power_Suc)

lemma unat_diff_swap:
  assumes "(a :: 'w::len word) \<noteq> b"
  shows "unat (a - b) + unat (b - a) = 2 ^ LENGTH('w)"
proof -
  have "unat (a - b) + unat (b - a) < 2 * 2 ^ LENGTH('w)"
    by (metis add_strict_mono mult_2 unsigned_less)
  moreover have "0 < unat (a - b)" using assms by (simp add: unat_gt_0)
  moreover have "(unat (a - b) + unat (b - a)) mod 2 ^ LENGTH('w) = 0"
    by (metis add.commute diff_add_cancel diff_add_eq diff_self unat_0 unat_word_ariths(1))
  ultimately obtain k where "unat (a - b) + unat (b - a) = 2 ^ LENGTH('w) * k" "k < 2"
    by (auto simp: mod_eq_0_iff_dvd dvd_def)
  then show ?thesis using \<open>0 < unat (a - b)\<close> by (cases k) auto
qed

lemma unat_of_nat_neg_diff:
  assumes "0 < c" "c < 2 ^ LENGTH('w)" "b = a + c"
  shows "unat ((of_nat a :: 'w::len word) - of_nat b) = 2 ^ LENGTH('w) - c"
proof -
  have c: "of_nat b - of_nat a = (of_nat c :: 'w word)" using assms(3) by simp
  have u: "unat (of_nat c :: 'w word) = c" using assms(2) by (rule unat_of_nat_small)
  have "(of_nat a :: 'w word) \<noteq> of_nat b"
    using c u assms(1) by auto
  from unat_diff_swap [OF this] show ?thesis unfolding c u by linarith
qed
lemma CircularLessThan_iff:
  "CircularLessThan (a :: 'w::len word) b
     \<longleftrightarrow> 0 < unat (b - a) \<and> unat (b - a) < 2 ^ (LENGTH('w) - 1)"
proof (cases "a = b")
  case True
  then show ?thesis by (simp add: CircularLessThan_def)
next
  case False
  have "CircularLessThan a b \<longleftrightarrow> 2 ^ (LENGTH('w) - 1) < unat (a - b)"
    by (simp add: CircularLessThan_def word_less_nat_alt)
  moreover have "0 < unat (b - a)" using False by (simp add: unat_gt_0)
  ultimately show ?thesis
    using unat_diff_swap [OF False] two_pow_half [where 'w='w] by auto
qed

text \<open>On two indices less than half the range apart it is the comparison of the unwrapped ones.\<close>

lemma CircularLessThan_of_nat [word_idx]:
  assumes "a < b + 2 ^ (LENGTH('w) - 1)" and "b < a + 2 ^ (LENGTH('w) - 1)"
  shows "CircularLessThan (of_nat a :: 'w::len word) (of_nat b) \<longleftrightarrow> a < b"
proof (cases "a \<le> b")
  case True
  have "unat (of_nat b - of_nat a :: 'w word) = b - a"
    using True assms two_pow_half [where 'w='w] by (intro unat_of_nat_diff) simp_all
  with True assms show ?thesis by (auto simp: CircularLessThan_iff simp del: of_nat_diff)
next
  case False
  have "unat (of_nat a - of_nat b :: 'w word) = a - b"
    using False assms two_pow_half [where 'w='w] by (intro unat_of_nat_diff) simp_all
  then have "\<not> CircularLessThan (of_nat a :: 'w word) (of_nat b)"
    using False assms
    by (simp add: CircularLessThan_def word_less_nat_alt del: of_nat_diff)
  with False show ?thesis by simp
qed

lemma CircularLessThan_size_t:
  assumes "a < b + 2 ^ 63" "b < a + 2 ^ 63"
  shows "CircularLessThan (of_nat a :: size_t) (of_nat b) \<longleftrightarrow> a < b"
  using CircularLessThan_of_nat [where 'w = 64, of a b] assms by simp

lemma CircularLessThan_irrefl [simp]: "\<not> CircularLessThan a a"
  by (simp add: CircularLessThan_iff)

lemma CircularLessThan_asym: "CircularLessThan a b \<Longrightarrow> \<not> CircularLessThan b a"
proof (cases "a = b")
  case False
  then show "CircularLessThan a b \<Longrightarrow> \<not> CircularLessThan b a"
    using unat_diff_swap [OF False] two_pow_half [where 'w='a]
    unfolding CircularLessThan_iff by linarith
qed simp

section \<open>CeilToPow2\<close>

definition CeilToPow2 :: "size_t \<Rightarrow> size_t" where
  "CeilToPow2 X0 =
     (let X = X0 - 1;
          X = X OR drop_bit 1 X;
          X = X OR drop_bit 2 X;
          X = X OR drop_bit 4 X;
          X = fold (\<lambda>i X. X OR drop_bit (8 * i) X) [1..<8] X
      in X + 1)"

text \<open>\<open>smeared w x y\<close>: bit \<open>i\<close> of \<open>y\<close> is set when one of bits \<open>i \<dots> i + w - 1\<close> of \<open>x\<close> is.\<close>

definition smeared :: "nat \<Rightarrow> size_t \<Rightarrow> size_t \<Rightarrow> bool" where
  "smeared w x y \<longleftrightarrow> (\<forall>i. bit y i \<longleftrightarrow> (\<exists>j. i \<le> j \<and> j < i + w \<and> bit x j))"

lemma smeared_self: "smeared 1 x x"
  by (auto simp: smeared_def le_less_Suc_eq)

lemma smeared_step:
  assumes "smeared w x y" "s \<le> w"
  shows "smeared (w + s) x (y OR drop_bit s y)"
proof -
  have "bit (y OR drop_bit s y) i \<longleftrightarrow> (\<exists>j. i \<le> j \<and> j < i + (w + s) \<and> bit x j)" for i
  proof -
    have "bit (y OR drop_bit s y) i \<longleftrightarrow> bit y i \<or> bit y (s + i)"
      by (simp add: bit_or_iff bit_drop_bit_eq)
    also have "\<dots> \<longleftrightarrow> (\<exists>j. (i \<le> j \<and> j < i + w \<or> s + i \<le> j \<and> j < s + i + w) \<and> bit x j)"
      using assms(1) by (auto simp: smeared_def)
    also have "\<dots> \<longleftrightarrow> (\<exists>j. i \<le> j \<and> j < i + (w + s) \<and> bit x j)"
      using assms(2) by (intro ex_cong1) auto
    finally show ?thesis .
  qed
  then show ?thesis by (simp add: smeared_def)
qed

lemma smeared_mono:
  assumes "smeared w x y" "64 \<le> w" "w \<le> v"
  shows "smeared v x y"
proof -
  have "j < i + w" if "bit x j" for i j
    using that assms(2) bit_imp_le_length [of x j] by simp
  then show ?thesis using assms unfolding smeared_def by fastforce
qed

text \<open>A word below \<open>2 ^ n\<close> whose top bit is \<open>n - 1\<close> smears to \<open>2 ^ n - 1\<close>.\<close>

lemma smeared_full:
  assumes sm: "smeared w x y" "64 \<le> w"
    and x: "unat x < 2 ^ n" "2 ^ n \<le> 2 * unat x" "n \<le> 64"
  shows "y = 2 ^ n - 1"
proof -
  have low: "2 ^ j \<le> unat x" if "bit x j" for j
  proof -
    have "odd (unat x div 2 ^ j)"
      using that bit_iff_odd [of "unat x" j] bit_imp_le_length [OF that] by (simp add: bit_unsigned_iff)
    then have "unat x div 2 ^ j \<noteq> 0" by (metis even_zero)
    then show ?thesis by (simp add: div_eq_0_iff)
  qed
  have top: "j < n" if "bit x j" for j
    using low [OF that] x(1) power_increasing [of n j "2::nat"] by (meson le_less_trans not_less
        order.trans one_le_numeral)
  have "bit x (n - 1)" if "0 < n"
  proof -
    obtain m where n: "n = Suc m" using \<open>0 < n\<close> gr0_conv_Suc by auto
    have "unat x div 2 ^ m = 1" using x(1,2) unfolding n by (intro div_nat_eqI) auto
    then have "odd (unat x div 2 ^ m)" by simp
    then have "bit (unat x) m" by (simp add: bit_iff_odd)
    then show ?thesis by (simp add: n bit_unsigned_iff)
  qed
  moreover have "j < 64" if "bit x j" for j
    using that bit_imp_le_length [of x j] by simp
  ultimately have "bit y i \<longleftrightarrow> i < n" for i
  proof (cases "i < n")
    case True
    then have "i \<le> n - 1 \<and> n - 1 < i + w \<and> bit x (n - 1)"
      using \<open>0 < n \<Longrightarrow> bit x (n - 1)\<close> sm(2) x(3) by (intro conjI) linarith+
    then show ?thesis using sm(1) True unfolding smeared_def by blast
  next
    case False
    then show ?thesis using sm(1) top unfolding smeared_def by (meson le_less_trans)
  qed
  then have "y = mask n"
    using x(3) by (intro bit_eqI) (auto simp: bit_mask_iff)
  then show ?thesis by (simp add: mask_eq_exp_minus_1)
qed

lemma CeilToPow2_smeared: "smeared 232 (X - 1) (CeilToPow2 X - 1)"
proof -
  let ?x = "X - 1" and ?f = "\<lambda>i X. X OR drop_bit (8 * i) X :: size_t"
  define a where "a = ?x OR drop_bit 1 ?x"
  define b where "b = a OR drop_bit 2 a"
  define c where "c = b OR drop_bit 4 b"
  have a: "smeared 2 ?x a" unfolding a_def using smeared_step [OF smeared_self, of 1 ?x] by (simp add: numeral_2_eq_2)
  have b: "smeared 4 ?x b" unfolding b_def using smeared_step [OF a, of 2] by simp
  have c: "smeared 8 ?x c" unfolding c_def using smeared_step [OF b, of 4] by simp
  have step: "smeared (8 + 4 * k * Suc k) ?x (fold ?f [1..<Suc k] c)" for k
  proof (induction k)
    case 0
    show ?case using c by simp
  next
    case (Suc k)
    have "8 * Suc k \<le> 8 + 4 * k * Suc k" by (cases k) auto
    from smeared_step [OF Suc this] show ?case by (simp add: algebra_simps)
  qed
  have "CeilToPow2 X - 1 = fold ?f [1..<8] c"
    by (simp add: CeilToPow2_def Let_def a_def b_def c_def)
  then show ?thesis using step [of 7] by simp
qed

text \<open>
  For \<open>1 \<le> X \<le> 2 ^ 63\<close> the result is the least power of two not below \<open>X\<close>; for \<open>X = 0\<close> the
  decrement wraps and the result is \<open>0\<close>.
\<close>

lemma CeilToPow2_zero: "CeilToPow2 0 = 0"
  by code_simp

lemma CeilToPow2_eq:
  assumes "1 < unat X" "unat X \<le> 2 ^ n" "2 ^ n < 2 * unat X" "n < 64"
  shows "CeilToPow2 X = 2 ^ n"
proof -
  have x: "unat (X - 1) = unat X - 1" using assms(1) by (metis One_nat_def less_nat_zero_code unat_0 unat_minus_one)
  have "2 ^ n \<le> 2 * unat (X - 1)"
    using assms(1,3) unfolding x by (cases n) auto
  then have "CeilToPow2 X - 1 = 2 ^ n - 1"
    using assms x by (intro smeared_full [OF CeilToPow2_smeared]) auto
  then show ?thesis by simp
qed

section \<open>BitWidth\<close>

definition BitWidth_step :: "nat \<Rightarrow> u8 \<times> size_t \<Rightarrow> u8 \<times> size_t" where
  "BitWidth_step n = (\<lambda>(Count, X).
     if drop_bit n X \<noteq> 0 then (Count + of_nat n, drop_bit n X) else (Count, X))"

definition BitWidth :: "size_t \<Rightarrow> u8" where
  "BitWidth X0 =
     (let (Count, X) = BitWidth_step 1 (BitWidth_step 2 (BitWidth_step 4 (BitWidth_step 8
                         (BitWidth_step 16 (BitWidth_step 32 (0, X0))))))
      in Count + ucast X)"

text \<open>
  Each step halves the width that is left: what was shifted out so far is \<open>Count\<close>, and what is
  left of a non-zero argument is non-zero.
\<close>

definition bw_inv :: "size_t \<Rightarrow> nat \<Rightarrow> u8 \<times> size_t \<Rightarrow> bool" where
  "bw_inv X0 w = (\<lambda>(Count, X). unat Count + w \<le> 64 \<and> unat X < 2 ^ w
     \<and> X = drop_bit (unat Count) X0 \<and> (X0 \<noteq> 0 \<longrightarrow> X \<noteq> 0))"

lemma bw_inv_step:
  assumes "bw_inv X0 (n + n) cx"
  shows "bw_inv X0 n (BitWidth_step n cx)"
proof -
  obtain c x where cx: "cx = (c, x)" by (cases cx)
  with assms have inv: "unat c + (n + n) \<le> 64" "unat x < 2 ^ (n + n)"
      "x = drop_bit (unat c) X0" "X0 \<noteq> 0 \<longrightarrow> x \<noteq> 0"
    by (auto simp: bw_inv_def)
  have dx: "unat (drop_bit n x) = unat x div 2 ^ n"
    by (rule unat_drop_bit_div)
  have "unat (c + of_nat n) = unat c + n"
    using inv(1) by (simp add: unat_word_ariths unat_of_nat)
  moreover have "unat x div 2 ^ n < 2 ^ n"
    using inv(2) by (simp add: less_mult_imp_div_less power_add)
  moreover have "unat x < 2 ^ n" if "drop_bit n x = 0"
    using that dx by (simp add: div_eq_0_iff)
  moreover have "drop_bit n (drop_bit (unat c) X0) = drop_bit (unat c + n) X0"
    by (simp add: drop_bit_drop_bit add.commute)
  ultimately show ?thesis
    using inv dx by (auto simp: cx bw_inv_def BitWidth_step_def)
qed

lemma BitWidth_correct:
  assumes "X \<noteq> 0"
  shows "0 < unat (BitWidth X)" "unat (BitWidth X) \<le> 64"
    "2 ^ (unat (BitWidth X) - 1) \<le> unat X" "unat X < 2 ^ unat (BitWidth X)"
proof -
  have "bw_inv X 64 (0, X)" using unsigned_less [of X] by (simp add: bw_inv_def)
  then have "bw_inv X 1 (BitWidth_step 1 (BitWidth_step 2 (BitWidth_step 4 (BitWidth_step 8
                         (BitWidth_step 16 (BitWidth_step 32 (0, X)))))))"
    using bw_inv_step [of X 32] bw_inv_step [of X 16] bw_inv_step [of X 8] bw_inv_step [of X 4]
      bw_inv_step [of X 2] bw_inv_step [of X 1, unfolded one_add_one] by simp
  then obtain c x where r: "BitWidth X = c + ucast x"
      and inv: "unat c + 1 \<le> 64" "unat x < 2" "x = drop_bit (unat c) X" "x \<noteq> 0"
    using assms by (auto simp: bw_inv_def BitWidth_def split: prod.splits)
  from inv have x1: "x = 1" by (metis One_nat_def less_2_cases unat_0_iff unat_1 word_unat_eq_iff)
  have bw: "unat (BitWidth X) = unat c + 1"
    unfolding r x1 using inv(1) by (simp add: unat_word_ariths)
  have q: "unat X div 2 ^ unat c = 1"
    using inv(3) x1 by (metis drop_bit_eq_div unat_1 unat_drop_bit_eq)
  show "0 < unat (BitWidth X)" "unat (BitWidth X) \<le> 64" using bw inv(1) by auto
  have "unat X = unat X div 2 ^ unat c * 2 ^ unat c + unat X mod 2 ^ unat c"
    by (rule div_mult_mod_eq [symmetric])
  moreover have "unat X mod 2 ^ unat c < 2 ^ unat c" by simp
  ultimately have "2 ^ unat c \<le> unat X" "unat X < 2 * 2 ^ unat c" unfolding q by linarith+
  then show "2 ^ (unat (BitWidth X) - 1) \<le> unat X" "unat X < 2 ^ unat (BitWidth X)"
    by (simp_all add: bw)
qed

lemma BitWidth_zero: "BitWidth 0 = 0"
  by code_simp

text \<open>\<^verbatim>\<open>BlockSizeLog2\<close> of both producer queues.\<close>

definition BlockSizeLog2 :: "size_t \<Rightarrow> nat" where
  "BlockSizeLog2 bs = unat (BitWidth bs - 1)"

lemma BlockSizeLog2_pow2 [word_idx]:
  assumes "k < 64"
  shows "BlockSizeLog2 (2 ^ k) = k"
proof -
  have ne: "(2::size_t) ^ k \<noteq> 0" using assms by (simp add: unat_pow2 flip: unat_eq_zero)
  let ?b = "unat (BitWidth (2 ^ k))"
  have "2 ^ (?b - 1) \<le> (2::nat) ^ k" "(2::nat) ^ k < 2 ^ ?b"
    using BitWidth_correct [OF ne] assms by (simp_all add: unat_pow2)
  then have "?b - 1 \<le> k" "k < ?b" by simp_all
  then have "?b = Suc k" by simp
  then show ?thesis
    unfolding BlockSizeLog2_def by (metis Suc_neq_Zero diff_Suc_1 unat_0 unat_minus_one)
qed

section \<open>Relaxed swap\<close>

text \<open>\<open>SwapRelaxed\<close> on a pair of cells, statement by statement.\<close>

definition SwapRelaxed :: "'a \<Rightarrow> 'a \<Rightarrow> 'a \<times> 'a" where
  "SwapRelaxed left right =
     (let Temp = left; left = right; right = Temp in (left, right))"

lemma SwapRelaxed_eq [simp]: "SwapRelaxed a b = (b, a)"
  by (simp add: SwapRelaxed_def)

section \<open>Pair\<close>

datatype ('a, 'b) Pair = Pair (First: 'a) (Second: 'b)

definition Pair_eq :: "('a, 'b) Pair \<Rightarrow> ('a, 'b) Pair \<Rightarrow> bool" where
  "Pair_eq x y \<longleftrightarrow> First x = First y \<and> Second x = Second y"

definition Pair_less :: "('a::ord, 'b::ord) Pair \<Rightarrow> ('a, 'b) Pair \<Rightarrow> bool" where
  "Pair_less x y \<longleftrightarrow> First x < First y \<or> (\<not> First y < First x \<and> Second x < Second y)"

definition Pair_le :: "('a::ord, 'b::ord) Pair \<Rightarrow> ('a, 'b) Pair \<Rightarrow> bool" where
  "Pair_le x y \<longleftrightarrow> \<not> Pair_less y x"

definition Pair_swap :: "('a, 'b) Pair \<Rightarrow> ('a, 'b) Pair \<Rightarrow> ('a, 'b) Pair \<times> ('a, 'b) Pair" where
  "Pair_swap x y = (Pair (First y) (Second y), Pair (First x) (Second x))"

lemma Pair_eq_iff: "Pair_eq x y \<longleftrightarrow> x = y"
  by (cases x; cases y) (simp add: Pair_eq_def)

text \<open>On totally ordered components the operators are a total order.\<close>

instantiation Pair :: (linorder, linorder) linorder
begin

definition less_eq_Pair :: "('a, 'b) Pair \<Rightarrow> ('a, 'b) Pair \<Rightarrow> bool" where
  "less_eq_Pair = Pair_le"

definition less_Pair :: "('a, 'b) Pair \<Rightarrow> ('a, 'b) Pair \<Rightarrow> bool" where
  "less_Pair = Pair_less"

instance
proof
  fix x y z :: "('a, 'b) Pair"
  note defs = less_eq_Pair_def less_Pair_def Pair_le_def Pair_less_def
  show "x < y \<longleftrightarrow> x \<le> y \<and> \<not> y \<le> x" by (auto simp: defs)
  show "x \<le> x" by (simp add: defs)
  show "x \<le> y \<Longrightarrow> y \<le> z \<Longrightarrow> x \<le> z" by (auto simp: defs)
  show "x \<le> y \<Longrightarrow> y \<le> x \<Longrightarrow> x = y" by (cases x; cases y) (auto simp: defs)
  show "x \<le> y \<or> y \<le> x" by (auto simp: defs)
qed

end

section \<open>Properties\<close>

text \<open>On free-running counters that are less than half the index space apart,
  \<^verbatim>\<open>CircularLessThan\<close> of the wrapped words decides the order of the unwrapped counters.\<close>

theorem CircularLessThan_counters:
  assumes "a < b + 2 ^ 63" "b < a + 2 ^ 63"
  shows "CircularLessThan (of_nat a :: size_t) (of_nat b) \<longleftrightarrow> a < b"
  using assms by (rule CircularLessThan_size_t)

theorem CircularLessThan_counters_witness:
  "CircularLessThan (of_nat (2 ^ 64 - 1) :: size_t) (of_nat (2 ^ 64 + 3))"
  using CircularLessThan_counters [of "2 ^ 64 - 1" "2 ^ 64 + 3"] by simp

lemma CeilToPow2_spec:
  assumes "1 \<le> unat X" "unat X \<le> 2 ^ 63"
  shows "\<exists>n < 64. CeilToPow2 X = 2 ^ n \<and> unat X \<le> 2 ^ n \<and> (\<forall>m. unat X \<le> 2 ^ m \<longrightarrow> n \<le> m)"
proof (cases "unat X = 1")
  case True
  then have "X = 1" by (metis unat_1 unsigned_word_eqI)
  moreover have "CeilToPow2 1 = 2 ^ 0" by code_simp
  ultimately show ?thesis by (intro exI [of _ 0]) simp
next
  case False
  define n where "n = (LEAST n. unat X \<le> 2 ^ n)"
  have le: "unat X \<le> 2 ^ n" unfolding n_def by (rule LeastI) (rule assms(2))
  have least: "n \<le> m" if "unat X \<le> 2 ^ m" for m unfolding n_def using that by (rule Least_le)
  have "n \<noteq> 0" using le False assms(1) by (cases n) auto
  moreover have "\<not> unat X \<le> 2 ^ (n - 1)" using least [of "n - 1"] \<open>n \<noteq> 0\<close> by auto
  ultimately have "2 ^ n < 2 * unat X" by (cases n) auto
  moreover have "n < 64" using least [OF assms(2)] by simp
  ultimately have "CeilToPow2 X = 2 ^ n" using le False assms(1) by (intro CeilToPow2_eq) auto
  with le least \<open>n < 64\<close> show ?thesis by blast
qed

text \<open>\<^verbatim>\<open>CeilToPow2\<close> of \<open>1 \<le> X \<le> 2 ^ 63\<close> is the least power of two that is not below \<open>X\<close>.\<close>

theorem CeilToPow2_least:
  assumes "1 \<le> unat X" "unat X \<le> 2 ^ 63"
  shows "\<exists>n < 64. CeilToPow2 X = 2 ^ n \<and> unat X \<le> 2 ^ n \<and> (\<forall>m. unat X \<le> 2 ^ m \<longrightarrow> n \<le> m)"
  using assms by (rule CeilToPow2_spec)

theorem CeilToPow2_least_witness:
  "\<exists>n < 64. CeilToPow2 37 = 2 ^ n \<and> 37 \<le> (2::nat) ^ n \<and> (\<forall>m. 37 \<le> (2::nat) ^ m \<longrightarrow> n \<le> m)"
  using CeilToPow2_least [of 37] by simp

text \<open>\<^verbatim>\<open>BitWidth\<close> is 0 for 0 and otherwise the number of bits of the argument.\<close>

theorem BitWidth_bits:
  "if X = 0 then BitWidth X = 0
   else 0 < unat (BitWidth X) \<and> unat (BitWidth X) \<le> 64
     \<and> 2 ^ (unat (BitWidth X) - 1) \<le> unat X \<and> unat X < 2 ^ unat (BitWidth X)"
  using BitWidth_zero BitWidth_correct by simp

end
