(* ===== verification/Block.thy ===== *)
theory Block
  imports Utility
begin

text \<open>
  \<^verbatim>\<open>ConcurrentQueue/Block.h\<close>: the two emptiness policies of a block (one flag per slot, or one
  counter) and the block itself with its raw storage.  The contract the queues rely on is the
  locale \<open>emptiness_policy\<close>; both policies are interpretations of it.
\<close>

section \<open>FlagsCheckPolicy\<close>

text \<open>The array \<^verbatim>\<open>Flags\<close>; its length is \<^verbatim>\<open>BLOCK_SIZE\<close>.  An index outside the array is a fault.\<close>

type_synonym flags = "u8 list"

definition Flags_IsEmpty :: "flags \<Rightarrow> bool" where
  "Flags_IsEmpty fs \<longleftrightarrow> list_all (\<lambda>f. f \<noteq> 0) fs"

definition Flags_SetEmpty :: "size_t \<Rightarrow> flags \<Rightarrow> (bool \<times> flags) option" where
  "Flags_SetEmpty Index fs =
     (if unat Index < length fs then Some (False, fs[unat Index := 1]) else None)"

fun Flags_SetSome_loop :: "nat \<Rightarrow> size_t \<Rightarrow> flags \<Rightarrow> flags option" where
  "Flags_SetSome_loop 0 i fs = Some fs"
| "Flags_SetSome_loop (Suc n) i fs =
     (if unat i < length fs then Flags_SetSome_loop n (i + 1) (fs[unat i := 1]) else None)"

definition Flags_SetSomeEmpty :: "size_t \<Rightarrow> size_t \<Rightarrow> flags \<Rightarrow> (bool \<times> flags) option" where
  "Flags_SetSomeEmpty Index Count fs =
     do { fs' \<leftarrow> Flags_SetSome_loop (unat Count) Index fs; Some (False, fs') }"

definition Flags_SetAllEmpty :: "flags \<Rightarrow> flags" where
  "Flags_SetAllEmpty fs = replicate (length fs) 1"

definition Flags_Reset :: "flags \<Rightarrow> flags" where
  "Flags_Reset fs = replicate (length fs) 0"

section \<open>CounterCheckPolicy\<close>

definition Counter_IsEmpty :: "size_t \<Rightarrow> size_t \<Rightarrow> bool" where
  "Counter_IsEmpty bs c \<longleftrightarrow> c = bs"

definition Counter_SetEmpty :: "size_t \<Rightarrow> size_t \<Rightarrow> bool \<times> size_t" where
  "Counter_SetEmpty bs c = (let OldCounter = c in (OldCounter + 1 = bs, c + 1))"

definition Counter_SetSomeEmpty :: "size_t \<Rightarrow> size_t \<Rightarrow> size_t \<Rightarrow> bool \<times> size_t" where
  "Counter_SetSomeEmpty bs Count c = (let OldCounter = c in (OldCounter + Count = bs, c + Count))"

definition Counter_SetAllEmpty :: "size_t \<Rightarrow> size_t \<Rightarrow> size_t" where
  "Counter_SetAllEmpty bs c = bs"

definition Counter_Reset :: "size_t \<Rightarrow> size_t" where
  "Counter_Reset c = 0"

section \<open>A block's policy\<close>

text \<open>
  A block is instantiated with one of the two policies; the queues call the policy through the
  block, so the model dispatches on the constructor.  \<open>bs\<close> is the template argument
  \<^verbatim>\<open>BLOCK_SIZE\<close>.
\<close>

datatype policy = FlagsCheck flags | CounterCheck size_t

fun HasMeaningfulSetResult :: "policy \<Rightarrow> bool" where
  "HasMeaningfulSetResult (FlagsCheck _) = False"
| "HasMeaningfulSetResult (CounterCheck _) = True"

fun IsEmpty :: "size_t \<Rightarrow> policy \<Rightarrow> bool" where
  "IsEmpty bs (FlagsCheck fs) = Flags_IsEmpty fs"
| "IsEmpty bs (CounterCheck c) = Counter_IsEmpty bs c"

fun SetEmpty :: "size_t \<Rightarrow> size_t \<Rightarrow> policy \<Rightarrow> (bool \<times> policy) option" where
  "SetEmpty bs Index (FlagsCheck fs) = map_option (map_prod id FlagsCheck) (Flags_SetEmpty Index fs)"
| "SetEmpty bs Index (CounterCheck c) = Some (map_prod id CounterCheck (Counter_SetEmpty bs c))"

fun SetSomeEmpty :: "size_t \<Rightarrow> size_t \<Rightarrow> size_t \<Rightarrow> policy \<Rightarrow> (bool \<times> policy) option" where
  "SetSomeEmpty bs Index Count (FlagsCheck fs) =
     map_option (map_prod id FlagsCheck) (Flags_SetSomeEmpty Index Count fs)"
| "SetSomeEmpty bs Index Count (CounterCheck c) =
     Some (map_prod id CounterCheck (Counter_SetSomeEmpty bs Count c))"

fun SetAllEmpty :: "size_t \<Rightarrow> policy \<Rightarrow> policy" where
  "SetAllEmpty bs (FlagsCheck fs) = FlagsCheck (Flags_SetAllEmpty fs)"
| "SetAllEmpty bs (CounterCheck c) = CounterCheck (Counter_SetAllEmpty bs c)"

fun ResetPolicy :: "policy \<Rightarrow> policy" where
  "ResetPolicy (FlagsCheck fs) = FlagsCheck (Flags_Reset fs)"
| "ResetPolicy (CounterCheck c) = CounterCheck (Counter_Reset c)"

lemma SetEmpty_eq_SetSomeEmpty: "SetEmpty bs i p = SetSomeEmpty bs i 1 p"
  by (cases p) (simp_all add: Flags_SetEmpty_def Flags_SetSomeEmpty_def Counter_SetEmpty_def
      Counter_SetSomeEmpty_def)

section \<open>The contract of a policy\<close>

text \<open>The concept \<^verbatim>\<open>IsBlock\<close> asks of \<^verbatim>\<open>BlockSize\<close>: greater than one, a single bit set.\<close>

definition block_size :: "nat \<Rightarrow> bool" where
  "block_size n \<longleftrightarrow> (\<exists>k \<in> {1..<64}. n = 2 ^ k)"

lemma block_sizeD: "block_size n \<Longrightarrow> 1 < n \<and> n < 2 ^ 64"
  using power_strict_increasing [of _ 64 "2::nat"] one_less_power [of "2::nat"]
  by (fastforce simp: block_size_def)

text \<open>
  \<open>rep S p\<close>: the policy \<open>p\<close> records that exactly the slots of \<open>S\<close> (a subset of the
  block's slots) have been emptied since the last reset.  The counter policy only knows how
  many, so its clients may mark a slot only once; that is the disjointness condition.
\<close>

locale emptiness_policy =
  fixes n :: nat
    and rep :: "nat set \<Rightarrow> 'p \<Rightarrow> bool"
    and wf :: "'p \<Rightarrow> bool"
    and is_empty :: "'p \<Rightarrow> bool"
    and set_some :: "nat \<Rightarrow> nat \<Rightarrow> 'p \<Rightarrow> (bool \<times> 'p) option"
    and set_all :: "'p \<Rightarrow> 'p"
    and reset :: "'p \<Rightarrow> 'p"
    and meaningful :: "'p \<Rightarrow> bool"
  assumes pos: "wf p \<Longrightarrow> 0 < n"
    and rep_wf: "rep S p \<Longrightarrow> wf p"
    and rep_sub: "rep S p \<Longrightarrow> S \<subseteq> {..<n}"
    and rep_reset: "wf p \<Longrightarrow> rep {} (reset p)"
    and rep_all: "wf p \<Longrightarrow> rep {..<n} (set_all p)"
    and rep_empty: "rep S p \<Longrightarrow> is_empty p \<longleftrightarrow> S = {..<n}"
    and rep_some: "rep S p \<Longrightarrow> i + c \<le> n \<Longrightarrow> {i..<i + c} \<inter> S = {} \<Longrightarrow>
      \<exists>p'. set_some i c p = Some (meaningful p \<and> S \<union> {i..<i + c} = {..<n}, p')
        \<and> rep (S \<union> {i..<i + c}) p'"
begin

lemma reset_not_empty: "wf p \<Longrightarrow> \<not> is_empty (reset p)"
  using rep_empty [OF rep_reset] pos by auto

lemma all_is_empty: "wf p \<Longrightarrow> is_empty (set_all p)"
  using rep_empty [OF rep_all] by simp

lemma rep_one:
  assumes "rep S p" "i < n" "i \<notin> S"
  shows "\<exists>p'. set_some i 1 p = Some (meaningful p \<and> insert i S = {..<n}, p') \<and> rep (insert i S) p'"
proof -
  have "{i..<i + 1} = {i}" by auto
  with rep_some [OF assms(1), of i 1] assms(2,3) show ?thesis by simp
qed

text \<open>Marking slots one after the other, in any order.\<close>

fun mark_each :: "nat list \<Rightarrow> 'p \<Rightarrow> 'p option" where
  "mark_each [] p = Some p"
| "mark_each (i # is) p = Option.bind (set_some i 1 p) (\<lambda>(r, p'). mark_each is p')"

lemma mark_each_rep:
  "rep S p \<Longrightarrow> distinct is \<Longrightarrow> set is \<subseteq> {..<n} - S \<Longrightarrow>
     \<exists>p'. mark_each is p = Some p' \<and> rep (S \<union> set is) p'"
proof (induction "is" arbitrary: S p)
  case Nil
  then show ?case by simp
next
  case (Cons i "is")
  then obtain p' where p': "set_some i 1 p = Some (meaningful p \<and> insert i S = {..<n}, p')"
      "rep (insert i S) p'"
    using rep_one [OF Cons.prems(1), of i] by auto
  with Cons.IH [OF p'(2)] Cons.prems show ?case by auto
qed

text \<open>A block is found empty exactly when every slot has been marked.\<close>

lemma mark_each_empty_iff:
  assumes "wf p" "distinct is" "set is \<subseteq> {..<n}"
  shows "\<exists>p'. mark_each is (reset p) = Some p' \<and> (is_empty p' \<longleftrightarrow> length is = n)"
proof -
  obtain p' where p': "mark_each is (reset p) = Some p'" "rep (set is) p'"
    using mark_each_rep [OF rep_reset [OF assms(1)] assms(2)] assms(3) by auto
  have "set is = {..<n} \<longleftrightarrow> length is = n"
    by (metis assms(2,3) card_lessThan card_subset_eq distinct_card finite_lessThan)
  with p' rep_empty show ?thesis by auto
qed

end

subsection \<open>The flags policy\<close>

definition flags_wf :: "nat \<Rightarrow> flags \<Rightarrow> bool" where
  "flags_wf n fs \<longleftrightarrow> block_size n \<and> length fs = n"

definition flags_rep :: "nat \<Rightarrow> nat set \<Rightarrow> flags \<Rightarrow> bool" where
  "flags_rep n S fs \<longleftrightarrow> flags_wf n fs \<and> S = {i. i < n \<and> fs ! i \<noteq> 0}"

lemma Flags_SetSome_loop_eq:
  "unat i + c \<le> length fs \<Longrightarrow> length fs < 2 ^ 64 \<Longrightarrow>
     \<exists>fs'. Flags_SetSome_loop c i fs = Some fs' \<and> length fs' = length fs
       \<and> (\<forall>j < length fs. fs' ! j = (if unat i \<le> j \<and> j < unat i + c then 1 else fs ! j))"
proof (induction c arbitrary: i fs)
  case 0
  then show ?case by auto
next
  case (Suc c)
  have i1: "unat (i + 1) = unat i + 1"
    using Suc.prems by (simp add: unat_word_ariths)
  have "\<exists>fs'. Flags_SetSome_loop c (i + 1) (fs[unat i := 1]) = Some fs' \<and> length fs' = length fs
       \<and> (\<forall>j < length fs. fs' ! j =
            (if unat (i + 1) \<le> j \<and> j < unat (i + 1) + c then 1 else fs[unat i := 1] ! j))"
    using Suc.IH [of "i + 1" "fs[unat i := 1]"] Suc.prems i1 by simp
  then obtain fs' where fs': "Flags_SetSome_loop c (i + 1) (fs[unat i := 1]) = Some fs'"
    "length fs' = length fs" "\<And>j. j < length fs \<Longrightarrow> fs' ! j =
       (if unat i + 1 \<le> j \<and> j < unat i + 1 + c then 1 else fs[unat i := 1] ! j)"
    unfolding i1 by blast
  have "fs' ! j = (if unat i \<le> j \<and> j < unat i + Suc c then 1 else fs ! j)"
    if "j < length fs" for j
    using fs'(3) [OF that] that by (auto simp: nth_list_update)
  with fs'(1,2) Suc.prems show ?case by auto
qed

interpretation flags: emptiness_policy n "flags_rep n" "flags_wf n" Flags_IsEmpty
    "\<lambda>i c. Flags_SetSomeEmpty (of_nat i) (of_nat c)" Flags_SetAllEmpty Flags_Reset "\<lambda>_. False"
  for n
proof
  fix S p i c
  show "flags_wf n p \<Longrightarrow> 0 < n" by (auto simp: flags_wf_def dest: block_sizeD)
  show "flags_rep n S p \<Longrightarrow> flags_wf n p" by (simp add: flags_rep_def)
  show "flags_rep n S p \<Longrightarrow> S \<subseteq> {..<n}" by (auto simp: flags_rep_def)
  show "flags_wf n p \<Longrightarrow> flags_rep n {} (Flags_Reset p)"
    by (simp add: flags_rep_def flags_wf_def Flags_Reset_def)
  show "flags_wf n p \<Longrightarrow> flags_rep n {..<n} (Flags_SetAllEmpty p)"
    by (auto simp: flags_rep_def flags_wf_def Flags_SetAllEmpty_def)
  show "flags_rep n S p \<Longrightarrow> Flags_IsEmpty p \<longleftrightarrow> S = {..<n}"
    by (auto simp: flags_rep_def flags_wf_def Flags_IsEmpty_def list_all_length)
  assume r: "flags_rep n S p" and ic: "i + c \<le> n" and d: "{i..<i + c} \<inter> S = {}"
  then have n: "n < 2 ^ 64" "length p = n"
    by (auto simp: flags_rep_def flags_wf_def dest: block_sizeD)
  have u: "unat (of_nat i :: size_t) = i" "unat (of_nat c :: size_t) = c"
    using ic n(1) by (simp_all add: unat_of_nat_small)
  obtain p' where p': "Flags_SetSome_loop c (of_nat i) p = Some p'" "length p' = n"
    "\<And>j. j < n \<Longrightarrow> p' ! j = (if i \<le> j \<and> j < i + c then 1 else p ! j)"
    using Flags_SetSome_loop_eq [of "of_nat i" c p] r ic n unfolding u flags_rep_def by auto
  have "S \<union> {i..<i + c} = {j. j < n \<and> p' ! j \<noteq> 0}"
    using r p'(3) ic by (auto simp: flags_rep_def split: if_splits)
  with p' r have "flags_rep n (S \<union> {i..<i + c}) p'"
    by (auto simp: flags_rep_def flags_wf_def)
  with p'(1) show "\<exists>p'. Flags_SetSomeEmpty (of_nat i) (of_nat c) p
      = Some (False \<and> S \<union> {i..<i + c} = {..<n}, p') \<and> flags_rep n (S \<union> {i..<i + c}) p'"
    by (simp add: Flags_SetSomeEmpty_def u)
qed

subsection \<open>The counter policy\<close>

definition counter_rep :: "nat \<Rightarrow> nat set \<Rightarrow> size_t \<Rightarrow> bool" where
  "counter_rep n S c \<longleftrightarrow> block_size n \<and> S \<subseteq> {..<n} \<and> c = of_nat (card S)"

lemma card_full: "S \<subseteq> {..<n} \<Longrightarrow> card S \<le> n \<and> (card S = n \<longleftrightarrow> S = {..<n})"
  using card_mono [of "{..<n}" S] card_subset_eq [of "{..<n}" S] by auto

lemma of_nat_size_eq:
  assumes "m \<le> n" "n < 2 ^ 64"
  shows "(of_nat m = (of_nat n :: size_t)) \<longleftrightarrow> m = n"
proof
  assume "of_nat m = (of_nat n :: size_t)"
  then have "unat (of_nat m :: size_t) = unat (of_nat n :: size_t)" by (rule arg_cong)
  moreover have "m < 2 ^ 64" using assms by (rule le_less_trans)
  ultimately show "m = n" using assms(2) by (simp add: unat_of_nat)
qed simp

interpretation counter: emptiness_policy n "counter_rep n" "\<lambda>_. block_size n"
    "Counter_IsEmpty (of_nat n)"
    "\<lambda>i c p. Some (Counter_SetSomeEmpty (of_nat n) (of_nat c) p)"
    "Counter_SetAllEmpty (of_nat n)" Counter_Reset "\<lambda>_. True"
  for n
proof
  fix S p i c
  show "block_size n \<Longrightarrow> 0 < n" by (auto dest: block_sizeD)
  show "counter_rep n S p \<Longrightarrow> block_size n" by (simp add: counter_rep_def)
  show "counter_rep n S p \<Longrightarrow> S \<subseteq> {..<n}" by (simp add: counter_rep_def)
  show "block_size n \<Longrightarrow> counter_rep n {} (Counter_Reset p)"
    by (simp add: counter_rep_def Counter_Reset_def)
  show "block_size n \<Longrightarrow> counter_rep n {..<n} (Counter_SetAllEmpty (of_nat n) p)"
    by (simp add: counter_rep_def Counter_SetAllEmpty_def)
  show "counter_rep n S p \<Longrightarrow> Counter_IsEmpty (of_nat n) p \<longleftrightarrow> S = {..<n}"
    using card_full [of S n] of_nat_size_eq [of "card S" n] block_sizeD [of n]
    by (auto simp: counter_rep_def Counter_IsEmpty_def)
  assume r: "counter_rep n S p" and ic: "i + c \<le> n" and d: "{i..<i + c} \<inter> S = {}"
  then have n: "n < 2 ^ 64" "block_size n" by (auto simp: counter_rep_def dest: block_sizeD)
  have sub: "S \<union> {i..<i + c} \<subseteq> {..<n}" using r ic by (auto simp: counter_rep_def)
  then have "finite S" by (metis finite_Un finite_lessThan finite_subset)
  then have "card (S \<union> {i..<i + c}) = card S + c"
    using d by (simp add: card_Un_disjoint Int_commute)
  then have p: "p + of_nat c = of_nat (card (S \<union> {i..<i + c}))"
    using r by (simp add: counter_rep_def)
  show "\<exists>p'. Some (Counter_SetSomeEmpty (of_nat n) (of_nat c) p)
      = Some (True \<and> S \<union> {i..<i + c} = {..<n}, p') \<and> counter_rep n (S \<union> {i..<i + c}) p'"
    using n sub card_full [OF sub] of_nat_size_eq [of "card (S \<union> {i..<i + c})" n]
    by (simp add: Counter_SetSomeEmpty_def counter_rep_def p)
qed

subsection \<open>The policy of a block\<close>

fun policy_wf :: "nat \<Rightarrow> policy \<Rightarrow> bool" where
  "policy_wf n (FlagsCheck fs) = flags_wf n fs"
| "policy_wf n (CounterCheck c) = block_size n"

fun policy_rep :: "nat \<Rightarrow> nat set \<Rightarrow> policy \<Rightarrow> bool" where
  "policy_rep n S (FlagsCheck fs) = flags_rep n S fs"
| "policy_rep n S (CounterCheck c) = counter_rep n S c"

interpretation policy: emptiness_policy n "policy_rep n" "policy_wf n" "IsEmpty (of_nat n)"
    "\<lambda>i c. SetSomeEmpty (of_nat n) (of_nat i) (of_nat c)" "SetAllEmpty (of_nat n)" ResetPolicy
    HasMeaningfulSetResult
  for n
proof
  fix S p i c
  show "policy_wf n p \<Longrightarrow> 0 < n" by (cases p) (simp_all add: flags.pos counter.pos)
  show "policy_rep n S p \<Longrightarrow> policy_wf n p" by (cases p) (simp_all add: flags.rep_wf counter.rep_wf)
  show "policy_rep n S p \<Longrightarrow> S \<subseteq> {..<n}"
    by (cases p) (simp_all add: flags.rep_sub counter.rep_sub)
  show "policy_wf n p \<Longrightarrow> policy_rep n {} (ResetPolicy p)"
    by (cases p) (simp_all add: flags.rep_reset counter.rep_reset)
  show "policy_wf n p \<Longrightarrow> policy_rep n {..<n} (SetAllEmpty (of_nat n) p)"
    by (cases p) (simp_all add: flags.rep_all counter.rep_all)
  show "policy_rep n S p \<Longrightarrow> IsEmpty (of_nat n) p \<longleftrightarrow> S = {..<n}"
    by (cases p) (simp_all add: flags.rep_empty counter.rep_empty)
  show "policy_rep n S p \<Longrightarrow> i + c \<le> n \<Longrightarrow> {i..<i + c} \<inter> S = {} \<Longrightarrow>
      \<exists>p'. SetSomeEmpty (of_nat n) (of_nat i) (of_nat c) p
          = Some (HasMeaningfulSetResult p \<and> S \<union> {i..<i + c} = {..<n}, p')
        \<and> policy_rep n (S \<union> {i..<i + c}) p'"
    using flags.rep_some [of n S _ i c] counter.rep_some [of n S _ i c] by (cases p) fastforce+
qed

section \<open>The block\<close>

text \<open>
  \<^verbatim>\<open>HakleBlock\<close> with its bases \<^verbatim>\<open>FreeListNode\<close> and \<^verbatim>\<open>MemoryBase\<close>.  \<^verbatim>\<open>Elements\<close> is raw storage for
  \<^verbatim>\<open>BLOCK_SIZE\<close> values; the model records which of them are live.
\<close>

record 'a block =
  HasOwner :: bool
  FreeListRefs :: u32
  FreeListNext :: "addr option"
  Policy :: policy
  Elements :: "'a slots"
  Next :: "addr option"

text \<open>A default-constructed block: \<^verbatim>\<open>std::array<std::atomic<...>>\<close> is value-initialised.\<close>

definition new_block :: "bool \<Rightarrow> nat \<Rightarrow> 'a block" where
  "new_block counter bs = \<lparr>HasOwner = False, FreeListRefs = 0, FreeListNext = None,
     Policy = (if counter then CounterCheck 0 else FlagsCheck (replicate bs 0)),
     Elements = replicate bs None, Next = None\<rparr>"

definition block_wf :: "nat \<Rightarrow> 'a block \<Rightarrow> bool" where
  "block_wf n b \<longleftrightarrow> policy_wf n (Policy b) \<and> length (Elements b) = n"

lemma new_block_wf: "block_size n \<Longrightarrow> block_wf n (new_block c n)"
  by (simp add: block_wf_def new_block_def flags_wf_def)

lemma SetEmpty_meaningful: "SetEmpty bs i p = Some (r, p') \<Longrightarrow> HasMeaningfulSetResult p' = HasMeaningfulSetResult p"
  by (cases p) (auto simp: map_prod_def split: prod.splits)

end
