(* ===== verification/Free_List.thy ===== *)
theory Free_List
  imports Block
begin

text \<open>
  The block heap and \<^verbatim>\<open>FreeList\<close> / \<^verbatim>\<open>FreeList_DAS\<close> of \<^verbatim>\<open>ConcurrentQueue/BlockManager.h\<close>, as a
  single thread runs them.  Every compare-and-swap keeps both of its branches; the loops that a
  failed exchange restarts are partial functions, so a list on which \<^verbatim>\<open>TryGet\<close> would spin has
  the value \<open>None\<close>, and termination is part of what is proved.
\<close>

section \<open>The heap of blocks\<close>

text \<open>
  \<open>Blocks\<close> holds the constructed blocks, \<open>Alloc a\<close> the size of the live allocation that starts
  at \<open>a\<close> (0 if there is none), \<open>Brk\<close> the next fresh address.  \<open>Quota\<close> is the number of
  allocations that still succeed: at 0 the allocator throws \<^verbatim>\<open>std::bad_alloc\<close>.
\<close>

record 'a heap =
  Blocks :: "'a block store"
  Alloc :: "addr \<Rightarrow> nat"
  Brk :: addr
  Quota :: nat

definition Allocate :: "nat \<Rightarrow> 'a heap \<Rightarrow> addr res \<times> 'a heap" where
  "Allocate n h = (if Quota h = 0 then (Exn, h)
     else (Ret (Brk h), h\<lparr>Alloc := (Alloc h)(Brk h := n), Brk := Brk h + n, Quota := Quota h - 1\<rparr>))"

definition Deallocate :: "addr option \<Rightarrow> nat \<Rightarrow> 'a heap \<Rightarrow> 'a heap option" where
  "Deallocate p n h = (case p of None \<Rightarrow> Some h
     | Some a \<Rightarrow> if 0 < n \<and> Alloc h a = n then Some (h\<lparr>Alloc := (Alloc h)(a := 0)\<rparr>) else None)"

definition Construct :: "addr \<Rightarrow> 'a block \<Rightarrow> 'a heap \<Rightarrow> 'a heap" where
  "Construct a b h = h\<lparr>Blocks := (Blocks h)(a \<mapsto> b)\<rparr>"

definition Destroy :: "addr \<Rightarrow> 'a heap \<Rightarrow> 'a heap option" where
  "Destroy a h = (case Blocks h a of None \<Rightarrow> None
     | Some _ \<Rightarrow> Some (h\<lparr>Blocks := (Blocks h)(a := None)\<rparr>))"

definition upd :: "addr option \<Rightarrow> ('a block \<Rightarrow> 'a block) \<Rightarrow> 'a heap \<Rightarrow> 'a heap option" where
  "upd p f h = map_option (\<lambda>bl. h\<lparr>Blocks := bl\<rparr>) (modify (Blocks h) p f)"

lemma upd_Some [heap_simps]:
  "Blocks h a = Some b \<Longrightarrow> upd (Some a) f h = Some (h\<lparr>Blocks := (Blocks h)(a \<mapsto> f b)\<rparr>)"
  by (simp add: upd_def modify_Some)

lemma upd_eq_Some:
  "upd p f h = Some h' \<longleftrightarrow>
     (\<exists>a b. p = Some a \<and> Blocks h a = Some b \<and> h' = h\<lparr>Blocks := (Blocks h)(a \<mapsto> f b)\<rparr>)"
  by (auto simp: upd_def modify_eq_Some)

section \<open>FreeList\<close>

text \<open>The state of a free list is its \<^verbatim>\<open>Head\<close>, written \<open>hp\<close> below.\<close>

definition RefsMask :: u32 where "RefsMask = 0x7fffffff"
definition AddFlag :: u32 where "AddFlag = 0x80000000"

definition fetch_add_refs :: "addr \<Rightarrow> u32 \<Rightarrow> 'a heap \<Rightarrow> (u32 \<times> 'a heap) option" where
  "fetch_add_refs a d h = do {
     b \<leftarrow> Blocks h a;
     h' \<leftarrow> upd (Some a) (\<lambda>b. b\<lparr>FreeListRefs := FreeListRefs b + d\<rparr>) h;
     Some (FreeListRefs b, h') }"

text \<open>
  \<^verbatim>\<open>InnerAdd\<close>.  The loop state is the local \<^verbatim>\<open>CurrentHead\<close>, the heap and the list's head; a
  failed exchange reloads \<^verbatim>\<open>CurrentHead\<close> from the head.
\<close>

definition InnerAdd_body :: "addr \<Rightarrow> addr option \<times> 'a heap \<times> addr option
    \<Rightarrow> ((addr option \<times> 'a heap \<times> addr option) + ('a heap \<times> addr option)) option" where
  "InnerAdd_body InNode = (\<lambda>(CurrentHead, h, hp). do {
     h1 \<leftarrow> upd (Some InNode) (\<lambda>b. b\<lparr>FreeListNext := CurrentHead, FreeListRefs := 1\<rparr>) h;
     if hp = CurrentHead then Some (Inr (h1, Some InNode))
     else do {
       (old, h2) \<leftarrow> fetch_add_refs InNode (AddFlag - 1) h1;
       if old = 1 then Some (Inl (hp, h2, hp)) else Some (Inr (h2, hp)) } })"

definition InnerAdd :: "addr \<Rightarrow> 'a heap \<Rightarrow> addr option \<Rightarrow> ('a heap \<times> addr option) option" where
  "InnerAdd InNode h hp = loop (InnerAdd_body InNode) (hp, h, hp)"

definition FreeList_Add :: "addr \<Rightarrow> 'a heap \<Rightarrow> addr option \<Rightarrow> ('a heap \<times> addr option) option" where
  "FreeList_Add InNode h hp = do {
     (old, h1) \<leftarrow> fetch_add_refs InNode AddFlag h;
     if old = 0 then InnerAdd InNode h1 hp else Some (h1, hp) }"

text \<open>
  The loop of \<^verbatim>\<open>TryGet\<close>; \<open>cur\<close> is the local \<^verbatim>\<open>CurrentHead\<close>.  A node whose reference count is 0
  makes the loop reload the head and try again.
\<close>

definition TryGet_body :: "addr option \<times> 'a heap \<times> addr option
    \<Rightarrow> ((addr option \<times> 'a heap \<times> addr option) + (addr option \<times> 'a heap \<times> addr option)) option"
where
  "TryGet_body = (\<lambda>(cur, h, hp). case cur of None \<Rightarrow> Some (Inr (None, h, hp))
     | Some c \<Rightarrow> do {
         b \<leftarrow> Blocks h c;
         let Refs = FreeListRefs b;
         if Refs AND RefsMask = 0 then Some (Inl (hp, h, hp))
         else do {
           h1 \<leftarrow> upd cur (\<lambda>b. b\<lparr>FreeListRefs := Refs + 1\<rparr>) h;
           let next = FreeListNext b;
           if hp = cur then do {
             (_, h2) \<leftarrow> fetch_add_refs c (- 2) h1;
             Some (Inr (cur, h2, next)) }
           else do {
             (Refs', h2) \<leftarrow> fetch_add_refs c (- 1) h1;
             if Refs' = AddFlag + 1 then do {
               (h3, hp3) \<leftarrow> InnerAdd c h2 hp;
               Some (Inl (hp, h3, hp3)) }
             else Some (Inl (hp, h2, hp)) } } })"

definition FreeList_TryGet :: "'a heap \<Rightarrow> addr option \<Rightarrow> (addr option \<times> 'a heap \<times> addr option) option" where
  "FreeList_TryGet h hp = loop TryGet_body (hp, h, hp)"

definition FreeList_Clear_body :: "addr option \<times> 'a heap \<Rightarrow> ((addr option \<times> 'a heap) + 'a heap) option" where
  "FreeList_Clear_body = (\<lambda>(cur, h). case cur of None \<Rightarrow> Some (Inr h)
     | Some c \<Rightarrow> do {
         b \<leftarrow> Blocks h c;
         let next = FreeListNext b;
         if \<not> HasOwner b then do {
           h1 \<leftarrow> Destroy c h;
           h2 \<leftarrow> Deallocate cur 1 h1;
           Some (Inl (next, h2)) }
         else Some (Inl (next, h)) })"

definition FreeList_Clear :: "'a heap \<Rightarrow> addr option \<Rightarrow> 'a heap option" where
  "FreeList_Clear h hp = loop FreeList_Clear_body (hp, h)"

definition FreeList_Reset :: "addr option \<Rightarrow> addr option" where
  "FreeList_Reset hp = None"

text \<open>Move construction and assignment, and \<^verbatim>\<open>swap\<close>, on the heads of two lists over one heap.\<close>

definition FreeList_move :: "addr option \<Rightarrow> addr option \<times> addr option" where
  "FreeList_move Other = (Other, FreeList_Reset Other)"

definition FreeList_move_assign ::
  "'a heap \<Rightarrow> addr option \<Rightarrow> addr option \<Rightarrow> ('a heap \<times> addr option \<times> addr option) option" where
  "FreeList_move_assign h this Other = do {
     h' \<leftarrow> FreeList_Clear h this;
     Some (h', Other, FreeList_Reset Other) }"

definition FreeList_swap :: "addr option \<Rightarrow> addr option \<Rightarrow> addr option \<times> addr option" where
  "FreeList_swap this Other = SwapRelaxed this Other"

section \<open>FreeList_DAS\<close>

text \<open>The variant with a tagged head; the tag is a \<^verbatim>\<open>uint16_t\<close> and wraps.\<close>

record head_ptr =
  Ptr :: "addr option"
  Tag :: "16 word"

definition DAS_Add_body :: "addr \<Rightarrow> head_ptr \<times> 'a heap \<times> head_ptr
    \<Rightarrow> ((head_ptr \<times> 'a heap \<times> head_ptr) + ('a heap \<times> head_ptr)) option" where
  "DAS_Add_body InNode = (\<lambda>(CurrentHead, h, hp). do {
     let NewHead = \<lparr>Ptr = Some InNode, Tag = Tag CurrentHead + 1\<rparr>;
     h1 \<leftarrow> upd (Some InNode) (\<lambda>b. b\<lparr>FreeListNext := Ptr CurrentHead\<rparr>) h;
     if hp = CurrentHead then Some (Inr (h1, NewHead)) else Some (Inl (hp, h1, hp)) })"

definition DAS_Add :: "addr \<Rightarrow> 'a heap \<Rightarrow> head_ptr \<Rightarrow> ('a heap \<times> head_ptr) option" where
  "DAS_Add InNode h hp = loop (DAS_Add_body InNode) (hp, h, hp)"

definition DAS_TryGet_body :: "'a heap \<Rightarrow> head_ptr \<times> head_ptr
    \<Rightarrow> ((head_ptr \<times> head_ptr) + (addr option \<times> head_ptr)) option" where
  "DAS_TryGet_body h = (\<lambda>(CurrentHead, hp). case Ptr CurrentHead of None \<Rightarrow> Some (Inr (None, hp))
     | Some c \<Rightarrow> do {
         b \<leftarrow> Blocks h c;
         let NewHead = \<lparr>Ptr = FreeListNext b, Tag = Tag CurrentHead + 1\<rparr>;
         if hp = CurrentHead then Some (Inr (Some c, NewHead)) else Some (Inl (hp, hp)) })"

definition DAS_TryGet :: "'a heap \<Rightarrow> head_ptr \<Rightarrow> (addr option \<times> head_ptr) option" where
  "DAS_TryGet h hp = loop (DAS_TryGet_body h) (hp, hp)"

text \<open>\<^verbatim>\<open>Clear\<close> is the loop of \<^verbatim>\<open>FreeList\<close> from the pointer in the head; \<^verbatim>\<open>Reset\<close> also sets the tag back.\<close>

definition DAS_Clear :: "'a heap \<Rightarrow> head_ptr \<Rightarrow> 'a heap option" where
  "DAS_Clear h hp = loop FreeList_Clear_body (Ptr hp, h)"

definition DAS_Reset :: "head_ptr \<Rightarrow> head_ptr" where
  "DAS_Reset hp = \<lparr>Ptr = None, Tag = 0\<rparr>"

definition DAS_move :: "head_ptr \<Rightarrow> head_ptr \<times> head_ptr" where
  "DAS_move Other = (Other, DAS_Reset Other)"

definition DAS_move_assign :: "'a heap \<Rightarrow> head_ptr \<Rightarrow> head_ptr \<Rightarrow> ('a heap \<times> head_ptr \<times> head_ptr) option" where
  "DAS_move_assign h this Other = do {
     h' \<leftarrow> DAS_Clear h this;
     Some (h', Other, DAS_Reset Other) }"

section \<open>Well-formed free lists\<close>

text \<open>The nodes of the list in order, each with the list's own reference and nothing else.\<close>

fun fl_list :: "'a block store \<Rightarrow> addr option \<Rightarrow> addr list \<Rightarrow> bool" where
  "fl_list bl p [] \<longleftrightarrow> p = None"
| "fl_list bl p (a # as) \<longleftrightarrow> p = Some a \<and>
     (\<exists>b. bl a = Some b \<and> FreeListRefs b = 1 \<and> fl_list bl (FreeListNext b) as)"

fun das_list :: "'a block store \<Rightarrow> addr option \<Rightarrow> addr list \<Rightarrow> bool" where
  "das_list bl p [] \<longleftrightarrow> p = None"
| "das_list bl p (a # as) \<longleftrightarrow> p = Some a \<and> (\<exists>b. bl a = Some b \<and> das_list bl (FreeListNext b) as)"

lemma fl_list_frame: "(\<And>a. a \<in> set as \<Longrightarrow> bl' a = bl a) \<Longrightarrow> fl_list bl' p as = fl_list bl p as"
  by (induction as arbitrary: p) auto

lemma fl_list_upd [simp]: "a \<notin> set as \<Longrightarrow> fl_list (bl(a := x)) p as = fl_list bl p as"
  by (rule fl_list_frame) auto

lemma das_list_frame: "(\<And>a. a \<in> set as \<Longrightarrow> bl' a = bl a) \<Longrightarrow> das_list bl' p as = das_list bl p as"
  by (induction as arbitrary: p) auto

lemma das_list_upd [simp]: "a \<notin> set as \<Longrightarrow> das_list (bl(a := x)) p as = das_list bl p as"
  by (rule das_list_frame) auto

lemma fl_list_mem: "fl_list bl p as \<Longrightarrow> a \<in> set as \<Longrightarrow> \<exists>b. bl a = Some b \<and> FreeListRefs b = 1"
  by (induction as arbitrary: p) auto

lemma fl_list_unique: "fl_list bl p as \<Longrightarrow> fl_list bl p bs \<Longrightarrow> as = bs"
proof (induction as arbitrary: p bs)
  case Nil
  then show ?case by (cases bs) auto
next
  case (Cons a as)
  then show ?case by (cases bs) auto
qed

lemma refs_masks [simp]: "(1 :: u32) AND RefsMask \<noteq> 0" "AddFlag \<noteq> 0" "AddFlag + 1 \<noteq> 2"
  by (simp_all add: RefsMask_def AddFlag_def)

text \<open>\<^verbatim>\<open>Add\<close> of a node nobody references puts it in front.\<close>

lemma FreeList_Add_spec:
  assumes "fl_list (Blocks h) hp as" "a \<notin> set as" "Blocks h a = Some b" "FreeListRefs b = 0"
  shows "FreeList_Add a h hp =
      Some (h\<lparr>Blocks := (Blocks h)(a \<mapsto> b\<lparr>FreeListNext := hp, FreeListRefs := 1\<rparr>)\<rparr>, Some a)"
    and "fl_list ((Blocks h)(a \<mapsto> b\<lparr>FreeListNext := hp, FreeListRefs := 1\<rparr>)) (Some a) (a # as)"
  using assms
  by (simp_all add: FreeList_Add_def InnerAdd_def InnerAdd_body_def loop.simps fetch_add_refs_def heap_simps)

text \<open>\<^verbatim>\<open>TryGet\<close> returns the front node and releases both references, so its count is 0 again.\<close>

lemma FreeList_TryGet_spec:
  assumes "fl_list (Blocks h) hp as"
  shows "FreeList_TryGet h hp = (case as of [] \<Rightarrow> Some (None, h, hp)
     | a # as' \<Rightarrow> (case Blocks h a of None \<Rightarrow> None | Some b \<Rightarrow>
         Some (Some a, h\<lparr>Blocks := (Blocks h)(a \<mapsto> b\<lparr>FreeListRefs := 0\<rparr>)\<rparr>, FreeListNext b)))"
  using assms
  by (cases as) (auto simp: FreeList_TryGet_def TryGet_body_def loop.simps fetch_add_refs_def heap_simps)

text \<open>\<^verbatim>\<open>Clear\<close> frees exactly the nodes without an owner.\<close>

fun unowned :: "'a block store \<Rightarrow> addr list \<Rightarrow> addr list" where
  "unowned bl [] = []"
| "unowned bl (a # as) =
     (case bl a of Some b \<Rightarrow> if HasOwner b then unowned bl as else a # unowned bl as
      | None \<Rightarrow> unowned bl as)"

lemma unowned_upd [simp]: "a \<notin> set as \<Longrightarrow> unowned (bl(a := x)) as = unowned bl as"
  by (induction as) (auto split: option.splits)

lemma set_unowned: "set (unowned bl as) \<subseteq> set as"
  by (induction as) (auto split: option.splits)

lemma FreeList_Clear_spec:
  assumes "fl_list (Blocks h) hp as" "distinct as"
    and "\<And>a b. a \<in> set as \<Longrightarrow> Blocks h a = Some b \<Longrightarrow> \<not> HasOwner b \<Longrightarrow> Alloc h a = 1"
  shows "FreeList_Clear h hp = Some (h\<lparr>
      Blocks := (\<lambda>a. if a \<in> set (unowned (Blocks h) as) then None else Blocks h a),
      Alloc := (\<lambda>a. if a \<in> set (unowned (Blocks h) as) then 0 else Alloc h a)\<rparr>)"
  using assms unfolding FreeList_Clear_def
proof (induction as arbitrary: h hp)
  case Nil
  then show ?case by (simp add: FreeList_Clear_body_def loop_exit)
next
  case (Cons a as)
  then obtain b where b: "hp = Some a" "Blocks h a = Some b" "FreeListRefs b = 1"
      "fl_list (Blocks h) (FreeListNext b) as" "a \<notin> set as" "distinct as"
    by auto
  show ?case
  proof (cases "HasOwner b")
    case True
    have "loop FreeList_Clear_body (hp, h) = loop FreeList_Clear_body (FreeListNext b, h)"
      using b True by (intro loop_again) (simp add: FreeList_Clear_body_def)
    with Cons.IH [OF b(4,6)] Cons.prems(3) b(2) True show ?thesis by simp
  next
    case False
    let ?h = "h\<lparr>Blocks := (Blocks h)(a := None), Alloc := (Alloc h)(a := 0)\<rparr>"
    have a1: "Alloc h a = 1" using Cons.prems(3) b(2) False by simp
    have "loop FreeList_Clear_body (hp, h) = loop FreeList_Clear_body (FreeListNext b, ?h)"
      using b False a1
      by (intro loop_again) (simp add: FreeList_Clear_body_def Destroy_def Deallocate_def)
    also have "\<dots> = Some (?h\<lparr>
        Blocks := (\<lambda>x. if x \<in> set (unowned (Blocks ?h) as) then None else Blocks ?h x),
        Alloc := (\<lambda>x. if x \<in> set (unowned (Blocks ?h) as) then 0 else Alloc ?h x)\<rparr>)"
    proof (rule Cons.IH)
      show "fl_list (Blocks ?h) (FreeListNext b) as" using b by simp
      show "distinct as" by (rule b)
      show "Alloc ?h x = 1" if "x \<in> set as" "Blocks ?h x = Some y" "\<not> HasOwner y" for x y
        using that Cons.prems(3) b(5) by (auto split: if_splits)
    qed
    finally show ?thesis
      using b False by (auto simp: fun_eq_iff intro!: arg_cong [where f = "\<lambda>f. h\<lparr>Blocks := fst f, Alloc := snd f\<rparr>"])
  qed
qed

text \<open>The tagged list: a stack, and every successful operation increments the tag.\<close>

lemma DAS_Add_spec:
  assumes "das_list (Blocks h) (Ptr hp) as" "a \<notin> set as" "Blocks h a = Some b"
  shows "\<exists>h'. DAS_Add a h hp = Some (h', \<lparr>Ptr = Some a, Tag = Tag hp + 1\<rparr>)
      \<and> das_list (Blocks h') (Some a) (a # as)"
proof -
  have "das_list ((Blocks h)(a \<mapsto> b\<lparr>FreeListNext := Ptr hp\<rparr>)) (Ptr hp) as"
    using assms(1,2) by simp
  with assms(3) show ?thesis
    by (simp add: DAS_Add_def DAS_Add_body_def loop.simps heap_simps)
qed

lemma DAS_TryGet_spec:
  assumes "das_list (Blocks h) (Ptr hp) as"
  shows "DAS_TryGet h hp = (case as of [] \<Rightarrow> Some (None, hp)
     | a # as' \<Rightarrow> (case Blocks h a of None \<Rightarrow> None | Some b \<Rightarrow>
         Some (Some a, \<lparr>Ptr = FreeListNext b, Tag = Tag hp + 1\<rparr>)))"
  using assms by (cases as) (auto simp: DAS_TryGet_def DAS_TryGet_body_def loop.simps)

text \<open>The memory before any allocation, with room for \<open>N\<close> of them.\<close>

definition empty_heap :: "nat \<Rightarrow> 'a heap" where
  "empty_heap N = \<lparr>Blocks = Map.empty, Alloc = (\<lambda>_. 0), Brk = 0, Quota = N\<rparr>"

end
