(* ===== verification/Block_Manager.thy ===== *)
theory Block_Manager
  imports Free_List
begin

text \<open>
  \<^verbatim>\<open>BlockPool\<close> and \<^verbatim>\<open>HakleBlockManager\<close> of \<^verbatim>\<open>ConcurrentQueue/BlockManager.h\<close>, their invariant, and
  the contract \<open>block_provider\<close> through which the queues use a manager.
\<close>

section \<open>BlockPool\<close>

datatype AllocMode = CanAlloc | CannotAlloc

record pool =
  Pool_Size :: size_t
  Pool_Head :: "addr option"
  Pool_Index :: size_t

definition empty_pool :: pool where
  "empty_pool = \<lparr>Pool_Size = 0, Pool_Head = None, Pool_Index = 0\<rparr>"

text \<open>
  The constructor: one allocation, then every block is constructed (\<open>proto\<close> is the
  default-constructed block of the block type) and marked as owned.
\<close>

fun BlockPool_fill :: "'a block \<Rightarrow> addr \<Rightarrow> nat \<Rightarrow> 'a heap \<Rightarrow> 'a heap option" where
  "BlockPool_fill proto a 0 h = Some h"
| "BlockPool_fill proto a (Suc n) h = do {
     let h1 = Construct a proto h;
     h2 \<leftarrow> upd (Some a) (\<lambda>b. b\<lparr>HasOwner := True\<rparr>) h1;
     BlockPool_fill proto (a + 1) n h2 }"

definition BlockPool_new :: "'a block \<Rightarrow> size_t \<Rightarrow> 'a heap \<Rightarrow> (pool res \<times> 'a heap) option" where
  "BlockPool_new proto InSize h =
     (if InSize > 0 then
        (case Allocate (unat InSize) h of
           (Exn, h1) \<Rightarrow> Some (Exn, h1)
         | (Ret a, h1) \<Rightarrow> do {
             h2 \<leftarrow> BlockPool_fill proto a (unat InSize) h1;
             Some (Ret \<lparr>Pool_Size = InSize, Pool_Head = Some a, Pool_Index = 0\<rparr>, h2) })
      else Some (Ret \<lparr>Pool_Size = InSize, Pool_Head = None, Pool_Index = 0\<rparr>, h))"

fun DestroyN :: "addr \<Rightarrow> nat \<Rightarrow> 'a heap \<Rightarrow> 'a heap option" where
  "DestroyN a 0 h = Some h"
| "DestroyN a (Suc n) h = do { h1 \<leftarrow> Destroy a h; DestroyN (a + 1) n h1 }"

definition BlockPool_Clear :: "pool \<Rightarrow> 'a heap \<Rightarrow> 'a heap option" where
  "BlockPool_Clear p h = do {
     h1 \<leftarrow> (case Pool_Head p of
              None \<Rightarrow> Some h
            | Some a \<Rightarrow> DestroyN a (unat (Pool_Size p)) h);
     Deallocate (Pool_Head p) (unat (Pool_Size p)) h1 }"

definition BlockPool_Reset :: "pool \<Rightarrow> pool" where
  "BlockPool_Reset p = p\<lparr>Pool_Size := 0, Pool_Head := None, Pool_Index := 0\<rparr>"

definition BlockPool_move :: "pool \<Rightarrow> pool \<times> pool" where
  "BlockPool_move Other = (Other, BlockPool_Reset Other)"

definition BlockPool_move_assign :: "pool \<Rightarrow> pool \<Rightarrow> 'a heap \<Rightarrow> (pool \<times> pool \<times> 'a heap) option" where
  "BlockPool_move_assign this Other h = do {
     h1 \<leftarrow> BlockPool_Clear this h;
     Some (Other, BlockPool_Reset Other, h1) }"

definition BlockPool_swap :: "pool \<Rightarrow> pool \<Rightarrow> pool \<times> pool" where
  "BlockPool_swap this Other =
     (let (i, i') = SwapRelaxed (Pool_Index this) (Pool_Index Other)
      in (\<lparr>Pool_Size = Pool_Size Other, Pool_Head = Pool_Head Other, Pool_Index = i\<rparr>,
          \<lparr>Pool_Size = Pool_Size this, Pool_Head = Pool_Head this, Pool_Index = i'\<rparr>))"

text \<open>
  \<^verbatim>\<open>GetBlock\<close>: the pre-check keeps the counter from running away; the second check decides.  A
  pool whose index reads below its size has storage, so \<^verbatim>\<open>Head + CurrentIndex\<close> is a pointer.
\<close>

definition GetBlock :: "pool \<Rightarrow> addr option \<times> pool" where
  "GetBlock p = (if Pool_Index p \<ge> Pool_Size p then (None, p)
     else let CurrentIndex = Pool_Index p; p1 = p\<lparr>Pool_Index := Pool_Index p + 1\<rparr>
          in (if CurrentIndex < Pool_Size p
              then map_option (\<lambda>a. a + unat CurrentIndex) (Pool_Head p) else None, p1))"

section \<open>HakleBlockManager\<close>

record mgr =
  Pool :: pool
  FList :: "addr option"

text \<open>The manager together with the heap its allocator serves.\<close>

record 'a mem =
  Hp :: "'a heap"
  Mg :: mgr

definition BlockManager_new :: "'a block \<Rightarrow> size_t \<Rightarrow> 'a heap \<Rightarrow> (mgr res \<times> 'a heap) option" where
  "BlockManager_new proto InSize h = do {
     (r, h1) \<leftarrow> BlockPool_new proto InSize h;
     Some (case r of Exn \<Rightarrow> Exn | Ret p \<Rightarrow> Ret \<lparr>Pool = p, FList = None\<rparr>, h1) }"

text \<open>The defaulted destructor runs the members' destructors in reverse order: list, then pool.\<close>

definition BlockManager_destroy :: "'a mem \<Rightarrow> 'a heap option" where
  "BlockManager_destroy s = do {
     h1 \<leftarrow> FreeList_Clear (Hp s) (FList (Mg s));
     BlockPool_Clear (Pool (Mg s)) h1 }"

definition BlockManager_move_assign :: "mgr \<Rightarrow> mgr \<Rightarrow> 'a heap \<Rightarrow> (mgr \<times> mgr \<times> 'a heap) option" where
  "BlockManager_move_assign this Other h = do {
     (h1, l, l') \<leftarrow> FreeList_move_assign h (FList this) (FList Other);
     (p, p', h2) \<leftarrow> BlockPool_move_assign (Pool this) (Pool Other) h1;
     Some (\<lparr>Pool = p, FList = l\<rparr>, \<lparr>Pool = p', FList = l'\<rparr>, h2) }"

definition BlockManager_swap :: "mgr \<Rightarrow> mgr \<Rightarrow> mgr \<times> mgr" where
  "BlockManager_swap this Other =
     (let (p, p') = BlockPool_swap (Pool this) (Pool Other);
          (l, l') = FreeList_swap (FList this) (FList Other)
      in (\<lparr>Pool = p, FList = l\<rparr>, \<lparr>Pool = p', FList = l'\<rparr>))"

definition RequisitionBlock ::
  "'a block \<Rightarrow> AllocMode \<Rightarrow> 'a mem \<Rightarrow> (addr option res \<times> 'a mem) option" where
  "RequisitionBlock proto Mode s =
     (let (Block, p) = GetBlock (Pool (Mg s)); s1 = s\<lparr>Mg := (Mg s)\<lparr>Pool := p\<rparr>\<rparr> in
      if Block \<noteq> None then Some (Ret Block, s1)
      else do {
        (Block, h2, l) \<leftarrow> FreeList_TryGet (Hp s1) (FList (Mg s1));
        let s2 = s1\<lparr>Hp := h2, Mg := (Mg s1)\<lparr>FList := l\<rparr>\<rparr>;
        if Block \<noteq> None then Some (Ret Block, s2)
        else if Mode = CannotAlloc then Some (Ret None, s2)
        else (case Allocate 1 h2 of
                (Exn, h3) \<Rightarrow> Some (Exn, s2\<lparr>Hp := h3\<rparr>)
              | (Ret NewBlock, h3) \<Rightarrow>
                  Some (Ret (Some NewBlock), s2\<lparr>Hp := Construct NewBlock proto h3\<rparr>)) })"

definition ReturnBlock :: "addr \<Rightarrow> 'a mem \<Rightarrow> 'a mem option" where
  "ReturnBlock InBlock s = do {
     (h1, l) \<leftarrow> FreeList_Add InBlock (Hp s) (FList (Mg s));
     Some (s\<lparr>Hp := h1, Mg := (Mg s)\<lparr>FList := l\<rparr>\<rparr>) }"

definition ReturnBlocks_body :: "addr option \<times> 'a mem \<Rightarrow> ((addr option \<times> 'a mem) + 'a mem) option" where
  "ReturnBlocks_body = (\<lambda>(InBlock, s). case InBlock of None \<Rightarrow> Some (Inr s)
     | Some a \<Rightarrow> do {
         b \<leftarrow> Blocks (Hp s) a;
         s1 \<leftarrow> ReturnBlock a s;
         Some (Inl (Next b, s1)) })"

definition ReturnBlocks :: "addr option \<Rightarrow> 'a mem \<Rightarrow> 'a mem option" where
  "ReturnBlocks InBlock s = loop ReturnBlocks_body (InBlock, s)"

text \<open>The queues' own accesses to blocks.\<close>

abbreviation blk :: "'a mem \<Rightarrow> addr \<Rightarrow> 'a block option" where
  "blk s \<equiv> Blocks (Hp s)"

definition put :: "addr \<Rightarrow> 'a block \<Rightarrow> 'a mem \<Rightarrow> 'a mem" where
  "put a b s = s\<lparr>Hp := (Hp s)\<lparr>Blocks := (Blocks (Hp s))(a \<mapsto> b)\<rparr>\<rparr>"

lemma blk_put [simp]: "blk (put a b s) = (blk s)(a \<mapsto> b)"
  by (simp add: put_def)

lemma Mg_put [simp]: "Mg (put a b s) = Mg s"
  by (simp add: put_def)

lemma put_put [simp]: "put a b (put a b' s) = put a b s"
  by (simp add: put_def)

section \<open>The invariant of a manager\<close>

text \<open>
  \<open>pool_blocks\<close> are the blocks of the pool, \<open>pool_avail\<close> those it has not handed out yet.
  \<open>mgr_inv bs s U\<close>: the constructed blocks are partitioned into those in the hands of clients
  (\<open>U\<close>), the nodes of the free list and the pool's remaining ones; a free-list node carries
  exactly the list's reference, every other block none; blocks outside \<open>U\<close> hold no value; the
  blocks without an owner are single allocations, those with one belong to the pool.
  \<open>mem_bound\<close> is the size of the machine: the blocks that exist or can still be allocated have
  less than \<open>2 ^ 63\<close> slots.
\<close>

definition pool_blocks :: "pool \<Rightarrow> addr set" where
  "pool_blocks p = (case Pool_Head p of None \<Rightarrow> {} | Some a \<Rightarrow> {a..<a + unat (Pool_Size p)})"

definition pool_avail :: "pool \<Rightarrow> addr set" where
  "pool_avail p = (case Pool_Head p of None \<Rightarrow> {}
     | Some a \<Rightarrow> {a + unat (Pool_Index p)..<a + unat (Pool_Size p)})"

definition raw :: "'a block \<Rightarrow> bool" where
  "raw b \<longleftrightarrow> (\<forall>x \<in> set (Elements b). x = None)"

definition pool_wf :: "'a heap \<Rightarrow> pool \<Rightarrow> bool" where
  "pool_wf h p \<longleftrightarrow> (Pool_Head p = None \<longrightarrow> Pool_Size p = 0) \<and> Pool_Index p \<le> Pool_Size p
     \<and> (\<forall>a. Pool_Head p = Some a \<longrightarrow> Alloc h a = unat (Pool_Size p) \<and> 0 < Pool_Size p)"

definition mem_bound :: "nat \<Rightarrow> 'a heap \<Rightarrow> bool" where
  "mem_bound bs h \<longleftrightarrow> (card (dom (Blocks h)) + Quota h) * bs < 2 ^ 63"

lemma mem_bound_less:
  "mem_bound bs h \<Longrightarrow> Blocks h' = Blocks h \<Longrightarrow> Quota h' \<le> Quota h \<Longrightarrow> mem_bound bs h'"
  unfolding mem_bound_def by (erule le_less_trans [rotated]) (simp add: mult_le_mono1)

definition block_ok :: "nat \<Rightarrow> 'a heap \<Rightarrow> pool \<Rightarrow> addr set \<Rightarrow> addr list \<Rightarrow> addr \<Rightarrow> 'a block \<Rightarrow> bool" where
  "block_ok bs h p U as a b \<longleftrightarrow> block_wf bs b \<and> (HasOwner b \<longleftrightarrow> a \<in> pool_blocks p)
     \<and> (a \<notin> pool_blocks p \<longrightarrow> Alloc h a = 1) \<and> (a \<notin> set as \<longrightarrow> FreeListRefs b = 0)
     \<and> (a \<notin> U \<longrightarrow> raw b) \<and> a < Brk h"

definition mgr_inv_with :: "nat \<Rightarrow> 'a mem \<Rightarrow> addr set \<Rightarrow> addr list \<Rightarrow> bool" where
  "mgr_inv_with bs s U as \<longleftrightarrow> (let h = Hp s; p = Pool (Mg s) in
     pool_wf h p \<and> fl_list (Blocks h) (FList (Mg s)) as \<and> distinct as
     \<and> set as \<inter> pool_avail p = {} \<and> U \<inter> set as = {} \<and> U \<inter> pool_avail p = {}
     \<and> dom (Blocks h) = U \<union> set as \<union> pool_avail p \<and> pool_blocks p \<subseteq> dom (Blocks h)
     \<and> (\<forall>a b. Blocks h a = Some b \<longrightarrow> block_ok bs h p U as a b) \<and> mem_bound bs h)"

definition mgr_inv :: "nat \<Rightarrow> 'a mem \<Rightarrow> addr set \<Rightarrow> bool" where
  "mgr_inv bs s U \<longleftrightarrow> (\<exists>as. mgr_inv_with bs s U as)"

lemma mgr_inv_withD:
  assumes "mgr_inv_with bs s U as"
  shows "pool_wf (Hp s) (Pool (Mg s))" "fl_list (blk s) (FList (Mg s)) as" "distinct as"
    "set as \<inter> pool_avail (Pool (Mg s)) = {}" "U \<inter> set as = {}" "U \<inter> pool_avail (Pool (Mg s)) = {}"
    "dom (blk s) = U \<union> set as \<union> pool_avail (Pool (Mg s))"
    "pool_blocks (Pool (Mg s)) \<subseteq> dom (blk s)"
    "\<And>a b. blk s a = Some b \<Longrightarrow> block_ok bs (Hp s) (Pool (Mg s)) U as a b"
    "mem_bound bs (Hp s)" "finite (dom (blk s))"
proof -
  show "finite (dom (blk s))"
    using assms finite_subset [of "dom (blk s)" "{..<Brk (Hp s)}"]
    by (fastforce simp: mgr_inv_with_def Let_def block_ok_def)
qed (use assms in \<open>auto simp: mgr_inv_with_def Let_def\<close>)

text \<open>The state of a block a manager has just handed out.\<close>

definition fresh_block :: "nat \<Rightarrow> 'a block \<Rightarrow> bool" where
  "fresh_block bs b \<longleftrightarrow> block_wf bs b \<and> raw b"

text \<open>What a client may do to a block it holds: anything but the manager's own fields.\<close>

definition client_write :: "nat \<Rightarrow> 'a block \<Rightarrow> 'a block \<Rightarrow> bool" where
  "client_write bs b b' \<longleftrightarrow> block_wf bs b' \<and> HasOwner b' = HasOwner b \<and> FreeListRefs b' = FreeListRefs b"

lemma pool_avail_sub: "pool_avail p \<subseteq> pool_blocks p"
  by (auto simp: pool_avail_def pool_blocks_def split: option.splits)

lemma GetBlock_spec:
  assumes "pool_wf h p"
  shows "(pool_avail p = {} \<and> GetBlock p = (None, p)) \<or>
    (\<exists>a. GetBlock p = (Some a, p\<lparr>Pool_Index := Pool_Index p + 1\<rparr>) \<and> a \<in> pool_avail p
       \<and> pool_avail (p\<lparr>Pool_Index := Pool_Index p + 1\<rparr>) = pool_avail p - {a}
       \<and> pool_blocks (p\<lparr>Pool_Index := Pool_Index p + 1\<rparr>) = pool_blocks p
       \<and> pool_wf h (p\<lparr>Pool_Index := Pool_Index p + 1\<rparr>))"
proof (cases "Pool_Index p < Pool_Size p")
  case False
  with assms have "pool_avail p = {}"
    by (auto simp: pool_avail_def pool_wf_def word_le_nat_alt not_less split: option.splits)
  with False show ?thesis by (simp add: GetBlock_def not_less)
next
  case True
  then obtain a where a: "Pool_Head p = Some a"
    using assms by (cases "Pool_Head p") (auto simp: pool_wf_def)
  have u: "unat (Pool_Index p + 1) = unat (Pool_Index p) + 1"
    using True by (rule unat_inc)
  have "Pool_Index p + 1 \<le> Pool_Size p"
    using True u by (simp add: word_le_nat_alt word_less_nat_alt)
  then show ?thesis
    using True a u assms
    by (auto simp: GetBlock_def pool_avail_def pool_blocks_def pool_wf_def not_le word_less_nat_alt
        Let_def)
qed


text \<open>The three sources of a block: the pool, the free list, the allocator.\<close>

lemma mgr_take_pool:
  assumes "mgr_inv_with bs s U as" "a \<in> pool_avail (Pool (Mg s))"
    and "pool_avail p' = pool_avail (Pool (Mg s)) - {a}" "pool_blocks p' = pool_blocks (Pool (Mg s))"
    and "pool_wf (Hp s) p'"
  shows "mgr_inv_with bs (s\<lparr>Mg := (Mg s)\<lparr>Pool := p'\<rparr>\<rparr>) (insert a U) as"
  using assms by (fastforce simp: mgr_inv_with_def Let_def block_ok_def)

lemma mgr_take_list:
  assumes "mgr_inv_with bs s U (a # as)" "blk s a = Some b"
  shows "mgr_inv_with bs (s\<lparr>Hp := (Hp s)\<lparr>Blocks := (blk s)(a \<mapsto> b\<lparr>FreeListRefs := 0\<rparr>)\<rparr>,
      Mg := (Mg s)\<lparr>FList := FreeListNext b\<rparr>\<rparr>) (insert a U) as"
  using assms
  by (auto simp: mgr_inv_with_def Let_def block_ok_def pool_wf_def block_wf_def raw_def mem_bound_def
      insert_absorb)

lemma mgr_take_new:
  assumes inv: "mgr_inv_with bs s U as"
    and proto: "fresh_block bs proto" "\<not> HasOwner proto" "FreeListRefs proto = 0"
    and h: "Allocate 1 (Hp s) = (Ret a, h)"
  shows "mgr_inv_with bs (s\<lparr>Hp := Construct a proto h\<rparr>) (insert a U) as" "a \<notin> dom (blk s)"
proof -
  from h have h: "a = Brk (Hp s)" "h = (Hp s)\<lparr>Alloc := (Alloc (Hp s))(a := 1), Brk := a + 1,
      Quota := Quota (Hp s) - 1\<rparr>"
    by (auto simp: Allocate_def split: if_splits)
  have lt: "x < a" if "x \<in> dom (blk s)" for x
    using mgr_inv_withD(9) [OF inv] that by (auto simp: block_ok_def h(1))
  then show "a \<notin> dom (blk s)" by blast
  have "Pool_Head (Pool (Mg s)) \<noteq> Some a"
    using mgr_inv_withD(1,8) [OF inv] lt
    by (fastforce simp: pool_wf_def pool_blocks_def word_less_nat_alt)
  let ?s = "s\<lparr>Hp := Construct a proto h\<rparr>" and ?p = "Pool (Mg s)"
  note d = mgr_inv_withD [OF inv]
  have blk: "blk ?s = (blk s)(a \<mapsto> proto)" by (simp add: Construct_def h(2))
  have out: "a \<notin> U" "a \<notin> set as" "a \<notin> pool_avail ?p" "a \<notin> pool_blocks ?p"
    using d(7,8) lt by blast+
  have ok: "block_ok bs (Hp ?s) ?p (insert a U) as x b" if "blk ?s x = Some b" for x b
  proof (cases "x = a")
    case True
    with that proto out show ?thesis
      by (auto simp: block_ok_def blk fresh_block_def Construct_def h(2))
  next
    case False
    with that blk have x: "blk s x = Some b" by simp
    then have "x < a" using lt by blast
    with d(9) [OF x] show ?thesis
      by (auto simp: block_ok_def Construct_def h(2))
  qed
  have "pool_wf (Hp ?s) ?p"
    using d(1) \<open>Pool_Head ?p \<noteq> Some a\<close> by (auto simp: pool_wf_def Construct_def h(2))
  moreover have "mem_bound bs (Hp ?s)"
  proof -
    have "0 < Quota (Hp s)" using assms(5) by (auto simp: Allocate_def split: if_splits)
    moreover have "a \<notin> dom (blk s)" using lt by blast
    ultimately show ?thesis
      using d(10,11) by (simp add: mem_bound_def blk Construct_def h(2))
  qed
  ultimately show "mgr_inv_with bs ?s (insert a U) as"
    using d(1-9) blk out ok
    by (auto simp: mgr_inv_with_def Let_def)
qed

text \<open>All blocks have the policy of one kind: a manager serves blocks of one type.\<close>

definition uniform :: "bool \<Rightarrow> 'a mem \<Rightarrow> bool" where
  "uniform c s \<longleftrightarrow> (\<forall>a b. blk s a = Some b \<longrightarrow> HasMeaningfulSetResult (Policy b) = c)"

definition req_frame :: "'a block \<Rightarrow> 'a mem \<Rightarrow> 'a mem \<Rightarrow> bool" where
  "req_frame proto s s' \<longleftrightarrow> Quota (Hp s) \<le> Quota (Hp s') + 1
     \<and> (uniform (HasMeaningfulSetResult (Policy proto)) s \<longrightarrow>
        uniform (HasMeaningfulSetResult (Policy proto)) s')"

lemma req_frame_refl [simp]: "req_frame proto s s"
  by (simp add: req_frame_def)

lemma req_frame_Mg [simp]: "req_frame proto s (s\<lparr>Mg := m\<rparr>)"
  by (simp add: req_frame_def uniform_def)

lemma RequisitionBlock_spec:
  assumes inv: "mgr_inv bs s U"
    and proto: "fresh_block bs proto" "\<not> HasOwner proto" "FreeListRefs proto = 0"
  shows "\<exists>r s'. RequisitionBlock proto mode s = Some (r, s') \<and> (\<forall>a \<in> U. blk s' a = blk s a)
    \<and> req_frame proto s s'
    \<and> (case r of Exn \<Rightarrow> mode = CanAlloc \<and> s' = s \<and> Quota (Hp s) = 0
        | Ret None \<Rightarrow> mode = CannotAlloc \<and> s' = s
        | Ret (Some a) \<Rightarrow> a \<notin> U \<and> mgr_inv bs s' (insert a U)
          \<and> (\<exists>b. blk s' a = Some b \<and> fresh_block bs b))"
proof -
  obtain as where as: "mgr_inv_with bs s U as" using inv by (auto simp: mgr_inv_def)
  note d = mgr_inv_withD [OF as]
  let ?p = "Pool (Mg s)"
  have same: "s\<lparr>Mg := (Mg s)\<lparr>Pool := ?p\<rparr>\<rparr> = s" by simp
  consider (pool) a p' where "GetBlock ?p = (Some a, p')" "a \<in> pool_avail ?p"
      "pool_avail p' = pool_avail ?p - {a}" "pool_blocks p' = pool_blocks ?p" "pool_wf (Hp s) p'"
    | (empty) "GetBlock ?p = (None, ?p)"
    using GetBlock_spec [OF d(1)] by blast
  then show ?thesis
  proof cases
    case pool
    have "a \<in> dom (blk s)" "a \<notin> U" using d pool(2) by blast+
    moreover from this obtain b where "blk s a = Some b" by blast
    moreover from this d(9) have "fresh_block bs b"
      using \<open>a \<notin> U\<close> by (auto simp: block_ok_def fresh_block_def)
    moreover have "RequisitionBlock proto mode s
        = Some (Ret (Some a), s\<lparr>Mg := (Mg s)\<lparr>Pool := p'\<rparr>\<rparr>)"
      using pool(1) by (simp add: RequisitionBlock_def)
    ultimately show ?thesis
      using mgr_take_pool [OF as pool(2-5)] by (auto simp: mgr_inv_def)
  next
    case empty
    show ?thesis
    proof (cases as)
      case (Cons a as')
      obtain b where b: "blk s a = Some b" using fl_list_mem [OF d(2), of a] Cons by auto
      have U: "a \<notin> U" "block_ok bs (Hp s) ?p U as a b" using d(5,9) b Cons by auto
      let ?s = "s\<lparr>Hp := (Hp s)\<lparr>Blocks := (blk s)(a \<mapsto> b\<lparr>FreeListRefs := 0\<rparr>)\<rparr>,
        Mg := (Mg s)\<lparr>FList := FreeListNext b\<rparr>\<rparr>"
      have "RequisitionBlock proto mode s = Some (Ret (Some a), ?s)"
        using FreeList_TryGet_spec [OF d(2)] empty b Cons by (simp add: RequisitionBlock_def)
      moreover have "fresh_block bs (b\<lparr>FreeListRefs := 0\<rparr>)"
        using U by (simp add: block_ok_def fresh_block_def block_wf_def raw_def)
      moreover have "mgr_inv bs ?s (insert a U)"
        using mgr_take_list [OF as [unfolded Cons] b] by (auto simp: mgr_inv_def)
      moreover have "req_frame proto s ?s" using b by (auto simp: req_frame_def uniform_def)
      ultimately show ?thesis using U(1) by auto
    next
      case Nil
      have tg: "FreeList_TryGet (Hp s) (FList (Mg s)) = Some (None, Hp s, FList (Mg s))"
        "FList (Mg s) = None"
        using FreeList_TryGet_spec [OF d(2)] d(2) Nil by simp_all
      show ?thesis
      proof (cases "mode = CanAlloc")
        case False
        then have "mode = CannotAlloc" by (cases mode) simp_all
        then show ?thesis using empty tg by (simp add: RequisitionBlock_def)
      next
        case True
        show ?thesis
        proof (cases "Allocate 1 (Hp s)")
          case (Pair r h)
          show ?thesis
          proof (cases r)
            case Exn
            with Pair True empty tg show ?thesis
              by (auto simp: RequisitionBlock_def Allocate_def split: if_splits)
          next
            case (Ret a)
            note new = mgr_take_new [OF as proto Pair [unfolded Ret]]
            have "blk (s\<lparr>Hp := Construct a proto h\<rparr>) = (blk s)(a \<mapsto> proto)"
              using Pair Ret by (auto simp: Allocate_def Construct_def split: if_splits)
            moreover have "a \<notin> U" using new(2) d(7) by blast
            moreover have "req_frame proto s (s\<lparr>Hp := Construct a proto h\<rparr>)"
              using Pair Ret
              by (auto simp: req_frame_def uniform_def Allocate_def Construct_def split: if_splits)
            ultimately show ?thesis
              using Pair Ret True empty tg(1) new(1) proto(1)
              by (auto simp: RequisitionBlock_def mgr_inv_def)
          qed
        qed
      qed
    qed
  qed
qed


text \<open>\<^verbatim>\<open>ReturnBlock\<close> takes back a block that holds no value.\<close>

lemma ReturnBlock_spec:
  assumes inv: "mgr_inv bs s U" and a: "a \<in> U" "blk s a = Some b" "raw b"
  shows "\<exists>s'. ReturnBlock a s = Some s' \<and> mgr_inv bs s' (U - {a})
    \<and> (\<forall>x. x \<noteq> a \<longrightarrow> blk s' x = blk s x) \<and> map_option Next (blk s' a) = Some (Next b)
    \<and> Quota (Hp s') = Quota (Hp s) \<and> (\<forall>c. uniform c s \<longrightarrow> uniform c s')"
proof -
  obtain as where as: "mgr_inv_with bs s U as" using inv by (auto simp: mgr_inv_def)
  note d = mgr_inv_withD [OF as]
  let ?b = "b\<lparr>FreeListNext := FList (Mg s), FreeListRefs := 1\<rparr>"
  let ?h = "(Hp s)\<lparr>Blocks := (blk s)(a \<mapsto> ?b)\<rparr>"
  let ?s = "s\<lparr>Hp := ?h, Mg := (Mg s)\<lparr>FList := Some a\<rparr>\<rparr>"
  have out: "a \<notin> set as" "a \<notin> pool_avail (Pool (Mg s))" using d(5,6) a(1) by blast+
  have ok: "block_ok bs (Hp s) (Pool (Mg s)) U as a b" using d(9) a(2) by blast
  have ref: "FreeListRefs b = 0" using ok out by (simp add: block_ok_def)
  note add = FreeList_Add_spec [OF d(2) out(1) a(2) ref]
  have run: "ReturnBlock a s = Some ?s" using add(1) by (simp add: ReturnBlock_def)
  have "block_ok bs ?h (Pool (Mg s)) (U - {a}) (a # as) x y"
    if "((blk s)(a \<mapsto> ?b)) x = Some y" for x y
  proof (cases "x = a")
    case True
    with that ok a(3) show ?thesis by (auto simp: block_ok_def block_wf_def raw_def)
  next
    case False
    with that d(9) [of x y] show ?thesis by (auto simp: block_ok_def)
  qed
  moreover have "pool_wf ?h (Pool (Mg s))" using d(1) by (simp add: pool_wf_def)
  moreover have "mem_bound bs ?h" using d(10) a(2) by (simp add: mem_bound_def insert_absorb domI)
  ultimately have "mgr_inv_with bs ?s (U - {a}) (a # as)"
    using d out add(2) a(1) by (auto simp: mgr_inv_with_def Let_def)
  moreover have "uniform c s \<Longrightarrow> uniform c ?s" for c using a(2) by (auto simp: uniform_def)
  ultimately show ?thesis using run by (auto simp: mgr_inv_def)
qed

lemma mgr_inv_put:
  assumes inv: "mgr_inv bs s U" and a: "a \<in> U" "blk s a = Some b" "client_write bs b b'"
  shows "mgr_inv bs (put a b' s) U"
proof -
  obtain as where as: "mgr_inv_with bs s U as" using inv by (auto simp: mgr_inv_def)
  note d = mgr_inv_withD [OF as]
  have out: "a \<notin> set as" using d(5) a(1) by blast
  have "block_ok bs (Hp (put a b' s)) (Pool (Mg s)) U as x y"
    if "((blk s)(a \<mapsto> b')) x = Some y" for x y
    using that d(9) [of x y] d(9) [OF a(2)] a out
    by (auto simp: block_ok_def client_write_def put_def split: if_splits)
  moreover have "pool_wf (Hp (put a b' s)) (Pool (Mg s))" using d(1) by (simp add: pool_wf_def put_def)
  moreover have "mem_bound bs (Hp (put a b' s))"
    using d(10) a(2) by (simp add: mem_bound_def put_def insert_absorb domI)
  ultimately have "mgr_inv_with bs (put a b' s) U as"
    using d out a(1) by (auto simp: mgr_inv_with_def Let_def)
  then show ?thesis by (auto simp: mgr_inv_def)
qed

lemma mgr_inv_dom: "mgr_inv bs s U \<Longrightarrow> a \<in> U \<Longrightarrow> \<exists>b. blk s a = Some b \<and> block_wf bs b"
  using mgr_inv_withD(7,9) by (fastforce simp: mgr_inv_def block_ok_def)

text \<open>Allocations for other purposes leave the manager alone.\<close>

lemma mgr_inv_Allocate:
  assumes inv: "mgr_inv bs s U" and al: "Allocate c (Hp s) = (r, h)"
  shows "mgr_inv bs (s\<lparr>Hp := h\<rparr>) U" "Blocks h = blk s"
    "r = Ret a \<Longrightarrow> a \<notin> dom (blk s) \<and> Pool_Head (Pool (Mg s)) \<noteq> Some a \<and> Alloc h a = c
       \<and> a = Brk (Hp s)"
proof -
  obtain as where as: "mgr_inv_with bs s U as" using inv by (auto simp: mgr_inv_def)
  note d = mgr_inv_withD [OF as]
  have h: "(r = Exn \<and> h = Hp s) \<or> (r = Ret (Brk (Hp s)) \<and> 0 < Quota (Hp s)
      \<and> h = (Hp s)\<lparr>Alloc := (Alloc (Hp s))(Brk (Hp s) := c), Brk := Brk (Hp s) + c, Quota := Quota (Hp s) - 1\<rparr>)"
    using al by (auto simp: Allocate_def split: if_splits)
  have lt: "x < Brk (Hp s)" if "x \<in> dom (blk s)" for x
    using d(9) that by (auto simp: block_ok_def)
  have hd: "Pool_Head (Pool (Mg s)) \<noteq> Some (Brk (Hp s))"
    using d(1,8) lt by (fastforce simp: pool_wf_def pool_blocks_def word_less_nat_alt)
  show "Blocks h = blk s" using h by auto
  show "r = Ret a \<Longrightarrow> a \<notin> dom (blk s) \<and> Pool_Head (Pool (Mg s)) \<noteq> Some a \<and> Alloc h a = c
       \<and> a = Brk (Hp s)"
    using h hd lt by auto
  show "mgr_inv bs (s\<lparr>Hp := h\<rparr>) U"
  proof (cases "r = Exn")
    case True
    with h inv show ?thesis by simp
  next
    case False
    with h have h: "h = (Hp s)\<lparr>Alloc := (Alloc (Hp s))(Brk (Hp s) := c), Brk := Brk (Hp s) + c,
        Quota := Quota (Hp s) - 1\<rparr>" by blast
    have "block_ok bs h (Pool (Mg s)) U as x b" if "blk s x = Some b" for x b
      using d(9) [OF that] lt [of x] that by (auto simp: block_ok_def h)
    moreover have "pool_wf h (Pool (Mg s))" using d(1) hd by (auto simp: pool_wf_def h)
    moreover have "mem_bound bs h"
      using d(10) by (rule mem_bound_less) (simp_all add: h)
    ultimately have "mgr_inv_with bs (s\<lparr>Hp := h\<rparr>) U as"
      using d(2-8) by (simp add: mgr_inv_with_def Let_def h)
    then show ?thesis by (auto simp: mgr_inv_def)
  qed
qed

lemma mgr_inv_Deallocate:
  assumes inv: "mgr_inv bs s U" and a: "a \<notin> dom (blk s)" "Pool_Head (Pool (Mg s)) \<noteq> Some a"
    and "Alloc (Hp s) a = c" "0 < c"
  shows "\<exists>h. Deallocate (Some a) c (Hp s) = Some h \<and> mgr_inv bs (s\<lparr>Hp := h\<rparr>) U
    \<and> h = (Hp s)\<lparr>Alloc := (Alloc (Hp s))(a := 0)\<rparr>"
proof -
  obtain as where as: "mgr_inv_with bs s U as" using inv by (auto simp: mgr_inv_def)
  note d = mgr_inv_withD [OF as]
  let ?h = "(Hp s)\<lparr>Alloc := (Alloc (Hp s))(a := 0)\<rparr>"
  have "block_ok bs ?h (Pool (Mg s)) U as x b" if "blk s x = Some b" for x b
    using d(9) [OF that] that a(1) by (auto simp: block_ok_def)
  moreover have "pool_wf ?h (Pool (Mg s))" using d(1) a(2) by (auto simp: pool_wf_def)
  moreover have "mem_bound bs ?h" using d(10) by (simp add: mem_bound_def)
  ultimately have "mgr_inv_with bs (s\<lparr>Hp := ?h\<rparr>) U as"
    using d(2-8) by (simp add: mgr_inv_with_def Let_def)
  then show ?thesis using assms(4,5) by (auto simp: mgr_inv_def Deallocate_def)
qed

section \<open>Construction and destruction\<close>

lemma BlockPool_fill_eq:
  "BlockPool_fill proto a n h = Some (h\<lparr>Blocks :=
     (\<lambda>x. if a \<le> x \<and> x < a + n then Some (proto\<lparr>HasOwner := True\<rparr>) else Blocks h x)\<rparr>)"
proof (induction n arbitrary: a h)
  case 0
  show ?case by (cases h) (auto simp: fun_eq_iff)
next
  case (Suc n)
  then show ?case
    by (auto simp: Construct_def heap_simps fun_eq_iff intro!: arg_cong [where f = "\<lambda>f. h\<lparr>Blocks := f\<rparr>"])
qed

lemma DestroyN_eq:
  "(\<And>x. a \<le> x \<Longrightarrow> x < a + n \<Longrightarrow> Blocks h x \<noteq> None) \<Longrightarrow> DestroyN a n h = Some (h\<lparr>Blocks :=
     (\<lambda>x. if a \<le> x \<and> x < a + n then None else Blocks h x)\<rparr>)"
proof (induction n arbitrary: a h)
  case 0
  show ?case by (cases h) (auto simp: fun_eq_iff)
next
  case (Suc n)
  then obtain b where "Blocks h a = Some b" by fastforce
  moreover have "DestroyN (a + 1) n (h\<lparr>Blocks := (Blocks h)(a := None)\<rparr>)
      = Some (h\<lparr>Blocks := (\<lambda>x. if a \<le> x \<and> x < a + Suc n then None else Blocks h x)\<rparr>)"
    by (subst Suc.IH) (auto simp: Suc.prems fun_eq_iff intro!: arg_cong [where f = "\<lambda>f. h\<lparr>Blocks := f\<rparr>"])
  ultimately show ?case by (simp add: Destroy_def)
qed

lemma BlockManager_new_spec:
  assumes "Blocks h = Map.empty" "fresh_block bs proto" "FreeListRefs proto = 0"
    and "(unat InSize + Quota h) * bs < 2 ^ 63"
  shows "\<exists>r h'. BlockManager_new proto InSize h = Some (r, h')
    \<and> (case r of Exn \<Rightarrow> 0 < InSize \<and> Quota h = 0 \<and> h' = h
        | Ret m \<Rightarrow> mgr_inv bs \<lparr>Hp = h', Mg = m\<rparr> {} \<and> card (pool_avail (Pool m)) = unat InSize)"
proof (cases "0 < InSize")
  case False
  then have "InSize = 0" by (simp add: word_gt_0)
  then show ?thesis
    using assms by (auto simp: BlockManager_new_def BlockPool_new_def mgr_inv_def mgr_inv_with_def
        Let_def pool_wf_def pool_avail_def pool_blocks_def mem_bound_def intro!: exI [of _ "[]"])
next
  case True
  show ?thesis
  proof (cases "Quota h = 0")
    case True
    with \<open>0 < InSize\<close> show ?thesis
      by (simp add: BlockManager_new_def BlockPool_new_def Allocate_def)
  next
    case False
    let ?n = "unat InSize" and ?a = "Brk h"
    let ?h = "h\<lparr>Blocks := (\<lambda>x. if ?a \<le> x \<and> x < ?a + ?n then Some (proto\<lparr>HasOwner := True\<rparr>) else None),
      Alloc := (Alloc h)(?a := ?n), Brk := ?a + ?n, Quota := Quota h - 1\<rparr>"
    let ?m = "\<lparr>Pool = \<lparr>Pool_Size = InSize, Pool_Head = Some ?a, Pool_Index = 0\<rparr>, FList = None\<rparr>"
    have run: "BlockManager_new proto InSize h = Some (Ret ?m, ?h)"
      using True False assms(1)
      by (cases h) (simp add: BlockManager_new_def BlockPool_new_def Allocate_def BlockPool_fill_eq
          cong: if_cong)
    have dom: "dom (Blocks ?h) = {?a..<?a + ?n}" by (auto split: if_splits)
    have "(?n + (Quota h - 1)) * bs < 2 ^ 63"
      by (rule le_less_trans [OF mult_le_mono1 assms(4)]) simp
    then have "mem_bound bs ?h" by (simp add: mem_bound_def dom [simplified])
    then have "mgr_inv_with bs \<lparr>Hp = ?h, Mg = ?m\<rparr> {} []"
      using assms True
      by (auto simp: mgr_inv_with_def Let_def pool_wf_def pool_avail_def pool_blocks_def block_ok_def
          fresh_block_def block_wf_def raw_def split: if_splits)
    then have "mgr_inv bs \<lparr>Hp = ?h, Mg = ?m\<rparr> {}" by (auto simp: mgr_inv_def)
    then show ?thesis using run by (simp add: pool_avail_def)
  qed
qed

lemma in_unowned: "a \<in> set (unowned bl as) \<longleftrightarrow> a \<in> set as \<and> (\<exists>b. bl a = Some b \<and> \<not> HasOwner b)"
  by (induction as) (auto split: option.splits)

text \<open>
  With no block in the hands of a client, destroying the manager destroys every block and releases
  every allocation of a block.
\<close>

lemma BlockManager_destroy_spec:
  assumes "mgr_inv bs s {}"
  shows "\<exists>h'. BlockManager_destroy s = Some h' \<and> Blocks h' = Map.empty
    \<and> (\<forall>a \<in> dom (blk s). a \<notin> pool_blocks (Pool (Mg s)) \<longrightarrow> Alloc h' a = 0)
    \<and> (\<forall>a. Pool_Head (Pool (Mg s)) = Some a \<longrightarrow> Alloc h' a = 0)"
proof -
  obtain as where as: "mgr_inv_with bs s {} as" using assms by (auto simp: mgr_inv_def)
  note d = mgr_inv_withD [OF as]
  let ?p = "Pool (Mg s)" and ?out = "set (unowned (blk s) as)"
  let ?h = "(Hp s)\<lparr>Blocks := (\<lambda>a. if a \<in> ?out then None else blk s a),
    Alloc := (\<lambda>a. if a \<in> ?out then 0 else Alloc (Hp s) a)\<rparr>"
  have out: "?out = dom (blk s) - pool_blocks ?p"
    using d(7,9) pool_avail_sub [of ?p]
    by (auto simp: in_unowned block_ok_def dom_def set_eq_iff subset_iff) (metis in_mono d(7) domI)+
  have clear: "FreeList_Clear (Hp s) (FList (Mg s)) = Some ?h"
    using d(9) by (intro FreeList_Clear_spec [OF d(2,3)]) (auto simp: block_ok_def)
  show ?thesis
  proof (cases "Pool_Head ?p")
    case None
    then show ?thesis
      using clear out
      by (auto simp: BlockManager_destroy_def BlockPool_Clear_def Deallocate_def pool_blocks_def
          fun_eq_iff dom_def)
  next
    case (Some a)
    then have p: "pool_blocks ?p = {a..<a + unat (Pool_Size ?p)}" "0 < unat (Pool_Size ?p)"
      "Alloc (Hp s) a = unat (Pool_Size ?p)" "a \<notin> ?out"
      using d(1) out by (auto simp: pool_blocks_def pool_wf_def word_less_nat_alt)
    have live: "Blocks ?h x \<noteq> None" if "a \<le> x" "x < a + unat (Pool_Size ?p)" for x
      using that p(1) out d(8) by auto
    have "Blocks ?h x = None" if "x \<notin> pool_blocks ?p" for x
      using that out by (cases "blk s x") auto
    then show ?thesis
      using clear Some p out DestroyN_eq [of a "unat (Pool_Size ?p)" ?h, OF live]
      by (auto simp: BlockManager_destroy_def BlockPool_Clear_def Deallocate_def fun_eq_iff)
  qed
qed

text \<open>\<^verbatim>\<open>ReturnBlocks\<close> returns a whole null-terminated chain.\<close>

fun chain :: "'a block store \<Rightarrow> addr option \<Rightarrow> addr list \<Rightarrow> bool" where
  "chain bl p [] \<longleftrightarrow> p = None"
| "chain bl p (a # as) \<longleftrightarrow> p = Some a \<and> (\<exists>b. bl a = Some b \<and> chain bl (Next b) as)"

lemma chain_cong: "(\<And>a. a \<in> set as \<Longrightarrow> bl' a = bl a) \<Longrightarrow> chain bl' p as = chain bl p as"
  by (induction as arbitrary: p) auto

lemma ReturnBlocks_spec:
  "mgr_inv bs s U \<Longrightarrow> chain (blk s) p as \<Longrightarrow> distinct as \<Longrightarrow> set as \<subseteq> U \<Longrightarrow>
   (\<forall>a \<in> set as. \<exists>b. blk s a = Some b \<and> raw b) \<Longrightarrow>
   \<exists>s'. ReturnBlocks p s = Some s' \<and> mgr_inv bs s' (U - set as)"
  unfolding ReturnBlocks_def
proof (induction as arbitrary: s p U)
  case Nil
  then show ?case by (simp add: ReturnBlocks_body_def loop_exit)
next
  case (Cons a as)
  then obtain b where b: "p = Some a" "blk s a = Some b" "chain (blk s) (Next b) as" "raw b"
    by auto
  obtain s1 where s1: "ReturnBlock a s = Some s1" "mgr_inv bs s1 (U - {a})"
    "\<forall>x. x \<noteq> a \<longrightarrow> blk s1 x = blk s x"
    using ReturnBlock_spec [OF Cons.prems(1) _ b(2,4)] Cons.prems(4) by auto
  have "\<exists>s'. loop ReturnBlocks_body (Next b, s1) = Some s' \<and> mgr_inv bs s' (U - {a} - set as)"
  proof (rule Cons.IH [OF s1(2)])
    show "chain (blk s1) (Next b) as"
    proof (subst chain_cong)
      show "blk s1 x = blk s x" if "x \<in> set as" for x
        using that s1(3) Cons.prems(3) by auto
    qed (rule b(3))
  qed (use Cons.prems s1(3) in auto)
  moreover have "loop ReturnBlocks_body (p, s) = loop ReturnBlocks_body (Next b, s1)"
    using b s1(1) by (intro loop_again) (simp add: ReturnBlocks_body_def)
  ultimately show ?case by (simp add: Diff_insert2 [symmetric])
qed

section \<open>The contract between a queue and its manager\<close>

text \<open>
  What a queue relies on.  \<open>inv m U\<close>: the client holds the blocks \<open>U\<close>; a requisition adds one
  that nobody holds, in the state \<open>fresh\<close>; a held block may be rewritten within \<open>write\<close> and
  may be returned when it is \<open>idle\<close>; no operation touches the other held blocks.
\<close>

locale block_provider =
  fixes inv :: "'m \<Rightarrow> addr set \<Rightarrow> bool"
    and view :: "'m \<Rightarrow> addr \<Rightarrow> 'b option"
    and fresh :: "'b \<Rightarrow> bool"
    and idle :: "'b \<Rightarrow> bool"
    and "write" :: "'b \<Rightarrow> 'b \<Rightarrow> bool"
    and req :: "bool \<Rightarrow> 'm \<Rightarrow> (addr option res \<times> 'm) option"
    and ret :: "addr \<Rightarrow> 'm \<Rightarrow> 'm option"
    and store :: "addr \<Rightarrow> 'b \<Rightarrow> 'm \<Rightarrow> 'm"
  assumes held: "inv m U \<Longrightarrow> a \<in> U \<Longrightarrow> \<exists>b. view m a = Some b"
    and fresh_idle: "fresh b \<Longrightarrow> idle b"
    and req_law: "inv m U \<Longrightarrow> \<exists>r m'. req grow m = Some (r, m') \<and> (\<forall>a \<in> U. view m' a = view m a)
      \<and> (case r of Exn \<Rightarrow> grow \<and> m' = m | Ret None \<Rightarrow> \<not> grow \<and> m' = m
          | Ret (Some a) \<Rightarrow> a \<notin> U \<and> inv m' (insert a U) \<and> (\<exists>b. view m' a = Some b \<and> fresh b))"
    and ret_law: "inv m U \<Longrightarrow> a \<in> U \<Longrightarrow> view m a = Some b \<Longrightarrow> idle b \<Longrightarrow>
      \<exists>m'. ret a m = Some m' \<and> inv m' (U - {a}) \<and> (\<forall>x. x \<noteq> a \<longrightarrow> view m' x = view m x)"
    and store_view: "view (store a b m) = (view m)(a \<mapsto> b)"
    and store_inv: "inv m U \<Longrightarrow> a \<in> U \<Longrightarrow> view m a = Some b \<Longrightarrow> write b b' \<Longrightarrow> inv (store a b' m) U"
begin

text \<open>Returning a set of idle blocks one by one.\<close>

fun ret_all :: "addr list \<Rightarrow> 'm \<Rightarrow> 'm option" where
  "ret_all [] m = Some m"
| "ret_all (a # as) m = Option.bind (ret a m) (ret_all as)"

lemma ret_all_law:
  "inv m U \<Longrightarrow> distinct as \<Longrightarrow> set as \<subseteq> U \<Longrightarrow> (\<forall>a \<in> set as. \<exists>b. view m a = Some b \<and> idle b) \<Longrightarrow>
     \<exists>m'. ret_all as m = Some m' \<and> inv m' (U - set as) \<and> (\<forall>x. x \<notin> set as \<longrightarrow> view m' x = view m x)"
proof (induction as arbitrary: m U)
  case Nil
  then show ?case by simp
next
  case (Cons a as)
  then obtain b m1 where m1: "ret a m = Some m1" "inv m1 (U - {a})"
      "\<forall>x. x \<noteq> a \<longrightarrow> view m1 x = view m x"
    using ret_law [of m U a] by auto
  have "\<exists>m'. ret_all as m1 = Some m' \<and> inv m' (U - {a} - set as)
      \<and> (\<forall>x. x \<notin> set as \<longrightarrow> view m' x = view m1 x)"
    using Cons.prems m1(2,3) by (intro Cons.IH) auto
  with m1 show ?case by (auto simp: Diff_insert2 [symmetric])
qed

text \<open>Requisitioning up to \<open>n\<close> blocks: all of them, or those obtained before the failure.\<close>

fun req_many :: "bool \<Rightarrow> nat \<Rightarrow> 'm \<Rightarrow> (addr list \<times> 'm) option" where
  "req_many grow 0 m = Some ([], m)"
| "req_many grow (Suc n) m = Option.bind (req grow m) (\<lambda>(r, m1).
     case r of Ret (Some a) \<Rightarrow> Option.bind (req_many grow n m1) (\<lambda>(as, m2). Some (a # as, m2))
     | _ \<Rightarrow> Some ([], m1))"

lemma req_many_law:
  "inv m U \<Longrightarrow> \<exists>as m'. req_many grow n m = Some (as, m') \<and> length as \<le> n \<and> distinct as
     \<and> set as \<inter> U = {} \<and> inv m' (U \<union> set as) \<and> (\<forall>a \<in> U. view m' a = view m a)
     \<and> (\<forall>a \<in> set as. \<exists>b. view m' a = Some b \<and> fresh b)"
proof (induction n arbitrary: m U)
  case 0
  then show ?case by simp
next
  case (Suc n)
  obtain r m1 where r: "req grow m = Some (r, m1)" "\<forall>a \<in> U. view m1 a = view m a"
    "case r of Exn \<Rightarrow> grow \<and> m1 = m | Ret None \<Rightarrow> \<not> grow \<and> m1 = m
      | Ret (Some a) \<Rightarrow> a \<notin> U \<and> inv m1 (insert a U) \<and> (\<exists>b. view m1 a = Some b \<and> fresh b)"
    using req_law [OF Suc.prems, of grow] by auto
  show ?case
  proof (cases "\<exists>a. r = Ret (Some a)")
    case True
    then obtain a where a: "r = Ret (Some a)" by blast
    with r(3) have a': "a \<notin> U" "inv m1 (insert a U)" "\<exists>b. view m1 a = Some b \<and> fresh b" by auto
    from Suc.IH [OF a'(2)] show ?thesis using r(1,2) a a' by fastforce
  next
    case False
    then have "req_many grow (Suc n) m = Some ([], m1)" "m1 = m"
      using r by (auto split: res.splits option.splits)
    with Suc.prems show ?thesis by simp
  qed
qed

text \<open>What was requisitioned can be returned: the client is back where it started.\<close>

lemma req_many_ret_all:
  assumes "inv m U"
  shows "\<exists>as m1 m2. req_many grow n m = Some (as, m1) \<and> ret_all as m1 = Some m2 \<and> inv m2 U
    \<and> (\<forall>a \<in> U. view m2 a = view m a)"
proof -
  obtain as m1 where m1: "req_many grow n m = Some (as, m1)" "distinct as" "set as \<inter> U = {}"
    "inv m1 (U \<union> set as)" "\<forall>a \<in> U. view m1 a = view m a"
    "\<forall>a \<in> set as. \<exists>b. view m1 a = Some b \<and> fresh b"
    using req_many_law [OF assms, of grow n] by blast
  obtain m2 where m2: "ret_all as m1 = Some m2" "inv m2 (U \<union> set as - set as)"
    "\<forall>x. x \<notin> set as \<longrightarrow> view m2 x = view m1 x"
    using ret_all_law [OF m1(4,2)] m1(6) fresh_idle by blast
  moreover have "U \<union> set as - set as = U" using m1(3) by blast
  ultimately show ?thesis using m1 by (metis disjoint_iff)
qed

end

definition fresh_proto :: "nat \<Rightarrow> 'a block \<Rightarrow> bool" where
  "fresh_proto bs b \<longleftrightarrow> fresh_block bs b \<and> \<not> HasOwner b \<and> FreeListRefs b = 0"

lemma new_block_proto: "block_size bs \<Longrightarrow> fresh_proto bs (new_block c bs)"
  by (simp add: fresh_proto_def fresh_block_def new_block_wf) (simp add: new_block_def raw_def)

text \<open>The manager provides it; a block is requested from it by mode.\<close>

definition the_mode :: "bool \<Rightarrow> AllocMode" where
  "the_mode grow = (if grow then CanAlloc else CannotAlloc)"

interpretation mgr: block_provider "\<lambda>s U. mgr_inv bs s U \<and> fresh_proto bs proto" "blk :: 'a mem \<Rightarrow> _"
    "fresh_block bs" raw "client_write bs" "\<lambda>grow. RequisitionBlock proto (the_mode grow)"
    ReturnBlock put
  for bs and proto :: "'a block"
proof
  fix m :: "'a mem" and U a b b' grow
  show "mgr_inv bs m U \<and> fresh_proto bs proto \<Longrightarrow> a \<in> U \<Longrightarrow> \<exists>b. blk m a = Some b"
    using mgr_inv_dom by blast
  show "fresh_block bs b \<Longrightarrow> raw b" for b :: "'a block" by (simp add: fresh_block_def)
  show "mgr_inv bs m U \<and> fresh_proto bs proto \<Longrightarrow>
    \<exists>r m'. RequisitionBlock proto (the_mode grow) m = Some (r, m') \<and> (\<forall>a \<in> U. blk m' a = blk m a)
      \<and> (case r of Exn \<Rightarrow> grow \<and> m' = m | Ret None \<Rightarrow> \<not> grow \<and> m' = m
          | Ret (Some a) \<Rightarrow> a \<notin> U \<and> (mgr_inv bs m' (insert a U) \<and> fresh_proto bs proto)
              \<and> (\<exists>b. blk m' a = Some b \<and> fresh_block bs b))"
    using RequisitionBlock_spec [of bs m U proto "the_mode grow"]
    by (fastforce simp: fresh_proto_def the_mode_def split: res.splits option.splits if_splits)
  show "mgr_inv bs m U \<and> fresh_proto bs proto \<Longrightarrow> a \<in> U \<Longrightarrow> blk m a = Some b \<Longrightarrow> raw b \<Longrightarrow>
    \<exists>m'. ReturnBlock a m = Some m' \<and> (mgr_inv bs m' (U - {a}) \<and> fresh_proto bs proto)
      \<and> (\<forall>x. x \<noteq> a \<longrightarrow> blk m' x = blk m x)" for b
    using ReturnBlock_spec [of bs m U a b] by blast
  show "blk (put a b m) = (blk m)(a \<mapsto> b)" for b by simp
  show "mgr_inv bs m U \<and> fresh_proto bs proto \<Longrightarrow> a \<in> U \<Longrightarrow> blk m a = Some b \<Longrightarrow>
    client_write bs b b' \<Longrightarrow> mgr_inv bs (put a b' m) U \<and> fresh_proto bs proto" for b b'
    using mgr_inv_put by blast
qed

section \<open>An empty program\<close>

definition empty_mem :: "nat \<Rightarrow> 'a mem" where
  "empty_mem N = \<lparr>Hp = empty_heap N, Mg = \<lparr>Pool = empty_pool, FList = None\<rparr>\<rparr>"

lemma empty_mem_inv:
  assumes "N * n < 2 ^ 63"
  shows "mgr_inv n (empty_mem N) {}"
proof -
  have "mgr_inv_with n (empty_mem N) {} []"
    using assms by (simp add: mgr_inv_with_def Let_def empty_mem_def empty_heap_def empty_pool_def pool_wf_def
        pool_avail_def pool_blocks_def mem_bound_def)
  then show ?thesis by (auto simp: mgr_inv_def)
qed

lemma empty_mem_uniform: "uniform c (empty_mem N)"
  by (simp add: uniform_def empty_mem_def empty_heap_def)

end
