(* ===== verification/Manager_Properties.thy ===== *)
theory Manager_Properties
  imports Block_Manager
begin

text \<open>
  The promises of blocks, free list and block manager, stated over sequences of operations.
\<close>

section \<open>Emptiness of a block\<close>

text \<open>\<^verbatim>\<open>SetEmpty\<close> on one slot after the other, with the results it returns.\<close>

fun mark_slots :: "size_t \<Rightarrow> nat list \<Rightarrow> policy \<Rightarrow> (bool list \<times> policy) option" where
  "mark_slots bs [] p = Some ([], p)"
| "mark_slots bs (i # is) p = do {
     (r, p1) \<leftarrow> SetEmpty bs (of_nat i) p;
     (rs, p2) \<leftarrow> mark_slots bs is p1;
     Some (r # rs, p2) }"

lemma mark_slots_rep:
  "policy_rep n S p \<Longrightarrow> distinct is \<Longrightarrow> set is \<subseteq> {..<n} - S \<Longrightarrow>
   \<exists>rs p'. mark_slots (of_nat n) is p = Some (rs, p') \<and> policy_rep n (S \<union> set is) p'
     \<and> length rs = length is
     \<and> (\<forall>i < length is. rs ! i \<longleftrightarrow> HasMeaningfulSetResult p \<and> card S + Suc i = n)"
proof (induction "is" arbitrary: S p)
  case Nil
  then show ?case by simp
next
  case (Cons i "is")
  have S: "S \<subseteq> {..<n}" by (rule policy.rep_sub [OF Cons.prems(1)])
  have i: "i < n" "i \<notin> S" using Cons.prems(3) by auto
  have fin: "finite S" using S finite_subset by blast
  obtain p1 where p1: "SetEmpty (of_nat n) (of_nat i) p
      = Some (HasMeaningfulSetResult p \<and> insert i S = {..<n}, p1)" "policy_rep n (insert i S) p1"
    using policy.rep_one [OF Cons.prems(1) i] by (auto simp: SetEmpty_eq_SetSomeEmpty)
  have "insert i S \<subseteq> {..<n}" using S i by auto
  then have "insert i S = {..<n} \<longleftrightarrow> card (insert i S) = n" using card_full by blast
  then have full: "insert i S = {..<n} \<longleftrightarrow> Suc (card S) = n" using fin i(2) by simp
  have "\<exists>rs p'. mark_slots (of_nat n) is p1 = Some (rs, p') \<and> policy_rep n (insert i S \<union> set is) p'
     \<and> length rs = length is
     \<and> (\<forall>j < length is. rs ! j \<longleftrightarrow> HasMeaningfulSetResult p1 \<and> card (insert i S) + Suc j = n)"
    using Cons.prems(2,3) by (intro Cons.IH [OF p1(2)]) auto
  then obtain rs p' where r: "mark_slots (of_nat n) is p1 = Some (rs, p')"
    "policy_rep n (insert i S \<union> set is) p'" "length rs = length is"
    "\<forall>j < length is. rs ! j \<longleftrightarrow> HasMeaningfulSetResult p \<and> card S + Suc (Suc j) = n"
    using SetEmpty_meaningful [OF p1(1)] fin i(2) by auto
  have "(((HasMeaningfulSetResult p \<and> insert i S = {..<n}) # rs) ! j)
      = (HasMeaningfulSetResult p \<and> card S + Suc j = n)" if "j < length (i # is)" for j
    using that r(3,4) full by (cases j) auto
  then show ?case using p1(1) r by simp
qed

text \<open>C37. A block, whichever of the two policies it has: after a reset, marking distinct slots in any
  order never faults; the block is found empty exactly when every slot has been marked, and with the
  counter policy the call that completes the block, and no other, returns true.\<close>

theorem policy_empty_iff_all_marked:
  assumes "policy_wf n p" "distinct is" "set is \<subseteq> {..<n}"
  shows "\<exists>rs p'. mark_slots (of_nat n) is (ResetPolicy p) = Some (rs, p')
    \<and> (IsEmpty (of_nat n) p' \<longleftrightarrow> length is = n)
    \<and> length rs = length is
    \<and> (\<forall>i < length is. rs ! i \<longleftrightarrow> HasMeaningfulSetResult p \<and> Suc i = n)"
proof -
  have m: "HasMeaningfulSetResult (ResetPolicy p) = HasMeaningfulSetResult p" by (cases p) auto
  obtain rs p' where r: "mark_slots (of_nat n) is (ResetPolicy p) = Some (rs, p')"
    "policy_rep n (set is) p'" "length rs = length is"
    "\<forall>i < length is. rs ! i \<longleftrightarrow> HasMeaningfulSetResult p \<and> Suc i = n"
    using mark_slots_rep [OF policy.rep_reset [OF assms(1)] assms(2)] assms(3) m by auto
  have "card (set is) = length is" using assms(2) by (rule distinct_card)
  then show ?thesis using r policy.rep_empty [OF r(2)] card_full [OF assms(3)] by auto
qed

theorem policy_empty_iff_all_marked_witness:
  "\<exists>rs p'. mark_slots (of_nat 4) [2, 0, 3, 1] (ResetPolicy (CounterCheck 9)) = Some (rs, p')
    \<and> IsEmpty (of_nat 4) p' \<and> length rs = 4 \<and> rs ! 3 \<and> \<not> rs ! 2"
proof -
  have b: "block_size 4" unfolding block_size_def by (intro bexI [of _ 2]) auto
  have s: "set [2, 0, 3, 1] \<subseteq> {..<4::nat}" by auto
  have wf: "policy_wf 4 (CounterCheck 9)" using b by simp
  have len: "length [2, 0, 3, 1 :: nat] = 4" "distinct [2, 0, 3, 1 :: nat]" by simp_all
  obtain rs p' where "mark_slots (of_nat 4) [2, 0, 3, 1] (ResetPolicy (CounterCheck 9)) = Some (rs, p')"
    "IsEmpty (of_nat 4) p' \<longleftrightarrow> length [2, 0, 3, 1 :: nat] = 4" "length rs = length [2, 0, 3, 1 :: nat]"
    "\<forall>i < length [2, 0, 3, 1 :: nat]. rs ! i \<longleftrightarrow> HasMeaningfulSetResult (CounterCheck 9) \<and> Suc i = 4"
    using policy_empty_iff_all_marked [OF wf len(2) s] by blast
  then show ?thesis unfolding len(1) by auto
qed

section \<open>The free list as a stack\<close>

fun add_each :: "addr list \<Rightarrow> 'a heap \<Rightarrow> addr option \<Rightarrow> ('a heap \<times> addr option) option" where
  "add_each [] h hp = Some (h, hp)"
| "add_each (a # as) h hp = do { (h1, hp1) \<leftarrow> FreeList_Add a h hp; add_each as h1 hp1 }"

fun get_n :: "nat \<Rightarrow> 'a heap \<Rightarrow> addr option \<Rightarrow> (addr option list \<times> 'a heap \<times> addr option) option" where
  "get_n 0 h hp = Some ([], h, hp)"
| "get_n (Suc n) h hp = do {
     (p, h1, hp1) \<leftarrow> FreeList_TryGet h hp;
     (ps, h2, hp2) \<leftarrow> get_n n h1 hp1;
     Some (p # ps, h2, hp2) }"

lemma add_each_list:
  "fl_list (Blocks h) hp as \<Longrightarrow> distinct (xs @ as) \<Longrightarrow>
   (\<forall>a \<in> set xs. \<exists>b. Blocks h a = Some b \<and> FreeListRefs b = 0) \<Longrightarrow>
   \<exists>h' hp'. add_each xs h hp = Some (h', hp') \<and> fl_list (Blocks h') hp' (rev xs @ as)"
proof (induction xs arbitrary: h hp as)
  case Nil
  then show ?case by simp
next
  case (Cons a xs)
  then obtain b where b: "Blocks h a = Some b" "FreeListRefs b = 0" "a \<notin> set as" by auto
  note add = FreeList_Add_spec [OF Cons.prems(1) b(3,1,2)]
  let ?h = "h\<lparr>Blocks := (Blocks h)(a \<mapsto> b\<lparr>FreeListNext := hp, FreeListRefs := 1\<rparr>)\<rparr>"
  have "\<exists>h' hp'. add_each xs ?h (Some a) = Some (h', hp') \<and> fl_list (Blocks h') hp' (rev xs @ a # as)"
  proof (rule Cons.IH)
    have "Blocks ?h = (Blocks h)(a \<mapsto> b\<lparr>FreeListNext := hp, FreeListRefs := 1\<rparr>)" by simp
    with add(2) show "fl_list (Blocks ?h) (Some a) (a # as)" by (simp only:)
  qed (use Cons.prems(2,3) in auto)
  then show ?case using add(1) by auto
qed

lemma get_n_list:
  "fl_list (Blocks h) hp (xs @ as) \<Longrightarrow> distinct (xs @ as) \<Longrightarrow>
   \<exists>h' hp'. get_n (length xs) h hp = Some (List.map Some xs, h', hp') \<and> fl_list (Blocks h') hp' as"
proof (induction xs arbitrary: h hp)
  case Nil
  then show ?case by simp
next
  case (Cons a xs)
  then obtain b where b: "hp = Some a" "Blocks h a = Some b" "fl_list (Blocks h) (FreeListNext b) (xs @ as)"
    by auto
  let ?h = "h\<lparr>Blocks := (Blocks h)(a \<mapsto> b\<lparr>FreeListRefs := 0\<rparr>)\<rparr>"
  have "fl_list ((Blocks h)(a \<mapsto> b\<lparr>FreeListRefs := 0\<rparr>)) (FreeListNext b) (xs @ as)"
    by (rule iffD2 [OF fl_list_upd]) (use Cons.prems(2) b(3) in auto)
  then have "fl_list (Blocks ?h) (FreeListNext b) (xs @ as)" by simp
  from Cons.IH [OF this] have "\<exists>h' hp'. get_n (length xs) ?h (FreeListNext b)
      = Some (List.map Some xs, h', hp') \<and> fl_list (Blocks h') hp' as"
    using Cons.prems(2) by simp
  then show ?case using FreeList_TryGet_spec [OF Cons.prems(1)] b(1,2) by auto
qed

text \<open>The free list is a stack: nodes that nobody references, added one after the other, come
  back from \<^verbatim>\<open>TryGet\<close> in reverse order, every call terminating, and the list is then what it was;
  on the empty list \<^verbatim>\<open>TryGet\<close> returns null.\<close>

theorem FreeList_stack:
  assumes "fl_list (Blocks h) hp as" "distinct (xs @ as)"
    and "\<forall>a \<in> set xs. \<exists>b. Blocks h a = Some b \<and> FreeListRefs b = 0"
  shows "\<exists>h1 hp1 h2 hp2. add_each xs h hp = Some (h1, hp1)
    \<and> get_n (length xs) h1 hp1 = Some (List.map Some (rev xs), h2, hp2)
    \<and> fl_list (Blocks h2) hp2 as
    \<and> (as = [] \<longrightarrow> FreeList_TryGet h2 hp2 = Some (None, h2, hp2))"
proof -
  obtain h1 hp1 where a: "add_each xs h hp = Some (h1, hp1)" "fl_list (Blocks h1) hp1 (rev xs @ as)"
    using add_each_list [OF assms] by blast
  obtain h2 hp2 where g: "get_n (length xs) h1 hp1 = Some (List.map Some (rev xs), h2, hp2)"
    "fl_list (Blocks h2) hp2 as"
    using get_n_list [OF a(2)] assms(2) by auto
  moreover have "as = [] \<longrightarrow> FreeList_TryGet h2 hp2 = Some (None, h2, hp2)"
    using FreeList_TryGet_spec [OF g(2)] by auto
  ultimately show ?thesis using a(1) by blast
qed

text \<open>Three nodes in a heap, none of them in a list.\<close>

definition three_nodes :: "nat heap" where
  "three_nodes = \<lparr>Blocks = [10 \<mapsto> new_block False 2, 11 \<mapsto> new_block False 2, 12 \<mapsto> new_block False 2],
     Alloc = (\<lambda>_. 1), Brk = 20, Quota = 5\<rparr>"

theorem FreeList_stack_witness:
  "\<exists>h1 hp1 h2 hp2. add_each [10, 12, 11] three_nodes None = Some (h1, hp1)
    \<and> get_n 3 h1 hp1 = Some ([Some 11, Some 12, Some 10], h2, hp2)
    \<and> FreeList_TryGet h2 hp2 = Some (None, h2, hp2)"
proof -
  have "fl_list (Blocks three_nodes) None []" "distinct ([10, 12, 11] @ [] :: addr list)"
    "\<forall>a \<in> set [10, 12, 11]. \<exists>b. Blocks three_nodes a = Some b \<and> FreeListRefs b = 0"
    by (simp_all add: three_nodes_def new_block_def)
  from FreeList_stack [OF this] show ?thesis by (simp add: numeral_3_eq_3) blast
qed

section \<open>The block manager\<close>

text \<open>C26. \<^verbatim>\<open>RequisitionBlock\<close> on every path (pool, free list, allocator, refusal, exception): a block it
  hands out is one that no client holds, without live values and well formed; the blocks of the
  clients are unchanged; it returns null only in the mode that must not allocate and leaves by an
  exception only in the other mode, when the allocator is exhausted, both without any effect.\<close>

theorem RequisitionBlock_exclusive:
  assumes "mgr_inv n s U" "fresh_proto n proto"
  shows "\<exists>r s'. RequisitionBlock proto mode s = Some (r, s') \<and> (\<forall>a \<in> U. blk s' a = blk s a)
    \<and> (case r of Exn \<Rightarrow> mode = CanAlloc \<and> s' = s \<and> Quota (Hp s) = 0
        | Ret None \<Rightarrow> mode = CannotAlloc \<and> s' = s
        | Ret (Some a) \<Rightarrow> a \<notin> U \<and> mgr_inv n s' (insert a U)
          \<and> (\<exists>b. blk s' a = Some b \<and> block_wf n b \<and> raw b))"
proof -
  have p: "fresh_block n proto" "\<not> HasOwner proto" "FreeListRefs proto = 0"
    using assms(2) by (simp_all add: fresh_proto_def)
  show ?thesis
    using RequisitionBlock_spec [OF assms(1) p, of mode] unfolding fresh_block_def by blast
qed

text \<open>A manager over a pool of two blocks, and a heap that can serve three more allocations.\<close>

definition heap_of :: "nat \<Rightarrow> 'a heap" where
  "heap_of N = \<lparr>Blocks = Map.empty, Alloc = (\<lambda>_. 0), Brk = 0, Quota = N\<rparr>"

lemma fresh_proto_2: "fresh_proto 2 (new_block c 2)"
proof -
  have "block_size 2" unfolding block_size_def by (intro bexI [of _ 1]) auto
  then show ?thesis by (rule new_block_proto)
qed

lemma pool_example:
  "\<exists>m (h :: nat heap). BlockManager_new (new_block False 2) 2 (heap_of 4) = Some (Ret m, h)
     \<and> mgr_inv 2 \<lparr>Hp = h, Mg = m\<rparr> {} \<and> Quota h = 3"
proof -
  have "map_option (\<lambda>(r, h). (r = Exn, Quota h)) (BlockManager_new (new_block False 2) 2 (heap_of 4 :: nat heap))
      = Some (False, 3)"
    by code_simp
  moreover
  have "\<exists>r h'. BlockManager_new (new_block False 2) 2 (heap_of 4 :: nat heap) = Some (r, h')
    \<and> (case r of Exn \<Rightarrow> 0 < (2 :: size_t) \<and> Quota (heap_of 4 :: nat heap) = 0 \<and> h' = heap_of 4
        | Ret m \<Rightarrow> mgr_inv 2 \<lparr>Hp = h', Mg = m\<rparr> {} \<and> card (pool_avail (Pool m)) = unat (2 :: size_t))"
    using fresh_proto_2 by (intro BlockManager_new_spec) (auto simp: heap_of_def fresh_proto_def)
  then obtain r h' where r: "BlockManager_new (new_block False 2) 2 (heap_of 4 :: nat heap) = Some (r, h')"
    "case r of Exn \<Rightarrow> 0 < (2 :: size_t) \<and> Quota (heap_of 4 :: nat heap) = 0 \<and> h' = heap_of 4
        | Ret m \<Rightarrow> mgr_inv 2 \<lparr>Hp = h', Mg = m\<rparr> {} \<and> card (pool_avail (Pool m)) = unat (2 :: size_t)"
    by blast
  ultimately show ?thesis by (cases r) auto
qed

theorem RequisitionBlock_exclusive_witness:
  "\<exists>m (h :: nat heap) r s'. BlockManager_new (new_block False 2) 2 (heap_of 4) = Some (Ret m, h)
    \<and> RequisitionBlock (new_block False 2) CanAlloc \<lparr>Hp = h, Mg = m\<rparr> = Some (r, s') \<and> r \<noteq> Ret None"
proof -
  obtain m and h :: "nat heap" where m: "BlockManager_new (new_block False 2) 2 (heap_of 4) = Some (Ret m, h)"
    "mgr_inv 2 \<lparr>Hp = h, Mg = m\<rparr> {}" using pool_example by blast
  obtain r s' where "RequisitionBlock (new_block False 2) CanAlloc \<lparr>Hp = h, Mg = m\<rparr> = Some (r, s')"
    "r \<noteq> Ret None"
    using RequisitionBlock_exclusive [OF m(2) fresh_proto_2, where mode = CanAlloc]
    unfolding option_res_case AllocMode.distinct by blast
  with m(1) show ?thesis by blast
qed

fun requisition_n :: "'a block \<Rightarrow> AllocMode \<Rightarrow> nat \<Rightarrow> 'a mem \<Rightarrow> (addr list \<times> 'a mem) option" where
  "requisition_n proto mode 0 s = Some ([], s)"
| "requisition_n proto mode (Suc n) s = do {
     (r, s1) \<leftarrow> RequisitionBlock proto mode s;
     case r of Ret (Some a) \<Rightarrow> do { (as, s2) \<leftarrow> requisition_n proto mode n s1; Some (a # as, s2) }
     | _ \<Rightarrow> Some ([], s1) }"

fun return_each :: "addr list \<Rightarrow> 'a mem \<Rightarrow> 'a mem option" where
  "return_each [] s = Some s"
| "return_each (a # as) s = do { s1 \<leftarrow> ReturnBlock a s; return_each as s1 }"

lemma return_each_eq: "return_each as s = mgr.ret_all as s"
proof (induction as arbitrary: s)
  case (Cons a as)
  then show ?case by (cases "ReturnBlock a s") auto
qed simp

lemma requisition_n_eq: "requisition_n proto (the_mode g) n s = mgr.req_many proto g n s"
proof (induction n arbitrary: s)
  case (Suc n)
  then show ?case
    by (cases "RequisitionBlock proto (the_mode g) s") (auto split: res.splits option.splits)
qed simp

lemma the_mode_surj: "\<exists>g. mode = the_mode g"
  by (cases mode) (auto simp: the_mode_def intro: exI [of _ True] exI [of _ False])

text \<open>C27. Life cycle: a client that requisitions blocks, in either mode and however the requests end,
  and returns them all, leaves a manager whose destruction destroys every block and frees the memory
  of every block and of the pool.\<close>

theorem BlockManager_life_cycle:
  assumes "mgr_inv n s {}" "fresh_proto n proto"
  shows "\<exists>as s1 s2 h. requisition_n proto mode m s = Some (as, s1) \<and> length as \<le> m \<and> distinct as
    \<and> return_each as s1 = Some s2 \<and> BlockManager_destroy s2 = Some h \<and> Blocks h = Map.empty
    \<and> (\<forall>a \<in> dom (blk s2) - pool_blocks (Pool (Mg s2)). Alloc h a = 0)
    \<and> (\<forall>a. Pool_Head (Pool (Mg s2)) = Some a \<longrightarrow> Alloc h a = 0)"
proof -
  obtain g where g: "mode = the_mode g" using the_mode_surj by blast
  have inv: "mgr_inv n s {} \<and> fresh_proto n proto" using assms by simp
  obtain as s1 where r: "mgr.req_many proto g m s = Some (as, s1)" "length as \<le> m" "distinct as"
    "mgr_inv n s1 ({} \<union> set as) \<and> fresh_proto n proto"
    "\<forall>a \<in> set as. \<exists>b. blk s1 a = Some b \<and> fresh_block n b"
    using mgr.req_many_law [OF inv, of g m] by blast
  obtain s2 where s2: "mgr.ret_all as s1 = Some s2" "mgr_inv n s2 ({} \<union> set as - set as)"
    using mgr.ret_all_law [OF r(4,3)] r(5) by (auto simp: fresh_block_def)
  have "mgr_inv n s2 {}" using s2(2) by simp
  from BlockManager_destroy_spec [OF this] show ?thesis
    using r s2(1) unfolding g requisition_n_eq return_each_eq by blast
qed

theorem BlockManager_life_cycle_witness:
  "\<exists>m (h :: nat heap) as s1 s2 h'. BlockManager_new (new_block False 2) 2 (heap_of 4) = Some (Ret m, h)
    \<and> requisition_n (new_block False 2) CanAlloc 4 \<lparr>Hp = h, Mg = m\<rparr> = Some (as, s1)
    \<and> return_each as s1 = Some s2 \<and> BlockManager_destroy s2 = Some h' \<and> Blocks h' = Map.empty"
proof -
  obtain m and h :: "nat heap" where m: "BlockManager_new (new_block False 2) 2 (heap_of 4) = Some (Ret m, h)"
    "mgr_inv 2 \<lparr>Hp = h, Mg = m\<rparr> {}" using pool_example by blast
  from BlockManager_life_cycle [OF m(2) fresh_proto_2, where mode = CanAlloc and m = 4] m(1)
  show ?thesis by blast
qed

end
