(* ===== verification/Queue_Base.thy ===== *)
theory Queue_Base
  imports Block_Manager
begin

text \<open>
  What the two producer queues of \<^verbatim>\<open>ConcurrentQueue.h\<close> share: the members of \<^verbatim>\<open>_QueueBase\<close>, the
  accesses to the slots and the policy of a block, and the arithmetic that relates free-running
  indices to blocks.
\<close>

section \<open>_QueueBase\<close>

record qbase =
  HeadIndex :: size_t
  TailIndex :: size_t
  DequeueAttemptsCount :: size_t
  DequeueFailedCount :: size_t
  TailBlock :: "addr option"

definition QueueBase_Reset :: "'z qbase_scheme \<Rightarrow> 'z qbase_scheme" where
  "QueueBase_Reset q = q\<lparr>HeadIndex := 0, TailIndex := 0, DequeueAttemptsCount := 0,
     DequeueFailedCount := 0, TailBlock := None\<rparr>"

definition QueueBase_Size :: "'z qbase_scheme \<Rightarrow> size_t" where
  "QueueBase_Size q = (if CircularLessThan (HeadIndex q) (TailIndex q)
     then TailIndex q - HeadIndex q else 0)"

definition QueueBase_swap :: "qbase \<Rightarrow> qbase \<Rightarrow> qbase \<times> qbase" where
  "QueueBase_swap this Other =
     (let (h, h') = SwapRelaxed (HeadIndex this) (HeadIndex Other);
          (t, t') = SwapRelaxed (TailIndex this) (TailIndex Other);
          (a, a') = SwapRelaxed (DequeueAttemptsCount this) (DequeueAttemptsCount Other);
          (d, d') = SwapRelaxed (DequeueFailedCount this) (DequeueFailedCount Other)
      in (\<lparr>HeadIndex = h, TailIndex = t, DequeueAttemptsCount = a, DequeueFailedCount = d,
           TailBlock = TailBlock Other\<rparr>,
          \<lparr>HeadIndex = h', TailIndex = t', DequeueAttemptsCount = a', DequeueFailedCount = d',
           TailBlock = TailBlock this\<rparr>))"

section \<open>Accesses to a block\<close>

definition Block_next :: "addr option \<Rightarrow> 'a mem \<Rightarrow> addr option option" where
  "Block_next p s = map_option Next (deref (blk s) p)"

definition Block_IsEmpty :: "size_t \<Rightarrow> addr option \<Rightarrow> 'a mem \<Rightarrow> bool option" where
  "Block_IsEmpty bs p s = map_option (\<lambda>b. IsEmpty bs (Policy b)) (deref (blk s) p)"

text \<open>A read-modify-write of the block at \<open>p\<close>.\<close>

definition Block_upd :: "addr option \<Rightarrow> ('a block \<Rightarrow> 'a block option) \<Rightarrow> 'a mem \<Rightarrow> 'a mem option" where
  "Block_upd p f s = do { a \<leftarrow> p; b \<leftarrow> blk s a; b' \<leftarrow> f b; Some (put a b' s) }"

definition Block_Reset :: "addr option \<Rightarrow> 'a mem \<Rightarrow> 'a mem option" where
  "Block_Reset p = Block_upd p (\<lambda>b. Some (b\<lparr>Policy := ResetPolicy (Policy b)\<rparr>))"

definition Block_SetAllEmpty :: "size_t \<Rightarrow> addr option \<Rightarrow> 'a mem \<Rightarrow> 'a mem option" where
  "Block_SetAllEmpty bs p = Block_upd p (\<lambda>b. Some (b\<lparr>Policy := SetAllEmpty bs (Policy b)\<rparr>))"

definition Block_set_next :: "addr option \<Rightarrow> addr option \<Rightarrow> 'a mem \<Rightarrow> 'a mem option" where
  "Block_set_next p n = Block_upd p (\<lambda>b. Some (b\<lparr>Next := n\<rparr>))"

text \<open>\<^verbatim>\<open>SetEmpty\<close> and \<^verbatim>\<open>SetSomeEmpty\<close> also return whether the block is known to be empty now.\<close>

definition Block_SetEmpty :: "size_t \<Rightarrow> addr option \<Rightarrow> size_t \<Rightarrow> 'a mem \<Rightarrow> (bool \<times> 'a mem) option" where
  "Block_SetEmpty bs p i s = do { a \<leftarrow> p; b \<leftarrow> blk s a; (r, pol) \<leftarrow> SetEmpty bs i (Policy b);
     Some (r, put a (b\<lparr>Policy := pol\<rparr>) s) }"

definition Block_SetSomeEmpty ::
  "size_t \<Rightarrow> addr option \<Rightarrow> size_t \<Rightarrow> size_t \<Rightarrow> 'a mem \<Rightarrow> (bool \<times> 'a mem) option" where
  "Block_SetSomeEmpty bs p i c s = do { a \<leftarrow> p; b \<leftarrow> blk s a;
     (r, pol) \<leftarrow> SetSomeEmpty bs i c (Policy b); Some (r, put a (b\<lparr>Policy := pol\<rparr>) s) }"

text \<open>The slots: construction from an argument, reading and destroying.\<close>

definition Slot_construct :: "addr option \<Rightarrow> size_t \<Rightarrow> 'a \<Rightarrow> 'a mem \<Rightarrow> 'a mem option" where
  "Slot_construct p i v = Block_upd p (\<lambda>b. do { el \<leftarrow> construct_at (Elements b) (unat i) v;
     Some (b\<lparr>Elements := el\<rparr>) })"

definition Slot_read :: "addr option \<Rightarrow> size_t \<Rightarrow> 'a mem \<Rightarrow> 'a option" where
  "Slot_read p i s = do { b \<leftarrow> deref (blk s) p; read_at (Elements b) (unat i) }"

definition Slot_destroy :: "addr option \<Rightarrow> size_t \<Rightarrow> 'a mem \<Rightarrow> 'a mem option" where
  "Slot_destroy p i = Block_upd p (\<lambda>b. do { el \<leftarrow> destroy_at (Elements b) (unat i);
     Some (b\<lparr>Elements := el\<rparr>) })"

lemma Block_next_eq [heap_simps]: "blk s a = Some b \<Longrightarrow> Block_next (Some a) s = Some (Next b)"
  by (simp add: Block_next_def)

lemma Block_IsEmpty_eq [heap_simps]:
  "blk s a = Some b \<Longrightarrow> Block_IsEmpty bs (Some a) s = Some (IsEmpty bs (Policy b))"
  by (simp add: Block_IsEmpty_def)

lemma Block_Reset_eq [heap_simps]: "blk s a = Some b \<Longrightarrow>
   Block_Reset (Some a) s = Some (put a (b\<lparr>Policy := ResetPolicy (Policy b)\<rparr>) s)"
  by (simp add: Block_Reset_def Block_upd_def)

lemma Block_SetAllEmpty_eq [heap_simps]: "blk s a = Some b \<Longrightarrow>
   Block_SetAllEmpty bs (Some a) s = Some (put a (b\<lparr>Policy := SetAllEmpty bs (Policy b)\<rparr>) s)"
  by (simp add: Block_SetAllEmpty_def Block_upd_def)

lemma Block_set_next_eq [heap_simps]:
  "blk s a = Some b \<Longrightarrow> Block_set_next (Some a) n s = Some (put a (b\<lparr>Next := n\<rparr>) s)"
  by (simp add: Block_set_next_def Block_upd_def)

lemma Block_SetEmpty_eq [heap_simps]:
  "blk s a = Some b \<Longrightarrow> SetEmpty bs i (Policy b) = Some (r, pol) \<Longrightarrow>
   Block_SetEmpty bs (Some a) i s = Some (r, put a (b\<lparr>Policy := pol\<rparr>) s)"
  by (simp add: Block_SetEmpty_def)

lemma Block_SetSomeEmpty_eq [heap_simps]:
  "blk s a = Some b \<Longrightarrow> SetSomeEmpty bs i c (Policy b) = Some (r, pol) \<Longrightarrow>
   Block_SetSomeEmpty bs (Some a) i c s = Some (r, put a (b\<lparr>Policy := pol\<rparr>) s)"
  by (simp add: Block_SetSomeEmpty_def)

lemma Slot_construct_eq [heap_simps]:
  "blk s a = Some b \<Longrightarrow> unat i < length (Elements b) \<Longrightarrow> Elements b ! unat i = None \<Longrightarrow>
   Slot_construct (Some a) i v s = Some (put a (b\<lparr>Elements := (Elements b)[unat i := Some v]\<rparr>) s)"
  by (simp add: Slot_construct_def Block_upd_def)

lemma Slot_read_eq [heap_simps]:
  "blk s a = Some b \<Longrightarrow> unat i < length (Elements b) \<Longrightarrow> Slot_read (Some a) i s = Elements b ! unat i"
  by (simp add: Slot_read_def)

lemma Slot_destroy_eq [heap_simps]:
  "blk s a = Some b \<Longrightarrow> unat i < length (Elements b) \<Longrightarrow> Elements b ! unat i = Some v \<Longrightarrow>
   Slot_destroy (Some a) i s = Some (put a (b\<lparr>Elements := (Elements b)[unat i := None]\<rparr>) s)"
  by (simp add: Slot_destroy_def Block_upd_def)

section \<open>Indices and blocks\<close>

text \<open>
  With \<open>n = 2 ^ k\<close> slots to a block, the element with the unwrapped index \<open>i\<close> lives in slot
  \<open>i mod n\<close> of the block number \<open>i div n\<close>; \<open>up n t\<close> blocks have been started when the tail index
  is \<open>t\<close>.
\<close>

definition up :: "nat \<Rightarrow> nat \<Rightarrow> nat" where
  "up n t = (if t mod n = 0 then t div n else t div n + 1)"

lemma up_boundary: "t mod n = 0 \<Longrightarrow> up n t = t div n"
  by (simp add: up_def)

lemma up_mid: "t mod n \<noteq> 0 \<Longrightarrow> up n t = t div n + 1"
  by (simp add: up_def)

lemma up_Suc: "up n (Suc t) = t div n + 1"
  by (simp add: up_def div_Suc)

text \<open>
  \<open>holds n j hn tn f b\<close>: the block \<open>b\<close>, as block number \<open>j\<close> of a queue whose live elements are
  \<open>f i\<close> for \<open>hn \<le> i < tn\<close>: exactly these are constructed, and the policy records the slots
  already dequeued.
\<close>

definition holds :: "nat \<Rightarrow> nat \<Rightarrow> nat \<Rightarrow> nat \<Rightarrow> (nat \<Rightarrow> 'a) \<Rightarrow> 'a block \<Rightarrow> bool" where
  "holds n j hn tn f b \<longleftrightarrow> length (Elements b) = n
     \<and> (\<forall>i < n. Elements b ! i
          = (if hn \<le> j * n + i \<and> j * n + i < tn then Some (f (j * n + i)) else None))
     \<and> policy_rep n {i. i < n \<and> j * n + i < hn} (Policy b)"

lemma holdsI:
  assumes "length (Elements b) = n" "policy_rep n S (Policy b)"
    and "S = {i. i < n \<and> j * n + i < hn}"
    and "\<And>i. i < n \<Longrightarrow> Elements b ! i
          = (if hn \<le> j * n + i \<and> j * n + i < tn then Some (f (j * n + i)) else None)"
  shows "holds n j hn tn f b"
  using assms by (simp add: holds_def)

text \<open>A block all of whose slots have been dequeued.\<close>

definition spent :: "nat \<Rightarrow> 'a block \<Rightarrow> bool" where
  "spent n b \<longleftrightarrow> length (Elements b) = n \<and> raw b \<and> policy_rep n {..<n} (Policy b)"

text \<open>The blocks \<open>ls\<close> hold the elements between \<open>hn\<close> and \<open>tn\<close>.\<close>

definition window :: "nat \<Rightarrow> nat \<Rightarrow> nat \<Rightarrow> (nat \<Rightarrow> 'a) \<Rightarrow> 'a block store \<Rightarrow> addr list \<Rightarrow> bool" where
  "window n hn tn f bl ls \<longleftrightarrow> hn \<le> tn \<and> distinct ls \<and> hn div n + length ls = up n tn
     \<and> (\<forall>i < length ls. \<exists>b. bl (ls ! i) = Some b \<and> holds n (hn div n + i) hn tn f b)"

lemma block_index_eq: "i < (n::nat) \<Longrightarrow> (j * n + i) div n = j"
  by simp

lemma holds_irrelevant_head:
  "holds n j hn tn f b \<Longrightarrow> hn div n \<noteq> j \<Longrightarrow> holds n j (Suc hn) tn f b"
proof -
  assume h: "holds n j hn tn f b" and j: "hn div n \<noteq> j"
  have ne: "j * n + i \<noteq> hn" if "i < n" for i using that j block_index_eq by blast
  then have "{i. i < n \<and> j * n + i < Suc hn} = {i. i < n \<and> j * n + i < hn}"
    by (auto simp: less_Suc_eq)
  moreover have "(Suc hn \<le> j * n + i) = (hn \<le> j * n + i)" if "i < n" for i
    using ne [OF that] by auto
  ultimately show ?thesis using h by (simp add: holds_def)
qed

lemma holds_irrelevant_tail:
  "holds n j hn tn f b \<Longrightarrow> tn div n \<noteq> j \<Longrightarrow> holds n j hn (Suc tn) (f(tn := v)) b"
proof -
  assume h: "holds n j hn tn f b" and j: "tn div n \<noteq> j"
  have ne: "j * n + i \<noteq> tn" if "i < n" for i using that j block_index_eq by blast
  then have "(j * n + i < Suc tn) = (j * n + i < tn)" if "i < n" for i
    using ne [OF that] by auto
  with h ne show ?thesis by (simp add: holds_def)
qed

lemma spent_iff_holds:
  "0 < n \<Longrightarrow> Suc j * n \<le> hn \<Longrightarrow> holds n j hn tn f b \<Longrightarrow> spent n b"
proof -
  assume n: "0 < n" and le: "Suc j * n \<le> hn" and h: "holds n j hn tn f b"
  have lt: "j * n + i < hn" if "i < n" for i using that le by simp
  then have "{i. i < n \<and> j * n + i < hn} = {..<n}" by auto
  moreover have "Elements b ! i = None" if "i < n" for i
    using h lt [OF that] that by (simp add: holds_def)
  then have "raw b" using h by (auto simp: holds_def raw_def in_set_conv_nth)
  ultimately show ?thesis using h by (simp add: holds_def spent_def)
qed


section \<open>What an enqueue and a dequeue do to the window\<close>

lemma window_length_mid:
  "0 < n \<Longrightarrow> window n hn tn f bl ls \<Longrightarrow> tn mod n \<noteq> 0 \<Longrightarrow> ls \<noteq> [] \<and> hn div n + length ls = tn div n + 1"
  using div_le_mono [of hn tn n] by (auto simp: window_def up_mid)

lemma window_nth:
  assumes "window n hn tn f bl ls" "i < length ls"
  obtains b where "bl (ls ! i) = Some b" "holds n (hn div n + i) hn tn f b"
  using assms by (auto simp: window_def)

text \<open>The slot the next element goes to is raw storage of the last block.\<close>

lemma holds_tail_slot:
  assumes n: "0 < n" and h: "holds n (tn div n) hn tn f b" and le: "hn \<le> tn"
  shows "tn mod n < length (Elements b)" "Elements b ! (tn mod n) = None"
    "holds n (tn div n) hn (Suc tn) (f(tn := v)) (b\<lparr>Elements := (Elements b)[tn mod n := Some v]\<rparr>)"
proof -
  have lt: "tn mod n < n" using n by simp
  have idx: "tn div n * n + i = tn \<longleftrightarrow> i = tn mod n" for i
    using div_mult_mod_eq [of tn n] by linarith
  show "tn mod n < length (Elements b)" using h lt by (simp add: holds_def)
  show "Elements b ! (tn mod n) = None" using h lt by (simp add: holds_def)
  show "holds n (tn div n) hn (Suc tn) (f(tn := v)) (b\<lparr>Elements := (Elements b)[tn mod n := Some v]\<rparr>)"
  proof (rule holdsI)
    fix i assume i: "i < n"
    show "Elements (b\<lparr>Elements := (Elements b)[tn mod n := Some v]\<rparr>) ! i
      = (if hn \<le> tn div n * n + i \<and> tn div n * n + i < Suc tn
         then Some ((f(tn := v)) (tn div n * n + i)) else None)"
    proof (cases "i = tn mod n")
      case True
      then show ?thesis using le h i by (simp add: holds_def)
    next
      case False
      then have "tn div n * n + i \<noteq> tn" using idx by simp
      then show ?thesis using False h i by (simp add: holds_def less_Suc_eq)
    qed
  qed (use h in \<open>simp_all add: holds_def\<close>)
qed

text \<open>A block that has just been reset is ready to be the next one.\<close>

lemma holds_reset:
  assumes n: "0 < n" and m: "tn mod n = 0" and le: "hn \<le> tn" and b: "block_wf n b" "raw b"
  shows "holds n (tn div n) hn tn f (b\<lparr>Policy := ResetPolicy (Policy b)\<rparr>)"
proof -
  have tn: "tn div n * n = tn" using m by (metis add.right_neutral div_mult_mod_eq)
  show ?thesis
  proof (rule holdsI [where S = "{}"])
    show "policy_rep n {} (Policy (b\<lparr>Policy := ResetPolicy (Policy b)\<rparr>))"
      using b(1) by (simp add: block_wf_def policy.rep_reset)
    show "{} = {i. i < n \<and> tn div n * n + i < hn}" using tn le by auto
    show "Elements (b\<lparr>Policy := ResetPolicy (Policy b)\<rparr>) ! i
        = (if hn \<le> tn div n * n + i \<and> tn div n * n + i < tn then Some (f (tn div n * n + i)) else None)"
      if "i < n" for i
      using b tn that by (simp add: block_wf_def raw_def)
  qed (use b in \<open>simp_all add: block_wf_def\<close>)
qed

lemma window_append:
  assumes n: "0 < n" and w: "window n hn tn f bl ls" and m: "tn mod n = 0"
    and a: "a \<notin> set ls" "bl' a = Some b'" "holds n (tn div n) hn (Suc tn) (f(tn := v)) b'"
    and same: "\<And>x. x \<in> set ls \<Longrightarrow> bl' x = bl x"
  shows "window n hn (Suc tn) (f(tn := v)) bl' (ls @ [a])"
proof -
  have len: "hn div n + length ls = tn div n" using w m by (simp add: window_def up_boundary)
  have "\<exists>b. bl' ((ls @ [a]) ! i) = Some b \<and> holds n (hn div n + i) hn (Suc tn) (f(tn := v)) b"
    if "i < length (ls @ [a])" for i
  proof (cases "i < length ls")
    case True
    then obtain b where b: "bl (ls ! i) = Some b" "holds n (hn div n + i) hn tn f b"
      using window_nth [OF w] by blast
    have "tn div n \<noteq> hn div n + i" using len True by simp
    with holds_irrelevant_tail [OF b(2)] b(1) same [of "ls ! i"] True show ?thesis
      by (simp add: nth_append)
  next
    case False
    then have "i = length ls" using that by simp
    then show ?thesis using a len by simp
  qed
  then show ?thesis using w a(1) len by (simp add: window_def up_Suc)
qed

lemma window_push:
  assumes n: "0 < n" and w: "window n hn tn f bl ls" and m: "tn mod n \<noteq> 0"
    and a: "bl' (last ls) = Some b'" "holds n (tn div n) hn (Suc tn) (f(tn := v)) b'"
    and same: "\<And>x. x \<in> set ls \<Longrightarrow> x \<noteq> last ls \<Longrightarrow> bl' x = bl x"
  shows "window n hn (Suc tn) (f(tn := v)) bl' ls"
proof -
  have len: "hn div n + length ls = tn div n + 1" and ne: "ls \<noteq> []"
    using window_length_mid [OF n w m] by auto
  have d: "distinct ls" using w by (simp add: window_def)
  have "\<exists>b. bl' (ls ! i) = Some b \<and> holds n (hn div n + i) hn (Suc tn) (f(tn := v)) b"
    if i: "i < length ls" for i
  proof (cases "i = length ls - 1")
    case True
    moreover have "0 < length ls" using ne by simp
    ultimately have "hn div n + i = tn div n" "ls ! i = last ls"
      using len ne by (linarith, simp add: last_conv_nth)
    then show ?thesis using a by simp
  next
    case False
    then obtain b where b: "bl (ls ! i) = Some b" "holds n (hn div n + i) hn tn f b"
      using window_nth [OF w i] by blast
    have "tn div n \<noteq> hn div n + i" using len False that by simp
    moreover have "ls ! i \<noteq> last ls"
      using False that d ne by (simp add: last_conv_nth nth_eq_iff_index_eq)
    ultimately show ?thesis using holds_irrelevant_tail [OF b(2)] b(1) same that by force
  qed
  then show ?thesis using w len by (simp add: window_def up_Suc)
qed

lemma window_head:
  assumes n: "0 < n" and w: "window n hn tn f bl ls" and lt: "hn < tn"
  obtains a ls' b where "ls = a # ls'" "bl a = Some b" "holds n (hn div n) hn tn f b"
proof -
  have "hn div n < up n tn"
  proof (cases "tn mod n = 0")
    case True
    then have "tn = tn div n * n" by (metis add.right_neutral div_mult_mod_eq)
    then have "hn div n < tn div n" using lt n by (metis div_less_iff_less_mult)
    then show ?thesis by (simp add: up_boundary True)
  next
    case False
    then show ?thesis using div_le_mono [of hn tn n] lt by (simp add: up_mid)
  qed
  then obtain a ls' where ls: "ls = a # ls'" using w by (cases ls) (auto simp: window_def)
  with window_nth [OF w, of 0] show thesis using that by auto
qed

lemma holds_head_slot:
  assumes n: "0 < n" and h: "holds n (hn div n) hn tn f b" and lt: "hn < tn"
  shows "hn mod n < length (Elements b)" "Elements b ! (hn mod n) = Some (f hn)"
    "\<exists>pol. SetEmpty (of_nat n) (of_nat (hn mod n)) (Policy b)
        = Some (HasMeaningfulSetResult (Policy b) \<and> Suc hn mod n = 0, pol)
      \<and> holds n (hn div n) (Suc hn) tn f
          (b\<lparr>Elements := (Elements b)[hn mod n := None], Policy := pol\<rparr>)"
proof -
  let ?i = "hn mod n" and ?j = "hn div n"
  have i: "?i < n" using n by simp
  have eq: "?j * n + ?i = hn" by simp
  show "?i < length (Elements b)" using h i by (simp add: holds_def)
  show "Elements b ! ?i = Some (f hn)" using h i lt by (simp add: holds_def eq)
  have cmp: "?j * n + x < hn \<longleftrightarrow> x < ?i" "?j * n + x < Suc hn \<longleftrightarrow> x < Suc ?i" for x
    using eq by linarith+
  have S: "{i. i < n \<and> ?j * n + i < hn} = {..<?i}"
    unfolding cmp using i by auto
  have full: "insert ?i {..<?i} = {..<n} \<longleftrightarrow> Suc hn mod n = 0"
    using n by (auto simp: mod_Suc simp flip: lessThan_Suc split: if_splits)
  have "policy_rep n {..<?i} (Policy b)" using h S by (simp add: holds_def)
  from policy.rep_one [OF this i] obtain pol where pol:
    "SetEmpty (of_nat n) (of_nat ?i) (Policy b)
       = Some (HasMeaningfulSetResult (Policy b) \<and> insert ?i {..<?i} = {..<n}, pol)"
    "policy_rep n (insert ?i {..<?i}) pol"
    by (auto simp: SetEmpty_eq_SetSomeEmpty)
  have "holds n ?j (Suc hn) tn f (b\<lparr>Elements := (Elements b)[?i := None], Policy := pol\<rparr>)"
  proof (rule holdsI)
    show "policy_rep n (insert ?i {..<?i})
        (Policy (b\<lparr>Elements := (Elements b)[?i := None], Policy := pol\<rparr>))"
      using pol(2) by simp
    show "insert ?i {..<?i} = {i. i < n \<and> ?j * n + i < Suc hn}"
      unfolding cmp using i by auto
    fix i assume lt_i: "i < n"
    show "Elements (b\<lparr>Elements := (Elements b)[?i := None], Policy := pol\<rparr>) ! i
        = (if Suc hn \<le> ?j * n + i \<and> ?j * n + i < tn then Some (f (?j * n + i)) else None)"
    proof (cases "i = ?i")
      case True
      then show ?thesis using h lt_i by (simp add: holds_def)
    next
      case False
      then have "?j * n + i \<noteq> hn" using eq by linarith
      then have "(Suc hn \<le> ?j * n + i) = (hn \<le> ?j * n + i)" by auto
      then show ?thesis using False h lt_i by (simp add: holds_def)
    qed
  qed (use h in \<open>simp add: holds_def\<close>)
  with pol(1) full show "\<exists>pol. SetEmpty (of_nat n) (of_nat ?i) (Policy b)
        = Some (HasMeaningfulSetResult (Policy b) \<and> Suc hn mod n = 0, pol)
      \<and> holds n ?j (Suc hn) tn f (b\<lparr>Elements := (Elements b)[?i := None], Policy := pol\<rparr>)"
    by auto
qed

lemma window_pop:
  assumes n: "0 < n" and w: "window n hn tn f bl (a # ls)" and lt: "hn < tn"
    and a: "bl' a = Some b'" "holds n (hn div n) (Suc hn) tn f b'"
    and same: "\<And>x. x \<in> set ls \<Longrightarrow> bl' x = bl x"
  shows "if Suc hn mod n = 0 then window n (Suc hn) tn f bl' ls \<and> spent n b'
    else window n (Suc hn) tn f bl' (a # ls)"
proof -
  have d: "distinct (a # ls)" "Suc hn \<le> tn" using w lt by (simp_all add: window_def)
  have rest: "\<exists>b. bl' (ls ! i) = Some b \<and> holds n (hn div n + Suc i) (Suc hn) tn f b"
    if i: "i < length ls" for i
  proof -
    obtain b where "bl (ls ! i) = Some b" "holds n (hn div n + Suc i) hn tn f b"
      using window_nth [OF w, of "Suc i"] i by auto
    then show ?thesis using holds_irrelevant_head [of n "hn div n + Suc i" hn tn f b] same i by simp
  qed
  show ?thesis
  proof (cases "Suc hn mod n = 0")
    case True
    then have j: "Suc hn div n = Suc (hn div n)" by (simp add: div_Suc)
    have "Suc (hn div n) * n = Suc hn" using True j by (metis add.right_neutral div_mult_mod_eq)
    then have "spent n b'" using spent_iff_holds [OF n _ a(2)] by simp
    then show ?thesis using True rest w d j by (simp add: window_def)
  next
    case False
    then have j: "Suc hn div n = hn div n" by (simp add: div_Suc)
    have "\<exists>b. bl' ((a # ls) ! i) = Some b \<and> holds n (hn div n + i) (Suc hn) tn f b"
      if i: "i < length (a # ls)" for i
      using a rest [of "i - 1"] i by (cases i) auto
    then show ?thesis using False w d j by (simp add: window_def)
  qed
qed

text \<open>Before and after: the window's elements as a list.\<close>

definition contents :: "(nat \<Rightarrow> 'a) \<Rightarrow> nat \<Rightarrow> nat \<Rightarrow> 'a list" where
  "contents f hn tn = List.map f [hn..<tn]"

lemma contents_push: "hn \<le> tn \<Longrightarrow> contents (f(tn := v)) hn (Suc tn) = contents f hn tn @ [v]"
  by (simp add: contents_def)

lemma contents_pop: "hn < tn \<Longrightarrow> contents f hn tn = f hn # contents f (Suc hn) tn"
  by (simp add: contents_def upt_conv_Cons)

lemma length_contents [simp]: "length (contents f hn tn) = tn - hn"
  by (simp add: contents_def)

end
