(* ===== verification/Fast_Queue.thy ===== *)
theory Fast_Queue
  imports Queue_Base
begin

text \<open>
  \<^verbatim>\<open>FastQueue\<close> of \<^verbatim>\<open>ConcurrentQueue/ConcurrentQueue.h\<close>, the queue of an explicit producer: a ring
  of blocks that the producer reuses once they are empty, and a circular array of index entries
  through which consumers find the block of an index.

  A queue value is the record \<open>fastq\<close>; the blocks live in the memory \<open>'a mem\<close> of its block
  manager.  \<open>bs\<close> is the template argument \<^verbatim>\<open>BlockSize\<close>, \<open>proto\<close> the default-constructed block.
  The constructor argument of an element is \<open>'a option\<close>: \<open>None\<close> stands for an argument on which
  the constructor throws.  The operations are those of one thread at a time.
\<close>

section \<open>State\<close>

text \<open>
  An \<^verbatim>\<open>IndexEntryArray\<close> with its address and that of its entries.  An entry is a pair of
  \<^verbatim>\<open>Base\<close> and \<^verbatim>\<open>InnerBlock\<close>; \<open>None\<close> is an entry that has not been written since the array was
  allocated.
\<close>

type_synonym index_entry = "size_t \<times> addr option"

record ixarray =
  IA_Self :: addr
  IA_At :: addr
  IA_Size :: size_t
  IA_Tail :: size_t
  IA_Entries :: "index_entry option list"

text \<open>
  \<^verbatim>\<open>CurrentIndexEntryArray\<close> with its chain of \<^verbatim>\<open>Prev\<close> pointers is a list, newest first; it is empty
  when the pointer is null.  \<^verbatim>\<open>PO_PrevEntries\<close> always points to the entries of the newest array,
  so it is not a separate member.  \<open>HasManager\<close> tells whether the \<^verbatim>\<open>BlockManager\<close> pointer is set.
\<close>

record fastq = qbase +
  IndexArrays :: "ixarray list"
  HasManager :: bool
  PO_NextIndexEntry :: size_t
  PO_IndexEntriesUsed :: size_t
  PO_IndexEntriesSize :: size_t

definition entry_read :: "ixarray \<Rightarrow> size_t \<Rightarrow> index_entry option" where
  "entry_read A i = (if unat i < length (IA_Entries A) then IA_Entries A ! unat i else None)"

definition current_array :: "fastq \<Rightarrow> ixarray option" where
  "current_array q = (case IndexArrays q of [] \<Rightarrow> None | A # _ \<Rightarrow> Some A)"

definition set_current :: "ixarray \<Rightarrow> fastq \<Rightarrow> fastq" where
  "set_current A q = q\<lparr>IndexArrays := A # tl (IndexArrays q)\<rparr>"

definition entry_write :: "size_t \<Rightarrow> index_entry \<Rightarrow> fastq \<Rightarrow> fastq option" where
  "entry_write i e q = do { A \<leftarrow> current_array q;
     if unat i < length (IA_Entries A)
     then Some (set_current (A\<lparr>IA_Entries := (IA_Entries A)[unat i := Some e]\<rparr>) q) else None }"

section \<open>Index arrays\<close>

text \<open>
  \<^verbatim>\<open>CreateNewBlockIndexArray\<close>.  The two allocations may throw; the handler then frees the first.
  The copy loop is a do-while from the oldest entry to \<^verbatim>\<open>PO_NextIndexEntry\<close>.
\<close>

definition copy_body :: "index_entry option list \<Rightarrow> size_t \<Rightarrow> size_t
    \<Rightarrow> size_t \<times> size_t \<times> index_entry option list
    \<Rightarrow> ((size_t \<times> size_t \<times> index_entry option list) + (size_t \<times> index_entry option list)) option"
where
  "copy_body Prev SizeMask next = (\<lambda>(i, j, New).
     if unat i < length Prev \<and> unat j < length New then
       (let New' = New[unat j := Prev ! unat i]; j' = j + 1; i' = (i + 1) AND SizeMask
        in if i' \<noteq> next then Some (Inl (i', j', New')) else Some (Inr (j', New')))
     else None)"

definition copy_entries :: "fastq \<Rightarrow> size_t \<Rightarrow> size_t \<Rightarrow> (size_t \<times> index_entry option list) option" where
  "copy_entries q SizeMask Size =
     (if PO_IndexEntriesUsed q \<noteq> 0 then do {
        A \<leftarrow> current_array q;
        loop (copy_body (IA_Entries A) SizeMask (PO_NextIndexEntry q))
          ((PO_NextIndexEntry q - PO_IndexEntriesUsed q) AND SizeMask, 0,
           replicate (unat Size) None) }
      else Some (0, replicate (unat Size) None))"

definition FastQueue_CreateNewBlockIndexArray ::
  "size_t \<Rightarrow> fastq \<Rightarrow> 'a mem \<Rightarrow> (bool \<times> fastq \<times> 'a mem) option" where
  "FastQueue_CreateNewBlockIndexArray FilledSlot q s =
    (let SizeMask = PO_IndexEntriesSize q - 1;
         Size = push_bit 1 (PO_IndexEntriesSize q) in
     case Allocate 1 (Hp s) of
       (Exn, h1) \<Rightarrow> Some (False, q\<lparr>PO_IndexEntriesSize := drop_bit 1 Size\<rparr>, s\<lparr>Hp := h1\<rparr>)
     | (Ret self, h1) \<Rightarrow>
        (case Allocate (unat Size) h1 of
           (Exn, h2) \<Rightarrow> do {
             h3 \<leftarrow> Deallocate (Some self) 1 h2;
             Some (False, q\<lparr>PO_IndexEntriesSize := drop_bit 1 Size\<rparr>, s\<lparr>Hp := h3\<rparr>) }
         | (Ret at, h2) \<Rightarrow> do {
             (j, NewEntries) \<leftarrow> copy_entries q SizeMask Size;
             let New = \<lparr>IA_Self = self, IA_At = at, IA_Size = Size, IA_Tail = FilledSlot - 1,
                        IA_Entries = NewEntries\<rparr>;
             Some (True, q\<lparr>IndexArrays := New # IndexArrays q, PO_NextIndexEntry := j,
                           PO_IndexEntriesSize := Size\<rparr>, s\<lparr>Hp := h2\<rparr>) }))"

definition FastQueue_new :: "size_t \<Rightarrow> 'a mem \<Rightarrow> (fastq \<times> 'a mem) option" where
  "FastQueue_new InSize s =
    (let InitialSize = drop_bit 1 (CeilToPow2 InSize);
         InitialSize = (if InitialSize < 2 then 2 else InitialSize);
         q = \<lparr>HeadIndex = 0, TailIndex = 0, DequeueAttemptsCount = 0, DequeueFailedCount = 0,
              TailBlock = None, IndexArrays = [], HasManager = True, PO_NextIndexEntry = 0,
              PO_IndexEntriesUsed = 0, PO_IndexEntriesSize = InitialSize\<rparr>
     in do { (_, q, s) \<leftarrow> FastQueue_CreateNewBlockIndexArray 0 q s; Some (q, s) })"

section \<open>Enqueue\<close>

text \<open>
  The part of \<^verbatim>\<open>Enqueue\<close> that finds the next tail block: it reuses the block after the tail when
  that is empty, or else takes a block from the manager and links it in after the tail.  \<open>Inl\<close> is
  an early return (or the manager's exception), \<open>Inr\<close> the state in which the tail block is ready.
\<close>

definition FastQueue_Link :: "addr \<Rightarrow> fastq \<Rightarrow> 'a mem \<Rightarrow> (fastq \<times> 'a mem) option" where
  "FastQueue_Link NewBlock q s = do {
     s1 \<leftarrow> Block_Reset (Some NewBlock) s;
     s2 \<leftarrow> (if TailBlock q = None then Block_set_next (Some NewBlock) (Some NewBlock) s1
           else do { n \<leftarrow> Block_next (TailBlock q) s1;
                     s2 \<leftarrow> Block_set_next (Some NewBlock) n s1;
                     Block_set_next (TailBlock q) (Some NewBlock) s2 });
     Some (q\<lparr>TailBlock := Some NewBlock, PO_IndexEntriesUsed := PO_IndexEntriesUsed q + 1\<rparr>, s2) }"

definition FastQueue_Requisition :: "'a block \<Rightarrow> AllocMode \<Rightarrow> fastq \<Rightarrow> 'a mem
    \<Rightarrow> (((bool res \<times> fastq \<times> 'a mem) + (fastq \<times> 'a mem)) option)" where
  "FastQueue_Requisition proto Mode q s =
    (if \<not> HasManager q then None
     else do {
       (r, s1) \<leftarrow> RequisitionBlock proto Mode s;
       case r of Exn \<Rightarrow> Some (Inl (Exn, q, s1))
       | Ret NewBlock \<Rightarrow> (case NewBlock of None \<Rightarrow> Some (Inl (Ret False, q, s1))
           | Some b \<Rightarrow> do { (q2, s2) \<leftarrow> FastQueue_Link b q s1; Some (Inr (q2, s2)) }) })"

definition FastQueue_NextBlock :: "size_t \<Rightarrow> 'a block \<Rightarrow> AllocMode \<Rightarrow> fastq \<Rightarrow> 'a mem
    \<Rightarrow> (((bool res \<times> fastq \<times> 'a mem) + (fastq \<times> 'a mem)) option)" where
  "FastQueue_NextBlock bs proto Mode q s = do {
     reuse \<leftarrow> (if TailBlock q = None then Some False
               else do { n \<leftarrow> Block_next (TailBlock q) s; Block_IsEmpty bs n s });
     if reuse then do {
       n \<leftarrow> Block_next (TailBlock q) s;
       s1 \<leftarrow> Block_Reset n s;
       Some (Inr (q\<lparr>TailBlock := n\<rparr>, s1)) }
     else if \<not> CircularLessThan (HeadIndex q) (TailIndex q + bs) then Some (Inl (Ret False, q, s))
     else if current_array q = None \<or> PO_IndexEntriesUsed q = PO_IndexEntriesSize q then
       (if Mode = CannotAlloc then Some (Inl (Ret False, q, s))
        else do {
          (ok, q1, s1) \<leftarrow> FastQueue_CreateNewBlockIndexArray (PO_IndexEntriesUsed q) q s;
          if \<not> ok then Some (Inl (Ret False, q1, s1))
          else FastQueue_Requisition proto Mode q1 s1 })
     else FastQueue_Requisition proto Mode q s }"

definition FastQueue_Enqueue :: "size_t \<Rightarrow> 'a block \<Rightarrow> AllocMode \<Rightarrow> 'a option \<Rightarrow> fastq \<Rightarrow> 'a mem
    \<Rightarrow> (bool res \<times> fastq \<times> 'a mem) option" where
  "FastQueue_Enqueue bs proto Mode arg q s =
    (let CurrentTailIndex = TailIndex q;
         NewTailIndex = CurrentTailIndex + 1;
         InnerIndex = CurrentTailIndex AND (bs - 1) in
     if InnerIndex = 0 then do {
       let OldTailBlock = TailBlock q;
       r \<leftarrow> FastQueue_NextBlock bs proto Mode q s;
       case r of Inl early \<Rightarrow> Some early
       | Inr (q1, s1) \<Rightarrow> do {
           let IndexEntryIndex = PO_NextIndexEntry q1;
           q2 \<leftarrow> entry_write IndexEntryIndex (CurrentTailIndex, TailBlock q1) q1;
           case arg of
             None \<Rightarrow> do {
               s2 \<leftarrow> Block_SetAllEmpty bs (TailBlock q2) s1;
               Some (Exn, q2\<lparr>TailBlock := if OldTailBlock = None then TailBlock q2 else OldTailBlock\<rparr>, s2) }
           | Some v \<Rightarrow> do {
               s2 \<leftarrow> Slot_construct (TailBlock q2) InnerIndex v s1;
               A \<leftarrow> current_array q2;
               Some (Ret True, (set_current (A\<lparr>IA_Tail := IndexEntryIndex\<rparr>) q2)
                 \<lparr>PO_NextIndexEntry := (IndexEntryIndex + 1) AND (PO_IndexEntriesSize q2 - 1),
                  TailIndex := NewTailIndex\<rparr>, s2) } } }
     else (case arg of
         None \<Rightarrow> Some (Exn, q, s)
       | Some v \<Rightarrow> do {
           s1 \<leftarrow> Slot_construct (TailBlock q) InnerIndex v s;
           Some (Ret True, q\<lparr>TailIndex := NewTailIndex\<rparr>, s1) }))"

section \<open>Dequeue\<close>

text \<open>Finding the block of an index through the newest index array.\<close>

definition FastQueue_Locate :: "size_t \<Rightarrow> fastq \<Rightarrow> size_t \<Rightarrow> addr option option" where
  "FastQueue_Locate bs q Index = do {
     A \<leftarrow> current_array q;
     let LocalIndexEntryIndex = IA_Tail A;
     (IndexEntryTailBase, _) \<leftarrow> entry_read A LocalIndexEntryIndex;
     let FirstBlockIndexBase = Index AND NOT (bs - 1);
     let Offset = drop_bit (BlockSizeLog2 bs) (FirstBlockIndexBase - IndexEntryTailBase);
     (_, InnerBlock) \<leftarrow> entry_read A ((LocalIndexEntryIndex + Offset) AND (IA_Size A - 1));
     Some InnerBlock }"

text \<open>
  \<^verbatim>\<open>Dequeue\<close>.  \<open>throws v\<close> tells whether assigning \<open>v\<close> to the caller's variable throws; the guard
  then still destroys the element and marks its slot.  The result is the value moved out, or
  nothing when the queue was found empty.
\<close>

definition FastQueue_Dequeue :: "size_t \<Rightarrow> ('a \<Rightarrow> bool) \<Rightarrow> fastq \<Rightarrow> 'a mem
    \<Rightarrow> ('a option res \<times> fastq \<times> 'a mem) option" where
  "FastQueue_Dequeue bs throws q s =
    (let FailedCount = DequeueFailedCount q in
     if CircularLessThan (DequeueAttemptsCount q - FailedCount) (TailIndex q) then
       (let AttemptsCount = DequeueAttemptsCount q;
            q1 = q\<lparr>DequeueAttemptsCount := DequeueAttemptsCount q + 1\<rparr> in
        if CircularLessThan (AttemptsCount - FailedCount) (TailIndex q1) then
          (let Index = HeadIndex q1;
               q2 = q1\<lparr>HeadIndex := HeadIndex q1 + 1\<rparr>;
               InnerIndex = Index AND (bs - 1) in
           do {
             DequeueBlock \<leftarrow> FastQueue_Locate bs q2 Index;
             Value \<leftarrow> Slot_read DequeueBlock InnerIndex s;
             s1 \<leftarrow> Slot_destroy DequeueBlock InnerIndex s;
             (_, s2) \<leftarrow> Block_SetEmpty bs DequeueBlock InnerIndex s1;
             Some (if throws Value then Exn else Ret (Some Value), q2, s2) })
        else Some (Ret None, q1\<lparr>DequeueFailedCount := DequeueFailedCount q1 + 1\<rparr>, s))
     else Some (Ret None, q, s))"

section \<open>EnqueueBulk\<close>

text \<open>
  The locals of the two allocation loops: \<^verbatim>\<open>BlockCountNeed\<close>, \<^verbatim>\<open>CurrentTailIndex\<close>,
  \<^verbatim>\<open>FirstAllocatedBlock\<close> and \<^verbatim>\<open>OriginNextIndexEntry\<close>.
\<close>

record bulk =
  Need :: size_t
  Cur :: size_t
  FirstAlloc :: "addr option"
  OriginNext :: size_t

definition RollBack :: "size_t \<Rightarrow> addr option \<Rightarrow> fastq \<Rightarrow> fastq" where
  "RollBack OriginNextIndexEntry StartBlock q =
     q\<lparr>PO_NextIndexEntry := OriginNextIndexEntry, TailBlock := StartBlock\<rparr>"

text \<open>Recording the new tail block, at the end of an iteration of either loop.\<close>

definition Bulk_entry :: "bulk \<Rightarrow> fastq \<Rightarrow> fastq option" where
  "Bulk_entry l q = do {
     q1 \<leftarrow> entry_write (PO_NextIndexEntry q) (Cur l, TailBlock q) q;
     Some (q1\<lparr>PO_NextIndexEntry := (PO_NextIndexEntry q1 + 1) AND (PO_IndexEntriesSize q1 - 1)\<rparr>) }"

definition Bulk_first :: "fastq \<Rightarrow> bulk \<Rightarrow> bulk" where
  "Bulk_first q l = (if FirstAlloc l = None then l\<lparr>FirstAlloc := TailBlock q\<rparr> else l)"

definition Bulk_step :: "size_t \<Rightarrow> bulk \<Rightarrow> bulk" where
  "Bulk_step bs l = l\<lparr>Need := Need l - 1, Cur := Cur l + bs\<rparr>"

definition Bulk_reuse_body :: "size_t \<Rightarrow> bulk \<times> fastq \<times> 'a mem
    \<Rightarrow> ((bulk \<times> fastq \<times> 'a mem) + (bulk \<times> fastq \<times> 'a mem)) option" where
  "Bulk_reuse_body bs = (\<lambda>(l, q, s). do {
     go \<leftarrow> (if Need l > 0 \<and> TailBlock q \<noteq> None
            then do { n \<leftarrow> Block_next (TailBlock q) s; Block_IsEmpty bs n s } else Some False);
     if go then do {
       let l1 = Bulk_step bs l;
       n \<leftarrow> Block_next (TailBlock q) s;
       let q1 = q\<lparr>TailBlock := n\<rparr>;
       let l2 = Bulk_first q1 l1;
       s1 \<leftarrow> Block_Reset n s;
       q2 \<leftarrow> Bulk_entry l2 q1;
       Some (Inl (l2, q2, s1)) }
     else Some (Inr (l, q, s)) })"

definition Bulk_new_body :: "size_t \<Rightarrow> 'a block \<Rightarrow> AllocMode \<Rightarrow> addr option \<Rightarrow> size_t
    \<Rightarrow> bulk \<times> fastq \<times> 'a mem
    \<Rightarrow> ((bulk \<times> fastq \<times> 'a mem)
         + ((bool res \<times> fastq \<times> 'a mem) + (bulk \<times> fastq \<times> 'a mem))) option" where
  "Bulk_new_body bs proto Mode StartBlock OriginUsed = (\<lambda>(l, q, s).
     if Need l = 0 then Some (Inr (Inr (l, q, s)))
     else let l1 = Bulk_step bs l in
       if \<not> CircularLessThan (HeadIndex q) (Cur l1 + bs)
       then Some (Inr (Inl (Ret False, RollBack (OriginNext l1) StartBlock q, s)))
       else do {
         g \<leftarrow> (if current_array q = None \<or> PO_IndexEntriesUsed q = PO_IndexEntriesSize q
               then if Mode = CannotAlloc then Some (False, l1, q, s)
                    else do {
                      (ok, q1, s1) \<leftarrow> FastQueue_CreateNewBlockIndexArray OriginUsed q s;
                      Some (ok, if ok then l1\<lparr>OriginNext := OriginUsed\<rparr> else l1, q1, s1) }
               else Some (True, l1, q, s));
         case g of (ok, l2, q2, s2) \<Rightarrow>
           if \<not> ok then Some (Inr (Inl (Ret False, RollBack (OriginNext l2) StartBlock q2, s2)))
           else do {
             r \<leftarrow> FastQueue_Requisition proto Mode q2 s2;
             case r of
               Inl (res, q3, s3) \<Rightarrow> (case res of
                   Exn \<Rightarrow> Some (Inr (Inl (Exn, q3, s3)))
                 | Ret _ \<Rightarrow> Some (Inr (Inl (Ret False, RollBack (OriginNext l2) StartBlock q3, s3))))
             | Inr (q3, s3) \<Rightarrow> do {
                 let l3 = Bulk_first q3 l2;
                 q4 \<leftarrow> Bulk_entry l3 q3;
                 Some (Inl (l3, q4, s3)) } } })"

text \<open>
  Filling the blocks.  The inner loop constructs the slots \<^verbatim>\<open>StartInnerIndex\<close> to
  \<^verbatim>\<open>EndInnerIndex\<close>; it ends with the remaining arguments, or at the slot whose constructor threw.
\<close>

definition Fill_body :: "addr option \<Rightarrow> size_t \<Rightarrow> size_t \<times> 'a option list \<times> 'a mem
    \<Rightarrow> ((size_t \<times> 'a option list \<times> 'a mem) + (bool \<times> size_t \<times> 'a option list \<times> 'a mem)) option"
where
  "Fill_body CurrentBlock EndInnerIndex = (\<lambda>(i, args, s).
     if i \<le> EndInnerIndex then
       (case args of [] \<Rightarrow> None
        | None # args' \<Rightarrow> Some (Inr (False, i, args', s))
        | Some v # args' \<Rightarrow> do {
            s1 \<leftarrow> Slot_construct CurrentBlock i v s;
            Some (Inl (i + 1, args', s1)) })
     else Some (Inr (True, i, args, s)))"

text \<open>The outer loop: \<open>Inr\<close> carries whether it completed, the block and the slot it stopped at.\<close>

definition FillBlocks_body :: "size_t \<Rightarrow> size_t \<Rightarrow> size_t \<Rightarrow> addr option
    \<Rightarrow> addr option \<times> size_t \<times> 'a option list \<times> 'a mem
    \<Rightarrow> ((addr option \<times> size_t \<times> 'a option list \<times> 'a mem)
         + (bool \<times> addr option \<times> size_t \<times> 'a mem)) option" where
  "FillBlocks_body bs StartTailIndex Count Tail = (\<lambda>(CurrentBlock, StartInnerIndex, args, s). do {
     let EndInnerIndex = (if CurrentBlock = Tail then (StartTailIndex + Count - 1) AND (bs - 1)
                          else bs - 1);
     (ok, i, args1, s1) \<leftarrow> loop (Fill_body CurrentBlock EndInnerIndex) (StartInnerIndex, args, s);
     if \<not> ok then Some (Inr (False, CurrentBlock, i, s1))
     else if CurrentBlock = Tail then Some (Inr (True, CurrentBlock, i, s1))
     else do { n \<leftarrow> Block_next CurrentBlock s1; Some (Inl (n, 0, args1, s1)) } })"

text \<open>The handler: mark the allocated blocks empty, roll back, destroy what was constructed.\<close>

definition MarkEmpty_body :: "size_t \<Rightarrow> addr option \<Rightarrow> addr option \<times> 'a mem
    \<Rightarrow> ((addr option \<times> 'a mem) + 'a mem) option" where
  "MarkEmpty_body bs Tail = (\<lambda>(b, s). do {
     s1 \<leftarrow> Block_SetAllEmpty bs b s;
     if b = Tail then Some (Inr s1)
     else do { n \<leftarrow> Block_next b s1; Some (Inl (n, s1)) } })"

definition DestroyRange_body :: "addr option \<Rightarrow> size_t \<Rightarrow> size_t \<times> 'a mem
    \<Rightarrow> ((size_t \<times> 'a mem) + 'a mem) option" where
  "DestroyRange_body b EndIndex = (\<lambda>(i, s).
     if i \<noteq> EndIndex then do { s1 \<leftarrow> Slot_destroy b i s; Some (Inl (i + 1, s1)) }
     else Some (Inr s))"

definition DestroyBlocks_body :: "size_t \<Rightarrow> addr option \<Rightarrow> size_t \<Rightarrow> addr option \<times> size_t \<times> 'a mem
    \<Rightarrow> ((addr option \<times> size_t \<times> 'a mem) + 'a mem) option" where
  "DestroyBlocks_body bs CurrentBlock StartInnerIndex = (\<lambda>(b, i, s). do {
     let EndInnerIndex2 = (if b = CurrentBlock then StartInnerIndex else bs);
     s1 \<leftarrow> loop (DestroyRange_body b EndInnerIndex2) (i, s);
     if b = CurrentBlock then Some (Inr s1)
     else do { n \<leftarrow> Block_next b s1; Some (Inl (n, 0, s1)) } })"

definition FastQueue_EnqueueBulk :: "size_t \<Rightarrow> 'a block \<Rightarrow> AllocMode \<Rightarrow> 'a option list \<Rightarrow> size_t
    \<Rightarrow> fastq \<Rightarrow> 'a mem \<Rightarrow> (bool res \<times> fastq \<times> 'a mem) option" where
  "FastQueue_EnqueueBulk bs proto Mode args Count q s =
    (let OriginUsed = PO_IndexEntriesUsed q;
         StartBlock = TailBlock q;
         StartTailIndex = TailIndex q;
         LastTailIndex = StartTailIndex - 1;
         lg = BlockSizeLog2 bs;
         l = \<lparr>Need = drop_bit lg (Count + StartTailIndex - 1) - signed_drop_bit lg (StartTailIndex - 1),
              Cur = LastTailIndex AND NOT (bs - 1), FirstAlloc = None,
              OriginNext = PO_NextIndexEntry q\<rparr> in
     do {
       r \<leftarrow> (if Need l > 0 then do {
               x \<leftarrow> loop (Bulk_reuse_body bs) (l, q, s);
               loop (Bulk_new_body bs proto Mode StartBlock OriginUsed) x }
             else Some (Inr (l, q, s)));
       case r of Inl early \<Rightarrow> Some early
       | Inr (l, q, s) \<Rightarrow> do {
           let StartInnerIndex = StartTailIndex AND (bs - 1);
           let CurrentBlock = (if StartInnerIndex = 0 \<and> FirstAlloc l \<noteq> None then FirstAlloc l
                               else StartBlock);
           (ok, b, i, s1) \<leftarrow> loop (FillBlocks_body bs StartTailIndex Count (TailBlock q))
                              (CurrentBlock, StartInnerIndex, args, s);
           if ok then do {
             q1 \<leftarrow> (if FirstAlloc l \<noteq> None then do {
                      A \<leftarrow> current_array q;
                      Some (set_current (A\<lparr>IA_Tail :=
                        (PO_NextIndexEntry q - 1) AND (PO_IndexEntriesSize q - 1)\<rparr>) q) }
                   else Some q);
             Some (Ret True, q1\<lparr>TailIndex := StartTailIndex + Count\<rparr>, s1) }
           else do {
             s2 \<leftarrow> (if FirstAlloc l \<noteq> None
                   then loop (MarkEmpty_body bs (TailBlock q)) (FirstAlloc l, s1) else Some s1);
             s3 \<leftarrow> loop (DestroyBlocks_body bs b i) (CurrentBlock, StartInnerIndex, s2);
             Some (Exn, RollBack (OriginNext l) StartBlock q, s3) } } })"

section \<open>DequeueBulk\<close>

text \<open>
  The inner loop moves the slots up to \<^verbatim>\<open>EndIndex\<close> out to the caller's iterator; it stops early
  when an assignment throws.  \<open>out\<close> collects the values assigned so far.
\<close>

definition Take_body :: "('a \<Rightarrow> bool) \<Rightarrow> addr option \<Rightarrow> size_t \<Rightarrow> size_t \<times> size_t \<times> 'a list \<times> 'a mem
    \<Rightarrow> ((size_t \<times> size_t \<times> 'a list \<times> 'a mem) + (bool \<times> size_t \<times> size_t \<times> 'a list \<times> 'a mem)) option"
where
  "Take_body throws DequeueBlock EndIndex = (\<lambda>(CurrentIndex, NeedCount, out, s).
     if CurrentIndex \<noteq> EndIndex then do {
       Value \<leftarrow> Slot_read DequeueBlock CurrentIndex s;
       if throws Value then Some (Inr (False, CurrentIndex, NeedCount, out, s))
       else do {
         s1 \<leftarrow> Slot_destroy DequeueBlock CurrentIndex s;
         Some (Inl (CurrentIndex + 1, NeedCount - 1, out @ [Value], s1)) } }
     else Some (Inr (True, CurrentIndex, NeedCount, out, s)))"

definition EndOf :: "size_t \<Rightarrow> size_t \<Rightarrow> size_t \<Rightarrow> size_t" where
  "EndOf bs StartIndex NeedCount =
     (if NeedCount > bs - StartIndex then bs else NeedCount + StartIndex)"

text \<open>
  The handler enters its loop in the middle: it destroys the rest of the current range, marks the
  whole range, and goes on with the next block until nothing is left.
\<close>

definition Drain_range_body :: "addr option \<Rightarrow> size_t \<Rightarrow> size_t \<times> size_t \<times> 'a mem
    \<Rightarrow> ((size_t \<times> size_t \<times> 'a mem) + (size_t \<times> 'a mem)) option" where
  "Drain_range_body b EndIndex = (\<lambda>(CurrentIndex, NeedCount, s).
     if CurrentIndex \<noteq> EndIndex then do {
       s1 \<leftarrow> Slot_destroy b CurrentIndex s;
       Some (Inl (CurrentIndex + 1, NeedCount - 1, s1)) }
     else Some (Inr (NeedCount, s)))"

definition Drain_body :: "size_t \<Rightarrow> addr option \<times> size_t \<times> size_t \<times> size_t \<times> size_t \<times> 'a mem
    \<Rightarrow> ((addr option \<times> size_t \<times> size_t \<times> size_t \<times> size_t \<times> 'a mem) + 'a mem) option" where
  "Drain_body bs = (\<lambda>(DequeueBlock, StartIndex, CurrentIndex, EndIndex, NeedCount, s). do {
     (NeedCount, s1) \<leftarrow> loop (Drain_range_body DequeueBlock EndIndex) (CurrentIndex, NeedCount, s);
     (_, s2) \<leftarrow> Block_SetSomeEmpty bs DequeueBlock StartIndex (EndIndex - StartIndex) s1;
     n \<leftarrow> Block_next DequeueBlock s2;
     if NeedCount \<noteq> 0 then Some (Inl (n, 0, 0, EndOf bs 0 NeedCount, NeedCount, s2))
     else Some (Inr s2) })"

definition TakeBlocks_body :: "size_t \<Rightarrow> ('a \<Rightarrow> bool) \<Rightarrow> addr option \<times> size_t \<times> size_t \<times> 'a list \<times> 'a mem
    \<Rightarrow> ((addr option \<times> size_t \<times> size_t \<times> 'a list \<times> 'a mem) + (bool \<times> 'a list \<times> 'a mem)) option"
where
  "TakeBlocks_body bs throws = (\<lambda>(DequeueBlock, StartIndex, NeedCount, out, s).
     if NeedCount \<noteq> 0 then do {
       let EndIndex = EndOf bs StartIndex NeedCount;
       (ok, CurrentIndex, NeedCount, out, s1) \<leftarrow>
         loop (Take_body throws DequeueBlock EndIndex) (StartIndex, NeedCount, out, s);
       if \<not> ok then do {
         s2 \<leftarrow> loop (Drain_body bs) (DequeueBlock, StartIndex, CurrentIndex, EndIndex, NeedCount, s1);
         Some (Inr (False, out, s2)) }
       else do {
         n \<leftarrow> Block_next DequeueBlock s1;
         (_, s2) \<leftarrow> Block_SetSomeEmpty bs DequeueBlock StartIndex (EndIndex - StartIndex) s1;
         Some (Inl (n, 0, NeedCount, out, s2)) } }
     else Some (Inr (True, out, s)))"

text \<open>The result is the number returned and the values the iterator received.\<close>

definition FastQueue_DequeueBulk :: "size_t \<Rightarrow> ('a \<Rightarrow> bool) \<Rightarrow> size_t \<Rightarrow> fastq \<Rightarrow> 'a mem
    \<Rightarrow> (size_t res \<times> 'a list \<times> fastq \<times> 'a mem) option" where
  "FastQueue_DequeueBulk bs throws MaxCount q s =
    (let FailedCount = DequeueFailedCount q;
         DesiredCount = TailIndex q - (DequeueAttemptsCount q - FailedCount) in
     if CircularLessThan 0 DesiredCount then
       (let DesiredCount = min DesiredCount MaxCount;
            AttemptsCount = DequeueAttemptsCount q;
            q1 = q\<lparr>DequeueAttemptsCount := DequeueAttemptsCount q + DesiredCount\<rparr>;
            ActualCount = TailIndex q1 - (AttemptsCount - FailedCount) in
        if CircularLessThan 0 ActualCount then
          (let ActualCount = min ActualCount DesiredCount;
               q2 = (if ActualCount < DesiredCount
                     then q1\<lparr>DequeueFailedCount := DequeueFailedCount q1 + (DesiredCount - ActualCount)\<rparr>
                     else q1);
               FirstIndex = HeadIndex q2;
               q3 = q2\<lparr>HeadIndex := HeadIndex q2 + ActualCount\<rparr> in
           do {
             FirstDequeueBlock \<leftarrow> FastQueue_Locate bs q3 FirstIndex;
             (ok, out, s1) \<leftarrow> loop (TakeBlocks_body bs throws)
               (FirstDequeueBlock, FirstIndex AND (bs - 1), ActualCount, [], s);
             Some (if ok then Ret ActualCount else Exn, out, q3, s1) })
        else Some (Ret 0, [], q1\<lparr>DequeueFailedCount := DequeueFailedCount q1 + DesiredCount\<rparr>, s))
     else Some (Ret 0, [], q, s))"

section \<open>Clear, Reset, move and swap\<close>

text \<open>\<^verbatim>\<open>Clear\<close>: find the half-dequeued block, destroy the elements, return the blocks, free the arrays.\<close>

definition FindHalf_body :: "size_t \<Rightarrow> fastq \<Rightarrow> ixarray \<Rightarrow> size_t \<Rightarrow> (size_t + addr option) option" where
  "FindHalf_body bs q A i = do {
     (Base, InnerBlock) \<leftarrow> entry_read A i;
     if CircularLessThan (Base + bs) (HeadIndex q)
     then Some (Inl ((i + 1) AND (PO_IndexEntriesSize q - 1)))
     else Some (Inr InnerBlock) }"

definition HalfDequeued :: "size_t \<Rightarrow> fastq \<Rightarrow> addr option option" where
  "HalfDequeued bs q =
     (if HeadIndex q AND (bs - 1) \<noteq> 0 then do {
        A \<leftarrow> current_array q;
        loop (FindHalf_body bs q A)
          ((PO_NextIndexEntry q - PO_IndexEntriesUsed q) AND (PO_IndexEntriesSize q - 1)) }
      else Some None)"

definition ClearSlots_body :: "size_t \<Rightarrow> addr option \<Rightarrow> addr option \<Rightarrow> size_t \<Rightarrow> size_t \<times> 'a mem
    \<Rightarrow> ((size_t \<times> 'a mem) + 'a mem) option" where
  "ClearSlots_body bs Tail Block LastIndex = (\<lambda>(i, s).
     if i \<noteq> bs \<and> (Block \<noteq> Tail \<or> i \<noteq> LastIndex)
     then do { s1 \<leftarrow> Slot_destroy Block i s; Some (Inl (i + 1, s1)) }
     else Some (Inr s))"

definition ClearBlocks_body :: "size_t \<Rightarrow> fastq \<Rightarrow> addr option \<Rightarrow> addr option \<times> 'a mem
    \<Rightarrow> ((addr option \<times> 'a mem) + 'a mem) option" where
  "ClearBlocks_body bs q Half = (\<lambda>(Block, s). do {
     Block \<leftarrow> Block_next Block s;
     e \<leftarrow> Block_IsEmpty bs Block s;
     s1 \<leftarrow> (if e then Some s
           else let i = (if Block = Half then HeadIndex q AND (bs - 1) else 0);
                    Temp = TailIndex q AND (bs - 1);
                    LastIndex = (if Temp = 0 then bs else Temp)
                in loop (ClearSlots_body bs (TailBlock q) Block LastIndex) (i, s));
     if Block \<noteq> TailBlock q then Some (Inl (Block, s1)) else Some (Inr s1) })"

definition ReturnRing_body :: "addr option \<Rightarrow> addr option \<times> 'a mem \<Rightarrow> ((addr option \<times> 'a mem) + 'a mem) option" where
  "ReturnRing_body Tail = (\<lambda>(Block, s). do {
     NextBlock \<leftarrow> Block_next Block s;
     a \<leftarrow> Block;
     s1 \<leftarrow> ReturnBlock a s;
     if NextBlock \<noteq> Tail then Some (Inl (NextBlock, s1)) else Some (Inr s1) })"

fun FreeArrays :: "ixarray list \<Rightarrow> 'a heap \<Rightarrow> 'a heap option" where
  "FreeArrays [] h = Some h"
| "FreeArrays (A # As) h = do {
     h1 \<leftarrow> Deallocate (Some (IA_At A)) (unat (IA_Size A)) h;
     h2 \<leftarrow> Deallocate (Some (IA_Self A)) 1 h1;
     FreeArrays As h2 }"

definition FastQueue_Clear :: "size_t \<Rightarrow> fastq \<Rightarrow> 'a mem \<Rightarrow> 'a mem option" where
  "FastQueue_Clear bs q s = do {
     s1 \<leftarrow> (if TailBlock q \<noteq> None then do {
              Half \<leftarrow> HalfDequeued bs q;
              loop (ClearBlocks_body bs q Half) (TailBlock q, s) }
           else Some s);
     s2 \<leftarrow> (if TailBlock q \<noteq> None then loop (ReturnRing_body (TailBlock q)) (TailBlock q, s1)
           else Some s1);
     h \<leftarrow> FreeArrays (IndexArrays q) (Hp s2);
     Some (s2\<lparr>Hp := h\<rparr>) }"

definition FastQueue_Reset :: "fastq \<Rightarrow> fastq" where
  "FastQueue_Reset q = (QueueBase_Reset q)\<lparr>IndexArrays := [], HasManager := False,
     PO_NextIndexEntry := 0, PO_IndexEntriesUsed := 0, PO_IndexEntriesSize := 0\<rparr>"

definition FastQueue_move :: "fastq \<Rightarrow> fastq \<times> fastq" where
  "FastQueue_move Other = (Other, FastQueue_Reset Other)"

text \<open>Both queues use the manager of the memory \<open>s\<close>.\<close>

definition FastQueue_move_assign ::
  "size_t \<Rightarrow> fastq \<Rightarrow> fastq \<Rightarrow> 'a mem \<Rightarrow> (fastq \<times> fastq \<times> 'a mem) option" where
  "FastQueue_move_assign bs this Other s = do {
     s1 \<leftarrow> FastQueue_Clear bs this s;
     Some (Other, FastQueue_Reset Other, s1) }"

definition FastQueue_swap :: "fastq \<Rightarrow> fastq \<Rightarrow> fastq \<times> fastq" where
  "FastQueue_swap this Other =
     (let (b, b') = QueueBase_swap (qbase.truncate this) (qbase.truncate Other);
          (arr, arr') = SwapRelaxed (IndexArrays this) (IndexArrays Other)
      in (qbase.extend b (fastq.fields arr (HasManager Other) (PO_NextIndexEntry Other)
            (PO_IndexEntriesUsed Other) (PO_IndexEntriesSize Other)),
          qbase.extend b' (fastq.fields arr' (HasManager this) (PO_NextIndexEntry this)
            (PO_IndexEntriesUsed this) (PO_IndexEntriesSize this))))"

end
