(* ===== verification/Index_Arith.thy ===== *)
theory Index_Arith
  imports Queue_Base
begin

text \<open>
  The arithmetic of the block indices that both producer queues keep: positions in a circular
  array counted backwards, the masks and shifts of the code on wrapped indices, and the bound that
  the size of the machine puts on the number of blocks a queue can hold.
\<close>

section \<open>Positions in a circular array\<close>

text \<open>\<open>ix M nx d\<close> is the position \<open>d\<close> steps before \<open>nx\<close> in a circular array of size \<open>M\<close>.\<close>

definition ix :: "nat \<Rightarrow> nat \<Rightarrow> nat \<Rightarrow> nat" where
  "ix M nx d = (nx + M - d) mod M"

lemma ix_less: "0 < M \<Longrightarrow> ix M nx d < M"
  by (simp add: ix_def)

lemma ix_zero: "nx < M \<Longrightarrow> ix M nx 0 = nx"
  by (simp add: ix_def)

lemma ix_Suc_next: "d < M \<Longrightarrow> ix M ((nx + 1) mod M) (Suc d) = ix M nx d"
proof -
  assume d: "d < M"
  have "ix M ((nx + 1) mod M) (Suc d) = ((nx + 1) mod M + (M - Suc d)) mod M"
    using d by (simp add: ix_def)
  also have "\<dots> = (nx + 1 + (M - Suc d)) mod M" by (simp add: mod_add_left_eq)
  also have "nx + 1 + (M - Suc d) = nx + M - d" using d by simp
  finally show ?thesis by (simp only: ix_def)
qed

lemma ix_neq: "0 < d \<Longrightarrow> d < M \<Longrightarrow> nx < M \<Longrightarrow> ix M nx d \<noteq> nx"
  by (cases "d \<le> nx") (auto simp: ix_def mod_if)

lemma ix_inj:
  assumes "d \<le> M" "d' \<le> M" "0 < d" "0 < d'" "ix M nx d = ix M nx d'" "nx < M"
  shows "d = d'"
proof -
  have "ix M nx x = (if x \<le> nx then nx - x else nx + M - x)" if "0 < x" "x \<le> M" for x
    using that assms(6) by (auto simp: ix_def mod_if)
  then show ?thesis using assms by (auto split: if_splits)
qed

lemma ix_plain: "d \<le> nu \<Longrightarrow> 0 < d \<Longrightarrow> nu \<le> M \<Longrightarrow> ix M nu d = nu - d"
proof -
  assume d: "d \<le> nu" "0 < d" "nu \<le> M"
  then have "nu + M - d = (nu - d) + M" by simp
  then have "ix M nu d = (nu - d) mod M" by (simp only: ix_def mod_add_self2)
  then show ?thesis using d by simp
qed

lemma ix_step: "0 < d \<Longrightarrow> d \<le> M \<Longrightarrow> (ix M nx d + 1) mod M = ix M nx (d - 1)"
proof -
  assume d: "0 < d" "d \<le> M"
  have "(ix M nx d + 1) mod M = (nx + M - d + 1) mod M" by (simp add: ix_def mod_Suc_eq)
  also have "nx + M - d + 1 = nx + M - (d - 1)" using d by simp
  finally show ?thesis by (simp only: ix_def)
qed

section \<open>Bounds\<close>

definition last_opt :: "addr list \<Rightarrow> addr option" where
  "last_opt xs = (if xs = [] then None else Some (last xs))"

lemma mgr_inv_slots:
  assumes "mgr_inv n s U" "distinct as" "set as \<subseteq> U"
  shows "length as * n < 2 ^ 63"
proof -
  obtain bs where bs: "mgr_inv_with n s U bs" using assms(1) by (auto simp: mgr_inv_def)
  note d = mgr_inv_withD [OF bs]
  have "length as \<le> card (dom (blk s))"
    using card_mono [OF d(11), of "set as"] d(7) assms(2,3) by (auto simp: distinct_card)
  then have "length as * n \<le> (card (dom (blk s)) + Quota (Hp s)) * n"
    by (intro mult_le_mono1) linarith
  also have "\<dots> < 2 ^ 63" using d(10) by (simp only: mem_bound_def)
  finally show ?thesis .
qed

lemma mgr_room:
  assumes "mgr_inv n s U" "distinct as" "set as \<subseteq> U" "0 < Quota (Hp s)"
  shows "length as * n + n < 2 ^ 63"
proof -
  obtain bs where bs: "mgr_inv_with n s U bs" using assms(1) by (auto simp: mgr_inv_def)
  note d = mgr_inv_withD [OF bs]
  have "length as \<le> card (dom (blk s))"
    using card_mono [OF d(11), of "set as"] d(7) assms(2,3) by (auto simp: distinct_card)
  then have "length as + 1 \<le> card (dom (blk s)) + Quota (Hp s)" using assms(4) by simp
  then have "(length as + 1) * n \<le> (card (dom (blk s)) + Quota (Hp s)) * n" by (rule mult_le_mono1)
  also have "\<dots> < 2 ^ 63" using d(10) by (simp only: mem_bound_def)
  finally show ?thesis by simp
qed

lemma window_span: "0 < n \<Longrightarrow> window n hn tn f bl ls \<Longrightarrow> hn \<le> tn \<and> tn - hn \<le> length ls * n"
proof -
  assume n: "0 < n" and w: "window n hn tn f bl ls"
  have "tn \<le> up n tn * n"
  proof (cases "tn mod n = 0")
    case False
    have "tn = tn div n * n + tn mod n" by simp
    also have "\<dots> \<le> tn div n * n + n" using mod_less_divisor [OF n, of tn] by linarith
    finally show ?thesis using False by (simp add: up_def)
  next
    case True
    have "tn = tn div n * n + tn mod n" by simp
    then show ?thesis using True by (simp add: up_def)
  qed
  also have "\<dots> = (hn div n + length ls) * n" using w by (simp add: window_def)
  also have "\<dots> \<le> hn + length ls * n" by (simp add: add_mult_distrib)
  finally show ?thesis using w by (simp add: window_def)
qed

lemma holds_wf: "holds n j hn tn f b \<Longrightarrow> block_wf n b"
  by (auto simp: holds_def block_wf_def dest: policy.rep_wf)

lemma spent_wf: "spent n b \<Longrightarrow> block_wf n b"
  by (auto simp: spent_def block_wf_def dest: policy.rep_wf)

lemma boundary_mult: "t mod n = 0 \<Longrightarrow> t div n * n = (t::nat)"
  by (metis add.right_neutral div_mult_mod_eq)

section \<open>Words\<close>

lemma fast_inner_index:
  assumes "k < 64"
  shows "(of_nat t :: size_t) AND (2 ^ k - 1) = of_nat (t mod 2 ^ k)"
    "unat (of_nat (t mod 2 ^ k) :: size_t) = t mod 2 ^ k"
    "(of_nat t :: size_t) AND (2 ^ k - 1) = 0 \<longleftrightarrow> t mod 2 ^ k = 0"
proof -
  show 1: "(of_nat t :: size_t) AND (2 ^ k - 1) = of_nat (t mod 2 ^ k)" by (rule mask_of_nat)
  have "t mod 2 ^ k < 2 ^ k" by simp
  also have "(2::nat) ^ k < 2 ^ 64" using assms by (intro power_strict_increasing) auto
  finally have lt: "t mod 2 ^ k < 2 ^ 64" .
  then show 2: "unat (of_nat (t mod 2 ^ k) :: size_t) = t mod 2 ^ k"
    by (intro unat_of_nat_small) simp
  show "(of_nat t :: size_t) AND (2 ^ k - 1) = 0 \<longleftrightarrow> t mod 2 ^ k = 0"
    unfolding 1 using 2 by (metis unat_eq_zero of_nat_0)
qed

lemma index_word:
  assumes "i < 2 ^ m" "m < 64"
  shows "unat (of_nat i :: size_t) = i"
proof -
  have "(2::nat) ^ m < 2 ^ 64" using assms(2) by (intro power_strict_increasing) auto
  then have "i < 2 ^ 64" using assms(1) by linarith
  then show ?thesis by (intro unat_of_nat_small) simp
qed

lemma mask_diff_of_nat:
  assumes nu: "nu \<le> 2 ^ m" and m: "m < 64"
  shows "((of_nat nx :: size_t) - of_nat nu) AND (2 ^ m - 1) = of_nat (ix (2 ^ m) nx nu)"
proof (cases "nu \<le> nx")
  case True
  then have "(of_nat nx :: size_t) - of_nat nu = of_nat (nx - nu)" by simp
  moreover have "nx + 2 ^ m - nu = (nx - nu) + 2 ^ m" using True by simp
  ultimately show ?thesis by (simp only: mask_of_nat ix_def mod_add_self2)
next
  case False
  let ?x = "(of_nat nx :: size_t) - of_nat nu"
  have lt: "(2::nat) ^ m < 2 ^ 64" using m by (intro power_strict_increasing) auto
  have c: "0 < nu - nx" "nu - nx < 2 ^ 64" using False nu lt by linarith+
  have "unat ?x = 2 ^ 64 - (nu - nx)"
    using unat_of_nat_neg_diff [where 'w = 64, OF c(1), of nu nx] c(2) False by simp
  then have "unat (?x AND (2 ^ m - 1)) = (2 ^ 64 - (nu - nx)) mod 2 ^ m"
    by (simp only: unat_and_mask)
  also have "(2 ^ 64 - (nu - nx) :: nat) = (2 ^ m - (nu - nx)) + (2 ^ 64 - 2 ^ m)"
    using nu lt by linarith
  also have "(2 ^ 64 - 2 ^ m :: nat) = (2 ^ (64 - m) - 1) * 2 ^ m"
    using m by (simp add: diff_mult_distrib flip: power_add)
  also have "((2 ^ m - (nu - nx)) + (2 ^ (64 - m) - 1) * 2 ^ m) mod 2 ^ m = (2 ^ m - (nu - nx)) mod (2 ^ m :: nat)"
    by simp
  also have "2 ^ m - (nu - nx) = nx + 2 ^ m - nu" using False nu by simp
  finally have "unat (?x AND (2 ^ m - 1)) = ix (2 ^ m) nx nu" by (simp only: ix_def)
  then have "of_nat (unat (?x AND (2 ^ m - 1))) = (of_nat (ix (2 ^ m) nx nu) :: size_t)" by simp
  then show ?thesis by (simp only: of_nat_unat ucast_id)
qed

lemma mod_pow2_add: "m \<le> a \<Longrightarrow> (x + 2 ^ a) mod 2 ^ m = x mod (2 ^ m :: nat)"
  by (metis le_imp_power_dvd mod_add_right_eq dvd_imp_mod_0 add.right_neutral)

lemma offset_back:
  assumes "k < 64" "c < 2 ^ (64 - k)" "b = a + c"
  shows "drop_bit k ((of_nat (a * 2 ^ k) :: size_t) - of_nat (b * 2 ^ k))
      = of_nat (if c = 0 then 0 else 2 ^ (64 - k) - c)"
proof (cases "c = 0")
  case False
  have p: "(2::nat) ^ (64 - k) * 2 ^ k = 2 ^ 64"
    using assms(1) by (simp flip: power_add)
  have "c * 2 ^ k < 2 ^ (64 - k) * 2 ^ k" using assms(2) by (intro mult_strict_right_mono) auto
  then have c: "0 < c * 2 ^ k" "c * 2 ^ k < 2 ^ 64" unfolding p using False by auto
  have "b * 2 ^ k = a * 2 ^ k + c * 2 ^ k" using assms(3) by (simp add: add_mult_distrib)
  then have "unat ((of_nat (a * 2 ^ k) :: size_t) - of_nat (b * 2 ^ k)) = 2 ^ 64 - c * 2 ^ k"
    using unat_of_nat_neg_diff [where 'w = 64, OF c(1), of "b * 2 ^ k" "a * 2 ^ k"] c(2) by simp
  also have "\<dots> = (2 ^ (64 - k) - c) * 2 ^ k" by (simp only: p [symmetric] diff_mult_distrib)
  finally have "unat (drop_bit k ((of_nat (a * 2 ^ k) :: size_t) - of_nat (b * 2 ^ k))) = 2 ^ (64 - k) - c"
    by (simp add: unat_drop_bit_div)
  then have "of_nat (unat (drop_bit k ((of_nat (a * 2 ^ k) :: size_t) - of_nat (b * 2 ^ k))))
      = (of_nat (2 ^ (64 - k) - c) :: size_t)"
    by (rule arg_cong)
  then show ?thesis using False by (simp only: of_nat_unat ucast_id if_False)
qed (simp add: assms(3))

text \<open>
  The index computation of both queues: from the newest entry, whose block is number
  \<open>h div 2 ^ k + c\<close>, to the entry of the block that holds index \<open>h\<close>.
\<close>

lemma locate_index:
  assumes k: "k < 64" and m: "m + k \<le> 64" and c: "c < 2 ^ m"
  shows "((of_nat (ix (2 ^ m) nx 1) :: size_t)
      + drop_bit k ((of_nat h AND NOT (2 ^ k - 1)) - of_nat ((h div 2 ^ k + c) * 2 ^ k)))
      AND (2 ^ m - 1) = of_nat (ix (2 ^ m) nx (Suc c))"
proof -
  have "(2::nat) ^ m \<le> 2 ^ (64 - k)" using m by (intro power_increasing) auto
  then have c': "c < 2 ^ (64 - k)" using c by linarith
  let ?o = "if c = 0 then 0 else 2 ^ (64 - k) - c"
  have off: "drop_bit k ((of_nat h AND NOT (2 ^ k - 1)) - (of_nat ((h div 2 ^ k + c) * 2 ^ k) :: size_t))
      = of_nat ?o"
    using offset_back [OF k c' refl, of "h div 2 ^ k"] by (simp only: and_not_mask_of_nat)
  have "(ix (2 ^ m) nx 1 + ?o) mod 2 ^ m = ix (2 ^ m) nx (Suc c)"
  proof (cases "c = 0")
    case False
    have "(ix (2 ^ m) nx 1 + (2 ^ (64 - k) - c)) mod 2 ^ m = (nx + 2 ^ m - 1 + (2 ^ (64 - k) - c)) mod 2 ^ m"
      by (simp add: ix_def mod_add_left_eq)
    also have "nx + 2 ^ m - 1 + (2 ^ (64 - k) - c) = (nx + 2 ^ m - Suc c) + 2 ^ (64 - k)"
      using c c' by simp
    also have "\<dots> mod 2 ^ m = ix (2 ^ m) nx (Suc c)"
      using m by (simp add: mod_pow2_add ix_def)
    finally show ?thesis using False by simp
  qed (simp add: ix_def)
  then show ?thesis by (simp only: off of_nat_add [symmetric] mask_of_nat)
qed

text \<open>The initial size of an index array: a power of two that leaves room for doubling it once.\<close>

lemma CeilToPow2_cases:
  assumes "j < 64" "unat X \<le> 2 ^ j"
  shows "CeilToPow2 X = 0 \<or> (\<exists>i \<le> j. CeilToPow2 X = 2 ^ i)"
proof (cases "unat X \<le> 1")
  case True
  then have "X = 0 \<or> X = 1" by (metis le_less_Suc_eq less_one unat_0 unat_1 unsigned_word_eqI Suc_eq_plus1
      add_0 le_zero_eq not_less_eq_eq One_nat_def le_antisym not_less)
  moreover have "CeilToPow2 1 = 2 ^ 0" by code_simp
  ultimately show ?thesis using CeilToPow2_zero by auto
next
  case False
  define i where "i = (LEAST i. unat X \<le> 2 ^ i)"
  have le: "unat X \<le> 2 ^ i" unfolding i_def by (rule LeastI [of _ j]) (rule assms(2))
  have ij: "i \<le> j" unfolding i_def by (rule Least_le) (rule assms(2))
  have "i \<noteq> 0" using le False by (cases i) auto
  then have "\<not> unat X \<le> 2 ^ (i - 1)" using not_less_Least [of "i - 1" "\<lambda>i. unat X \<le> 2 ^ i"]
    by (simp add: i_def)
  then have "2 ^ i < 2 * unat X" using \<open>i \<noteq> 0\<close> by (cases i) auto
  then have "CeilToPow2 X = 2 ^ i" using False le ij assms(1) by (intro CeilToPow2_eq) auto
  then show ?thesis using ij by blast
qed

lemma initial_index_size:
  assumes k: "1 \<le> k" "k \<le> 62" and size: "unat InSize \<le> 2 ^ (64 - k)"
  obtains m where "1 \<le> m" "m + 1 + k \<le> 64"
    "(if drop_bit 1 (CeilToPow2 InSize) < 2 then 2 else drop_bit 1 (CeilToPow2 InSize)) = 2 ^ m"
proof -
  let ?I = "drop_bit 1 (CeilToPow2 InSize)"
  define I where "I = (if ?I < 2 then 2 else ?I)"
  obtain m where m: "1 \<le> m" "m + 1 + k \<le> 64" "I = 2 ^ m"
  proof -
    have "64 - k < 64" using k by simp
    from CeilToPow2_cases [OF this size] show ?thesis
    proof
      assume "CeilToPow2 InSize = 0"
      then show ?thesis using that [of 1] k by (simp add: I_def)
    next
      assume "\<exists>i \<le> 64 - k. CeilToPow2 InSize = 2 ^ i"
      then obtain i where i: "i \<le> 64 - k" "CeilToPow2 InSize = 2 ^ i" by blast
      have half: "drop_bit 1 (2 ^ i :: size_t) = (if i = 0 then 0 else 2 ^ (i - 1))"
        using i(1) k by (intro bit_eqI) (auto simp: bit_simps)
      show ?thesis
      proof (cases "i \<le> 1")
        case True
        then have "I = 2 ^ 1" using half i(2) by (auto simp: I_def le_Suc_eq)
        then show ?thesis using that [of 1] k by simp
      next
        case False
        have u: "unat (2 ^ (i - 1) :: size_t) = 2 ^ (i - 1)" using i(1) k by (intro unat_pow2) simp
        have "(2::nat) ^ 1 \<le> 2 ^ (i - 1)" using False by (intro power_increasing) auto
        then have "\<not> (2 ^ (i - 1) :: size_t) < 2" using u by (simp add: word_less_nat_alt)
        then have "I = 2 ^ (i - 1)" using half i(2) False by (simp add: I_def)
        then show ?thesis using that [of "i - 1"] i(1) False k by simp
      qed
    qed
  qed
  then show thesis using that unfolding I_def by blast
qed

end
