(* ===== verification/Fifo.thy ===== *)
theory Fifo
  imports Prelude
begin

text \<open>
  The contract of a queue of values, against which every queue of the library is verified.  A
  client runs a sequence of operations; the locale proves once that the responses are those of a
  queue of values: nothing is lost, duplicated or reordered, and no operation faults or hangs.
\<close>

section \<open>Sequences of operations\<close>

text \<open>\<open>Enq arg\<close> enqueues an element built from \<open>arg\<close> (\<open>None\<close>: its constructor throws).\<close>

datatype 'a qop = Enq "'a option" | Deq

datatype 'a qresp = EnqResp "bool res" | DeqResp "'a option res"

fun queue_run :: "('a option \<Rightarrow> 's \<Rightarrow> (bool res \<times> 's) option) \<Rightarrow> ('s \<Rightarrow> ('a option res \<times> 's) option)
    \<Rightarrow> 'a qop list \<Rightarrow> 's \<Rightarrow> ('a qresp list \<times> 's) option" where
  "queue_run enq deq [] s = Some ([], s)"
| "queue_run enq deq (Enq arg # ops) s = do {
     (r, s1) \<leftarrow> enq arg s;
     (rs, s2) \<leftarrow> queue_run enq deq ops s1;
     Some (EnqResp r # rs, s2) }"
| "queue_run enq deq (Deq # ops) s = do {
     (r, s1) \<leftarrow> deq s;
     (rs, s2) \<leftarrow> queue_run enq deq ops s1;
     Some (DeqResp r # rs, s2) }"

text \<open>
  The responses a queue holding \<open>xs\<close> may give, and what it holds afterwards.  \<open>throws x\<close>: handing
  \<open>x\<close> to the caller throws; the element is consumed all the same.  An enqueue may be refused or
  leave by an exception, and then changes nothing.
\<close>

fun fifo_trace :: "('a \<Rightarrow> bool) \<Rightarrow> 'a list \<Rightarrow> 'a qop list \<Rightarrow> 'a qresp list \<Rightarrow> 'a list \<Rightarrow> bool" where
  "fifo_trace throws xs [] rs ys \<longleftrightarrow> rs = [] \<and> ys = xs"
| "fifo_trace throws xs (Enq arg # ops) rs ys \<longleftrightarrow> (case rs of
     EnqResp (Ret True) # rs' \<Rightarrow> (\<exists>v. arg = Some v \<and> fifo_trace throws (xs @ [v]) ops rs' ys)
   | EnqResp _ # rs' \<Rightarrow> fifo_trace throws xs ops rs' ys
   | _ \<Rightarrow> False)"
| "fifo_trace throws xs (Deq # ops) rs ys \<longleftrightarrow> (case rs of
     DeqResp r # rs' \<Rightarrow> (case xs of
         [] \<Rightarrow> r = Ret None \<and> fifo_trace throws [] ops rs' ys
       | x # xs' \<Rightarrow> r = (if throws x then Exn else Ret (Some x)) \<and> fifo_trace throws xs' ops rs' ys)
   | _ \<Rightarrow> False)"

text \<open>The values accepted by the enqueues and those handed out by the dequeues.\<close>

fun accepted :: "'a qop list \<Rightarrow> 'a qresp list \<Rightarrow> 'a list" where
  "accepted (Enq (Some v) # ops) (EnqResp (Ret True) # rs) = v # accepted ops rs"
| "accepted (_ # ops) (_ # rs) = accepted ops rs"
| "accepted _ _ = []"

fun delivered :: "'a qresp list \<Rightarrow> 'a list" where
  "delivered (DeqResp (Ret (Some v)) # rs) = v # delivered rs"
| "delivered (_ # rs) = delivered rs"
| "delivered [] = []"

text \<open>Without throwing assignments: what went in came out or is still there, in order.\<close>

lemma fifo_trace_conserves:
  "fifo_trace (\<lambda>_. False) xs ops rs ys \<Longrightarrow> xs @ accepted ops rs = delivered rs @ ys"
proof (induction "\<lambda>_ :: 'a. False" xs ops rs ys rule: fifo_trace.induct)
  case (2 xs arg ops rs ys)
  then show ?case by (auto split: list.splits qresp.splits res.splits bool.splits)
next
  case (3 xs ops rs ys)
  then show ?case by (cases xs) (auto split: list.splits qresp.splits)
qed simp

section \<open>The contract\<close>

text \<open>
  A queue that keeps its contract while its resources last: \<open>rel c s xs\<close> says that in state \<open>s\<close>
  it holds \<open>xs\<close> and can still serve \<open>c\<close> operations.
\<close>

locale budget_queue =
  fixes rel :: "nat \<Rightarrow> 's \<Rightarrow> 'a list \<Rightarrow> bool"
    and enq :: "'a option \<Rightarrow> 's \<Rightarrow> (bool res \<times> 's) option"
    and deq :: "'s \<Rightarrow> ('a option res \<times> 's) option"
    and throws :: "'a \<Rightarrow> bool"
  assumes enq_law: "rel (Suc c) s xs \<Longrightarrow> \<exists>r s'. enq arg s = Some (r, s')
      \<and> (case r of Ret True \<Rightarrow> \<exists>v. arg = Some v \<and> rel c s' (xs @ [v]) | _ \<Rightarrow> rel c s' xs)"
    and deq_empty: "rel (Suc c) s [] \<Longrightarrow> \<exists>s'. deq s = Some (Ret None, s') \<and> rel c s' []"
    and deq_next: "rel (Suc c) s (x # xs) \<Longrightarrow>
      \<exists>s'. deq s = Some (if throws x then Exn else Ret (Some x), s') \<and> rel c s' xs"
begin

theorem run_refines:
  "rel (length ops + c) s xs \<Longrightarrow> \<exists>rs s' ys. queue_run enq deq ops s = Some (rs, s') \<and> rel c s' ys
     \<and> fifo_trace throws xs ops rs ys"
proof (induction ops arbitrary: s xs)
  case Nil
  then show ?case by simp
next
  case (Cons op ops)
  then have rel: "rel (Suc (length ops + c)) s xs" by simp
  show ?case
  proof (cases op)
    case (Enq arg)
    obtain r s1 where r: "enq arg s = Some (r, s1)"
      "case r of Ret True \<Rightarrow> \<exists>v. arg = Some v \<and> rel (length ops + c) s1 (xs @ [v])
         | _ \<Rightarrow> rel (length ops + c) s1 xs"
      using enq_law [OF rel, of arg] by blast
    show ?thesis
    proof (cases "r = Ret True")
      case True
      then obtain v where v: "arg = Some v" "rel (length ops + c) s1 (xs @ [v])" using r(2) by auto
      from Cons.IH [OF v(2)] show ?thesis using r(1) True Enq v(1) by fastforce
    next
      case False
      then have "rel (length ops + c) s1 xs" using r(2) by (auto split: res.splits bool.splits)
      from Cons.IH [OF this] obtain rs s' ys where "queue_run enq deq ops s1 = Some (rs, s')" "rel c s' ys"
        "fifo_trace throws xs ops rs ys" by blast
      then show ?thesis using r(1) False Enq by (auto split: res.splits bool.splits)
    qed
  next
    case Deq
    show ?thesis
    proof (cases xs)
      case Nil
      then obtain s1 where "deq s = Some (Ret None, s1)" "rel (length ops + c) s1 []"
        using deq_empty rel by blast
      with Cons.IH [OF this(2)] Nil Deq show ?thesis by fastforce
    next
      case (Cons x xs')
      then obtain s1 where "deq s = Some (if throws x then Exn else Ret (Some x), s1)"
        "rel (length ops + c) s1 xs'"
        using deq_next rel by blast
      with Cons.IH [OF this(2)] Cons Deq show ?thesis by fastforce
    qed
  qed
qed

text \<open>When handing values out never throws, the queue conserves them.\<close>

theorem run_conserves:
  assumes "rel (length ops + c) s xs" "throws = (\<lambda>_. False)"
  shows "\<exists>rs s' ys. queue_run enq deq ops s = Some (rs, s') \<and> rel c s' ys
    \<and> xs @ accepted ops rs = delivered rs @ ys"
  using run_refines [OF assms(1)] fifo_trace_conserves unfolding assms(2) by blast

text \<open>As many dequeues as there are values hand all of them out, in order, and leave it empty.\<close>

theorem drain:
  "rel (length xs + c) s xs \<Longrightarrow> \<exists>s'. queue_run enq deq (replicate (length xs) Deq) s
     = Some (List.map (\<lambda>x. DeqResp (if throws x then Exn else Ret (Some x))) xs, s') \<and> rel c s' []"
proof (induction xs arbitrary: s)
  case Nil
  then show ?case by simp
next
  case (Cons x xs)
  then have "rel (Suc (length xs + c)) s (x # xs)" by simp
  then obtain s1 where s1: "deq s = Some (if throws x then Exn else Ret (Some x), s1)"
    "rel (length xs + c) s1 xs"
    using deq_next by blast
  with Cons.IH [OF s1(2)] show ?case by fastforce
qed

end

text \<open>A queue that keeps its contract for ever.\<close>

locale fifo_queue =
  fixes rel :: "'s \<Rightarrow> 'a list \<Rightarrow> bool"
    and enq :: "'a option \<Rightarrow> 's \<Rightarrow> (bool res \<times> 's) option"
    and deq :: "'s \<Rightarrow> ('a option res \<times> 's) option"
    and throws :: "'a \<Rightarrow> bool"
  assumes enq_rel: "rel s xs \<Longrightarrow> \<exists>r s'. enq arg s = Some (r, s')
      \<and> (case r of Ret True \<Rightarrow> \<exists>v. arg = Some v \<and> rel s' (xs @ [v]) | _ \<Rightarrow> rel s' xs)"
    and deq_rel_empty: "rel s [] \<Longrightarrow> \<exists>s'. deq s = Some (Ret None, s') \<and> rel s' []"
    and deq_rel_next: "rel s (x # xs) \<Longrightarrow>
      \<exists>s'. deq s = Some (if throws x then Exn else Ret (Some x), s') \<and> rel s' xs"

sublocale fifo_queue \<subseteq> budget_queue "\<lambda>_. rel" enq deq throws
  by unfold_locales (rule enq_rel deq_rel_empty deq_rel_next, assumption)+

end
