(* ===== verification/Fast_Queue_Correct.thy ===== *)
theory Fast_Queue_Correct
  imports Fast_Queue Index_Arith Fifo
begin

text \<open>
  The invariant of \<^verbatim>\<open>FastQueue\<close> and the correctness of its single-element operations: for one
  thread at a time it refines a queue of values.  The ghost state of the invariant is the
  unwrapped head and tail index \<open>hn\<close> and \<open>tn\<close>, the element \<open>f i\<close> at every index \<open>i\<close>, and the
  ring \<open>fs @ ls\<close> of blocks from the one after the tail to the tail: the free blocks \<open>fs\<close>
  followed by the blocks \<open>ls\<close> that hold the elements.
\<close>

section \<open>The invariant\<close>

text \<open>
  The index part: the current array has \<open>2 ^ m\<close> entries, \<open>nu\<close> of them in use (one for each block
  of the ring), and the last \<open>length ls\<close> entries before \<^verbatim>\<open>PO_NextIndexEntry\<close> belong to \<open>ls\<close>, the
  last one numbered \<open>j0 + length ls - 1\<close>.
\<close>

definition index_entries :: "nat \<Rightarrow> nat \<Rightarrow> nat \<Rightarrow> nat \<Rightarrow> addr list \<Rightarrow> index_entry option list \<Rightarrow> bool" where
  "index_entries M n nx j0 ls es \<longleftrightarrow> length es = M
     \<and> (\<forall>i < length ls. es ! ix M nx (length ls - i) = Some (of_nat ((j0 + i) * n), Some (ls ! i)))"

definition index_inv :: "nat \<Rightarrow> fastq \<Rightarrow> nat \<Rightarrow> nat \<Rightarrow> addr list \<Rightarrow> bool" where
  "index_inv k q nu j0 ls \<longleftrightarrow> (\<exists>m nx. 1 \<le> m \<and> m + k \<le> 64 \<and> m < 64 \<and> nx < 2 ^ m
     \<and> PO_IndexEntriesSize q = 2 ^ m \<and> PO_NextIndexEntry q = of_nat nx
     \<and> PO_IndexEntriesUsed q = of_nat nu \<and> nu \<le> 2 ^ m \<and> length ls \<le> nu
     \<and> (case IndexArrays q of [] \<Rightarrow> nu = 0 \<and> m + 1 + k \<le> 64 \<and> m + 1 < 64 \<and> nx = 0
        | A # _ \<Rightarrow> IA_Size A = 2 ^ m
            \<and> (ls \<noteq> [] \<longrightarrow> IA_Tail A = of_nat (ix (2 ^ m) nx 1))
            \<and> index_entries (2 ^ m) (2 ^ k) nx j0 ls (IA_Entries A)))"

definition next_of :: "'a mem \<Rightarrow> addr \<Rightarrow> addr option" where
  "next_of s a = Option.bind (blk s a) Next"

definition fast_inv :: "nat \<Rightarrow> addr set \<Rightarrow> fastq \<Rightarrow> 'a mem \<Rightarrow> nat \<Rightarrow> nat \<Rightarrow> (nat \<Rightarrow> 'a)
    \<Rightarrow> addr list \<Rightarrow> addr list \<Rightarrow> bool" where
  "fast_inv k V q s hn tn f fs ls \<longleftrightarrow> 1 \<le> k \<and> k < 64
     \<and> mgr_inv (2 ^ k) s (V \<union> set (fs @ ls)) \<and> V \<inter> set (fs @ ls) = {} \<and> HasManager q
     \<and> HeadIndex q = of_nat hn \<and> TailIndex q = of_nat tn
     \<and> DequeueAttemptsCount q - DequeueFailedCount q = of_nat hn
     \<and> TailBlock q = last_opt (fs @ ls) \<and> (fs @ ls \<noteq> [] \<longrightarrow> ring (next_of s) (fs @ ls))
     \<and> (\<forall>a \<in> set fs. \<exists>b. blk s a = Some b \<and> spent (2 ^ k) b)
     \<and> window (2 ^ k) hn tn f (blk s) ls
     \<and> index_inv k q (length (fs @ ls)) (hn div 2 ^ k) ls"

lemma fast_invD:
  assumes "fast_inv k V q s hn tn f fs ls"
  shows "1 \<le> k" "k < 64" "mgr_inv (2 ^ k) s (V \<union> set (fs @ ls))" "V \<inter> set (fs @ ls) = {}"
    "HasManager q" "HeadIndex q = of_nat hn" "TailIndex q = of_nat tn"
    "DequeueAttemptsCount q - DequeueFailedCount q = of_nat hn"
    "TailBlock q = last_opt (fs @ ls)" "fs @ ls \<noteq> [] \<Longrightarrow> ring (next_of s) (fs @ ls)"
    "\<And>a. a \<in> set fs \<Longrightarrow> \<exists>b. blk s a = Some b \<and> spent (2 ^ k) b"
    "window (2 ^ k) hn tn f (blk s) ls"
    "index_inv k q (length (fs @ ls)) (hn div 2 ^ k) ls"
  using assms unfolding fast_inv_def by blast+

lemma fast_inv_span:
  assumes "fast_inv k V q s hn tn f fs ls"
  shows "hn \<le> tn" "tn - hn < 2 ^ 63" "length (fs @ ls) * 2 ^ k < 2 ^ 63" "distinct (fs @ ls)"
proof -
  note d = fast_invD [OF assms]
  show dist: "distinct (fs @ ls)" using ring_distinct [OF d(10)] by (cases "fs @ ls = []") auto
  show *: "length (fs @ ls) * 2 ^ k < 2 ^ 63"
    using mgr_inv_slots [OF d(3) dist] by simp
  have span: "hn \<le> tn" "tn - hn \<le> length ls * 2 ^ k"
    using window_span [OF _ d(12)] by auto
  show "hn \<le> tn" by (rule span)
  have "tn - hn \<le> length (fs @ ls) * 2 ^ k"
    using span(2) by (rule order_trans) simp
  also note *
  finally show "tn - hn < 2 ^ 63" .
qed

section \<open>Locating a block\<close>

text \<open>The block of the first element is found, whatever wrap-around the subtraction goes through.\<close>

lemma fast_locate:
  assumes inv: "fast_inv k V q s hn tn f fs (a # ls)"
    and q': "IndexArrays q' = IndexArrays q"
  shows "FastQueue_Locate (2 ^ k) q' (of_nat hn) = Some (Some a)"
proof -
  let ?ls = "a # ls" and ?j = "hn div 2 ^ k"
  note d = fast_invD [OF inv]
  obtain m nx where m: "1 \<le> m" "m + k \<le> 64" "m < 64" "nx < 2 ^ m" "length (fs @ ?ls) \<le> 2 ^ m"
    and arr: "case IndexArrays q of [] \<Rightarrow> length (fs @ ?ls) = 0 \<and> m + 1 + k \<le> 64 \<and> m + 1 < 64 \<and> nx = 0
        | A # _ \<Rightarrow> IA_Size A = 2 ^ m \<and> (?ls \<noteq> [] \<longrightarrow> IA_Tail A = of_nat (ix (2 ^ m) nx 1))
            \<and> index_entries (2 ^ m) (2 ^ k) nx ?j ?ls (IA_Entries A)"
    using d(13) unfolding index_inv_def by blast
  obtain A As where A: "IndexArrays q = A # As" "IA_Size A = 2 ^ m"
      "IA_Tail A = of_nat (ix (2 ^ m) nx 1)" "index_entries (2 ^ m) (2 ^ k) nx ?j ?ls (IA_Entries A)"
    using arr by (cases "IndexArrays q") auto
  have es: "length (IA_Entries A) = 2 ^ m"
    "\<And>i. i < length ?ls \<Longrightarrow> IA_Entries A ! ix (2 ^ m) nx (length ?ls - i)
        = Some (of_nat ((?j + i) * 2 ^ k), Some (?ls ! i))"
    using A(4) unfolding index_entries_def by auto
  have pos: "ix (2 ^ m) nx x < 2 ^ m" for x by (rule ix_less) simp
  have u: "unat (of_nat (ix (2 ^ m) nx x) :: size_t) = ix (2 ^ m) nx x" for x
    using index_word [OF pos m(3)] .
  have cur: "current_array q' = Some A" by (simp add: current_array_def q' A(1))
  have tail: "entry_read A (IA_Tail A) = Some (of_nat ((?j + length ls) * 2 ^ k), Some (?ls ! length ls))"
    using es(2) [of "length ls"] u [of 1] pos [of 1] es(1) by (simp add: entry_read_def A(3))
  let ?c = "length ls"
  define ofs where "ofs = drop_bit k ((of_nat hn AND NOT (2 ^ k - 1)) - (of_nat ((?j + ?c) * 2 ^ k) :: size_t))"
  have "?c < 2 ^ m" using m(5) by simp
  then have idx: "(IA_Tail A + ofs) AND (IA_Size A - 1) = of_nat (ix (2 ^ m) nx (Suc ?c))"
    using locate_index [OF d(2) m(2)] by (simp only: A(2,3) ofs_def)
  have head: "entry_read A (of_nat (ix (2 ^ m) nx (Suc ?c))) = Some (of_nat (?j * 2 ^ k), Some a)"
    using es(2) [of 0] u [of "Suc ?c"] pos [of "Suc ?c"] es(1) by (simp add: entry_read_def)
  show ?thesis
    unfolding FastQueue_Locate_def cur Let_def
    by (simp add: tail BlockSizeLog2_pow2 d(2) idx head flip: ofs_def del: of_nat_mult of_nat_add)
qed

section \<open>Dequeue\<close>

lemma next_of_put: "blk s a = Some b \<Longrightarrow> Next b' = Next b \<Longrightarrow> next_of (put a b' s) = next_of s"
  by (auto simp: next_of_def fun_eq_iff)

lemma index_inv_tl: "index_inv k q nu j (a # ls) \<Longrightarrow> index_inv k q nu (Suc j) ls"
proof -
  assume i: "index_inv k q nu j (a # ls)"
  have "index_entries M n nx (Suc j) ls es" if "index_entries M n nx j (a # ls) es" for M n nx es
    unfolding index_entries_def
  proof (intro conjI allI impI)
    show "length es = M" using that by (simp add: index_entries_def)
    fix i assume "i < length ls"
    with that [unfolded index_entries_def, THEN conjunct2, rule_format, of "Suc i"]
    show "es ! ix M nx (length ls - i) = Some (of_nat ((Suc j + i) * n), Some (ls ! i))" by simp
  qed
  with i show ?thesis unfolding index_inv_def by (fastforce split: list.splits)
qed

lemma fast_circ:
  assumes "fast_inv k V q s hn tn f fs ls"
  shows "CircularLessThan (of_nat hn :: size_t) (of_nat tn) \<longleftrightarrow> hn < tn"
  using fast_inv_span(1,2) [OF assms] by (intro CircularLessThan_of_nat) auto

lemma fast_Dequeue_empty:
  assumes "fast_inv k V q s hn hn f fs ls"
  shows "FastQueue_Dequeue (2 ^ k) throws q s = Some (Ret None, q, s)"
  using fast_invD(7,8) [OF assms] by (simp add: FastQueue_Dequeue_def)

lemma fast_Dequeue_next:
  assumes inv: "fast_inv k V q s hn tn f fs ls" and lt: "hn < tn"
  shows "\<exists>q' s' fs' ls'. FastQueue_Dequeue (2 ^ k) throws q s
      = Some (if throws (f hn) then Exn else Ret (Some (f hn)), q', s')
    \<and> fast_inv k V q' s' (Suc hn) tn f fs' ls' \<and> (\<forall>x \<in> V. blk s' x = blk s x)"
proof -
  let ?n = "2 ^ k :: nat"
  note d = fast_invD [OF inv]
  have n: "0 < ?n" by simp
  obtain a ls1 b where ls: "ls = a # ls1" and b: "blk s a = Some b" and h: "holds ?n (hn div ?n) hn tn f b"
    using window_head [OF n d(12) lt] .
  note slot = holds_head_slot [OF n h lt]
  obtain pol where pol: "SetEmpty (2 ^ k) (of_nat (hn mod ?n)) (Policy b)
        = Some (HasMeaningfulSetResult (Policy b) \<and> Suc hn mod ?n = 0, pol)"
      "holds ?n (hn div ?n) (Suc hn) tn f (b\<lparr>Elements := (Elements b)[hn mod ?n := None], Policy := pol\<rparr>)"
    using slot(3) by auto
  let ?b = "b\<lparr>Elements := (Elements b)[hn mod ?n := None], Policy := pol\<rparr>"
  let ?q1 = "q\<lparr>DequeueAttemptsCount := DequeueAttemptsCount q + 1\<rparr>"
  let ?q = "?q1\<lparr>HeadIndex := HeadIndex ?q1 + 1\<rparr>" and ?s = "put a ?b s"
  have loc: "FastQueue_Locate (2 ^ k) ?q (of_nat hn) = Some (Some a)"
    using fast_locate [OF inv [unfolded ls]] by simp
  have inner: "(of_nat hn :: size_t) AND (2 ^ k - 1) = of_nat (hn mod ?n)"
    "unat (of_nat (hn mod ?n) :: size_t) = hn mod ?n"
    using fast_inner_index [OF d(2)] by blast+
  have run: "FastQueue_Dequeue (2 ^ k) throws q s
      = Some (if throws (f hn) then Exn else Ret (Some (f hn)), ?q, ?s)"
    using fast_circ [OF inv] lt d(6-8) b slot(1,2) pol(1) loc
    by (simp add: FastQueue_Dequeue_def inner heap_simps)
  have same: "blk ?s x = blk s x" if "x \<noteq> a" for x using that by simp
  have dist: "distinct (fs @ ls)" by (rule fast_inv_span(4) [OF inv])
  have mgr: "mgr_inv ?n ?s (V \<union> set (fs @ ls))"
    using mgr_inv_put [OF d(3), of a b ?b] b ls holds_wf [OF pol(2)] by (simp add: client_write_def)
  have nx: "next_of ?s = next_of s" by (rule next_of_put [OF b]) simp
  have pop: "if Suc hn mod ?n = 0 then window ?n (Suc hn) tn f (blk ?s) ls1 \<and> spent ?n ?b
    else window ?n (Suc hn) tn f (blk ?s) (a # ls1)"
    using dist ls by (intro window_pop [OF n d(12) [unfolded ls] lt _ pol(2)]) auto
  have free: "\<exists>b. blk ?s x = Some b \<and> spent ?n b" if "x \<in> set fs" for x
    using d(11) [OF that] same [of x] dist that ls by auto
  have q: "HeadIndex ?q = of_nat (Suc hn)" "TailIndex ?q = of_nat tn" "TailBlock ?q = TailBlock q"
    "DequeueAttemptsCount ?q - DequeueFailedCount ?q = of_nat (Suc hn)" "HasManager ?q"
    "index_inv k ?q nu j l = index_inv k q nu j l" for nu j l
    using d(5-8) by (simp_all add: index_inv_def algebra_simps)
  have frame: "\<forall>x \<in> V. blk ?s x = blk s x" using d(4) ls by auto
  show ?thesis
  proof (cases "Suc hn mod ?n = 0")
    case True
    have "index_inv k q (length (fs @ ls)) (Suc hn div ?n) ls1"
      using index_inv_tl d(13) ls True by (auto simp: div_Suc)
    then have "fast_inv k V ?q ?s (Suc hn) tn f (fs @ [a]) ls1"
      unfolding fast_inv_def q using d(1-5,9,10) mgr nx pop True free ls by simp
    with run frame show ?thesis by blast
  next
    case False
    then have "fast_inv k V ?q ?s (Suc hn) tn f fs ls"
      unfolding fast_inv_def q using d(1-5,9,10,13) mgr nx pop free ls by (simp add: div_Suc)
    with run frame show ?thesis by blast
  qed
qed

section \<open>A new index array\<close>

lemma copy_loop:
  assumes m: "m < 64" "nx < 2 ^ m" and P: "length Prev = 2 ^ m"
  shows "0 < d \<Longrightarrow> d \<le> 2 ^ m \<Longrightarrow> j + d \<le> length New \<Longrightarrow> length New < 2 ^ 64 \<Longrightarrow>
    \<exists>New'. loop (copy_body Prev (2 ^ m - 1) (of_nat nx)) (of_nat (ix (2 ^ m) nx d), of_nat j, New)
        = Some (of_nat (j + d), New') \<and> length New' = length New
      \<and> (\<forall>t < d. New' ! (j + t) = Prev ! ix (2 ^ m) nx (d - t)) \<and> (\<forall>t < j. New' ! t = New ! t)"
proof (induction d arbitrary: j New)
  case (Suc d)
  let ?M = "2 ^ m :: nat" and ?i = "ix (2 ^ m) nx (Suc d)"
  have i: "?i < ?M" by (rule ix_less) simp
  have ui: "unat (of_nat ?i :: size_t) = ?i" by (rule index_word [OF i m(1)])
  have uj: "unat (of_nat j :: size_t) = j" using Suc.prems(3,4) by (intro unat_of_nat_small) simp
  let ?New = "New[j := Prev ! ?i]"
  have "(of_nat ?i + 1 :: size_t) = of_nat (?i + 1)" by simp
  then have step: "(of_nat ?i + 1 :: size_t) AND (2 ^ m - 1) = of_nat (ix ?M nx d)"
    using ix_step [of "Suc d" ?M nx] Suc.prems(2) by (simp only: mask_of_nat) simp
  have body: "copy_body Prev (2 ^ m - 1) (of_nat nx) (of_nat ?i, of_nat j, New)
      = (if of_nat (ix ?M nx d) \<noteq> (of_nat nx :: size_t)
         then Some (Inl (of_nat (ix ?M nx d), of_nat (j + 1), ?New))
         else Some (Inr (of_nat (j + 1), ?New)))"
    unfolding copy_body_def using i Suc.prems(3) P
    by (simp only: case_prod_conv ui uj step Let_def) simp
  have "(of_nat (ix ?M nx d) = (of_nat nx :: size_t)) \<longleftrightarrow> ix ?M nx d = nx"
    using index_word [OF ix_less m(1)] index_word [OF m(2,1)]
    by (metis zero_less_numeral zero_less_power)
  moreover have "ix ?M nx d = nx \<longleftrightarrow> d = 0"
    using ix_neq [of d ?M nx] ix_zero [OF m(2)] Suc.prems(2) m(2) by (cases "d = 0") auto
  ultimately have stop: "(of_nat (ix ?M nx d) = (of_nat nx :: size_t)) \<longleftrightarrow> d = 0" by simp
  show ?case
  proof (cases "d = 0")
    case True
    then show ?thesis
      using body stop Suc.prems(3)
      by (intro exI [of _ ?New]) (simp add: loop_exit)
  next
    case False
    then have "\<exists>New'. loop (copy_body Prev (2 ^ m - 1) (of_nat nx)) (of_nat (ix ?M nx d), of_nat (j + 1), ?New)
        = Some (of_nat (j + 1 + d), New') \<and> length New' = length ?New
      \<and> (\<forall>t < d. New' ! (j + 1 + t) = Prev ! ix ?M nx (d - t)) \<and> (\<forall>t < j + 1. New' ! t = ?New ! t)"
      using Suc.prems by (intro Suc.IH) auto
    then obtain New' where N: "loop (copy_body Prev (2 ^ m - 1) (of_nat nx))
          (of_nat (ix ?M nx d), of_nat (j + 1), ?New) = Some (of_nat (j + Suc d), New')"
      "length New' = length New" "\<And>t. t < d \<Longrightarrow> New' ! (j + 1 + t) = Prev ! ix ?M nx (d - t)"
      "\<And>t. t < j + 1 \<Longrightarrow> New' ! t = ?New ! t"
      by (auto simp: add.assoc)
    have "New' ! (j + t) = Prev ! ix ?M nx (Suc d - t)" if "t < Suc d" for t
      using N(3) [of "t - 1"] N(4) [of j] that Suc.prems(3) by (cases t) auto
    moreover have "New' ! t = New ! t" if "t < j" for t using N(4) [of t] that by simp
    ultimately show ?thesis
      using N(1,2) body stop False by (intro exI [of _ New']) (simp add: loop_again)
  qed
qed simp

text \<open>The new array holds the used entries in order; the rest of the state is as before.\<close>

definition index_only :: "fastq \<Rightarrow> fastq \<Rightarrow> bool" where
  "index_only q q' \<longleftrightarrow> q' = q\<lparr>IndexArrays := IndexArrays q', PO_NextIndexEntry := PO_NextIndexEntry q',
     PO_IndexEntriesSize := PO_IndexEntriesSize q'\<rparr>"

lemma fast_Create:
  assumes mgr: "mgr_inv n s U" and ii: "index_inv k q nu j ls"
    and full: "current_array q = None \<or> PO_IndexEntriesUsed q = PO_IndexEntriesSize q"
    and bound: "nu * 2 ^ k < 2 ^ 63"
  shows "\<exists>ok q' s'. FastQueue_CreateNewBlockIndexArray (PO_IndexEntriesUsed q) q s = Some (ok, q', s')
    \<and> mgr_inv n s' U \<and> blk s' = blk s \<and> index_inv k q' nu j ls \<and> index_only q q'
    \<and> (ok \<longrightarrow> IndexArrays q' \<noteq> [] \<and> (\<exists>m. m < 64 \<and> PO_IndexEntriesSize q' = 2 ^ m \<and> nu < 2 ^ m)
         \<and> Quota (Hp s) = Quota (Hp s') + 2)
    \<and> (\<not> ok \<longrightarrow> q' = q \<and> Quota (Hp s) < 2)"
proof -
  obtain m nx where m: "1 \<le> m" "m + k \<le> 64" "m < 64" "nx < 2 ^ m" "PO_IndexEntriesSize q = 2 ^ m"
      "PO_NextIndexEntry q = of_nat nx" "PO_IndexEntriesUsed q = of_nat nu" "nu \<le> 2 ^ m" "length ls \<le> nu"
    and arr: "case IndexArrays q of [] \<Rightarrow> nu = 0 \<and> m + 1 + k \<le> 64 \<and> m + 1 < 64 \<and> nx = 0
        | A # _ \<Rightarrow> IA_Size A = 2 ^ m \<and> (ls \<noteq> [] \<longrightarrow> IA_Tail A = of_nat (ix (2 ^ m) nx 1))
            \<and> index_entries (2 ^ m) (2 ^ k) nx j ls (IA_Entries A)"
    using ii unfolding index_inv_def by blast
  let ?m = "Suc m"
  have room: "?m + k \<le> 64 \<and> ?m < 64 \<and> (IndexArrays q = [] \<longrightarrow> nu = 0)
    \<and> (IndexArrays q \<noteq> [] \<longrightarrow> nu = 2 ^ m)"
  proof (cases "IndexArrays q")
    case Nil
    then show ?thesis using arr by simp
  next
    case (Cons A As)
    then have "(of_nat nu :: size_t) = of_nat (2 ^ m)"
      using full m(5,7) by (simp add: current_array_def)
    moreover have "(2::nat) ^ m < 2 ^ 64" using m(3) by (intro power_strict_increasing) auto
    ultimately have nu: "nu = 2 ^ m"
      using of_nat_size_eq [of nu "2 ^ m"] m(8) by auto
    have "(2::nat) ^ (m + k) < 2 ^ 63" using bound nu by (simp add: power_add)
    then have "m + k < 63" by (rule power_less_imp_less_exp [rotated]) simp
    then show ?thesis using Cons nu by simp
  qed
  have size: "push_bit 1 (2 ^ m :: size_t) = 2 ^ ?m" by (simp add: push_bit_eq_mult)
  have unsize: "drop_bit 1 (2 ^ ?m :: size_t) = 2 ^ m"
    using room by (intro bit_eqI) (auto simp: bit_simps)
  have unsize': "drop_bit (Suc 0) (2 ^ m * 2 :: size_t) = 2 ^ m"
    using unsize by (simp add: mult.commute)
  obtain r1 h1 where a1: "Allocate 1 (Hp s) = (r1, h1)" by (cases "Allocate 1 (Hp s)")
  note g1 = mgr_inv_Allocate [OF mgr a1]
  show ?thesis
  proof (cases r1)
    case Exn
    have "FastQueue_CreateNewBlockIndexArray (PO_IndexEntriesUsed q) q s = Some (False, q, s\<lparr>Hp := h1\<rparr>)"
      using a1 Exn size unsize' m(5) by (simp add: FastQueue_CreateNewBlockIndexArray_def)
    moreover have "Quota (Hp s) = 0" using a1 Exn by (auto simp: Allocate_def split: if_splits)
    ultimately show ?thesis using g1 ii by (auto simp: index_only_def)
  next
    case (Ret self)
    let ?s1 = "s\<lparr>Hp := h1\<rparr>"
    have un: "unat (2 ^ ?m :: size_t) = 2 ^ ?m" using room by (intro unat_pow2) simp
    then have un': "unat (2 ^ m * 2 :: size_t) = 2 * 2 ^ m" by (simp add: mult.commute)
    obtain r2 h2 where a2: "Allocate (2 ^ ?m) h1 = (r2, h2)" by (cases "Allocate (2 ^ ?m) h1")
    have "Allocate (2 ^ ?m) (Hp ?s1) = (r2, h2)" using a2 by simp
    note g2 = mgr_inv_Allocate [OF g1(1) this]
    show ?thesis
    proof (cases r2)
      case Exn
      then have h2: "h2 = h1" using a2 by (auto simp: Allocate_def split: if_splits)
      have "self \<notin> dom (blk ?s1)" "Pool_Head (Pool (Mg ?s1)) \<noteq> Some self" "Alloc (Hp ?s1) self = 1"
        using g1(2,3) Ret by auto
      from mgr_inv_Deallocate [OF g1(1) this] obtain h3 where
        h3: "Deallocate (Some self) 1 h1 = Some h3" "mgr_inv n (s\<lparr>Hp := h3\<rparr>) U"
          "h3 = h1\<lparr>Alloc := (Alloc h1)(self := 0)\<rparr>" by auto
      have "FastQueue_CreateNewBlockIndexArray (PO_IndexEntriesUsed q) q s = Some (False, q, s\<lparr>Hp := h3\<rparr>)"
        using a1 a2 Ret Exn size unsize' un' Let_def m(5) h2 h3(1)
        by (simp add: FastQueue_CreateNewBlockIndexArray_def)
      moreover have "Quota (Hp s) < 2"
        using a1 a2 Ret Exn by (auto simp: Allocate_def split: if_splits)
      ultimately show ?thesis using h3 g1(2) ii by (auto simp: index_only_def)
    next
      case (Ret at)
      obtain Es where Es: "copy_entries q (2 ^ m - 1) (2 ^ m * 2) = Some (of_nat nu, Es)"
        "index_entries (2 ^ ?m) (2 ^ k) nu j ls Es"
      proof (cases "IndexArrays q")
        case Nil
        then have "PO_IndexEntriesUsed q = 0" "nu = 0" "ls = []" using room m(7,9) by auto
        then show ?thesis using that [of "replicate (2 ^ ?m) None"] by (simp add: index_entries_def copy_entries_def un')
      next
        case (Cons A As)
        then have nu: "nu = 2 ^ m" and ent: "index_entries (2 ^ m) (2 ^ k) nx j ls (IA_Entries A)"
          using room arr by auto
        have len: "length (IA_Entries A) = 2 ^ m" using ent by (simp add: index_entries_def)
        have lt: "(2::nat) ^ ?m < 2 ^ 64" using room by (intro power_strict_increasing) auto
        obtain Es where Es: "loop (copy_body (IA_Entries A) (2 ^ m - 1) (of_nat nx))
            (of_nat (ix (2 ^ m) nx nu), 0, replicate (2 ^ ?m) None) = Some (of_nat nu, Es)"
          "length Es = 2 ^ ?m" "\<And>t. t < nu \<Longrightarrow> Es ! t = IA_Entries A ! ix (2 ^ m) nx (nu - t)"
          using copy_loop [OF m(3,4) len, of nu 0 "replicate (2 ^ ?m) None"] nu lt by auto
        have "Es ! ix (2 ^ ?m) nu (length ls - i) = Some (of_nat ((j + i) * 2 ^ k), Some (ls ! i))"
          if i: "i < length ls" for i
        proof -
          have "ix (2 ^ ?m) nu (length ls - i) = nu - (length ls - i)"
            using i m(9) nu by (intro ix_plain) auto
          moreover have "nu - (nu - (length ls - i)) = length ls - i" using m(9) by simp
          ultimately show ?thesis
            using Es(3) [of "nu - (length ls - i)"] ent i m(9) by (simp add: index_entries_def)
        qed
        then have "index_entries (2 ^ ?m) (2 ^ k) nu j ls Es"
          using Es(2) by (simp add: index_entries_def)
        moreover have "PO_IndexEntriesUsed q \<noteq> 0"
          using m(7) nu index_word [of "2 ^ m" ?m] room by (metis unat_0 power_not_zero zero_neq_numeral
              lessI power_strict_increasing one_less_numeral_iff semiring_norm(76))
        ultimately show ?thesis
          using that [of Es] Es(1) Cons mask_diff_of_nat [OF m(8,3), of nx]
          by (simp add: current_array_def copy_entries_def m(6,7) un')
      qed
      let ?A = "\<lparr>IA_Self = self, IA_At = at, IA_Size = 2 ^ m * 2, IA_Tail = PO_IndexEntriesUsed q - 1,
        IA_Entries = Es\<rparr>"
      let ?q = "q\<lparr>IndexArrays := ?A # IndexArrays q, PO_NextIndexEntry := of_nat nu,
        PO_IndexEntriesSize := 2 ^ m * 2\<rparr>"
      have "FastQueue_CreateNewBlockIndexArray (PO_IndexEntriesUsed q) q s = Some (True, ?q, s\<lparr>Hp := h2\<rparr>)"
        using a1 a2 \<open>r1 = Ret self\<close> Ret un' Es(1)
        by (simp add: FastQueue_CreateNewBlockIndexArray_def Let_def m(5-7) size)
      moreover have "index_inv k ?q nu j ls"
      proof -
        have "ls \<noteq> [] \<Longrightarrow> PO_IndexEntriesUsed q - 1 = of_nat (ix (2 ^ ?m) nu 1)"
          using m(7-9) ix_plain [of 1 nu "2 ^ ?m"] by (cases nu) auto
        then show ?thesis
          unfolding index_inv_def using room m Es(2)
          by (intro exI [of _ ?m] exI [of _ nu]) auto
      qed
      moreover have "mgr_inv n (s\<lparr>Hp := h2\<rparr>) U" "Blocks h2 = blk s" using g1(2) g2(1,2) by simp_all
      moreover have "Quota (Hp s) = Quota h2 + 2"
        using a1 a2 \<open>r1 = Ret self\<close> Ret by (auto simp: Allocate_def split: if_splits)
      moreover have "index_only q ?q" by (simp add: index_only_def)
      moreover have "?m < 64 \<and> PO_IndexEntriesSize ?q = 2 ^ ?m \<and> nu < 2 ^ ?m"
        using room m(8) le_less_trans [OF m(8), of "2 ^ ?m"] by simp
      then have "\<exists>m'. m' < 64 \<and> PO_IndexEntriesSize ?q = 2 ^ m' \<and> nu < 2 ^ m'" by blast
      ultimately show ?thesis
        by (intro exI [of _ True] exI [of _ ?q] exI [of _ "s\<lparr>Hp := h2\<rparr>"]) simp
    qed
  qed
qed

section \<open>Finding the next tail block\<close>

text \<open>The tail block \<open>a\<close> has been reset and linked in behind the others; the index is untouched.\<close>

definition fast_ready :: "nat \<Rightarrow> addr set \<Rightarrow> fastq \<Rightarrow> 'a mem \<Rightarrow> nat \<Rightarrow> nat \<Rightarrow> (nat \<Rightarrow> 'a)
    \<Rightarrow> addr list \<Rightarrow> addr list \<Rightarrow> addr \<Rightarrow> bool" where
  "fast_ready k V q s hn tn f fs ls a \<longleftrightarrow> 1 \<le> k \<and> k < 64
     \<and> mgr_inv (2 ^ k) s (V \<union> set (fs @ ls @ [a])) \<and> V \<inter> set (fs @ ls @ [a]) = {} \<and> HasManager q
     \<and> HeadIndex q = of_nat hn \<and> TailIndex q = of_nat tn
     \<and> DequeueAttemptsCount q - DequeueFailedCount q = of_nat hn
     \<and> TailBlock q = Some a \<and> ring (next_of s) (fs @ ls @ [a])
     \<and> (\<forall>a \<in> set fs. \<exists>b. blk s a = Some b \<and> spent (2 ^ k) b)
     \<and> window (2 ^ k) hn tn f (blk s) ls
     \<and> index_inv k q (length (fs @ ls @ [a])) (hn div 2 ^ k) ls \<and> IndexArrays q \<noteq> []
     \<and> (\<exists>b. blk s a = Some b \<and> holds (2 ^ k) (tn div 2 ^ k) hn tn f b)"

text \<open>The old tail block is the last one that is not \<open>a\<close>.\<close>

definition old_tail :: "addr option \<Rightarrow> addr list \<Rightarrow> addr \<Rightarrow> bool" where
  "old_tail old bs a \<longleftrightarrow> (if bs = [] then old = None \<or> old = Some a else old = Some (last bs))"

lemma fast_reuse:
  assumes inv: "fast_inv k V q s hn tn f (a # fs) ls" and m: "tn mod 2 ^ k = 0"
  shows "\<exists>b. blk s a = Some b \<and> Block_next (TailBlock q) s = Some (Some a)
    \<and> Block_IsEmpty (2 ^ k) (Some a) s = Some True
    \<and> fast_ready k V (q\<lparr>TailBlock := Some a\<rparr>) (put a (b\<lparr>Policy := ResetPolicy (Policy b)\<rparr>) s)
        hn tn f fs ls a
    \<and> old_tail (TailBlock q) (fs @ ls) a"
proof -
  let ?n = "2 ^ k :: nat"
  note d = fast_invD [OF inv]
  obtain b where b: "blk s a = Some b" "spent ?n b" using d(11) [of a] by auto
  have ring: "ring (next_of s) (a # fs @ ls)" using d(10) by simp
  have dist: "a \<notin> set fs" "a \<notin> set ls" using ring_distinct [OF ring] by auto
  have emp: "IsEmpty (2 ^ k) (Policy b)"
    using policy.rep_empty [of ?n "{..<?n}" "Policy b"] b(2) by (simp add: spent_def)
  have tail: "TailBlock q = Some (last (a # fs @ ls))" using d(9) by (simp add: last_opt_def)
  have nxt: "next_of s (last (a # fs @ ls)) = Some a" using ring_last [OF ring] by simp
  then obtain tb where "blk s (last (a # fs @ ls)) = Some tb" "Next tb = Some a"
    by (auto simp: next_of_def bind_eq_Some_conv)
  then have n1: "Block_next (TailBlock q) s = Some (Some a)" by (simp add: tail Block_next_eq)
  let ?b = "b\<lparr>Policy := ResetPolicy (Policy b)\<rparr>"
  let ?s = "put a ?b s" and ?q = "q\<lparr>TailBlock := Some a\<rparr>"
  have hold: "holds ?n (tn div ?n) hn tn f ?b"
    using b(2) spent_wf [OF b(2)] d(12) m by (intro holds_reset) (auto simp: spent_def window_def)
  have mgr: "mgr_inv ?n ?s (V \<union> set (fs @ ls @ [a]))"
    using mgr_inv_put [OF d(3), of a b ?b] b holds_wf [OF hold] by (simp add: client_write_def)
  have nx: "next_of ?s = next_of s" by (rule next_of_put [OF b(1)]) simp
  have rot: "ring (next_of s) (fs @ ls @ [a])"
    using ring ring_snoc_Cons [of "next_of s" "fs @ ls" a] by simp
  have win: "window ?n hn tn f (blk ?s) ls"
    using d(12) dist unfolding window_def by (auto simp: nth_mem dest: nth_mem)
  have "index_inv k ?q (length (fs @ ls @ [a])) (hn div ?n) ls"
    using d(13) by (simp add: index_inv_def)
  moreover have "IndexArrays q \<noteq> []" using d(13) by (auto simp: index_inv_def)
  moreover have "\<forall>x \<in> set fs. \<exists>b. blk ?s x = Some b \<and> spent ?n b"
    using d(11) dist by auto
  ultimately have "fast_ready k V ?q ?s hn tn f fs ls a"
    unfolding fast_ready_def using d(1,2,4-8) mgr nx rot win hold by simp
  with b(1) n1 emp tail show ?thesis by (auto simp: Block_IsEmpty_eq old_tail_def)
qed

text \<open>A block that still holds elements, or is being filled, is never taken for empty.\<close>

lemma fast_no_reuse:
  assumes inv: "fast_inv k V q s hn tn f [] (a # ls)"
  shows "Block_next (TailBlock q) s = Some (Some a)"
    "Block_IsEmpty (2 ^ k) (Some a) s = Some False"
proof -
  let ?n = "2 ^ k :: nat"
  note d = fast_invD [OF inv]
  have ring: "ring (next_of s) (a # ls)" using d(10) by simp
  have tail: "TailBlock q = Some (last (a # ls))" using d(9) by (simp add: last_opt_def)
  have "next_of s (last (a # ls)) = Some a" using ring_last [OF ring] by simp
  then obtain tb where "blk s (last (a # ls)) = Some tb" "Next tb = Some a"
    by (auto simp: next_of_def bind_eq_Some_conv)
  then show "Block_next (TailBlock q) s = Some (Some a)" by (simp add: tail Block_next_eq)
  obtain b where b: "blk s a = Some b" "holds ?n (hn div ?n) hn tn f b"
    using window_nth [OF d(12), of 0] by auto
  have "hn mod ?n < ?n" by simp
  then have "{i. i < ?n \<and> hn div ?n * ?n + i < hn} \<noteq> {..<?n}"
    by (metis (no_types, lifting) div_mult_mod_eq lessThan_iff mem_Collect_eq nat_less_le)
  then have "\<not> IsEmpty (2 ^ k) (Policy b)"
    using policy.rep_empty [of ?n _ "Policy b"] b(2) by (auto simp: holds_def)
  with b(1) show "Block_IsEmpty (2 ^ k) (Some a) s = Some False" by (simp add: Block_IsEmpty_eq)
qed

lemma index_inv_more:
  assumes "index_inv k q nu j ls" "IndexArrays q \<noteq> []" "PO_IndexEntriesSize q = 2 ^ m" "nu < 2 ^ m" "m < 64"
  shows "index_inv k (q\<lparr>TailBlock := t, PO_IndexEntriesUsed := PO_IndexEntriesUsed q + 1\<rparr>) (nu + 1) j ls"
proof -
  obtain m' nx where m: "1 \<le> m'" "m' + k \<le> 64" "m' < 64" "nx < 2 ^ m'" "PO_IndexEntriesSize q = 2 ^ m'"
      "PO_NextIndexEntry q = of_nat nx" "PO_IndexEntriesUsed q = of_nat nu" "nu \<le> 2 ^ m'" "length ls \<le> nu"
    and arr: "case IndexArrays q of [] \<Rightarrow> nu = 0 \<and> m' + 1 + k \<le> 64 \<and> m' + 1 < 64 \<and> nx = 0
        | A # _ \<Rightarrow> IA_Size A = 2 ^ m' \<and> (ls \<noteq> [] \<longrightarrow> IA_Tail A = of_nat (ix (2 ^ m') nx 1))
            \<and> index_entries (2 ^ m') (2 ^ k) nx j ls (IA_Entries A)"
    using assms(1) unfolding index_inv_def by blast
  have "unat (2 ^ m :: size_t) = unat (2 ^ m' :: size_t)" using m(5) assms(3) by simp
  then have "(2::nat) ^ m = 2 ^ m'"
    using unat_pow2 [where 'w = 64, of m] unat_pow2 [where 'w = 64, of m'] m(3) assms(5) by simp
  then have "nu + 1 \<le> 2 ^ m'" using assms(4) by simp
  then show ?thesis
    unfolding index_inv_def using m arr assms(2)
    by (intro exI [of _ m'] exI [of _ nx]) (auto split: list.splits)
qed

lemma fast_Link:
  assumes inv: "fast_inv k V q s hn tn f [] ls" and m: "tn mod 2 ^ k = 0"
    and mgr: "mgr_inv (2 ^ k) s1 (insert a (V \<union> set ls))" and a: "a \<notin> V \<union> set ls"
    and b: "blk s1 a = Some b" "fresh_block (2 ^ k) b"
    and same: "\<forall>x \<in> V \<union> set ls. blk s1 x = blk s x"
    and ix: "IndexArrays q \<noteq> []" "PO_IndexEntriesSize q = 2 ^ M" "length ls < 2 ^ M" "M < 64"
  shows "\<exists>q2 s2. FastQueue_Link a q s1 = Some (q2, s2) \<and> fast_ready k V q2 s2 hn tn f [] ls a
    \<and> (\<forall>x \<in> V. blk s2 x = blk s x)"
proof -
  let ?n = "2 ^ k :: nat"
  note d = fast_invD [OF inv]
  let ?b = "b\<lparr>Policy := ResetPolicy (Policy b)\<rparr>"
  let ?q = "q\<lparr>TailBlock := Some a, PO_IndexEntriesUsed := PO_IndexEntriesUsed q + 1\<rparr>"
  have bw: "block_wf ?n b" "raw b" using b(2) by (simp_all add: fresh_block_def)
  have hold: "holds ?n (tn div ?n) hn tn f ?b"
    using bw m d(12) by (intro holds_reset) (auto simp: window_def)
  have hold': "holds ?n (tn div ?n) hn tn f (?b\<lparr>Next := x\<rparr>)" for x
    using hold by (simp add: holds_def)
  have put1: "mgr_inv ?n (put a (?b\<lparr>Next := x\<rparr>) s1) (insert a (V \<union> set ls))" for x
    using mgr_inv_put [OF mgr, of a b "?b\<lparr>Next := x\<rparr>"] b(1) holds_wf [OF hold']
    by (simp add: client_write_def)
  have win: "window ?n hn tn f (blk s1) ls"
    using d(12) same unfolding window_def by (metis Un_iff nth_mem)
  have ii: "index_inv k ?q (length ls + 1) (hn div ?n) ls"
    using d(13) ix by (intro index_inv_more [where m = M]) simp_all
  show ?thesis
  proof (cases "ls = []")
    case True
    let ?s = "put a (?b\<lparr>Next := Some a\<rparr>) s1"
    have win0: "window ?n hn tn f bl []" for bl using win True by (simp add: window_def)
    have "TailBlock q = None" using d(9) True by (simp add: last_opt_def)
    then have run: "FastQueue_Link a q s1 = Some (?q, ?s)"
      using b(1) by (simp add: FastQueue_Link_def heap_simps)
    have "fast_ready k V ?q ?s hn tn f [] ls a"
      unfolding fast_ready_def
      using d(1,2,4-8) put1 [of "Some a"] a win0 hold' ix(1) ii True by (simp add: next_of_def)
    with run a same show ?thesis by auto
  next
    case False
    then have tail: "TailBlock q = Some (last ls)" using d(9) by (simp add: last_opt_def)
    have ring: "ring (next_of s) ls" using d(10) False by simp
    define t where "t = last ls"
    have mem: "t \<in> set ls" using False by (simp add: t_def)
    then have "t \<noteq> a" using a by auto
    with mem have t: "last ls = t" "t \<in> set ls" "t \<noteq> a" by (simp_all add: t_def)
    have "next_of s t = Some (hd ls)" using ring_last [OF ring] t(1) by simp
    then obtain tb where tb: "blk s1 t = Some tb" "Next tb = Some (hd ls)"
      using same t(2) by (auto simp: next_of_def bind_eq_Some_conv)
    let ?s1 = "put a (?b\<lparr>Next := Some (hd ls)\<rparr>) s1"
    let ?s = "put t (tb\<lparr>Next := Some a\<rparr>) ?s1"
    have run: "FastQueue_Link a q s1 = Some (?q, ?s)"
      using b(1) tb tail t by (simp add: FastQueue_Link_def heap_simps)
    have blk: "blk ?s = (blk s1)(a \<mapsto> ?b\<lparr>Next := Some (hd ls)\<rparr>, t \<mapsto> tb\<lparr>Next := Some a\<rparr>)" by simp
    obtain j where j: "holds ?n j hn tn f tb"
      using win t tb(1) False unfolding window_def by (metis in_set_conv_nth option.inject)
    have mgr': "mgr_inv ?n ?s (insert a (V \<union> set ls))"
      using mgr_inv_put [OF put1 [of "Some (hd ls)"], of t tb "tb\<lparr>Next := Some a\<rparr>"] t tb(1)
        holds_wf [OF j] by (simp add: client_write_def block_wf_def)
    have ring': "ring (next_of ?s) (ls @ [a])"
    proof (rule ring_link [OF ring])
      show "a \<notin> set ls" using a by simp
      show "next_of ?s a = Some (hd ls)" using t by (simp add: next_of_def)
      show "next_of ?s (last ls) = Some a" using t by (simp add: next_of_def)
      show "next_of ?s x = next_of s x" if "x \<in> set ls" "x \<noteq> last ls" for x
        using that a t same by (auto simp: next_of_def)
    qed
    have "\<exists>b. blk ?s (ls ! i) = Some b \<and> holds ?n (hn div ?n + i) hn tn f b" if i: "i < length ls" for i
    proof (cases "ls ! i = t")
      case True
      then show ?thesis using window_nth [OF win i] tb(1) by (fastforce simp: holds_def)
    next
      case False
      moreover have "ls ! i \<noteq> a" using a i nth_mem by fastforce
      ultimately show ?thesis using window_nth [OF win i] by auto
    qed
    then have win': "window ?n hn tn f (blk ?s) ls" using win by (simp add: window_def)
    have "fast_ready k V ?q ?s hn tn f [] ls a"
      unfolding fast_ready_def
      using d(1,2,4-8) mgr' a ring' win' hold' ix(1) ii t(3) by simp
    moreover have "\<forall>x \<in> V. blk ?s x = blk s x" using a t same d(4) by auto
    ultimately show ?thesis using run by blast
  qed
qed

text \<open>The outcomes of looking for the next tail block.\<close>

lemma fast_Requisition:
  assumes inv: "fast_inv k V q s hn tn f [] ls" and m: "tn mod 2 ^ k = 0"
    and proto: "fresh_proto (2 ^ k) proto"
    and ix: "IndexArrays q \<noteq> []" "PO_IndexEntriesSize q = 2 ^ M" "length ls < 2 ^ M" "M < 64"
  shows "\<exists>res. FastQueue_Requisition proto mode q s = Some res
    \<and> (case res of
         Inl (r, q1, s1) \<Rightarrow> q1 = q \<and> s1 = s
           \<and> ((r = Ret False \<and> mode = CannotAlloc) \<or> (r = Exn \<and> Quota (Hp s) = 0))
       | Inr (q1, s1) \<Rightarrow> \<exists>a. fast_ready k V q1 s1 hn tn f [] ls a
           \<and> old_tail (TailBlock q) ls a \<and> (\<forall>x \<in> V. blk s1 x = blk s x))"
proof -
  note d = fast_invD [OF inv]
  have p: "fresh_block (2 ^ k) proto" "\<not> HasOwner proto" "FreeListRefs proto = 0"
    using proto by (simp_all add: fresh_proto_def)
  obtain r s1 where r: "RequisitionBlock proto mode s = Some (r, s1)"
      "\<forall>a \<in> V \<union> set ls. blk s1 a = blk s a"
    and c: "case r of Exn \<Rightarrow> mode = CanAlloc \<and> s1 = s \<and> Quota (Hp s) = 0
        | Ret None \<Rightarrow> mode = CannotAlloc \<and> s1 = s
        | Ret (Some a) \<Rightarrow> a \<notin> V \<union> set ls \<and> mgr_inv (2 ^ k) s1 (insert a (V \<union> set ls))
          \<and> (\<exists>b. blk s1 a = Some b \<and> fresh_block (2 ^ k) b)"
    using RequisitionBlock_spec [OF d(3) p, of mode] unfolding append_Nil by blast
  show ?thesis
  proof (cases r)
    case Exn
    with r(1) c d(5) show ?thesis by (simp add: FastQueue_Requisition_def)
  next
    case (Ret x)
    show ?thesis
    proof (cases x)
      case None
      with Ret r(1) c d(5) show ?thesis by (simp add: FastQueue_Requisition_def)
    next
      case (Some a)
      with Ret c obtain b where a: "a \<notin> V \<union> set ls" "mgr_inv (2 ^ k) s1 (insert a (V \<union> set ls))"
        "blk s1 a = Some b" "fresh_block (2 ^ k) b" by auto
      obtain q2 s2 where l: "FastQueue_Link a q s1 = Some (q2, s2)"
        "fast_ready k V q2 s2 hn tn f [] ls a" "\<forall>x \<in> V. blk s2 x = blk s x"
        using fast_Link [OF inv m a(2,1,3,4) r(2) ix] by blast
      have "old_tail (TailBlock q) ls a" using d(9) by (auto simp: old_tail_def last_opt_def)
      with l Ret Some r(1) d(5) show ?thesis by (auto simp: FastQueue_Requisition_def)
    qed
  qed
qed

lemma fast_inv_index_only:
  assumes "fast_inv k V q s hn tn f fs ls" "index_only q q'"
    and "index_inv k q' (length (fs @ ls)) (hn div 2 ^ k) ls"
    and "mgr_inv (2 ^ k) s' (V \<union> set (fs @ ls))" "blk s' = blk s"
  shows "fast_inv k V q' s' hn tn f fs ls" "TailBlock q' = TailBlock q"
proof -
  have q': "q' = q\<lparr>IndexArrays := IndexArrays q', PO_NextIndexEntry := PO_NextIndexEntry q',
     PO_IndexEntriesSize := PO_IndexEntriesSize q'\<rparr>" using assms(2) by (simp add: index_only_def)
  have fields: "HasManager q' = HasManager q" "HeadIndex q' = HeadIndex q" "TailIndex q' = TailIndex q"
    "DequeueAttemptsCount q' = DequeueAttemptsCount q" "DequeueFailedCount q' = DequeueFailedCount q"
    "TailBlock q' = TailBlock q"
    by (subst q', simp)+
  then show "TailBlock q' = TailBlock q" by simp
  have "next_of s' = next_of s" using assms(5) by (simp add: next_of_def fun_eq_iff)
  then show "fast_inv k V q' s' hn tn f fs ls"
    using assms(1,3-5) fields unfolding fast_inv_def by simp
qed

text \<open>While an allocation can still succeed, the index space is not exhausted.\<close>

lemma fast_room:
  assumes inv: "fast_inv k V q s hn tn f fs ls" and quota: "0 < Quota (Hp s)"
  shows "CircularLessThan (HeadIndex q) (TailIndex q + 2 ^ k)"
proof -
  let ?n = "2 ^ k :: nat"
  note d = fast_invD [OF inv]
  have small: "length ls * ?n + ?n < 2 ^ 63"
    using mgr_room [OF d(3) _ _ quota, of ls] fast_inv_span(4) [OF inv] by auto
  have span: "hn \<le> tn" "tn - hn \<le> length ls * ?n" using window_span [OF _ d(12)] by auto
  have n: "0 < ?n" by simp
  have "CircularLessThan (of_nat hn :: size_t) (of_nat (tn + ?n)) \<longleftrightarrow> hn < tn + ?n"
    using span n small by (intro CircularLessThan_size_t) linarith+
  then show ?thesis using d(6,7) span(1) n by simp
qed

lemma fast_NextBlock:
  assumes inv: "fast_inv k V q s hn tn f fs ls" and m: "tn mod 2 ^ k = 0"
    and proto: "fresh_proto (2 ^ k) proto"
  shows "\<exists>res. FastQueue_NextBlock (2 ^ k) proto mode q s = Some res
    \<and> (case res of
         Inl (r, q1, s1) \<Rightarrow> fast_inv k V q1 s1 hn tn f fs ls \<and> (\<forall>x \<in> V. blk s1 x = blk s x)
           \<and> (r = Ret False \<and> (mode = CannotAlloc \<or> Quota (Hp s) < 3) \<or> r = Exn \<and> Quota (Hp s) < 3)
       | Inr (q1, s1) \<Rightarrow> \<exists>fs1 a. fast_ready k V q1 s1 hn tn f fs1 ls a
           \<and> old_tail (TailBlock q) (fs1 @ ls) a \<and> (\<forall>x \<in> V. blk s1 x = blk s x))"
proof (cases fs)
  case (Cons a fs1)
  note d = fast_invD [OF inv]
  obtain b where b: "blk s a = Some b" "Block_next (TailBlock q) s = Some (Some a)"
    "Block_IsEmpty (2 ^ k) (Some a) s = Some True"
    "fast_ready k V (q\<lparr>TailBlock := Some a\<rparr>) (put a (b\<lparr>Policy := ResetPolicy (Policy b)\<rparr>) s) hn tn f fs1 ls a"
    "old_tail (TailBlock q) (fs1 @ ls) a"
    using fast_reuse [OF inv [unfolded Cons] m] by blast
  obtain t where "TailBlock q = Some t" using d(9) Cons by (simp add: last_opt_def)
  then have "FastQueue_NextBlock (2 ^ k) proto mode q s
      = Some (Inr (q\<lparr>TailBlock := Some a\<rparr>, put a (b\<lparr>Policy := ResetPolicy (Policy b)\<rparr>) s))"
    using b(1-3) by (simp add: FastQueue_NextBlock_def heap_simps)
  moreover have "a \<notin> V" using d(4) Cons by auto
  ultimately show ?thesis using b(4,5) by auto
next
  case Nil
  note inv = inv [unfolded Nil]
  note d = fast_invD [OF inv]
  have noreuse: "(if TailBlock q = None then Some False
      else do { n \<leftarrow> Block_next (TailBlock q) s; Block_IsEmpty (2 ^ k) n s }) = Some False"
  proof (cases ls)
    case (Cons a ls')
    with fast_no_reuse [OF inv [unfolded Cons]] d(9) show ?thesis by (simp add: last_opt_def)
  qed (use d(9) in \<open>simp add: last_opt_def\<close>)
  show ?thesis
  proof (cases "CircularLessThan (HeadIndex q) (TailIndex q + 2 ^ k)")
    case False
    then have "Quota (Hp s) = 0" using fast_room [OF inv] by auto
    moreover have "FastQueue_NextBlock (2 ^ k) proto mode q s = Some (Inl (Ret False, q, s))"
      using noreuse False by (simp add: FastQueue_NextBlock_def)
    ultimately show ?thesis using inv Nil by auto
  next
    case True
    show ?thesis
    proof (cases "current_array q = None \<or> PO_IndexEntriesUsed q = PO_IndexEntriesSize q")
      case False
      obtain A As where A: "IndexArrays q = A # As"
        using False by (cases "IndexArrays q") (auto simp: current_array_def)
      obtain M where M: "PO_IndexEntriesSize q = 2 ^ M" "length ls \<le> 2 ^ M" "M < 64"
          "PO_IndexEntriesUsed q = of_nat (length ls)"
        using d(13) by (auto simp: index_inv_def)
      then have "length ls \<noteq> 2 ^ M" using False by auto
      then have "length ls < 2 ^ M" using M(2) by simp
      from fast_Requisition [OF inv m proto _ M(1) this M(3)] A
      obtain res where res: "FastQueue_Requisition proto mode q s = Some res"
        "case res of
         Inl (r, q1, s1) \<Rightarrow> q1 = q \<and> s1 = s
           \<and> ((r = Ret False \<and> mode = CannotAlloc) \<or> (r = Exn \<and> Quota (Hp s) = 0))
       | Inr (q1, s1) \<Rightarrow> \<exists>a. fast_ready k V q1 s1 hn tn f [] ls a
           \<and> old_tail (TailBlock q) ls a \<and> (\<forall>x \<in> V. blk s1 x = blk s x)" by auto
      have "FastQueue_NextBlock (2 ^ k) proto mode q s = Some res"
        using noreuse False True res(1) A by (simp add: FastQueue_NextBlock_def current_array_def)
      moreover have "case res of
         Inl (r, q1, s1) \<Rightarrow> fast_inv k V q1 s1 hn tn f [] ls \<and> (\<forall>x \<in> V. blk s1 x = blk s x)
           \<and> (r = Ret False \<and> (mode = CannotAlloc \<or> Quota (Hp s) < 3) \<or> r = Exn \<and> Quota (Hp s) < 3)
       | Inr (q1, s1) \<Rightarrow> \<exists>fs1 a. fast_ready k V q1 s1 hn tn f fs1 ls a
           \<and> old_tail (TailBlock q) (fs1 @ ls) a \<and> (\<forall>x \<in> V. blk s1 x = blk s x)"
        using res(2) inv by (cases res) (auto intro!: exI [of _ "[]"])
      ultimately show ?thesis using Nil by blast
    next
      case full: True
      show ?thesis
      proof (cases "mode = CannotAlloc")
        case True
        then have "FastQueue_NextBlock (2 ^ k) proto mode q s = Some (Inl (Ret False, q, s))"
          using noreuse full \<open>CircularLessThan _ _\<close> by (simp add: FastQueue_NextBlock_def)
        then show ?thesis using inv True Nil by auto
      next
        case False
        then have mode: "mode = CanAlloc" by (cases mode) simp_all
        have nu: "length ([] @ ls) * 2 ^ k < 2 ^ 63" using fast_inv_span(3) [OF inv] .
        obtain ok q1 s1 where c: "FastQueue_CreateNewBlockIndexArray (PO_IndexEntriesUsed q) q s = Some (ok, q1, s1)"
          "mgr_inv (2 ^ k) s1 (V \<union> set ([] @ ls))" "blk s1 = blk s"
          "index_inv k q1 (length ([] @ ls)) (hn div 2 ^ k) ls" "index_only q q1"
          "ok \<Longrightarrow> IndexArrays q1 \<noteq> [] \<and> (\<exists>m. m < 64 \<and> PO_IndexEntriesSize q1 = 2 ^ m \<and> length ([] @ ls) < 2 ^ m)
            \<and> Quota (Hp s) = Quota (Hp s1) + 2"
          "\<not> ok \<Longrightarrow> q1 = q \<and> Quota (Hp s) < 2"
          using fast_Create [OF d(3) d(13) full nu] by blast
        note inv1 = fast_inv_index_only [OF inv c(5,4,2,3)]
        have run: "FastQueue_NextBlock (2 ^ k) proto mode q s
            = (if ok then FastQueue_Requisition proto mode q1 s1 else Some (Inl (Ret False, q1, s1)))"
          using noreuse full \<open>CircularLessThan _ _\<close> mode c(1) by (simp add: FastQueue_NextBlock_def)
        show ?thesis
        proof (cases ok)
          case False
          then show ?thesis using run inv1(1) c(3,7) Nil by auto
        next
          case True
          then obtain M where M: "IndexArrays q1 \<noteq> []" "M < 64" "PO_IndexEntriesSize q1 = 2 ^ M"
            "length ls < 2 ^ M" "Quota (Hp s) = Quota (Hp s1) + 2"
            using c(6) by auto
          obtain res where res: "FastQueue_Requisition proto mode q1 s1 = Some res"
            "case res of
             Inl (r, q2, s2) \<Rightarrow> q2 = q1 \<and> s2 = s1
               \<and> ((r = Ret False \<and> mode = CannotAlloc) \<or> (r = Exn \<and> Quota (Hp s1) = 0))
           | Inr (q2, s2) \<Rightarrow> \<exists>a. fast_ready k V q2 s2 hn tn f [] ls a
               \<and> old_tail (TailBlock q1) ls a \<and> (\<forall>x \<in> V. blk s2 x = blk s1 x)"
            using fast_Requisition [OF inv1(1) m proto M(1,3,4,2)] by blast
          have "case res of
             Inl (r, q2, s2) \<Rightarrow> fast_inv k V q2 s2 hn tn f [] ls \<and> (\<forall>x \<in> V. blk s2 x = blk s x)
               \<and> (r = Ret False \<and> (mode = CannotAlloc \<or> Quota (Hp s) < 3) \<or> r = Exn \<and> Quota (Hp s) < 3)
           | Inr (q2, s2) \<Rightarrow> \<exists>fs1 a. fast_ready k V q2 s2 hn tn f fs1 ls a
               \<and> old_tail (TailBlock q) (fs1 @ ls) a \<and> (\<forall>x \<in> V. blk s2 x = blk s x)"
            using res(2) inv1 c(3) M(5) mode by (cases res) (auto intro!: exI [of _ "[]"])
          then show ?thesis using run res(1) True Nil by auto
        qed
      qed
    qed
  qed
qed

section \<open>Enqueue\<close>

text \<open>Writing the entry of the new tail block, and publishing it.\<close>

lemma index_write:
  assumes ii: "index_inv k q nu j ls" and ne: "IndexArrays q \<noteq> []" and lt: "length ls < nu"
    and tn: "tn = (j + length ls) * 2 ^ k"
  shows "\<exists>A. entry_write (PO_NextIndexEntry q) (of_nat tn, Some a) q = Some (set_current A q)
    \<and> index_inv k (set_current A q) nu j ls
    \<and> index_inv k ((set_current (A\<lparr>IA_Tail := PO_NextIndexEntry q\<rparr>) q)
         \<lparr>PO_NextIndexEntry := (PO_NextIndexEntry q + 1) AND (PO_IndexEntriesSize q - 1), TailIndex := x\<rparr>)
         nu j (ls @ [a])"
proof -
  obtain m nx where m: "1 \<le> m" "m + k \<le> 64" "m < 64" "nx < 2 ^ m" "PO_IndexEntriesSize q = 2 ^ m"
      "PO_NextIndexEntry q = of_nat nx" "PO_IndexEntriesUsed q = of_nat nu" "nu \<le> 2 ^ m" "length ls \<le> nu"
    and arr: "case IndexArrays q of [] \<Rightarrow> nu = 0 \<and> m + 1 + k \<le> 64 \<and> m + 1 < 64 \<and> nx = 0
        | A # _ \<Rightarrow> IA_Size A = 2 ^ m \<and> (ls \<noteq> [] \<longrightarrow> IA_Tail A = of_nat (ix (2 ^ m) nx 1))
            \<and> index_entries (2 ^ m) (2 ^ k) nx j ls (IA_Entries A)"
    using ii unfolding index_inv_def by blast
  obtain A As where A: "IndexArrays q = A # As" "IA_Size A = 2 ^ m"
      "ls \<noteq> [] \<Longrightarrow> IA_Tail A = of_nat (ix (2 ^ m) nx 1)" "index_entries (2 ^ m) (2 ^ k) nx j ls (IA_Entries A)"
    using arr ne by (cases "IndexArrays q") auto
  let ?M = "2 ^ m :: nat"
  let ?es = "(IA_Entries A)[nx := Some (of_nat tn, Some a)]"
  let ?A = "A\<lparr>IA_Entries := ?es\<rparr>"
  have len: "length (IA_Entries A) = ?M" using A(4) by (simp add: index_entries_def)
  have u: "unat (of_nat nx :: size_t) = nx" by (rule index_word [OF m(4,3)])
  have wr: "entry_write (PO_NextIndexEntry q) (of_nat tn, Some a) q = Some (set_current ?A q)"
    using len m(4) by (simp add: entry_write_def current_array_def A(1) m(6) u)
  have old: "?es ! ix ?M nx (length ls - i) = Some (of_nat ((j + i) * 2 ^ k), Some (ls ! i))"
    if i: "i < length ls" for i
  proof -
    have "ix ?M nx (length ls - i) \<noteq> nx" using i lt m(4,8) by (intro ix_neq) auto
    then show ?thesis using A(4) i by (simp add: index_entries_def)
  qed
  have "index_entries ?M (2 ^ k) nx j ls ?es" using old len by (simp add: index_entries_def)
  then have one: "index_inv k (set_current ?A q) nu j ls"
    unfolding index_inv_def set_current_def using m A by (intro exI [of _ m] exI [of _ nx]) auto
  let ?nx = "(nx + 1) mod ?M"
  have "?es ! ix ?M ?nx (length (ls @ [a]) - i) = Some (of_nat ((j + i) * 2 ^ k), Some ((ls @ [a]) ! i))"
    if i: "i < length (ls @ [a])" for i
  proof -
    have "ix ?M ?nx (Suc (length ls - i)) = ix ?M nx (length ls - i)"
      using lt m(8) by (intro ix_Suc_next) linarith
    then have "ix ?M ?nx (length (ls @ [a]) - i) = ix ?M nx (length ls - i)"
      using i by (simp add: Suc_diff_le)
    moreover have "?es ! ix ?M nx 0 = Some (of_nat tn, Some a)"
      using ix_zero [OF m(4)] len m(4) by simp
    ultimately show ?thesis
      using old [of i] i tn by (cases "i = length ls") (auto simp: nth_append)
  qed
  then have ent: "index_entries ?M (2 ^ k) ?nx j (ls @ [a]) ?es" using len by (simp add: index_entries_def)
  have nx1: "(of_nat nx + 1 :: size_t) AND (2 ^ m - 1) = of_nat ?nx"
    using mask_of_nat [where 'w = 64, of "nx + 1" m] by (simp add: add.commute)
  have "ix ?M ?nx 1 = nx" using ix_Suc_next [of 0 ?M nx] ix_zero [OF m(4)] by simp
  then have two: "index_inv k ((set_current (?A\<lparr>IA_Tail := PO_NextIndexEntry q\<rparr>) q)
         \<lparr>PO_NextIndexEntry := (PO_NextIndexEntry q + 1) AND (PO_IndexEntriesSize q - 1), TailIndex := x\<rparr>)
         nu j (ls @ [a])"
    unfolding index_inv_def set_current_def using m A(1,2) ent nx1 lt
    by (intro exI [of _ m] exI [of _ ?nx]) auto
  from wr one two show ?thesis by blast
qed

lemma set_current_fields [simp]:
  "HeadIndex (set_current A q) = HeadIndex q" "TailIndex (set_current A q) = TailIndex q"
  "DequeueAttemptsCount (set_current A q) = DequeueAttemptsCount q"
  "DequeueFailedCount (set_current A q) = DequeueFailedCount q"
  "TailBlock (set_current A q) = TailBlock q" "HasManager (set_current A q) = HasManager q"
  "PO_NextIndexEntry (set_current A q) = PO_NextIndexEntry q"
  "PO_IndexEntriesUsed (set_current A q) = PO_IndexEntriesUsed q"
  "PO_IndexEntriesSize (set_current A q) = PO_IndexEntriesSize q"
  "current_array (set_current A q) = Some A"
  "set_current A' (set_current A q) = set_current A' q"
  by (simp_all add: set_current_def current_array_def)

lemma index_inv_fields: 
  "index_inv k (q\<lparr>TailBlock := t\<rparr>) nu j ls = index_inv k q nu j ls"
  by (simp add: index_inv_def)

text \<open>The constructor succeeds: the element is in the new tail block.\<close>

lemma fast_finish:
  assumes r: "fast_ready k V q s hn tn f fs ls a" and m: "tn mod 2 ^ k = 0"
  shows "\<exists>A s3. entry_write (PO_NextIndexEntry q) (of_nat tn, Some a) q = Some (set_current A q)
    \<and> Slot_construct (Some a) 0 v s = Some s3
    \<and> fast_inv k V ((set_current (A\<lparr>IA_Tail := PO_NextIndexEntry q\<rparr>) q)
         \<lparr>PO_NextIndexEntry := (PO_NextIndexEntry q + 1) AND (PO_IndexEntriesSize q - 1),
          TailIndex := of_nat (Suc tn)\<rparr>) s3 hn (Suc tn) (f(tn := v)) fs (ls @ [a])
    \<and> (\<forall>x \<in> V. blk s3 x = blk s x)"
proof -
  let ?n = "2 ^ k :: nat"
  note r = r [unfolded fast_ready_def]
  obtain b where b: "blk s a = Some b" "holds ?n (tn div ?n) hn tn f b" using r by blast
  have win: "window ?n hn tn f (blk s) ls" and le: "hn \<le> tn" using r by (auto simp: window_def)
  have tn: "tn = (hn div ?n + length ls) * ?n"
    using win m boundary_mult [OF m] by (simp add: window_def up_boundary)
  have ii: "index_inv k q (length (fs @ ls @ [a])) (hn div ?n) ls" "IndexArrays q \<noteq> []"
    "length ls < length (fs @ ls @ [a])" using r by auto
  obtain A where A: "entry_write (PO_NextIndexEntry q) (of_nat tn, Some a) q = Some (set_current A q)"
    "index_inv k ((set_current (A\<lparr>IA_Tail := PO_NextIndexEntry q\<rparr>) q)
         \<lparr>PO_NextIndexEntry := (PO_NextIndexEntry q + 1) AND (PO_IndexEntriesSize q - 1),
          TailIndex := of_nat (Suc tn)\<rparr>) (length (fs @ ls @ [a])) (hn div ?n) (ls @ [a])"
    using index_write [OF ii tn] by blast
  let ?b = "b\<lparr>Elements := (Elements b)[0 := Some v]\<rparr>"
  have slot: "0 < length (Elements b)" "Elements b ! 0 = None" "holds ?n (tn div ?n) hn (Suc tn) (f(tn := v)) ?b"
    using holds_tail_slot [OF _ b(2) le] m by simp_all
  let ?s = "put a ?b s"
  have run: "Slot_construct (Some a) 0 v s = Some ?s" using b(1) slot(1,2) by (simp add: Slot_construct_eq)
  have dist: "a \<notin> set fs" "a \<notin> set ls" using ring_distinct [of "next_of s" "fs @ ls @ [a]"] r by auto
  have mgr: "mgr_inv ?n ?s (V \<union> set (fs @ ls @ [a]))"
    using mgr_inv_put [of ?n s "V \<union> set (fs @ ls @ [a])" a b ?b] r b holds_wf [OF slot(3)]
    by (simp add: client_write_def)
  have nx: "next_of ?s = next_of s" by (rule next_of_put [OF b(1)]) simp
  have win': "window ?n hn (Suc tn) (f(tn := v)) (blk ?s) (ls @ [a])"
    using dist by (intro window_append [OF _ win m _ _ slot(3)]) auto
  have free: "\<forall>x \<in> set fs. \<exists>b. blk ?s x = Some b \<and> spent ?n b" using r dist by auto
  have "fast_inv k V ((set_current (A\<lparr>IA_Tail := PO_NextIndexEntry q\<rparr>) q)
         \<lparr>PO_NextIndexEntry := (PO_NextIndexEntry q + 1) AND (PO_IndexEntriesSize q - 1),
          TailIndex := of_nat (Suc tn)\<rparr>) ?s hn (Suc tn) (f(tn := v)) fs (ls @ [a])"
    unfolding fast_inv_def using r mgr nx win' free A(2) by (simp add: last_opt_def)
  moreover have "\<forall>x \<in> V. blk ?s x = blk s x" using r by auto
  ultimately show ?thesis using A(1) run by blast
qed

text \<open>The constructor throws: the block is marked empty and the tail moves back.\<close>

lemma fast_rollback:
  assumes r: "fast_ready k V q s hn tn f fs ls a" and m: "tn mod 2 ^ k = 0"
    and old: "old_tail old (fs @ ls) a"
  shows "\<exists>A s3. entry_write (PO_NextIndexEntry q) (of_nat tn, Some a) q = Some (set_current A q)
    \<and> Block_SetAllEmpty (2 ^ k) (Some a) s = Some s3
    \<and> fast_inv k V ((set_current A q)\<lparr>TailBlock := if old = None then Some a else old\<rparr>) s3 hn tn f (a # fs) ls
    \<and> (\<forall>x \<in> V. blk s3 x = blk s x)"
proof -
  let ?n = "2 ^ k :: nat"
  note r = r [unfolded fast_ready_def]
  obtain b where b: "blk s a = Some b" "holds ?n (tn div ?n) hn tn f b" using r by blast
  have win: "window ?n hn tn f (blk s) ls" and le: "hn \<le> tn" using r by (auto simp: window_def)
  have tn: "tn = (hn div ?n + length ls) * ?n"
    using win m boundary_mult [OF m] by (simp add: window_def up_boundary)
  have ii: "index_inv k q (length (fs @ ls @ [a])) (hn div ?n) ls" "IndexArrays q \<noteq> []"
    "length ls < length (fs @ ls @ [a])" using r by auto
  obtain A where A: "entry_write (PO_NextIndexEntry q) (of_nat tn, Some a) q = Some (set_current A q)"
    "index_inv k (set_current A q) (length (fs @ ls @ [a])) (hn div ?n) ls"
    using index_write [OF ii tn] by blast
  let ?b = "b\<lparr>Policy := SetAllEmpty (2 ^ k) (Policy b)\<rparr>"
  let ?s = "put a ?b s"
  have run: "Block_SetAllEmpty (2 ^ k) (Some a) s = Some ?s" using b(1) by (simp add: Block_SetAllEmpty_eq)
  have pw: "policy_rep ?n {..<?n} (SetAllEmpty (2 ^ k) (Policy b))"
    using policy.rep_all [of ?n "Policy b"] holds_wf [OF b(2)] by (simp add: block_wf_def)
  have raw: "\<forall>i < ?n. Elements b ! i = None"
    using b(2) boundary_mult [OF m] by (auto simp: holds_def)
  have sp: "spent ?n ?b"
    using raw b(2) pw by (auto simp: spent_def raw_def holds_def in_set_conv_nth)
  have dist: "a \<notin> set fs" "a \<notin> set ls" using ring_distinct [of "next_of s" "fs @ ls @ [a]"] r by auto
  have mgr: "mgr_inv ?n ?s (V \<union> set (a # fs @ ls))"
    using mgr_inv_put [of ?n s "V \<union> set (fs @ ls @ [a])" a b ?b] r b spent_wf [OF sp]
    by (simp add: client_write_def)
  have nx: "next_of ?s = next_of s" by (rule next_of_put [OF b(1)]) simp
  have ring: "ring (next_of s) (a # fs @ ls)"
    using r ring_snoc_Cons [of "next_of s" "fs @ ls" a] by simp
  have win': "window ?n hn tn f (blk ?s) ls"
    using win dist unfolding window_def by (auto simp: nth_mem dest: nth_mem)
  have free: "\<forall>x \<in> set (a # fs). \<exists>b. blk ?s x = Some b \<and> spent ?n b" using r dist sp by auto
  have tail: "(if old = None then Some a else old) = last_opt (a # fs @ ls)"
    using old by (auto simp: old_tail_def last_opt_def split: if_splits)
  have "fast_inv k V ((set_current A q)\<lparr>TailBlock := if old = None then Some a else old\<rparr>) ?s hn tn f (a # fs) ls"
    unfolding fast_inv_def index_inv_fields using r mgr nx ring win' free A(2) tail by simp
  moreover have "\<forall>x \<in> V. blk ?s x = blk s x" using r by auto
  ultimately show ?thesis using A(1) run by blast
qed

text \<open>\<^verbatim>\<open>Enqueue\<close>: every outcome, for an argument \<open>arg\<close> whose constructor may throw.\<close>

lemma fast_Enqueue:
  assumes inv: "fast_inv k V q s hn tn f fs ls" and proto: "fresh_proto (2 ^ k) proto"
  shows "\<exists>r q' s'. FastQueue_Enqueue (2 ^ k) proto mode arg q s = Some (r, q', s')
    \<and> (\<forall>x \<in> V. blk s' x = blk s x)
    \<and> (case r of
         Ret True \<Rightarrow> \<exists>v fs' ls'. arg = Some v \<and> fast_inv k V q' s' hn (Suc tn) (f(tn := v)) fs' ls'
       | Ret False \<Rightarrow> fast_inv k V q' s' hn tn f fs ls \<and> (mode = CannotAlloc \<or> Quota (Hp s) < 3)
       | Exn \<Rightarrow> (arg = None \<or> Quota (Hp s) < 3) \<and> (\<exists>fs'. fast_inv k V q' s' hn tn f fs' ls))"
proof (cases "tn mod 2 ^ k = 0")
  case False
  let ?n = "2 ^ k :: nat"
  note d = fast_invD [OF inv]
  have le: "hn \<le> tn" using d(12) by (simp add: window_def)
  have inner: "(TailIndex q AND (2 ^ k - 1)) = of_nat (tn mod ?n)" "TailIndex q AND (2 ^ k - 1) \<noteq> 0"
    "unat (of_nat (tn mod ?n) :: size_t) = tn mod ?n"
    using fast_inner_index [OF d(2), of tn] d(7) False by simp_all
  show ?thesis
  proof (cases arg)
    case None
    then show ?thesis using inv inner(2) by (auto simp: FastQueue_Enqueue_def)
  next
    case (Some v)
    have ls: "ls \<noteq> []" "hn div ?n + length ls = tn div ?n + 1"
      using window_length_mid [OF _ d(12) False] by simp_all
    define t where "t = last ls"
    have t: "t \<in> set ls" "TailBlock q = Some t" using ls(1) d(9) by (simp_all add: t_def last_opt_def)
    obtain b where b: "blk s t = Some b" "holds ?n (tn div ?n) hn tn f b"
    proof -
      have "length ls - 1 < length ls" using ls(1) by simp
      from window_nth [OF d(12) this] obtain b where "blk s (ls ! (length ls - 1)) = Some b"
        "holds ?n (hn div ?n + (length ls - 1)) hn tn f b" .
      moreover have "hn div ?n + (length ls - 1) = tn div ?n" using ls by (cases ls) auto
      ultimately show ?thesis using that ls(1) by (simp add: t_def last_conv_nth)
    qed
    have n: "0 < ?n" by simp
    let ?b = "b\<lparr>Elements := (Elements b)[tn mod ?n := Some v]\<rparr>"
    note slot = holds_tail_slot [OF n b(2) le]
    let ?s = "put t ?b s" and ?q = "q\<lparr>TailIndex := TailIndex q + 1\<rparr>"
    have run: "FastQueue_Enqueue (2 ^ k) proto mode arg q s = Some (Ret True, ?q, ?s)"
      using Some inner b(1) slot(1,2) t(2) by (simp add: FastQueue_Enqueue_def Slot_construct_eq)
    have mgr: "mgr_inv ?n ?s (V \<union> set (fs @ ls))"
      using mgr_inv_put [OF d(3), of t b ?b] t(1) b(1) holds_wf [OF slot(3)] by (simp add: client_write_def)
    have nx: "next_of ?s = next_of s" by (rule next_of_put [OF b(1)]) simp
    have win: "window ?n hn (Suc tn) (f(tn := v)) (blk ?s) ls"
      by (rule window_push [OF n d(12) False _ slot(3)]) (auto simp: t_def)
    have dist: "t \<notin> set fs" using fast_inv_span(4) [OF inv] t(1) by auto
    have free: "\<forall>x \<in> set fs. \<exists>b. blk ?s x = Some b \<and> spent ?n b" using d(11) dist by auto
    have "index_inv k ?q (length (fs @ ls)) (hn div ?n) ls" using d(13) by (simp add: index_inv_def)
    then have "fast_inv k V ?q ?s hn (Suc tn) (f(tn := v)) fs ls"
      unfolding fast_inv_def using d(1,2,4-10) mgr nx win free by (simp add: add.commute)
    moreover have "\<forall>x \<in> V. blk ?s x = blk s x" using d(4) t(1) by auto
    ultimately show ?thesis using run Some by auto
  qed
next
  case m: True
  note d = fast_invD [OF inv]
  have inner: "TailIndex q AND (2 ^ k - 1) = 0" using fast_inner_index(3) [OF d(2), of tn] d(7) m by simp
  obtain res where res: "FastQueue_NextBlock (2 ^ k) proto mode q s = Some res" and
    c: "case res of
         Inl (r, q1, s1) \<Rightarrow> fast_inv k V q1 s1 hn tn f fs ls \<and> (\<forall>x \<in> V. blk s1 x = blk s x)
           \<and> (r = Ret False \<and> (mode = CannotAlloc \<or> Quota (Hp s) < 3) \<or> r = Exn \<and> Quota (Hp s) < 3)
       | Inr (q1, s1) \<Rightarrow> \<exists>fs1 a. fast_ready k V q1 s1 hn tn f fs1 ls a
           \<and> old_tail (TailBlock q) (fs1 @ ls) a \<and> (\<forall>x \<in> V. blk s1 x = blk s x)"
    using fast_NextBlock [OF inv m proto] by blast
  show ?thesis
  proof (cases res)
    case (Inl e)
    then show ?thesis using res c inner by (cases e) (auto simp: FastQueue_Enqueue_def)
  next
    case (Inr e)
    obtain q1 s1 fs1 a where e: "e = (q1, s1)" "fast_ready k V q1 s1 hn tn f fs1 ls a"
      "old_tail (TailBlock q) (fs1 @ ls) a" "\<forall>x \<in> V. blk s1 x = blk s x"
      using c Inr by (cases e) auto
    have q1: "TailBlock q1 = Some a" using e(2) by (simp add: fast_ready_def)
    show ?thesis
    proof (cases arg)
      case None
      from fast_rollback [OF e(2) m e(3)] obtain A s3 where r:
        "entry_write (PO_NextIndexEntry q1) (of_nat tn, Some a) q1 = Some (set_current A q1)"
        "Block_SetAllEmpty (2 ^ k) (Some a) s1 = Some s3"
        "fast_inv k V ((set_current A q1)\<lparr>TailBlock := if TailBlock q = None then Some a else TailBlock q\<rparr>)
           s3 hn tn f (a # fs1) ls"
        "\<forall>x \<in> V. blk s3 x = blk s1 x" by blast
      have "FastQueue_Enqueue (2 ^ k) proto mode arg q s = Some (Exn,
          (set_current A q1)\<lparr>TailBlock := if TailBlock q = None then Some a else TailBlock q\<rparr>, s3)"
        using None inner res Inr e(1) q1 r(1,2) d(7) by (simp add: FastQueue_Enqueue_def Let_def)
      then show ?thesis using r(3,4) e(4) None by auto
    next
      case (Some v)
      from fast_finish [OF e(2) m, of v] obtain A s3 where r:
        "entry_write (PO_NextIndexEntry q1) (of_nat tn, Some a) q1 = Some (set_current A q1)"
        "Slot_construct (Some a) 0 v s1 = Some s3"
        "fast_inv k V ((set_current (A\<lparr>IA_Tail := PO_NextIndexEntry q1\<rparr>) q1)
         \<lparr>PO_NextIndexEntry := (PO_NextIndexEntry q1 + 1) AND (PO_IndexEntriesSize q1 - 1),
          TailIndex := of_nat (Suc tn)\<rparr>) s3 hn (Suc tn) (f(tn := v)) fs1 (ls @ [a])"
        "\<forall>x \<in> V. blk s3 x = blk s1 x" by blast
      have suc: "(of_nat (Suc tn) :: size_t) = of_nat tn + 1" by simp
      have "FastQueue_Enqueue (2 ^ k) proto mode arg q s = Some (Ret True,
         (set_current (A\<lparr>IA_Tail := PO_NextIndexEntry q1\<rparr>) q1)
         \<lparr>PO_NextIndexEntry := (PO_NextIndexEntry q1 + 1) AND (PO_IndexEntriesSize q1 - 1),
          TailIndex := of_nat (Suc tn)\<rparr>, s3)"
        using Some inner res Inr e(1) q1 r(1,2) d(7) suc
        by (simp add: FastQueue_Enqueue_def Let_def del: of_nat_Suc)
      moreover have "\<forall>x \<in> V. blk s3 x = blk s x" using r(4) e(4) by simp
      moreover note r(3) Some
      ultimately show ?thesis by (simp del: of_nat_Suc) blast
    qed
  qed
qed

section \<open>The queue as a queue of values\<close>

text \<open>Construction.  The initial size of the index array must leave room for doubling it once.\<close>

lemma fast_new:
  assumes mgr: "mgr_inv (2 ^ k) s V" and k: "1 \<le> k" "k \<le> 62" and size: "unat InSize \<le> 2 ^ (64 - k)"
  shows "\<exists>q s'. FastQueue_new InSize s = Some (q, s') \<and> fast_inv k V q s' 0 0 f [] [] \<and> blk s' = blk s"
proof -
  let ?I = "drop_bit 1 (CeilToPow2 InSize)"
  define I where "I = (if ?I < 2 then 2 else ?I)"
  obtain m where m: "1 \<le> m" "m + 1 + k \<le> 64" "I = 2 ^ m"
    by (rule initial_index_size [OF k size, folded I_def])
  let ?q = "\<lparr>HeadIndex = 0, TailIndex = 0, DequeueAttemptsCount = 0, DequeueFailedCount = 0,
    TailBlock = None, IndexArrays = [], HasManager = True, PO_NextIndexEntry = 0,
    PO_IndexEntriesUsed = 0, PO_IndexEntriesSize = I\<rparr>"
  have ii: "index_inv k ?q 0 (0 div 2 ^ k) []"
    unfolding index_inv_def by (rule exI [of _ m], rule exI [of _ 0]) (use m k in auto)
  have inv: "fast_inv k V ?q s 0 0 f [] []"
    unfolding fast_inv_def using mgr k ii by (simp add: last_opt_def window_def up_def)
  have full: "current_array ?q = None \<or> PO_IndexEntriesUsed ?q = PO_IndexEntriesSize ?q"
    by (simp add: current_array_def)
  obtain ok q1 s1 where c: "FastQueue_CreateNewBlockIndexArray (PO_IndexEntriesUsed ?q) ?q s = Some (ok, q1, s1)"
    "mgr_inv (2 ^ k) s1 V" "blk s1 = blk s" "index_inv k q1 0 (0 div 2 ^ k) []" "index_only ?q q1"
    using fast_Create [OF mgr ii full] by auto
  have "FastQueue_new InSize s = Some (q1, s1)"
    using c(1) unfolding FastQueue_new_def Let_def I_def [symmetric] by simp
  with fast_inv_index_only [OF inv c(5)] c show ?thesis by auto
qed

definition fast_rel :: "nat \<Rightarrow> 'a block \<Rightarrow> addr set \<Rightarrow> fastq \<times> 'a mem \<Rightarrow> 'a list \<Rightarrow> bool" where
  "fast_rel k proto V st xs \<longleftrightarrow> fresh_proto (2 ^ k) proto
     \<and> (\<exists>hn tn f fs ls. fast_inv k V (fst st) (snd st) hn tn f fs ls \<and> xs = contents f hn tn)"

definition fast_enq :: "nat \<Rightarrow> 'a block \<Rightarrow> AllocMode \<Rightarrow> 'a option \<Rightarrow> fastq \<times> 'a mem
    \<Rightarrow> (bool res \<times> fastq \<times> 'a mem) option" where
  "fast_enq k proto mode arg st = FastQueue_Enqueue (2 ^ k) proto mode arg (fst st) (snd st)"

definition fast_deq :: "nat \<Rightarrow> ('a \<Rightarrow> bool) \<Rightarrow> fastq \<times> 'a mem \<Rightarrow> ('a option res \<times> fastq \<times> 'a mem) option" where
  "fast_deq k throws st = FastQueue_Dequeue (2 ^ k) throws (fst st) (snd st)"

interpretation fast: fifo_queue "fast_rel k proto V" "fast_enq k proto mode" "fast_deq k throws" throws
  for k proto V mode throws
proof
  fix st :: "fastq \<times> 'a mem" and xs arg
  assume "fast_rel k proto V st xs"
  then obtain hn tn f fs ls where inv: "fast_inv k V (fst st) (snd st) hn tn f fs ls"
    and xs: "xs = contents f hn tn" and proto: "fresh_proto (2 ^ k) proto"
    by (auto simp: fast_rel_def)
  have le: "hn \<le> tn" using fast_inv_span(1) [OF inv] .
  obtain r q' s' where r: "FastQueue_Enqueue (2 ^ k) proto mode arg (fst st) (snd st) = Some (r, q', s')"
    "case r of
         Ret True \<Rightarrow> \<exists>v fs' ls'. arg = Some v \<and> fast_inv k V q' s' hn (Suc tn) (f(tn := v)) fs' ls'
       | Ret False \<Rightarrow> fast_inv k V q' s' hn tn f fs ls \<and> (mode = CannotAlloc \<or> Quota (Hp (snd st)) < 3)
       | Exn \<Rightarrow> (arg = None \<or> Quota (Hp (snd st)) < 3) \<and> (\<exists>fs'. fast_inv k V q' s' hn tn f fs' ls)"
    using fast_Enqueue [OF inv proto, of mode arg] by blast
  have "case r of Ret True \<Rightarrow> \<exists>v. arg = Some v \<and> fast_rel k proto V (q', s') (xs @ [v])
      | _ \<Rightarrow> fast_rel k proto V (q', s') xs"
    using r(2) proto xs contents_push [OF le, of f]
    by (auto simp: fast_rel_def split: res.splits bool.splits) metis+
  with r(1) show "\<exists>r s'. fast_enq k proto mode arg st = Some (r, s')
      \<and> (case r of Ret True \<Rightarrow> \<exists>v. arg = Some v \<and> fast_rel k proto V s' (xs @ [v]) | _ \<Rightarrow> fast_rel k proto V s' xs)"
    by (auto simp: fast_enq_def)
next
  fix st :: "fastq \<times> 'a mem"
  assume "fast_rel k proto V st []"
  then obtain hn tn f fs ls where inv: "fast_inv k V (fst st) (snd st) hn tn f fs ls"
    and xs: "contents f hn tn = []" and proto: "fresh_proto (2 ^ k) proto"
    by (auto simp: fast_rel_def)
  have "tn = hn" using fast_inv_span(1) [OF inv] arg_cong [OF xs, of length] by simp
  then have "fast_deq k throws st = Some (Ret None, st)"
    using fast_Dequeue_empty [of k V "fst st" "snd st" hn f fs ls throws] inv by (simp add: fast_deq_def)
  then show "\<exists>s'. fast_deq k throws st = Some (Ret None, s') \<and> fast_rel k proto V s' []"
    using \<open>fast_rel k proto V st []\<close> by blast
next
  fix st :: "fastq \<times> 'a mem" and x xs
  assume "fast_rel k proto V st (x # xs)"
  then obtain hn tn f fs ls where inv: "fast_inv k V (fst st) (snd st) hn tn f fs ls"
    and xs: "x # xs = contents f hn tn" and proto: "fresh_proto (2 ^ k) proto"
    by (auto simp: fast_rel_def)
  have lt: "hn < tn" using arg_cong [OF xs, of length] by simp
  with xs have x: "x = f hn" "xs = contents f (Suc hn) tn" by (auto simp: contents_pop)
  from fast_Dequeue_next [OF inv lt, of throws] obtain q' s' fs' ls' where
    d: "FastQueue_Dequeue (2 ^ k) throws (fst st) (snd st)
      = Some (if throws (f hn) then Exn else Ret (Some (f hn)), q', s')"
    "fast_inv k V q' s' (Suc hn) tn f fs' ls'" by blast
  have "fast_rel k proto V (q', s') xs" using d(2) proto x(2) unfolding fast_rel_def fst_conv snd_conv by blast
  with d(1) x(1)
  show "\<exists>s'. fast_deq k throws st = Some (if throws x then Exn else Ret (Some x), s') \<and> fast_rel k proto V s' xs"
    by (simp add: fast_deq_def)
qed

end
