(* ===== verification/Fast_Queue_Properties.thy ===== *)
theory Fast_Queue_Properties
  imports Fast_Queue_Correct
begin

text \<open>
  What the invariant of \<^verbatim>\<open>Fast_Queue_Correct\<close> gives for the operations of \<^verbatim>\<open>FastQueue\<close>, stated over
  the list of values the queue holds (\<open>fast_rel k proto V (q, s) xs\<close>: \<open>q\<close> with blocks of
  \<open>2 ^ k\<close> slots holds \<open>xs\<close>, while its manager has handed out the blocks \<open>V\<close> to other clients).
\<close>

section \<open>The relation\<close>

lemma fast_relE:
  assumes "fast_rel k proto V (q, s) xs"
  obtains hn tn f fs ls where "fast_inv k V q s hn tn f fs ls" "xs = contents f hn tn"
    "fresh_proto (2 ^ k) proto"
  using assms by (auto simp: fast_rel_def)

lemma fast_relI: "fast_inv k V q s hn tn f fs ls \<Longrightarrow> fresh_proto (2 ^ k) proto \<Longrightarrow>
   fast_rel k proto V (q, s) (contents f hn tn)"
  unfolding fast_rel_def fst_conv snd_conv by blast

lemma fast_rel_new:
  assumes "1 \<le> k" "k \<le> 62" "mgr_inv (2 ^ k) s V" "unat InSize \<le> 2 ^ (64 - k)"
  shows "\<exists>q s'. FastQueue_new InSize s = Some (q, s')
    \<and> (\<forall>c. fast_rel k (new_block c (2 ^ k)) V (q, s') ([] :: 'a list)) \<and> blk s' = blk s"
proof -
  have bs: "block_size (2 ^ k)" using assms(1,2) by (auto simp: block_size_def)
  obtain q s' where q: "FastQueue_new InSize s = Some (q, s')"
    "fast_inv k V q s' 0 0 (\<lambda>_. undefined) [] []" "blk s' = blk s"
    using fast_new [OF assms(3,1,2,4)] by blast
  then have "fast_rel k (new_block c (2 ^ k)) V (q, s') ([] :: 'a list)" for c
    using fast_relI [OF q(2) new_block_proto [OF bs]] by (simp add: contents_def)
  then show ?thesis using q by blast
qed

lemma fast_rel_example:
  "\<exists>q s. FastQueue_new 2 (empty_mem 50) = Some (q, s)
     \<and> (\<forall>c. fast_rel 1 (new_block c 2) {} (q, s) ([] :: nat list))"
  using fast_rel_new [of 1 "empty_mem 50 :: nat mem" "{}" 2] empty_mem_inv [of 50 2] by auto

section \<open>Enqueue\<close>

text \<open>C20. \<^verbatim>\<open>FastQueue::Enqueue\<close> on every path.  It never runs into undefined behaviour; when it returns
  true the queue holds the new value at its end; when it returns false or leaves by an exception the
  queue holds what it held, and the reason is the mode, an exhausted allocator or a throwing
  constructor.  Blocks the manager gave to other clients are not touched.\<close>

theorem FastQueue_Enqueue_correct:
  assumes "fast_rel k proto V (q, s) xs"
  shows "\<exists>r q' s'. FastQueue_Enqueue (2 ^ k) proto mode arg q s = Some (r, q', s')
    \<and> (\<forall>x \<in> V. blk s' x = blk s x)
    \<and> (case r of
         Ret True \<Rightarrow> \<exists>v. arg = Some v \<and> fast_rel k proto V (q', s') (xs @ [v])
       | Ret False \<Rightarrow> fast_rel k proto V (q', s') xs \<and> (mode = CannotAlloc \<or> Quota (Hp s) < 3)
       | Exn \<Rightarrow> fast_rel k proto V (q', s') xs \<and> (arg = None \<or> Quota (Hp s) < 3))"
proof -
  from assms obtain hn tn f fs ls where inv: "fast_inv k V q s hn tn f fs ls"
    and xs: "xs = contents f hn tn" and proto: "fresh_proto (2 ^ k) proto" by (rule fast_relE)
  note le = fast_inv_span(1) [OF inv]
  obtain r q' s' where r: "FastQueue_Enqueue (2 ^ k) proto mode arg q s = Some (r, q', s')"
    "\<forall>x \<in> V. blk s' x = blk s x"
    "case r of
         Ret True \<Rightarrow> \<exists>v fs' ls'. arg = Some v \<and> fast_inv k V q' s' hn (Suc tn) (f(tn := v)) fs' ls'
       | Ret False \<Rightarrow> fast_inv k V q' s' hn tn f fs ls \<and> (mode = CannotAlloc \<or> Quota (Hp s) < 3)
       | Exn \<Rightarrow> (arg = None \<or> Quota (Hp s) < 3) \<and> (\<exists>fs'. fast_inv k V q' s' hn tn f fs' ls)"
    using fast_Enqueue [OF inv proto, of mode arg] by blast
  have "case r of
         Ret True \<Rightarrow> \<exists>v. arg = Some v \<and> fast_rel k proto V (q', s') (xs @ [v])
       | Ret False \<Rightarrow> fast_rel k proto V (q', s') xs \<and> (mode = CannotAlloc \<or> Quota (Hp s) < 3)
       | Exn \<Rightarrow> fast_rel k proto V (q', s') xs \<and> (arg = None \<or> Quota (Hp s) < 3)"
  proof (cases "r = Ret True")
    case True
    with r(3) obtain v fs' ls' where "arg = Some v" "fast_inv k V q' s' hn (Suc tn) (f(tn := v)) fs' ls'"
      by auto
    with fast_relI [OF this(2) proto] True show ?thesis by (simp add: xs contents_push [OF le])
  next
    case False
    have same: "fast_rel k proto V (q', s') xs" if "fast_inv k V q' s' hn tn f fs' ls" for fs'
      using fast_relI [OF that proto] by (simp add: xs)
    show ?thesis using False r(3) same by (auto split: res.splits bool.splits)
  qed
  with r(1,2) show ?thesis by blast
qed

theorem FastQueue_Enqueue_correct_witness:
  "\<exists>(q :: fastq) (s :: nat mem) r q' s'. FastQueue_new 2 (empty_mem 50) = Some (q, s)
    \<and> FastQueue_Enqueue 2 (new_block False 2) CanAlloc None q s = Some (r, q', s')
    \<and> r \<noteq> Ret True \<and> fast_rel 1 (new_block False 2) {} (q', s') []"
proof -
  obtain q and s :: "nat mem" where q: "FastQueue_new 2 (empty_mem 50) = Some (q, s)"
    "fast_rel 1 (new_block False 2) {} (q, s) ([] :: nat list)" using fast_rel_example by blast
  from FastQueue_Enqueue_correct [OF q(2), of CanAlloc None] obtain r q' s' where
    r: "FastQueue_Enqueue 2 (new_block False 2) CanAlloc None q s = Some (r, q', s')"
    "r \<noteq> Ret True \<and> fast_rel 1 (new_block False 2) {} (q', s') []"
    unfolding bool_res_case power_one_right option.distinct by blast
  then show ?thesis using q(1) by blast
qed

section \<open>Dequeue\<close>

text \<open>C21. \<^verbatim>\<open>FastQueue::Dequeue\<close>: on an empty queue it changes nothing and reports so; otherwise it
  hands out the oldest value and consumes it, also when assigning it to the caller's variable
  throws.\<close>

theorem FastQueue_Dequeue_correct:
  assumes "fast_rel k proto V (q, s) xs"
  shows "case xs of
      [] \<Rightarrow> FastQueue_Dequeue (2 ^ k) throws q s = Some (Ret None, q, s)
    | x # xs' \<Rightarrow> \<exists>q' s'. FastQueue_Dequeue (2 ^ k) throws q s
          = Some (if throws x then Exn else Ret (Some x), q', s')
        \<and> fast_rel k proto V (q', s') xs' \<and> (\<forall>a \<in> V. blk s' a = blk s a)"
proof -
  from assms obtain hn tn f fs ls where inv: "fast_inv k V q s hn tn f fs ls"
    and xs: "xs = contents f hn tn" and proto: "fresh_proto (2 ^ k) proto" by (rule fast_relE)
  note le = fast_inv_span(1) [OF inv]
  show ?thesis
  proof (cases "hn = tn")
    case True
    with inv have "fast_inv k V q s hn hn f fs ls" by simp
    from fast_Dequeue_empty [OF this] show ?thesis using True by (simp add: xs contents_def)
  next
    case False
    then have lt: "hn < tn" using le by simp
    from fast_Dequeue_next [OF inv lt, of throws] obtain q' s' fs' ls' where
      "FastQueue_Dequeue (2 ^ k) throws q s = Some (if throws (f hn) then Exn else Ret (Some (f hn)), q', s')"
      "fast_inv k V q' s' (Suc hn) tn f fs' ls'" "\<forall>a \<in> V. blk s' a = blk s a" by blast
    with fast_relI [OF _ proto] show ?thesis using lt by (auto simp: xs contents_pop)
  qed
qed

theorem FastQueue_Dequeue_correct_witness:
  "\<exists>(q :: fastq) (s :: nat mem). FastQueue_new 2 (empty_mem 50) = Some (q, s)
    \<and> FastQueue_Dequeue 2 (\<lambda>_. False) q s = Some (Ret None, q, s)"
proof -
  obtain q and s :: "nat mem" where q: "FastQueue_new 2 (empty_mem 50) = Some (q, s)"
    "fast_rel 1 (new_block False 2) {} (q, s) ([] :: nat list)" using fast_rel_example by blast
  from FastQueue_Dequeue_correct [OF q(2)] q(1) show ?thesis by auto
qed

section \<open>Whole runs\<close>

text \<open>C2. Refinement: any sequence of enqueues and dequeues of one thread runs to its end, without
  undefined behaviour, and answers as a queue of values does.\<close>

theorem FastQueue_refines_fifo:
  assumes "fast_rel k proto V st xs"
  shows "\<exists>rs st' ys. queue_run (fast_enq k proto mode) (fast_deq k throws) ops st = Some (rs, st')
    \<and> fast_rel k proto V st' ys \<and> fifo_trace throws xs ops rs ys"
  using assms by (rule fast.run_refines)

theorem FastQueue_refines_fifo_witness:
  "\<exists>(q :: fastq) (s :: nat mem) rs st' ys. FastQueue_new 2 (empty_mem 50) = Some (q, s)
    \<and> queue_run (fast_enq 1 (new_block False 2) CanAlloc) (fast_deq 1 (\<lambda>x. x = 2))
        [Enq (Some 1), Enq (Some 2), Enq None, Deq, Enq (Some 3), Deq, Deq, Deq] (q, s) = Some (rs, st')
    \<and> fifo_trace (\<lambda>x. x = 2) [] [Enq (Some 1), Enq (Some 2), Enq None, Deq, Enq (Some 3), Deq, Deq, Deq] rs ys"
proof -
  obtain q and s :: "nat mem" where q: "FastQueue_new 2 (empty_mem 50) = Some (q, s)"
    "fast_rel 1 (new_block False 2) {} (q, s) ([] :: nat list)" using fast_rel_example by blast
  from FastQueue_refines_fifo [OF q(2)] q(1) show ?thesis by blast
qed

text \<open>Conservation: when handing a value out does not throw, the values the queue accepted are,
  in order, those it has handed out followed by those it still holds; nothing is lost, duplicated or
  reordered, whatever enqueues were refused or left by an exception in between.\<close>

theorem FastQueue_conserves:
  assumes "fast_rel k proto V st xs"
  shows "\<exists>rs st' ys. queue_run (fast_enq k proto mode) (fast_deq k (\<lambda>_. False)) ops st = Some (rs, st')
    \<and> fast_rel k proto V st' ys \<and> xs @ accepted ops rs = delivered rs @ ys"
  by (rule fast.run_conserves [OF assms refl])

theorem FastQueue_conserves_witness:
  "\<exists>(q :: fastq) (s :: nat mem) rs st' ys. FastQueue_new 2 (empty_mem 50) = Some (q, s)
    \<and> queue_run (fast_enq 1 (new_block False 2) CanAlloc) (fast_deq 1 (\<lambda>_. False))
        [Enq (Some 1), Enq (Some 2), Deq, Enq (Some 3)] (q, s) = Some (rs, st')
    \<and> accepted [Enq (Some 1), Enq (Some 2), Deq, Enq (Some 3)] rs = delivered rs @ ys"
proof -
  obtain q and s :: "nat mem" where q: "FastQueue_new 2 (empty_mem 50) = Some (q, s)"
    "fast_rel 1 (new_block False 2) {} (q, s) ([] :: nat list)" using fast_rel_example by blast
  from FastQueue_conserves [OF q(2)] q(1) show ?thesis unfolding append_Nil by blast
qed

lemma fast_rel_Size: "fast_rel k proto V (q, s) xs \<Longrightarrow> unat (QueueBase_Size q) = length xs"
proof -
  assume "fast_rel k proto V (q, s) xs"
  then obtain hn tn f fs ls where inv: "fast_inv k V q s hn tn f fs ls"
    and xs: "xs = contents f hn tn" by (rule fast_relE)
  note span = fast_inv_span(1,2) [OF inv]
  show ?thesis
  proof (cases "hn < tn")
    case True
    have "unat (of_nat tn - of_nat hn :: size_t) = tn - hn"
      using span by (intro unat_of_nat_diff) auto
    then show ?thesis
      using True fast_invD(6,7) [OF inv] fast_circ [OF inv] by (simp add: QueueBase_Size_def xs)
  next
    case False
    then show ?thesis
      using span fast_invD(6,7) [OF inv] by (simp add: QueueBase_Size_def xs)
  qed
qed

text \<open>C33. Draining: as many dequeues as the queue holds values hand out all of them in order, and
  leave it empty; afterwards its \<^verbatim>\<open>Size\<close> is 0.\<close>

theorem FastQueue_drain:
  assumes "fast_rel k proto V (q, s) xs"
  shows "\<exists>q' s'. queue_run (fast_enq k proto mode) (fast_deq k throws)
      (replicate (unat (QueueBase_Size q)) Deq) (q, s)
      = Some (List.map (\<lambda>x. DeqResp (if throws x then Exn else Ret (Some x))) xs, (q', s'))
    \<and> QueueBase_Size q' = 0"
proof -
  obtain q' s' where d: "queue_run (fast_enq k proto mode) (fast_deq k throws) (replicate (length xs) Deq) (q, s)
      = Some (List.map (\<lambda>x. DeqResp (if throws x then Exn else Ret (Some x))) xs, (q', s'))"
    "fast_rel k proto V (q', s') []"
    using fast.drain [OF assms] by fastforce
  have "QueueBase_Size q' = 0" using fast_rel_Size [OF d(2)] by (simp add: unat_eq_zero)
  with d(1) show ?thesis by (simp add: fast_rel_Size [OF assms])
qed

theorem FastQueue_drain_witness:
  "\<exists>(q :: fastq) (s :: nat mem) q1 s1 q2 s2. FastQueue_new 2 (empty_mem 50) = Some (q, s)
    \<and> queue_run (fast_enq 1 (new_block False 2) CanAlloc) (fast_deq 1 (\<lambda>_. False)) [Enq (Some 1), Enq (Some 2), Enq (Some 3)] (q, s)
      = Some (replicate 3 (EnqResp (Ret True)), (q1, s1))
    \<and> queue_run (fast_enq 1 (new_block False 2) CanAlloc) (fast_deq 1 (\<lambda>_. False)) (replicate (unat (QueueBase_Size q1)) Deq) (q1, s1)
      = Some ([DeqResp (Ret (Some 1)), DeqResp (Ret (Some 2)), DeqResp (Ret (Some 3))], (q2, s2))
    \<and> QueueBase_Size q2 = 0"
proof -
  let ?ops = "[Enq (Some 1), Enq (Some 2), Enq (Some 3) :: nat qop]"
  obtain q and s :: "nat mem" where q: "FastQueue_new 2 (empty_mem 50) = Some (q, s)"
    "fast_rel 1 (new_block False 2) {} (q, s) ([] :: nat list)" using fast_rel_example by blast
  obtain rs q1 s1 ys where r: "queue_run (fast_enq 1 (new_block False 2) CanAlloc) (fast_deq 1 (\<lambda>_. False)) ?ops (q, s) = Some (rs, (q1, s1))"
    "fast_rel 1 (new_block False 2) {} (q1, s1) ys" "fifo_trace (\<lambda>_. False) [] ?ops rs ys" using fast.run_refines [OF q(2)] by (metis surj_pair)
  have "map_option fst (Option.bind (FastQueue_new 2 (empty_mem 50))
      (queue_run (fast_enq 1 (new_block False 2) CanAlloc) (fast_deq 1 (\<lambda>_. False)) ?ops)) = Some (replicate 3 (EnqResp (Ret True)))" by code_simp
  then have rs: "rs = replicate 3 (EnqResp (Ret True))" unfolding q(1) Option.bind.simps r(1) by simp
  then have "ys = [1, 2, 3]" using r(3) by (simp add: numeral_eq_Suc)
  with FastQueue_drain [OF r(2), of CanAlloc "\<lambda>_. False"] show ?thesis using q(1) r(1) rs by auto
qed

section \<open>Index arrays\<close>

text \<open>Growing the index: \<^verbatim>\<open>CreateNewBlockIndexArray\<close>, called when the array is full, either
  fails and leaves the queue as it was, or doubles the array; in both cases a consumer finds the
  block of the head index where it found it before, and the queue still holds the same values.\<close>

theorem FastQueue_growth_preserves_lookup:
  assumes rel: "fast_rel k proto V (q, s) xs" and ne: "xs \<noteq> []"
    and full: "PO_IndexEntriesUsed q = PO_IndexEntriesSize q"
  shows "\<exists>ok q' s'. FastQueue_CreateNewBlockIndexArray (PO_IndexEntriesUsed q) q s = Some (ok, q', s')
    \<and> fast_rel k proto V (q', s') xs
    \<and> FastQueue_Locate (2 ^ k) q' (HeadIndex q) = FastQueue_Locate (2 ^ k) q (HeadIndex q)
    \<and> FastQueue_Locate (2 ^ k) q (HeadIndex q) \<noteq> None
    \<and> (if ok then PO_IndexEntriesSize q' = 2 * PO_IndexEntriesSize q else q' = q)"
proof -
  from rel obtain hn tn f fs ls where inv: "fast_inv k V q s hn tn f fs ls"
    and xs: "xs = contents f hn tn" and proto: "fresh_proto (2 ^ k) proto" by (rule fast_relE)
  note d = fast_invD [OF inv]
  have lt: "hn < tn" using ne by (simp add: xs contents_def)
  have n: "0 < (2::nat) ^ k" by simp
  obtain a ls' where ls: "ls = a # ls'" by (rule window_head [OF n d(12) lt])
  obtain ok q' s' where c:
    "FastQueue_CreateNewBlockIndexArray (PO_IndexEntriesUsed q) q s = Some (ok, q', s')"
    "mgr_inv (2 ^ k) s' (V \<union> set (fs @ ls))" "blk s' = blk s"
    "index_inv k q' (length (fs @ ls)) (hn div 2 ^ k) ls" "index_only q q'" "\<not> ok \<longrightarrow> q' = q"
    using fast_Create [OF d(3,13) _ fast_inv_span(3) [OF inv]] full by blast
  have inv': "fast_inv k V q' s' hn tn f fs ls"
    by (rule fast_inv_index_only [OF inv c(5,4,2,3)])
  have "FastQueue_Locate (2 ^ k) q' (of_nat hn) = Some (Some a)"
    "FastQueue_Locate (2 ^ k) q (of_nat hn) = Some (Some a)"
    using fast_locate [OF inv' [unfolded ls], of q'] fast_locate [OF inv [unfolded ls], of q] by simp_all
  moreover have "ok \<longrightarrow> PO_IndexEntriesSize q' = 2 * PO_IndexEntriesSize q"
    using c(1) unfolding FastQueue_CreateNewBlockIndexArray_def Let_def
    by (auto split: prod.splits res.splits bind_splits simp: push_bit_eq_mult)
  ultimately show ?thesis using c(1,6) fast_relI [OF inv' proto] d(6) by (simp add: xs)
qed


text \<open>A queue whose index array is full: seven values in four blocks of two slots.\<close>

lemma full_index_example:
  "\<exists>q (s :: nat mem). fast_rel 1 (new_block False 2) {} (q, s) [1, 2, 3, 4, 5, 6, 7]
    \<and> PO_IndexEntriesUsed q = 4 \<and> PO_IndexEntriesSize q = 4"
proof -
  let ?ops = "List.map (Enq \<circ> Some) [1, 2, 3, 4, 5, 6, 7 :: nat]"
  let ?run = "queue_run (fast_enq 1 (new_block False 2) CanAlloc) (fast_deq 1 (\<lambda>_. False)) ?ops"
  obtain q and s :: "nat mem" where q: "FastQueue_new 2 (empty_mem 50) = Some (q, s)"
    "fast_rel 1 (new_block False 2) {} (q, s) ([] :: nat list)" using fast_rel_example by blast
  have "map_option (\<lambda>(rs, q, s). (rs, PO_IndexEntriesUsed q, PO_IndexEntriesSize q))
      (Option.bind (FastQueue_new 2 (empty_mem 50)) ?run) = Some (replicate 7 (EnqResp (Ret True)), 4, 4)"
    by code_simp
  then obtain q' s' where run: "?run (q, s) = Some (replicate 7 (EnqResp (Ret True)), q', s')"
    "PO_IndexEntriesUsed q' = 4" "PO_IndexEntriesSize q' = 4" using q(1) by auto
  obtain rs st ys where r: "?run (q, s) = Some (rs, st)" "fast_rel 1 (new_block False 2) {} st ys"
    "fifo_trace (\<lambda>_. False) [] ?ops rs ys" using fast.run_refines [OF q(2)] by blast
  have rep: "replicate 7 x = [x, x, x, x, x, x, x]" for x :: "nat qresp" by (simp add: eval_nat_numeral)
  have st: "rs = replicate 7 (EnqResp (Ret True))" "st = (q', s')"
    using trans [OF sym [OF r(1)] run(1)] by simp_all
  have "ys = [1, 2, 3, 4, 5, 6, 7]" using r(3) unfolding st rep by simp
  with r(2) st run(2,3) show ?thesis by blast
qed

theorem FastQueue_growth_preserves_lookup_witness:
  "\<exists>q (s :: nat mem) ok q' s'. PO_IndexEntriesUsed q = 4 \<and> PO_IndexEntriesSize q = 4
    \<and> FastQueue_CreateNewBlockIndexArray 4 q s = Some (ok, q', s')
    \<and> FastQueue_Locate 2 q' (HeadIndex q) = FastQueue_Locate 2 q (HeadIndex q)"
proof -
  obtain q and s :: "nat mem" where q: "fast_rel 1 (new_block False 2) {} (q, s) [1, 2, 3, 4, 5, 6, 7]"
    "PO_IndexEntriesUsed q = 4" "PO_IndexEntriesSize q = 4" using full_index_example by blast
  from FastQueue_growth_preserves_lookup [OF q(1)] q(2,3) show ?thesis
    unfolding power_one_right by fastforce
qed

end
