(* ===== verification/Slow_Queue.thy ===== *)
theory Slow_Queue
  imports Fast_Queue
begin

text \<open>
  \<^verbatim>\<open>SlowQueue\<close> of \<^verbatim>\<open>ConcurrentQueue/ConcurrentQueue.h\<close>, the queue of an implicit producer.  A block
  is taken from the manager when the tail enters it and returned as soon as its last element has
  been dequeued; consumers find it through a circular array of pointers to index entries.

  \<open>bs\<close>, \<open>proto\<close>, the constructor arguments and \<open>throws\<close> are as in \<^verbatim>\<open>Fast_Queue\<close>.  The block type has
  a meaningful \<^verbatim>\<open>SetEmpty\<close> result (concept \<^verbatim>\<open>IsBlockWithMeaningfulSetResult\<close>).
\<close>

section \<open>State\<close>

text \<open>
  An index entry is a pair of \<^verbatim>\<open>Key\<close> and \<^verbatim>\<open>Value\<close>.  A pointer to one is \<open>(g, i)\<close>: entry \<open>i\<close> of the
  \<^verbatim>\<open>Entries\<close> of the \<open>g\<close>-th index array, counted from the oldest.  \<open>SA_Index\<close> holds the pointers of an
  array, \<open>None\<close> where nothing has been written; \<open>SA_At\<close> and \<open>SA_IndexAt\<close> are the addresses of
  \<^verbatim>\<open>Entries\<close> and \<^verbatim>\<open>Index\<close>.
\<close>

type_synonym entry_ptr = "nat \<times> nat"
type_synonym slow_entry = "size_t \<times> addr option"

record sarray =
  SA_Self :: addr
  SA_At :: addr
  SA_IndexAt :: addr
  SA_Size :: size_t
  SA_Tail :: size_t
  SA_Index :: "entry_ptr option list"

record slowq = qbase +
  SlowArrays :: "sarray list"
  SlowEntries :: "entry_ptr \<Rightarrow> slow_entry option"
  SlowHasManager :: bool
  IndexEntriesSize :: size_t

definition INVALID_BLOCK_BASE :: size_t where
  "INVALID_BLOCK_BASE = 1"

definition slow_current :: "slowq \<Rightarrow> sarray option" where
  "slow_current q = (case SlowArrays q of [] \<Rightarrow> None | A # _ \<Rightarrow> Some A)"

definition set_slow_tail :: "size_t \<Rightarrow> slowq \<Rightarrow> slowq" where
  "set_slow_tail i q = q\<lparr>SlowArrays := (case SlowArrays q of [] \<Rightarrow> [] | A # As \<Rightarrow> A\<lparr>SA_Tail := i\<rparr> # As)\<rparr>"

definition index_ptr :: "sarray \<Rightarrow> size_t \<Rightarrow> entry_ptr option" where
  "index_ptr A i = (if unat i < length (SA_Index A) then SA_Index A ! unat i else None)"

definition store_Key :: "entry_ptr \<Rightarrow> size_t \<Rightarrow> slowq \<Rightarrow> slowq option" where
  "store_Key p k q = do { (_, v) \<leftarrow> SlowEntries q p;
     Some (q\<lparr>SlowEntries := (SlowEntries q)(p \<mapsto> (k, v))\<rparr>) }"

definition store_Value :: "entry_ptr \<Rightarrow> addr option \<Rightarrow> slowq \<Rightarrow> slowq option" where
  "store_Value p v q = do { (k, _) \<leftarrow> SlowEntries q p;
     Some (q\<lparr>SlowEntries := (SlowEntries q)(p \<mapsto> (k, v))\<rparr>) }"

section \<open>Index arrays\<close>

text \<open>
  \<^verbatim>\<open>CreateNewBlockIndexArray\<close>: three allocations, undone when one of them throws; the pointers of
  the previous array are copied from the oldest to the newest, and fresh entries fill the rest.
\<close>

definition copy_index_body :: "entry_ptr option list \<Rightarrow> size_t \<Rightarrow> size_t
    \<Rightarrow> size_t \<times> size_t \<times> entry_ptr option list
    \<Rightarrow> ((size_t \<times> size_t \<times> entry_ptr option list) + entry_ptr option list) option" where
  "copy_index_body Prev PrevSize Tail = (\<lambda>(i, j, New).
     let i' = (i + 1) AND (PrevSize - 1) in
     if unat i' < length Prev \<and> unat j < length New then
       (let New' = New[unat j := Prev ! unat i']
        in if i' \<noteq> Tail then Some (Inl (i', j + 1, New')) else Some (Inr New'))
     else None)"

fun new_entries :: "nat \<Rightarrow> nat \<Rightarrow> size_t \<Rightarrow> size_t \<Rightarrow> entry_ptr option list \<Rightarrow> (entry_ptr \<Rightarrow> slow_entry option)
    \<Rightarrow> (entry_ptr option list \<times> (entry_ptr \<Rightarrow> slow_entry option)) option" where
  "new_entries g 0 i PrevSize New E = Some (New, E)"
| "new_entries g (Suc n) i PrevSize New E =
     (if unat (PrevSize + i) < length New
      then new_entries g n (i + 1) PrevSize (New[unat (PrevSize + i) := Some (g, unat i)])
             (E((g, unat i) \<mapsto> (INVALID_BLOCK_BASE, None)))
      else None)"

definition SlowQueue_CreateNewBlockIndexArray ::
  "slowq \<Rightarrow> 'a mem \<Rightarrow> (bool \<times> slowq \<times> 'a mem) option" where
  "SlowQueue_CreateNewBlockIndexArray q s =
    (let Prev = slow_current q;
         PrevSize = (case Prev of None \<Rightarrow> 0 | Some P \<Rightarrow> SA_Size P);
         EntryCount = (if Prev = None then IndexEntriesSize q else PrevSize);
         g = length (SlowArrays q) in
     case Allocate 1 (Hp s) of
       (Exn, h1) \<Rightarrow> Some (False, q, s\<lparr>Hp := h1\<rparr>)
     | (Ret self, h1) \<Rightarrow>
        (case Allocate (unat EntryCount) h1 of
           (Exn, h2) \<Rightarrow> do {
             h3 \<leftarrow> Deallocate (Some self) 1 h2;
             Some (False, q, s\<lparr>Hp := h3\<rparr>) }
         | (Ret at, h2) \<Rightarrow>
            (case Allocate (unat (IndexEntriesSize q)) h2 of
               (Exn, h3) \<Rightarrow> do {
                 h4 \<leftarrow> Deallocate (Some self) 1 h3;
                 h5 \<leftarrow> Deallocate (Some at) (unat EntryCount) h4;
                 Some (False, q, s\<lparr>Hp := h5\<rparr>) }
             | (Ret iat, h3) \<Rightarrow> do {
                 let New = replicate (unat (IndexEntriesSize q)) None;
                 New1 \<leftarrow> (case Prev of None \<Rightarrow> Some New
                   | Some P \<Rightarrow> loop (copy_index_body (SA_Index P) PrevSize (SA_Tail P)) (SA_Tail P, 0, New));
                 (New2, E) \<leftarrow> new_entries g (unat EntryCount) 0 PrevSize New1 (SlowEntries q);
                 Some (True, q\<lparr>SlowArrays := \<lparr>SA_Self = self, SA_At = at, SA_IndexAt = iat,
                     SA_Size = IndexEntriesSize q,
                     SA_Tail = (PrevSize - 1) AND (IndexEntriesSize q - 1),
                     SA_Index = New2\<rparr> # SlowArrays q,
                   SlowEntries := E, IndexEntriesSize := push_bit 1 (IndexEntriesSize q)\<rparr>,
                   s\<lparr>Hp := h3\<rparr>) })))"

definition SlowQueue_new :: "size_t \<Rightarrow> 'a mem \<Rightarrow> (slowq \<times> 'a mem) option" where
  "SlowQueue_new InSize s =
    (let InitialSize = drop_bit 1 (CeilToPow2 InSize);
         InitialSize = (if InitialSize < 2 then 2 else InitialSize);
         q = \<lparr>HeadIndex = 0, TailIndex = 0, DequeueAttemptsCount = 0, DequeueFailedCount = 0,
              TailBlock = None, SlowArrays = [], SlowEntries = Map.empty, SlowHasManager = True,
              IndexEntriesSize = InitialSize\<rparr>
     in do { (_, q, s) \<leftarrow> SlowQueue_CreateNewBlockIndexArray q s; Some (q, s) })"

text \<open>
  \<^verbatim>\<open>InsertBlockIndexEntry\<close> gives the entry after the newest one the key \<open>BlockStartIndex\<close>, if that
  entry is free, or else grows the index first.  It returns the entry, or nothing where the code
  returns false.
\<close>

definition take_index_slot :: "size_t \<Rightarrow> sarray \<Rightarrow> size_t \<Rightarrow> entry_ptr \<Rightarrow> slowq \<Rightarrow> (entry_ptr option \<times> slowq) option" where
  "take_index_slot BlockStartIndex A NewTail p q = do {
     q1 \<leftarrow> store_Key p BlockStartIndex q;
     Some (Some p, set_slow_tail NewTail q1) }"

definition InsertBlockIndexEntry :: "AllocMode \<Rightarrow> size_t \<Rightarrow> slowq \<Rightarrow> 'a mem
    \<Rightarrow> (entry_ptr option \<times> slowq \<times> 'a mem) option" where
  "InsertBlockIndexEntry Mode BlockStartIndex q s =
    (case slow_current q of None \<Rightarrow> Some (None, q, s)
     | Some A \<Rightarrow> do {
         let NewTail = (SA_Tail A + 1) AND (SA_Size A - 1);
         p \<leftarrow> index_ptr A NewTail;
         (Key, Value) \<leftarrow> SlowEntries q p;
         if Key = INVALID_BLOCK_BASE \<or> Value = None then do {
           (r, q1) \<leftarrow> take_index_slot BlockStartIndex A NewTail p q;
           Some (r, q1, s) }
         else if Mode = CannotAlloc then Some (None, q, s)
         else do {
           (ok, q1, s1) \<leftarrow> SlowQueue_CreateNewBlockIndexArray q s;
           if \<not> ok then Some (None, q1, s1)
           else do {
             A \<leftarrow> slow_current q1;
             let NewTail = (SA_Tail A + 1) AND (SA_Size A - 1);
             p \<leftarrow> index_ptr A NewTail;
             (r, q2) \<leftarrow> take_index_slot BlockStartIndex A NewTail p q1;
             Some (r, q2, s1) } } })"

definition RewindBlockIndexTail :: "slowq \<Rightarrow> slowq option" where
  "RewindBlockIndexTail q = do { A \<leftarrow> slow_current q;
     Some (set_slow_tail ((SA_Tail A - 1) AND (SA_Size A - 1)) q) }"

text \<open>
  \<^verbatim>\<open>GetBlockIndexIndexForIndex\<close> also returns the array it read; \<^verbatim>\<open>GetBlockIndexEntryForIndex\<close>
  follows the pointer found there.
\<close>

definition GetBlockIndexIndexForIndex :: "size_t \<Rightarrow> slowq \<Rightarrow> size_t \<Rightarrow> (size_t \<times> sarray) option" where
  "GetBlockIndexIndexForIndex bs q Index = do {
     A \<leftarrow> slow_current q;
     let Tail = SA_Tail A;
     p \<leftarrow> index_ptr A Tail;
     (TailBase, _) \<leftarrow> SlowEntries q p;
     let Offset = drop_bit (BlockSizeLog2 bs) ((Index AND NOT (bs - 1)) - TailBase);
     Some ((Tail + Offset) AND (SA_Size A - 1), A) }"

definition GetBlockIndexEntryForIndex :: "size_t \<Rightarrow> slowq \<Rightarrow> size_t \<Rightarrow> entry_ptr option" where
  "GetBlockIndexEntryForIndex bs q Index = do {
     (BlockIndex, A) \<leftarrow> GetBlockIndexIndexForIndex bs q Index;
     index_ptr A BlockIndex }"

section \<open>Enqueue\<close>

text \<open>
  The code has two orders for the new block, chosen by whether the constructor can throw: construct
  the element and then publish the block, or publish and then construct.  The model is the first;
  without an exception both reach the same state.  An exception of \<^verbatim>\<open>RequisitionBlock\<close> is not caught.
\<close>

definition SlowQueue_Enqueue :: "size_t \<Rightarrow> 'a block \<Rightarrow> AllocMode \<Rightarrow> 'a option \<Rightarrow> slowq \<Rightarrow> 'a mem
    \<Rightarrow> (bool res \<times> slowq \<times> 'a mem) option" where
  "SlowQueue_Enqueue bs proto Mode arg q s =
    (let CurrentTailIndex = TailIndex q;
         NewTailIndex = CurrentTailIndex + 1;
         InnerIndex = CurrentTailIndex AND (bs - 1) in
     if InnerIndex = 0 then
       (if \<not> CircularLessThan (HeadIndex q) (CurrentTailIndex + bs) then Some (Ret False, q, s)
        else do {
          (e, q1, s1) \<leftarrow> InsertBlockIndexEntry Mode CurrentTailIndex q s;
          case e of None \<Rightarrow> Some (Ret False, q1, s1)
          | Some NewIndexEntry \<Rightarrow>
             if \<not> SlowHasManager q1 then None
             else do {
               (r, s2) \<leftarrow> RequisitionBlock proto Mode s1;
               case r of Exn \<Rightarrow> Some (Exn, q1, s2)
               | Ret None \<Rightarrow> do {
                   q2 \<leftarrow> RewindBlockIndexTail q1;
                   q3 \<leftarrow> store_Value NewIndexEntry None q2;
                   Some (Ret False, q3, s2) }
               | Ret (Some NewBlock) \<Rightarrow> do {
                   s3 \<leftarrow> Block_Reset (Some NewBlock) s2;
                   case arg of
                     None \<Rightarrow> do {
                       q2 \<leftarrow> RewindBlockIndexTail q1;
                       q3 \<leftarrow> store_Value NewIndexEntry None q2;
                       s4 \<leftarrow> ReturnBlock NewBlock s3;
                       Some (Exn, q3, s4) }
                   | Some v \<Rightarrow> do {
                       s4 \<leftarrow> Slot_construct (Some NewBlock) InnerIndex v s3;
                       q2 \<leftarrow> store_Value NewIndexEntry (Some NewBlock) q1;
                       Some (Ret True, q2\<lparr>TailBlock := Some NewBlock, TailIndex := NewTailIndex\<rparr>, s4) } } } })
     else (case arg of
         None \<Rightarrow> Some (Exn, q, s)
       | Some v \<Rightarrow> do {
           s1 \<leftarrow> Slot_construct (TailBlock q) InnerIndex v s;
           Some (Ret True, q\<lparr>TailIndex := NewTailIndex\<rparr>, s1) }))"

section \<open>Dequeue\<close>

text \<open>
  What follows the last element of a block: forget it in the index and return it to the manager.
\<close>

definition Retire :: "bool \<Rightarrow> entry_ptr \<Rightarrow> addr option \<Rightarrow> slowq \<Rightarrow> 'a mem \<Rightarrow> (slowq \<times> 'a mem) option" where
  "Retire nowEmpty Entry Block q s =
     (if nowEmpty then do {
        q1 \<leftarrow> store_Value Entry None q;
        a \<leftarrow> Block;
        s1 \<leftarrow> (if SlowHasManager q then ReturnBlock a s else None);
        Some (q1, s1) }
      else Some (q, s))"

definition SlowQueue_Dequeue :: "size_t \<Rightarrow> ('a \<Rightarrow> bool) \<Rightarrow> slowq \<Rightarrow> 'a mem
    \<Rightarrow> ('a option res \<times> slowq \<times> 'a mem) option" where
  "SlowQueue_Dequeue bs throws q s =
    (let FailedCount = DequeueFailedCount q in
     if CircularLessThan (DequeueAttemptsCount q - FailedCount) (TailIndex q) then
       (let AttemptsCount = DequeueAttemptsCount q;
            q1 = q\<lparr>DequeueAttemptsCount := DequeueAttemptsCount q + 1\<rparr> in
        if CircularLessThan (AttemptsCount - FailedCount) (TailIndex q1) then
          (let Index = HeadIndex q1;
               q2 = q1\<lparr>HeadIndex := HeadIndex q1 + 1\<rparr>;
               InnerIndex = Index AND (bs - 1) in
           do {
             Entry \<leftarrow> GetBlockIndexEntryForIndex bs q2 Index;
             (_, Block) \<leftarrow> SlowEntries q2 Entry;
             Value \<leftarrow> Slot_read Block InnerIndex s;
             s1 \<leftarrow> Slot_destroy Block InnerIndex s;
             (e, s2) \<leftarrow> Block_SetEmpty bs Block InnerIndex s1;
             (q3, s3) \<leftarrow> Retire e Entry Block q2 s2;
             Some (if throws Value then Exn else Ret (Some Value), q3, s3) })
        else Some (Ret None, q1\<lparr>DequeueFailedCount := DequeueFailedCount q1 + 1\<rparr>, s))
     else Some (Ret None, q, s))"

section \<open>EnqueueBulk\<close>

text \<open>
  The lambda \<^verbatim>\<open>RollBack\<close>: walk the chain of the blocks allocated so far, clear their entries and
  rewind the index once for each, then return the whole chain.
\<close>

definition SlowRollBack_body :: "size_t \<Rightarrow> 'a mem \<Rightarrow> addr option \<times> size_t \<times> slowq
    \<Rightarrow> ((addr option \<times> size_t \<times> slowq) + slowq) option" where
  "SlowRollBack_body bs s = (\<lambda>(Block, CurrentTailIndex, q).
     if Block = None then Some (Inr q)
     else do {
       let CurrentTailIndex = CurrentTailIndex + bs;
       e \<leftarrow> GetBlockIndexEntryForIndex bs q CurrentTailIndex;
       q1 \<leftarrow> store_Value e None q;
       q2 \<leftarrow> RewindBlockIndexTail q1;
       n \<leftarrow> Block_next Block s;
       Some (Inl (n, CurrentTailIndex, q2)) })"

definition SlowRollBack :: "size_t \<Rightarrow> addr option \<Rightarrow> size_t \<Rightarrow> addr option \<Rightarrow> slowq \<Rightarrow> 'a mem
    \<Rightarrow> (slowq \<times> 'a mem) option" where
  "SlowRollBack bs FirstAllocatedBlock OriginTailIndex OriginTailBlock q s = do {
     q1 \<leftarrow> loop (SlowRollBack_body bs s)
       (FirstAllocatedBlock, (OriginTailIndex - 1) AND NOT (bs - 1), q);
     s1 \<leftarrow> (if SlowHasManager q1 then ReturnBlocks FirstAllocatedBlock s else None);
     Some (q1\<lparr>TailBlock := OriginTailBlock\<rparr>, s1) }"

text \<open>The allocation loop; its state is \<^verbatim>\<open>NeedCount\<close>, \<^verbatim>\<open>CurrentTailIndex\<close> and \<^verbatim>\<open>FirstAllocatedBlock\<close>.\<close>

definition SlowBulk_fail :: "size_t \<Rightarrow> addr option \<Rightarrow> size_t \<Rightarrow> addr option \<Rightarrow> slowq \<Rightarrow> 'a mem
    \<Rightarrow> ('l + ((bool res \<times> slowq \<times> 'a mem) + 'r)) option" where
  "SlowBulk_fail bs FirstBlock OriginTailIndex OriginTailBlock q s = do {
     (q1, s1) \<leftarrow> SlowRollBack bs FirstBlock OriginTailIndex OriginTailBlock q s;
     Some (Inr (Inl (Ret False, q1, s1))) }"

definition SlowBulk_body :: "size_t \<Rightarrow> 'a block \<Rightarrow> AllocMode \<Rightarrow> size_t \<Rightarrow> addr option
    \<Rightarrow> size_t \<times> size_t \<times> addr option \<times> slowq \<times> 'a mem
    \<Rightarrow> ((size_t \<times> size_t \<times> addr option \<times> slowq \<times> 'a mem)
         + ((bool res \<times> slowq \<times> 'a mem) + (addr option \<times> slowq \<times> 'a mem))) option" where
  "SlowBulk_body bs proto Mode OriginTailIndex OriginTailBlock = (\<lambda>(NeedCount, CurrentTailIndex, FirstBlock, q, s).
     if NeedCount = 0 then Some (Inr (Inr (FirstBlock, q, s)))
     else let CurrentTailIndex = CurrentTailIndex + bs; NeedCount = NeedCount - 1 in
       if \<not> CircularLessThan (HeadIndex q) (CurrentTailIndex + bs)
       then SlowBulk_fail bs FirstBlock OriginTailIndex OriginTailBlock q s
       else do {
         (e, q1, s1) \<leftarrow> InsertBlockIndexEntry Mode CurrentTailIndex q s;
         case e of None \<Rightarrow> SlowBulk_fail bs FirstBlock OriginTailIndex OriginTailBlock q1 s1
         | Some IndexEntry \<Rightarrow>
            if \<not> SlowHasManager q1 then None
            else do {
              (r, s2) \<leftarrow> RequisitionBlock proto Mode s1;
              case r of Exn \<Rightarrow> Some (Inr (Inl (Exn, q1, s2)))
              | Ret None \<Rightarrow> do {
                  q2 \<leftarrow> RewindBlockIndexTail q1;
                  q3 \<leftarrow> store_Value IndexEntry None q2;
                  SlowBulk_fail bs FirstBlock OriginTailIndex OriginTailBlock q3 s2 }
              | Ret (Some NewBlock) \<Rightarrow> do {
                  s3 \<leftarrow> Block_Reset (Some NewBlock) s2;
                  s4 \<leftarrow> Block_set_next (Some NewBlock) None s3;
                  q2 \<leftarrow> store_Value IndexEntry (Some NewBlock) q1;
                  s5 \<leftarrow> (if OriginTailIndex AND (bs - 1) \<noteq> 0 \<or> FirstBlock \<noteq> None
                        then Block_set_next (TailBlock q2) (Some NewBlock) s4 else Some s4);
                  Some (Inl (NeedCount, CurrentTailIndex,
                    (if FirstBlock = None then Some NewBlock else FirstBlock),
                    q2\<lparr>TailBlock := Some NewBlock\<rparr>, s5)) } } })"

definition SlowQueue_EnqueueBulk :: "size_t \<Rightarrow> 'a block \<Rightarrow> AllocMode \<Rightarrow> 'a option list \<Rightarrow> size_t
    \<Rightarrow> slowq \<Rightarrow> 'a mem \<Rightarrow> (bool res \<times> slowq \<times> 'a mem) option" where
  "SlowQueue_EnqueueBulk bs proto Mode args Count q s =
    (let OriginTailIndex = TailIndex q;
         OriginTailBlock = TailBlock q;
         lg = BlockSizeLog2 bs;
         NeedCount = drop_bit lg (OriginTailIndex + Count - 1) - signed_drop_bit lg (OriginTailIndex - 1);
         CurrentTailIndex = (OriginTailIndex - 1) AND NOT (bs - 1) in
     do {
       r \<leftarrow> loop (SlowBulk_body bs proto Mode OriginTailIndex OriginTailBlock)
              (NeedCount, CurrentTailIndex, None, q, s);
       case r of Inl early \<Rightarrow> Some early
       | Inr (FirstBlock, q, s) \<Rightarrow> do {
           let StartInnerIndex = OriginTailIndex AND (bs - 1);
           let StartBlock = (if StartInnerIndex = 0 \<and> FirstBlock \<noteq> None then FirstBlock else OriginTailBlock);
           (ok, b, i, s1) \<leftarrow> loop (FillBlocks_body bs OriginTailIndex Count (TailBlock q))
                              (StartBlock, StartInnerIndex, args, s);
           if ok then Some (Ret True, q\<lparr>TailIndex := OriginTailIndex + Count\<rparr>, s1)
           else do {
             s2 \<leftarrow> loop (DestroyBlocks_body bs b i) (StartBlock, StartInnerIndex, s1);
             (q1, s3) \<leftarrow> SlowRollBack bs FirstBlock OriginTailIndex OriginTailBlock q s2;
             Some (Exn, q1, s3) } } })"

section \<open>DequeueBulk\<close>

text \<open>
  As in \<^verbatim>\<open>FastQueue\<close>, but the next block is the one of the next index entry, and a block that has
  become empty is retired.  \<open>A\<close> is the index array read at the start.
\<close>

definition SlowDrain_body :: "size_t \<Rightarrow> sarray
    \<Rightarrow> entry_ptr \<times> addr option \<times> size_t \<times> size_t \<times> size_t \<times> size_t \<times> size_t \<times> slowq \<times> 'a mem
    \<Rightarrow> ((entry_ptr \<times> addr option \<times> size_t \<times> size_t \<times> size_t \<times> size_t \<times> size_t \<times> slowq \<times> 'a mem)
         + (slowq \<times> 'a mem)) option" where
  "SlowDrain_body bs A = (\<lambda>(Entry, DequeueBlock, IndexEntryIndex, StartIndex, CurrentIndex, EndIndex, NeedCount, q, s).
     do {
       (NeedCount, s1) \<leftarrow> loop (Drain_range_body DequeueBlock EndIndex) (CurrentIndex, NeedCount, s);
       (e, s2) \<leftarrow> Block_SetSomeEmpty bs DequeueBlock StartIndex (EndIndex - StartIndex) s1;
       (q1, s3) \<leftarrow> Retire e Entry DequeueBlock q s2;
       let IndexEntryIndex = (IndexEntryIndex + 1) AND (SA_Size A - 1);
       if NeedCount \<noteq> 0 then do {
         Entry \<leftarrow> index_ptr A IndexEntryIndex;
         (_, DequeueBlock) \<leftarrow> SlowEntries q1 Entry;
         Some (Inl (Entry, DequeueBlock, IndexEntryIndex, 0, 0, EndOf bs 0 NeedCount, NeedCount, q1, s3)) }
       else Some (Inr (q1, s3)) })"

definition SlowTakeBlocks_body :: "size_t \<Rightarrow> ('a \<Rightarrow> bool) \<Rightarrow> sarray
    \<Rightarrow> size_t \<times> size_t \<times> size_t \<times> 'a list \<times> slowq \<times> 'a mem
    \<Rightarrow> ((size_t \<times> size_t \<times> size_t \<times> 'a list \<times> slowq \<times> 'a mem)
         + (bool \<times> 'a list \<times> slowq \<times> 'a mem)) option" where
  "SlowTakeBlocks_body bs throws A = (\<lambda>(IndexEntryIndex, StartIndex, NeedCount, out, q, s).
     if NeedCount \<noteq> 0 then do {
       Entry \<leftarrow> index_ptr A IndexEntryIndex;
       (_, DequeueBlock) \<leftarrow> SlowEntries q Entry;
       let EndIndex = EndOf bs StartIndex NeedCount;
       (ok, CurrentIndex, NeedCount, out, s1) \<leftarrow>
         loop (Take_body throws DequeueBlock EndIndex) (StartIndex, NeedCount, out, s);
       if \<not> ok then do {
         (q2, s2) \<leftarrow> loop (SlowDrain_body bs A)
           (Entry, DequeueBlock, IndexEntryIndex, StartIndex, CurrentIndex, EndIndex, NeedCount, q, s1);
         Some (Inr (False, out, q2, s2)) }
       else do {
         (e, s2) \<leftarrow> Block_SetSomeEmpty bs DequeueBlock StartIndex (EndIndex - StartIndex) s1;
         (q1, s3) \<leftarrow> Retire e Entry DequeueBlock q s2;
         Some (Inl ((IndexEntryIndex + 1) AND (SA_Size A - 1), 0, NeedCount, out, q1, s3)) } }
     else Some (Inr (True, out, q, s)))"

definition SlowQueue_DequeueBulk :: "size_t \<Rightarrow> ('a \<Rightarrow> bool) \<Rightarrow> size_t \<Rightarrow> slowq \<Rightarrow> 'a mem
    \<Rightarrow> (size_t res \<times> 'a list \<times> slowq \<times> 'a mem) option" where
  "SlowQueue_DequeueBulk bs throws MaxCount q s =
    (let FailedCount = DequeueFailedCount q;
         DesiredCount = TailIndex q - (DequeueAttemptsCount q - FailedCount) in
     if CircularLessThan 0 DesiredCount then
       (let DesiredCount = min DesiredCount MaxCount;
            AttemptsCount = DequeueAttemptsCount q;
            q1 = q\<lparr>DequeueAttemptsCount := DequeueAttemptsCount q + DesiredCount\<rparr>;
            ActualCount = TailIndex q1 - (AttemptsCount - FailedCount) in
        if CircularLessThan 0 ActualCount then
          (let ActualCount = min ActualCount DesiredCount;
               q2 = (if ActualCount < DesiredCount
                     then q1\<lparr>DequeueFailedCount := DequeueFailedCount q1 + (DesiredCount - ActualCount)\<rparr>
                     else q1);
               Index = HeadIndex q2;
               q3 = q2\<lparr>HeadIndex := HeadIndex q2 + ActualCount\<rparr> in
           do {
             (IndexEntryIndex, A) \<leftarrow> GetBlockIndexIndexForIndex bs q3 Index;
             (ok, out, q4, s1) \<leftarrow> loop (SlowTakeBlocks_body bs throws A)
               (IndexEntryIndex, Index AND (bs - 1), ActualCount, [], q3, s);
             Some (if ok then Ret ActualCount else Exn, out, q4, s1) })
        else Some (Ret 0, [], q1\<lparr>DequeueFailedCount := DequeueFailedCount q1 + DesiredCount\<rparr>, s))
     else Some (Ret 0, [], q, s))"

section \<open>Clear, Reset, move and swap\<close>

text \<open>\<^verbatim>\<open>Clear\<close>: destroy the elements block by block, returning each block after its last element.\<close>

definition SlowClear_body :: "size_t \<Rightarrow> slowq \<Rightarrow> size_t \<times> addr option \<times> 'a mem
    \<Rightarrow> ((size_t \<times> addr option \<times> 'a mem) + 'a mem) option" where
  "SlowClear_body bs q = (\<lambda>(Index, Block, s).
     if Index \<noteq> TailIndex q then do {
       let InnerIndex = Index AND (bs - 1);
       Block \<leftarrow> (if InnerIndex = 0 \<or> Block = None
                then do { e \<leftarrow> GetBlockIndexEntryForIndex bs q Index; (_, b) \<leftarrow> SlowEntries q e; Some b }
                else Some Block);
       s1 \<leftarrow> Slot_destroy Block InnerIndex s;
       s2 \<leftarrow> (if InnerIndex = bs - 1 \<or> Index = TailIndex q - 1
             then do { a \<leftarrow> Block; if SlowHasManager q then ReturnBlock a s1 else None }
             else Some s1);
       Some (Inl (Index + 1, Block, s2)) }
     else Some (Inr s))"

fun DestroyEntries :: "nat \<Rightarrow> size_t \<Rightarrow> sarray \<Rightarrow> (entry_ptr \<Rightarrow> slow_entry option)
    \<Rightarrow> (entry_ptr \<Rightarrow> slow_entry option) option" where
  "DestroyEntries 0 i A E = Some E"
| "DestroyEntries (Suc n) i A E = do {
     p \<leftarrow> index_ptr A i;
     _ \<leftarrow> E p;
     DestroyEntries n (i + 1) A (E(p := None)) }"

fun FreeSlowArrays :: "sarray list \<Rightarrow> 'a heap \<Rightarrow> 'a heap option" where
  "FreeSlowArrays [] h = Some h"
| "FreeSlowArrays (A # As) h = do {
     h1 \<leftarrow> Deallocate (Some (SA_IndexAt A)) (unat (SA_Size A)) h;
     h2 \<leftarrow> Deallocate (Some (SA_At A))
            (unat (if As = [] then SA_Size A else drop_bit 1 (SA_Size A))) h1;
     h3 \<leftarrow> Deallocate (Some (SA_Self A)) 1 h2;
     FreeSlowArrays As h3 }"

definition SlowQueue_Clear :: "size_t \<Rightarrow> slowq \<Rightarrow> 'a mem \<Rightarrow> 'a mem option" where
  "SlowQueue_Clear bs q s = do {
     s1 \<leftarrow> loop (SlowClear_body bs q) (HeadIndex q, None, s);
     _ \<leftarrow> (case slow_current q of None \<Rightarrow> Some (SlowEntries q)
          | Some A \<Rightarrow> DestroyEntries (unat (SA_Size A)) 0 A (SlowEntries q));
     h \<leftarrow> FreeSlowArrays (SlowArrays q) (Hp s1);
     Some (s1\<lparr>Hp := h\<rparr>) }"

definition SlowQueue_Reset :: "slowq \<Rightarrow> slowq" where
  "SlowQueue_Reset q = (QueueBase_Reset q)\<lparr>SlowArrays := [], SlowEntries := Map.empty,
     SlowHasManager := False, IndexEntriesSize := 0\<rparr>"

definition SlowQueue_move :: "slowq \<Rightarrow> slowq \<times> slowq" where
  "SlowQueue_move Other = (Other, SlowQueue_Reset Other)"

definition SlowQueue_move_assign ::
  "size_t \<Rightarrow> slowq \<Rightarrow> slowq \<Rightarrow> 'a mem \<Rightarrow> (slowq \<times> slowq \<times> 'a mem) option" where
  "SlowQueue_move_assign bs this Other s = do {
     s1 \<leftarrow> SlowQueue_Clear bs this s;
     Some (Other, SlowQueue_Reset Other, s1) }"

definition SlowQueue_swap :: "slowq \<Rightarrow> slowq \<Rightarrow> slowq \<times> slowq" where
  "SlowQueue_swap this Other =
     (let (b, b') = QueueBase_swap (qbase.truncate this) (qbase.truncate Other);
          (arr, arr') = SwapRelaxed (SlowArrays this) (SlowArrays Other)
      in (qbase.extend b (slowq.fields arr (SlowEntries Other) (SlowHasManager Other) (IndexEntriesSize Other)),
          qbase.extend b' (slowq.fields arr' (SlowEntries this) (SlowHasManager this) (IndexEntriesSize this))))"

end
