(* ===== verification/Slow_Queue_Correct.thy ===== *)
theory Slow_Queue_Correct
  imports Slow_Queue Index_Arith Fifo
begin

text \<open>
  The invariant of \<^verbatim>\<open>SlowQueue\<close> and the correctness of its single-element operations.  The ghost
  state is as for \<^verbatim>\<open>FastQueue\<close>, without a ring: the queue holds exactly the blocks \<open>ls\<close> of the
  elements between the head and the tail index.
\<close>

section \<open>The index\<close>

text \<open>
  The circular array \<open>ps\<close> of \<open>M\<close> pointers, \<open>nx\<close> the position after the newest entry: the entry
  \<open>length ls - i\<close> steps back has the key and the block of \<open>ls ! i\<close>, every other entry is free.
\<close>

definition slow_index :: "nat \<Rightarrow> nat \<Rightarrow> nat \<Rightarrow> nat \<Rightarrow> addr list \<Rightarrow> nat \<Rightarrow> entry_ptr list
    \<Rightarrow> (entry_ptr \<Rightarrow> slow_entry option) \<Rightarrow> bool" where
  "slow_index M n nx j0 ls g ps E \<longleftrightarrow> length ps = M \<and> distinct ps \<and> nx < M \<and> length ls \<le> M
     \<and> (\<forall>p \<in> set ps. fst p < g)
     \<and> (\<forall>i < length ls. E (ps ! ix M nx (length ls - i)) = Some (of_nat ((j0 + i) * n), Some (ls ! i)))
     \<and> (\<forall>d. length ls < d \<and> d \<le> M \<longrightarrow> (\<exists>key. E (ps ! ix M nx d) = Some (key, None)))"

lemma slow_indexD:
  assumes "slow_index M n nx j0 ls g ps E"
  shows "length ps = M" "distinct ps" "nx < M" "length ls \<le> M" "0 < M"
    "\<And>p. p \<in> set ps \<Longrightarrow> fst p < g"
    "\<And>i. i < length ls \<Longrightarrow> E (ps ! ix M nx (length ls - i)) = Some (of_nat ((j0 + i) * n), Some (ls ! i))"
    "\<And>d. length ls < d \<Longrightarrow> d \<le> M \<Longrightarrow> \<exists>key. E (ps ! ix M nx d) = Some (key, None)"
    "\<And>d. ix M nx d < length ps"
proof -
  show M: "0 < M" using assms by (auto simp: slow_index_def)
  show "ix M nx d < length ps" for d using ix_less [OF M] assms by (simp add: slow_index_def)
qed (use assms in \<open>simp_all add: slow_index_def\<close>)

lemma ix_full: "nx < M \<Longrightarrow> ix M nx M = nx"
  by (simp add: ix_def)

lemma slow_index_ptr_eq:
  assumes "slow_index M n nx j0 ls g ps E" "0 < d" "d \<le> M" "0 < d'" "d' \<le> M"
  shows "ps ! ix M nx d = ps ! ix M nx d' \<longleftrightarrow> d = d'"
  using ix_inj [of d M d' nx] assms slow_indexD(2,3,9) [OF assms(1)] by (auto simp: nth_eq_iff_index_eq)

text \<open>Whatever the key of a free entry is, the index is the same.\<close>

lemma slow_index_free:
  assumes i: "slow_index M n nx j0 ls g ps E" and d: "length ls < d" "d \<le> M"
  shows "slow_index M n nx j0 ls g ps (E(ps ! ix M nx d \<mapsto> (key, None)))"
proof -
  note D = slow_indexD [OF i]
  have "ps ! ix M nx x \<noteq> ps ! ix M nx d" if "0 < x" "x \<le> length ls" for x
    using slow_index_ptr_eq [OF i, of x d] that d D(4) by simp
  then show ?thesis using i d unfolding slow_index_def by auto
qed

text \<open>The newest entry gets a block; the oldest loses its block.\<close>

lemma slow_index_snoc:
  assumes i: "slow_index M n nx j0 ls g ps E" and len: "length ls < M"
  shows "slow_index M n ((nx + 1) mod M) j0 (ls @ [a]) g ps
    (E(ps ! nx \<mapsto> (of_nat ((j0 + length ls) * n), Some a)))"
proof -
  note D = slow_indexD [OF i]
  have nx: "ix M nx M = nx" using D(3) by (rule ix_full)
  have ne: "ps ! ix M nx d \<noteq> ps ! nx" if "0 < d" "d < M" for d
    using slow_index_ptr_eq [OF i, of d M] that D(5) nx by simp
  have step: "ix M ((nx + 1) mod M) (Suc d) = ix M nx d" if "d < M" for d using that by (rule ix_Suc_next)
  have zero: "ix M nx 0 = nx" using D(3) by (rule ix_zero)
  show ?thesis
    unfolding slow_index_def
  proof (intro conjI allI impI ballI)
    fix x assume x: "x < length (ls @ [a])"
    show "(E(ps ! nx \<mapsto> (of_nat ((j0 + length ls) * n), Some a)))
        (ps ! ix M ((nx + 1) mod M) (length (ls @ [a]) - x))
        = Some (of_nat ((j0 + x) * n), Some ((ls @ [a]) ! x))"
    proof (cases "x = length ls")
      case True
      then show ?thesis using step [OF D(5)] zero by simp
    next
      case False
      then have "x < length ls" using x by simp
      moreover have "length (ls @ [a]) - x = Suc (length ls - x)" using x by simp
      ultimately show ?thesis
        using step [of "length ls - x"] ne [of "length ls - x"] D(7) [of x] len by (simp add: nth_append)
    qed
  next
    fix d assume "length (ls @ [a]) < d \<and> d \<le> M"
    then obtain d' where d': "d = Suc d'" "length ls < d'" "d' < M" by (cases d) auto
    then show "\<exists>key. (E(ps ! nx \<mapsto> (of_nat ((j0 + length ls) * n), Some a)))
        (ps ! ix M ((nx + 1) mod M) d) = Some (key, None)"
      using step [of d'] ne [of d'] D(8) [of d'] by auto
  qed (use D len in auto)
qed

lemma slow_index_tl:
  assumes i: "slow_index M n nx j0 (a # ls) g ps E"
  shows "slow_index M n nx (Suc j0) ls g ps (E(ps ! ix M nx (Suc (length ls)) \<mapsto> (key, None)))"
proof -
  note D = slow_indexD [OF i]
  have ne: "ps ! ix M nx d \<noteq> ps ! ix M nx (Suc (length ls))" if "0 < d" "d \<le> M" "d \<noteq> Suc (length ls)" for d
    using slow_index_ptr_eq [OF i, of d "Suc (length ls)"] that D(4) by simp
  show ?thesis
    unfolding slow_index_def
  proof (intro conjI allI impI ballI)
    fix x assume x: "x < length ls"
    show "(E(ps ! ix M nx (Suc (length ls)) \<mapsto> (key, None))) (ps ! ix M nx (length ls - x))
        = Some (of_nat ((Suc j0 + x) * n), Some (ls ! x))"
      using D(7) [of "Suc x"] ne [of "length ls - x"] x D(4) by simp
  next
    fix d assume "length ls < d \<and> d \<le> M"
    then show "\<exists>key'. (E(ps ! ix M nx (Suc (length ls)) \<mapsto> (key, None))) (ps ! ix M nx d) = Some (key', None)"
      using D(8) [of d] ne [of d] by (cases "d = Suc (length ls)") auto
  qed (use D in auto)
qed

text \<open>
  The index of a queue.  Without an array (the constructor could not allocate one) it holds no block.
\<close>

definition slow_array :: "nat \<Rightarrow> slowq \<Rightarrow> nat \<Rightarrow> nat \<Rightarrow> entry_ptr list \<Rightarrow> size_t \<Rightarrow> bool" where
  "slow_array k q m nx ps t \<longleftrightarrow> 1 \<le> m \<and> m + k \<le> 64 \<and> m + 1 < 64
     \<and> IndexEntriesSize q = 2 ^ (m + 1)
     \<and> (\<exists>A As. SlowArrays q = A # As \<and> SA_Size A = 2 ^ m \<and> SA_Tail A = t \<and> SA_Index A = List.map Some ps)"

definition slow_index_inv :: "nat \<Rightarrow> slowq \<Rightarrow> nat \<Rightarrow> addr list \<Rightarrow> bool" where
  "slow_index_inv k q j0 ls \<longleftrightarrow> (if SlowArrays q = [] then ls = []
     else \<exists>m nx ps. slow_array k q m nx ps (of_nat (ix (2 ^ m) nx 1))
        \<and> slow_index (2 ^ m) (2 ^ k) nx j0 ls (length (SlowArrays q)) ps (SlowEntries q))"

text \<open>Between \<^verbatim>\<open>InsertBlockIndexEntry\<close> and the store of the block, or the rewind.\<close>

definition slow_pending :: "nat \<Rightarrow> slowq \<Rightarrow> nat \<Rightarrow> addr list \<Rightarrow> entry_ptr \<Rightarrow> bool" where
  "slow_pending k q j0 ls p \<longleftrightarrow> (\<exists>m nx ps. slow_array k q m nx ps (of_nat nx)
     \<and> slow_index (2 ^ m) (2 ^ k) nx j0 ls (length (SlowArrays q)) ps (SlowEntries q)
     \<and> length ls < 2 ^ m \<and> p = ps ! nx
     \<and> SlowEntries q p = Some (of_nat ((j0 + length ls) * 2 ^ k), None))"

definition slow_only :: "slowq \<Rightarrow> slowq \<Rightarrow> bool" where
  "slow_only q q' \<longleftrightarrow> HeadIndex q' = HeadIndex q \<and> TailIndex q' = TailIndex q
     \<and> DequeueAttemptsCount q' = DequeueAttemptsCount q \<and> DequeueFailedCount q' = DequeueFailedCount q
     \<and> TailBlock q' = TailBlock q \<and> SlowHasManager q' = SlowHasManager q"

lemma slow_only_refl [simp]: "slow_only q q"
  by (simp add: slow_only_def)

lemma slow_only_trans: "slow_only q q' \<Longrightarrow> slow_only q' q'' \<Longrightarrow> slow_only q q''"
  by (simp add: slow_only_def)

lemma store_Value_eq: "SlowEntries q p = Some (key, w) \<Longrightarrow>
   store_Value p v q = Some (q\<lparr>SlowEntries := (SlowEntries q)(p \<mapsto> (key, v))\<rparr>)"
  by (simp add: store_Value_def)

lemma slow_publish:
  assumes "slow_pending k q j0 ls p"
  shows "\<exists>q'. store_Value p (Some a) q = Some q' \<and> slow_index_inv k q' j0 (ls @ [a]) \<and> slow_only q q'"
proof -
  obtain m nx ps where p: "slow_array k q m nx ps (of_nat nx)"
    "slow_index (2 ^ m) (2 ^ k) nx j0 ls (length (SlowArrays q)) ps (SlowEntries q)"
    "length ls < 2 ^ m" "p = ps ! nx" "SlowEntries q p = Some (of_nat ((j0 + length ls) * 2 ^ k), None)"
    using assms unfolding slow_pending_def by blast
  let ?q = "q\<lparr>SlowEntries := (SlowEntries q)(p \<mapsto> (of_nat ((j0 + length ls) * 2 ^ k), Some a))\<rparr>"
  let ?nx = "(nx + 1) mod 2 ^ m"
  have "ix (2 ^ m) ?nx 1 = nx"
    using ix_Suc_next [of 0 "2 ^ m" nx] ix_zero [OF slow_indexD(3) [OF p(2)]] by simp
  then have "slow_array k ?q m ?nx ps (of_nat (ix (2 ^ m) ?nx 1))"
    using p(1) by (simp add: slow_array_def)
  moreover have "slow_index (2 ^ m) (2 ^ k) ?nx j0 (ls @ [a]) (length (SlowArrays ?q)) ps (SlowEntries ?q)"
    using slow_index_snoc [OF p(2,3), of a] by (simp add: p(4))
  moreover have "SlowArrays ?q \<noteq> []" using p(1) by (auto simp: slow_array_def)
  ultimately have "slow_index_inv k ?q j0 (ls @ [a])" unfolding slow_index_inv_def by auto
  then show ?thesis using store_Value_eq [OF p(5)] by (auto simp: slow_only_def)
qed

lemma slow_unwind:
  assumes "slow_pending k q j0 ls p"
  shows "\<exists>q1 q2. RewindBlockIndexTail q = Some q1 \<and> store_Value p None q1 = Some q2
    \<and> slow_index_inv k q2 j0 ls \<and> slow_only q q2"
proof -
  obtain m nx ps where p: "slow_array k q m nx ps (of_nat nx)"
    "slow_index (2 ^ m) (2 ^ k) nx j0 ls (length (SlowArrays q)) ps (SlowEntries q)"
    "length ls < 2 ^ m" "p = ps ! nx" "SlowEntries q p = Some (of_nat ((j0 + length ls) * 2 ^ k), None)"
    using assms unfolding slow_pending_def by blast
  obtain A As where A: "1 \<le> m" "m + k \<le> 64" "m + 1 < 64" "IndexEntriesSize q = 2 ^ (m + 1)"
    "SlowArrays q = A # As" "SA_Size A = 2 ^ m" "SA_Tail A = of_nat nx" "SA_Index A = List.map Some ps"
    using p(1) unfolding slow_array_def by blast
  let ?t = "of_nat (ix (2 ^ m) nx 1) :: size_t"
  have "(of_nat nx - 1 :: size_t) AND (2 ^ m - 1) = ?t"
    using mask_diff_of_nat [of 1 m nx] A(3) by simp
  then have rw: "RewindBlockIndexTail q = Some (set_slow_tail ?t q)"
    by (simp add: RewindBlockIndexTail_def slow_current_def A)
  let ?q1 = "set_slow_tail ?t q"
  let ?q2 = "?q1\<lparr>SlowEntries := (SlowEntries q)(p \<mapsto> (of_nat ((j0 + length ls) * 2 ^ k), None))\<rparr>"
  have sv: "store_Value p None ?q1 = Some ?q2"
    using p(5) by (subst store_Value_eq) (auto simp: set_slow_tail_def)
  have "slow_array k ?q2 m nx ps ?t" using A by (simp add: slow_array_def set_slow_tail_def)
  moreover have "slow_index (2 ^ m) (2 ^ k) nx j0 ls (length (SlowArrays ?q2)) ps (SlowEntries ?q2)"
    using p(2,5) A(5) by (simp add: set_slow_tail_def fun_upd_idem)
  moreover have "SlowArrays ?q2 \<noteq> []" by (simp add: set_slow_tail_def A(5))
  ultimately have "slow_index_inv k ?q2 j0 ls" unfolding slow_index_inv_def by auto
  then show ?thesis using rw sv by (auto simp: slow_only_def set_slow_tail_def)
qed

section \<open>Looking a block up\<close>

lemma slow_array_ptr:
  assumes "slow_array k q m nx ps t" "length ps = 2 ^ m" "d < 2 ^ m"
  obtains A where "slow_current q = Some A" "SA_Tail A = t" "SA_Size A = 2 ^ m"
    "index_ptr A (of_nat d) = Some (ps ! d)"
proof -
  obtain A As where A: "m + 1 < 64" "SlowArrays q = A # As" "SA_Size A = 2 ^ m" "SA_Tail A = t"
    "SA_Index A = List.map Some ps"
    using assms(1) unfolding slow_array_def by blast
  have "unat (of_nat d :: size_t) = d" using A(1) by (intro index_word [OF assms(3)]) simp
  then have "index_ptr A (of_nat d) = Some (ps ! d)" using A(5) assms(2,3) by (simp add: index_ptr_def)
  with A that show thesis by (simp add: slow_current_def)
qed

lemma slow_lookup_at:
  assumes arr: "slow_array k q m nx ps (of_nat (ix (2 ^ m) nx 1))"
    and idx: "slow_index (2 ^ m) (2 ^ k) nx j0 ls g ps (SlowEntries q)"
    and k: "k < 64" and i: "i < length ls" and h: "h div 2 ^ k = j0 + i"
    and q': "SlowArrays q' = SlowArrays q" "SlowEntries q' = SlowEntries q"
  shows "\<exists>A. slow_current q = Some A \<and> SA_Size A = 2 ^ m
    \<and> GetBlockIndexIndexForIndex (2 ^ k) q' (of_nat h) = Some (of_nat (ix (2 ^ m) nx (length ls - i)), A)
    \<and> index_ptr A (of_nat (ix (2 ^ m) nx (length ls - i))) = Some (ps ! ix (2 ^ m) nx (length ls - i))"
proof -
  note D = slow_indexD [OF idx]
  have mk: "m + k \<le> 64" using arr by (simp add: slow_array_def)
  have pos: "ix (2 ^ m) nx d < 2 ^ m" for d by (rule ix_less) simp
  obtain A where A: "slow_current q = Some A" "SA_Tail A = of_nat (ix (2 ^ m) nx 1)" "SA_Size A = 2 ^ m"
    by (rule slow_array_ptr [OF arr D(1) pos [of 1]])
  have ptr: "index_ptr A (of_nat (ix (2 ^ m) nx d)) = Some (ps ! ix (2 ^ m) nx d)" for d
    using slow_array_ptr [OF arr D(1) pos [of d]] A(1) by force
  obtain c where len: "length ls = Suc (c + i)" using i by (metis add.commute less_iff_Suc_add)
  have last: "SlowEntries q (ps ! ix (2 ^ m) nx 1) = Some (of_nat ((h div 2 ^ k + c) * 2 ^ k), Some (ls ! (c + i)))"
    using D(7) [of "c + i"] by (simp add: len h add.assoc add.commute [of c i])
  have c: "c < 2 ^ m" using D(4) by (simp add: len)
  have cur: "slow_current q' = Some A" using A(1) by (simp add: slow_current_def q'(1))
  have "GetBlockIndexIndexForIndex (2 ^ k) q' (of_nat h) = Some (of_nat (ix (2 ^ m) nx (length ls - i)), A)"
    unfolding GetBlockIndexIndexForIndex_def cur Let_def
    using locate_index [OF k mk c, of nx h] ptr [of 1] last
    by (simp add: A(2,3) q'(2) BlockSizeLog2_pow2 k len del: of_nat_mult of_nat_add)
  with A(1,3) ptr show ?thesis by blast
qed

lemma slow_lookup:
  assumes inv: "slow_index_inv k q (h div 2 ^ k) (a # ls)" and k: "k < 64"
    and q': "SlowArrays q' = SlowArrays q" "SlowEntries q' = SlowEntries q"
  shows "\<exists>p key. GetBlockIndexEntryForIndex (2 ^ k) q' (of_nat h) = Some p
    \<and> SlowEntries q p = Some (key, Some a)
    \<and> slow_index_inv k (q\<lparr>SlowEntries := (SlowEntries q)(p \<mapsto> (key, None))\<rparr>) (Suc (h div 2 ^ k)) ls"
proof -
  have ne: "SlowArrays q \<noteq> []" using inv by (auto simp: slow_index_inv_def)
  then obtain m nx ps where p: "slow_array k q m nx ps (of_nat (ix (2 ^ m) nx 1))"
    "slow_index (2 ^ m) (2 ^ k) nx (h div 2 ^ k) (a # ls) (length (SlowArrays q)) ps (SlowEntries q)"
    using inv unfolding slow_index_inv_def by auto
  note D = slow_indexD [OF p(2)]
  let ?p = "ps ! ix (2 ^ m) nx (Suc (length ls))"
  have look: "GetBlockIndexEntryForIndex (2 ^ k) q' (of_nat h) = Some ?p"
    using slow_lookup_at [OF p(1,2) k, of 0 h q'] q' by (auto simp: GetBlockIndexEntryForIndex_def)
  have e: "SlowEntries q ?p = Some (of_nat (h div 2 ^ k * 2 ^ k), Some a)" using D(7) [of 0] by simp
  let ?q = "q\<lparr>SlowEntries := (SlowEntries q)(?p \<mapsto> (of_nat (h div 2 ^ k * 2 ^ k), None))\<rparr>"
  have "slow_array k ?q m nx ps (of_nat (ix (2 ^ m) nx 1))" using p(1) by (simp add: slow_array_def)
  moreover have "slow_index (2 ^ m) (2 ^ k) nx (Suc (h div 2 ^ k)) ls (length (SlowArrays ?q)) ps (SlowEntries ?q)"
    using slow_index_tl [OF p(2)] by simp
  ultimately have "slow_index_inv k ?q (Suc (h div 2 ^ k)) ls" using ne unfolding slow_index_inv_def by auto
  with look e show ?thesis by blast
qed

section \<open>Growing the index\<close>

lemma copy_index_loop:
  assumes m: "m < 64" "nx < 2 ^ m" and P: "length Prev = 2 ^ m"
  shows "0 < d \<Longrightarrow> d \<le> 2 ^ m \<Longrightarrow> j + d \<le> length New \<Longrightarrow> length New < 2 ^ 64 \<Longrightarrow>
    (w + 1) AND (2 ^ m - 1) = (of_nat (ix (2 ^ m) nx d) :: size_t) \<Longrightarrow>
    \<exists>New'. loop (copy_index_body Prev (2 ^ m) (of_nat (ix (2 ^ m) nx 1))) (w, of_nat j, New) = Some New'
      \<and> length New' = length New
      \<and> (\<forall>t < d. New' ! (j + t) = Prev ! ix (2 ^ m) nx (d - t)) \<and> (\<forall>t < j. New' ! t = New ! t)"
proof (induction d arbitrary: j New w)
  case (Suc d)
  let ?M = "2 ^ m :: nat" and ?i = "ix (2 ^ m) nx (Suc d)"
  have i: "?i < ?M" by (rule ix_less) simp
  have ui: "unat (of_nat ?i :: size_t) = ?i" by (rule index_word [OF i m(1)])
  have uj: "unat (of_nat j :: size_t) = j" using Suc.prems(3,4) by (intro unat_of_nat_small) simp
  let ?New = "New[j := Prev ! ?i]"
  have "(of_nat ?i + 1 :: size_t) = of_nat (?i + 1)" by simp
  then have step: "(of_nat ?i + 1 :: size_t) AND (2 ^ m - 1) = of_nat (ix ?M nx d)"
    using ix_step [of "Suc d" ?M nx] Suc.prems(2) by (simp only: mask_of_nat) simp
  have body: "copy_index_body Prev (2 ^ m) (of_nat (ix ?M nx 1)) (w, of_nat j, New)
      = (if of_nat ?i \<noteq> (of_nat (ix ?M nx 1) :: size_t)
         then Some (Inl (of_nat ?i, of_nat (j + 1), ?New)) else Some (Inr ?New))"
    unfolding copy_index_body_def using i Suc.prems(3) P
    by (simp only: case_prod_conv ui uj Suc.prems(5) Let_def) simp
  have "(of_nat ?i = (of_nat (ix ?M nx 1) :: size_t)) \<longleftrightarrow> ?i = ix ?M nx 1"
    using index_word [OF ix_less m(1)] by (metis zero_less_numeral zero_less_power)
  then have stop: "(of_nat ?i = (of_nat (ix ?M nx 1) :: size_t)) \<longleftrightarrow> d = 0"
    using ix_inj [of "Suc d" ?M 1 nx] Suc.prems(2) m(2) by auto
  show ?case
  proof (cases "d = 0")
    case True
    then show ?thesis
      using body stop Suc.prems(3) by (intro exI [of _ ?New]) (simp add: loop_exit)
  next
    case False
    then have "\<exists>New'. loop (copy_index_body Prev (2 ^ m) (of_nat (ix ?M nx 1))) (of_nat ?i, of_nat (j + 1), ?New)
        = Some New' \<and> length New' = length ?New
      \<and> (\<forall>t < d. New' ! (j + 1 + t) = Prev ! ix ?M nx (d - t)) \<and> (\<forall>t < j + 1. New' ! t = ?New ! t)"
      using Suc.prems step by (intro Suc.IH) auto
    then obtain New' where N: "loop (copy_index_body Prev (2 ^ m) (of_nat (ix ?M nx 1)))
          (of_nat ?i, of_nat (j + 1), ?New) = Some New'"
      "length New' = length New" "\<And>t. t < d \<Longrightarrow> New' ! (j + 1 + t) = Prev ! ix ?M nx (d - t)"
      "\<And>t. t < j + 1 \<Longrightarrow> New' ! t = ?New ! t"
      by auto
    have "New' ! (j + t) = Prev ! ix ?M nx (Suc d - t)" if "t < Suc d" for t
      using N(3) [of "t - 1"] N(4) [of j] that Suc.prems(3) by (cases t) auto
    moreover have "New' ! t = New ! t" if "t < j" for t using N(4) [of t] that by simp
    ultimately show ?thesis
      using N(1,2) body stop False by (intro exI [of _ New']) (simp add: loop_again)
  qed
qed simp

lemma new_entries_eq:
  assumes "unat P + unat i + n \<le> length New" "length New < 2 ^ 64"
  shows "\<exists>New' E'. new_entries g n i P New E = Some (New', E') \<and> length New' = length New
    \<and> (\<forall>t < length New. New' ! t = (if unat P + unat i \<le> t \<and> t < unat P + unat i + n
         then Some (g, t - unat P) else New ! t))
    \<and> (\<forall>p. E' p = (if fst p = g \<and> unat i \<le> snd p \<and> snd p < unat i + n then Some (INVALID_BLOCK_BASE, None) else E p))"
  using assms
proof (induction n arbitrary: i New E)
  case 0
  then show ?case by auto
next
  case (Suc n)
  have i1: "unat (i + 1) = unat i + 1" using Suc.prems by (simp add: unat_word_ariths)
  have pi: "unat (P + i) = unat P + unat i" using Suc.prems by (simp add: unat_word_ariths)
  let ?New = "New[unat P + unat i := Some (g, unat i)]"
  let ?E = "E((g, unat i) \<mapsto> (INVALID_BLOCK_BASE, None))"
  obtain New' E' where N: "new_entries g n (i + 1) P ?New ?E = Some (New', E')" "length New' = length ?New"
    "\<forall>t < length ?New. New' ! t = (if unat P + unat (i + 1) \<le> t \<and> t < unat P + unat (i + 1) + n
         then Some (g, t - unat P) else ?New ! t)"
    "\<forall>p. E' p = (if fst p = g \<and> unat (i + 1) \<le> snd p \<and> snd p < unat (i + 1) + n
         then Some (INVALID_BLOCK_BASE, None) else ?E p)"
    using Suc.IH [of "i + 1" ?New ?E] Suc.prems i1 by (auto simp del: fun_upd_apply)
  have "New' ! t = (if unat P + unat i \<le> t \<and> t < unat P + unat i + Suc n
         then Some (g, t - unat P) else New ! t)" if "t < length New" for t
    using N(3) that i1 by (cases "t = unat P + unat i") auto
  moreover have "E' p = (if fst p = g \<and> unat i \<le> snd p \<and> snd p < unat i + Suc n
         then Some (INVALID_BLOCK_BASE, None) else E p)" for p
    using N(4) i1 by (cases p; cases "snd p = unat i") auto
  moreover have "unat (P + i) < length New" using Suc.prems pi by simp
  ultimately show ?case using N(1,2) pi by auto
qed

text \<open>The three allocations, whatever the copying then does.\<close>

lemma slow_Create_alloc:
  fixes s :: "'a mem"
  assumes mgr: "mgr_inv n s U" and ec: "0 < unat EntryCount" "0 < unat (IndexEntriesSize q)"
    and P: "PrevSize = (case slow_current q of None \<Rightarrow> 0 | Some P \<Rightarrow> SA_Size P)"
      "EntryCount = (if slow_current q = None then IndexEntriesSize q else PrevSize)"
    and copy: "(case slow_current q of None \<Rightarrow> Some (replicate (unat (IndexEntriesSize q)) None)
        | Some P \<Rightarrow> loop (copy_index_body (SA_Index P) PrevSize (SA_Tail P))
            (SA_Tail P, 0, replicate (unat (IndexEntriesSize q)) None)) = Some New1"
    and fresh: "new_entries (length (SlowArrays q)) (unat EntryCount) 0 PrevSize New1 (SlowEntries q)
        = Some (New2, E)"
  shows "\<exists>ok q' s'. SlowQueue_CreateNewBlockIndexArray q s = Some (ok, q', s') \<and> mgr_inv n s' U
    \<and> blk s' = blk s \<and> Quota (Hp s) \<le> Quota (Hp s') + 3
    \<and> (if ok then \<exists>self at iat. q' = q\<lparr>SlowArrays := \<lparr>SA_Self = self, SA_At = at, SA_IndexAt = iat,
            SA_Size = IndexEntriesSize q, SA_Tail = (PrevSize - 1) AND (IndexEntriesSize q - 1),
            SA_Index = New2\<rparr> # SlowArrays q,
          SlowEntries := E, IndexEntriesSize := push_bit 1 (IndexEntriesSize q)\<rparr>
        else q' = q \<and> Quota (Hp s) < 3)"
proof -
  note def = SlowQueue_CreateNewBlockIndexArray_def [of q s, unfolded Let_def, folded P(1), folded P(2)]
  obtain r1 h1 where a1: "Allocate 1 (Hp s) = (r1, h1)" by fastforce
  note m1 = mgr_inv_Allocate [OF mgr a1]
  have q1: "Quota (Hp s) = (if r1 = Exn then 0 else Quota h1 + 1)" "r1 = Exn \<Longrightarrow> Quota h1 = 0"
    using a1 by (auto simp: Allocate_def split: if_splits)
  show ?thesis
  proof (cases r1)
    case Exn
    then show ?thesis using def a1 m1 q1 by (intro exI [of _ False]) simp
  next
    case (Ret self)
    obtain r2 h2 where a2: "Allocate (unat EntryCount) h1 = (r2, h2)" by fastforce
    note m2 = mgr_inv_Allocate [OF m1(1), simplified, OF a2]
    have q2: "Quota h1 = (if r2 = Exn then 0 else Quota h2 + 1)" "r2 = Exn \<Longrightarrow> h2 = h1"
      "\<And>x. r2 = Ret x \<Longrightarrow> x \<noteq> self \<and> Alloc h2 self = Alloc h1 self \<and> x = Brk h1"
      using a1 a2 Ret by (auto simp: Allocate_def split: if_splits)
    have self: "self \<notin> dom (blk s)" "Pool_Head (Pool (Mg s)) \<noteq> Some self" "Alloc h1 self = 1"
      using m1(3) [OF Ret] by auto
    show ?thesis
    proof (cases r2)
      case Exn
      obtain h3 where h3: "Deallocate (Some self) 1 h2 = Some h3" "mgr_inv n (s\<lparr>Hp := h3\<rparr>) U"
        "h3 = h2\<lparr>Alloc := (Alloc h2)(self := 0)\<rparr>"
        using mgr_inv_Deallocate [OF m2(1), of self 1] self m2(2) m1(2) q2(2) [OF Exn] by auto
      show ?thesis
        using def a1 a2 Ret Exn h3 q1 q2 m1(2) by (intro exI [of _ False]) simp
    next
      case r2: (Ret at)
      obtain r3 h3 where a3: "Allocate (unat (IndexEntriesSize q)) h2 = (r3, h3)" by fastforce
      note m3 = mgr_inv_Allocate [OF m2(1), simplified, OF a3]
      have q3: "Quota h2 = (if r3 = Exn then 0 else Quota h3 + 1)" "r3 = Exn \<Longrightarrow> h3 = h2"
        using a3 by (auto simp: Allocate_def split: if_splits)
      have b2: "blk (s\<lparr>Hp := h1\<rparr>) = blk s" "Blocks h2 = blk s" using m1(2) m2(2) by simp_all
      show ?thesis
      proof (cases r3)
        case Exn
        have "Alloc h2 self = 1" using q2(3) [OF r2] self(3) by simp
        then obtain h4 where h4: "Deallocate (Some self) 1 h3 = Some h4" "mgr_inv n (s\<lparr>Hp := h4\<rparr>) U"
          "h4 = h3\<lparr>Alloc := (Alloc h3)(self := 0)\<rparr>"
          using mgr_inv_Deallocate [OF m3(1), of self 1] self b2 q3(2) [OF Exn] by auto
        have at: "at \<notin> dom (blk s)" "Pool_Head (Pool (Mg s)) \<noteq> Some at" "Alloc h4 at = unat EntryCount"
          using m2(3) [OF r2] m1(2) q2(3) [OF r2] q3(2) [OF Exn] h4(3) by auto
        obtain h5 where h5: "Deallocate (Some at) (unat EntryCount) h4 = Some h5" "mgr_inv n (s\<lparr>Hp := h5\<rparr>) U"
          "h5 = h4\<lparr>Alloc := (Alloc h4)(at := 0)\<rparr>"
          using mgr_inv_Deallocate [OF h4(2), of at "unat EntryCount"] at ec(1) h4(3) b2(2) q3(2) [OF Exn] by auto
        have "SlowQueue_CreateNewBlockIndexArray q s = Some (False, q, s\<lparr>Hp := h5\<rparr>)"
          by (simp only: def a1 a2 a3 Ret r2 Exn h4(1) h5(1) prod.case res.case Option.bind.simps)
        moreover have "blk (s\<lparr>Hp := h5\<rparr>) = blk s" using h5(3) h4(3) b2(2) q3(2) [OF Exn] by simp
        moreover have "Quota (Hp s) = 2"
          unfolding q1(1) q2(1) q3(1) Ret r2 Exn by simp
        ultimately show ?thesis using h5(2)
          by (intro exI [of _ False] exI [of _ q] exI [of _ "s\<lparr>Hp := h5\<rparr>"]) simp
      next
        case (Ret iat)
        have blk3: "Blocks h3 = blk s" using m3(2) b2(2) by simp
        let ?q = "q\<lparr>SlowArrays := \<lparr>SA_Self = self, SA_At = at, SA_IndexAt = iat,
            SA_Size = IndexEntriesSize q, SA_Tail = (PrevSize - 1) AND (IndexEntriesSize q - 1),
            SA_Index = New2\<rparr> # SlowArrays q,
          SlowEntries := E, IndexEntriesSize := push_bit 1 (IndexEntriesSize q)\<rparr>"
        have "SlowQueue_CreateNewBlockIndexArray q s = Some (True, ?q, s\<lparr>Hp := h3\<rparr>)"
          by (simp only: def a1 a2 a3 \<open>r1 = Ret self\<close> r2 Ret copy fresh prod.case res.case Option.bind.simps)
        moreover have "mgr_inv n (s\<lparr>Hp := h3\<rparr>) U" using m3(1) by simp
        moreover have "blk (s\<lparr>Hp := h3\<rparr>) = blk s" using blk3 by simp
        moreover have "Quota (Hp s) \<le> Quota (Hp (s\<lparr>Hp := h3\<rparr>)) + 3"
          using \<open>r1 = Ret self\<close> r2 Ret q1(1) q2(1) q3(1) by simp
        ultimately show ?thesis
          by (intro exI [of _ True] exI [of _ ?q] exI [of _ "s\<lparr>Hp := h3\<rparr>"] conjI)
            (simp_all only: if_True, blast)
      qed
    qed
  qed
qed

text \<open>Doubling a full array keeps every entry, in order, and leaves the other half free.\<close>

lemma slow_grow:
  assumes mgr: "mgr_inv n s U" and k: "1 \<le> k"
    and arr: "slow_array k q m nx ps (of_nat (ix (2 ^ m) nx 1))"
    and idx: "slow_index (2 ^ m) (2 ^ k) nx j0 ls (length (SlowArrays q)) ps (SlowEntries q)"
    and full: "length ls = 2 ^ m" and bound: "length ls * 2 ^ k < 2 ^ 63"
  shows "\<exists>ok q' s'. SlowQueue_CreateNewBlockIndexArray q s = Some (ok, q', s') \<and> mgr_inv n s' U
    \<and> blk s' = blk s \<and> Quota (Hp s) \<le> Quota (Hp s') + 3 \<and> slow_only q q'
    \<and> (if ok then \<exists>ps'. slow_array k q' (m + 1) (2 ^ m) ps' (of_nat (ix (2 ^ (m + 1)) (2 ^ m) 1))
          \<and> slow_index (2 ^ (m + 1)) (2 ^ k) (2 ^ m) j0 ls (length (SlowArrays q')) ps' (SlowEntries q')
        else q' = q \<and> Quota (Hp s) < 3)"
proof -
  note D = slow_indexD [OF idx]
  obtain A As where A: "1 \<le> m" "m + k \<le> 64" "m + 1 < 64" "IndexEntriesSize q = 2 ^ (m + 1)"
    "SlowArrays q = A # As" "SA_Size A = 2 ^ m" "SA_Tail A = of_nat (ix (2 ^ m) nx 1)"
    "SA_Index A = List.map Some ps"
    using arr unfolding slow_array_def by blast
  have mk: "m + k < 63"
  proof (rule ccontr)
    assume "\<not> m + k < 63"
    then have "(2::nat) ^ 63 \<le> 2 ^ (m + k)" by (intro power_increasing) auto
    then show False using bound full by (simp add: power_add)
  qed
  have uM: "unat (2 ^ m :: size_t) = 2 ^ m" "unat (2 ^ (m + 1) :: size_t) = 2 ^ (m + 1)"
    using A(3) by (intro unat_pow2; simp)+
  have lt: "(2::nat) ^ (m + 1) < 2 ^ 64" using A(3) by (intro power_strict_increasing) auto
  have cur: "slow_current q = Some A" by (simp add: slow_current_def A(5))
  let ?g = "length (SlowArrays q)" and ?M = "2 ^ m :: nat"
  let ?N0 = "replicate (2 ^ (m + 1)) None :: entry_ptr option list"
  have tl: "(of_nat (ix ?M nx 1) + 1 :: size_t) AND (2 ^ m - 1) = of_nat (ix ?M nx ?M)"
  proof -
    have "(of_nat (ix ?M nx 1) + 1 :: size_t) = of_nat (ix ?M nx 1 + 1)" by simp
    moreover have "(ix ?M nx 1 + 1) mod ?M = nx" using ix_step [of 1 ?M nx] D(3) by (simp add: ix_zero)
    ultimately show ?thesis by (simp only: mask_of_nat ix_full [OF D(3)])
  qed
  obtain N1 where N1: "loop (copy_index_body (SA_Index A) (2 ^ m) (SA_Tail A)) (SA_Tail A, 0, ?N0) = Some N1"
    "length N1 = 2 ^ (m + 1)" "\<forall>t < ?M. N1 ! (0 + t) = SA_Index A ! ix ?M nx (?M - t)"
    using copy_index_loop [of m nx "SA_Index A" ?M 0 ?N0 "SA_Tail A"] A(3,7,8) D(1,3) lt tl by auto
  obtain N2 E where N2: "new_entries ?g ?M 0 (2 ^ m) N1 (SlowEntries q) = Some (N2, E)" "length N2 = 2 ^ (m + 1)"
    "\<And>t. t < 2 ^ (m + 1) \<Longrightarrow> N2 ! t = (if ?M \<le> t then Some (?g, t - ?M) else N1 ! t)"
    "\<And>p. E p = (if fst p = ?g \<and> snd p < ?M then Some (INVALID_BLOCK_BASE, None) else SlowEntries q p)"
    using new_entries_eq [of "2 ^ m" 0 ?M N1 ?g "SlowEntries q"] N1(2) lt by (auto simp: uM(1))
  have "\<exists>ok q' s'. SlowQueue_CreateNewBlockIndexArray q s = Some (ok, q', s') \<and> mgr_inv n s' U
    \<and> blk s' = blk s \<and> Quota (Hp s) \<le> Quota (Hp s') + 3
    \<and> (if ok then \<exists>self at iat. q' = q\<lparr>SlowArrays := \<lparr>SA_Self = self, SA_At = at, SA_IndexAt = iat,
            SA_Size = IndexEntriesSize q, SA_Tail = (2 ^ m - 1) AND (IndexEntriesSize q - 1),
            SA_Index = N2\<rparr> # SlowArrays q,
          SlowEntries := E, IndexEntriesSize := push_bit 1 (IndexEntriesSize q)\<rparr>
        else q' = q \<and> Quota (Hp s) < 3)"
  proof (rule slow_Create_alloc [OF mgr, where EntryCount = "2 ^ m" and PrevSize = "2 ^ m" and ?New1.0 = N1])
    show "0 < unat (2 ^ m :: size_t)" unfolding uM by simp
    show "0 < unat (IndexEntriesSize q)" unfolding A(4) uM by simp
    show "2 ^ m = (case slow_current q of None \<Rightarrow> 0 | Some P \<Rightarrow> SA_Size P)" by (simp only: cur option.case A(6))
    show "2 ^ m = (if slow_current q = None then IndexEntriesSize q else 2 ^ m)"
      by (simp only: cur option.distinct if_False)
    show "(case slow_current q of None \<Rightarrow> Some (replicate (unat (IndexEntriesSize q)) None)
        | Some P \<Rightarrow> loop (copy_index_body (SA_Index P) (2 ^ m) (SA_Tail P))
            (SA_Tail P, 0, replicate (unat (IndexEntriesSize q)) None)) = Some N1"
      using N1(1) by (simp only: cur option.case A(4) uM(2))
    show "new_entries (length (SlowArrays q)) (unat (2 ^ m :: size_t)) 0 (2 ^ m) N1 (SlowEntries q) = Some (N2, E)"
      using N2(1) by (simp only: uM(1))
  qed
  then obtain ok q' s' where c: "SlowQueue_CreateNewBlockIndexArray q s = Some (ok, q', s')" "mgr_inv n s' U"
    "blk s' = blk s" "Quota (Hp s) \<le> Quota (Hp s') + 3"
    "if ok then \<exists>self at iat. q' = q\<lparr>SlowArrays := \<lparr>SA_Self = self, SA_At = at, SA_IndexAt = iat,
            SA_Size = IndexEntriesSize q, SA_Tail = (2 ^ m - 1) AND (IndexEntriesSize q - 1),
            SA_Index = N2\<rparr> # SlowArrays q,
          SlowEntries := E, IndexEntriesSize := push_bit 1 (IndexEntriesSize q)\<rparr>
        else q' = q \<and> Quota (Hp s) < 3"
    by blast
  show ?thesis
  proof (cases ok)
    case False
    then show ?thesis using c by (intro exI [of _ False]) auto
  next
    case True
    then obtain self at iat where q': "q' = q\<lparr>SlowArrays := \<lparr>SA_Self = self, SA_At = at, SA_IndexAt = iat,
            SA_Size = 2 ^ (m + 1), SA_Tail = (2 ^ m - 1) AND (2 ^ (m + 1) - 1), SA_Index = N2\<rparr> # SlowArrays q,
          SlowEntries := E, IndexEntriesSize := push_bit 1 (2 ^ (m + 1))\<rparr>"
      using c(5) A(4) by auto
    define ps' where "ps' = List.map (\<lambda>t. ps ! ix ?M nx (?M - t)) [0..<?M] @ List.map (\<lambda>i. (?g, i)) [0..<?M]"
    have "N2 = List.map Some ps'"
    proof (rule nth_equalityI)
      fix t assume t: "t < length N2"
      then show "N2 ! t = List.map Some ps' ! t"
        using N2(3) [of t] N1(3) D(1) D(9) [of "?M - t"] by (auto simp: N2(2) ps'_def A(8) nth_append)
    qed (simp add: N2(2) ps'_def)
    moreover have "((2 ^ m - 1) AND (2 ^ (m + 1) - 1) :: size_t) = of_nat (ix (2 ^ (m + 1)) (2 ^ m) 1)"
      using mask_diff_of_nat [of 1 "m + 1" "2 ^ m"] A(3) by simp
    moreover have "push_bit 1 (2 ^ (m + 1)) = (2 ^ (m + 1 + 1) :: size_t)" by (simp add: push_bit_eq_mult)
    ultimately have arr': "slow_array k q' (m + 1) (2 ^ m) ps' (of_nat (ix (2 ^ (m + 1)) (2 ^ m) 1))"
      using mk A(1) k unfolding slow_array_def q' by simp
    have pos: "ps' ! ix (2 ^ (m + 1)) (2 ^ m) d = (if d \<le> ?M then ps ! ix ?M nx d else (?g, 2 * ?M - d))"
      if d: "0 < d" "d \<le> 2 * ?M" for d
    proof (cases "d \<le> ?M")
      case True
      then have "ix (2 ^ (m + 1)) (2 ^ m) d = ?M - d" using ix_plain [of d ?M "2 ^ (m + 1)"] d by simp
      then show ?thesis using True d by (simp add: ps'_def nth_append)
    next
      case False
      then have "ix (2 ^ (m + 1)) (2 ^ m) d = ?M + (2 * ?M - d)" using d by (simp add: ix_def)
      moreover have "ps' ! (?M + e) = (?g, e)" if "e < ?M" for e
        using that by (simp add: ps'_def nth_append)
      moreover have "2 * ?M - d < ?M" using False d by simp
      ultimately show ?thesis using False by (simp only: if_False)
    qed
    have old: "E (ps ! ix ?M nx d) = SlowEntries q (ps ! ix ?M nx d)" for d
      using D(6) [of "ps ! ix ?M nx d"] D(9) [of d] N2(4) by simp
    have inj: "inj_on (\<lambda>t. ps ! ix ?M nx (?M - t)) {0..<?M}"
      by (rule inj_onI) (use slow_index_ptr_eq [OF idx] in \<open>auto simp: less_imp_diff_less\<close>)
    have idx': "slow_index (2 ^ (m + 1)) (2 ^ k) (2 ^ m) j0 ls (length (SlowArrays q')) ps' (SlowEntries q')"
      unfolding slow_index_def
    proof (intro conjI allI impI ballI)
      show "distinct ps'"
      proof -
        have "(?g, i) \<noteq> ps ! ix ?M nx d" for i d
          using D(6) [OF nth_mem, OF D(9), of d] by (metis fst_conv less_irrefl)
        then show ?thesis
          unfolding ps'_def distinct_append distinct_map using inj by (auto simp: inj_on_def)
      qed
      show "fst p < length (SlowArrays q')" if p: "p \<in> set ps'" for p
      proof -
        have "fst (ps ! ix ?M nx d) < ?g" for d using D(6) D(9) [of d] by simp
        then have "fst p \<le> ?g" using p by (auto simp: ps'_def less_imp_le)
        then show ?thesis by (simp add: q')
      qed
      show "SlowEntries q' (ps' ! ix (2 ^ (m + 1)) (2 ^ m) (length ls - i))
          = Some (of_nat ((j0 + i) * 2 ^ k), Some (ls ! i))" if "i < length ls" for i
        using pos [of "length ls - i"] D(7) [OF that] old that full by (simp add: q')
      show "\<exists>key. SlowEntries q' (ps' ! ix (2 ^ (m + 1)) (2 ^ m) d) = Some (key, None)"
        if "length ls < d \<and> d \<le> 2 ^ (m + 1)" for d
        using pos [of d] that full N2(4) by (auto simp: q')
    qed (use full in \<open>simp_all add: ps'_def\<close>)
    have "slow_only q q'" by (simp add: slow_only_def q')
    then show ?thesis using c(1-4) True arr' idx' by (intro exI [of _ True]) auto
  qed
qed

section \<open>Inserting an entry\<close>

text \<open>A key in use is never \<^verbatim>\<open>INVALID_BLOCK_BASE\<close>, which is odd.\<close>

lemma block_base_valid: "1 \<le> k \<Longrightarrow> (of_nat (j * 2 ^ k) :: size_t) \<noteq> INVALID_BLOCK_BASE"
proof
  assume k: "1 \<le> k" and eq: "(of_nat (j * 2 ^ k) :: size_t) = INVALID_BLOCK_BASE"
  have "even (j * 2 ^ k)" using k by simp
  then obtain x where "j * 2 ^ k = 2 * x" by (elim evenE)
  then have "bit (of_nat (j * 2 ^ k) :: size_t) 0 = False" by (simp add: bit_0)
  moreover have "bit (INVALID_BLOCK_BASE :: size_t) 0" by (simp add: INVALID_BLOCK_BASE_def)
  ultimately show False using eq by simp
qed

text \<open>Taking the free entry after the newest one.\<close>

lemma slow_take:
  assumes arr: "slow_array k q m nx ps (of_nat (ix (2 ^ m) nx 1))"
    and idx: "slow_index (2 ^ m) (2 ^ k) nx j0 ls (length (SlowArrays q)) ps (SlowEntries q)"
    and len: "length ls < 2 ^ m"
  shows "\<exists>A key q'. slow_current q = Some A \<and> (SA_Tail A + 1) AND (SA_Size A - 1) = of_nat nx
    \<and> index_ptr A (of_nat nx) = Some (ps ! nx) \<and> SlowEntries q (ps ! nx) = Some (key, None)
    \<and> take_index_slot (of_nat ((j0 + length ls) * 2 ^ k)) A (of_nat nx) (ps ! nx) q = Some (Some (ps ! nx), q')
    \<and> slow_pending k q' j0 ls (ps ! nx) \<and> slow_only q q'"
proof -
  note D = slow_indexD [OF idx]
  obtain A As where A: "1 \<le> m" "m + k \<le> 64" "m + 1 < 64" "IndexEntriesSize q = 2 ^ (m + 1)"
    "SlowArrays q = A # As" "SA_Size A = 2 ^ m" "SA_Tail A = of_nat (ix (2 ^ m) nx 1)"
    "SA_Index A = List.map Some ps"
    using arr unfolding slow_array_def by blast
  have cur: "slow_current q = Some A" by (simp add: slow_current_def A(5))
  have "unat (of_nat nx :: size_t) = nx" using A(3) by (intro index_word [OF D(3)]) simp
  then have ptr: "index_ptr A (of_nat nx) = Some (ps ! nx)" using A(8) D(1,3) by (simp add: index_ptr_def)
  have "(of_nat (ix (2 ^ m) nx 1) + 1 :: size_t) = of_nat (ix (2 ^ m) nx 1 + 1)" by simp
  moreover have "(ix (2 ^ m) nx 1 + 1) mod 2 ^ m = nx" using ix_step [of 1 "2 ^ m" nx] D(3) by (simp add: ix_zero)
  ultimately have tl: "(SA_Tail A + 1) AND (SA_Size A - 1) = of_nat nx"
    by (simp only: A(6,7) mask_of_nat)
  have full: "ix (2 ^ m) nx (2 ^ m) = nx" by (rule ix_full [OF D(3)])
  obtain key where e: "SlowEntries q (ps ! nx) = Some (key, None)" using D(8) [of "2 ^ m"] len full by auto
  let ?key = "of_nat ((j0 + length ls) * 2 ^ k) :: size_t"
  let ?q = "set_slow_tail (of_nat nx) (q\<lparr>SlowEntries := (SlowEntries q)(ps ! nx \<mapsto> (?key, None))\<rparr>)"
  have take: "take_index_slot ?key A (of_nat nx) (ps ! nx) q = Some (Some (ps ! nx), ?q)"
    using e by (simp add: take_index_slot_def store_Key_def)
  have "slow_array k ?q m nx ps (of_nat nx)" using A by (simp add: slow_array_def set_slow_tail_def)
  moreover have "slow_index (2 ^ m) (2 ^ k) nx j0 ls (length (SlowArrays ?q)) ps (SlowEntries ?q)"
    using slow_index_free [OF idx, of "2 ^ m" ?key] len full A(5) by (simp add: set_slow_tail_def)
  moreover have "SlowEntries ?q (ps ! nx) = Some (?key, None)" by (simp add: set_slow_tail_def)
  ultimately have "slow_pending k ?q j0 ls (ps ! nx)" using len unfolding slow_pending_def by blast
  moreover have "slow_only q ?q" by (simp add: slow_only_def set_slow_tail_def)
  ultimately show ?thesis using cur tl ptr e take by blast
qed

lemma slow_Insert:
  assumes mgr: "mgr_inv n s U" and k: "1 \<le> k" and inv: "slow_index_inv k q j0 ls"
    and bound: "length ls * 2 ^ k < 2 ^ 63"
  shows "\<exists>e q' s'. InsertBlockIndexEntry mode (of_nat ((j0 + length ls) * 2 ^ k)) q s = Some (e, q', s')
    \<and> mgr_inv n s' U \<and> blk s' = blk s \<and> Quota (Hp s) \<le> Quota (Hp s') + 3 \<and> slow_only q q'
    \<and> (case e of
         None \<Rightarrow> slow_index_inv k q' j0 ls \<and> (SlowArrays q = [] \<or> mode = CannotAlloc \<or> Quota (Hp s) < 3)
       | Some p \<Rightarrow> slow_pending k q' j0 ls p)"
proof (cases "SlowArrays q = []")
  case True
  then have "slow_current q = None" by (simp add: slow_current_def)
  then have "InsertBlockIndexEntry mode (of_nat ((j0 + length ls) * 2 ^ k)) q s = Some (None, q, s)"
    by (simp only: InsertBlockIndexEntry_def option.case)
  with True mgr inv show ?thesis
    by (intro exI [of _ None] exI [of _ q] exI [of _ s]) (simp add: option.case)
next
  case False
  let ?t = "of_nat ((j0 + length ls) * 2 ^ k) :: size_t"
  obtain m nx ps where arr: "slow_array k q m nx ps (of_nat (ix (2 ^ m) nx 1))"
    and idx: "slow_index (2 ^ m) (2 ^ k) nx j0 ls (length (SlowArrays q)) ps (SlowEntries q)"
    using inv False unfolding slow_index_inv_def by auto
  note D = slow_indexD [OF idx]
  show ?thesis
  proof (cases "length ls < 2 ^ m")
    case True
    from slow_take [OF arr idx True] obtain A key q' where t: "slow_current q = Some A"
      "(SA_Tail A + 1) AND (SA_Size A - 1) = of_nat nx" "index_ptr A (of_nat nx) = Some (ps ! nx)"
      "SlowEntries q (ps ! nx) = Some (key, None)"
      "take_index_slot ?t A (of_nat nx) (ps ! nx) q = Some (Some (ps ! nx), q')"
      "slow_pending k q' j0 ls (ps ! nx)" "slow_only q q'" by blast
    have "InsertBlockIndexEntry mode ?t q s = Some (Some (ps ! nx), q', s)"
      by (simp only: InsertBlockIndexEntry_def t(1-5) option.case Let_def prod.case Option.bind.simps
          simp_thms if_True)
    with mgr t(6,7) show ?thesis
      by (intro exI [of _ "Some (ps ! nx)"] exI [of _ q'] exI [of _ s]) simp
  next
    case full: False
    then have len: "length ls = 2 ^ m" using D(4) by simp
    have last: "ix (2 ^ m) nx (2 ^ m) = nx" by (rule ix_full [OF D(3)])
    have "0 < length ls" unfolding len by simp
    then obtain a where used: "SlowEntries q (ps ! nx) = Some (of_nat (j0 * 2 ^ k), Some a)"
      using D(7) [of 0] last len by auto
    obtain A where A: "slow_current q = Some A" "SA_Tail A = of_nat (ix (2 ^ m) nx 1)" "SA_Size A = 2 ^ m"
      "index_ptr A (of_nat nx) = Some (ps ! nx)"
      by (rule slow_array_ptr [OF arr D(1,3)])
    have "(of_nat (ix (2 ^ m) nx 1) + 1 :: size_t) = of_nat (ix (2 ^ m) nx 1 + 1)" by simp
    moreover have "(ix (2 ^ m) nx 1 + 1) mod 2 ^ m = nx" using ix_step [of 1 "2 ^ m" nx] D(3) by (simp add: ix_zero)
    ultimately have tl: "(SA_Tail A + 1) AND (SA_Size A - 1) = of_nat nx"
      by (simp only: A(2,3) mask_of_nat)
    have busy: "\<not> (of_nat (j0 * 2 ^ k) = INVALID_BLOCK_BASE \<or> Some a = None)"
      using block_base_valid [OF k] by simp
    note go = InsertBlockIndexEntry_def [of mode ?t q s, unfolded A(1) option.case Let_def tl A(4)
        Option.bind.simps used prod.case if_not_P [OF busy]]
    show ?thesis
    proof (cases "mode = CannotAlloc")
      case True
      with go have "InsertBlockIndexEntry mode ?t q s = Some (None, q, s)" by simp
      with True mgr inv show ?thesis
        by (intro exI [of _ None] exI [of _ q] exI [of _ s]) (simp add: option.case)
    next
      case False
      obtain ok q1 s1 where g: "SlowQueue_CreateNewBlockIndexArray q s = Some (ok, q1, s1)" "mgr_inv n s1 U"
        "blk s1 = blk s" "Quota (Hp s) \<le> Quota (Hp s1) + 3" "slow_only q q1"
        "if ok then \<exists>ps'. slow_array k q1 (m + 1) (2 ^ m) ps' (of_nat (ix (2 ^ (m + 1)) (2 ^ m) 1))
            \<and> slow_index (2 ^ (m + 1)) (2 ^ k) (2 ^ m) j0 ls (length (SlowArrays q1)) ps' (SlowEntries q1)
          else q1 = q \<and> Quota (Hp s) < 3"
        using slow_grow [OF mgr k arr idx len bound] by blast
      note go = go [unfolded g(1) Option.bind.simps prod.case, folded if_not_P [OF False]]
      show ?thesis
      proof (cases ok)
        case no: False
        then have "InsertBlockIndexEntry mode ?t q s = Some (None, q1, s1)" using go False by simp
        then show ?thesis using g no inv
          by (intro exI [of _ None] exI [of _ q1] exI [of _ s1]) (simp add: option.case)
      next
        case True
        then obtain ps' where n: "slow_array k q1 (m + 1) (2 ^ m) ps' (of_nat (ix (2 ^ (m + 1)) (2 ^ m) 1))"
          "slow_index (2 ^ (m + 1)) (2 ^ k) (2 ^ m) j0 ls (length (SlowArrays q1)) ps' (SlowEntries q1)"
          using g(6) by auto
        have "length ls < 2 ^ (m + 1)" unfolding len by simp
        from slow_take [OF n this] obtain A' key q' where t: "slow_current q1 = Some A'"
          "(SA_Tail A' + 1) AND (SA_Size A' - 1) = of_nat (2 ^ m)" "index_ptr A' (of_nat (2 ^ m)) = Some (ps' ! (2 ^ m))"
          "take_index_slot ?t A' (of_nat (2 ^ m)) (ps' ! (2 ^ m)) q1 = Some (Some (ps' ! (2 ^ m)), q')"
          "slow_pending k q' j0 ls (ps' ! (2 ^ m))" "slow_only q1 q'" by blast
        have "InsertBlockIndexEntry mode ?t q s = Some (Some (ps' ! (2 ^ m)), q', s1)"
          by (simp only: go False True t(1-4) option.case Let_def prod.case Option.bind.simps simp_thms if_False)
        then show ?thesis using g(2-4) t(5) slow_only_trans [OF g(5) t(6)]
          by (intro exI [of _ "Some (ps' ! (2 ^ m))"] exI [of _ q'] exI [of _ s1]) simp
      qed
    qed
  qed
qed

section \<open>The invariant\<close>

definition slow_inv :: "nat \<Rightarrow> addr set \<Rightarrow> slowq \<Rightarrow> 'a mem \<Rightarrow> nat \<Rightarrow> nat \<Rightarrow> (nat \<Rightarrow> 'a) \<Rightarrow> addr list \<Rightarrow> bool" where
  "slow_inv k V q s hn tn f ls \<longleftrightarrow> 1 \<le> k \<and> k < 64
     \<and> mgr_inv (2 ^ k) s (V \<union> set ls) \<and> V \<inter> set ls = {} \<and> uniform True s \<and> SlowHasManager q
     \<and> HeadIndex q = of_nat hn \<and> TailIndex q = of_nat tn
     \<and> DequeueAttemptsCount q - DequeueFailedCount q = of_nat hn
     \<and> (tn mod 2 ^ k \<noteq> 0 \<longrightarrow> TailBlock q = last_opt ls)
     \<and> window (2 ^ k) hn tn f (blk s) ls
     \<and> slow_index_inv k q (hn div 2 ^ k) ls"

lemma slow_invD:
  assumes "slow_inv k V q s hn tn f ls"
  shows "1 \<le> k" "k < 64" "mgr_inv (2 ^ k) s (V \<union> set ls)" "V \<inter> set ls = {}" "uniform True s"
    "SlowHasManager q" "HeadIndex q = of_nat hn" "TailIndex q = of_nat tn"
    "DequeueAttemptsCount q - DequeueFailedCount q = of_nat hn"
    "tn mod 2 ^ k \<noteq> 0 \<Longrightarrow> TailBlock q = last_opt ls" "window (2 ^ k) hn tn f (blk s) ls"
    "slow_index_inv k q (hn div 2 ^ k) ls"
  using assms unfolding slow_inv_def by blast+

lemma slow_inv_span:
  assumes "slow_inv k V q s hn tn f ls"
  shows "hn \<le> tn" "tn - hn < 2 ^ 63" "length ls * 2 ^ k < 2 ^ 63" "distinct ls"
proof -
  note d = slow_invD [OF assms]
  show dist: "distinct ls" using d(11) by (simp add: window_def)
  show *: "length ls * 2 ^ k < 2 ^ 63"
    using mgr_inv_slots [OF d(3) dist] by simp
  have span: "hn \<le> tn" "tn - hn \<le> length ls * 2 ^ k"
    using window_span [OF _ d(11)] by auto
  show "hn \<le> tn" by (rule span)
  show "tn - hn < 2 ^ 63" using span(2) * by (rule le_less_trans)
qed

lemma slow_circ:
  assumes "slow_inv k V q s hn tn f ls"
  shows "CircularLessThan (of_nat hn :: size_t) (of_nat tn) \<longleftrightarrow> hn < tn"
  using slow_inv_span(1,2) [OF assms] by (intro CircularLessThan_of_nat) auto

lemma uniform_put: "uniform c s \<Longrightarrow> HasMeaningfulSetResult (Policy b) = c \<Longrightarrow> uniform c (put a b s)"
  by (auto simp: uniform_def)

section \<open>Dequeue\<close>

lemma slow_Dequeue_empty:
  assumes "slow_inv k V q s hn hn f ls"
  shows "SlowQueue_Dequeue (2 ^ k) throws q s = Some (Ret None, q, s)"
  using slow_invD(8,9) [OF assms] by (simp add: SlowQueue_Dequeue_def)

lemma slow_index_inv_cong:
  "SlowArrays q' = SlowArrays q \<Longrightarrow> SlowEntries q' = SlowEntries q \<Longrightarrow>
   IndexEntriesSize q' = IndexEntriesSize q \<Longrightarrow> slow_index_inv k q' j ls = slow_index_inv k q j ls"
  by (simp add: slow_index_inv_def slow_array_def)

lemma slow_Dequeue_next:
  assumes inv: "slow_inv k V q s hn tn f ls" and lt: "hn < tn"
  shows "\<exists>q' s' ls'. SlowQueue_Dequeue (2 ^ k) throws q s
      = Some (if throws (f hn) then Exn else Ret (Some (f hn)), q', s')
    \<and> slow_inv k V q' s' (Suc hn) tn f ls' \<and> (\<forall>x \<in> V. blk s' x = blk s x)
    \<and> Quota (Hp s') = Quota (Hp s)"
proof -
  let ?n = "2 ^ k :: nat" and ?i = "hn mod 2 ^ k"
  note d = slow_invD [OF inv]
  have n: "0 < ?n" by simp
  obtain a ls1 b where ls: "ls = a # ls1" and b: "blk s a = Some b" and h: "holds ?n (hn div ?n) hn tn f b"
    by (rule window_head [OF n d(11) lt])
  note slot = holds_head_slot [OF n h lt]
  have hm: "HasMeaningfulSetResult (Policy b)" using d(5) b by (simp add: uniform_def)
  obtain pol where pol: "SetEmpty (2 ^ k) (of_nat ?i) (Policy b) = Some (Suc hn mod ?n = 0, pol)"
    "holds ?n (hn div ?n) (Suc hn) tn f (b\<lparr>Elements := (Elements b)[?i := None], Policy := pol\<rparr>)"
    using slot(3) hm by auto
  let ?b = "b\<lparr>Elements := (Elements b)[?i := None], Policy := pol\<rparr>"
  let ?q = "q\<lparr>DequeueAttemptsCount := DequeueAttemptsCount q + 1, HeadIndex := HeadIndex q + 1\<rparr>"
  let ?s = "put a ?b s"
  obtain p key where p: "GetBlockIndexEntryForIndex (2 ^ k) ?q (of_nat hn) = Some p"
    "SlowEntries q p = Some (key, Some a)"
    "slow_index_inv k (q\<lparr>SlowEntries := (SlowEntries q)(p \<mapsto> (key, None))\<rparr>) (Suc (hn div ?n)) ls1"
    using slow_lookup [OF d(12) [unfolded ls] d(2), of ?q] by auto
  have inner: "(of_nat hn :: size_t) AND (2 ^ k - 1) = of_nat ?i" "unat (of_nat ?i :: size_t) = ?i"
    using fast_inner_index [OF d(2)] by blast+
  have run: "SlowQueue_Dequeue (2 ^ k) throws q s = do {
      (q3, s3) \<leftarrow> Retire (Suc hn mod ?n = 0) p (Some a) ?q ?s;
      Some (if throws (f hn) then Exn else Ret (Some (f hn)), q3, s3) }"
    using slow_circ [OF inv] lt d(7-9) b slot(1,2) pol(1) p(1,2)
    by (simp add: SlowQueue_Dequeue_def inner heap_simps)
  have dist: "a \<notin> set ls1" "a \<notin> V" using slow_inv_span(4) [OF inv] d(4) ls by auto
  have mgr: "mgr_inv ?n ?s (V \<union> set ls)"
    using mgr_inv_put [OF d(3), of a b ?b] b ls holds_wf [OF pol(2)] by (simp add: client_write_def)
  have uni: "uniform True ?s" using SetEmpty_meaningful [OF pol(1)] hm by (intro uniform_put d(5)) simp
  have pop: "if Suc hn mod ?n = 0 then window ?n (Suc hn) tn f (blk ?s) ls1 \<and> spent ?n ?b
    else window ?n (Suc hn) tn f (blk ?s) (a # ls1)"
    using dist by (intro window_pop [OF n d(11) [unfolded ls] lt _ pol(2)]) auto
  have att: "DequeueAttemptsCount q + 1 - DequeueFailedCount q = of_nat (Suc hn)"
    using d(9) by (simp add: algebra_simps)
  have frame: "\<forall>x \<in> V. blk ?s x = blk s x" using dist by auto
  show ?thesis
  proof (cases "Suc hn mod ?n = 0")
    case False
    have "slow_index_inv k ?q (hn div 2 ^ k) ls"
      using d(12) slow_index_inv_cong [of ?q q] by simp
    then have "slow_inv k V ?q ?s (Suc hn) tn f ls"
      unfolding slow_inv_def using d(1-8,10) mgr uni pop att ls False
      by (simp add: div_Suc)
    with run frame False show ?thesis by (auto simp: Retire_def put_def)
  next
    case True
    let ?q3 = "?q\<lparr>SlowEntries := (SlowEntries q)(p \<mapsto> (key, None))\<rparr>"
    have raw: "raw ?b" using pop True by (simp add: spent_def)
    obtain s3 where s3: "ReturnBlock a ?s = Some s3" "mgr_inv ?n s3 (V \<union> set ls - {a})"
      "\<forall>x. x \<noteq> a \<longrightarrow> blk s3 x = blk ?s x" "Quota (Hp s3) = Quota (Hp ?s)" "\<forall>c. uniform c ?s \<longrightarrow> uniform c s3"
      using ReturnBlock_spec [OF mgr, of a ?b] ls raw by auto
    have "Retire True p (Some a) ?q ?s = Some (?q3, s3)"
      using p(2) s3(1) d(6) by (simp add: Retire_def store_Value_def)
    with run True have run': "SlowQueue_Dequeue (2 ^ k) throws q s
        = Some (if throws (f hn) then Exn else Ret (Some (f hn)), ?q3, s3)" by simp
    have U: "V \<union> set ls - {a} = V \<union> set ls1" using ls dist by auto
    have "Suc hn div ?n = Suc (hn div ?n)" using True by (simp add: div_Suc)
    then have idx: "slow_index_inv k ?q3 (Suc hn div ?n) ls1"
      using p(3) slow_index_inv_cong [of ?q3 "q\<lparr>SlowEntries := (SlowEntries q)(p \<mapsto> (key, None))\<rparr>"] by simp
    have win: "window ?n (Suc hn) tn f (blk s3) ls1"
    proof -
      have "blk s3 x = blk ?s x" if "x \<in> set ls1" for x using s3(3) that dist by auto
      then show ?thesis using pop True by (simp add: window_def)
    qed
    have tail: "TailBlock q = last_opt ls1" if "tn mod ?n \<noteq> 0"
    proof -
      have "ls1 \<noteq> []"
      proof
        assume "ls1 = []"
        then have "Suc hn div ?n = tn div ?n + 1" using win that by (simp add: window_def up_mid)
        moreover have "Suc hn \<le> tn" using lt by simp
        ultimately show False using div_le_mono [of "Suc hn" tn ?n] by simp
      qed
      then show ?thesis using d(10) [OF that] ls by (simp add: last_opt_def)
    qed
    have "slow_inv k V ?q3 s3 (Suc hn) tn f ls1"
      unfolding slow_inv_def using d(1,2,4,6-8) s3(2,5) uni U win idx att tail ls by simp
    moreover have "\<forall>x \<in> V. blk s3 x = blk s x" using frame s3(3) dist by auto
    moreover have "Quota (Hp s3) = Quota (Hp s)" using s3(4) by (simp add: put_def)
    ultimately show ?thesis using run' by blast
  qed
qed

section \<open>Enqueue\<close>

lemma slow_room:
  assumes inv: "slow_inv k V q s hn tn f ls" and quota: "0 < Quota (Hp s)"
  shows "CircularLessThan (HeadIndex q) (TailIndex q + 2 ^ k)"
proof -
  let ?n = "2 ^ k :: nat"
  note d = slow_invD [OF inv]
  have small: "length ls * ?n + ?n < 2 ^ 63"
    using mgr_room [OF d(3) slow_inv_span(4) [OF inv] _ quota] by auto
  have span: "hn \<le> tn" "tn - hn \<le> length ls * ?n" using window_span [OF _ d(11)] by auto
  have n: "0 < ?n" by simp
  have "CircularLessThan (of_nat hn :: size_t) (of_nat (tn + ?n)) \<longleftrightarrow> hn < tn + ?n"
    using span n small by (intro CircularLessThan_size_t) linarith+
  then show ?thesis using d(7,8) span(1) n by simp
qed

text \<open>A refused enqueue leaves the queue as it was, apart from the storage of the index.\<close>

lemma slow_inv_keep:
  assumes "slow_inv k V q s hn tn f ls" "slow_only q q'" "slow_index_inv k q' (hn div 2 ^ k) ls"
    "mgr_inv (2 ^ k) s' (V \<union> set ls)" "\<And>x. x \<in> V \<union> set ls \<Longrightarrow> blk s' x = blk s x" "uniform True s'"
  shows "slow_inv k V q' s' hn tn f ls"
proof -
  note d = slow_invD [OF assms(1)]
  have "window (2 ^ k) hn tn f (blk s') ls" using d(11) assms(5) by (simp add: window_def)
  then show ?thesis unfolding slow_inv_def using d assms(2-4,6) by (simp add: slow_only_def)
qed

text \<open>The middle of a block: the element goes to the next slot of the tail block.\<close>

lemma slow_Enqueue_mid:
  assumes inv: "slow_inv k V q s hn tn f ls" and m: "tn mod 2 ^ k \<noteq> 0"
  shows "\<exists>t s'. TailBlock q = Some t \<and> Slot_construct (Some t) (of_nat (tn mod 2 ^ k)) v s = Some s'
    \<and> slow_inv k V (q\<lparr>TailIndex := TailIndex q + 1\<rparr>) s' hn (Suc tn) (f(tn := v)) ls
    \<and> (\<forall>x \<in> V. blk s' x = blk s x) \<and> Quota (Hp s') = Quota (Hp s)"
proof -
  let ?n = "2 ^ k :: nat"
  note d = slow_invD [OF inv]
  have n: "0 < ?n" and le: "hn \<le> tn" using d(11) by (simp_all add: window_def)
  have ls: "ls \<noteq> []" "hn div ?n + length ls = tn div ?n + 1"
    using window_length_mid [OF n d(11) m] by simp_all
  define t where "t = last ls"
  have t: "t \<in> set ls" "TailBlock q = Some t" using ls(1) d(10) [OF m] by (simp_all add: t_def last_opt_def)
  obtain b where b: "blk s t = Some b" "holds ?n (tn div ?n) hn tn f b"
  proof -
    have "length ls - 1 < length ls" using ls(1) by simp
    from window_nth [OF d(11) this] obtain b where "blk s (ls ! (length ls - 1)) = Some b"
      "holds ?n (hn div ?n + (length ls - 1)) hn tn f b" .
    moreover have "hn div ?n + (length ls - 1) = tn div ?n" using ls by (cases ls) auto
    ultimately show ?thesis using that ls(1) by (simp add: t_def last_conv_nth)
  qed
  let ?b = "b\<lparr>Elements := (Elements b)[tn mod ?n := Some v]\<rparr>"
  note slot = holds_tail_slot [OF n b(2) le]
  let ?s = "put t ?b s" and ?q = "q\<lparr>TailIndex := TailIndex q + 1\<rparr>"
  have run: "Slot_construct (Some t) (of_nat (tn mod ?n)) v s = Some ?s"
    using b(1) slot(1,2) fast_inner_index(2) [OF d(2), of tn] by (simp add: Slot_construct_eq)
  have mgr: "mgr_inv ?n ?s (V \<union> set ls)"
    using mgr_inv_put [OF d(3), of t b ?b] t(1) b(1) holds_wf [OF slot(3)] by (simp add: client_write_def)
  have win: "window ?n hn (Suc tn) (f(tn := v)) (blk ?s) ls"
    by (rule window_push [OF n d(11) m _ slot(3)]) (auto simp: t_def)
  have uni: "uniform True ?s" using d(5) b(1) by (intro uniform_put d(5)) (simp add: uniform_def)
  have idx: "slow_index_inv k ?q (hn div 2 ^ k) ls" using d(12) slow_index_inv_cong [of ?q q] by simp
  have "slow_inv k V ?q ?s hn (Suc tn) (f(tn := v)) ls"
    unfolding slow_inv_def using d(1,2,4,6-9) mgr win uni idx t(2) ls(1)
    by (simp add: t_def last_opt_def add.commute)
  moreover have "\<forall>x \<in> V. blk ?s x = blk s x" using d(4) t(1) by auto
  ultimately show ?thesis using run t(2) by (intro exI [of _ t] exI [of _ ?s]) (simp add: put_def)
qed

text \<open>A new tail block: reset, filled and published, or returned after an exception.\<close>

lemma slow_Enqueue_block:
  assumes inv: "slow_inv k V q s hn tn f ls" and m: "tn mod 2 ^ k = 0"
    and q1: "slow_only q q1" "slow_pending k q1 (hn div 2 ^ k) ls p"
    and s1: "mgr_inv (2 ^ k) s1 (insert a (V \<union> set ls))" "a \<notin> V \<union> set ls"
      "blk s1 a = Some b" "fresh_block (2 ^ k) b" "\<And>x. x \<in> V \<union> set ls \<Longrightarrow> blk s1 x = blk s x" "uniform True s1"
  shows "\<exists>s2. Block_Reset (Some a) s1 = Some s2
    \<and> (\<exists>q3 s3. store_Value p (Some a) q1 = Some q3 \<and> Slot_construct (Some a) 0 v s2 = Some s3
        \<and> slow_inv k V (q3\<lparr>TailBlock := Some a, TailIndex := TailIndex q + 1\<rparr>) s3 hn (Suc tn) (f(tn := v)) (ls @ [a])
        \<and> (\<forall>x \<in> V. blk s3 x = blk s x) \<and> Quota (Hp s3) = Quota (Hp s1))
    \<and> (\<exists>q2 q3 s3. RewindBlockIndexTail q1 = Some q2 \<and> store_Value p None q2 = Some q3
        \<and> ReturnBlock a s2 = Some s3 \<and> slow_inv k V q3 s3 hn tn f ls
        \<and> (\<forall>x \<in> V. blk s3 x = blk s x) \<and> Quota (Hp s3) = Quota (Hp s1))"
proof -
  let ?n = "2 ^ k :: nat"
  note d = slow_invD [OF inv]
  have n: "0 < ?n" and le: "hn \<le> tn" using d(11) by (simp_all add: window_def)
  let ?b = "b\<lparr>Policy := ResetPolicy (Policy b)\<rparr>"
  let ?s = "put a ?b s1"
  have raw: "raw b" "block_wf ?n b" using s1(4) by (simp_all add: fresh_block_def)
  have hm: "HasMeaningfulSetResult (Policy b)" using s1(3,6) by (simp add: uniform_def)
  have kind: "HasMeaningfulSetResult (ResetPolicy (Policy b))" using hm by (cases "Policy b") auto
  have holds: "holds ?n (tn div ?n) hn tn f ?b" by (rule holds_reset [OF n m le raw(2,1)])
  have rs: "Block_Reset (Some a) s1 = Some ?s" using s1(3) by (rule Block_Reset_eq)
  have mgr: "mgr_inv ?n ?s (insert a (V \<union> set ls))"
    using mgr_inv_put [OF s1(1), of a b ?b] s1(3) holds_wf [OF holds] by (simp add: client_write_def)
  have uni: "uniform True ?s" by (rule uniform_put [OF s1(6)]) (simp add: kind)
  have old: "blk ?s x = blk s x" if "x \<in> V \<union> set ls" for x using that s1(2,5) by auto
  note slot = holds_tail_slot [OF n holds le]
  let ?b3 = "?b\<lparr>Elements := (Elements ?b)[tn mod ?n := Some v]\<rparr>"
  let ?s3 = "put a ?b3 ?s"
  have A: "\<exists>q3 s3. store_Value p (Some a) q1 = Some q3 \<and> Slot_construct (Some a) 0 v ?s = Some s3
        \<and> slow_inv k V (q3\<lparr>TailBlock := Some a, TailIndex := TailIndex q + 1\<rparr>) s3 hn (Suc tn) (f(tn := v)) (ls @ [a])
        \<and> (\<forall>x \<in> V. blk s3 x = blk s x) \<and> Quota (Hp s3) = Quota (Hp s1)"
  proof -
    obtain q3 where q3: "store_Value p (Some a) q1 = Some q3" "slow_index_inv k q3 (hn div ?n) (ls @ [a])"
      "slow_only q1 q3" using slow_publish [OF q1(2)] by blast
    let ?q = "q3\<lparr>TailBlock := Some a, TailIndex := TailIndex q + 1\<rparr>"
    have idx: "slow_index_inv k ?q (hn div 2 ^ k) (ls @ [a])" using q3(2) slow_index_inv_cong [of ?q q3] by simp
    have con: "Slot_construct (Some a) 0 v ?s = Some ?s3"
      using Slot_construct_eq [of ?s a ?b "0 :: size_t" v] slot(1,2) m by simp
    have mgr3: "mgr_inv ?n ?s3 (V \<union> set (ls @ [a]))"
      using mgr_inv_put [OF mgr, of a ?b ?b3] holds_wf [OF slot(3)] by (simp add: client_write_def)
    have win: "window ?n hn (Suc tn) (f(tn := v)) (blk ?s3) (ls @ [a])"
    proof (rule window_append [OF n d(11) m _ _ slot(3)])
      show "blk ?s3 x = blk s x" if "x \<in> set ls" for x using that s1(2,5) by auto
    qed (use s1(2) in auto)
    have uni3: "uniform True ?s3" by (rule uniform_put [OF uni]) (simp add: kind)
    have "slow_only q q3" using slow_only_trans [OF q1(1) q3(3)] .
    then have "slow_inv k V ?q ?s3 hn (Suc tn) (f(tn := v)) (ls @ [a])"
      unfolding slow_inv_def using d(1,2,4,6-9) s1(2) mgr3 win uni3 idx
      by (simp add: slow_only_def last_opt_def add.commute)
    moreover have "\<forall>x \<in> V. blk ?s3 x = blk s x" using s1(2,5) by auto
    moreover have "Quota (Hp ?s3) = Quota (Hp s1)" by (simp add: put_def)
    ultimately show ?thesis using q3(1) con by blast
  qed
  have B: "\<exists>q2 q3 s3. RewindBlockIndexTail q1 = Some q2 \<and> store_Value p None q2 = Some q3
        \<and> ReturnBlock a ?s = Some s3 \<and> slow_inv k V q3 s3 hn tn f ls
        \<and> (\<forall>x \<in> V. blk s3 x = blk s x) \<and> Quota (Hp s3) = Quota (Hp s1)"
  proof -
    obtain q2 q3 where q3: "RewindBlockIndexTail q1 = Some q2" "store_Value p None q2 = Some q3"
      "slow_index_inv k q3 (hn div ?n) ls" "slow_only q1 q3" using slow_unwind [OF q1(2)] by blast
    have "raw ?b" using raw(1) by (simp add: raw_def)
    then obtain s3 where s3: "ReturnBlock a ?s = Some s3" "mgr_inv ?n s3 (insert a (V \<union> set ls) - {a})"
      "\<forall>x. x \<noteq> a \<longrightarrow> blk s3 x = blk ?s x" "Quota (Hp s3) = Quota (Hp ?s)" "\<forall>c. uniform c ?s \<longrightarrow> uniform c s3"
      using ReturnBlock_spec [OF mgr, of a ?b] by auto
    have U: "insert a (V \<union> set ls) - {a} = V \<union> set ls" using s1(2) by auto
    have same: "blk s3 x = blk s x" if "x \<in> V \<union> set ls" for x
      using s3(3) old [OF that] that s1(2) by metis
    have "slow_inv k V q3 s3 hn tn f ls"
      by (rule slow_inv_keep [OF inv slow_only_trans [OF q1(1) q3(4)] q3(3)])
        (use s3(2,5) uni same in \<open>simp_all add: U\<close>)
    moreover have "Quota (Hp s3) = Quota (Hp s1)" using s3(4) by (simp add: put_def)
    ultimately show ?thesis using q3(1,2) s3(1) same by blast
  qed
  show ?thesis using rs A B by blast
qed

text \<open>
  \<^verbatim>\<open>Enqueue\<close> on every path, while memory lasts: with four allocations left, or without allocating,
  no exception of the allocator can reach it between the two steps of \<^verbatim>\<open>InsertBlockIndexEntry\<close> and
  \<^verbatim>\<open>RequisitionBlock\<close>.
\<close>

lemma slow_Enqueue:
  assumes inv: "slow_inv k V q s hn tn f ls" and proto: "fresh_proto (2 ^ k) proto"
    and kind: "HasMeaningfulSetResult (Policy proto)" and quota: "mode = CanAlloc \<longrightarrow> 4 \<le> Quota (Hp s)"
  shows "\<exists>r q' s'. SlowQueue_Enqueue (2 ^ k) proto mode arg q s = Some (r, q', s')
    \<and> (\<forall>x \<in> V. blk s' x = blk s x) \<and> Quota (Hp s) \<le> Quota (Hp s') + 4
    \<and> (case r of
         Ret True \<Rightarrow> \<exists>v ls'. arg = Some v \<and> slow_inv k V q' s' hn (Suc tn) (f(tn := v)) ls'
       | Ret False \<Rightarrow> (mode = CannotAlloc \<or> SlowArrays q = []) \<and> slow_inv k V q' s' hn tn f ls
       | Exn \<Rightarrow> arg = None \<and> slow_inv k V q' s' hn tn f ls)"
proof (cases "tn mod 2 ^ k = 0")
  case False
  note d = slow_invD [OF inv]
  have inner: "TailIndex q AND (2 ^ k - 1) = of_nat (tn mod 2 ^ k)" "TailIndex q AND (2 ^ k - 1) \<noteq> 0"
    using fast_inner_index [OF d(2), of tn] d(8) False by simp_all
  show ?thesis
  proof (cases arg)
    case None
    then have "SlowQueue_Enqueue (2 ^ k) proto mode arg q s = Some (Exn, q, s)"
      using inner(2) by (simp add: SlowQueue_Enqueue_def)
    then show ?thesis using inv None by simp
  next
    case (Some v)
    from slow_Enqueue_mid [OF inv False, of v] obtain t s' where t: "TailBlock q = Some t"
      "Slot_construct (Some t) (of_nat (tn mod 2 ^ k)) v s = Some s'"
      "slow_inv k V (q\<lparr>TailIndex := TailIndex q + 1\<rparr>) s' hn (Suc tn) (f(tn := v)) ls"
      "\<forall>x \<in> V. blk s' x = blk s x" "Quota (Hp s') = Quota (Hp s)" by blast
    have "SlowQueue_Enqueue (2 ^ k) proto mode arg q s = Some (Ret True, q\<lparr>TailIndex := TailIndex q + 1\<rparr>, s')"
      using Some inner t(1,2) by (simp add: SlowQueue_Enqueue_def)
    then show ?thesis using t(3-5) Some by auto
  qed
next
  case m: True
  let ?n = "2 ^ k :: nat"
  note d = slow_invD [OF inv]
  have n: "0 < ?n" by simp
  have inner: "TailIndex q AND (2 ^ k - 1) = 0" using fast_inner_index(3) [OF d(2), of tn] d(8) m by simp
  show ?thesis
  proof (cases "CircularLessThan (HeadIndex q) (TailIndex q + 2 ^ k)")
    case False
    then have "mode = CannotAlloc" using slow_room [OF inv] quota by (cases mode) auto
    moreover have "SlowQueue_Enqueue (2 ^ k) proto mode arg q s = Some (Ret False, q, s)"
      using inner False by (simp add: SlowQueue_Enqueue_def)
    ultimately show ?thesis using inv by simp
  next
    case room: True
    have len: "hn div ?n + length ls = tn div ?n" using d(11) m by (simp add: window_def up_boundary)
    then have key: "TailIndex q = of_nat ((hn div ?n + length ls) * 2 ^ k)"
      using d(8) boundary_mult [OF m] by simp
    obtain e q1 s1 where e: "InsertBlockIndexEntry mode (TailIndex q) q s = Some (e, q1, s1)"
      "mgr_inv ?n s1 (V \<union> set ls)" "blk s1 = blk s" "Quota (Hp s) \<le> Quota (Hp s1) + 3" "slow_only q q1"
      "case e of
         None \<Rightarrow> slow_index_inv k q1 (hn div ?n) ls \<and> (SlowArrays q = [] \<or> mode = CannotAlloc \<or> Quota (Hp s) < 3)
       | Some p \<Rightarrow> slow_pending k q1 (hn div ?n) ls p"
      using slow_Insert [OF d(3,1,12) slow_inv_span(3) [OF inv], of mode] unfolding key by blast
    have uni1: "uniform True s1" using d(5) e(3) by (simp add: uniform_def)
    have go: "SlowQueue_Enqueue (2 ^ k) proto mode arg q s = (case e of None \<Rightarrow> Some (Ret False, q1, s1)
        | Some NewIndexEntry \<Rightarrow> do {
               (r, s2) \<leftarrow> RequisitionBlock proto mode s1;
               case r of Exn \<Rightarrow> Some (Exn, q1, s2)
               | Ret None \<Rightarrow> do {
                   q2 \<leftarrow> RewindBlockIndexTail q1;
                   q3 \<leftarrow> store_Value NewIndexEntry None q2;
                   Some (Ret False, q3, s2) }
               | Ret (Some NewBlock) \<Rightarrow> do {
                   s3 \<leftarrow> Block_Reset (Some NewBlock) s2;
                   case arg of
                     None \<Rightarrow> do {
                       q2 \<leftarrow> RewindBlockIndexTail q1;
                       q3 \<leftarrow> store_Value NewIndexEntry None q2;
                       s4 \<leftarrow> ReturnBlock NewBlock s3;
                       Some (Exn, q3, s4) }
                   | Some v \<Rightarrow> do {
                       s4 \<leftarrow> Slot_construct (Some NewBlock) 0 v s3;
                       q2 \<leftarrow> store_Value NewIndexEntry (Some NewBlock) q1;
                       Some (Ret True, q2\<lparr>TailBlock := Some NewBlock, TailIndex := TailIndex q + 1\<rparr>, s4) } } })"
      using inner room e(1,5) d(6) by (simp add: SlowQueue_Enqueue_def slow_only_def cong: option.case_cong)
    show ?thesis
    proof (cases e)
      case None
      have "slow_inv k V q1 s1 hn tn f ls"
        using e(6) None by (intro slow_inv_keep [OF inv e(5) _ e(2) _ uni1]) (simp_all add: e(3))
      moreover have "mode = CannotAlloc \<or> SlowArrays q = []"
        using e(6) None quota by (cases mode) auto
      ultimately show ?thesis using go None e(3,4) by auto
    next
      case (Some p)
      then have pend: "slow_pending k q1 (hn div ?n) ls p" using e(6) by simp
      note go = go [unfolded Some option.case]
      have pr: "fresh_block ?n proto" "\<not> HasOwner proto" "FreeListRefs proto = 0"
        using proto by (simp_all add: fresh_proto_def)
      obtain r s2 where r: "RequisitionBlock proto mode s1 = Some (r, s2)"
        "\<forall>x \<in> V \<union> set ls. blk s2 x = blk s1 x" "req_frame proto s1 s2"
        "case r of Exn \<Rightarrow> mode = CanAlloc \<and> s2 = s1 \<and> Quota (Hp s1) = 0
          | Ret None \<Rightarrow> mode = CannotAlloc \<and> s2 = s1
          | Ret (Some a) \<Rightarrow> a \<notin> V \<union> set ls \<and> mgr_inv ?n s2 (insert a (V \<union> set ls))
            \<and> (\<exists>b. blk s2 a = Some b \<and> fresh_block ?n b)"
        using RequisitionBlock_spec [OF e(2) pr, of mode] by blast
      have uni2: "uniform True s2" using r(3) uni1 kind by (simp add: req_frame_def)
      have q2: "Quota (Hp s) \<le> Quota (Hp s2) + 4" using r(3) e(4) by (simp add: req_frame_def)
      show ?thesis
      proof (cases r)
        case Exn
        then have False using r(4) e(4) quota by simp
        then show ?thesis ..
      next
        case (Ret x)
        show ?thesis
        proof (cases x)
          case None
          then have cm: "mode = CannotAlloc" "s2 = s1" using r(4) Ret by simp_all
          obtain q2 q3 where q3: "RewindBlockIndexTail q1 = Some q2" "store_Value p None q2 = Some q3"
            "slow_index_inv k q3 (hn div ?n) ls" "slow_only q1 q3" using slow_unwind [OF pend] by blast
          have "slow_inv k V q3 s1 hn tn f ls"
            by (rule slow_inv_keep [OF inv slow_only_trans [OF e(5) q3(4)] q3(3) e(2) _ uni1]) (simp add: e(3))
          moreover have "SlowQueue_Enqueue (2 ^ k) proto mode arg q s = Some (Ret False, q3, s1)"
            using go r(1) Ret None cm(2) q3(1,2) by simp
          ultimately show ?thesis using cm(1) e(3,4) by auto
        next
          case (Some a)
          then obtain b where a: "a \<notin> V \<union> set ls" "mgr_inv ?n s2 (insert a (V \<union> set ls))"
            "blk s2 a = Some b" "fresh_block ?n b" using r(4) Ret by auto
          have same: "blk s2 x = blk s x" if "x \<in> V \<union> set ls" for x using r(2) that e(3) by simp
          note goal = slow_Enqueue_block [OF inv m e(5) pend a(2,1,3,4) same uni2]
          show ?thesis
          proof (cases arg)
            case None
            obtain s3 q2 q3 s4 where g: "Block_Reset (Some a) s2 = Some s3" "RewindBlockIndexTail q1 = Some q2"
              "store_Value p None q2 = Some q3" "ReturnBlock a s3 = Some s4" "slow_inv k V q3 s4 hn tn f ls"
              "\<forall>x \<in> V. blk s4 x = blk s x" "Quota (Hp s4) = Quota (Hp s2)" using goal by blast
            have "SlowQueue_Enqueue (2 ^ k) proto mode arg q s = Some (Exn, q3, s4)"
              using go r(1) Ret Some None g(1-4) by simp
            then show ?thesis using g(5-7) q2 None by simp
          next
            case (Some v)
            obtain s3 q3 s4 where g: "Block_Reset (Some a) s2 = Some s3"
              "store_Value p (Some a) q1 = Some q3" "Slot_construct (Some a) 0 v s3 = Some s4"
              "slow_inv k V (q3\<lparr>TailBlock := Some a, TailIndex := TailIndex q + 1\<rparr>) s4 hn (Suc tn) (f(tn := v)) (ls @ [a])"
              "\<forall>x \<in> V. blk s4 x = blk s x" "Quota (Hp s4) = Quota (Hp s2)" using goal by blast
            have "SlowQueue_Enqueue (2 ^ k) proto mode arg q s
                = Some (Ret True, q3\<lparr>TailBlock := Some a, TailIndex := TailIndex q + 1\<rparr>, s4)"
              using go r(1) Ret \<open>x = Some a\<close> Some g(1-3) by simp
            then show ?thesis using g(4-6) q2 Some by auto
          qed
        qed
      qed
    qed
  qed
qed

end
