(* ===== verification/Slow_Queue_Properties.thy ===== *)
theory Slow_Queue_Properties
  imports Slow_Queue_Correct Fast_Queue_Properties
begin

text \<open>
  What the invariant of \<^verbatim>\<open>Slow_Queue_Correct\<close> gives for the operations of \<^verbatim>\<open>SlowQueue\<close>, stated over
  the list of values the queue holds, and three runs of the model on which the code misbehaves.
\<close>

section \<open>Construction\<close>

lemma slow_new:
  assumes mgr: "mgr_inv (2 ^ k) s V" and uni: "uniform True s" and k: "1 \<le> k" "k \<le> 62"
    and size: "unat InSize \<le> 2 ^ (64 - k)"
  shows "\<exists>q s'. SlowQueue_new InSize s = Some (q, s') \<and> slow_inv k V q s' 0 0 f []
    \<and> blk s' = blk s \<and> Quota (Hp s) \<le> Quota (Hp s') + 3"
proof -
  let ?I = "drop_bit 1 (CeilToPow2 InSize)"
  define I where "I = (if ?I < 2 then 2 else ?I)"
  obtain m where m: "1 \<le> m" "m + 1 + k \<le> 64" "I = 2 ^ m"
    by (rule initial_index_size [OF k size, folded I_def])
  let ?q = "\<lparr>HeadIndex = 0, TailIndex = 0, DequeueAttemptsCount = 0, DequeueFailedCount = 0,
    TailBlock = None, SlowArrays = [], SlowEntries = Map.empty, SlowHasManager = True, IndexEntriesSize = I\<rparr>"
  have u: "unat I = 2 ^ m" unfolding m(3) using m(1,2) k by (intro unat_pow2) simp
  have lt: "(2::nat) ^ m < 2 ^ 64" using m(2) by (intro power_strict_increasing) auto
  let ?N0 = "replicate (2 ^ m) None :: entry_ptr option list"
  obtain N2 and E :: "entry_ptr \<Rightarrow> slow_entry option" where
    N: "new_entries 0 (2 ^ m) 0 0 ?N0 Map.empty = Some (N2, E)" "length N2 = 2 ^ m"
    "\<And>t. t < 2 ^ m \<Longrightarrow> N2 ! t = Some (0, t)"
    "\<And>p. E p = (if fst p = 0 \<and> snd p < 2 ^ m then Some (INVALID_BLOCK_BASE, None) else None)"
    using new_entries_eq [of 0 0 "2 ^ m" ?N0 0 Map.empty] lt by auto
  have "\<exists>ok q' s'. SlowQueue_CreateNewBlockIndexArray ?q s = Some (ok, q', s') \<and> mgr_inv (2 ^ k) s' V
    \<and> blk s' = blk s \<and> Quota (Hp s) \<le> Quota (Hp s') + 3
    \<and> (if ok then \<exists>self at iat. q' = ?q\<lparr>SlowArrays := \<lparr>SA_Self = self, SA_At = at, SA_IndexAt = iat,
            SA_Size = IndexEntriesSize ?q, SA_Tail = (0 - 1) AND (IndexEntriesSize ?q - 1),
            SA_Index = N2\<rparr> # SlowArrays ?q,
          SlowEntries := E, IndexEntriesSize := push_bit 1 (IndexEntriesSize ?q)\<rparr>
        else q' = ?q \<and> Quota (Hp s) < 3)"
    by (rule slow_Create_alloc [OF mgr, where EntryCount = I and PrevSize = 0 and ?New1.0 = ?N0])
      (use u N(1) in \<open>simp_all add: slow_current_def\<close>)
  then obtain ok q' s' where c: "SlowQueue_CreateNewBlockIndexArray ?q s = Some (ok, q', s')"
    "mgr_inv (2 ^ k) s' V" "blk s' = blk s" "Quota (Hp s) \<le> Quota (Hp s') + 3"
    "if ok then \<exists>self at iat. q' = ?q\<lparr>SlowArrays := [\<lparr>SA_Self = self, SA_At = at, SA_IndexAt = iat,
            SA_Size = I, SA_Tail = (- 1) AND (I - 1), SA_Index = N2\<rparr>],
          SlowEntries := E, IndexEntriesSize := push_bit 1 I\<rparr>
        else q' = ?q" by (auto split: if_splits)
  have run: "SlowQueue_new InSize s = Some (q', s')"
    using c(1) unfolding SlowQueue_new_def Let_def I_def [symmetric] by simp
  have uni': "uniform True s'" using uni c(3) by (simp add: uniform_def)
  have idx: "slow_index_inv k q' 0 []"
  proof (cases ok)
    case True
    define ps where "ps = List.map (\<lambda>t. (0 :: nat, t)) [0..<2 ^ m]"
    have N2: "N2 = List.map Some ps" by (rule nth_equalityI) (simp_all add: N(2,3) ps_def)
    obtain self at iat where q': "q' = ?q\<lparr>SlowArrays := [\<lparr>SA_Self = self, SA_At = at, SA_IndexAt = iat,
            SA_Size = I, SA_Tail = (- 1) AND (I - 1), SA_Index = N2\<rparr>],
          SlowEntries := E, IndexEntriesSize := push_bit 1 I\<rparr>" using c(5) True by auto
    have "((- 1) AND (2 ^ m - 1) :: size_t) = of_nat (ix (2 ^ m) 0 1)"
      using mask_diff_of_nat [of 1 m 0] m(2) by simp
    moreover have "push_bit 1 (2 ^ m) = (2 ^ (m + 1) :: size_t)" by (simp add: push_bit_eq_mult)
    ultimately have "slow_array k q' m 0 ps (of_nat (ix (2 ^ m) 0 1))"
      unfolding slow_array_def q' m(3) using m(1,2) k N2 by simp
    moreover have "slow_index (2 ^ m) (2 ^ k) 0 0 [] (length (SlowArrays q')) ps (SlowEntries q')"
      unfolding slow_index_def q'
      by (auto simp: ps_def distinct_map inj_on_def N(4) ix_less)
    ultimately show ?thesis unfolding slow_index_inv_def by (auto simp: q')
  qed (use c(5) in \<open>simp add: slow_index_inv_def\<close>)
  have "slow_inv k V q' s' 0 0 f []"
    unfolding slow_inv_def using c(2,5) k uni' idx
    by (auto simp: window_def up_def split: if_splits)
  then show ?thesis using run c(3,4) by blast
qed

section \<open>The queue as a queue of values\<close>

text \<open>
  \<open>slow_rel k proto V mode c (q, s) xs\<close>: \<open>q\<close> holds \<open>xs\<close>, and when it may allocate there is memory for
  \<open>c\<close> more operations (four allocations each: a block and the three parts of an index array).
\<close>

definition slow_rel :: "nat \<Rightarrow> 'a block \<Rightarrow> addr set \<Rightarrow> AllocMode \<Rightarrow> nat \<Rightarrow> slowq \<times> 'a mem \<Rightarrow> 'a list \<Rightarrow> bool" where
  "slow_rel k proto V mode c st xs \<longleftrightarrow> fresh_proto (2 ^ k) proto \<and> HasMeaningfulSetResult (Policy proto)
     \<and> (mode = CanAlloc \<longrightarrow> 4 * c \<le> Quota (Hp (snd st)))
     \<and> (\<exists>hn tn f ls. slow_inv k V (fst st) (snd st) hn tn f ls \<and> xs = contents f hn tn)"

lemma slow_relE:
  assumes "slow_rel k proto V mode c (q, s) xs"
  obtains hn tn f ls where "slow_inv k V q s hn tn f ls" "xs = contents f hn tn"
    "fresh_proto (2 ^ k) proto" "HasMeaningfulSetResult (Policy proto)" "mode = CanAlloc \<longrightarrow> 4 * c \<le> Quota (Hp s)"
  using assms by (auto simp: slow_rel_def)

lemma slow_relI: "slow_inv k V q s hn tn f ls \<Longrightarrow> fresh_proto (2 ^ k) proto \<Longrightarrow>
   HasMeaningfulSetResult (Policy proto) \<Longrightarrow> (mode = CanAlloc \<Longrightarrow> 4 * c \<le> Quota (Hp s)) \<Longrightarrow>
   slow_rel k proto V mode c (q, s) (contents f hn tn)"
  unfolding slow_rel_def fst_conv snd_conv by blast

definition slow_enq :: "nat \<Rightarrow> 'a block \<Rightarrow> AllocMode \<Rightarrow> 'a option \<Rightarrow> slowq \<times> 'a mem
    \<Rightarrow> (bool res \<times> slowq \<times> 'a mem) option" where
  "slow_enq k proto mode arg st = SlowQueue_Enqueue (2 ^ k) proto mode arg (fst st) (snd st)"

definition slow_deq :: "nat \<Rightarrow> ('a \<Rightarrow> bool) \<Rightarrow> slowq \<times> 'a mem \<Rightarrow> ('a option res \<times> slowq \<times> 'a mem) option" where
  "slow_deq k throws st = SlowQueue_Dequeue (2 ^ k) throws (fst st) (snd st)"

lemma slow_enq_rel:
  assumes "slow_rel k proto V mode (Suc c) (q, s) xs"
  shows "\<exists>r q' s'. SlowQueue_Enqueue (2 ^ k) proto mode arg q s = Some (r, q', s')
    \<and> (\<forall>x \<in> V. blk s' x = blk s x)
    \<and> (case r of
         Ret True \<Rightarrow> \<exists>v. arg = Some v \<and> slow_rel k proto V mode c (q', s') (xs @ [v])
       | Ret False \<Rightarrow> slow_rel k proto V mode c (q', s') xs \<and> (mode = CannotAlloc \<or> SlowArrays q = [])
       | Exn \<Rightarrow> slow_rel k proto V mode c (q', s') xs \<and> arg = None)"
proof -
  from assms obtain hn tn f ls where inv: "slow_inv k V q s hn tn f ls"
    and xs: "xs = contents f hn tn" and proto: "fresh_proto (2 ^ k) proto" "HasMeaningfulSetResult (Policy proto)"
    and quota: "mode = CanAlloc \<longrightarrow> 4 * Suc c \<le> Quota (Hp s)" by (rule slow_relE)
  note le = slow_inv_span(1) [OF inv]
  have quota4: "mode = CanAlloc \<longrightarrow> 4 \<le> Quota (Hp s)" using quota by force
  obtain r q' s' where r: "SlowQueue_Enqueue (2 ^ k) proto mode arg q s = Some (r, q', s')"
    "\<forall>x \<in> V. blk s' x = blk s x" "Quota (Hp s) \<le> Quota (Hp s') + 4"
    "case r of
         Ret True \<Rightarrow> \<exists>v ls'. arg = Some v \<and> slow_inv k V q' s' hn (Suc tn) (f(tn := v)) ls'
       | Ret False \<Rightarrow> (mode = CannotAlloc \<or> SlowArrays q = []) \<and> slow_inv k V q' s' hn tn f ls
       | Exn \<Rightarrow> arg = None \<and> slow_inv k V q' s' hn tn f ls"
    using slow_Enqueue [OF inv proto quota4, of arg] by blast
  have left: "4 * c \<le> Quota (Hp s')" if "mode = CanAlloc" using quota that r(3) by simp
  have rel: "slow_rel k proto V mode c (q', s') (contents f' hn tn')" if "slow_inv k V q' s' hn tn' f' ls'" for f' tn' ls'
    using slow_relI [OF that proto left] .
  have "case r of
         Ret True \<Rightarrow> \<exists>v. arg = Some v \<and> slow_rel k proto V mode c (q', s') (xs @ [v])
       | Ret False \<Rightarrow> slow_rel k proto V mode c (q', s') xs \<and> (mode = CannotAlloc \<or> SlowArrays q = [])
       | Exn \<Rightarrow> slow_rel k proto V mode c (q', s') xs \<and> arg = None"
  proof (cases "r = Ret True")
    case True
    with r(4) obtain v ls' where "arg = Some v" "slow_inv k V q' s' hn (Suc tn) (f(tn := v)) ls'" by auto
    with rel [OF this(2)] True show ?thesis by (simp add: xs contents_push [OF le])
  next
    case False
    then show ?thesis using r(4) rel xs by (auto split: res.splits bool.splits)
  qed
  with r(1,2) show ?thesis by blast
qed

lemma slow_deq_rel:
  assumes "slow_rel k proto V mode c (q, s) xs"
  shows "case xs of
      [] \<Rightarrow> SlowQueue_Dequeue (2 ^ k) throws q s = Some (Ret None, q, s)
    | x # xs' \<Rightarrow> \<exists>q' s'. SlowQueue_Dequeue (2 ^ k) throws q s
          = Some (if throws x then Exn else Ret (Some x), q', s')
        \<and> slow_rel k proto V mode c (q', s') xs' \<and> (\<forall>a \<in> V. blk s' a = blk s a)"
proof -
  from assms obtain hn tn f ls where inv: "slow_inv k V q s hn tn f ls"
    and xs: "xs = contents f hn tn" and proto: "fresh_proto (2 ^ k) proto" "HasMeaningfulSetResult (Policy proto)"
    and quota: "mode = CanAlloc \<longrightarrow> 4 * c \<le> Quota (Hp s)" by (rule slow_relE)
  note le = slow_inv_span(1) [OF inv]
  show ?thesis
  proof (cases "hn = tn")
    case True
    with inv have "slow_inv k V q s hn hn f ls" by simp
    from slow_Dequeue_empty [OF this] show ?thesis using True by (simp add: xs contents_def)
  next
    case False
    then have lt: "hn < tn" using le by simp
    from slow_Dequeue_next [OF inv lt, of throws] obtain q' s' ls' where
      "SlowQueue_Dequeue (2 ^ k) throws q s = Some (if throws (f hn) then Exn else Ret (Some (f hn)), q', s')"
      "slow_inv k V q' s' (Suc hn) tn f ls'" "\<forall>a \<in> V. blk s' a = blk s a" "Quota (Hp s') = Quota (Hp s)" by blast
    with slow_relI [OF _ proto, of V q' s' "Suc hn" tn f ls' mode c] quota show ?thesis
      using lt by (auto simp: xs contents_pop)
  qed
qed

lemma slow_rel_mono: "slow_rel k proto V mode (Suc c) st xs \<Longrightarrow> slow_rel k proto V mode c st xs"
  by (auto simp: slow_rel_def)

interpretation slow: budget_queue "slow_rel k proto V mode" "slow_enq k proto mode" "slow_deq k throws" throws
  for k proto V mode throws
proof
  fix c and st :: "slowq \<times> 'a mem" and xs arg
  assume "slow_rel k proto V mode (Suc c) st xs"
  then have rel: "slow_rel k proto V mode (Suc c) (fst st, snd st) xs" by simp
  from slow_enq_rel [OF rel, of arg] obtain r q' s' where r:
    "SlowQueue_Enqueue (2 ^ k) proto mode arg (fst st) (snd st) = Some (r, q', s')"
    "case r of Ret True \<Rightarrow> \<exists>v. arg = Some v \<and> slow_rel k proto V mode c (q', s') (xs @ [v])
       | Ret False \<Rightarrow> slow_rel k proto V mode c (q', s') xs \<and> (mode = CannotAlloc \<or> SlowArrays (fst st) = [])
       | Exn \<Rightarrow> slow_rel k proto V mode c (q', s') xs \<and> arg = None" by blast
  then show "\<exists>r s'. slow_enq k proto mode arg st = Some (r, s')
      \<and> (case r of Ret True \<Rightarrow> \<exists>v. arg = Some v \<and> slow_rel k proto V mode c s' (xs @ [v])
         | _ \<Rightarrow> slow_rel k proto V mode c s' xs)"
    by (intro exI [of _ r] exI [of _ "(q', s')"]) (auto simp: slow_enq_def split: res.splits bool.splits)
next
  fix c and st :: "slowq \<times> 'a mem"
  assume "slow_rel k proto V mode (Suc c) st []"
  then have "slow_rel k proto V mode c (fst st, snd st) []" using slow_rel_mono by fastforce
  from slow_deq_rel [OF this, of throws] this
  show "\<exists>s'. slow_deq k throws st = Some (Ret None, s') \<and> slow_rel k proto V mode c s' []"
    by (simp add: slow_deq_def)
next
  fix c and st :: "slowq \<times> 'a mem" and x xs
  assume "slow_rel k proto V mode (Suc c) st (x # xs)"
  then have "slow_rel k proto V mode c (fst st, snd st) (x # xs)" using slow_rel_mono by fastforce
  from slow_deq_rel [OF this, of throws]
  show "\<exists>s'. slow_deq k throws st = Some (if throws x then Exn else Ret (Some x), s')
      \<and> slow_rel k proto V mode c s' xs"
    by (auto simp: slow_deq_def)
qed

lemma slow_rel_new:
  assumes "1 \<le> k" "k \<le> 62" "mgr_inv (2 ^ k) s V" "uniform True s" "unat InSize \<le> 2 ^ (64 - k)"
    "mode = CanAlloc \<Longrightarrow> 4 * c + 3 \<le> Quota (Hp s)"
  shows "\<exists>q s'. SlowQueue_new InSize s = Some (q, s')
    \<and> slow_rel k (new_block True (2 ^ k)) V mode c (q, s') ([] :: 'a list) \<and> blk s' = blk s"
proof -
  have bs: "block_size (2 ^ k)" using assms(1,2) by (auto simp: block_size_def)
  obtain q s' where q: "SlowQueue_new InSize s = Some (q, s')"
    "slow_inv k V q s' 0 0 (\<lambda>_. undefined) []" "blk s' = blk s" "Quota (Hp s) \<le> Quota (Hp s') + 3"
    using slow_new [OF assms(3,4,1,2,5)] by blast
  have "4 * c \<le> Quota (Hp s')" if "mode = CanAlloc" using assms(6) [OF that] q(4) by simp
  then have "slow_rel k (new_block True (2 ^ k)) V mode c (q, s') ([] :: 'a list)"
    using slow_relI [OF q(2) new_block_proto [OF bs], of True mode c]
    by (simp add: contents_def) (simp add: new_block_def)
  then show ?thesis using q by blast
qed

lemma slow_rel_example:
  "\<exists>q s. SlowQueue_new 2 (empty_mem 50) = Some (q, s)
     \<and> slow_rel 1 (new_block True 2) {} CanAlloc 10 (q, s) ([] :: nat list)"
  using slow_rel_new [of 1 "empty_mem 50 :: nat mem" "{}" 2 CanAlloc 10] empty_mem_inv [of 50 2]
    empty_mem_uniform [of True 50]
  by (auto simp: empty_mem_def empty_heap_def)


section \<open>Enqueue and Dequeue\<close>

text \<open>C22. \<^verbatim>\<open>SlowQueue::Enqueue\<close> on every path, while there is memory for the operation or none may be
  allocated: it never runs into undefined behaviour; when it returns true the queue holds the new
  value at its end; when it returns false (no allocation allowed, or the constructor could not
  allocate an index) or leaves by the constructor's exception the queue holds what it held.\<close>

theorem SlowQueue_Enqueue_correct:
  assumes "slow_rel k proto V mode (Suc c) (q, s) xs"
  shows "\<exists>r q' s'. SlowQueue_Enqueue (2 ^ k) proto mode arg q s = Some (r, q', s')
    \<and> (\<forall>x \<in> V. blk s' x = blk s x)
    \<and> (case r of
         Ret True \<Rightarrow> \<exists>v. arg = Some v \<and> slow_rel k proto V mode c (q', s') (xs @ [v])
       | Ret False \<Rightarrow> slow_rel k proto V mode c (q', s') xs \<and> (mode = CannotAlloc \<or> SlowArrays q = [])
       | Exn \<Rightarrow> slow_rel k proto V mode c (q', s') xs \<and> arg = None)"
  using assms by (rule slow_enq_rel)

theorem SlowQueue_Enqueue_correct_witness:
  "\<exists>(q :: slowq) (s :: nat mem) r q' s'. SlowQueue_new 2 (empty_mem 50) = Some (q, s)
    \<and> SlowQueue_Enqueue 2 (new_block True 2) CanAlloc None q s = Some (r, q', s')
    \<and> r \<noteq> Ret True \<and> slow_rel 1 (new_block True 2) {} CanAlloc 9 (q', s') []"
proof -
  obtain q and s :: "nat mem" where q: "SlowQueue_new 2 (empty_mem 50) = Some (q, s)"
    "slow_rel 1 (new_block True 2) {} CanAlloc (Suc 9) (q, s) ([] :: nat list)" using slow_rel_example by auto
  from SlowQueue_Enqueue_correct [OF q(2), of None] obtain r q' s' where
    r: "SlowQueue_Enqueue 2 (new_block True 2) CanAlloc None q s = Some (r, q', s')"
    "r \<noteq> Ret True \<and> slow_rel 1 (new_block True 2) {} CanAlloc 9 (q', s') []"
    unfolding bool_res_case power_one_right option.distinct by blast
  then show ?thesis using q(1) by blast
qed

text \<open>C23. \<^verbatim>\<open>SlowQueue::Dequeue\<close>: on an empty queue it changes nothing and reports so; otherwise it
  hands out the oldest value and consumes it, also when assigning it to the caller's variable
  throws; it needs no memory.\<close>

theorem SlowQueue_Dequeue_correct:
  assumes "slow_rel k proto V mode c (q, s) xs"
  shows "case xs of
      [] \<Rightarrow> SlowQueue_Dequeue (2 ^ k) throws q s = Some (Ret None, q, s)
    | x # xs' \<Rightarrow> \<exists>q' s'. SlowQueue_Dequeue (2 ^ k) throws q s
          = Some (if throws x then Exn else Ret (Some x), q', s')
        \<and> slow_rel k proto V mode c (q', s') xs' \<and> (\<forall>a \<in> V. blk s' a = blk s a)"
  using assms by (rule slow_deq_rel)

theorem SlowQueue_Dequeue_correct_witness:
  "\<exists>(q :: slowq) (s :: nat mem) q1 s1 q2 s2. SlowQueue_new 2 (empty_mem 50) = Some (q, s)
    \<and> queue_run (slow_enq 1 (new_block True 2) CanAlloc) (slow_deq 1 (\<lambda>_. False)) [Enq (Some 1), Enq (Some 2)] (q, s)
      = Some (replicate 2 (EnqResp (Ret True)), (q1, s1))
    \<and> SlowQueue_Dequeue 2 (\<lambda>x. x = 1) q1 s1 = Some (Exn, q2, s2) \<and> slow_rel 1 (new_block True 2) {} CanAlloc 0 (q2, s2) [2]"
proof -
  let ?ops = "[Enq (Some 1), Enq (Some 2) :: nat qop]"
  obtain q and s :: "nat mem" where q: "SlowQueue_new 2 (empty_mem 50) = Some (q, s)"
    "slow_rel 1 (new_block True 2) {} CanAlloc 10 (q, s) ([] :: nat list)" using slow_rel_example by blast
  have "slow_rel 1 (new_block True 2) {} CanAlloc (length ?ops + 0) (q, s) ([] :: nat list)" using q(2) by (auto simp: slow_rel_def)
  from slow.run_refines [OF this, of "\<lambda>_. False"] obtain rs q1 s1 ys where
    r: "queue_run (slow_enq 1 (new_block True 2) CanAlloc) (slow_deq 1 (\<lambda>_. False)) ?ops (q, s) = Some (rs, (q1, s1))"
    "slow_rel 1 (new_block True 2) {} CanAlloc 0 (q1, s1) ys" "fifo_trace (\<lambda>_. False) [] ?ops rs ys" by (metis surj_pair)
  have "map_option fst (Option.bind (SlowQueue_new 2 (empty_mem 50))
      (queue_run (slow_enq 1 (new_block True 2) CanAlloc) (slow_deq 1 (\<lambda>_. False)) ?ops)) = Some (replicate 2 (EnqResp (Ret True)))" by code_simp
  then have rs: "rs = replicate 2 (EnqResp (Ret True))" unfolding q(1) Option.bind.simps r(1) by simp
  then have ys: "ys = [1, 2]" using r(3) by (simp add: numeral_eq_Suc)
  from SlowQueue_Dequeue_correct [OF r(2), of "\<lambda>x. x = 1"] show ?thesis using q(1) r(1) unfolding rs ys by auto
qed

section \<open>Whole runs\<close>

text \<open>C3. Refinement: any sequence of enqueues and dequeues of one thread, with memory for each of
  them, runs to its end, without undefined behaviour, and answers as a queue of values does.\<close>

theorem SlowQueue_refines_fifo:
  assumes "slow_rel k proto V mode (length ops) st xs"
  shows "\<exists>rs st' ys. queue_run (slow_enq k proto mode) (slow_deq k throws) ops st = Some (rs, st')
    \<and> slow_rel k proto V mode 0 st' ys \<and> fifo_trace throws xs ops rs ys"
  using slow.run_refines [where c = 0] assms by simp

theorem SlowQueue_refines_fifo_witness:
  "\<exists>(q :: slowq) (s :: nat mem) rs st' ys. SlowQueue_new 2 (empty_mem 50) = Some (q, s)
    \<and> queue_run (slow_enq 1 (new_block True 2) CanAlloc) (slow_deq 1 (\<lambda>x. x = 2))
        [Enq (Some 1), Enq (Some 2), Enq None, Deq, Enq (Some 3), Deq, Deq, Deq, Enq (Some 4), Deq] (q, s) = Some (rs, st')
    \<and> fifo_trace (\<lambda>x. x = 2) []
        [Enq (Some 1), Enq (Some 2), Enq None, Deq, Enq (Some 3), Deq, Deq, Deq, Enq (Some 4), Deq] rs ys"
proof -
  let ?ops = "[Enq (Some 1), Enq (Some 2), Enq None, Deq, Enq (Some 3), Deq, Deq, Deq, Enq (Some 4), Deq :: nat qop]"
  obtain q and s :: "nat mem" where q: "SlowQueue_new 2 (empty_mem 50) = Some (q, s)"
    "slow_rel 1 (new_block True 2) {} CanAlloc 10 (q, s) ([] :: nat list)" using slow_rel_example by blast
  have "length ?ops = 10" by simp
  then have "slow_rel 1 (new_block True 2) {} CanAlloc (length ?ops) (q, s) ([] :: nat list)" using q(2) by metis
  from SlowQueue_refines_fifo [OF this] q(1) show ?thesis by blast
qed

text \<open>Conservation: when handing a value out does not throw, the values the queue accepted are,
  in order, those it has handed out followed by those it still holds.\<close>

theorem SlowQueue_conserves:
  assumes "slow_rel k proto V mode (length ops) st xs"
  shows "\<exists>rs st' ys. queue_run (slow_enq k proto mode) (slow_deq k (\<lambda>_. False)) ops st = Some (rs, st')
    \<and> slow_rel k proto V mode 0 st' ys \<and> xs @ accepted ops rs = delivered rs @ ys"
  using slow.run_conserves [OF _ refl, where c = 0] assms by simp

theorem SlowQueue_conserves_witness:
  "\<exists>(q :: slowq) (s :: nat mem) rs st' ys. SlowQueue_new 2 (empty_mem 50) = Some (q, s)
    \<and> queue_run (slow_enq 1 (new_block True 2) CanAlloc) (slow_deq 1 (\<lambda>_. False))
        [Enq (Some 1), Enq (Some 2), Deq, Enq (Some 3)] (q, s) = Some (rs, st')
    \<and> accepted [Enq (Some 1), Enq (Some 2), Deq, Enq (Some 3)] rs = delivered rs @ ys"
proof -
  let ?ops = "[Enq (Some 1), Enq (Some 2), Deq, Enq (Some 3) :: nat qop]"
  obtain q and s :: "nat mem" where q: "SlowQueue_new 2 (empty_mem 50) = Some (q, s)"
    "slow_rel 1 (new_block True 2) {} CanAlloc 10 (q, s) ([] :: nat list)" using slow_rel_example by blast
  have "slow_rel 1 (new_block True 2) {} CanAlloc (length ?ops) (q, s) ([] :: nat list)"
    using q(2) by (auto simp: slow_rel_def)
  from SlowQueue_conserves [OF this] q(1) show ?thesis unfolding append_Nil by blast
qed

section \<open>Memory\<close>

lemma window_blocks:
  assumes n: "0 < n" and w: "window n hn tn f bl ls"
  shows "length ls * n + 1 < tn - hn + 2 * n" "hn = tn \<Longrightarrow> tn mod n = 0 \<Longrightarrow> ls = []"
proof -
  have le: "hn \<le> tn" and len: "hn div n + length ls = up n tn" using w by (simp_all add: window_def)
  have up: "up n tn * n < tn + n"
  proof (cases "tn mod n = 0")
    case True
    then show ?thesis using boundary_mult [OF True] n by (simp add: up_boundary)
  next
    case False
    have "tn = tn div n * n + tn mod n" by simp
    then have "tn div n * n < tn" using False by linarith
    then show ?thesis using False by (simp add: up_mid)
  qed
  have "hn = hn div n * n + hn mod n" "hn mod n < n" using n by simp_all
  then have lo: "hn + 1 \<le> hn div n * n + n" by linarith
  have "hn div n * n + length ls * n = up n tn * n" using len by (metis add_mult_distrib)
  then show "length ls * n + 1 < tn - hn + 2 * n" using lo up le by linarith
  show "ls = []" if "hn = tn" "tn mod n = 0"
    using len that by (simp add: up_boundary)
qed

text \<open>The blocks that are lent out, read off the memory: allocated, not in the free list and not in the unused part of the pool.\<close>

definition lent :: "'a mem \<Rightarrow> addr set" where
  "lent s = {a \<in> dom (blk s). a \<notin> pool_avail (Pool (Mg s)) \<and> (\<forall>as. fl_list (blk s) (FList (Mg s)) as \<longrightarrow> a \<notin> set as)}"

lemma lent_eq:
  assumes "mgr_inv bs s U"
  shows "lent s = U" "finite U"
proof -
  obtain as where as: "mgr_inv_with bs s U as" using assms by (auto simp: mgr_inv_def)
  note d = mgr_inv_withD [OF as]
  have "fl_list (blk s) (FList (Mg s)) bs \<longleftrightarrow> bs = as" for bs using d(2) fl_list_unique [OF d(2), of bs] by blast
  then have "lent s = {a \<in> dom (blk s). a \<notin> pool_avail (Pool (Mg s)) \<and> a \<notin> set as}" by (simp add: lent_def)
  then show "lent s = U" using d(5-7) by auto
  show "finite U" using d(7,11) by auto
qed

lemma slow_inv_lent:
  assumes inv: "slow_inv k V q s hn tn f ls"
  shows "lent s = V \<union> set ls" "lent s - V = set ls" "card (set ls) = up (2 ^ k) tn - hn div 2 ^ k" "finite V" "hn div 2 ^ k \<le> up (2 ^ k) tn"
    "card (lent s) = card V + (up (2 ^ k) tn - hn div 2 ^ k)"
proof -
  note d = slow_invD [OF inv]
  show l: "lent s = V \<union> set ls" and "finite V" using lent_eq [OF d(3)] by simp_all
  then show "lent s - V = set ls" using d(4) by blast
  have "hn div 2 ^ k + length ls = up (2 ^ k) tn" using d(11) by (simp add: window_def)
  then show c: "card (set ls) = up (2 ^ k) tn - hn div 2 ^ k" "hn div 2 ^ k \<le> up (2 ^ k) tn"
    using distinct_card [OF slow_inv_span(4) [OF inv]] by simp_all
  show "card (lent s) = card V + (up (2 ^ k) tn - hn div 2 ^ k)" unfolding l c(1) [symmetric]
    by (rule card_Un_disjoint) (use \<open>finite V\<close> d(4) in auto)
qed

lemma slow_holds_few:
  assumes "slow_rel k proto V mode c st xs"
  shows "V \<subseteq> lent (snd st)" "card (lent (snd st) - V) * 2 ^ k + 1 < length xs + 2 * 2 ^ k"
    "xs = [] \<Longrightarrow> TailIndex (fst st) AND (2 ^ k - 1) = 0 \<Longrightarrow> lent (snd st) = V"
proof -
  obtain q s where st: "st = (q, s)" by (cases st)
  from assms obtain hn tn f ls where inv: "slow_inv k V q s hn tn f ls" and xs: "xs = contents f hn tn"
    unfolding st by (rule slow_relE)
  note d = slow_invD [OF inv] and l = slow_inv_lent [OF inv]
  have n: "(0::nat) < 2 ^ k" by simp
  show "V \<subseteq> lent (snd st)" using l(1) st by simp
  show "card (lent (snd st) - V) * 2 ^ k + 1 < length xs + 2 * 2 ^ k"
    using window_blocks(1) [OF n d(11)] distinct_card [OF slow_inv_span(4) [OF inv]] l(2) by (simp add: xs st)
  show "lent (snd st) = V" if "xs = []" "TailIndex (fst st) AND (2 ^ k - 1) = 0"
  proof -
    have "hn = tn" using arg_cong [OF that(1), of length] slow_inv_span(1) [OF inv] by (simp add: xs)
    moreover have "tn mod 2 ^ k = 0" using that(2) fast_inner_index(3) [OF d(2), of tn] d(8) st by simp
    ultimately show ?thesis using window_blocks(2) [OF n d(11)] l(1) st by simp
  qed
qed

lemma slow_deq_returns:
  assumes "slow_rel k proto V mode c st xs" "xs \<noteq> []"
  shows "\<exists>r q' s'. slow_deq k throws st = Some (r, q', s')
    \<and> card (lent s') + (if HeadIndex q' AND (2 ^ k - 1) = 0 then 1 else 0) = card (lent (snd st))"
proof -
  obtain q s where st: "st = (q, s)" by (cases st)
  from assms obtain hn tn f ls where inv: "slow_inv k V q s hn tn f ls" and xs: "xs = contents f hn tn"
    unfolding st by (meson slow_relE)
  have lt: "hn < tn" using assms(2) slow_inv_span(1) [OF inv] by (cases "hn = tn") (auto simp: xs contents_def)
  from slow_Dequeue_next [OF inv lt, of throws] obtain q' s' ls' where
    deq: "SlowQueue_Dequeue (2 ^ k) throws q s = Some (if throws (f hn) then Exn else Ret (Some (f hn)), q', s')"
    and inv': "slow_inv k V q' s' (Suc hn) tn f ls'" by blast
  have "HeadIndex q' AND (2 ^ k - 1) = 0 \<longleftrightarrow> Suc hn mod 2 ^ k = 0"
    using fast_inner_index(3) [OF slow_invD(2) [OF inv'], of "Suc hn"] slow_invD(7) [OF inv'] by simp
  moreover have "Suc hn div 2 ^ k = (if Suc hn mod 2 ^ k = 0 then Suc (hn div 2 ^ k) else hn div 2 ^ k)" by (rule div_Suc)
  ultimately have "card (lent s') + (if HeadIndex q' AND (2 ^ k - 1) = 0 then 1 else 0) = card (lent s)"
    using slow_inv_lent(5) [OF inv'] unfolding slow_inv_lent(6) [OF inv] slow_inv_lent(6) [OF inv'] by (auto split: if_splits)
  then show ?thesis using deq by (auto simp: slow_deq_def st)
qed

text \<open>C34. \<^verbatim>\<open>SlowQueue\<close> gives every block back as soon as it is spent.  After any sequence of enqueues and dequeues of one thread, with
  memory for each, beside other holders of the blocks \<open>V\<close>: fewer than two blocks' worth of the slots of the blocks lent to the queue are
  without a value; a queue that has been emptied up to the end of a block has none on loan; and the next dequeue gives back exactly one
  block when it takes the last value of a block, and none otherwise.\<close>

theorem SlowQueue_holds_few_blocks:
  assumes "slow_rel k proto V mode (length ops) st xs"
  shows "\<exists>rs st' ys. queue_run (slow_enq k proto mode) (slow_deq k throws) ops st = Some (rs, st') \<and> fifo_trace throws xs ops rs ys
    \<and> V \<subseteq> lent (snd st') \<and> card (lent (snd st') - V) * 2 ^ k + 1 < length ys + 2 * 2 ^ k
    \<and> (ys = [] \<and> TailIndex (fst st') AND (2 ^ k - 1) = 0 \<longrightarrow> lent (snd st') = V)
    \<and> (ys \<noteq> [] \<longrightarrow> (\<exists>r q s. slow_deq k throws st' = Some (r, q, s)
        \<and> card (lent s) + (if HeadIndex q AND (2 ^ k - 1) = 0 then 1 else 0) = card (lent (snd st'))))"
proof -
  obtain rs st' ys where r: "queue_run (slow_enq k proto mode) (slow_deq k throws) ops st = Some (rs, st')"
    "slow_rel k proto V mode 0 st' ys" "fifo_trace throws xs ops rs ys"
    using slow.run_refines [where c = 0] assms by fastforce
  then show ?thesis using slow_holds_few [OF r(2)] slow_deq_returns [OF r(2), of throws] by blast
qed

theorem SlowQueue_holds_few_blocks_witness:
  "\<exists>(q :: slowq) (s :: nat mem) rs st'. SlowQueue_new 2 (empty_mem 50) = Some (q, s)
    \<and> queue_run (slow_enq 1 (new_block True 2) CanAlloc) (slow_deq 1 (\<lambda>_. False)) [Enq (Some 1), Enq (Some 2), Deq, Deq] (q, s) = Some (rs, st')
    \<and> lent (snd st') = {}"
proof -
  let ?ops = "[Enq (Some 1), Enq (Some 2), Deq, Deq :: nat qop]"
  obtain q and s :: "nat mem" where q: "SlowQueue_new 2 (empty_mem 50) = Some (q, s)"
    "slow_rel 1 (new_block True 2) {} CanAlloc 10 (q, s) ([] :: nat list)" using slow_rel_example by blast
  have "slow_rel 1 (new_block True 2) {} CanAlloc (length ?ops) (q, s) ([] :: nat list)" using q(2) by (auto simp: slow_rel_def)
  from SlowQueue_holds_few_blocks [OF this, of "\<lambda>_. False"] obtain rs st' ys where
    r: "queue_run (slow_enq 1 (new_block True 2) CanAlloc) (slow_deq 1 (\<lambda>_. False)) ?ops (q, s) = Some (rs, st')"
    "fifo_trace (\<lambda>_. False) [] ?ops rs ys" "ys = [] \<and> TailIndex (fst st') AND (2 ^ 1 - 1) = 0 \<longrightarrow> lent (snd st') = {}" by blast
  have "map_option (\<lambda>(rs, q, s). (rs, TailIndex q)) (Option.bind (SlowQueue_new 2 (empty_mem 50))
      (queue_run (slow_enq 1 (new_block True 2) CanAlloc) (slow_deq 1 (\<lambda>_. False)) ?ops))
    = Some ([EnqResp (Ret True), EnqResp (Ret True), DeqResp (Ret (Some 1)), DeqResp (Ret (Some 2))], 2)" by code_simp
  then have "rs = [EnqResp (Ret True), EnqResp (Ret True), DeqResp (Ret (Some 1)), DeqResp (Ret (Some 2))]" "TailIndex (fst st') = 2"
    unfolding q(1) Option.bind.simps r(1) by (auto split: prod.splits)
  then have "ys = [] \<and> TailIndex (fst st') AND (2 ^ 1 - 1) = 0" using r(2) by simp
  then show ?thesis using q(1) r(1,3) by blast
qed

section \<open>Where the code misbehaves\<close>

text \<open>A run of one queue with blocks of two slots, made with \<open>N\<close> allocations left.\<close>

definition slow_start :: "nat \<Rightarrow> (slowq \<times> nat mem) option" where
  "slow_start N = SlowQueue_new 2 (empty_mem N)"

definition more_memory :: "nat \<Rightarrow> slowq \<times> nat mem \<Rightarrow> slowq \<times> nat mem" where
  "more_memory N st = (fst st, (snd st)\<lparr>Hp := (Hp (snd st))\<lparr>Quota := N\<rparr>\<rparr>)"

text \<open>An exception of \<^verbatim>\<open>RequisitionBlock\<close> leaves \<^verbatim>\<open>Enqueue\<close> after the index entry has been
  inserted and without the rewind: the next enqueue inserts a second entry for the same block, and
  the first dequeue then dereferences a null pointer.\<close>

theorem SlowQueue_Enqueue_bad_alloc:
  "Option.bind (slow_start 4) (queue_run (slow_enq 1 (new_block True 2) CanAlloc) (slow_deq 1 (\<lambda>_. False))
     [Enq (Some 1), Enq (Some 2), Enq (Some 3)])
   \<bind> (\<lambda>(rs, st). Some (rs, map_option fst (queue_run (slow_enq 1 (new_block True 2) CanAlloc)
       (slow_deq 1 (\<lambda>_. False)) [Enq (Some 4), Deq] (more_memory 10 st))))
   = Some ([EnqResp (Ret True), EnqResp (Ret True), EnqResp Exn], None)"
  by code_simp

text \<open>\<^verbatim>\<open>Clear\<close> returns a block to the manager only with its last element, so the block of an empty
  queue whose tail is inside a block is never returned: it stays allocated and is not in the free
  list.\<close>

theorem SlowQueue_Clear_leaks:
  "Option.bind (slow_start 10) (queue_run (slow_enq 1 (new_block True 2) CanAlloc) (slow_deq 1 (\<lambda>_. False))
     [Enq (Some 1), Deq])
   \<bind> (\<lambda>(rs, q, s). SlowQueue_Clear 2 q s
   \<bind> (\<lambda>s'. Some (rs, TailBlock q, map_option (\<lambda>a. Alloc (Hp s') a) (TailBlock q), FList (Mg s'))))
   = Some ([EnqResp (Ret True), DeqResp (Ret (Some 1))], Some 5, Some 1, None)"
  by code_simp

end
