(* ===== verification/Probing.thy ===== *)
theory Probing
  imports Prelude
begin

text \<open>
  Open addressing with linear probing, as the hash tables of the library use it, and the contract of
  a store of values under keys.
\<close>

section \<open>The probe loop\<close>

text \<open>
  From the hash of a key on, mask the index, look at the entry, and go on unless \<open>stop\<close> holds for its
  key.  Leaving the array is a fault; a loop that finds no such entry never ends.
\<close>

definition probe_body :: "('k \<times> 'v) list \<Rightarrow> 'w::len word \<Rightarrow> ('k \<Rightarrow> bool) \<Rightarrow> 'w word \<Rightarrow> ('w word + 'w word) option" where
  "probe_body es Capacity stop Index =
    (let Index = Index AND (Capacity - 1) in
     if unat Index < length es
     then if stop (fst (es ! unat Index)) then Some (Inr Index) else Some (Inl (Index + 1))
     else None)"

lemma probe_body_at:
  assumes "length es = 2 ^ m" "m < LENGTH('w)"
    and "(w :: 'w::len word) AND (2 ^ m - 1) = of_nat (p mod 2 ^ m)"
  shows "probe_body es (2 ^ m) stop w = (if stop (fst (es ! (p mod 2 ^ m))) then Some (Inr (of_nat (p mod 2 ^ m)))
    else Some (Inl (of_nat (p mod 2 ^ m) + 1)))"
proof -
  have "p mod 2 ^ m < 2 ^ m" by simp
  also have "(2::nat) ^ m < 2 ^ LENGTH('w)" using assms(2) by (intro power_strict_increasing) auto
  finally have "unat (of_nat (p mod 2 ^ m) :: 'w word) = p mod 2 ^ m" by (rule unat_of_nat_small)
  then show ?thesis using assms(1) by (simp only: probe_body_def Let_def assms(3)) simp
qed

lemma probe_loop:
  assumes "length es = 2 ^ m" "m < LENGTH('w)" "\<And>d. d < D \<Longrightarrow> \<not> stop (fst (es ! ((h + d) mod 2 ^ m)))"
    "stop (fst (es ! ((h + D) mod 2 ^ m)))" "(w :: 'w::len word) AND (2 ^ m - 1) = of_nat (h mod 2 ^ m)"
  shows "loop (probe_body es (2 ^ m) stop) w = Some (of_nat ((h + D) mod 2 ^ m))"
  using assms(3-5)
proof (induction D arbitrary: h w)
  case 0
  then show ?case using probe_body_at [OF assms(1,2) 0(3)] by (simp add: loop_exit)
next
  case (Suc D)
  have "\<not> stop (fst (es ! (h mod 2 ^ m)))" using Suc.prems(1) [of 0] by simp
  then have go: "loop (probe_body es (2 ^ m) stop) w = loop (probe_body es (2 ^ m) stop) (of_nat (h mod 2 ^ m) + 1)"
    using probe_body_at [OF assms(1,2) Suc.prems(3)] by (simp add: loop_again)
  have "(of_nat (h mod 2 ^ m) + 1 :: 'w word) = of_nat (h mod 2 ^ m + 1)" by simp
  then have w: "(of_nat (h mod 2 ^ m) + 1 :: 'w word) AND (2 ^ m - 1) = of_nat (Suc h mod 2 ^ m)"
    by (simp only: mask_of_nat) (simp add: mod_Suc_eq)
  have "loop (probe_body es (2 ^ m) stop) (of_nat (h mod 2 ^ m) + 1 :: 'w word) = Some (of_nat ((Suc h + D) mod 2 ^ m))"
  proof (rule Suc.IH [OF _ _ w])
    show "\<not> stop (fst (es ! ((Suc h + d) mod 2 ^ m)))" if "d < D" for d
      using Suc.prems(1) [of "Suc d"] that by simp
    show "stop (fst (es ! ((Suc h + D) mod 2 ^ m)))" using Suc.prems(2) by simp
  qed
  then show ?case using go by simp
qed

text \<open>Without such an entry the loop never ends.\<close>

lemma loop_forever:
  assumes "\<And>x. P x \<Longrightarrow> \<exists>y. body x = Some (Inl y) \<and> P y" "P x"
  shows "loop body x = None"
proof (rule ccontr)
  assume "loop body x \<noteq> None"
  then obtain r where r: "loop body x = Some r" by blast
  have "\<And>b x r. loop b x = Some r \<Longrightarrow> b = body \<longrightarrow> \<not> P x"
  proof (erule loop.raw_induct [rotated], intro impI notI)
    fix lp :: "('a \<Rightarrow> ('a + 'b) option) \<Rightarrow> 'a \<Rightarrow> 'b option" and b x r
    assume IH: "\<And>b x r. lp b x = Some r \<Longrightarrow> b = body \<longrightarrow> \<not> P x"
      and run: "(case b x of None \<Rightarrow> None | Some (Inl s') \<Rightarrow> lp b s' | Some (Inr r) \<Rightarrow> Some r) = Some r"
      and b: "b = body" and "P x"
    from assms(1) [OF \<open>P x\<close>] obtain y where "body x = Some (Inl y)" "P y" by blast
    then show False using run IH [of body y r] b by simp
  qed
  with r assms(2) show False by blast
qed

lemma probe_stuck:
  assumes "length es = 2 ^ m" "m < LENGTH('w)" "\<And>e. e \<in> set es \<Longrightarrow> \<not> stop (fst e)"
  shows "loop (probe_body es (2 ^ m) stop) (w :: 'w::len word) = None"
proof (rule loop_forever [where P = "\<lambda>_. True"])
  fix x :: "'w word"
  have "x AND (2 ^ m - 1) = of_nat (unat x mod 2 ^ m)"
    using mask_of_nat [of "unat x" m, where 'w = 'w] by (simp add: of_nat_unat ucast_id)
  from probe_body_at [OF assms(1,2) this] assms(3) [OF nth_mem, of "unat x mod 2 ^ m"] assms(1)
  show "\<exists>y. probe_body es (2 ^ m) stop x = Some (Inl y) \<and> True" by simp
qed simp

section \<open>Tables\<close>

text \<open>
  Every key other than \<open>free\<close> is in the first slot of its probe sequence that is free or holds it.
\<close>

definition probing :: "nat \<Rightarrow> ('k \<Rightarrow> nat) \<Rightarrow> 'k \<Rightarrow> ('k \<times> 'v) list \<Rightarrow> bool" where
  "probing n h free es \<longleftrightarrow> length es = n \<and> (\<forall>i < n. fst (es ! i) \<noteq> free \<longrightarrow>
     (\<exists>d < n. i = (h (fst (es ! i)) + d) mod n
       \<and> (\<forall>c < d. fst (es ! ((h (fst (es ! i)) + c) mod n)) \<notin> {free, fst (es ! i)})))"

lemma probingD:
  assumes "probing n h free es" "i < n" "fst (es ! i) = k" "k \<noteq> free"
  obtains d where "d < n" "i = (h k + d) mod n" "\<forall>c < d. fst (es ! ((h k + c) mod n)) \<notin> {free, k}"
  using assms unfolding probing_def by blast

lemma probing_length: "probing n h free es \<Longrightarrow> length es = n"
  by (simp add: probing_def)

lemma probing_unique:
  assumes p: "probing n h free es" and ij: "i < n" "j < n" "fst (es ! i) = k" "fst (es ! j) = k" and k: "k \<noteq> free"
  shows "i = j"
proof -
  obtain d where d: "i = (h k + d) mod n" "\<forall>c < d. fst (es ! ((h k + c) mod n)) \<notin> {free, k}"
    using probingD [OF p ij(1,3) k] by metis
  obtain e where e: "j = (h k + e) mod n" "\<forall>c < e. fst (es ! ((h k + c) mod n)) \<notin> {free, k}"
    using probingD [OF p ij(2,4) k] by metis
  have "d = e"
    using d e ij(3,4) by (metis insertCI linorder_neqE_nat)
  then show ?thesis using d(1) e(1) by simp
qed

lemma probing_map_of:
  assumes p: "probing n h free es" and i: "i < n" "fst (es ! i) = k" and k: "k \<noteq> free"
  shows "map_of es k = Some (snd (es ! i))"
proof -
  have "k \<in> fst ` set es" using i probing_length [OF p] by (metis imageI nth_mem)
  then obtain v where v: "map_of es k = Some v" by (metis map_of_eq_None_iff option.exhaust)
  then have "(k, v) \<in> set es" by (rule map_of_SomeD)
  then obtain j where "j < n" "es ! j = (k, v)" using probing_length [OF p] by (auto simp: in_set_conv_nth)
  moreover from this have "j = i" using probing_unique [OF p _ i(1) _ i(2) k] by simp
  ultimately show ?thesis using v by simp
qed

lemma probing_map_of_None:
  assumes "probing n h free es"
  shows "map_of es k = None \<longleftrightarrow> (\<forall>i < n. fst (es ! i) \<noteq> k)"
proof -
  have "k \<in> fst ` set es \<longleftrightarrow> (\<exists>i < length es. fst (es ! i) = k)"
    by (auto simp: set_conv_nth intro: rev_image_eqI)
  then show ?thesis using probing_length [OF assms] by (auto simp: map_of_eq_None_iff)
qed

text \<open>The first slot on the way that is free or holds the key.\<close>

lemma first_stop:
  assumes n: "0 < (n :: nat)" and ex: "\<exists>i < n. S i"
  obtains D where "D < n" "S ((h + D) mod n)" "\<forall>d < D. \<not> S ((h + d) mod n)"
proof -
  obtain i where i: "i < n" "S i" using ex by blast
  have "(h + (i + n - h mod n) mod n) mod n = (h mod n + (i + n - h mod n)) mod n"
    by (simp add: mod_add_eq mod_add_right_eq mod_add_left_eq)
  also have "h mod n + (i + n - h mod n) = i + n" using mod_less_divisor [OF n, of h] by linarith
  finally have hit: "S ((h + (i + n - h mod n) mod n) mod n)" using i by simp
  let ?Q = "\<lambda>d. S ((h + d) mod n)"
  define D where "D = (LEAST d. ?Q d)"
  have "?Q D" unfolding D_def using hit by (rule LeastI)
  moreover have "D \<le> (i + n - h mod n) mod n" unfolding D_def using hit by (rule Least_le)
  moreover have "(i + n - h mod n) mod n < n" using n by simp
  moreover have "\<not> ?Q d" if "d < D" for d using that not_less_Least unfolding D_def by blast
  ultimately show thesis using that by (meson le_less_trans)
qed

lemma probe_hit:
  assumes p: "probing (2 ^ m) h free es" and m: "m < LENGTH('w)"
    and k: "k \<noteq> free" "map_of es k = Some v" and w: "(w :: 'w::len word) AND (2 ^ m - 1) = of_nat (h k mod 2 ^ m)"
  obtains i where "i < 2 ^ m" "es ! i = (k, v)"
    "loop (probe_body es (2 ^ m) (\<lambda>x. x = k \<or> x = free)) w = Some (of_nat i)"
proof -
  have "(k, v) \<in> set es" using k(2) by (rule map_of_SomeD)
  then obtain i where i: "i < 2 ^ m" "es ! i = (k, v)"
    using probing_length [OF p] by (metis in_set_conv_nth)
  have "fst (es ! i) = k" using i(2) by simp
  then obtain D where D: "i = (h k + D) mod 2 ^ m" "\<forall>c < D. fst (es ! ((h k + c) mod 2 ^ m)) \<notin> {free, k}"
    using probingD [OF p i(1) _ k(1)] by metis
  have "loop (probe_body es (2 ^ m) (\<lambda>x. x = k \<or> x = free)) w = Some (of_nat ((h k + D) mod 2 ^ m))"
    by (rule probe_loop [OF probing_length [OF p] m _ _ w]) (use D i(2) in auto)
  then show thesis unfolding D(1) [symmetric] by (rule that [OF i])
qed

lemma probe_miss:
  assumes p: "probing (2 ^ m) h free es" and m: "m < LENGTH('w)" and room: "\<exists>i < 2 ^ m. fst (es ! i) = free"
    and k: "k \<noteq> free" "map_of es k = None" and w: "(w :: 'w::len word) AND (2 ^ m - 1) = of_nat (h k mod 2 ^ m)"
  obtains i where "i < 2 ^ m" "fst (es ! i) = free"
    "loop (probe_body es (2 ^ m) (\<lambda>x. x = k \<or> x = free)) w = Some (of_nat i)"
    "loop (probe_body es (2 ^ m) (\<lambda>x. x = free)) w = Some (of_nat i)"
    "probing (2 ^ m) h free (es[i := (k, v)])"
proof -
  let ?n = "2 ^ m :: nat"
  have n: "0 < ?n" by simp
  note len = probing_length [OF p]
  have none: "fst (es ! i) \<noteq> k" if "i < ?n" for i using k(2) probing_map_of_None [OF p] that by blast
  obtain D where D: "D < ?n" "fst (es ! ((h k + D) mod ?n)) = free"
    "\<forall>d < D. fst (es ! ((h k + d) mod ?n)) \<noteq> free"
    using first_stop [OF n room, of "h k"] by metis
  let ?i = "(h k + D) mod ?n"
  have i: "?i < ?n" by simp
  have 1: "loop (probe_body es (2 ^ m) (\<lambda>x. x = k \<or> x = free)) w = Some (of_nat ?i)"
    using probe_loop [OF len m _ _ w, of D "\<lambda>x. x = k \<or> x = free"] D none by simp
  have 2: "loop (probe_body es (2 ^ m) (\<lambda>x. x = free)) w = Some (of_nat ?i)"
    using probe_loop [OF len m _ _ w, of D "\<lambda>x. x = free"] D by simp
  have 3: "probing ?n h free (es[?i := (k, v)])"
    unfolding probing_def
  proof (intro conjI allI impI)
    fix j assume j: "j < ?n" "fst (es[?i := (k, v)] ! j) \<noteq> free"
    show "\<exists>d < ?n. j = (h (fst (es[?i := (k, v)] ! j)) + d) mod ?n
       \<and> (\<forall>c < d. fst (es[?i := (k, v)] ! ((h (fst (es[?i := (k, v)] ! j)) + c) mod ?n))
            \<notin> {free, fst (es[?i := (k, v)] ! j)})"
    proof (cases "j = ?i")
      case True
      have "fst (es[?i := (k, v)] ! ((h k + c) mod ?n)) \<notin> {free, k}" if c: "c < D" for c
      proof -
        have "(h k + c) mod ?n \<noteq> ?i" using D(2,3) c by metis
        then show ?thesis using D(3) c none [of "(h k + c) mod ?n"] by simp
      qed
      then show ?thesis using True D(1) len i by auto
    next
      case False
      let ?k = "fst (es ! j)"
      have kj: "?k \<noteq> free" using j False by simp
      obtain d where d: "d < ?n" "j = (h ?k + d) mod ?n" "\<forall>c < d. fst (es ! ((h ?k + c) mod ?n)) \<notin> {free, ?k}"
        using probingD [OF p j(1) refl kj] by metis
      have "fst (es[?i := (k, v)] ! ((h ?k + c) mod ?n)) \<notin> {free, ?k}" if c: "c < d" for c
      proof -
        have "(h ?k + c) mod ?n \<noteq> ?i" using D(2) d(3) c by auto
        then show ?thesis using d(3) c by simp
      qed
      then show ?thesis using False d(1,2) by auto
    qed
  qed (use len in simp)
  show thesis using that [OF i D(2) 1 2 3] .
qed

text \<open>Storing another value under a key, and what the entries then hold.\<close>

lemma probing_keys: "probing n h free es \<Longrightarrow> length es' = length es \<Longrightarrow>
    (\<And>j. fst (es' ! j) = fst (es ! j)) \<Longrightarrow> probing n h free es'"
  unfolding probing_def by simp

lemma probing_update:
  assumes "probing n h free es" "i < n" "fst (es ! i) = k"
  shows "probing n h free (es[i := (k, v)])"
proof (rule probing_keys [OF assms(1)])
  show "fst (es[i := (k, v)] ! j) = fst (es ! j)" for j
    using assms probing_length [OF assms(1)] by (cases "j = i") auto
qed simp

lemma map_of_update:
  assumes p: "probing n h free es" "probing n h free (es[i := (k, v)])" and i: "i < n"
    and old: "fst (es ! i) = k \<or> fst (es ! i) = free" and x: "x \<noteq> free" and k: "k \<noteq> free"
  shows "map_of (es[i := (k, v)]) x = (if x = k then Some v else map_of es x)"
proof (cases "x = k")
  case True
  then show ?thesis using probing_map_of [OF p(2) i] probing_length [OF p(1)] i k by simp
next
  case False
  show ?thesis
  proof (cases "map_of es x")
    case None
    then have "fst (es[i := (k, v)] ! j) \<noteq> x" if "j < n" for j
      using probing_map_of_None [OF p(1)] that False probing_length [OF p(1)] by (cases "j = i") auto
    then show ?thesis using probing_map_of_None [OF p(2)] None False by simp
  next
    case (Some u)
    then obtain j where j: "j < n" "es ! j = (x, u)"
      using map_of_SomeD [OF Some] probing_length [OF p(1)] by (metis in_set_conv_nth)
    then have "j \<noteq> i" using old False x by auto
    then have "es[i := (k, v)] ! j = (x, u)" using j by simp
    then have "map_of (es[i := (k, v)]) x = Some u" using probing_map_of [OF p(2) j(1)] x by simp
    then show ?thesis using Some False by simp
  qed
qed

text \<open>A table with fewer keys than slots has a free one.\<close>

lemma free_slot:
  assumes p: "probing n h free es" and K: "finite K" "card K < n"
    and sub: "\<And>x. x \<noteq> free \<Longrightarrow> map_of es x \<noteq> None \<Longrightarrow> x \<in> K"
  shows "\<exists>i < n. fst (es ! i) = free"
proof (rule ccontr)
  assume no: "\<not> (\<exists>i < n. fst (es ! i) = free)"
  have inj: "inj_on (\<lambda>i. fst (es ! i)) {..<n}"
  proof (rule inj_onI)
    fix i j assume "i \<in> {..<n}" "j \<in> {..<n}" and eq: "fst (es ! i) = fst (es ! j)"
    then have ij: "i < n" "j < n" by simp_all
    then have "fst (es ! i) \<noteq> free" using no by blast
    then show "i = j" by (rule probing_unique [OF p ij refl eq [symmetric]])
  qed
  have "(\<lambda>i. fst (es ! i)) ` {..<n} \<subseteq> K"
  proof
    fix x assume "x \<in> (\<lambda>i. fst (es ! i)) ` {..<n}"
    then obtain i where i: "i < n" "x = fst (es ! i)" by auto
    then have "x \<noteq> free" using no by blast
    with probing_map_of [OF p i(1) i(2) [symmetric]] sub show "x \<in> K" by blast
  qed
  from card_mono [OF K(1) this] have "n \<le> card K" by (simp add: card_image [OF inj])
  with K(2) show False by simp
qed

section \<open>The contract of a store of values under keys\<close>

text \<open>
  \<open>rel c s m\<close>: the store \<open>s\<close> holds the map \<open>m\<close> and can serve \<open>c\<close> more operations.  A client that sets and
  looks up keys other than \<open>free\<close> cannot tell it from the map.
\<close>

datatype ('k, 'v) mop = SetOp 'k 'v | GetOp 'k

fun store_run :: "('k \<Rightarrow> 'v \<Rightarrow> 's \<Rightarrow> 's option) \<Rightarrow> ('k \<Rightarrow> 's \<Rightarrow> ('v option \<times> 's) option)
    \<Rightarrow> ('k, 'v) mop list \<Rightarrow> 's \<Rightarrow> ('v option list \<times> 's) option" where
  "store_run st gt [] s = Some ([], s)"
| "store_run st gt (SetOp k v # ops) s = do { s1 \<leftarrow> st k v s; store_run st gt ops s1 }"
| "store_run st gt (GetOp k # ops) s = do {
     (r, s1) \<leftarrow> gt k s;
     (rs, s2) \<leftarrow> store_run st gt ops s1;
     Some (r # rs, s2) }"

fun map_run :: "('k, 'v) mop list \<Rightarrow> ('k \<rightharpoonup> 'v) \<Rightarrow> 'v option list \<times> ('k \<rightharpoonup> 'v)" where
  "map_run [] m = ([], m)"
| "map_run (SetOp k v # ops) m = map_run ops (m(k \<mapsto> v))"
| "map_run (GetOp k # ops) m = (let (rs, m') = map_run ops m in (m k # rs, m'))"

fun op_key :: "('k, 'v) mop \<Rightarrow> 'k" where
  "op_key (SetOp k v) = k"
| "op_key (GetOp k) = k"

locale keyed_store =
  fixes rel :: "nat \<Rightarrow> 's \<Rightarrow> ('k \<rightharpoonup> 'v) \<Rightarrow> bool"
    and valid :: "'k \<Rightarrow> bool" and valid_val :: "'v \<Rightarrow> bool"
    and set_op :: "'k \<Rightarrow> 'v \<Rightarrow> 's \<Rightarrow> 's option" and get_op :: "'k \<Rightarrow> 's \<Rightarrow> ('v option \<times> 's) option"
  assumes set_law: "rel (Suc c) s m \<Longrightarrow> valid k \<Longrightarrow> valid_val v \<Longrightarrow> \<exists>s'. set_op k v s = Some s' \<and> rel c s' (m(k \<mapsto> v))"
    and get_law: "rel (Suc c) s m \<Longrightarrow> valid k \<Longrightarrow> \<exists>s'. get_op k s = Some (m k, s') \<and> rel c s' m"
begin

theorem refines:
  assumes "rel (length ops + c) s m" "\<forall>x \<in> set ops. valid (op_key x)" "\<forall>k v. SetOp k v \<in> set ops \<longrightarrow> valid_val v"
  shows "\<exists>s'. store_run set_op get_op ops s = Some (fst (map_run ops m), s') \<and> rel c s' (snd (map_run ops m))"
  using assms
proof (induction ops arbitrary: s m)
  case Nil
  then show ?case by auto
next
  case (Cons x ops)
  have later: "\<forall>y \<in> set ops. valid (op_key y)" "\<forall>k v. SetOp k v \<in> set ops \<longrightarrow> valid_val v"
    using Cons.prems(2,3) by auto
  show ?case
  proof (cases x)
    case (SetOp k v)
    then have "valid k" "valid_val v" using Cons.prems(2,3) by auto
    then obtain s1 where s1: "set_op k v s = Some s1" "rel (length ops + c) s1 (m(k \<mapsto> v))"
      using set_law Cons.prems(1) by fastforce
    from Cons.IH [OF s1(2) later] s1(1) SetOp show ?thesis by (simp del: fun_upd_apply)
  next
    case (GetOp k)
    then have "valid k" using Cons.prems(2) by auto
    then obtain s1 where s1: "get_op k s = Some (m k, s1)" "rel (length ops + c) s1 m"
      using get_law Cons.prems(1) by fastforce
    from Cons.IH [OF s1(2) later] s1(1) GetOp show ?thesis by (auto split: prod.splits)
  qed
qed

end

end
