(* ===== verification/Hash_Table.thy ===== *)
theory Hash_Table
  imports Probing Free_List
begin

text \<open>
  \<^verbatim>\<open>HashTable\<close> of \<^verbatim>\<open>ConcurrentQueue/HashTable.h\<close>, in which the concurrent queue keeps the producers of its
  threads: open addressing in a chain of arrays, the newest first, that doubles when it is half full;
  an entry found in an older array is copied to the newest.  The model is one thread's use of it.

  The hash function and the key that marks a free entry are the template and constructor
  arguments \<open>hash\<close> and \<open>INVALID_KEY\<close>.  Allocations are made from the heap of \<^verbatim>\<open>Free_List\<close>.
\<close>

section \<open>Hash functions\<close>

definition Hash4 :: "u32 \<Rightarrow> u32" where
  "Hash4 Key =
    (let Key = Key XOR drop_bit 16 Key;
         Key = Key * 0x85ebca6b;
         Key = Key XOR drop_bit 13 Key;
         Key = Key * 0xc2b2ae35
     in Key XOR drop_bit 16 Key)"

definition Hash8 :: "64 word \<Rightarrow> 64 word" where
  "Hash8 Key =
    (let Key = Key XOR drop_bit 33 Key;
         Key = Key * 0xff51afd7ed558ccd;
         Key = Key XOR drop_bit 33 Key;
         Key = Key * 0xc4ceb9fe1a85ec53
     in Key XOR drop_bit 33 Key)"

section \<open>State\<close>

text \<open>
  The entries of a node are pairs of a key and a value; the value of a free entry is \<open>None\<close>, not yet
  stored.  The chain \<^verbatim>\<open>Prev\<close> is the list \<open>MainHash\<close>, newest first, empty for a null pointer.
\<close>

datatype HashTableStatus = GET_SUCCESS | ADD_SUCCESS | FAILED

record ('k, 'v) hash_node =
  HN_Self :: addr
  HN_At :: addr
  Capacity :: size_t
  Entries :: "('k \<times> 'v option) list"

record ('k, 'v) htable =
  EntriesCount :: size_t
  HashResizeInProgressFlag :: bool
  MainHash :: "('k, 'v) hash_node list"
  INVALID_KEY :: 'k

definition set_main :: "('k, 'v) hash_node \<Rightarrow> ('k, 'v) htable \<Rightarrow> ('k, 'v) htable" where
  "set_main N T = T\<lparr>MainHash := N # tl (MainHash T)\<rparr>"

definition store_entry :: "size_t \<Rightarrow> 'k \<Rightarrow> 'v option \<Rightarrow> ('k, 'v) hash_node \<Rightarrow> ('k, 'v) hash_node" where
  "store_entry i k v N = N\<lparr>Entries := (Entries N)[unat i := (k, v)]\<rparr>"

section \<open>Nodes\<close>

text \<open>When the second allocation throws, the node of the first is lost.\<close>

definition CreateNewHashNode :: "'k \<Rightarrow> size_t \<Rightarrow> 'a heap \<Rightarrow> ('k, 'v) hash_node res \<times> 'a heap" where
  "CreateNewHashNode invalid InCapacity h =
    (case Allocate 1 h of (Exn, h1) \<Rightarrow> (Exn, h1)
     | (Ret self, h1) \<Rightarrow>
        (case Allocate (unat InCapacity) h1 of (Exn, h2) \<Rightarrow> (Exn, h2)
         | (Ret at, h2) \<Rightarrow>
            (Ret \<lparr>HN_Self = self, HN_At = at, Capacity = InCapacity,
                  Entries = replicate (unat InCapacity) (invalid, None)\<rparr>, h2)))"

definition DeleteHashNode :: "('k, 'v) hash_node \<Rightarrow> 'a heap \<Rightarrow> 'a heap option" where
  "DeleteHashNode Node h = do {
     h1 \<leftarrow> Deallocate (Some (HN_At Node)) (unat (Capacity Node)) h;
     Deallocate (Some (HN_Self Node)) 1 h1 }"

definition HashTable_new :: "size_t \<Rightarrow> 'k \<Rightarrow> 'a heap \<Rightarrow> ('k, 'v) htable res \<times> 'a heap" where
  "HashTable_new INITIAL_HASH_SIZE InValidKey h =
    (case CreateNewHashNode InValidKey INITIAL_HASH_SIZE h of (Exn, h1) \<Rightarrow> (Exn, h1)
     | (Ret Node, h1) \<Rightarrow>
        (Ret \<lparr>EntriesCount = 0, HashResizeInProgressFlag = False, MainHash = [Node], INVALID_KEY = InValidKey\<rparr>, h1))"

fun HashTable_Clear_nodes :: "('k, 'v) hash_node list \<Rightarrow> 'a heap \<Rightarrow> 'a heap option" where
  "HashTable_Clear_nodes [] h = Some h"
| "HashTable_Clear_nodes (CurrentHash # Prev) h = do {
     h1 \<leftarrow> DeleteHashNode CurrentHash h;
     HashTable_Clear_nodes Prev h1 }"

definition HashTable_Clear :: "('k, 'v) htable \<Rightarrow> 'a heap \<Rightarrow> 'a heap option" where
  "HashTable_Clear T h = HashTable_Clear_nodes (MainHash T) h"

definition HashTable_Reset :: "('k, 'v) htable \<Rightarrow> ('k, 'v) htable" where
  "HashTable_Reset T = T\<lparr>EntriesCount := 0, MainHash := [], HashResizeInProgressFlag := False\<rparr>"

text \<open>The resize flag is not moved: the new table's is clear.\<close>

definition HashTable_move :: "('k, 'v) htable \<Rightarrow> ('k, 'v) htable \<times> ('k, 'v) htable" where
  "HashTable_move Other = (Other\<lparr>HashResizeInProgressFlag := False\<rparr>, HashTable_Reset Other)"

definition HashTable_move_assign ::
  "('k, 'v) htable \<Rightarrow> ('k, 'v) htable \<Rightarrow> 'a heap \<Rightarrow> (('k, 'v) htable \<times> ('k, 'v) htable \<times> 'a heap) option" where
  "HashTable_move_assign this Other h = do {
     h1 \<leftarrow> HashTable_Clear this h;
     Some (Other\<lparr>HashResizeInProgressFlag := False\<rparr>, HashTable_Reset Other, h1) }"

definition HashTable_swap :: "('k, 'v) htable \<Rightarrow> ('k, 'v) htable \<Rightarrow> ('k, 'v) htable \<times> ('k, 'v) htable" where
  "HashTable_swap this Other = (Other\<lparr>HashResizeInProgressFlag := False\<rparr>, this\<lparr>HashResizeInProgressFlag := False\<rparr>)"

definition HashTable_GetSize :: "('k, 'v) htable \<Rightarrow> size_t" where
  "HashTable_GetSize T = EntriesCount T"

section \<open>Lookup\<close>

text \<open>
  One array of the chain: the index where the key is, or nothing at the first free entry.  Then the
  chain, from the newest on, with the value found and whether it was in the newest.
\<close>

definition FindInNode :: "('k \<Rightarrow> size_t) \<Rightarrow> 'k \<Rightarrow> 'k \<Rightarrow> ('k, 'v) hash_node \<Rightarrow> size_t option option" where
  "FindInNode hash invalid Key N = do {
     Index \<leftarrow> loop (probe_body (Entries N) (Capacity N) (\<lambda>k. k = Key \<or> k = invalid)) (hash Key);
     Some (if fst (Entries N ! unat Index) = Key then Some Index else None) }"

fun FindInChain :: "('k \<Rightarrow> size_t) \<Rightarrow> 'k \<Rightarrow> 'k \<Rightarrow> bool \<Rightarrow> ('k, 'v) hash_node list
    \<Rightarrow> (bool \<times> size_t \<times> 'v option) option option" where
  "FindInChain hash invalid Key newest [] = Some None"
| "FindInChain hash invalid Key newest (N # Ns) = do {
     r \<leftarrow> FindInNode hash invalid Key N;
     case r of Some Index \<Rightarrow> Some (Some (newest, Index, snd (Entries N ! unat Index)))
     | None \<Rightarrow> FindInChain hash invalid Key False Ns }"

text \<open>
  \<^verbatim>\<open>InnerGetEntry\<close>: the index of the entry in the newest array, to which one found in an older array
  is copied first.
\<close>

definition InnerGetEntry :: "('k \<Rightarrow> size_t) \<Rightarrow> 'k \<Rightarrow> ('k, 'v) htable \<Rightarrow> (size_t option \<times> ('k, 'v) htable) option" where
  "InnerGetEntry hash Key T = do {
     r \<leftarrow> FindInChain hash (INVALID_KEY T) Key True (MainHash T);
     case r of None \<Rightarrow> Some (None, T)
     | Some (newest, Index, CurrentValue) \<Rightarrow>
        if newest then Some (Some Index, T)
        else (case MainHash T of [] \<Rightarrow> None
          | N # _ \<Rightarrow> do {
              Index \<leftarrow> loop (probe_body (Entries N) (Capacity N) (\<lambda>k. k = INVALID_KEY T)) (hash Key);
              Some (Some Index, set_main (store_entry Index Key CurrentValue N) T) }) }"

definition main_value :: "size_t \<Rightarrow> ('k, 'v) htable \<Rightarrow> 'v option" where
  "main_value i T = (case MainHash T of [] \<Rightarrow> None
     | N # _ \<Rightarrow> if unat i < length (Entries N) then snd (Entries N ! unat i) else None)"

definition HashTable_Get :: "('k \<Rightarrow> size_t) \<Rightarrow> 'k \<Rightarrow> ('k, 'v) htable \<Rightarrow> ('v option \<times> ('k, 'v) htable) option" where
  "HashTable_Get hash Key T = do {
     (e, T1) \<leftarrow> InnerGetEntry hash Key T;
     case e of Some i \<Rightarrow> do { v \<leftarrow> main_value i T1; Some (Some v, T1) }
     | None \<Rightarrow> Some (None, T1) }"

section \<open>Insertion\<close>

text \<open>
  \<^verbatim>\<open>InnerAdd\<close>.  The loop that is to compute the new capacity doubles \<^verbatim>\<open>NewCount\<close>, as in the code.  Its
  exception leaves the resize flag set and the entry counted.  The branch in which
  \<^verbatim>\<open>CreateNewHashNode\<close> returns a null pointer is not there: it throws instead.
\<close>

definition GrowCount_body :: "size_t \<Rightarrow> size_t \<Rightarrow> (size_t + size_t) option" where
  "GrowCount_body NewCapacity NewCount =
     Some (if NewCount \<ge> drop_bit 1 NewCapacity then Inl (push_bit 1 NewCount) else Inr NewCount)"

definition Resize :: "size_t \<Rightarrow> ('k, 'v) htable \<Rightarrow> 'a heap \<Rightarrow> (size_t res \<times> ('k, 'v) htable \<times> 'a heap) option" where
  "Resize NewCount T h =
    (case MainHash T of [] \<Rightarrow> None
     | Main # _ \<Rightarrow>
        if NewCount < drop_bit 1 (Capacity Main)
        then Some (Ret NewCount, T\<lparr>HashResizeInProgressFlag := False\<rparr>, h)
        else do {
          let NewCapacity = push_bit 1 (Capacity Main);
          NewCount \<leftarrow> loop (GrowCount_body NewCapacity) NewCount;
          case CreateNewHashNode (INVALID_KEY T) NewCapacity h of
            (Exn, h1) \<Rightarrow> Some (Exn, T\<lparr>HashResizeInProgressFlag := True\<rparr>, h1)
          | (Ret NewHash, h1) \<Rightarrow>
              Some (Ret NewCount, T\<lparr>MainHash := NewHash # MainHash T, HashResizeInProgressFlag := False\<rparr>, h1) })"

definition HT_InnerAdd_body :: "('k \<Rightarrow> size_t) \<Rightarrow> 'k \<Rightarrow> 'v \<Rightarrow> size_t \<times> ('k, 'v) htable \<times> 'a heap
    \<Rightarrow> ((size_t \<times> ('k, 'v) htable \<times> 'a heap) + (bool res \<times> ('k, 'v) htable \<times> 'a heap)) option" where
  "HT_InnerAdd_body hash Key InValue = (\<lambda>(NewCount, T, h).
     case MainHash T of [] \<Rightarrow> None
     | Current # _ \<Rightarrow> do {
         (r, T1, h1) \<leftarrow>
           (if NewCount \<ge> drop_bit 1 (Capacity Current) \<and> \<not> HashResizeInProgressFlag T
            then Resize NewCount T h else Some (Ret NewCount, T, h));
         case r of Exn \<Rightarrow> Some (Inr (Exn, T1, h1))
         | Ret NewCount \<Rightarrow>
            (case MainHash T1 of [] \<Rightarrow> None
             | N # _ \<Rightarrow>
                if NewCount < drop_bit 1 (Capacity N) + drop_bit 2 (Capacity N) then do {
                  Index \<leftarrow> loop (probe_body (Entries N) (Capacity N) (\<lambda>k. k = INVALID_KEY T1)) (hash Key);
                  Some (Inr (Ret True, set_main (store_entry Index Key (Some InValue) N) T1, h1)) }
                else Some (Inl (NewCount, T1, h1))) })"

definition HT_InnerAdd :: "('k \<Rightarrow> size_t) \<Rightarrow> 'k \<Rightarrow> 'v \<Rightarrow> ('k, 'v) htable \<Rightarrow> 'a heap
    \<Rightarrow> (bool res \<times> ('k, 'v) htable \<times> 'a heap) option" where
  "HT_InnerAdd hash Key InValue T h =
    (let NewCount = EntriesCount T in
     loop (HT_InnerAdd_body hash Key InValue) (NewCount, T\<lparr>EntriesCount := EntriesCount T + 1\<rparr>, h))"

text \<open>\<^verbatim>\<open>Set\<close> is \<^verbatim>\<open>noexcept\<close>: where it gives \<open>Exn\<close> the program ends.\<close>

definition HashTable_Set :: "('k \<Rightarrow> size_t) \<Rightarrow> 'k \<Rightarrow> 'v \<Rightarrow> ('k, 'v) htable \<Rightarrow> 'a heap
    \<Rightarrow> (bool res \<times> ('k, 'v) htable \<times> 'a heap) option" where
  "HashTable_Set hash Key Value T h = do {
     (e, T1) \<leftarrow> InnerGetEntry hash Key T;
     case e of
       Some i \<Rightarrow> (case MainHash T1 of [] \<Rightarrow> None
         | N # _ \<Rightarrow> Some (Ret True, set_main (store_entry i (fst (Entries N ! unat i)) (Some Value) N) T1, h))
     | None \<Rightarrow> HT_InnerAdd hash Key Value T1 h }"

definition HashTable_GetOrAdd :: "('k \<Rightarrow> size_t) \<Rightarrow> 'k \<Rightarrow> 'v \<Rightarrow> ('k, 'v) htable \<Rightarrow> 'a heap
    \<Rightarrow> ((HashTableStatus \<times> 'v option) res \<times> ('k, 'v) htable \<times> 'a heap) option" where
  "HashTable_GetOrAdd hash Key InValue T h = do {
     (e, T1) \<leftarrow> InnerGetEntry hash Key T;
     case e of
       Some i \<Rightarrow> do { v \<leftarrow> main_value i T1; Some (Ret (GET_SUCCESS, Some v), T1, h) }
     | None \<Rightarrow> do {
         (r, T2, h2) \<leftarrow> HT_InnerAdd hash Key InValue T1 h;
         Some (case r of Exn \<Rightarrow> Exn
           | Ret ok \<Rightarrow> Ret (if ok then (ADD_SUCCESS, Some InValue) else (FAILED, None)), T2, h2) } }"

text \<open>
  \<^verbatim>\<open>GetOrAddByFunc\<close>: the value is made by \<open>AllocateValueFunc\<close> when the key is new; the function may
  change the rest \<open>x\<close> of the program and may return a null pointer.
\<close>

definition HashTable_GetOrAddByFunc :: "('k \<Rightarrow> size_t) \<Rightarrow> 'k
    \<Rightarrow> ('x \<Rightarrow> 'a heap \<Rightarrow> ('v option res \<times> 'x \<times> 'a heap) option) \<Rightarrow> ('k, 'v) htable \<Rightarrow> 'x \<Rightarrow> 'a heap
    \<Rightarrow> ((HashTableStatus \<times> 'v option) res \<times> ('k, 'v) htable \<times> 'x \<times> 'a heap) option" where
  "HashTable_GetOrAddByFunc hash Key AllocateValueFunc T x h = do {
     (e, T1) \<leftarrow> InnerGetEntry hash Key T;
     case e of
       Some i \<Rightarrow> do { v \<leftarrow> main_value i T1; Some (Ret (GET_SUCCESS, Some v), T1, x, h) }
     | None \<Rightarrow> do {
         (r, x1, h1) \<leftarrow> AllocateValueFunc x h;
         case r of Exn \<Rightarrow> Some (Exn, T1, x1, h1)
         | Ret None \<Rightarrow> Some (Ret (FAILED, None), T1, x1, h1)
         | Ret (Some NewValue) \<Rightarrow> do {
             (r, T2, h2) \<leftarrow> HT_InnerAdd hash Key NewValue T1 h1;
             Some (case r of Exn \<Rightarrow> Exn
               | Ret ok \<Rightarrow> Ret (if ok then (ADD_SUCCESS, Some NewValue) else (FAILED, None)), T2, x1, h2) } } }"

end
