(* ===== verification/Hash_Table_Correct.thy ===== *)
theory Hash_Table_Correct
  imports Hash_Table
begin

text \<open>
  The table of \<^verbatim>\<open>Hash_Table\<close> refines a map from keys to values.  The invariant: in every array each key
  is reachable by probing, every array has a free entry, and at most half of the newest is used by the
  keys of the whole chain.
\<close>

section \<open>The invariant\<close>

definition node_ok :: "('k \<Rightarrow> size_t) \<Rightarrow> 'k \<Rightarrow> ('k, 'v) hash_node \<Rightarrow> nat \<Rightarrow> bool" where
  "node_ok hash invalid N m \<longleftrightarrow> m < 64 \<and> Capacity N = 2 ^ m
     \<and> probing (2 ^ m) (\<lambda>k. unat (hash k)) invalid (Entries N)
     \<and> (\<exists>i < 2 ^ m. fst (Entries N ! i) = invalid)
     \<and> (\<forall>k. k \<noteq> invalid \<longrightarrow> map_of (Entries N) k \<noteq> Some None)"

fun chain_map :: "('k, 'v) hash_node list \<Rightarrow> 'k \<Rightarrow> 'v option" where
  "chain_map [] k = None"
| "chain_map (N # Ns) k = (case map_of (Entries N) k of Some v \<Rightarrow> v | None \<Rightarrow> chain_map Ns k)"

definition ht_inv :: "('k \<Rightarrow> size_t) \<Rightarrow> ('k, 'v) htable \<Rightarrow> ('k \<rightharpoonup> 'v) \<Rightarrow> bool" where
  "ht_inv hash T m \<longleftrightarrow> \<not> HashResizeInProgressFlag T \<and> finite (dom m) \<and> INVALID_KEY T \<notin> dom m
     \<and> EntriesCount T = of_nat (card (dom m))
     \<and> (\<forall>k. k \<noteq> INVALID_KEY T \<longrightarrow> m k = chain_map (MainHash T) k)
     \<and> (\<exists>N Ns M. MainHash T = N # Ns \<and> 1 \<le> M \<and> node_ok hash (INVALID_KEY T) N M \<and> card (dom m) \<le> 2 ^ (M - 1)
          \<and> (\<forall>P \<in> set Ns. \<exists>M. node_ok hash (INVALID_KEY T) P M))"

lemma node_okD:
  assumes "node_ok hash invalid N m"
  shows "m < 64" "Capacity N = 2 ^ m" "probing (2 ^ m) (\<lambda>k. unat (hash k)) invalid (Entries N)"
    "\<exists>i < 2 ^ m. fst (Entries N ! i) = invalid" "length (Entries N) = 2 ^ m"
    "k \<noteq> invalid \<Longrightarrow> map_of (Entries N) k \<noteq> Some None"
  using assms by (auto simp: node_ok_def probing_length)

lemma hash_start: "(w :: size_t) AND (2 ^ m - 1) = of_nat (unat w mod 2 ^ m)"
  using mask_of_nat [of "unat w" m, where 'w = 64] by (simp add: of_nat_unat ucast_id)

lemma node_index: "node_ok hash invalid N m \<Longrightarrow> i < 2 ^ m \<Longrightarrow> unat (of_nat i :: size_t) = i"
proof -
  assume "node_ok hash invalid N m" and i: "i < 2 ^ m"
  then have "(2::nat) ^ m < 2 ^ 64" by (intro power_strict_increasing) (auto simp: node_ok_def)
  then show ?thesis using i by (intro unat_of_nat_small) simp
qed

section \<open>Lookup\<close>

lemma FindInNode_hit:
  assumes N: "node_ok hash invalid N m" and k: "k \<noteq> invalid" "map_of (Entries N) k = Some v"
  shows "\<exists>i < 2 ^ m. FindInNode hash invalid k N = Some (Some (of_nat i)) \<and> Entries N ! i = (k, v)"
proof -
  note d = node_okD [OF N]
  obtain i where i: "i < 2 ^ m" "Entries N ! i = (k, v)"
    "loop (probe_body (Entries N) (2 ^ m) (\<lambda>x. x = k \<or> x = invalid)) (hash k) = Some (of_nat i)"
    by (rule probe_hit [OF d(3) _ k hash_start]) (use d(1) in simp)
  then show ?thesis using node_index [OF N i(1)] by (auto simp: FindInNode_def d(2))
qed

lemma FindInNode_miss:
  assumes N: "node_ok hash invalid N m" and k: "k \<noteq> invalid" "map_of (Entries N) k = None"
  shows "FindInNode hash invalid k N = Some None"
proof -
  note d = node_okD [OF N]
  obtain i where i: "i < 2 ^ m" "fst (Entries N ! i) = invalid"
    "loop (probe_body (Entries N) (2 ^ m) (\<lambda>x. x = k \<or> x = invalid)) (hash k) = Some (of_nat i)"
    by (rule probe_miss [OF d(3) _ d(4) k hash_start]) (use d(1) in simp)
  then show ?thesis using node_index [OF N i(1)] k by (simp add: FindInNode_def d(2))
qed

lemma FindInChain_old:
  assumes "k \<noteq> invalid" "\<forall>P \<in> set Ns. \<exists>M. node_ok hash invalid P M"
  shows "\<exists>r. FindInChain hash invalid k False Ns = Some r
    \<and> (case r of None \<Rightarrow> chain_map Ns k = None
       | Some (newest, _, v) \<Rightarrow> \<not> newest \<and> v \<noteq> None \<and> chain_map Ns k = v)"
  using assms(2)
proof (induction Ns)
  case (Cons N Ns)
  then obtain M where N: "node_ok hash invalid N M" by auto
  show ?case
  proof (cases "map_of (Entries N) k")
    case None
    obtain r where "FindInChain hash invalid k False Ns = Some r" "case r of None \<Rightarrow> chain_map Ns k = None
       | Some (newest, _, v) \<Rightarrow> \<not> newest \<and> v \<noteq> None \<and> chain_map Ns k = v" using Cons by auto
    with FindInNode_miss [OF N assms(1) None] None show ?thesis
      by (intro exI [of _ r]) (auto split: option.splits)
  next
    case (Some v)
    obtain i where i: "i < 2 ^ M" "FindInNode hash invalid k N = Some (Some (of_nat i))" "Entries N ! i = (k, v)"
      using FindInNode_hit [OF N assms(1) Some] by blast
    then show ?thesis using Some node_okD(6) [OF N assms(1)] node_index [OF N i(1)] by auto
  qed
qed simp

text \<open>Storing a value in the newest array, at the entry of the key or at the free entry of its probe.\<close>

lemma ht_store:
  assumes inv: "ht_inv hash T m" and main: "MainHash T = N # Ns" "node_ok hash (INVALID_KEY T) N M" "1 \<le> M"
    and k: "k \<noteq> INVALID_KEY T" and i: "i < 2 ^ M" "fst (Entries N ! i) = k \<or> fst (Entries N ! i) = INVALID_KEY T"
    and p: "probing (2 ^ M) (\<lambda>k. unat (hash k)) (INVALID_KEY T) ((Entries N)[i := (k, Some v)])"
    and size: "card (dom (m(k \<mapsto> v))) \<le> 2 ^ (M - 1)" and count: "c = of_nat (card (dom (m(k \<mapsto> v))))"
  shows "ht_inv hash (set_main (store_entry (of_nat i) k (Some v) N) (T\<lparr>EntriesCount := c\<rparr>)) (m(k \<mapsto> v))"
    (is "ht_inv hash ?T ?m")
proof -
  note d = node_okD [OF main(2)]
  let ?es = "(Entries N)[i := (k, Some v)]" and ?inv = "INVALID_KEY T"
  let ?N = "store_entry (of_nat i) k (Some v) N"
  have es: "Entries ?N = ?es" "Capacity ?N = 2 ^ M"
    using node_index [OF main(2) i(1)] d(2) by (simp_all add: store_entry_def)
  have upd: "map_of ?es x = (if x = k then Some (Some v) else map_of (Entries N) x)" if "x \<noteq> ?inv" for x
    by (rule map_of_update [OF d(3) p i that k])
  have fin: "finite (dom ?m)" "?inv \<notin> dom ?m" using inv k by (auto simp: ht_inv_def)
  have mk: "?m x = chain_map (?N # Ns) x" if "x \<noteq> ?inv" for x
    using inv that upd [OF that] main(1) by (auto simp: ht_inv_def es)
  have small: "card (dom ?m) < 2 ^ M"
    using size power_strict_increasing [of "M - 1" M "2::nat"] main(3) by linarith
  have sub: "x \<in> dom ?m" if "x \<noteq> ?inv" "map_of ?es x \<noteq> None" for x
  proof -
    have "map_of ?es x \<noteq> Some None" using upd [OF that(1)] d(6) [OF that(1)] by auto
    then show ?thesis using mk [OF that(1)] that(2) by (auto simp: es)
  qed
  have "\<exists>j < 2 ^ M. fst (?es ! j) = ?inv" by (rule free_slot [OF p fin(1) small sub])
  then have N: "node_ok hash ?inv ?N M"
    unfolding node_ok_def es using d(1,6) p upd by auto
  have old: "\<forall>P \<in> set Ns. \<exists>M. node_ok hash ?inv P M" using inv main(1) by (auto simp: ht_inv_def)
  have T: "MainHash ?T = ?N # Ns" "INVALID_KEY ?T = ?inv" "EntriesCount ?T = c"
    "HashResizeInProgressFlag ?T = HashResizeInProgressFlag T"
    by (simp_all add: set_main_def main(1))
  have flag: "\<not> HashResizeInProgressFlag T" using inv by (simp add: ht_inv_def)
  have ex: "\<exists>N' Ns' M'. ?N # Ns = N' # Ns' \<and> 1 \<le> M' \<and> node_ok hash ?inv N' M' \<and> card (dom ?m) \<le> 2 ^ (M' - 1)
        \<and> (\<forall>P \<in> set Ns'. \<exists>M. node_ok hash ?inv P M)"
    using N old size main(3) by (intro exI [of _ ?N] exI [of _ Ns] exI [of _ M]) blast
  show ?thesis
    unfolding ht_inv_def T [unfolded count] count using ex flag fin mk by blast
qed

lemma ht_invD:
  assumes "ht_inv hash T m"
  obtains N Ns M where "MainHash T = N # Ns" "1 \<le> M" "node_ok hash (INVALID_KEY T) N M" "card (dom m) \<le> 2 ^ (M - 1)"
    "\<forall>P \<in> set Ns. \<exists>M. node_ok hash (INVALID_KEY T) P M" "\<And>k. k \<noteq> INVALID_KEY T \<Longrightarrow> m k = chain_map (N # Ns) k"
    "EntriesCount T = of_nat (card (dom m))" "\<not> HashResizeInProgressFlag T" "finite (dom m)"
  using assms unfolding ht_inv_def by metis

text \<open>An entry that is found is found in the newest array afterwards.\<close>

lemma InnerGetEntry_spec:
  assumes inv: "ht_inv hash T m" and k: "k \<noteq> INVALID_KEY T"
  shows "case m k of
      None \<Rightarrow> InnerGetEntry hash k T = Some (None, T)
    | Some v \<Rightarrow> \<exists>i N Ns M T'. InnerGetEntry hash k T = Some (Some (of_nat i), T') \<and> ht_inv hash T' m
        \<and> MainHash T' = N # Ns \<and> 1 \<le> M \<and> node_ok hash (INVALID_KEY T) N M \<and> card (dom m) \<le> 2 ^ (M - 1)
        \<and> i < 2 ^ M \<and> Entries N ! i = (k, Some v) \<and> INVALID_KEY T' = INVALID_KEY T
        \<and> EntriesCount T' = EntriesCount T"
proof -
  obtain N Ns M where d: "MainHash T = N # Ns" "1 \<le> M" "node_ok hash (INVALID_KEY T) N M" "card (dom m) \<le> 2 ^ (M - 1)"
    "\<forall>P \<in> set Ns. \<exists>M. node_ok hash (INVALID_KEY T) P M" "\<And>k. k \<noteq> INVALID_KEY T \<Longrightarrow> m k = chain_map (N # Ns) k"
    "EntriesCount T = of_nat (card (dom m))" "\<not> HashResizeInProgressFlag T" "finite (dom m)"
    by (rule ht_invD [OF inv]) blast
  note n = node_okD [OF d(3)]
  show ?thesis
  proof (cases "map_of (Entries N) k")
    case (Some w)
    then obtain v where v: "w = Some v" "m k = Some v" using n(6) [OF k] d(6) [OF k] by (cases w) auto
    obtain i where i: "i < 2 ^ M" "FindInNode hash (INVALID_KEY T) k N = Some (Some (of_nat i))" "Entries N ! i = (k, w)"
      using FindInNode_hit [OF d(3) k Some] by blast
    have "InnerGetEntry hash k T = Some (Some (of_nat i), T)"
      by (simp add: InnerGetEntry_def d(1) i(2))
    then show ?thesis using v i inv d(1-4) by auto
  next
    case None
    note miss = FindInNode_miss [OF d(3) k None]
    obtain r where r: "FindInChain hash (INVALID_KEY T) k False Ns = Some r"
      "case r of None \<Rightarrow> chain_map Ns k = None
       | Some (newest, _, v) \<Rightarrow> \<not> newest \<and> v \<noteq> None \<and> chain_map Ns k = v"
      using FindInChain_old [OF k d(5)] by blast
    show ?thesis
    proof (cases r)
      case rN: None
      then have "m k = None" using r(2) d(6) [OF k] None by simp
      moreover have "InnerGetEntry hash k T = Some (None, T)"
        using rN r(1) by (simp add: InnerGetEntry_def d(1) miss)
      ultimately show ?thesis by simp
    next
      case (Some e)
      then obtain j v where e: "r = Some (False, j, Some v)" "m k = Some v"
        using r(2) d(6) [OF k] None by (cases e) auto
      obtain i where i: "i < 2 ^ M" "fst (Entries N ! i) = INVALID_KEY T"
        "loop (probe_body (Entries N) (2 ^ M) (\<lambda>x. x = INVALID_KEY T)) (hash k) = Some (of_nat i)"
        "probing (2 ^ M) (\<lambda>k. unat (hash k)) (INVALID_KEY T) ((Entries N)[i := (k, Some v)])"
        by (rule probe_miss [OF n(3) _ n(4) k None hash_start, of "Some v"]) (use n(1) in simp_all)
      let ?N = "store_entry (of_nat i) k (Some v) N"
      let ?T = "set_main ?N T"
      have same: "m(k \<mapsto> v) = m" using e(2) by (rule fun_upd_idem)
      have inv': "ht_inv hash ?T m"
      proof -
        have "T\<lparr>EntriesCount := EntriesCount T\<rparr> = T" by simp
        moreover have "ht_inv hash (set_main ?N (T\<lparr>EntriesCount := EntriesCount T\<rparr>)) (m(k \<mapsto> v))"
          using i(2) d(4) by (intro ht_store [OF inv d(1,3,2) k i(1) _ i(4)]) (simp_all only: same d(7) simp_thms)
        ultimately show ?thesis by (simp only: same)
      qed
      have run: "InnerGetEntry hash k T = Some (Some (of_nat i), ?T)"
        using r(1) i(3) by (simp add: InnerGetEntry_def d(1) miss e(1) n(2))
      have main: "MainHash ?T = ?N # Ns" by (simp add: set_main_def d(1))
      have "Entries ?N ! i = (k, Some v)"
        using node_index [OF d(3) i(1)] i(1) n(5) by (simp add: store_entry_def)
      moreover obtain M' where M': "node_ok hash (INVALID_KEY T) ?N M'" "1 \<le> M'" "card (dom m) \<le> 2 ^ (M' - 1)"
        using inv' main by (auto simp: ht_inv_def set_main_def)
      moreover have "M' = M"
      proof -
        have "length (Entries ?N) = 2 ^ M'" by (rule node_okD(5) [OF M'(1)])
        then have "(2::nat) ^ M' = 2 ^ M" using n(5) by (simp add: store_entry_def)
        then show ?thesis by simp
      qed
      ultimately show ?thesis using e(2) run inv' main d(2) i(1)
        by (simp add: set_main_def) blast
    qed
  qed
qed

lemma main_value_at:
  assumes "MainHash T = N # Ns" "node_ok hash invalid N M" "i < 2 ^ M" "Entries N ! i = (k, v)"
  shows "main_value (of_nat i) T = v"
  using assms(1,3,4) node_index [OF assms(2,3)] node_okD(5) [OF assms(2)] by (simp add: main_value_def)

section \<open>Insertion\<close>

lemma card_insert_dom: "m k = None \<Longrightarrow> finite (dom m) \<Longrightarrow> card (dom (m(k \<mapsto> v))) = Suc (card (dom m))"
  by (simp add: domIff)

lemma ht_insert:
  assumes inv: "ht_inv hash T m" and main: "MainHash T = N # Ns" "node_ok hash (INVALID_KEY T) N M" "1 \<le> M"
    and k: "k \<noteq> INVALID_KEY T" "m k = None" and size: "card (dom m) < 2 ^ (M - 1)"
  shows "\<exists>i. loop (probe_body (Entries N) (Capacity N) (\<lambda>k. k = INVALID_KEY T)) (hash k) = Some i
    \<and> ht_inv hash (set_main (store_entry i k (Some v) N) (T\<lparr>EntriesCount := EntriesCount T + 1\<rparr>)) (m(k \<mapsto> v))"
proof -
  note n = node_okD [OF main(2)]
  have c: "EntriesCount T = of_nat (card (dom m))" "finite (dom m)" "m k = chain_map (N # Ns) k"
    using inv k(1) main(1) by (auto simp: ht_inv_def)
  have none: "map_of (Entries N) k = None"
    using c(3) k n(6) [OF k(1)] by (auto split: option.splits)
  obtain i where i: "i < 2 ^ M" "fst (Entries N ! i) = INVALID_KEY T"
    "loop (probe_body (Entries N) (2 ^ M) (\<lambda>x. x = INVALID_KEY T)) (hash k) = Some (of_nat i)"
    "probing (2 ^ M) (\<lambda>k. unat (hash k)) (INVALID_KEY T) ((Entries N)[i := (k, Some v)])"
    by (rule probe_miss [OF n(3) _ n(4) k(1) none hash_start, of "Some v"]) (use n(1) in simp_all)
  have card: "card (dom (m(k \<mapsto> v))) = Suc (card (dom m))" by (rule card_insert_dom [OF k(2) c(2)])
  have "ht_inv hash (set_main (store_entry (of_nat i) k (Some v) N) (T\<lparr>EntriesCount := EntriesCount T + 1\<rparr>)) (m(k \<mapsto> v))"
  proof (rule ht_store [OF inv main k(1) i(1) _ i(4)])
    show "card (dom (m(k \<mapsto> v))) \<le> 2 ^ (M - 1)" unfolding card using size by simp
    show "EntriesCount T + 1 = of_nat (card (dom (m(k \<mapsto> v))))" unfolding card c(1) by simp
  qed (use i(2) in simp)
  then show ?thesis using i(3) n(2) by auto
qed

lemma empty_node:
  "node_ok hash invalid \<lparr>HN_Self = s, HN_At = a, Capacity = 2 ^ m, Entries = replicate (2 ^ m) (invalid, None)\<rparr> m
    \<longleftrightarrow> m < 64"
  by (auto simp: node_ok_def probing_def map_of_eq_None_iff dest!: map_of_SomeD intro!: exI [of _ 0])

lemma ht_push:
  assumes inv: "ht_inv hash T m" and main: "MainHash T = N # Ns" "node_ok hash (INVALID_KEY T) N M"
    and size: "card (dom m) \<le> 2 ^ (M' - 1)" "1 \<le> M'" "M' < 64"
  shows "ht_inv hash (T\<lparr>MainHash := \<lparr>HN_Self = s, HN_At = a, Capacity = 2 ^ M',
      Entries = replicate (2 ^ M') (INVALID_KEY T, None)\<rparr> # MainHash T\<rparr>) m"
proof -
  have none: "k \<noteq> INVALID_KEY T \<Longrightarrow> map_of (replicate n (INVALID_KEY T, None)) k = None" for k n
    by (auto simp: map_of_eq_None_iff)
  have old: "\<forall>P \<in> set (N # Ns). \<exists>M. node_ok hash (INVALID_KEY T) P M"
    using inv main by (auto simp: ht_inv_def)
  show ?thesis
    unfolding ht_inv_def using inv old size main(1)
    by (auto simp: ht_inv_def none empty_node)
qed

lemma half_capacity: "1 \<le> M \<Longrightarrow> M < 64 \<Longrightarrow> unat (drop_bit 1 (2 ^ M :: size_t)) = 2 ^ (M - 1)"
proof -
  assume M: "1 \<le> M" "M < 64"
  have "unat (drop_bit 1 (2 ^ M :: size_t)) = unat (2 ^ M :: size_t) div 2 ^ 1" by (rule unat_drop_bit_div)
  also have "unat (2 ^ M :: size_t) = 2 ^ M" using M by (intro unat_pow2) simp
  finally show ?thesis using M by (cases M) simp_all
qed

lemma room_word:
  assumes "1 \<le> M" "M < 64" "e < 2 ^ (M - 1)"
  shows "(of_nat e :: size_t) < drop_bit 1 (2 ^ M)" "(of_nat e :: size_t) < drop_bit 1 (2 ^ M) + drop_bit 2 (2 ^ M)"
proof -
  have p: "(2::nat) ^ M < 2 ^ 64" using assms(2) by (intro power_strict_increasing) auto
  have h: "unat (drop_bit 1 (2 ^ M :: size_t)) = 2 ^ (M - 1)" by (rule half_capacity [OF assms(1,2)])
  have q: "unat (drop_bit 2 (2 ^ M :: size_t)) = 2 ^ M div 4" using assms(2) by (simp add: unat_drop_bit_div unat_pow2)
  have two: "(2::nat) ^ M = 2 * 2 ^ (M - 1)" using assms(1) by (cases M) auto
  have e: "unat (of_nat e :: size_t) = e" using assms(3) two p by (intro unat_of_nat_small) simp
  show "(of_nat e :: size_t) < drop_bit 1 (2 ^ M)"
    using assms(3) by (simp only: word_less_nat_alt h e)
  have "unat (drop_bit 1 (2 ^ M) + drop_bit 2 (2 ^ M) :: size_t) = 2 ^ (M - 1) + 2 ^ M div 4"
    using two p by (subst unat_add_lem [THEN iffD1]) (simp_all only: h q, simp)
  then show "(of_nat e :: size_t) < drop_bit 1 (2 ^ M) + drop_bit 2 (2 ^ M)"
    using assms(3) by (simp add: word_less_nat_alt e)
qed

text \<open>
  A new key, in a table of fewer than \<open>2 ^ 60\<close> keys.  The only failure is an exception of the
  allocator, and it leaves the resize flag set and the entry counted.
\<close>

lemma InnerAdd_spec:
  fixes T :: "('k, 'v) htable" and h :: "'a heap"
  assumes inv: "ht_inv hash T m" and k: "k \<noteq> INVALID_KEY T" "m k = None" and small: "card (dom m) < 2 ^ 60"
  shows "\<exists>r T' h'. HT_InnerAdd hash k v T h = Some (r, T', h') \<and> INVALID_KEY T' = INVALID_KEY T
    \<and> Quota h \<le> Quota h' + 2
    \<and> (case r of Ret ok \<Rightarrow> ok \<and> ht_inv hash T' (m(k \<mapsto> v))
       | Exn \<Rightarrow> Quota h < 2 \<and> HashResizeInProgressFlag T' \<and> EntriesCount T' = EntriesCount T + 1)"
proof -
  obtain N Ns M where d: "MainHash T = N # Ns" "1 \<le> M" "node_ok hash (INVALID_KEY T) N M" "card (dom m) \<le> 2 ^ (M - 1)"
    "EntriesCount T = of_nat (card (dom m))" "\<not> HashResizeInProgressFlag T" "finite (dom m)"
    by (rule ht_invD [OF inv]) blast
  note n = node_okD [OF d(3)]
  let ?T = "T\<lparr>EntriesCount := EntriesCount T + 1\<rparr>"
  show ?thesis
  proof (cases "card (dom m) < 2 ^ (M - 1)")
    case True
    note w = room_word [OF d(2) n(1) True]
    obtain i where i: "loop (probe_body (Entries N) (Capacity N) (\<lambda>k. k = INVALID_KEY T)) (hash k) = Some i"
      "ht_inv hash (set_main (store_entry i k (Some v) N) ?T) (m(k \<mapsto> v))"
      using ht_insert [OF inv d(1,3,2) k True] by blast
    have w: "\<not> drop_bit 1 (Capacity N) \<le> EntriesCount T"
      "EntriesCount T < drop_bit 1 (Capacity N) + drop_bit 2 (Capacity N)"
      using w unfolding d(5) n(2) by (simp_all only: linorder_not_le)
    have "HT_InnerAdd_body hash k v (EntriesCount T, ?T, h)
        = Some (Inr (Ret True, set_main (store_entry i k (Some v) N) ?T, h))"
      using w i(1) by (simp add: HT_InnerAdd_body_def d(1))
    then have "HT_InnerAdd hash k v T h = Some (Ret True, set_main (store_entry i k (Some v) N) ?T, h)"
      by (simp add: HT_InnerAdd_def loop_exit)
    then show ?thesis using i(2) by (auto simp: set_main_def)
  next
    case False
    then have e: "card (dom m) = 2 ^ (M - 1)" using d(4) by simp
    have M: "M < 62"
    proof (rule ccontr)
      assume "\<not> M < 62"
      then have "(2::nat) ^ 60 \<le> 2 ^ (M - 1)" by (intro power_increasing) auto
      with small e show False by simp
    qed
    have two: "(2::nat) ^ M = 2 * 2 ^ (M - 1)" using d(2) by (cases M) auto
    have small': "card (dom m) < 2 ^ (M + 1 - 1)" unfolding e using d(2) by simp
    note w = room_word [OF _ _ small']
    have ge: "drop_bit 1 (Capacity N) \<le> EntriesCount T"
    proof -
      have "unat (of_nat (card (dom m)) :: size_t) = card (dom m)" using small by (intro unat_of_nat_small) simp
      then have "unat (EntriesCount T) = 2 ^ (M - 1)" unfolding d(5) by (simp only: e)
      then show ?thesis by (simp only: word_le_nat_alt n(2) half_capacity [OF d(2) n(1)])
    qed
    have cap: "push_bit 1 (Capacity N) = 2 ^ (M + 1)" by (simp add: push_bit_eq_mult n(2))
    have w: "\<not> drop_bit 1 (2 ^ (M + 1)) \<le> EntriesCount T"
      "EntriesCount T < drop_bit 1 (2 ^ (M + 1)) + drop_bit 2 (2 ^ (M + 1))"
      using w M unfolding d(5) by (simp_all only: linorder_not_le)
    have grow: "loop (GrowCount_body (2 ^ (M + 1))) (EntriesCount T) = Some (EntriesCount T)"
      using w(1) by (intro loop_exit) (simp only: GrowCount_body_def if_False)
    obtain r :: "('k, 'v) hash_node res" and h' where
      c: "CreateNewHashNode (INVALID_KEY T) (2 ^ (M + 1)) h = (r, h')" by fastforce
    have q: "Quota h \<le> Quota h' + 2" "r = Exn \<Longrightarrow> Quota h < 2"
      using c by (auto simp: CreateNewHashNode_def Allocate_def split: if_splits)
    have rs: "Resize (EntriesCount T) ?T h = (case r of
          Exn \<Rightarrow> Some (Exn, ?T\<lparr>HashResizeInProgressFlag := True\<rparr>, h')
        | Ret NewHash \<Rightarrow> Some (Ret (EntriesCount T),
            ?T\<lparr>MainHash := NewHash # MainHash T, HashResizeInProgressFlag := False\<rparr>, h'))"
    proof -
      have "\<not> EntriesCount T < drop_bit 1 (Capacity N)" using ge by (simp only: linorder_not_less)
      moreover have "MainHash ?T = MainHash T" "INVALID_KEY ?T = INVALID_KEY T" by simp_all
      ultimately show ?thesis
        by (cases r) (simp_all only: Resize_def d(1) list.case if_False Let_def cap grow Option.bind.simps
            c prod.case res.case)
    qed
    show ?thesis
    proof (cases r)
      case Exn
      have "HT_InnerAdd_body hash k v (EntriesCount T, ?T, h)
          = Some (Inr (Exn, ?T\<lparr>HashResizeInProgressFlag := True\<rparr>, h'))"
        using ge by (simp add: HT_InnerAdd_body_def d(1,6) rs Exn)
      then have "HT_InnerAdd hash k v T h = Some (Exn, ?T\<lparr>HashResizeInProgressFlag := True\<rparr>, h')"
        by (simp add: HT_InnerAdd_def loop_exit)
      then show ?thesis using q Exn by auto
    next
      case (Ret New)
      obtain s a where New: "New = \<lparr>HN_Self = s, HN_At = a, Capacity = 2 ^ (M + 1),
          Entries = replicate (2 ^ (M + 1)) (INVALID_KEY T, None)\<rparr>"
      proof -
        have "unat (2 ^ (M + 1) :: size_t) = 2 ^ (M + 1)" using M by (intro unat_pow2) simp
        then show ?thesis using c Ret that
          by (auto simp: CreateNewHashNode_def simp del: power_Suc split: prod.splits res.splits)
      qed
      let ?U = "T\<lparr>MainHash := New # MainHash T\<rparr>"
      have inv0: "ht_inv hash ?U m"
        unfolding New using small' M by (intro ht_push [OF inv d(1,3)]) simp_all
      have same: "INVALID_KEY ?U = INVALID_KEY T" by simp
      have node: "node_ok hash (INVALID_KEY ?U) New (M + 1)"
        unfolding same unfolding New using M by (subst empty_node) simp
      obtain i where i: "loop (probe_body (Entries New) (Capacity New) (\<lambda>k. k = INVALID_KEY ?U)) (hash k) = Some i"
        "ht_inv hash (set_main (store_entry i k (Some v) New) (?U\<lparr>EntriesCount := EntriesCount ?U + 1\<rparr>)) (m(k \<mapsto> v))"
        using ht_insert [OF inv0 _ node _ _ k(2) small', of "MainHash T"] k(1) by auto
      let ?W = "?T\<lparr>MainHash := New # MainHash T, HashResizeInProgressFlag := False\<rparr>"
      have T1: "?W = ?U\<lparr>EntriesCount := EntriesCount ?U + 1\<rparr>"
        by (intro htable.equality) (simp_all add: d(6))
      have capN: "Capacity New = 2 ^ (M + 1)" by (simp add: New)
      have "HT_InnerAdd_body hash k v (EntriesCount T, ?T, h)
          = Some (Inr (Ret True, set_main (store_entry i k (Some v) New) ?W, h'))"
        using ge w(2) i(1) [unfolded capN] d(1,6) Ret
        by (simp add: HT_InnerAdd_body_def rs capN del: One_nat_def power_Suc)
      then have "HT_InnerAdd hash k v T h = Some (Ret True, set_main (store_entry i k (Some v) New) ?W, h')"
        by (simp add: HT_InnerAdd_def loop_exit)
      moreover have "INVALID_KEY (set_main (store_entry i k (Some v) New) ?W) = INVALID_KEY T"
        by (simp add: set_main_def)
      ultimately show ?thesis using q i(2) unfolding T1 by auto
    qed
  qed
qed
end
