(* ===== verification/Hash_Table_Properties.thy ===== *)
theory Hash_Table_Properties
  imports Hash_Table_Correct
begin

text \<open>
  What the invariant of \<^verbatim>\<open>Hash_Table_Correct\<close> gives for the operations of \<^verbatim>\<open>HashTable\<close>, the hash functions,
  and a failure from which the table does not recover.
\<close>

section \<open>Hash functions\<close>

lemma xorshift_inverse:
  fixes x :: "'w::len word"
  assumes "LENGTH('w) \<le> 2 * s"
  shows "(x XOR drop_bit s x) XOR drop_bit s (x XOR drop_bit s x) = x"
  by (rule bit_eqI) (use assms in \<open>auto simp: bit_simps dest: bit_imp_le_length\<close>)

lemma xorshift_inverse3:
  fixes x :: "'w::len word"
  assumes "LENGTH('w) \<le> 3 * s"
  shows "(let y = x XOR drop_bit s x in y XOR drop_bit s y XOR drop_bit (2 * s) y) = x"
  by (rule bit_eqI) (use assms in \<open>auto simp: Let_def bit_simps mult_2 add.assoc dest: bit_imp_le_length\<close>)

lemma xorshift_inj:
  fixes x y :: "'w::len word"
  assumes "LENGTH('w) \<le> 2 * s \<or> LENGTH('w) \<le> 3 * s" "x XOR drop_bit s x = y XOR drop_bit s y"
  shows "x = y"
  using assms xorshift_inverse [of s x] xorshift_inverse [of s y] xorshift_inverse3 [of s x] xorshift_inverse3 [of s y]
  by metis

lemma mult_inj: "(c :: 'w::len word) * c' = 1 \<Longrightarrow> x * c = y * c \<Longrightarrow> x = y"
  by (metis mult.assoc mult.right_neutral)

text \<open>The hash functions only mix: two different keys never have the same hash, so the collisions of
  the tables come from masking the hash alone.\<close>

theorem Hash_injective: "inj Hash4 \<and> inj Hash8"
proof
  show "inj Hash4"
  proof (rule injI)
    fix x y assume "Hash4 x = Hash4 y"
    then have 1: "(let a = x XOR drop_bit 16 x; b = a * 0x85ebca6b; c = b XOR drop_bit 13 b in c * 0xc2b2ae35)
        = (let a = y XOR drop_bit 16 y; b = a * 0x85ebca6b; c = b XOR drop_bit 13 b in c * (0xc2b2ae35 :: u32))"
      unfolding Hash4_def Let_def by (rule xorshift_inj [rotated]) simp
    have i: "(0xc2b2ae35 :: u32) * 0x7ed1b41d = 1" "(0x85ebca6b :: u32) * 0xa5cb9243 = 1" by code_simp+
    from mult_inj [OF i(1) 1 [unfolded Let_def]]
    have "(x XOR drop_bit 16 x) * 0x85ebca6b = (y XOR drop_bit 16 y) * 0x85ebca6b"
      by (rule xorshift_inj [rotated]) simp
    from mult_inj [OF i(2) this] show "x = y" by (rule xorshift_inj [rotated]) simp
  qed
  show "inj Hash8"
  proof (rule injI)
    fix x y assume "Hash8 x = Hash8 y"
    then have 1: "(let a = x XOR drop_bit 33 x; b = a * 0xff51afd7ed558ccd; c = b XOR drop_bit 33 b in c * 0xc4ceb9fe1a85ec53)
        = (let a = y XOR drop_bit 33 y; b = a * 0xff51afd7ed558ccd; c = b XOR drop_bit 33 b in c * (0xc4ceb9fe1a85ec53 :: 64 word))"
      unfolding Hash8_def Let_def by (rule xorshift_inj [rotated]) simp
    have i: "(0xc4ceb9fe1a85ec53 :: 64 word) * 0x9cb4b2f8129337db = 1"
      "(0xff51afd7ed558ccd :: 64 word) * 0x4f74430c22a54005 = 1" by code_simp+
    from mult_inj [OF i(1) 1 [unfolded Let_def]]
    have "(x XOR drop_bit 33 x) * 0xff51afd7ed558ccd = (y XOR drop_bit 33 y) * 0xff51afd7ed558ccd"
      by (rule xorshift_inj [rotated]) simp
    from mult_inj [OF i(2) this] show "x = y" by (rule xorshift_inj [rotated]) simp
  qed
qed


section \<open>The table as a map\<close>

text \<open>
  \<open>ht_rel hash invalid c (T, h) m\<close>: the table \<open>T\<close> in memory \<open>h\<close> holds the map \<open>m\<close>, has fewer than \<open>2 ^ 60\<close>
  keys, and there is memory for \<open>c\<close> more operations (two allocations each).
\<close>

definition ht_rel :: "('k \<Rightarrow> size_t) \<Rightarrow> 'k \<Rightarrow> nat \<Rightarrow> ('k, 'v) htable \<times> 'a heap \<Rightarrow> ('k \<rightharpoonup> 'v) \<Rightarrow> bool" where
  "ht_rel hash invalid c st m \<longleftrightarrow> ht_inv hash (fst st) m \<and> INVALID_KEY (fst st) = invalid
     \<and> card (dom m) + c \<le> 2 ^ 60 \<and> 2 * c \<le> Quota (snd st)"


lemma ht_relD:
  assumes "ht_rel hash invalid c (T, h) m"
  shows "ht_inv hash T m" "INVALID_KEY T = invalid" "card (dom m) + c \<le> 2 ^ 60" "2 * c \<le> Quota h" "finite (dom m)"
  using assms by (auto simp: ht_rel_def ht_inv_def)

lemma ht_rel_new:
  fixes h :: "'a heap"
  assumes "1 \<le> M" "M < 64" "2 * Suc c \<le> Quota h" "c \<le> 2 ^ 60"
  shows "\<exists>T h'. HashTable_new (2 ^ M) invalid h = (Ret T, h') \<and> ht_rel hash invalid c (T, h') Map.empty"
proof -
  have u: "unat (2 ^ M :: size_t) = 2 ^ M" using assms(2) by (intro unat_pow2) simp
  have alloc: "\<exists>a h1. Allocate n h = (Ret a, h1) \<and> Quota h = Quota h1 + 1" if "0 < Quota h" for n and h :: "'a heap"
    using that by (simp add: Allocate_def)
  obtain a h1 where a: "Allocate 1 h = (Ret a, h1)" "Quota h = Quota h1 + 1" using assms(3) alloc [of h 1] by auto
  obtain b h2 where b: "Allocate (2 ^ M) h1 = (Ret b, h2)" "Quota h1 = Quota h2 + 1"
    using assms(3) a(2) alloc [of h1 "2 ^ M"] by auto
  let ?N = "\<lparr>HN_Self = a, HN_At = b, Capacity = 2 ^ M, Entries = replicate (2 ^ M) (invalid, None)\<rparr>"
  let ?T = "\<lparr>EntriesCount = 0, HashResizeInProgressFlag = False, MainHash = [?N], INVALID_KEY = invalid\<rparr>"
  have "HashTable_new (2 ^ M) invalid h = (Ret ?T, h2)"
    by (simp only: HashTable_new_def CreateNewHashNode_def a(1) b(1) u prod.case res.case)
  moreover have "node_ok hash invalid ?N M" using assms(2) by (subst empty_node)
  moreover have none: "k \<noteq> invalid \<Longrightarrow> map_of (replicate n (invalid, None)) k = None" for k n
    by (auto simp: map_of_eq_None_iff)
  ultimately have "ht_inv hash ?T Map.empty" using assms(1) by (auto simp: ht_inv_def none)
  then have "ht_rel hash invalid c (?T, h2) Map.empty" using assms(3,4) a(2) b(2) by (simp add: ht_rel_def)
  with \<open>HashTable_new (2 ^ M) invalid h = (Ret ?T, h2)\<close> show ?thesis by blast
qed

text \<open>A table of two entries in a memory with room.\<close>

lemma ht_example:
  "\<exists>(T :: (nat, nat) htable) (h :: unit heap). HashTable_new 2 0 (empty_heap 100) = (Ret T, h)
    \<and> ht_rel of_nat 0 40 (T, h) Map.empty"
  using ht_rel_new [where M = 1 and c = 40 and h = "empty_heap 100 :: unit heap" and hash = of_nat
      and invalid = "0 :: nat"] by (simp add: empty_heap_def)

lemma InnerGetEntry_rel:
  assumes "ht_rel hash invalid c (T, h) m" "k \<noteq> invalid"
  shows "(m k = None \<and> InnerGetEntry hash k T = Some (None, T))
    \<or> (\<exists>v i T'. m k = Some v \<and> InnerGetEntry hash k T = Some (Some i, T') \<and> main_value i T' = Some v
        \<and> ht_rel hash invalid c (T', h) m)"
proof (cases "m k")
  case None
  then show ?thesis using InnerGetEntry_spec [OF ht_relD(1) [OF assms(1)], of k] assms by (simp add: ht_relD(2))
next
  case (Some v)
  note d = ht_relD [OF assms(1)]
  obtain i N Ns M T' where g: "InnerGetEntry hash k T = Some (Some (of_nat i), T')" "ht_inv hash T' m"
    "MainHash T' = N # Ns" "node_ok hash (INVALID_KEY T) N M" "i < 2 ^ M" "Entries N ! i = (k, Some v)"
    "INVALID_KEY T' = INVALID_KEY T"
    using InnerGetEntry_spec [OF d(1), of k] assms(2) d(2) Some by auto
  have "main_value (of_nat i) T' = Some v" by (rule main_value_at [OF g(3-6)])
  moreover have "ht_rel hash invalid c (T', h) m" using g(2,7) d by (simp add: ht_rel_def)
  ultimately show ?thesis using Some g(1) by blast
qed

text \<open>C28. \<^verbatim>\<open>HashTable::Get\<close> finds exactly the keys of the map, with their values, in whichever array they
  are; and although it may copy an entry to the newest array, the table holds the same map after it.\<close>

theorem HashTable_Get_correct:
  assumes "ht_rel hash invalid c (T, h) m" "k \<noteq> invalid"
  shows "\<exists>T'. HashTable_Get hash k T = Some (m k, T') \<and> ht_rel hash invalid c (T', h) m"
  using InnerGetEntry_rel [OF assms] assms(1) by (auto simp: HashTable_Get_def)

theorem HashTable_Get_correct_witness:
  "\<exists>(T :: (nat, nat) htable) (h :: unit heap) T'. HashTable_new 2 0 (empty_heap 100) = (Ret T, h)
    \<and> HashTable_Get of_nat 7 T = Some (None, T')"
proof -
  obtain T :: "(nat, nat) htable" and h :: "unit heap" where T: "HashTable_new 2 0 (empty_heap 100) = (Ret T, h)"
    "ht_rel of_nat 0 40 (T, h) Map.empty" using ht_example by blast
  from HashTable_Get_correct [OF T(2), of 7] T(1) show ?thesis by auto
qed

lemma ht_card_insert: "finite (dom m) \<Longrightarrow> card (dom (m(k \<mapsto> v))) \<le> card (dom m) + 1"
  by (simp add: card_insert_if)

text \<open>Insertion only allocates.\<close>

lemma Allocate_Brk: "Allocate n h = (r, h') \<Longrightarrow> Brk h \<le> Brk h'"
  by (auto simp: Allocate_def split: if_splits)

lemma Resize_Brk: "Resize NewCount T h = Some (r, T', h') \<Longrightarrow> Brk h \<le> Brk h'"
  unfolding Resize_def CreateNewHashNode_def
  by (auto simp: Let_def bind_eq_Some_conv split: list.splits if_splits prod.splits res.splits dest!: Allocate_Brk)

lemma InnerAdd_body_Brk:
  assumes "HT_InnerAdd_body hash k v (n, T, h) = Some x"
  shows "Brk h \<le> Brk (case x of Inl (_, _, h') \<Rightarrow> h' | Inr (_, _, h') \<Rightarrow> h')"
proof -
  obtain r T1 h1 where r: "(if n \<ge> drop_bit 1 (Capacity (hd (MainHash T))) \<and> \<not> HashResizeInProgressFlag T
            then Resize n T h else Some (Ret n, T, h)) = Some (r, T1, h1)"
    and x: "(case r of Exn \<Rightarrow> Some (Inr (Exn, T1, h1))
         | Ret NewCount \<Rightarrow>
            (case MainHash T1 of [] \<Rightarrow> None
             | N # _ \<Rightarrow>
                if NewCount < drop_bit 1 (Capacity N) + drop_bit 2 (Capacity N) then do {
                  Index \<leftarrow> loop (probe_body (Entries N) (Capacity N) (\<lambda>k. k = INVALID_KEY T1)) (hash k);
                  Some (Inr (Ret True, set_main (store_entry Index k (Some v) N) T1, h1)) }
                else Some (Inl (NewCount, T1, h1)))) = Some x"
    using assms by (auto simp: HT_InnerAdd_body_def bind_eq_Some_conv split: list.splits)
  have "Brk h \<le> Brk h1" using r Resize_Brk by (auto split: if_splits)
  moreover have "(case x of Inl (_, _, h') \<Rightarrow> h' | Inr (_, _, h') \<Rightarrow> h') = h1"
    using x by (auto simp: bind_eq_Some_conv split: res.splits list.splits if_splits)
  ultimately show ?thesis by simp
qed

lemma InnerAdd_Brk: "HT_InnerAdd hash k v T h = Some (r, T', h') \<Longrightarrow> Brk h \<le> Brk h'"
proof -
  assume "HT_InnerAdd hash k v T h = Some (r, T', h')"
  then have "loop (HT_InnerAdd_body hash k v) (EntriesCount T, T\<lparr>EntriesCount := EntriesCount T + 1\<rparr>, h) = Some (r, T', h')"
    by (simp add: HT_InnerAdd_def Let_def)
  then have "Brk h \<le> Brk (snd (snd (r, T', h')))"
    by (rule loop_result [where P = "\<lambda>(NewCount, T, h'). Brk h \<le> Brk h'"])
      (auto dest: InnerAdd_body_Brk intro: order_trans)
  then show ?thesis by simp
qed
lemma InnerAdd_rel:
  assumes rel: "ht_rel hash invalid (Suc c) (T, h) m" and k: "k \<noteq> invalid" "m k = None"
  shows "\<exists>T' h'. HT_InnerAdd hash k v T h = Some (Ret True, T', h') \<and> ht_rel hash invalid c (T', h') (m(k \<mapsto> v))"
proof -
  note d = ht_relD [OF rel]
  have "card (dom m) < 2 ^ 60" using d(3) by simp
  then obtain r T' h' where a: "HT_InnerAdd hash k v T h = Some (r, T', h')" "INVALID_KEY T' = INVALID_KEY T"
    "Quota h \<le> Quota h' + 2"
    "case r of Ret ok \<Rightarrow> ok \<and> ht_inv hash T' (m(k \<mapsto> v))
       | Exn \<Rightarrow> Quota h < 2 \<and> HashResizeInProgressFlag T' \<and> EntriesCount T' = EntriesCount T + 1"
    using InnerAdd_spec [OF d(1), where k = k and h = h and v = v] k d(2) by auto
  have "r = Ret True" "ht_inv hash T' (m(k \<mapsto> v))" using a(4) d(4) by (auto split: res.splits)
  moreover have "card (dom (m(k \<mapsto> v))) + c \<le> 2 ^ 60" using d(3) ht_card_insert [OF d(5), of k v] by linarith
  moreover have "2 * c \<le> Quota h'" using a(3) d(4) by simp
  ultimately show ?thesis using a(1,2) d(2) by (auto simp: ht_rel_def)
qed

lemma ht_rel_mono: "ht_rel hash invalid (Suc c) st m \<Longrightarrow> ht_rel hash invalid c st m"
  by (auto simp: ht_rel_def)

lemma Set_old:
  assumes rel: "ht_rel hash invalid c (T, h) m" and k: "k \<noteq> invalid" "m k = Some w"
  shows "\<exists>T'. HashTable_Set hash k v T h = Some (Ret True, T', h) \<and> ht_rel hash invalid c (T', h) (m(k \<mapsto> v))"
proof -
  note d = ht_relD [OF rel]
  obtain i N Ns M T' where g: "InnerGetEntry hash k T = Some (Some (of_nat i), T')" "ht_inv hash T' m"
    "MainHash T' = N # Ns" "1 \<le> M" "node_ok hash (INVALID_KEY T) N M" "card (dom m) \<le> 2 ^ (M - 1)"
    "i < 2 ^ M" "Entries N ! i = (k, Some w)" "INVALID_KEY T' = INVALID_KEY T" "EntriesCount T' = EntriesCount T"
    using InnerGetEntry_spec [OF d(1), of k] k d(2) by auto
  have node: "node_ok hash (INVALID_KEY T') N M" using g(5,9) by simp
  note n = node_okD [OF node]
  have dom: "dom (m(k \<mapsto> v)) = dom m" using k(2) by auto
  have key: "fst (Entries N ! i) = k" using g(8) by simp
  have p: "probing (2 ^ M) (\<lambda>k. unat (hash k)) (INVALID_KEY T') ((Entries N)[i := (k, Some v)])"
    by (rule probing_update [OF n(3) g(7) key])
  have "ht_inv hash (set_main (store_entry (of_nat i) k (Some v) N) (T'\<lparr>EntriesCount := EntriesCount T'\<rparr>)) (m(k \<mapsto> v))"
  proof (rule ht_store [OF g(2,3) node g(4) _ g(7) _ p])
    show "EntriesCount T' = of_nat (card (dom (m(k \<mapsto> v))))" using g(2) by (simp only: dom ht_inv_def)
  qed (use k(1) d(2) g(6,9) key in \<open>simp_all only: dom simp_thms\<close>)
  then have "ht_inv hash (set_main (store_entry (of_nat i) k (Some v) N) T') (m(k \<mapsto> v))" by simp
  moreover have "HashTable_Set hash k v T h = Some (Ret True, set_main (store_entry (of_nat i) k (Some v) N) T', h)"
    using g(1,3) node_index [OF node g(7)] key by (simp add: HashTable_Set_def)
  moreover have "INVALID_KEY (set_main (store_entry (of_nat i) k (Some v) N) T') = invalid"
    using g(9) d(2) by (simp add: set_main_def)
  ultimately show ?thesis using d(3,4) dom by (auto simp: ht_rel_def)
qed

text \<open>C29. \<^verbatim>\<open>HashTable::Set\<close>, with memory for a new array, stores the value under the key, new or not, growing the chain when the newest
  array is half full; all other keys keep their values.  (What happens without that memory is said by the theorem on a table that is stuck.)\<close>

theorem HashTable_Set_correct:
  assumes "ht_rel hash invalid (Suc c) (T, h) m" "k \<noteq> invalid"
  shows "\<exists>T' h'. HashTable_Set hash k v T h = Some (Ret True, T', h') \<and> ht_rel hash invalid c (T', h') (m(k \<mapsto> v))"
proof (cases "m k")
  case (Some w)
  from Set_old [OF assms Some, of v] show ?thesis using ht_rel_mono by fast
next
  case None
  then have "InnerGetEntry hash k T = Some (None, T)" using InnerGetEntry_rel [OF assms] by auto
  with InnerAdd_rel [OF assms None] show ?thesis by (auto simp: HashTable_Set_def)
qed

theorem HashTable_Set_correct_witness:
  "\<exists>(T :: (nat, nat) htable) (h :: unit heap) T' h'. HashTable_new 2 0 (empty_heap 100) = (Ret T, h)
    \<and> HashTable_Set of_nat 7 5 T h = Some (Ret True, T', h') \<and> ht_rel of_nat 0 39 (T', h') [7 \<mapsto> 5]"
proof -
  obtain T :: "(nat, nat) htable" and h :: "unit heap" where T: "HashTable_new 2 0 (empty_heap 100) = (Ret T, h)"
    "ht_rel of_nat 0 40 (T, h) Map.empty" using ht_example by blast
  then have "ht_rel of_nat 0 (Suc 39) (T, h) Map.empty" by simp
  from HashTable_Set_correct [OF this, of 7 5] T(1) show ?thesis by auto
qed

lemma GetOrAddByFunc_rel:
  assumes rel: "ht_rel hash invalid (Suc c) (T, h) m" and k: "k \<noteq> invalid"
    and F: "F x h = Some (r, x', h')" "2 * Suc c \<le> Quota h'"
  shows "\<exists>T' h''. HashTable_GetOrAddByFunc hash k F T x h
      = Some (case m k of Some v \<Rightarrow> Ret (GET_SUCCESS, Some v)
          | None \<Rightarrow> (case r of Exn \<Rightarrow> Exn | Ret None \<Rightarrow> Ret (FAILED, None) | Ret (Some v) \<Rightarrow> Ret (ADD_SUCCESS, Some v)),
        T', if m k = None then x' else x, h'')
    \<and> ht_rel hash invalid c (T', h'') (case (m k, r) of (None, Ret (Some v)) \<Rightarrow> m(k \<mapsto> v) | _ \<Rightarrow> m)
    \<and> Brk (if m k = None then h' else h) \<le> Brk h''"
proof (cases "m k")
  case (Some v)
  then obtain i T' where "InnerGetEntry hash k T = Some (Some i, T')" "main_value i T' = Some v"
    "ht_rel hash invalid (Suc c) (T', h) m" using InnerGetEntry_rel [OF rel k] by auto
  then show ?thesis using Some ht_rel_mono by (auto simp: HashTable_GetOrAddByFunc_def)
next
  case None
  then have g: "InnerGetEntry hash k T = Some (None, T)" using InnerGetEntry_rel [OF rel k] by auto
  have rel': "ht_rel hash invalid (Suc c) (T, h') m" using rel F(2) by (simp add: ht_rel_def)
  show ?thesis
  proof (cases "\<exists>v. r = Ret (Some v)")
    case True
    then obtain v where v: "r = Ret (Some v)" by blast
    from InnerAdd_rel [OF rel' k None, of v] InnerAdd_Brk show ?thesis
      using g F(1) None v by (fastforce simp: HashTable_GetOrAddByFunc_def)
  next
    case False
    then show ?thesis using g F(1) None ht_rel_mono [OF rel']
      by (cases r) (auto simp: HashTable_GetOrAddByFunc_def split: option.splits)
  qed
qed

text \<open>C30. \<^verbatim>\<open>HashTable::GetOrAddByFunc\<close>, by which a thread finds or makes its producer.  The function is
  called exactly when the key is new; its value is then stored and returned, unless it is a null
  pointer, when nothing is stored; if it throws, so does the operation, and the table is unchanged.\<close>

theorem HashTable_GetOrAddByFunc_correct:
  assumes rel: "ht_rel hash invalid (Suc c) (T, h) m" and k: "k \<noteq> invalid"
    and F: "F x h = Some (r, x', h')" "2 * Suc c \<le> Quota h'"
  shows "\<exists>T' h''. HashTable_GetOrAddByFunc hash k F T x h
      = Some (case m k of Some v \<Rightarrow> Ret (GET_SUCCESS, Some v)
          | None \<Rightarrow> (case r of Exn \<Rightarrow> Exn | Ret None \<Rightarrow> Ret (FAILED, None) | Ret (Some v) \<Rightarrow> Ret (ADD_SUCCESS, Some v)),
        T', if m k = None then x' else x, h'')
    \<and> ht_rel hash invalid c (T', h'') (case (m k, r) of (None, Ret (Some v)) \<Rightarrow> m(k \<mapsto> v) | _ \<Rightarrow> m)"
  using GetOrAddByFunc_rel [where F = F and x = x and h = h, OF assms] by blast

theorem HashTable_GetOrAddByFunc_correct_witness:
  "\<exists>(T :: (nat, nat) htable) (h :: unit heap) T' h'. HashTable_new 2 0 (empty_heap 100) = (Ret T, h)
    \<and> HashTable_GetOrAddByFunc of_nat 7 (\<lambda>x h. Some (Ret (Some x), x + 1, h)) T 5 h
      = Some (Ret (ADD_SUCCESS, Some 5), T', 6, h')"
proof -
  obtain T :: "(nat, nat) htable" and h :: "unit heap" where T: "HashTable_new 2 0 (empty_heap 100) = (Ret T, h)"
    "ht_rel of_nat 0 40 (T, h) Map.empty" using ht_example by blast
  then have rel: "ht_rel of_nat 0 (Suc 39) (T, h) Map.empty" by simp
  have "2 * Suc 39 \<le> Quota h" using ht_relD(4) [OF T(2)] by simp
  from HashTable_GetOrAddByFunc_correct [OF rel, of 7 "\<lambda>x h. Some (Ret (Some x), x + 1, h)" 5, OF _ refl this] T(1)
  show ?thesis by auto
qed

text \<open>\<^verbatim>\<open>HashTable::GetOrAdd\<close> with enough memory: a key of the map gives its value and leaves the map
  as it is; a new one is added with the value offered.\<close>

theorem HashTable_GetOrAdd_correct:
  assumes rel: "ht_rel hash invalid (Suc c) (T, h) m" and k: "k \<noteq> invalid"
  shows "\<exists>T' h'. HashTable_GetOrAdd hash k v T h
      = Some (Ret (case m k of Some w \<Rightarrow> (GET_SUCCESS, Some w) | None \<Rightarrow> (ADD_SUCCESS, Some v)), T', h')
    \<and> ht_rel hash invalid c (T', h') (if m k = None then m(k \<mapsto> v) else m)"
proof (cases "m k")
  case (Some w)
  then obtain i T' where "InnerGetEntry hash k T = Some (Some i, T')" "main_value i T' = Some w"
    "ht_rel hash invalid (Suc c) (T', h) m" using InnerGetEntry_rel [OF rel k] by auto
  then show ?thesis using Some ht_rel_mono by (auto simp: HashTable_GetOrAdd_def)
next
  case None
  then have "InnerGetEntry hash k T = Some (None, T)" using InnerGetEntry_rel [OF rel k] by auto
  with InnerAdd_rel [OF rel k None, of v] show ?thesis using None by (auto simp: HashTable_GetOrAdd_def)
qed


theorem HashTable_GetOrAdd_correct_witness:
  "\<exists>(T :: (nat, nat) htable) (h :: unit heap) T' h'. HashTable_new 2 0 (empty_heap 100) = (Ret T, h)
    \<and> HashTable_GetOrAdd of_nat 7 5 T h = Some (Ret (ADD_SUCCESS, Some 5), T', h')"
proof -
  obtain T :: "(nat, nat) htable" and h :: "unit heap" where T: "HashTable_new 2 0 (empty_heap 100) = (Ret T, h)"
    "ht_rel of_nat 0 40 (T, h) Map.empty" using ht_example by blast
  then have "ht_rel of_nat 0 (Suc 39) (T, h) Map.empty" by simp
  from HashTable_GetOrAdd_correct [OF this, of 7 5] T(1) show ?thesis by auto
qed

section \<open>Whole runs\<close>

definition ht_set :: "('k \<Rightarrow> size_t) \<Rightarrow> 'k \<Rightarrow> 'v \<Rightarrow> ('k, 'v) htable \<times> 'a heap \<Rightarrow> (('k, 'v) htable \<times> 'a heap) option" where
  "ht_set hash k v st = do {
     (r, st') \<leftarrow> HashTable_Set hash k v (fst st) (snd st);
     if r = Ret True then Some st' else None }"

definition ht_get :: "('k \<Rightarrow> size_t) \<Rightarrow> 'k \<Rightarrow> ('k, 'v) htable \<times> 'a heap
    \<Rightarrow> ('v option \<times> ('k, 'v) htable \<times> 'a heap) option" where
  "ht_get hash k st = do { (r, T) \<leftarrow> HashTable_Get hash k (fst st); Some (r, T, snd st) }"

interpretation ht: keyed_store "ht_rel hash invalid" "\<lambda>k. k \<noteq> invalid" "\<lambda>_. True" "ht_set hash"
    "ht_get hash :: 'k \<Rightarrow> ('k, 'v) htable \<times> 'a heap \<Rightarrow> _"
  for hash :: "'k \<Rightarrow> size_t" and invalid
proof
  fix c and st :: "('k, 'v) htable \<times> 'a heap" and m k v
  assume "ht_rel hash invalid (Suc c) st m" and k: "k \<noteq> invalid"
  then have rel: "ht_rel hash invalid (Suc c) (fst st, snd st) m" by simp
  have "\<exists>T' h'. HashTable_Set hash k v (fst st) (snd st) = Some (Ret True, T', h') \<and> ht_rel hash invalid c (T', h') (m(k \<mapsto> v))"
  proof (cases "m k")
    case (Some w)
    from Set_old [OF rel k Some, of v] show ?thesis using ht_rel_mono by fast
  next
    case None
    then have "InnerGetEntry hash k (fst st) = Some (None, fst st)" using InnerGetEntry_rel [OF rel k] by auto
    with InnerAdd_rel [OF rel k None] show ?thesis by (auto simp: HashTable_Set_def)
  qed
  then show "\<exists>s'. ht_set hash k v st = Some s' \<and> ht_rel hash invalid c s' (m(k \<mapsto> v))"
    by (auto simp: ht_set_def)
next
  fix c and st :: "('k, 'v) htable \<times> 'a heap" and m k
  assume "ht_rel hash invalid (Suc c) st m" and k: "k \<noteq> invalid"
  then have rel: "ht_rel hash invalid c (fst st, snd st) m" using ht_rel_mono by simp
  from InnerGetEntry_rel [OF rel k] rel
  show "\<exists>s'. ht_get hash k st = Some (m k, s') \<and> ht_rel hash invalid c s' m"
    by (cases st) (auto simp: ht_get_def HashTable_Get_def)
qed

text \<open>C5. Refinement: whatever a thread stores and looks up under keys other than the reserved one, with memory for a new
  array (two allocations) per operation and at most 2^60 keys, the table answers as a map, through every growth of the chain.\<close>

theorem HashTable_refines_map:
  assumes "ht_rel hash invalid (length ops) st m" "invalid \<notin> op_key ` set ops"
  shows "\<exists>st'. store_run (ht_set hash) (ht_get hash) ops st = Some (fst (map_run ops m), st')
    \<and> ht_rel hash invalid 0 st' (snd (map_run ops m))"
  using ht.refines [of hash invalid ops 0 st m] assms by auto

theorem HashTable_refines_map_witness:
  "\<exists>(T :: (nat, nat) htable) (h :: unit heap) st'. HashTable_new 2 0 (empty_heap 100) = (Ret T, h)
    \<and> store_run (ht_set of_nat) (ht_get of_nat)
        [SetOp 1 10, SetOp 2 20, SetOp 3 30, SetOp 1 11, GetOp 1, GetOp 4, SetOp 5 50, GetOp 2] (T, h)
      = Some ([Some 11, None, Some 20], st')"
proof -
  let ?ops = "[SetOp 1 10, SetOp 2 20, SetOp 3 30, SetOp 1 11, GetOp 1, GetOp 4, SetOp 5 50, GetOp 2 :: (nat, nat) mop]"
  obtain T :: "(nat, nat) htable" and h :: "unit heap" where T: "HashTable_new 2 0 (empty_heap 100) = (Ret T, h)"
    "ht_rel of_nat 0 40 (T, h) Map.empty" using ht_example by blast
  have "ht_rel of_nat 0 (length ?ops) (T, h) Map.empty" using T(2) by (simp add: ht_rel_def)
  from HashTable_refines_map [OF this] T(1) show ?thesis by auto
qed

section \<open>A failure it does not recover from\<close>

text \<open>Adding several keys, one call of \<^verbatim>\<open>GetOrAdd\<close> after the other, whatever they answer.\<close>

fun ht_adds :: "('k \<Rightarrow> size_t) \<Rightarrow> ('k \<times> 'v) list \<Rightarrow> ('k, 'v) htable \<Rightarrow> 'a heap \<Rightarrow> (('k, 'v) htable \<times> 'a heap) option" where
  "ht_adds hash [] T h = Some (T, h)"
| "ht_adds hash ((k, v) # kvs) T h = do {
     (r, T1, h1) \<leftarrow> HashTable_GetOrAdd hash k v T h;
     ht_adds hash kvs T1 h1 }"

text \<open>While the flag is set no operation touches the arrays of the chain but for their entries.\<close>

definition same_arrays :: "('k, 'v) htable \<Rightarrow> ('k, 'v) htable \<Rightarrow> bool" where
  "same_arrays T T' \<longleftrightarrow> HashResizeInProgressFlag T' = HashResizeInProgressFlag T \<and> List.map Capacity (MainHash T') = List.map Capacity (MainHash T)"

lemma same_arrays_store: "MainHash T = N # Ns \<Longrightarrow> same_arrays T (set_main (store_entry i k v N) T)"
  by (simp add: same_arrays_def set_main_def store_entry_def)

lemma same_arrays_refl: "same_arrays T T"
  by (simp add: same_arrays_def)

lemma InnerGetEntry_shape: "InnerGetEntry hash k T = Some (e, T') \<Longrightarrow> same_arrays T T'"
  unfolding InnerGetEntry_def
  by (auto simp: same_arrays_store same_arrays_refl split: bind_splits option.splits if_splits prod.splits list.splits)

lemma InnerAdd_stuck_shape:
  assumes "HT_InnerAdd hash k v T h = Some (r, T', h')" "HashResizeInProgressFlag T"
  shows "same_arrays T T'"
proof -
  let ?s = "(EntriesCount T, T\<lparr>EntriesCount := EntriesCount T + 1\<rparr>, h)"
  have body: "HT_InnerAdd_body hash k v ?s = Some x \<Longrightarrow> (case x of Inl s \<Rightarrow> s = ?s | Inr (_, T', _) \<Rightarrow> same_arrays T T')" for x
    using assms(2) by (auto simp: HT_InnerAdd_body_def bind_eq_Some_conv same_arrays_def set_main_def store_entry_def
      split: list.splits if_splits)
  have "loop (HT_InnerAdd_body hash k v) ?s = Some (r, T', h')" using assms(1) by (simp add: HT_InnerAdd_def)
  then have "case (r, T', h') of (_, T', _) \<Rightarrow> same_arrays T T'"
    by (rule loop_result [where P = "\<lambda>s. s = ?s"]) (use body in fastforce)+
  then show ?thesis by simp
qed

lemma GetOrAdd_stuck_shape:
  assumes "HashTable_GetOrAdd hash k v T h = Some (r, T', h')" "HashResizeInProgressFlag T"
  shows "same_arrays T T'"
proof -
  obtain e T1 where e: "InnerGetEntry hash k T = Some (e, T1)" using assms(1) by (auto simp: HashTable_GetOrAdd_def bind_eq_Some_conv)
  have s: "same_arrays T T1" by (rule InnerGetEntry_shape [OF e])
  show ?thesis
  proof (cases e)
    case None
    then obtain r2 h2 where "HT_InnerAdd hash k v T1 h = Some (r2, T', h2)"
      using assms(1) e by (auto simp: HashTable_GetOrAdd_def bind_eq_Some_conv)
    from InnerAdd_stuck_shape [OF this] s assms(2) show ?thesis by (simp add: same_arrays_def)
  qed (use assms(1) e s in \<open>auto simp: HashTable_GetOrAdd_def bind_eq_Some_conv\<close>)
qed

lemma ht_adds_stuck: "ht_adds hash kvs T h = Some (T', h') \<Longrightarrow> HashResizeInProgressFlag T \<Longrightarrow> same_arrays T T'"
proof (induction kvs arbitrary: T h)
  case (Cons kv kvs)
  obtain k v where kv: "kv = (k, v)" by fastforce
  obtain r T1 h1 where 1: "HashTable_GetOrAdd hash k v T h = Some (r, T1, h1)" "ht_adds hash kvs T1 h1 = Some (T', h')"
    using Cons.prems(1) kv by (auto simp: bind_eq_Some_conv)
  have s: "same_arrays T T1" by (rule GetOrAdd_stuck_shape [OF 1(1) Cons.prems(2)])
  have "same_arrays T1 T'" using Cons.IH [OF 1(2)] s Cons.prems(2) by (simp add: same_arrays_def)
  with s show ?case by (simp add: same_arrays_def)
qed (simp add: same_arrays_def)

lemma InnerAdd_full_spins:
  assumes main: "MainHash T = N # Ns" and flag: "HashResizeInProgressFlag T"
    and full: "drop_bit 1 (Capacity N) + drop_bit 2 (Capacity N) \<le> n"
  shows "HT_InnerAdd_body hash k v (n, T, h) = Some (Inl (n, T, h))" "loop (HT_InnerAdd_body hash k v) (n, T, h) = None"
proof -
  have "\<not> n < drop_bit 1 (Capacity N) + drop_bit 2 (Capacity N)" using full by (simp only: linorder_not_less)
  then show b: "HT_InnerAdd_body hash k v (n, T, h) = Some (Inl (n, T, h))" using main flag by (simp add: HT_InnerAdd_body_def)
  show "loop (HT_InnerAdd_body hash k v) (n, T, h) = None"
    by (rule loop_forever [where P = "\<lambda>x. x = (n, T, h)"]) (simp_all add: b)
qed

lemma GetOrAdd_bad_alloc:
  assumes main: "MainHash T = N # Ns" "Capacity N = 2 ^ m" "m < 63" and flag: "\<not> HashResizeInProgressFlag T"
    and new: "InnerGetEntry hash k T = Some (None, T)"
    and grow: "drop_bit 1 (Capacity N) \<le> EntriesCount T" "EntriesCount T < Capacity N"
    and exn: "CreateNewHashNode (INVALID_KEY T) (push_bit 1 (Capacity N)) h = (Exn :: ('k, 'v) hash_node res, h1)"
  shows "HashTable_GetOrAdd hash k (v :: 'v) T h
    = Some (Exn, T\<lparr>EntriesCount := EntriesCount T + 1, HashResizeInProgressFlag := True\<rparr>, h1)"
proof -
  let ?T = "T\<lparr>EntriesCount := EntriesCount T + 1\<rparr>"
  have halve: "drop_bit 1 (push_bit 1 (2 ^ m)) = (2 ^ m :: size_t)"
  proof -
    have "unat (drop_bit 1 (2 ^ Suc m :: size_t)) = 2 ^ m" using half_capacity [of "Suc m"] main(3) by simp
    then show ?thesis using main(3) by (simp add: push_bit_eq_mult word_unat_eq_iff unat_pow2 mult.commute)
  qed
  have cap: "drop_bit 1 (push_bit 1 (Capacity N)) = Capacity N"
    unfolding main(2) by (rule halve)
  have "loop (GrowCount_body (push_bit 1 (Capacity N))) (EntriesCount T) = Some (EntriesCount T)"
    using grow(2) by (intro loop_exit) (simp only: GrowCount_body_def cap linorder_not_less [symmetric] not_not not_True_eq_False if_False)
  moreover have "\<not> EntriesCount T < drop_bit 1 (Capacity N)" using grow(1) by (simp only: linorder_not_less)
  ultimately have "Resize (EntriesCount T) ?T h = Some (Exn, ?T\<lparr>HashResizeInProgressFlag := True\<rparr>, h1)"
    using main(1) exn by (simp add: Resize_def)
  then have "HT_InnerAdd_body hash k v (EntriesCount T, ?T, h) = Some (Inr (Exn, ?T\<lparr>HashResizeInProgressFlag := True\<rparr>, h1))"
    using main(1) flag grow(1) by (simp add: HT_InnerAdd_body_def)
  then have "loop (HT_InnerAdd_body hash k v) (EntriesCount T, ?T, h) = Some (Exn, ?T\<lparr>HashResizeInProgressFlag := True\<rparr>, h1)" by (rule loop_exit)
  then show ?thesis using new by (simp add: HashTable_GetOrAdd_def HT_InnerAdd_def)
qed

text \<open>C36. When \<^verbatim>\<open>CreateNewHashNode\<close> throws, \<^verbatim>\<open>InnerAdd\<close> leaves the resize flag set and the entry counted, and the table never
  recovers.  Let the flag be clear and the newest array, of 2^m entries, be counted half full and not yet full, so that adding a new
  key has to grow the chain, and let the allocation fail.  Then \<^verbatim>\<open>GetOrAdd\<close> throws, with the flag set, one entry more counted than there is
  and the chain as before; and whatever is added later by \<^verbatim>\<open>GetOrAdd\<close>, with memory or without, the flag stays set and no array is added.  Once three
  quarters of the newest array are counted, adding any new key is an endless loop: the body of the loop of \<^verbatim>\<open>InnerAdd\<close> runs without a
  fault and comes back to the state in which it began.\<close>

theorem HashTable_stuck_after_bad_alloc:
  fixes h :: "'a heap"
  assumes "MainHash T = N # Ns" "Capacity N = 2 ^ m" "m < 63" "\<not> HashResizeInProgressFlag T"
    "InnerGetEntry hash k T = Some (None, T)"
    "drop_bit 1 (Capacity N) \<le> EntriesCount T" "EntriesCount T < Capacity N"
    "CreateNewHashNode (INVALID_KEY T) (push_bit 1 (Capacity N)) h = (Exn :: ('k, 'v) hash_node res, h1)"
  shows "\<exists>T1. HashTable_GetOrAdd hash k (v :: 'v) T h = Some (Exn, T1, h1)
    \<and> HashResizeInProgressFlag T1 \<and> EntriesCount T1 = EntriesCount T + 1 \<and> MainHash T1 = MainHash T
    \<and> (\<forall>kvs (h' :: 'a heap) T2 h2. ht_adds hash kvs T1 h' = Some (T2, h2) \<longrightarrow>
        HashResizeInProgressFlag T2 \<and> List.map Capacity (MainHash T2) = List.map Capacity (MainHash T)
        \<and> (\<forall>k' v'. drop_bit 1 (Capacity N) + drop_bit 2 (Capacity N) \<le> EntriesCount T2
            \<and> InnerGetEntry hash k' T2 = Some (None, T2) \<longrightarrow>
            HT_InnerAdd_body hash k' v' (EntriesCount T2, T2\<lparr>EntriesCount := EntriesCount T2 + 1\<rparr>, h2)
              = Some (Inl (EntriesCount T2, T2\<lparr>EntriesCount := EntriesCount T2 + 1\<rparr>, h2))
            \<and> HashTable_GetOrAdd hash k' v' T2 h2 = None))"
proof -
  let ?T1 = "T\<lparr>EntriesCount := EntriesCount T + 1, HashResizeInProgressFlag := True\<rparr>"
  have later: "HashResizeInProgressFlag T2 \<and> List.map Capacity (MainHash T2) = List.map Capacity (MainHash T)
        \<and> (\<forall>k' v'. drop_bit 1 (Capacity N) + drop_bit 2 (Capacity N) \<le> EntriesCount T2
            \<and> InnerGetEntry hash k' T2 = Some (None, T2) \<longrightarrow>
            HT_InnerAdd_body hash k' v' (EntriesCount T2, T2\<lparr>EntriesCount := EntriesCount T2 + 1\<rparr>, h2)
              = Some (Inl (EntriesCount T2, T2\<lparr>EntriesCount := EntriesCount T2 + 1\<rparr>, h2))
            \<and> HashTable_GetOrAdd hash k' v' T2 h2 = None)"
    if "ht_adds hash kvs ?T1 h' = Some (T2, h2)" for kvs and h' :: "'a heap" and T2 h2
  proof -
    have s: "HashResizeInProgressFlag T2" "List.map Capacity (MainHash T2) = List.map Capacity (MainHash T)"
      using ht_adds_stuck [OF that] by (simp_all add: same_arrays_def)
    obtain N2 Ns2 where N2: "MainHash T2 = N2 # Ns2" "Capacity N2 = Capacity N" using s(2) assms(1) by (cases "MainHash T2") auto
    have spins: "HT_InnerAdd_body hash k v (EntriesCount T2, T2\<lparr>EntriesCount := EntriesCount T2 + 1\<rparr>, h2)
        = Some (Inl (EntriesCount T2, T2\<lparr>EntriesCount := EntriesCount T2 + 1\<rparr>, h2))"
      "loop (HT_InnerAdd_body hash k v) (EntriesCount T2, T2\<lparr>EntriesCount := EntriesCount T2 + 1\<rparr>, h2) = None"
      if "drop_bit 1 (Capacity N) + drop_bit 2 (Capacity N) \<le> EntriesCount T2" for k v
      using that s(1) N2 by (intro InnerAdd_full_spins [where N = N2 and Ns = Ns2]; simp)+
    show ?thesis using s spins by (auto simp: HashTable_GetOrAdd_def HT_InnerAdd_def)
  qed
  show ?thesis using GetOrAdd_bad_alloc [OF assms, of v] later by (intro exI [of _ ?T1]) auto
qed

text \<open>A table of eight entries with memory for that only: the fifth key finds no memory, a sixth one still goes in.\<close>

definition ht_start :: "((size_t, nat) htable \<times> unit heap) option" where
  "ht_start = (case HashTable_new 8 0 (empty_heap 2) of (Exn, h) \<Rightarrow> None
     | (Ret T, h) \<Rightarrow> ht_adds (\<lambda>k. k) [(1, 9), (2, 9), (3, 9), (4, 9)] T h)"

theorem HashTable_stuck_after_bad_alloc_witness:
  "\<exists>T h T1 h1 T2 h2. ht_start = Some (T, h) \<and> HashTable_GetOrAdd (\<lambda>k. k) 5 9 T h = Some (Exn, T1, h1)
     \<and> ht_adds (\<lambda>k. k) [(6, 9)] T1 h1 = Some (T2, h2) \<and> HashTable_GetOrAdd (\<lambda>k. k) 7 9 T2 h2 = None"
proof -
  have run: "map_option (\<lambda>(T, h). (HashResizeInProgressFlag T, EntriesCount T, List.map Capacity (MainHash T), Quota h,
      map_option fst (InnerGetEntry (\<lambda>k. k) 5 T))) ht_start = Some (False, 4, [8], 0, Some None)"
    by code_simp
  then obtain T h where st: "ht_start = Some (T, h)" "\<not> HashResizeInProgressFlag T" "EntriesCount T = 4"
    "List.map Capacity (MainHash T) = [8]" "Quota h = 0" "map_option fst (InnerGetEntry (\<lambda>k. k) 5 T) = Some None" by auto
  obtain N where N: "MainHash T = [N]" "Capacity N = 8" using st(4) by auto
  have miss: "InnerGetEntry (\<lambda>k. k) k T' = Some (None, T')" if "map_option fst (InnerGetEntry (\<lambda>k. k) k T') = Some None"
    for k and T' :: "(size_t, nat) htable"
    using that by (auto simp: InnerGetEntry_def split: bind_splits option.splits if_splits prod.splits list.splits)
  have d: "drop_bit 1 (Capacity N) \<le> EntriesCount T" "EntriesCount T < Capacity N" unfolding N(2) st(3) by code_simp+
  have e: "CreateNewHashNode (INVALID_KEY T) (push_bit 1 (Capacity N)) h = (Exn :: (size_t, nat) hash_node res, h)"
    using st(5) by (simp add: CreateNewHashNode_def Allocate_def)
  have c: "Capacity N = 2 ^ 3" and m: "(3 :: nat) < 63" by (simp_all add: N(2))
  obtain T1 where T1: "HashTable_GetOrAdd (\<lambda>k. k) 5 9 T h = Some (Exn, T1, h)" and
    all: "\<forall>kvs (h' :: unit heap) T2 h2. ht_adds (\<lambda>k. k) kvs T1 h' = Some (T2, h2) \<longrightarrow>
       (\<forall>k' v'. drop_bit 1 (Capacity N) + drop_bit 2 (Capacity N) \<le> EntriesCount T2 \<and> InnerGetEntry (\<lambda>k. k) k' T2 = Some (None, T2) \<longrightarrow>
          HashTable_GetOrAdd (\<lambda>k. k) k' v' T2 h2 = None)"
    using HashTable_stuck_after_bad_alloc [OF N(1) c m st(2) miss [OF st(6)] d e, of 9] by (elim exE conjE) metis
  let ?later = "do { (T, h) \<leftarrow> ht_start; (r, T1, h1) \<leftarrow> HashTable_GetOrAdd (\<lambda>k. k) 5 9 T h; ht_adds (\<lambda>k. k) [(6, 9)] T1 h1 }"
  have "map_option (\<lambda>(T2, h2). (EntriesCount T2, map_option fst (InnerGetEntry (\<lambda>k. k) 7 T2))) ?later = Some (6, Some None)"
    by code_simp
  moreover have "?later = ht_adds (\<lambda>k. k) [(6, 9)] T1 h" unfolding st(1) Option.bind.simps prod.case T1 by (rule refl)
  ultimately obtain T2 h2 where T2: "ht_adds (\<lambda>k. k) [(6, 9)] T1 h = Some (T2, h2)" "EntriesCount T2 = 6"
    "map_option fst (InnerGetEntry (\<lambda>k. k) 7 T2) = Some None" by (auto simp del: ht_adds.simps)
  have "drop_bit 1 (Capacity N) + drop_bit 2 (Capacity N) \<le> EntriesCount T2" unfolding N(2) T2(2) by code_simp
  then show ?thesis using all miss [OF T2(3)] st(1) T1 T2(1) by blast
qed

text \<open>The loop of \<^verbatim>\<open>InnerAdd\<close> that is meant to double the new capacity until it suffices doubles the count
  instead, until its bits have left the word: of a count of 40 against a new capacity of 64 it makes 0, and
  the entry goes to an array taken for empty.\<close>

theorem GrowCount_loses_the_count:
  "loop (GrowCount_body 64) 40 = Some 0 \<and> loop (GrowCount_body 64) 31 = Some 31"
  by code_simp

end
