(* ===== verification/Sample_Maps.thy ===== *)
theory Sample_Maps
  imports Hash_Table_Properties "HOL-Library.AList"
begin

text \<open>
  The two sample maps of the reader-writer queue, \<^verbatim>\<open>Hash/HashTable.h\<close> and \<^verbatim>\<open>Hash/LinearSearchMap.h\<close>: a fixed
  array of \<open>N\<close> entries with non-zero keys and values, zero marking a free entry.  Under one thread the
  compare-exchange on a key read as zero succeeds.  A failed assertion is a fault.
\<close>

type_synonym sample_map = "(u32 \<times> u32) list"

section \<open>The hash map\<close>

definition IntegerHash :: "u32 \<Rightarrow> u32" where
  "IntegerHash h =
    (let h = h XOR drop_bit 16 h;
         h = h * 0x85ebca6b;
         h = h XOR drop_bit 13 h;
         h = h * 0xc2b2ae35;
         h = h XOR drop_bit 16 h
     in h)"

definition SampleHash_SetItem :: "u32 \<Rightarrow> u32 \<Rightarrow> u32 \<Rightarrow> sample_map \<Rightarrow> sample_map option" where
  "SampleHash_SetItem N InKey InValue Data =
    (if InKey = 0 \<or> InValue = 0 then None
     else do {
       idx \<leftarrow> loop (probe_body Data N (\<lambda>CurrentKey. CurrentKey = InKey \<or> CurrentKey = 0)) (IntegerHash InKey);
       Some (Data[unat idx := (InKey, InValue)]) })"

text \<open>The value is returned as an \<^verbatim>\<open>int\<close>.\<close>

definition SampleHash_GetItem :: "u32 \<Rightarrow> u32 \<Rightarrow> sample_map \<Rightarrow> int option" where
  "SampleHash_GetItem N InKey Data =
    (if InKey = 0 then None
     else do {
       idx \<leftarrow> loop (probe_body Data N (\<lambda>CurrentKey. CurrentKey = InKey \<or> CurrentKey = 0)) (IntegerHash InKey);
       Some (if fst (Data ! unat idx) = InKey then sint (snd (Data ! unat idx)) else 0) })"

section \<open>The linear search map\<close>

fun LSM_set :: "u32 \<Rightarrow> u32 \<Rightarrow> sample_map \<Rightarrow> sample_map" where
  "LSM_set InKey InValue [] = []"
| "LSM_set InKey InValue ((CurrentKey, v) # Data) =
     (if CurrentKey \<noteq> InKey \<and> CurrentKey \<noteq> 0 then (CurrentKey, v) # LSM_set InKey InValue Data
      else (InKey, InValue) # Data)"

definition LSM_SetItem :: "u32 \<Rightarrow> u32 \<Rightarrow> sample_map \<Rightarrow> sample_map option" where
  "LSM_SetItem InKey InValue Data = (if InKey = 0 \<or> InValue = 0 then None else Some (LSM_set InKey InValue Data))"

fun LSM_get :: "u32 \<Rightarrow> sample_map \<Rightarrow> u32" where
  "LSM_get InKey [] = 0"
| "LSM_get InKey ((CurrentKey, v) # Data) =
     (if CurrentKey = InKey then v else if CurrentKey = 0 then 0 else LSM_get InKey Data)"

definition LSM_GetItem :: "u32 \<Rightarrow> sample_map \<Rightarrow> u32 option" where
  "LSM_GetItem InKey Data = (if InKey = 0 then None else Some (LSM_get InKey Data))"

section \<open>The hash map as a map\<close>

text \<open>\<open>sh_rel m c es f\<close>: the array \<open>es\<close> of \<open>2 ^ m\<close> entries holds \<open>f\<close> and stays short of full for \<open>c\<close> more keys.\<close>

definition sh_rel :: "nat \<Rightarrow> nat \<Rightarrow> sample_map \<Rightarrow> (u32 \<rightharpoonup> u32) \<Rightarrow> bool" where
  "sh_rel m c es f \<longleftrightarrow> m < 32 \<and> probing (2 ^ m) (\<lambda>k. unat (IntegerHash k)) 0 es
     \<and> (\<forall>k. k \<noteq> 0 \<longrightarrow> f k = map_of es k) \<and> f 0 = None \<and> (\<forall>k. f k \<noteq> Some 0)
     \<and> card (dom f) + c < 2 ^ m"

lemma hash_start32: "(w :: u32) AND (2 ^ m - 1) = of_nat (unat w mod 2 ^ m)"
  using mask_of_nat [of "unat w" m, where 'w = 32] by (simp add: of_nat_unat ucast_id)

lemma sh_index: "m < 32 \<Longrightarrow> i < 2 ^ m \<Longrightarrow> unat (of_nat i :: u32) = i"
proof -
  assume "m < 32" and i: "i < 2 ^ m"
  then have "(2::nat) ^ m < 2 ^ 32" by (intro power_strict_increasing) auto
  then show ?thesis using i by (intro unat_of_nat_small) simp
qed

lemma sh_find:
  assumes rel: "sh_rel m c es f" and k: "k \<noteq> 0"
  obtains i where "i < 2 ^ m" "unat (of_nat i :: u32) = i"
    "loop (probe_body es (2 ^ m) (\<lambda>x. x = k \<or> x = 0)) (IntegerHash k) = Some (of_nat i)"
    "f k = None \<longrightarrow> fst (es ! i) = 0" "\<forall>v. f k = Some v \<longrightarrow> es ! i = (k, v)"
    "\<forall>v. probing (2 ^ m) (\<lambda>k. unat (IntegerHash k)) 0 (es[i := (k, v)])"
proof -
  from rel have m: "m < 32" and p: "probing (2 ^ m) (\<lambda>k. unat (IntegerHash k)) 0 es"
    and f: "\<And>k. k \<noteq> 0 \<Longrightarrow> f k = map_of es k" and card: "card (dom f) < 2 ^ m" by (auto simp: sh_rel_def)
  show thesis
  proof (cases "f k")
    case None
    have "finite (dom f)" by simp
    then have room: "\<exists>i < 2 ^ m. fst (es ! i) = 0"
      by (rule free_slot [OF p _ card]) (use f in auto)
    have none: "map_of es k = None" using f [OF k] None by simp
    obtain i where i: "i < 2 ^ m" "fst (es ! i) = 0"
      "loop (probe_body es (2 ^ m) (\<lambda>x. x = k \<or> x = 0)) (IntegerHash k) = Some (of_nat i)"
      "probing (2 ^ m) (\<lambda>k. unat (IntegerHash k)) 0 (es[i := (k, 0)])"
      by (rule probe_miss [OF p _ room k none hash_start32, of 0]) (use m in simp_all)
    have "probing (2 ^ m) (\<lambda>k. unat (IntegerHash k)) 0 (es[i := (k, v)])" for v
      using probing_update [OF i(4,1), of k v] i(1) probing_length [OF p] by simp
    then show thesis using that [of i] i sh_index [OF m i(1)] None by simp
  next
    case (Some v)
    then have v: "map_of es k = Some v" using f [OF k] by simp
    obtain i where i: "i < 2 ^ m" "es ! i = (k, v)"
      "loop (probe_body es (2 ^ m) (\<lambda>x. x = k \<or> x = 0)) (IntegerHash k) = Some (of_nat i)"
      by (rule probe_hit [OF p _ k v hash_start32]) (use m in simp)
    have "probing (2 ^ m) (\<lambda>k. unat (IntegerHash k)) 0 (es[i := (k, u)])" for u
      by (rule probing_update [OF p i(1)]) (simp add: i(2))
    then show thesis using that [of i] i sh_index [OF m i(1)] Some by simp
  qed
qed

definition sh_set :: "nat \<Rightarrow> u32 \<Rightarrow> u32 \<Rightarrow> sample_map \<Rightarrow> sample_map option" where
  "sh_set m k v es = SampleHash_SetItem (2 ^ m) k v es"

definition sh_get :: "nat \<Rightarrow> u32 \<Rightarrow> sample_map \<Rightarrow> (u32 option \<times> sample_map) option" where
  "sh_get m k es = do { r \<leftarrow> SampleHash_GetItem (2 ^ m) k es; Some (if r = 0 then None else Some (of_int r), es) }"

lemma sh_set_law:
  assumes rel: "sh_rel m (Suc c) es f" and k: "k \<noteq> 0" and v: "v \<noteq> 0"
  shows "\<exists>es'. sh_set m k v es = Some es' \<and> sh_rel m c es' (f(k \<mapsto> v))"
proof -
  obtain i where i: "i < 2 ^ m" "unat (of_nat i :: u32) = i"
    "loop (probe_body es (2 ^ m) (\<lambda>x. x = k \<or> x = 0)) (IntegerHash k) = Some (of_nat i)"
    "f k = None \<longrightarrow> fst (es ! i) = 0" "\<forall>v. f k = Some v \<longrightarrow> es ! i = (k, v)"
    "\<forall>v. probing (2 ^ m) (\<lambda>k. unat (IntegerHash k)) 0 (es[i := (k, v)])" by (rule sh_find [OF rel k])
  have p: "probing (2 ^ m) (\<lambda>k. unat (IntegerHash k)) 0 es" using rel by (simp add: sh_rel_def)
  have old: "fst (es ! i) = k \<or> fst (es ! i) = 0" using i(4,5) by (cases "f k") auto
  have "map_of (es[i := (k, v)]) x = (if x = k then Some v else map_of es x)" if "x \<noteq> 0" for x
    by (rule map_of_update [OF p i(6) [rule_format] i(1) old that k])
  moreover have "card (dom (f(k \<mapsto> v))) \<le> card (dom f) + 1" by (simp add: card_insert_if)
  ultimately have "sh_rel m c (es[i := (k, v)]) (f(k \<mapsto> v))"
    using rel i(6) k v by (auto simp: sh_rel_def)
  then show ?thesis using i(2,3) k v by (simp add: sh_set_def SampleHash_SetItem_def)
qed

lemma sh_get_law:
  assumes rel: "sh_rel m c es f" and k: "k \<noteq> 0"
  shows "sh_get m k es = Some (f k, es)"
proof -
  obtain i where i: "i < 2 ^ m" "unat (of_nat i :: u32) = i"
    "loop (probe_body es (2 ^ m) (\<lambda>x. x = k \<or> x = 0)) (IntegerHash k) = Some (of_nat i)"
    "f k = None \<longrightarrow> fst (es ! i) = 0" "\<forall>v. f k = Some v \<longrightarrow> es ! i = (k, v)"
    "\<forall>v. probing (2 ^ m) (\<lambda>k. unat (IntegerHash k)) 0 (es[i := (k, v)])" by (rule sh_find [OF rel k])
  have nz: "f k \<noteq> Some 0" using rel by (simp add: sh_rel_def)
  show ?thesis
  proof (cases "f k")
    case None
    then show ?thesis using i k by (auto simp: sh_get_def SampleHash_GetItem_def)
  next
    case (Some v)
    moreover have "sint v \<noteq> 0" using nz Some by (metis signed_0 signed_word_eqI)
    ultimately show ?thesis using i k by (auto simp: sh_get_def SampleHash_GetItem_def)
  qed
qed

interpretation sh: keyed_store "sh_rel m" "\<lambda>k. k \<noteq> 0" "\<lambda>v. v \<noteq> 0" "sh_set m" "sh_get m" for m
proof
  fix c es f k v
  show "sh_rel m (Suc c) es f \<Longrightarrow> k \<noteq> 0 \<Longrightarrow> v \<noteq> 0 \<Longrightarrow> \<exists>s'. sh_set m k v es = Some s' \<and> sh_rel m c s' (f(k \<mapsto> v))"
    by (rule sh_set_law)
  assume rel: "sh_rel m (Suc c) es f" and k: "k \<noteq> 0"
  then have "sh_rel m c es f" by (simp add: sh_rel_def)
  then show "\<exists>s'. sh_get m k es = Some (f k, s') \<and> sh_rel m c s' f" using sh_get_law k by blast
qed

section \<open>The linear search map as a map\<close>

text \<open>Used entries come first.\<close>

definition lsm_rel :: "nat \<Rightarrow> sample_map \<Rightarrow> (u32 \<rightharpoonup> u32) \<Rightarrow> bool" where
  "lsm_rel c es f \<longleftrightarrow> (\<exists>used n. es = used @ replicate n (0, 0) \<and> c \<le> n \<and> distinct (List.map fst used)
     \<and> 0 \<notin> fst ` set used \<and> 0 \<notin> snd ` set used \<and> f = map_of used)"

lemma LSM_get_used: "0 \<notin> fst ` set used \<Longrightarrow> k \<noteq> 0 \<Longrightarrow>
    LSM_get k (used @ replicate n (0, 0)) = (case map_of used k of Some v \<Rightarrow> v | None \<Rightarrow> 0)"
  by (induction used) (auto, cases n, auto)

lemma LSM_set_old: "0 \<notin> fst ` set used \<Longrightarrow> k \<in> fst ` set used \<Longrightarrow>
    LSM_set k v (used @ rest) = AList.update k v used @ rest"
proof (induction used)
  case (Cons e used)
  then show ?case by (cases e; cases "fst e = k") auto
qed simp


lemma LSM_set_new: "0 \<notin> fst ` set used \<Longrightarrow> k \<notin> fst ` set used \<Longrightarrow>
    LSM_set k v (used @ replicate (Suc n) (0, 0)) = (used @ [(k, v)]) @ replicate n (0, 0)"
  by (induction used) auto

definition lsm_get :: "u32 \<Rightarrow> sample_map \<Rightarrow> (u32 option \<times> sample_map) option" where
  "lsm_get k es = do { r \<leftarrow> LSM_GetItem k es; Some (if r = 0 then None else Some r, es) }"

lemma lsm_set_law:
  assumes rel: "lsm_rel (Suc c) es f" and k: "k \<noteq> 0" "v \<noteq> 0"
  shows "\<exists>es'. LSM_SetItem k v es = Some es' \<and> lsm_rel c es' (f(k \<mapsto> v))"
proof -
  obtain used n where u: "es = used @ replicate n (0, 0)" "Suc c \<le> n" "distinct (List.map fst used)"
    "0 \<notin> fst ` set used" "0 \<notin> snd ` set used" "f = map_of used" using rel by (auto simp: lsm_rel_def)
  have run: "LSM_SetItem k v es = Some (LSM_set k v es)" using k by (simp add: LSM_SetItem_def)
  have "lsm_rel c (LSM_set k v es) (f(k \<mapsto> v))"
  proof (cases "k \<in> fst ` set used")
    case True
    have "fst ` set (AList.update k v used) = fst ` set used"
      using True dom_update [of k v used] by (simp add: dom_map_of_conv_image_fst insert_absorb)
    moreover have "0 \<notin> snd ` set (AList.update k v used)"
      using u(5) k(2) by (induction used) (auto split: if_splits)
    ultimately show ?thesis
      unfolding lsm_rel_def u(1) LSM_set_old [OF u(4) True] using u(2-4,6)
      by (intro exI [of _ "AList.update k v used"] exI [of _ n]) (simp add: distinct_update update_conv')
  next
    case False
    obtain n' where n: "n = Suc n'" using u(2) by (cases n) auto
    have "map_of (used @ [(k, v)]) = f(k \<mapsto> v)"
      using False by (auto simp: u(6) map_add_def fun_eq_iff map_of_eq_None_iff [symmetric] split: option.splits)
    then show ?thesis
      unfolding lsm_rel_def u(1) n LSM_set_new [OF u(4) False] using u(2-5) n k False
      by (intro exI [of _ "used @ [(k, v)]"] exI [of _ n']) (auto simp: image_iff)
  qed
  with run show ?thesis by blast
qed

lemma lsm_get_law:
  assumes rel: "lsm_rel c es f" and k: "k \<noteq> 0"
  shows "lsm_get k es = Some (f k, es)"
proof -
  obtain used n where u: "es = used @ replicate n (0, 0)" "0 \<notin> fst ` set used" "0 \<notin> snd ` set used" "f = map_of used"
    using rel by (auto simp: lsm_rel_def)
  have "v \<noteq> 0" if "map_of used k = Some v" for v
    using map_of_SomeD [OF that] u(3) by force
  then show ?thesis
    using k by (auto simp: lsm_get_def LSM_GetItem_def u(1,4) LSM_get_used [OF u(2) k] split: option.splits)
qed

interpretation lsm: keyed_store lsm_rel "\<lambda>k. k \<noteq> 0" "\<lambda>v. v \<noteq> 0" LSM_SetItem lsm_get
proof
  fix c es f k v
  show "lsm_rel (Suc c) es f \<Longrightarrow> k \<noteq> 0 \<Longrightarrow> v \<noteq> 0 \<Longrightarrow> \<exists>s'. LSM_SetItem k v es = Some s' \<and> lsm_rel c s' (f(k \<mapsto> v))"
    by (rule lsm_set_law)
  assume rel: "lsm_rel (Suc c) es f" and k: "k \<noteq> 0"
  obtain used n where "es = used @ replicate n (0, 0) \<and> Suc c \<le> n \<and> distinct (List.map fst used)
     \<and> 0 \<notin> fst ` set used \<and> 0 \<notin> snd ` set used \<and> f = map_of used" using rel unfolding lsm_rel_def by blast
  then have "lsm_rel c es f" unfolding lsm_rel_def by (intro exI [of _ used] exI [of _ n]) simp
  then show "\<exists>s'. lsm_get k es = Some (f k, s') \<and> lsm_rel c s' f" using lsm_get_law k by blast
qed

section \<open>Properties\<close>

lemma lsm_rel_new: "lsm_rel n (replicate n (0, 0)) Map.empty"
  by (auto simp: lsm_rel_def intro!: exI [of _ "[]"])

lemma sh_rel_new: "m < 32 \<Longrightarrow> c < 2 ^ m \<Longrightarrow> sh_rel m c (replicate (2 ^ m) (0, 0)) Map.empty"
  by (auto simp: sh_rel_def probing_def map_of_eq_None_iff intro!: sym [where t = None])

text \<open>Both sample maps, empty at first, answer any sequence of \<^verbatim>\<open>SetItem\<close> and \<^verbatim>\<open>GetItem\<close> calls on non-zero
  keys and values as a map does, as long as there are entries for the calls (one fewer than the array has,
  for the hash map).\<close>

theorem sample_maps_refine_map:
  assumes "0 \<notin> op_key ` set ops" "\<forall>k. SetOp k 0 \<notin> set ops"
    and "m < 32" "length ops < 2 ^ m" "length ops \<le> n"
  shows "(\<exists>s. store_run (sh_set m) (sh_get m) ops (replicate (2 ^ m) (0, 0)) = Some (fst (map_run ops Map.empty), s))
    \<and> (\<exists>s. store_run LSM_SetItem lsm_get ops (replicate n (0, 0)) = Some (fst (map_run ops Map.empty), s))"
proof
  have keys: "\<forall>x \<in> set ops. op_key x \<noteq> 0" using assms(1) by (metis imageI)
  have vals: "\<forall>k v. SetOp k v \<in> set ops \<longrightarrow> v \<noteq> 0" using assms(2) by blast
  have "sh_rel m (length ops + 0) (replicate (2 ^ m) (0, 0)) Map.empty" using sh_rel_new assms(3,4) by simp
  from sh.refines [OF this keys vals]
  show "\<exists>s. store_run (sh_set m) (sh_get m) ops (replicate (2 ^ m) (0, 0)) = Some (fst (map_run ops Map.empty), s)"
    by blast
  have "lsm_rel (length ops + (n - length ops)) (replicate n (0, 0)) Map.empty" using lsm_rel_new [of n] assms(5) by simp
  from lsm.refines [OF this keys vals]
  show "\<exists>s. store_run LSM_SetItem lsm_get ops (replicate n (0, 0)) = Some (fst (map_run ops Map.empty), s)"
    by blast
qed

theorem sample_maps_refine_map_witness:
  "(\<exists>s. store_run (sh_set 2) (sh_get 2) [SetOp 1 5, GetOp 1, GetOp 2] (replicate (2 ^ 2) (0, 0)) = Some ([Some 5, None], s))
    \<and> (\<exists>s. store_run LSM_SetItem lsm_get [SetOp 1 5, GetOp 1, GetOp 2] (replicate 3 (0, 0)) = Some ([Some 5, None], s))"
  using sample_maps_refine_map [of "[SetOp 1 5, GetOp 1, GetOp 2]" 2 3] by simp

text \<open>A full array.  In the hash map, setting a new key and looking one up never return; in the linear
  search map, setting a new key is silently without effect.\<close>

theorem sample_maps_full:
  assumes "length es = 2 ^ m" "m < 32" "k \<notin> fst ` set es" "0 \<notin> fst ` set es" "k \<noteq> 0" "v \<noteq> 0"
  shows "SampleHash_SetItem (2 ^ m) k v es = None \<and> SampleHash_GetItem (2 ^ m) k es = None
    \<and> LSM_SetItem k v es = Some es \<and> LSM_GetItem k es = Some 0"
proof -
  have m: "m < LENGTH(32)" using assms(2) by simp
  have no: "fst e \<noteq> k \<and> fst e \<noteq> 0" if "e \<in> set es" for e using that assms(3,4) by (metis imageI)
  have "loop (probe_body es (2 ^ m) (\<lambda>x. x = k \<or> x = 0)) (IntegerHash k) = None"
    by (rule probe_stuck [OF assms(1) m]) (use no in auto)
  moreover have "LSM_set k v es = es" "LSM_get k es = 0"
    using assms(3,4) by (induction es) auto
  ultimately show ?thesis
    using assms(5,6) by (simp add: SampleHash_SetItem_def SampleHash_GetItem_def LSM_SetItem_def LSM_GetItem_def)
qed

theorem sample_maps_full_witness:
  "SampleHash_SetItem (2 ^ 1) 7 9 [(3, 4), (5, 6)] = None \<and> LSM_SetItem 7 9 [(3, 4), (5, 6)] = Some [(3, 4), (5, 6)]"
  using sample_maps_full [of "[(3, 4), (5, 6)]" 1 7 9] by simp

text \<open>The hash of the sample map is the 32-bit hash of \<^verbatim>\<open>HashTable\<close>; its \<^verbatim>\<open>GetItem\<close>, whose values are
  unsigned and whose result is an \<^verbatim>\<open>int\<close>, returns a stored value of \<open>2 ^ 31\<close> as a negative number.\<close>

theorem IntegerHash_is_Hash4:
  "IntegerHash = Hash4 \<and> SampleHash_GetItem 1 5 [(5, 0x80000000)] = Some (- (2 ^ 31))"
proof
  show "IntegerHash = Hash4" by (simp add: fun_eq_iff IntegerHash_def Hash4_def Let_def)
  show "SampleHash_GetItem 1 5 [(5, 0x80000000)] = Some (- (2 ^ 31))" by code_simp
qed

end
