(* ===== verification/Spsc_Queue.thy ===== *)
theory Spsc_Queue
  imports Utility
begin

text \<open>
  \<^verbatim>\<open>ReaderWriterQueue\<close> of \<^verbatim>\<open>ReaderWriterQueue/readerwriterqueue.h\<close>, the queue of one producer and one
  consumer: a ring of circular buffers, in which the producer works at \<^verbatim>\<open>TailBlock\<close> and the consumer at
  \<^verbatim>\<open>FrontBlock\<close>.  Each side keeps a cached copy of the index of the other (\<^verbatim>\<open>LocalTail\<close>, \<^verbatim>\<open>LocalFront\<close>), which
  may be out of date.

  \<open>EXP\<close> is the template argument \<^verbatim>\<open>EXPECTED_BLOCK_SIZE\<close>.  As everywhere, \<open>arg = None\<close> stands for a
  constructor that throws.  \<^verbatim>\<open>MakeBlock\<close> is \<^verbatim>\<open>noexcept\<close> and uses the throwing \<^verbatim>\<open>operator new\<close>: when
  memory is exhausted the program ends, which is the value \<open>Terminate\<close> of \<open>made\<close>.
\<close>

section \<open>State\<close>

record 'a rwblock =
  Front :: size_t
  LocalTail :: size_t
  Tail :: size_t
  LocalFront :: size_t
  RWNext :: "addr option"
  Data :: "'a slots"
  SizeMask :: size_t

text \<open>The memory: the live blocks, the next fresh address, and how many blocks can still be made.\<close>

record 'a rwheap =
  RWBlocks :: "addr \<Rightarrow> 'a rwblock option"
  RWBrk :: addr
  RWQuota :: nat

record rwq =
  FrontBlock :: "addr option"
  RWTailBlock :: "addr option"
  BlockSize :: size_t
  DequeueStatus :: bool
  EnqueueStatus :: bool

definition rput :: "addr \<Rightarrow> 'a rwblock \<Rightarrow> 'a rwheap \<Rightarrow> 'a rwheap" where
  "rput a b h = h\<lparr>RWBlocks := (RWBlocks h)(a \<mapsto> b)\<rparr>"

definition rget :: "'a rwheap \<Rightarrow> addr option \<Rightarrow> (addr \<times> 'a rwblock) option" where
  "rget h p = do { a \<leftarrow> p; b \<leftarrow> RWBlocks h a; Some (a, b) }"

section \<open>Blocks\<close>

definition RW_CeilToPow2 :: "size_t \<Rightarrow> size_t" where
  "RW_CeilToPow2 X =
    (let X = X - 1;
         X = X OR drop_bit 1 X;
         X = X OR drop_bit 2 X;
         X = X OR drop_bit 4 X;
         X = fold (\<lambda>i X. X OR drop_bit (unat (push_bit 3 (of_nat i :: size_t))) X) [1..<8] X;
         X = X + 1
     in X)"

datatype 'r made = Made 'r | Terminate

definition new_rwblock :: "size_t \<Rightarrow> 'a rwblock" where
  "new_rwblock Size = \<lparr>Front = 0, LocalTail = 0, Tail = 0, LocalFront = 0, RWNext = None,
     Data = replicate (unat Size) None, SizeMask = Size - 1\<rparr>"

definition MakeBlock :: "size_t \<Rightarrow> 'a rwheap \<Rightarrow> (addr \<times> 'a rwheap) made" where
  "MakeBlock capacity h =
    (if RWQuota h = 0 then Terminate
     else Made (RWBrk h, h\<lparr>RWBlocks := (RWBlocks h)(RWBrk h \<mapsto> new_rwblock capacity),
                 RWBrk := RWBrk h + 1, RWQuota := RWQuota h - 1\<rparr>))"

text \<open>\<^verbatim>\<open>~Block\<close>: destroy the elements from the front to the tail.\<close>

definition DestroyBlock_body :: "'a rwblock \<Rightarrow> size_t \<times> 'a slots \<Rightarrow> ((size_t \<times> 'a slots) + 'a slots) option" where
  "DestroyBlock_body b = (\<lambda>(i, d).
     if i \<noteq> Tail b then do {
       d1 \<leftarrow> destroy_at d (unat i);
       Some (Inl ((i + 1) AND SizeMask b, d1)) }
     else Some (Inr d))"

definition DestroyBlock :: "'a rwblock \<Rightarrow> 'a slots option" where
  "DestroyBlock b = loop (DestroyBlock_body b) (Front b, Data b)"

section \<open>Construction, destruction, move\<close>

definition set_next :: "addr \<Rightarrow> addr option \<Rightarrow> 'a rwheap \<Rightarrow> 'a rwheap option" where
  "set_next a n h = do { b \<leftarrow> RWBlocks h a; Some (rput a (b\<lparr>RWNext := n\<rparr>) h) }"

fun MakeRing :: "nat \<Rightarrow> size_t \<Rightarrow> addr option \<Rightarrow> addr option \<Rightarrow> 'a rwheap \<Rightarrow> ((addr option \<times> 'a rwheap) made) option" where
  "MakeRing 0 Size FirstBlock LastBlock h = Some (Made (FirstBlock, h))"
| "MakeRing (Suc n) Size FirstBlock LastBlock h =
    (case MakeBlock Size h of Terminate \<Rightarrow> Some Terminate
     | Made (CurrentBlock, h1) \<Rightarrow> do {
         (FirstBlock, h2) \<leftarrow> (case FirstBlock of
             None \<Rightarrow> Some (Some CurrentBlock, h1)
           | Some f \<Rightarrow> do { l \<leftarrow> LastBlock; h2 \<leftarrow> set_next l (Some CurrentBlock) h1; Some (FirstBlock, h2) });
         h3 \<leftarrow> set_next CurrentBlock FirstBlock h2;
         MakeRing n Size FirstBlock (Some CurrentBlock) h3 })"

definition RWQueue_new :: "size_t \<Rightarrow> size_t \<Rightarrow> 'a rwheap \<Rightarrow> ((rwq \<times> 'a rwheap) made) option" where
  "RWQueue_new EXP ReservedSize h =
    (if EXP \<noteq> RW_CeilToPow2 EXP \<or> EXP < 2 then None
     else
       (let Size = RW_CeilToPow2 (ReservedSize + 1);
            (Size, InitialCount) =
              (if Size > EXP then (EXP, (ReservedSize + push_bit 1 EXP - 3) div (EXP - 1)) else (Size, 1))
        in do {
          r \<leftarrow> MakeRing (unat InitialCount) Size None None h;
          Some (case r of Terminate \<Rightarrow> Terminate
            | Made (FirstBlock, h1) \<Rightarrow> Made (\<lparr>FrontBlock = FirstBlock, RWTailBlock = FirstBlock, BlockSize = Size,
                DequeueStatus = False, EnqueueStatus = False\<rparr>, h1)) }))"

definition RWQueue_Clear_body :: "addr option \<Rightarrow> addr option \<times> 'a rwheap \<Rightarrow> ((addr option \<times> 'a rwheap) + 'a rwheap) option" where
  "RWQueue_Clear_body FrontB = (\<lambda>(CurrentBlock, h). do {
     (a, b) \<leftarrow> rget h CurrentBlock;
     let NextBlock = RWNext b;
     _ \<leftarrow> DestroyBlock b;
     let h1 = h\<lparr>RWBlocks := (RWBlocks h)(a := None)\<rparr>;
     Some (if NextBlock \<noteq> FrontB then Inl (NextBlock, h1) else Inr h1) })"

definition RWQueue_Clear :: "rwq \<Rightarrow> 'a rwheap \<Rightarrow> 'a rwheap option" where
  "RWQueue_Clear q h =
    (if FrontBlock q = None then Some h
     else loop (RWQueue_Clear_body (FrontBlock q)) (FrontBlock q, h))"

definition RWQueue_move :: "rwq \<Rightarrow> rwq \<times> rwq" where
  "RWQueue_move Other = (Other\<lparr>DequeueStatus := False, EnqueueStatus := False\<rparr>,
     Other\<lparr>FrontBlock := None, RWTailBlock := None, BlockSize := 0\<rparr>)"

definition RWQueue_move_assign :: "rwq \<Rightarrow> rwq \<Rightarrow> 'a rwheap \<Rightarrow> (rwq \<times> rwq \<times> 'a rwheap) option" where
  "RWQueue_move_assign this Other h = do {
     h1 \<leftarrow> RWQueue_Clear this h;
     Some (this\<lparr>FrontBlock := FrontBlock Other, RWTailBlock := RWTailBlock Other, BlockSize := BlockSize Other\<rparr>,
       Other\<lparr>FrontBlock := None, RWTailBlock := None, BlockSize := 0\<rparr>, h1) }"

section \<open>Guards\<close>

text \<open>The debug check against a second thread in the same role: set on entry, cleared on every exit.\<close>

definition EnqueueGuard :: "rwq \<Rightarrow> rwq option" where
  "EnqueueGuard q = (if EnqueueStatus q then None else Some (q\<lparr>EnqueueStatus := True\<rparr>))"

definition DequeueGuard :: "rwq \<Rightarrow> rwq option" where
  "DequeueGuard q = (if DequeueStatus q then None else Some (q\<lparr>DequeueStatus := True\<rparr>))"

definition EndEnqueue :: "rwq \<Rightarrow> rwq" where
  "EndEnqueue q = q\<lparr>EnqueueStatus := False\<rparr>"

definition EndDequeue :: "rwq \<Rightarrow> rwq" where
  "EndDequeue q = q\<lparr>DequeueStatus := False\<rparr>"

section \<open>The consumer\<close>

text \<open>
  Which block holds the next element, if any: the front block, or, when that is empty and not the
  producer's, the next one (\<open>True\<close>).  \<^verbatim>\<open>TryDequeue\<close> reads the tail of a front block that is not the
  producer's afresh; \<^verbatim>\<open>Peek\<close> and \<^verbatim>\<open>Pop\<close> do so only when the cached copy says it is empty.
\<close>

definition NextFront :: "'a rwblock \<Rightarrow> 'a rwheap \<Rightarrow> ((addr \<times> bool) option \<times> 'a rwheap) option" where
  "NextFront b h = do {
     (n, nb) \<leftarrow> rget h (RWNext b);
     let nb1 = nb\<lparr>LocalTail := Tail nb\<rparr>;
     if Front nb1 = LocalTail nb1 then None
     else Some (Some (n, True), rput n nb1 h) }"

definition DequeueFront :: "rwq \<Rightarrow> 'a rwheap \<Rightarrow> ((addr \<times> bool) option \<times> 'a rwheap) option" where
  "DequeueFront q h = do {
     (a, b) \<leftarrow> rget h (FrontBlock q);
     let BlockFront = Front b;
     let (BlockTail, b1) =
       (if Some a \<noteq> RWTailBlock q then (Tail b, b\<lparr>LocalTail := Tail b\<rparr>) else (LocalTail b, b));
     if Some a \<noteq> RWTailBlock q \<and> BlockFront = BlockTail then NextFront b1 (rput a b1 h)
     else if BlockFront \<noteq> BlockTail then Some (Some (a, False), rput a b1 h)
     else (let b2 = b1\<lparr>LocalTail := Tail b1\<rparr> in
           Some (if BlockFront \<noteq> LocalTail b2 then Some (a, False) else None, rput a b2 h)) }"

definition PeekFront :: "rwq \<Rightarrow> 'a rwheap \<Rightarrow> ((addr \<times> bool) option \<times> 'a rwheap) option" where
  "PeekFront q h = do {
     (a, b) \<leftarrow> rget h (FrontBlock q);
     let BlockFront = Front b;
     let BlockTail = LocalTail b;
     let b1 = (if Some a \<noteq> RWTailBlock q \<and> BlockFront = BlockTail then b\<lparr>LocalTail := Tail b\<rparr> else b);
     if Some a \<noteq> RWTailBlock q \<and> BlockFront = BlockTail \<and> BlockFront = LocalTail b1
     then NextFront b1 (rput a b1 h)
     else if BlockFront \<noteq> BlockTail then Some (Some (a, False), rput a b1 h)
     else (let b2 = b1\<lparr>LocalTail := Tail b1\<rparr> in
           Some (if BlockFront \<noteq> LocalTail b2 then Some (a, False) else None, rput a b2 h)) }"

text \<open>Moving the element out, destroying it, and publishing the new front.\<close>

definition TakeFront :: "addr \<Rightarrow> 'a rwheap \<Rightarrow> ('a \<times> 'a rwheap) option" where
  "TakeFront a h = do {
     b \<leftarrow> RWBlocks h a;
     Element \<leftarrow> read_at (Data b) (unat (Front b));
     d \<leftarrow> destroy_at (Data b) (unat (Front b));
     Some (Element, rput a (b\<lparr>Data := d, Front := (Front b + 1) AND SizeMask b\<rparr>) h) }"

definition RWQueue_TryDequeue :: "rwq \<Rightarrow> 'a rwheap \<Rightarrow> ('a option \<times> rwq \<times> 'a rwheap) option" where
  "RWQueue_TryDequeue q h = do {
     q1 \<leftarrow> DequeueGuard q;
     (w, h1) \<leftarrow> DequeueFront q1 h;
     case w of None \<Rightarrow> Some (None, EndDequeue q1, h1)
     | Some (a, moved) \<Rightarrow> do {
         let q2 = (if moved then q1\<lparr>FrontBlock := Some a\<rparr> else q1);
         (Result, h2) \<leftarrow> TakeFront a h1;
         Some (Some Result, EndDequeue q2, h2) } }"

text \<open>\<^verbatim>\<open>Peek\<close> returns the address of the next element: its block and its slot.\<close>

definition RWQueue_Peek :: "rwq \<Rightarrow> 'a rwheap \<Rightarrow> ((addr \<times> nat) option \<times> rwq \<times> 'a rwheap) option" where
  "RWQueue_Peek q h = do {
     q1 \<leftarrow> DequeueGuard q;
     (w, h1) \<leftarrow> PeekFront q1 h;
     case w of None \<Rightarrow> Some (None, EndDequeue q1, h1)
     | Some (a, _) \<Rightarrow> do { b \<leftarrow> RWBlocks h1 a; Some (Some (a, unat (Front b)), EndDequeue q1, h1) } }"

definition RWQueue_Pop :: "rwq \<Rightarrow> 'a rwheap \<Rightarrow> (bool \<times> rwq \<times> 'a rwheap) option" where
  "RWQueue_Pop q h = do {
     q1 \<leftarrow> DequeueGuard q;
     (w, h1) \<leftarrow> PeekFront q1 h;
     case w of None \<Rightarrow> Some (False, EndDequeue q1, h1)
     | Some (a, moved) \<Rightarrow> do {
         let q2 = (if moved then q1\<lparr>FrontBlock := Some a\<rparr> else q1);
         (_, h2) \<leftarrow> TakeFront a h1;
         Some (True, EndDequeue q2, h2) } }"

section \<open>Sizes\<close>

definition SizeApprox_body :: "'a rwheap \<Rightarrow> addr option \<Rightarrow> size_t \<times> addr option \<Rightarrow> ((size_t \<times> addr option) + size_t) option" where
  "SizeApprox_body h FirstBlock = (\<lambda>(Size, CurrentBlock). do {
     (_, b) \<leftarrow> rget h CurrentBlock;
     let Size = Size + ((Tail b - Front b) AND SizeMask b);
     Some (if RWNext b \<noteq> FirstBlock then Inl (Size, RWNext b) else Inr Size) })"

definition RWQueue_SizeApprox :: "rwq \<Rightarrow> 'a rwheap \<Rightarrow> size_t option" where
  "RWQueue_SizeApprox q h = loop (SizeApprox_body h (FrontBlock q)) (0, FrontBlock q)"

definition MaxCapacity_body :: "'a rwheap \<Rightarrow> addr option \<Rightarrow> size_t \<times> addr option \<Rightarrow> ((size_t \<times> addr option) + size_t) option" where
  "MaxCapacity_body h FirstBlock = (\<lambda>(Capacity, CurrentBlock). do {
     (_, b) \<leftarrow> rget h CurrentBlock;
     let Capacity = Capacity + SizeMask b;
     Some (if RWNext b \<noteq> FirstBlock then Inl (Capacity, RWNext b) else Inr Capacity) })"

definition RWQueue_MaxCapacity :: "rwq \<Rightarrow> 'a rwheap \<Rightarrow> size_t option" where
  "RWQueue_MaxCapacity q h = loop (MaxCapacity_body h (FrontBlock q)) (0, FrontBlock q)"

section \<open>The producer\<close>

datatype RWAllocMode = CanAlloc | CannotAlloc

text \<open>The outcomes of an enqueue: it returns, it is left by the constructor's exception, or the program ends.\<close>

datatype enq_result = Returned bool | Threw | Terminated

text \<open>Constructing the element at the tail of a block and publishing the new tail.\<close>

definition PutTail :: "addr \<Rightarrow> 'a \<Rightarrow> 'a rwheap \<Rightarrow> 'a rwheap option" where
  "PutTail a v h = do {
     b \<leftarrow> RWBlocks h a;
     d \<leftarrow> construct_at (Data b) (unat (Tail b)) v;
     Some (rput a (b\<lparr>Data := d, Tail := (Tail b + 1) AND SizeMask b\<rparr>) h) }"

text \<open>A new block, linked in after the producer's; an exception of the constructor loses it.\<close>

definition EnqueueNewBlock :: "size_t \<Rightarrow> 'a option \<Rightarrow> addr \<Rightarrow> rwq \<Rightarrow> 'a rwheap
    \<Rightarrow> (enq_result \<times> rwq \<times> 'a rwheap) option" where
  "EnqueueNewBlock EXP arg CurrentBlock q h =
    (let Size = BlockSize q;
         Size = (if Size < EXP then (if Size * 2 > EXP then EXP else Size * 2) else Size);
         q1 = q\<lparr>BlockSize := Size\<rparr> in
     case MakeBlock Size h of Terminate \<Rightarrow> Some (Terminated, q1, h)
     | Made (NewBlock, h1) \<Rightarrow>
        (case arg of None \<Rightarrow> Some (Threw, q1, h1)
         | Some v \<Rightarrow> do {
             nb \<leftarrow> RWBlocks h1 NewBlock;
             d \<leftarrow> construct_at (Data nb) 0 v;
             if Front nb \<noteq> 0 then None
             else do {
               cb \<leftarrow> RWBlocks h1 CurrentBlock;
               let h2 = rput NewBlock (nb\<lparr>Data := d, Tail := 1, LocalTail := 1, RWNext := RWNext cb\<rparr>) h1;
               h3 \<leftarrow> set_next CurrentBlock (Some NewBlock) h2;
               Some (Returned True, q1\<lparr>RWTailBlock := Some NewBlock\<rparr>, h3) } }))"

definition RWQueue_InnerEnqueue :: "size_t \<Rightarrow> RWAllocMode \<Rightarrow> 'a option \<Rightarrow> rwq \<Rightarrow> 'a rwheap
    \<Rightarrow> (enq_result \<times> rwq \<times> 'a rwheap) option" where
  "RWQueue_InnerEnqueue EXP Mode arg q0 h = do {
     q \<leftarrow> EnqueueGuard q0;
     (a, b) \<leftarrow> rget h (RWTailBlock q);
     let BlockTail = Tail b;
     let NextBlockTail = (BlockTail + 1) AND SizeMask b;
     let b1 = (if NextBlockTail \<noteq> LocalFront b then b else b\<lparr>LocalFront := Front b\<rparr>);
     let h1 = rput a b1 h;
     if NextBlockTail \<noteq> LocalFront b1 then
       (case arg of None \<Rightarrow> Some (Threw, EndEnqueue q, h1)
        | Some v \<Rightarrow> do { h2 \<leftarrow> PutTail a v h1; Some (Returned True, EndEnqueue q, h2) })
     else if RWNext b1 \<noteq> FrontBlock q then do {
       (n, nb) \<leftarrow> rget h1 (RWNext b1);
       let nb1 = nb\<lparr>LocalFront := Front nb\<rparr>;
       if LocalFront nb1 \<noteq> Tail nb1 then None
       else (let h2 = rput n nb1 h1 in
         case arg of None \<Rightarrow> Some (Threw, EndEnqueue q, h2)
         | Some v \<Rightarrow> do {
             h3 \<leftarrow> PutTail n v h2;
             Some (Returned True, EndEnqueue (q\<lparr>RWTailBlock := Some n\<rparr>), h3) }) }
     else if Mode = CanAlloc then do {
       (r, q1, h2) \<leftarrow> EnqueueNewBlock EXP arg a q h1;
       Some (r, EndEnqueue q1, h2) }
     else Some (Returned False, EndEnqueue q, h1) }"

definition RWQueue_TryEnqueue :: "size_t \<Rightarrow> 'a option \<Rightarrow> rwq \<Rightarrow> 'a rwheap \<Rightarrow> (enq_result \<times> rwq \<times> 'a rwheap) option" where
  "RWQueue_TryEnqueue EXP arg q h = RWQueue_InnerEnqueue EXP CannotAlloc arg q h"

definition RWQueue_Enqueue :: "size_t \<Rightarrow> 'a option \<Rightarrow> rwq \<Rightarrow> 'a rwheap \<Rightarrow> (enq_result \<times> rwq \<times> 'a rwheap) option" where
  "RWQueue_Enqueue EXP arg q h = RWQueue_InnerEnqueue EXP CanAlloc arg q h"

end
