(* ===== verification/Spsc_Queue_Correct.thy ===== *)
theory Spsc_Queue_Correct
  imports Spsc_Queue Fifo Index_Arith
begin

text \<open>
  The invariant of \<^verbatim>\<open>ReaderWriterQueue\<close> and what each of its operations does to it.
\<close>

section \<open>One circular buffer\<close>

text \<open>
  \<open>rwb m b f xs\<close>: the block \<open>b\<close> of \<open>2 ^ m\<close> slots has had \<open>f\<close> elements taken out of it and holds \<open>xs\<close>, and no
  other object.  The cached tail and the cached front may lag behind, by amounts that keep them safe.
\<close>

definition rwb :: "nat \<Rightarrow> 'a rwblock \<Rightarrow> nat \<Rightarrow> 'a list \<Rightarrow> bool" where
  "rwb m b f xs \<longleftrightarrow> 1 \<le> m \<and> m < 64 \<and> length (Data b) = 2 ^ m \<and> SizeMask b = 2 ^ m - 1 \<and> length xs < 2 ^ m
     \<and> Front b = of_nat (f mod 2 ^ m) \<and> Tail b = of_nat ((f + length xs) mod 2 ^ m)
     \<and> (\<exists>lt. f \<le> lt \<and> lt \<le> f + length xs \<and> LocalTail b = of_nat (lt mod 2 ^ m))
     \<and> (\<exists>lf. lf \<le> f \<and> f + length xs < lf + 2 ^ m \<and> LocalFront b = of_nat (lf mod 2 ^ m))
     \<and> (\<forall>i. f \<le> i \<and> i < f + 2 ^ m \<longrightarrow>
          Data b ! (i mod 2 ^ m) = (if i < f + length xs then Some (xs ! (i - f)) else None))"

lemma rwbD:
  assumes "rwb m b f xs"
  shows "m < 64" "length (Data b) = 2 ^ m" "SizeMask b = 2 ^ m - 1" "length xs < 2 ^ m"
    "Front b = of_nat (f mod 2 ^ m)" "Tail b = of_nat ((f + length xs) mod 2 ^ m)"
    "\<exists>lt. f \<le> lt \<and> lt \<le> f + length xs \<and> LocalTail b = of_nat (lt mod 2 ^ m)"
    "\<exists>lf. lf \<le> f \<and> f + length xs < lf + 2 ^ m \<and> LocalFront b = of_nat (lf mod 2 ^ m)"
    "\<And>i. f \<le> i \<Longrightarrow> i < f + 2 ^ m \<Longrightarrow>
       Data b ! (i mod 2 ^ m) = (if i < f + length xs then Some (xs ! (i - f)) else None)"
    "1 \<le> m"
  using assms unfolding rwb_def by (elim conjE, blast)+

lemma mod_window: "a \<le> b \<Longrightarrow> b < a + n \<Longrightarrow> b mod n = a mod n \<Longrightarrow> a = (b :: nat)"
  by (metis add_diff_cancel_left' diff_is_0_eq dvd_imp_le le_antisym le_iff_add linorder_not_less mod_eq_dvd_iff_nat
      nat_add_left_cancel_less zero_less_diff)

lemma unat_pos: "m < 64 \<Longrightarrow> unat (of_nat (x mod 2 ^ m) :: size_t) = x mod 2 ^ m"
proof (rule unat_of_nat_small)
  assume "m < 64"
  then have "(2::nat) ^ m < 2 ^ 64" by (intro power_strict_increasing) auto
  then show "x mod 2 ^ m < 2 ^ LENGTH(64)" using mod_less_divisor [of "2 ^ m" x] by (simp del: mod_less_divisor)
qed

lemma pos_eq:
  assumes "m < 64"
  shows "(of_nat (a mod 2 ^ m) :: size_t) = of_nat (b mod 2 ^ m) \<longleftrightarrow> a mod 2 ^ m = b mod 2 ^ m"
proof -
  show ?thesis using unat_pos [OF assms] by metis
qed

lemma pos_eq_window: "m < 64 \<Longrightarrow> a \<le> b \<Longrightarrow> b < a + 2 ^ m \<Longrightarrow>
  (of_nat (a mod 2 ^ m) :: size_t) = of_nat (b mod 2 ^ m) \<longleftrightarrow> a = b"
  using mod_window [of a b "2 ^ m"] by (auto simp: pos_eq)

lemma pos_next: "(of_nat (a mod 2 ^ m) + 1 :: size_t) AND (2 ^ m - 1) = of_nat (Suc a mod 2 ^ m)"
  using mask_of_nat [where n = "a mod 2 ^ m + 1" and k = m and 'w = 64] by (simp add: mod_simps add.commute)

lemma rwb_empty_iff: "rwb m b f xs \<Longrightarrow> Front b = Tail b \<longleftrightarrow> xs = []"
  using pos_eq_window [of m f "f + length xs"] by (auto simp: rwb_def)

lemma rwb_ready: "rwb m b f xs \<Longrightarrow> Front b \<noteq> LocalTail b \<Longrightarrow> xs \<noteq> []"
  by (auto simp: rwb_def)

lemma rwb_next_tail: "rwb m b f xs \<Longrightarrow> (Tail b + 1) AND SizeMask b = of_nat (Suc (f + length xs) mod 2 ^ m)"
  by (simp add: rwb_def pos_next)

lemma rwb_full_iff: "rwb m b f xs \<Longrightarrow> (Tail b + 1) AND SizeMask b = Front b \<longleftrightarrow> Suc (length xs) = 2 ^ m"
proof -
  assume r: "rwb m b f xs"
  note d = rwbD [OF r]
  have "(Tail b + 1) AND SizeMask b = Front b \<longleftrightarrow> Suc (f + length xs) mod 2 ^ m = f mod 2 ^ m"
    unfolding rwb_next_tail [OF r] d(5) by (rule pos_eq [OF d(1)])
  moreover have "Suc (f + length xs) mod 2 ^ m = f mod 2 ^ m \<longleftrightarrow> Suc (length xs) = 2 ^ m"
  proof
    assume "Suc (f + length xs) mod 2 ^ m = f mod 2 ^ m"
    then have "Suc (length xs) < 2 ^ m \<Longrightarrow> False"
      using mod_window [of f "Suc (f + length xs)" "2 ^ m"] by simp
    then show "Suc (length xs) = 2 ^ m" using d(4) by (meson Suc_lessI)
  next
    assume "Suc (length xs) = 2 ^ m"
    then have "Suc (f + length xs) = f + 2 ^ m" by simp
    then show "Suc (f + length xs) mod 2 ^ m = f mod 2 ^ m" by (metis mod_add_self2)
  qed
  ultimately show ?thesis by simp
qed

lemma rwb_room:
  assumes r: "rwb m b f xs" and ne: "(Tail b + 1) AND SizeMask b \<noteq> LocalFront b"
  shows "\<exists>lf. lf \<le> f \<and> Suc (f + length xs) < lf + 2 ^ m \<and> LocalFront b = of_nat (lf mod 2 ^ m)"
    "Suc (length xs) < 2 ^ m"
proof -
  note d = rwbD [OF r]
  obtain lf where lf: "lf \<le> f" "f + length xs < lf + 2 ^ m" "LocalFront b = of_nat (lf mod 2 ^ m)" using d(8) by blast
  have "Suc (f + length xs) \<noteq> lf + 2 ^ m"
    using ne unfolding rwb_next_tail [OF r] lf(3) by (metis mod_add_self2)
  then have "Suc (f + length xs) < lf + 2 ^ m" using lf(2) by linarith
  then show "\<exists>lf. lf \<le> f \<and> Suc (f + length xs) < lf + 2 ^ m \<and> LocalFront b = of_nat (lf mod 2 ^ m)"
    using lf by blast
  show "Suc (length xs) < 2 ^ m" using lf(1) \<open>Suc (f + length xs) < lf + 2 ^ m\<close> by linarith
qed

lemma rwb_refresh_tail: "rwb m b f xs \<Longrightarrow> rwb m (b\<lparr>LocalTail := Tail b\<rparr>) f xs"
  unfolding rwb_def by (auto intro!: exI [of _ "f + length xs"])

lemma rwb_refresh_front: "rwb m b f xs \<Longrightarrow> rwb m (b\<lparr>LocalFront := Front b\<rparr>) f xs"
  unfolding rwb_def by (auto intro!: exI [of _ f])

lemma rwb_next [simp]: "rwb m (b\<lparr>RWNext := n\<rparr>) f xs \<longleftrightarrow> rwb m b f xs"
  by (simp add: rwb_def)

lemma rwb_put:
  assumes r: "rwb m b f xs" and ne: "(Tail b + 1) AND SizeMask b \<noteq> LocalFront b"
  shows "\<exists>d. construct_at (Data b) (unat (Tail b)) v = Some d
    \<and> rwb m (b\<lparr>Data := d, Tail := (Tail b + 1) AND SizeMask b\<rparr>) f (xs @ [v])"
proof -
  note d = rwbD [OF r]
  let ?t = "f + length xs"
  have t: "unat (Tail b) = ?t mod 2 ^ m" unfolding d(6) by (rule unat_pos [OF d(1)])
  have c: "construct_at (Data b) (unat (Tail b)) v = Some ((Data b)[?t mod 2 ^ m := Some v])"
    unfolding t using d(9) [of ?t] d(2,4) by simp
  have slots: "(Data b)[?t mod 2 ^ m := Some v] ! (i mod 2 ^ m)
      = (if i < f + length (xs @ [v]) then Some ((xs @ [v]) ! (i - f)) else None)"
    if i: "f \<le> i" "i < f + 2 ^ m" for i
  proof (cases "i = ?t")
    case True
    then show ?thesis using d(2) by simp
  next
    case False
    have "i mod 2 ^ m \<noteq> ?t mod 2 ^ m"
      using mod_window [of i ?t "2 ^ m"] mod_window [of ?t i "2 ^ m"] False i d(4) by (cases "i \<le> ?t") auto
    then show ?thesis using False d(9) [OF i] i by (auto simp: nth_append)
  qed
  have "rwb m (b\<lparr>Data := (Data b)[?t mod 2 ^ m := Some v], Tail := (Tail b + 1) AND SizeMask b\<rparr>) f (xs @ [v])"
    unfolding rwb_def
    using d(1-3,5,10) rwb_room [OF r ne] d(7) slots rwb_next_tail [OF r]
    by (intro conjI) (auto intro: le_SucI)
  then show ?thesis using c by blast
qed

lemma rwb_take:
  assumes r: "rwb m b f xs" and ne: "Front b \<noteq> LocalTail b"
  shows "\<exists>x ys d. xs = x # ys \<and> read_at (Data b) (unat (Front b)) = Some x
    \<and> destroy_at (Data b) (unat (Front b)) = Some d
    \<and> rwb m (b\<lparr>Data := d, Front := (Front b + 1) AND SizeMask b\<rparr>) (Suc f) ys"
proof -
  note d = rwbD [OF r]
  obtain x ys where xs: "xs = x # ys" using rwb_ready [OF r ne] by (cases xs) auto
  have t: "unat (Front b) = f mod 2 ^ m" unfolding d(5) by (rule unat_pos [OF d(1)])
  have x: "Data b ! (f mod 2 ^ m) = Some x" using d(9) [of f] xs by simp
  let ?d = "(Data b)[f mod 2 ^ m := None]"
  have slots: "?d ! (i mod 2 ^ m) = (if i < Suc f + length ys then Some (ys ! (i - Suc f)) else None)"
    if i: "Suc f \<le> i" "i < Suc f + 2 ^ m" for i
  proof (cases "i = f + 2 ^ m")
    case True
    then have "i mod 2 ^ m = f mod 2 ^ m" by simp
    then show ?thesis using True d(2,4) xs by simp
  next
    case False
    then have i': "f \<le> i" "i < f + 2 ^ m" using i by simp_all
    have "i mod 2 ^ m \<noteq> f mod 2 ^ m" using mod_window [OF i'] i by auto
    then show ?thesis using d(9) [OF i'] i xs by (auto simp: nth_Cons')
  qed
  obtain lt where lt: "f \<le> lt" "lt \<le> f + length xs" "LocalTail b = of_nat (lt mod 2 ^ m)" using d(7) by blast
  have "lt \<noteq> f" using ne lt(3) d(5) by auto
  then have 1: "\<exists>lt. Suc f \<le> lt \<and> lt \<le> Suc f + length ys \<and> LocalTail b = of_nat (lt mod 2 ^ m)"
    using lt xs by (intro exI [of _ lt]) auto
  obtain lf where lf: "lf \<le> f" "f + length xs < lf + 2 ^ m" "LocalFront b = of_nat (lf mod 2 ^ m)" using d(8) by blast
  then have 2: "\<exists>lf. lf \<le> Suc f \<and> Suc f + length ys < lf + 2 ^ m \<and> LocalFront b = of_nat (lf mod 2 ^ m)"
    using xs by (intro exI [of _ lf]) auto
  have 3: "(Front b + 1) AND SizeMask b = of_nat (Suc f mod 2 ^ m)" using d(3,5) pos_next by simp
  have "rwb m (b\<lparr>Data := ?d, Front := (Front b + 1) AND SizeMask b\<rparr>) (Suc f) ys"
    unfolding rwb_def using d(1-4,6,10) xs 1 2 3 slots by (intro conjI) auto
  then show ?thesis using x t d(2) xs by auto
qed

lemma rwb_new: "1 \<le> m \<Longrightarrow> m < 64 \<Longrightarrow> rwb m (new_rwblock (2 ^ m)) 0 []"
  using unat_pow2 [of m, where 'w = 64] by (auto simp: rwb_def new_rwblock_def intro!: exI [of _ "0 :: nat"])

section \<open>The ring of buffers\<close>

text \<open>
  The blocks \<open>as\<close>, from the consumer's on in the order of the ring, hold the lists \<open>xss\<close>; the producer is
  at the one of index \<open>t\<close>.  The blocks after it are empty; between the two sides they are full.
\<close>

definition rw_next :: "'a rwheap \<Rightarrow> addr \<Rightarrow> addr option" where
  "rw_next h a = Option.bind (RWBlocks h a) RWNext"

definition holds :: "'a rwheap \<Rightarrow> addr \<Rightarrow> 'a list \<Rightarrow> bool" where
  "holds h a xs \<longleftrightarrow> (\<exists>b m f. RWBlocks h a = Some b \<and> rwb m b f xs)"

definition cap :: "'a rwheap \<Rightarrow> addr \<Rightarrow> nat" where
  "cap h a = (case RWBlocks h a of None \<Rightarrow> 0 | Some b \<Rightarrow> unat (SizeMask b))"

definition rw_base :: "nat \<Rightarrow> rwq \<Rightarrow> 'a rwheap \<Rightarrow> addr list \<Rightarrow> 'a list list \<Rightarrow> nat \<Rightarrow> bool" where
  "rw_base e q h as xss t \<longleftrightarrow> ring (rw_next h) as \<and> list_all2 (holds h) as xss
     \<and> FrontBlock q = Some (hd as) \<and> t < length as \<and> RWTailBlock q = Some (as ! t)
     \<and> (\<forall>i < length as. t < i \<longrightarrow> xss ! i = [])
     \<and> (\<forall>i. 0 < i \<and> i \<le> t \<longrightarrow> xss ! i \<noteq> [])
     \<and> (\<forall>i. 0 < i \<and> i < t \<longrightarrow> length (xss ! i) = cap h (as ! i))
     \<and> (\<forall>a \<ge> RWBrk h. RWBlocks h a = None)
     \<and> (\<exists>s \<le> e. BlockSize q = 2 ^ s) \<and> 1 \<le> e \<and> e < 64"

lemma rw_baseD:
  assumes "rw_base e q h as xss t"
  shows "ring (rw_next h) as" "list_all2 (holds h) as xss" "FrontBlock q = Some (hd as)" "t < length as"
    "RWTailBlock q = Some (as ! t)" "\<And>i. i < length as \<Longrightarrow> t < i \<Longrightarrow> xss ! i = []"
    "\<And>i. 0 < i \<Longrightarrow> i \<le> t \<Longrightarrow> xss ! i \<noteq> []"
    "\<And>i. 0 < i \<Longrightarrow> i < t \<Longrightarrow> length (xss ! i) = cap h (as ! i)"
    "\<And>a. RWBrk h \<le> a \<Longrightarrow> RWBlocks h a = None" "\<exists>s \<le> e. BlockSize q = 2 ^ s" "1 \<le> e" "e < 64"
    "length xss = length as" "distinct as" "as \<noteq> []"
proof -
  show "ring (rw_next h) as" "list_all2 (holds h) as xss" using assms by (simp_all add: rw_base_def)
  then show "length xss = length as" "distinct as" "as \<noteq> []"
    by (simp_all add: list_all2_lengthD ring_distinct ring_nonempty)
qed (use assms in \<open>unfold rw_base_def, blast+\<close>)

lemma rw_base_fields [simp]:
  "rw_base e (q\<lparr>EnqueueStatus := b\<rparr>) h as xss t \<longleftrightarrow> rw_base e q h as xss t"
  "rw_base e (q\<lparr>DequeueStatus := b\<rparr>) h as xss t \<longleftrightarrow> rw_base e q h as xss t"
  by (simp_all add: rw_base_def)

lemma rw_block:
  assumes "list_all2 (holds h) as xss" "i < length as"
  obtains b m f where "RWBlocks h (as ! i) = Some b" "rwb m b f (xss ! i)"
  using list_all2_nthD [OF assms] by (auto simp: holds_def)

lemma rw_live:
  assumes "list_all2 (holds h) as xss" "\<And>a. RWBrk h \<le> a \<Longrightarrow> RWBlocks h a = None" "a \<in> set as"
  shows "a < RWBrk h" "\<exists>b. RWBlocks h a = Some b"
proof -
  obtain i where i: "i < length as" "a = as ! i" using assms(3) by (metis in_set_conv_nth)
  obtain b m f where "RWBlocks h (as ! i) = Some b" by (rule rw_block [OF assms(1) i(1)])
  then show "\<exists>b. RWBlocks h a = Some b" using i(2) by simp
  then show "a < RWBrk h" using assms(2) [of a] by (cases "a < RWBrk h") auto
qed

lemma cap_rwb: "RWBlocks h a = Some b \<Longrightarrow> rwb m b f xs \<Longrightarrow> cap h a = 2 ^ m - 1 \<and> length xs \<le> cap h a"
proof -
  assume b: "RWBlocks h a = Some b" "rwb m b f xs"
  have "unat (2 ^ m - 1 :: size_t) = 2 ^ m - 1"
    using rwbD(1) [OF b(2)] unat_pow2 [of m, where 'w = 64] unat_sub [of 1 "2 ^ m :: size_t"]
    by (simp add: word_le_nat_alt)
  then show ?thesis using b rwbD(3,4) [OF b(2)] by (simp add: cap_def)
qed

text \<open>Replacing one block: what the ring then holds.\<close>

lemma rput_simps [simp]:
  "RWBlocks (rput a b h) = (RWBlocks h)(a \<mapsto> b)" "RWBrk (rput a b h) = RWBrk h" "RWQuota (rput a b h) = RWQuota h"
  by (simp_all add: rput_def)

lemma rput_dom: "RWBlocks h a = Some b0 \<Longrightarrow> dom (RWBlocks (rput a b h)) = dom (RWBlocks h)"
  by auto

lemma holds_rput:
  assumes "list_all2 (holds h) as xss" "distinct as" "k < length as" "rwb m b f ys"
  shows "list_all2 (holds (rput (as ! k) b h)) as (xss[k := ys])"
proof (rule list_all2_all_nthI)
  show "length as = length (xss[k := ys])" using assms(1) by (simp add: list_all2_lengthD)
  fix i assume i: "i < length as"
  show "holds (rput (as ! k) b h) (as ! i) (xss[k := ys] ! i)"
  proof (cases "i = k")
    case True
    then show ?thesis using assms(4) i list_all2_lengthD [OF assms(1)] by (auto simp: holds_def)
  next
    case False
    then have "as ! i \<noteq> as ! k" using assms(2,3) i by (simp add: nth_eq_iff_index_eq)
    then show ?thesis using False list_all2_nthD [OF assms(1) i] by (simp add: holds_def)
  qed
qed

lemma rput_same: "RWBlocks h a = Some b0 \<Longrightarrow> RWNext b = RWNext b0 \<Longrightarrow> rw_next (rput a b h) = rw_next h"
  "RWBlocks h a = Some b0 \<Longrightarrow> SizeMask b = SizeMask b0 \<Longrightarrow> cap (rput a b h) = cap h"
  by (auto simp: rw_next_def cap_def fun_eq_iff)

lemma rw_base_rput:
  assumes inv: "rw_base e q h as xss t" and k: "k < length as" "RWBlocks h (as ! k) = Some b0"
    and b: "RWNext b = RWNext b0" "SizeMask b = SizeMask b0" "rwb m b f ys"
    and q: "FrontBlock q' = FrontBlock q" "RWTailBlock q' = Some (as ! t')" "BlockSize q' = BlockSize q" "t' < length as"
    and emp: "\<And>i. i < length as \<Longrightarrow> t' < i \<Longrightarrow> xss[k := ys] ! i = []"
    and ne: "\<And>i. 0 < i \<Longrightarrow> i \<le> t' \<Longrightarrow> xss[k := ys] ! i \<noteq> []"
    and full: "\<And>i. 0 < i \<Longrightarrow> i < t' \<Longrightarrow> length (xss[k := ys] ! i) = cap h (as ! i)"
  shows "rw_base e q' (rput (as ! k) b h) as (xss[k := ys]) t'"
proof -
  note d = rw_baseD [OF inv]
  have l: "list_all2 (holds (rput (as ! k) b h)) as (xss[k := ys])"
    using holds_rput [OF d(2,14) k(1) b(3)] .
  have fr: "\<forall>a \<ge> RWBrk (rput (as ! k) b h). RWBlocks (rput (as ! k) b h) a = None" using d(9) k(2) by force
  show ?thesis
    unfolding rw_base_def rput_same(1) [OF k(2) b(1)] rput_same(2) [OF k(2) b(2)]
    using d(1,3,10,11,12) q emp ne full l fr by (intro conjI) auto
qed

text \<open>Only cached indices change: nothing else does.\<close>

lemma rw_base_refresh:
  assumes inv: "rw_base e q h as xss t" and k: "k < length as" "RWBlocks h (as ! k) = Some b0"
    and b: "RWNext b = RWNext b0" "SizeMask b = SizeMask b0" "rwb m b f (xss ! k)"
  shows "rw_base e q (rput (as ! k) b h) as xss t"
proof -
  note d = rw_baseD [OF inv]
  show ?thesis
    by (rule rw_base_rput [OF inv k b, unfolded list_update_id]) (fact d refl | simp add: d)+
qed

section \<open>The consumer\<close>

definition ready :: "'a rwheap \<Rightarrow> addr \<Rightarrow> bool" where
  "ready h a \<longleftrightarrow> (\<exists>b. RWBlocks h a = Some b \<and> Front b \<noteq> LocalTail b)"

text \<open>What \<^verbatim>\<open>TryDequeue\<close>, \<^verbatim>\<open>Peek\<close> and \<^verbatim>\<open>Pop\<close> find out before they take the element.\<close>

definition found :: "nat \<Rightarrow> rwq \<Rightarrow> 'a rwheap \<Rightarrow> addr list \<Rightarrow> 'a list list \<Rightarrow> nat \<Rightarrow> (addr \<times> bool) option \<Rightarrow> 'a rwheap \<Rightarrow> bool" where
  "found e q h as xss t w h1 \<longleftrightarrow> rw_base e q h1 as xss t \<and> RWQuota h1 = RWQuota h \<and> cap h1 = cap h
     \<and> dom (RWBlocks h1) = dom (RWBlocks h)
     \<and> (w = None \<and> concat xss = []
       \<or> w = Some (as ! 0, False) \<and> xss ! 0 \<noteq> [] \<and> ready h1 (as ! 0)
       \<or> w = Some (as ! 1, True) \<and> xss ! 0 = [] \<and> 0 < t \<and> ready h1 (as ! 1))"

lemma rw_first:
  assumes "rw_base e q h as xss t"
  shows "\<exists>b m f. FrontBlock q = Some (as ! 0) \<and> RWBlocks h (as ! 0) = Some b \<and> rwb m b f (xss ! 0)
    \<and> 0 < length as \<and> (RWTailBlock q = Some (as ! 0) \<longleftrightarrow> t = 0)
    \<and> (t = 0 \<longrightarrow> xss ! 0 = [] \<longrightarrow> concat xss = []) \<and> (0 < t \<longrightarrow> RWNext b = Some (as ! 1))"
proof -
  note d = rw_baseD [OF assms]
  have l: "0 < length as" using d(15) by simp
  obtain b m f where b: "RWBlocks h (as ! 0) = Some b" "rwb m b f (xss ! 0)" by (rule rw_block [OF d(2) l])
  have 1: "FrontBlock q = Some (as ! 0)" using d(3,15) by (simp add: hd_conv_nth)
  have 2: "RWTailBlock q = Some (as ! 0) \<longleftrightarrow> t = 0" using d(4,5,14) l by (simp add: nth_eq_iff_index_eq)
  have 3: "concat xss = []" if "t = 0" "xss ! 0 = []"
  proof -
    have "xss ! i = []" if "i < length xss" for i using d(6,13) \<open>t = 0\<close> \<open>xss ! 0 = []\<close> that by (cases "i = 0") auto
    then have "\<forall>xs \<in> set xss. xs = []" by (metis in_set_conv_nth)
    then show ?thesis by simp
  qed
  have 4: "RWNext b = Some (as ! 1)" if "0 < t"
    using ring_nth [OF d(1) l] b(1) d(4) that by (simp add: rw_next_def)
  show ?thesis using 1 b l 2 3 4 by blast
qed

lemma NextFront_found:
  assumes inv: "rw_base e q h as xss t" and t: "0 < t" "xss ! 0 = []"
    and b: "RWBlocks h (as ! 0) = Some b"
  shows "\<exists>w h1. NextFront b h = Some (w, h1) \<and> found e q h as xss t w h1"
proof -
  note d = rw_baseD [OF inv]
  have l: "1 < length as" using d(4) t(1) by simp
  obtain nb m f where nb: "RWBlocks h (as ! 1) = Some nb" "rwb m nb f (xss ! 1)" by (rule rw_block [OF d(2) l])
  have nx: "RWNext b = Some (as ! 1)" using rw_first [OF inv] b t(1) by (metis option.inject)
  have ne: "xss ! 1 \<noteq> []" using d(7) [of 1] t(1) by simp
  let ?nb = "nb\<lparr>LocalTail := Tail nb\<rparr>"
  have r: "rwb m ?nb f (xss ! 1)" using rwb_refresh_tail [OF nb(2)] .
  have ft: "Front nb \<noteq> Tail nb" using rwb_empty_iff [OF nb(2)] ne by simp
  have inv1: "rw_base e q (rput (as ! 1) ?nb h) as xss t"
    using rw_base_refresh [OF inv l nb(1) _ _ r] by simp
  have "cap (rput (as ! 1) ?nb h) = cap h" by (rule rput_same(2) [OF nb(1)]) simp
  moreover have "ready (rput (as ! 1) ?nb h) (as ! 1)" using ft by (simp add: ready_def)
  moreover have "NextFront b h = Some (Some (as ! 1, True), rput (as ! 1) ?nb h)"
    using nb(1) nx ft by (simp add: NextFront_def rget_def)
  moreover have "dom (RWBlocks (rput (as ! 1) ?nb h)) = dom (RWBlocks h)" by (rule rput_dom [OF nb(1)])
  moreover have "RWQuota (rput (as ! 1) ?nb h) = RWQuota h" by simp
  ultimately show ?thesis using inv1 t unfolding found_def by blast
qed

lemma found_refreshed:
  assumes inv: "rw_base e q h as xss t" and b: "RWBlocks h (as ! 0) = Some b0" "RWNext b = RWNext b0"
      "SizeMask b = SizeMask b0" "rwb m b f (xss ! 0)"
    and w: "w = None \<and> concat xss = [] \<or> w = Some (as ! 0, False) \<and> Front b \<noteq> LocalTail b"
  shows "found e q h as xss t w (rput (as ! 0) b h)"
  using rw_base_refresh [OF inv _ b] rw_baseD(15) [OF inv] rput_same(2) [OF b(1,3)] w rwb_ready [OF b(4)]
    rput_dom [OF b(1)]
  by (auto simp: found_def ready_def simp del: dom_fun_upd)

lemma found_trans:
  assumes "found e q (rput a b h) as xss t w h1" "cap (rput a b h) = cap h" "RWBlocks h a = Some b0"
  shows "found e q h as xss t w h1"
  using assms rput_dom [OF assms(3), of b] by (simp add: found_def del: rput_simps(1))

lemma DequeueFront_found:
  assumes inv: "rw_base e q h as xss t"
  shows "\<exists>w h1. DequeueFront q h = Some (w, h1) \<and> found e q h as xss t w h1"
proof -
  obtain b m f where b: "FrontBlock q = Some (as ! 0)" "RWBlocks h (as ! 0) = Some b" "rwb m b f (xss ! 0)"
    "0 < length as" "RWTailBlock q = Some (as ! 0) \<longleftrightarrow> t = 0"
    "t = 0 \<longrightarrow> xss ! 0 = [] \<longrightarrow> concat xss = []" "0 < t \<longrightarrow> RWNext b = Some (as ! 1)"
    using rw_first [OF inv] by blast
  let ?b = "b\<lparr>LocalTail := Tail b\<rparr>"
  have r: "rwb m ?b f (xss ! 0)" using rwb_refresh_tail [OF b(3)] .
  have e: "Front b = Tail b \<longleftrightarrow> xss ! 0 = []" using rwb_empty_iff [OF b(3)] .
  have g: "rget h (FrontBlock q) = Some (as ! 0, b)" using b(1,2) by (simp add: rget_def)
  note f = found_refreshed [OF inv b(2)]
  show ?thesis
  proof (cases "t = 0")
    case True
    then have tb: "Some (as ! 0) = RWTailBlock q" using b(5) by simp
    show ?thesis
    proof (cases "Front b = LocalTail b")
      case True
      have "found e q h as xss t (if Front b \<noteq> Tail b then Some (as ! 0, False) else None) (rput (as ! 0) ?b h)"
        by (rule f [OF _ _ r]) (use e b(6) \<open>t = 0\<close> in auto)
      then show ?thesis using True g tb by (simp add: DequeueFront_def Let_def)
    next
      case False
      have "found e q h as xss t (Some (as ! 0, False)) (rput (as ! 0) b h)"
        by (rule f [OF _ _ b(3)]) (use False in auto)
      then show ?thesis using False g tb by (simp add: DequeueFront_def Let_def)
    qed
  next
    case False
    then have tb: "Some (as ! 0) \<noteq> RWTailBlock q" using b(5) by simp
    show ?thesis
    proof (cases "xss ! 0 = []")
      case True
      have inv1: "rw_base e q (rput (as ! 0) ?b h) as xss t"
        by (rule rw_base_refresh [OF inv b(4,2) _ _ r]) simp_all
      have c: "cap (rput (as ! 0) ?b h) = cap h" by (rule rput_same(2) [OF b(2)]) simp
      have "RWBlocks (rput (as ! 0) ?b h) (as ! 0) = Some ?b" by simp
      from NextFront_found [OF inv1 _ True this] False obtain w h1 where
        n: "NextFront ?b (rput (as ! 0) ?b h) = Some (w, h1)" "found e q (rput (as ! 0) ?b h) as xss t w h1" by blast
      then show ?thesis using found_trans [OF n(2) c b(2)] e True g tb by (simp add: DequeueFront_def Let_def)
    next
      case False
      have "found e q h as xss t (Some (as ! 0, False)) (rput (as ! 0) ?b h)"
        by (rule f [OF _ _ r]) (use e False in auto)
      then show ?thesis using e False g tb by (simp add: DequeueFront_def Let_def)
    qed
  qed
qed

lemma PeekFront_found:
  assumes inv: "rw_base e q h as xss t"
  shows "\<exists>w h1. PeekFront q h = Some (w, h1) \<and> found e q h as xss t w h1"
proof -
  obtain b m f where b: "FrontBlock q = Some (as ! 0)" "RWBlocks h (as ! 0) = Some b" "rwb m b f (xss ! 0)"
    "0 < length as" "RWTailBlock q = Some (as ! 0) \<longleftrightarrow> t = 0"
    "t = 0 \<longrightarrow> xss ! 0 = [] \<longrightarrow> concat xss = []" "0 < t \<longrightarrow> RWNext b = Some (as ! 1)"
    using rw_first [OF inv] by blast
  let ?b = "b\<lparr>LocalTail := Tail b\<rparr>"
  have r: "rwb m ?b f (xss ! 0)" using rwb_refresh_tail [OF b(3)] .
  have e: "Front b = Tail b \<longleftrightarrow> xss ! 0 = []" using rwb_empty_iff [OF b(3)] .
  have g: "rget h (FrontBlock q) = Some (as ! 0, b)" using b(1,2) by (simp add: rget_def)
  note f = found_refreshed [OF inv b(2)]
  show ?thesis
  proof (cases "Front b = LocalTail b")
    case True
    show ?thesis
    proof (cases "0 < t \<and> xss ! 0 = []")
      case c: True
      have tb: "Some (as ! 0) \<noteq> RWTailBlock q" using c b(5) by simp
      have inv1: "rw_base e q (rput (as ! 0) ?b h) as xss t"
        by (rule rw_base_refresh [OF inv b(4,2) _ _ r]) simp_all
      have cp: "cap (rput (as ! 0) ?b h) = cap h" by (rule rput_same(2) [OF b(2)]) simp
      have "RWBlocks (rput (as ! 0) ?b h) (as ! 0) = Some ?b" by simp
      from NextFront_found [OF inv1 _ _ this] c obtain w h1 where
        n: "NextFront ?b (rput (as ! 0) ?b h) = Some (w, h1)" "found e q (rput (as ! 0) ?b h) as xss t w h1" by blast
      then show ?thesis using found_trans [OF n(2) cp b(2)] e c True g tb by (simp add: PeekFront_def Let_def)
    next
      case c: False
      have "found e q h as xss t (if Front b \<noteq> Tail b then Some (as ! 0, False) else None) (rput (as ! 0) ?b h)"
        by (rule f [OF _ _ r]) (use e b(6) c in auto)
      then show ?thesis using True g e c b(5) by (auto simp: PeekFront_def Let_def)
    qed
  next
    case False
    have "found e q h as xss t (Some (as ! 0, False)) (rput (as ! 0) b h)"
      by (rule f [OF _ _ b(3)]) (use False in auto)
    then show ?thesis using False g by (simp add: PeekFront_def Let_def)
  qed
qed

text \<open>Moving the front to the next block turns the ring by one.\<close>

lemma rw_base_rotate:
  assumes inv: "rw_base e q h as xss t" and t: "0 < t" "xss ! 0 = []"
  shows "rw_base e (q\<lparr>FrontBlock := Some (as ! 1)\<rparr>) h (rotate1 as) (rotate1 xss) (t - 1)"
    "concat (rotate1 xss) = concat xss" "rotate1 as ! 0 = as ! 1"
proof -
  note d = rw_baseD [OF inv]
  obtain a as' xs xss' where as: "as = a # as'" and xss: "xss = xs # xss'"
    using d(13,15) by (cases as; cases xss) auto
  have xs: "xs = []" using t(2) xss by simp
  have l: "length xss' = length as'" using d(13) as xss by simp
  have ne: "as' \<noteq> []" using d(4) t(1) as by auto
  have la: "list_all2 (holds h) (rotate1 as) (rotate1 xss)"
    using d(2) as xss by (simp add: list_all2_appendI)
  have nth: "rotate1 xss ! i = (if i < length as' then xss ! Suc i else [])" if "i < length as" for i
    using that l as xss xs by (auto simp: nth_append)
  have nta: "rotate1 as ! i = as ! Suc i" if "i < length as'" for i
    using that as by (simp add: nth_append)
  have lt: "t - 1 < length as'" using d(4) as t(1) by simp
  have hd': "hd (rotate1 as) = as ! 1" using nta [of 0] ne by (simp add: hd_conv_nth as)
  have len: "length as = Suc (length as')" using as by simp
  have 1: "rotate1 xss ! i = []" if "i < length as" "t - 1 < i" for i
  proof (cases "i < length as'")
    case True
    then have "xss ! Suc i = []" using that len by (intro d(6)) auto
    then show ?thesis using nth [OF that(1)] by simp
  qed (simp add: nth [OF that(1)])
  have 2: "rotate1 xss ! i \<noteq> []" if "0 < i" "i \<le> t - 1" for i
    using nth [of i] d(7) [of "Suc i"] that lt len t(1) by auto
  have 3: "length (rotate1 xss ! i) = cap h (rotate1 as ! i)" if "0 < i" "i < t - 1" for i
    using nth [of i] nta [of i] d(8) [of "Suc i"] that lt len t(1) by auto
  show "rw_base e (q\<lparr>FrontBlock := Some (as ! 1)\<rparr>) h (rotate1 as) (rotate1 xss) (t - 1)"
    unfolding rw_base_def
    using ring_rotate1 [OF d(1)] la d(4,5,9,10,11,12) t(1) nta [OF lt] hd' 1 2 3
    by (intro conjI) auto
  show "concat (rotate1 xss) = concat xss" using xss xs by simp
  show "rotate1 as ! 0 = as ! 1" using nta [of 0] ne by simp
qed

lemma TakeFront_ready:
  assumes inv: "rw_base e q h as xss t" and r: "ready h (as ! 0)"
  shows "\<exists>x h2 xss'. TakeFront (as ! 0) h = Some (x, h2) \<and> rw_base e q h2 as xss' t
    \<and> concat xss = x # concat xss' \<and> RWQuota h2 = RWQuota h \<and> cap h2 = cap h
    \<and> dom (RWBlocks h2) = dom (RWBlocks h)"
proof -
  note d = rw_baseD [OF inv]
  have l: "0 < length as" using d(15) by simp
  obtain b m f where b: "RWBlocks h (as ! 0) = Some b" "rwb m b f (xss ! 0)" by (rule rw_block [OF d(2) l])
  have ne: "Front b \<noteq> LocalTail b" using r b(1) by (simp add: ready_def)
  obtain x ys dd where x: "xss ! 0 = x # ys" "read_at (Data b) (unat (Front b)) = Some x"
    "destroy_at (Data b) (unat (Front b)) = Some dd"
    "rwb m (b\<lparr>Data := dd, Front := (Front b + 1) AND SizeMask b\<rparr>) (Suc f) ys"
    using rwb_take [OF b(2) ne] by blast
  let ?b = "b\<lparr>Data := dd, Front := (Front b + 1) AND SizeMask b\<rparr>"
  have "TakeFront (as ! 0) h = Some (x, rput (as ! 0) ?b h)"
    using b(1) x(2,3) by (simp add: TakeFront_def)
  moreover have "rw_base e q (rput (as ! 0) ?b h) as (xss[0 := ys]) t"
    by (rule rw_base_rput [OF inv l b(1) _ _ x(4)]) (simp_all add: d)
  moreover have "concat xss = x # concat (xss[0 := ys])" using x(1) d(13) l by (cases xss) auto
  moreover have "cap (rput (as ! 0) ?b h) = cap h" by (rule rput_same(2) [OF b(1)]) simp
  ultimately show ?thesis using rput_dom [OF b(1)]
    by (intro exI [of _ x] exI [of _ "rput (as ! 0) ?b h"] exI [of _ "xss[0 := ys]"]) (simp del: rput_simps(1))
qed

text \<open>\<open>same_ring\<close>: the same blocks, of the same sizes, perhaps in another rotation.\<close>

definition same_ring :: "'a rwheap \<Rightarrow> addr list \<Rightarrow> 'a rwheap \<Rightarrow> addr list \<Rightarrow> bool" where
  "same_ring h as h' as' \<longleftrightarrow> set as' = set as \<and> length as' = length as \<and> cap h' = cap h
     \<and> dom (RWBlocks h') = dom (RWBlocks h)"

lemma take_found:
  assumes "found e q h as xss t w h1"
  shows "case w of None \<Rightarrow> concat xss = [] \<and> rw_base e q h1 as xss t
    | Some (a, moved) \<Rightarrow> \<exists>x h2 as' xss' t'. TakeFront a h1 = Some (x, h2)
        \<and> rw_base e (if moved then q\<lparr>FrontBlock := Some a\<rparr> else q) h2 as' xss' t'
        \<and> concat xss = x # concat xss' \<and> RWQuota h2 = RWQuota h \<and> same_ring h as h2 as'"
proof -
  have f: "rw_base e q h1 as xss t" "RWQuota h1 = RWQuota h" "cap h1 = cap h"
    "dom (RWBlocks h1) = dom (RWBlocks h)"
    "w = None \<and> concat xss = [] \<or> w = Some (as ! 0, False) \<and> xss ! 0 \<noteq> [] \<and> ready h1 (as ! 0)
     \<or> w = Some (as ! 1, True) \<and> xss ! 0 = [] \<and> 0 < t \<and> ready h1 (as ! 1)"
    using assms by (simp_all add: found_def)
  from f(5) show ?thesis
  proof (elim disjE conjE)
    assume "w = None" "concat xss = []"
    then show ?thesis using f(1) by simp
  next
    assume w: "w = Some (as ! 0, False)" "ready h1 (as ! 0)"
    from TakeFront_ready [OF f(1) w(2)] show ?thesis
      using w(1) f(2,3,4) by (fastforce simp: same_ring_def)
  next
    assume w: "w = Some (as ! 1, True)" "xss ! 0 = []" "0 < t" "ready h1 (as ! 1)"
    note rot = rw_base_rotate [OF f(1) w(3,2)]
    have "ready h1 (rotate1 as ! 0)" using w(4) rot(3) by simp
    from TakeFront_ready [OF rot(1) this] obtain x h2 xss' where
      "TakeFront (as ! 1) h1 = Some (x, h2)" "rw_base e (q\<lparr>FrontBlock := Some (as ! 1)\<rparr>) h2 (rotate1 as) xss' (t - 1)"
      "concat xss = x # concat xss'" "RWQuota h2 = RWQuota h" "cap h2 = cap h" "dom (RWBlocks h2) = dom (RWBlocks h)"
      using rot(2,3) f(2,3,4) by auto
    then show ?thesis using w(1) by (fastforce simp: same_ring_def)
  qed
qed

section \<open>The producer\<close>

lemma concat_put: "t < length xss \<Longrightarrow> (\<And>i. t < i \<Longrightarrow> i < length xss \<Longrightarrow> xss ! i = [])
  \<Longrightarrow> concat (xss[t := xss ! t @ [v]]) = concat xss @ [v]"
proof -
  assume a: "t < length xss" "\<And>i. t < i \<Longrightarrow> i < length xss \<Longrightarrow> xss ! i = []"
  have "\<forall>x \<in> set (drop (Suc t) xss). x = []" using a by (auto simp: in_set_conv_nth)
  then have e: "concat (drop (Suc t) xss) = []" by simp
  have s: "xss = take t xss @ xss ! t # drop (Suc t) xss" using a(1) by (rule id_take_nth_drop)
  have "concat (xss[t := xss ! t @ [v]]) = concat (take t xss) @ (xss ! t @ [v]) @ concat (drop (Suc t) xss)"
    using a(1) by (simp add: upd_conv_take_nth_drop)
  moreover have "concat xss = concat (take t xss) @ xss ! t @ concat (drop (Suc t) xss)"
    by (subst s) simp
  ultimately show ?thesis using e by simp
qed

text \<open>Putting an element into block \<open>k\<close>, the producer's or the one after it.\<close>

lemma PutTail_put:
  assumes inv: "rw_base e q h as xss t" and k: "k < length as" "RWBlocks h (as ! k) = Some b" "rwb m b f (xss ! k)"
    and room: "(Tail b + 1) AND SizeMask b \<noteq> LocalFront b"
    and kt: "k = t \<or> k = Suc t \<and> (0 < t \<longrightarrow> length (xss ! t) = cap h (as ! t))"
    and q': "FrontBlock q' = FrontBlock q" "RWTailBlock q' = Some (as ! k)" "BlockSize q' = BlockSize q"
  shows "\<exists>h2 xss'. PutTail (as ! k) v h = Some h2 \<and> rw_base e q' h2 as xss' k
    \<and> concat xss' = concat xss @ [v] \<and> RWQuota h2 = RWQuota h \<and> cap h2 = cap h
    \<and> dom (RWBlocks h2) = dom (RWBlocks h)"
proof -
  note d = rw_baseD [OF inv]
  obtain dd where dd: "construct_at (Data b) (unat (Tail b)) v = Some dd"
    "rwb m (b\<lparr>Data := dd, Tail := (Tail b + 1) AND SizeMask b\<rparr>) f (xss ! k @ [v])"
    using rwb_put [OF k(3) room] by blast
  let ?b = "b\<lparr>Data := dd, Tail := (Tail b + 1) AND SizeMask b\<rparr>"
  have "PutTail (as ! k) v h = Some (rput (as ! k) ?b h)" using k(2) dd(1) by (simp add: PutTail_def)
  moreover have "rw_base e q' (rput (as ! k) ?b h) as (xss[k := xss ! k @ [v]]) k"
    by (rule rw_base_rput [OF inv k(1,2) _ _ dd(2) q' k(1)])
      (use k(1) kt d(6,7,8,13) in \<open>auto simp: nth_list_update le_Suc_eq less_Suc_eq\<close>)
  moreover have "concat (xss[k := xss ! k @ [v]]) = concat xss @ [v]"
    by (rule concat_put) (use k(1) kt d(6,13) in auto)
  moreover have "cap (rput (as ! k) ?b h) = cap h" by (rule rput_same(2) [OF k(2)]) simp
  ultimately show ?thesis using rput_dom [OF k(2)]
    by (intro exI [of _ "rput (as ! k) ?b h"] exI [of _ "xss[k := xss ! k @ [v]]"]) (simp del: rput_simps(1))
qed

text \<open>A new block after the last, when the producer is at the last.\<close>

lemma rw_base_link:
  assumes inv: "rw_base e q h as xss t" and last: "Suc t = length as"
    and b: "RWBlocks h (as ! t) = Some b" "rwb m b f (xss ! t)" "Suc (length (xss ! t)) = 2 ^ m"
    and new: "RWBlocks h n = None" "rwb m' nb 0 ys" "RWNext nb = RWNext b" "ys \<noteq> []"
    and h': "RWBlocks h' = (RWBlocks h)(n \<mapsto> nb, as ! t \<mapsto> b\<lparr>RWNext := Some n\<rparr>)" "RWBrk h \<le> n" "n < RWBrk h'" "RWBrk h \<le> RWBrk h'"
    and q': "FrontBlock q' = FrontBlock q" "RWTailBlock q' = Some n" "\<exists>s \<le> e. BlockSize q' = 2 ^ s"
  shows "rw_base e q' h' (as @ [n]) (xss @ [ys]) (Suc t)"
proof -
  note d = rw_baseD [OF inv]
  have n: "n \<notin> set as" using rw_live [OF d(2,9)] new(1) by force
  have lst: "last as = as ! t" using last d(15) by (simp add: last_conv_nth flip: last)
  have tl: "as ! t \<noteq> n" using n d(4) by auto
  have ca: "cap h' a = cap h a" if "a \<noteq> n" for a using that b(1) h'(1) by (simp add: cap_def)
  have hd: "RWNext b = Some (hd as)" using ring_last [OF d(1)] b(1) lst by (simp add: rw_next_def)
  have r: "ring (rw_next h') (as @ [n])"
    by (rule ring_link [OF d(1) n]) (use h'(1) tl hd new(3) lst n in \<open>auto simp: rw_next_def\<close>)
  have l: "list_all2 (holds h') as xss"
  proof (rule list_all2_all_nthI [OF d(13) [symmetric]])
    fix i assume i: "i < length as"
    have "as ! i \<noteq> n" using i n by auto
    then show "holds h' (as ! i) (xss ! i)"
      using list_all2_nthD [OF d(2) i] h'(1) b(1,2) i d(14,4)
      by (cases "i = t") (auto simp: holds_def nth_eq_iff_index_eq)
  qed
  have n': "holds h' n ys" using h'(1) new(2) tl by (auto simp: holds_def)
  have full: "length (xss ! t) = cap h (as ! t)" using cap_rwb [OF b(1,2)] b(3) by simp
  have ne: "as ! i \<noteq> n" if "i < length as" for i using that n by auto
  have 1: "\<forall>i. 0 < i \<and> i < Suc t \<longrightarrow> length ((xss @ [ys]) ! i) = cap h' ((as @ [n]) ! i)"
    using d(4,8,13) full ca ne by (auto simp: nth_append less_Suc_eq)
  have 2: "\<forall>a \<ge> RWBrk h'. RWBlocks h' a = None"
  proof (intro allI impI)
    fix a assume "RWBrk h' \<le> a"
    then have "a \<noteq> n" "RWBlocks h a = None" using h'(3,4) d(9) by auto
    moreover from this have "a \<noteq> as ! t" using b(1) by auto
    ultimately show "RWBlocks h' a = None" using h'(1) by simp
  qed
  show "rw_base e q' h' (as @ [n]) (xss @ [ys]) (Suc t)"
    unfolding rw_base_def
    using r l n' q' d(3,7,11,12,13,15) last new(4) 1 2
    by (intro conjI) (auto simp: list_all2_appendI nth_append hd_append)
qed

text \<open>A block outside the ring: the one lost when the constructor throws.\<close>

lemma rw_base_extra:
  assumes inv: "rw_base e q h as xss t"
    and h': "RWBlocks h' = (RWBlocks h)(RWBrk h \<mapsto> nb)" "RWBrk h' = RWBrk h + 1"
    and q': "FrontBlock q' = FrontBlock q" "RWTailBlock q' = RWTailBlock q" "\<exists>s \<le> e. BlockSize q' = 2 ^ s"
  shows "rw_base e q' h' as xss t"
proof -
  note d = rw_baseD [OF inv]
  have old: "RWBlocks h' a = RWBlocks h a" if "a \<in> set as" for a
    using rw_live [OF d(2,9) that] h'(1) by auto
  have r: "ring (rw_next h') as" using d(1) ring_cong [of as "rw_next h" "rw_next h'"] old by (simp add: rw_next_def)
  have l: "list_all2 (holds h') as xss"
    using list_all2_nthD [OF d(2)] old d(13) by (intro list_all2_all_nthI) (simp_all add: holds_def)
  have c: "cap h' (as ! i) = cap h (as ! i)" if "i < length as" for i using old that by (simp add: cap_def)
  have full: "\<forall>i. 0 < i \<and> i < t \<longrightarrow> length (xss ! i) = cap h' (as ! i)" using d(4,8) c by auto
  show ?thesis
    unfolding rw_base_def using r l full d(3-7,9,11,12) q' h' by (intro conjI) auto
qed

text \<open>The size of the next block: doubled up to \<^verbatim>\<open>EXPECTED_BLOCK_SIZE\<close>, at least two slots.\<close>

definition grown :: "size_t \<Rightarrow> size_t \<Rightarrow> size_t" where
  "grown EXP Size = (if Size < EXP then (if Size * 2 > EXP then EXP else Size * 2) else Size)"

lemma grown_pow2:
  assumes "s \<le> e" "1 \<le> e" "e < 64"
  shows "\<exists>s'. 1 \<le> s' \<and> s' \<le> e \<and> grown (2 ^ e) (2 ^ s) = 2 ^ s'"
proof (cases "s = e")
  case True
  then show ?thesis using assms by (intro exI [of _ e]) (simp add: grown_def)
next
  case False
  have less: "(2 :: size_t) ^ i < 2 ^ j \<longleftrightarrow> i < j" if "i < 64" "j < 64" for i j
    using that unat_pow2 [of i, where 'w = 64] unat_pow2 [of j, where 'w = 64] by (simp add: word_less_nat_alt)
  have s2: "(2 :: size_t) ^ s * 2 = 2 ^ Suc s" by simp
  have "grown (2 ^ e) (2 ^ s) = 2 ^ Suc s"
    using False assms less [of s e] less [of e "Suc s"] unfolding grown_def s2 by auto
  then show ?thesis using False assms by (intro exI [of _ "Suc s"]) simp
qed

definition enq_outcome :: "RWAllocMode \<Rightarrow> 'a option \<Rightarrow> enq_result \<Rightarrow> 'a rwheap \<Rightarrow> addr list \<Rightarrow> 'a list list \<Rightarrow> 'a list \<Rightarrow> bool" where
  "enq_outcome mode arg r h as xss ys \<longleftrightarrow> (case r of
      Returned True \<Rightarrow> \<exists>v. arg = Some v \<and> ys = concat xss @ [v]
    | Returned False \<Rightarrow> ys = concat xss \<and> mode = RWAllocMode.CannotAlloc
        \<and> (\<forall>i < length as. 0 < i \<or> length as = 1 \<longrightarrow> length (xss ! i) = cap h (as ! i))
    | Threw \<Rightarrow> ys = concat xss \<and> arg = None
    | Terminated \<Rightarrow> False)"

lemma EnqueueNewBlock_spec:
  assumes inv: "rw_base e q h as xss t" and last: "Suc t = length as" and mem: "0 < RWQuota h"
    and b: "RWBlocks h (as ! t) = Some b" "rwb m b f (xss ! t)" "Suc (length (xss ! t)) = 2 ^ m"
  shows "\<exists>r q' h' as' xss' t'. EnqueueNewBlock (2 ^ e) arg (as ! t) q h = Some (r, q', h')
    \<and> rw_base e q' h' as' xss' t' \<and> EnqueueStatus q' = EnqueueStatus q \<and> DequeueStatus q' = DequeueStatus q
    \<and> RWQuota h \<le> RWQuota h' + 1 \<and> enq_outcome RWAllocMode.CanAlloc arg r h as xss (concat xss')
    \<and> (arg \<noteq> None \<longrightarrow> dom (RWBlocks h') - set as' = dom (RWBlocks h) - set as)
    \<and> dom (RWBlocks h) - set as \<subseteq> dom (RWBlocks h') - set as'"
proof -
  note d = rw_baseD [OF inv]
  obtain s where s: "s \<le> e" "BlockSize q = 2 ^ s" using d(10) by blast
  obtain s' where s': "1 \<le> s'" "s' \<le> e" "grown (2 ^ e) (2 ^ s) = (2 ^ s' :: size_t)"
    using grown_pow2 [OF s(1) d(11,12)] by blast
  let ?q = "q\<lparr>BlockSize := 2 ^ s'\<rparr>" and ?n = "RWBrk h" and ?nb = "new_rwblock (2 ^ s') :: 'a rwblock"
  let ?h1 = "h\<lparr>RWBlocks := (RWBlocks h)(?n \<mapsto> ?nb), RWBrk := ?n + 1, RWQuota := RWQuota h - 1\<rparr>"
  have g: "(let Size = BlockSize q; Size = (if Size < 2 ^ e then (if Size * 2 > 2 ^ e then 2 ^ e else Size * 2) else Size)
      in P Size) = P (2 ^ s')" for P :: "size_t \<Rightarrow> ((enq_result \<times> rwq \<times> 'a rwheap) option)"
    using s(2) s'(3) by (simp add: grown_def Let_def)
  have m: "MakeBlock (2 ^ s') h = Made (?n, ?h1)" using mem by (simp add: MakeBlock_def)
  have fresh: "RWBlocks h ?n = None" using d(9) by simp
  have tn: "as ! t \<noteq> ?n" using fresh b(1) by auto
  show ?thesis
  proof (cases arg)
    case None
    have "rw_base e ?q ?h1 as xss t" by (rule rw_base_extra [OF inv]) (use s'(2) in auto)
    moreover have "EnqueueNewBlock (2 ^ e) arg (as ! t) q h = Some (Threw, ?q, ?h1)"
      unfolding EnqueueNewBlock_def g m None by simp
    ultimately show ?thesis using None mem
      by (intro exI [of _ Threw] exI [of _ ?q] exI [of _ ?h1] exI [of _ as] exI [of _ xss] exI [of _ t])
        (auto simp: enq_outcome_def)
  next
    case (Some v)
    have s64: "s' < 64" using s'(2) d(12) by simp
    have rn: "rwb s' ?nb 0 []" by (rule rwb_new [OF s'(1) s64])
    let ?d = "(Data ?nb)[0 := Some v]"
    let ?nb2 = "?nb\<lparr>Data := ?d, Tail := 1, LocalTail := 1, RWNext := RWNext b\<rparr>"
    have sz: "unat (2 ^ s' :: size_t) = 2 ^ s'" using s64 by (intro unat_pow2) simp
    have c: "construct_at (Data ?nb) 0 v = Some ?d"
      by (rule construct_at_ok) (simp_all add: new_rwblock_def sz)
    have r2: "rwb s' ?nb2 0 [v]"
    proof -
      have p: "(1::nat) < 2 ^ s'" using s'(1) by (metis one_less_power one_less_numeral_iff semiring_norm(76) Suc_le_lessD One_nat_def)
      then have q: "(1::nat) mod 2 ^ s' = 1" by (rule mod_less)
      then show ?thesis
        using p q s64 sz s'(1)
        by (auto simp del: one_less_power simp: rwb_def new_rwblock_def nth_Cons' intro!: exI [of _ "0 :: nat"] exI [of _ "1 :: nat"])
    qed
    let ?h3 = "rput (as ! t) (b\<lparr>RWNext := Some ?n\<rparr>) (rput ?n ?nb2 ?h1)"
    have run: "EnqueueNewBlock (2 ^ e) arg (as ! t) q h = Some (Returned True, ?q\<lparr>RWTailBlock := Some ?n\<rparr>, ?h3)"
      unfolding EnqueueNewBlock_def g m Some using c b(1) tn
      by (simp add: set_next_def) (simp add: new_rwblock_def)
    have "rw_base e (?q\<lparr>RWTailBlock := Some ?n\<rparr>) ?h3 (as @ [?n]) (xss @ [[v]]) (Suc t)"
      by (rule rw_base_link [OF inv last b fresh r2]) (use tn s'(2) in \<open>auto simp: fun_upd_twist\<close>)
    moreover have "dom (RWBlocks ?h3) - set (as @ [?n]) = dom (RWBlocks h) - set as"
      using fresh b(1) by auto
    moreover from this have "dom (RWBlocks h) - set as \<subseteq> dom (RWBlocks ?h3) - set (as @ [?n])" by (simp only: subset_refl)
    ultimately show ?thesis using run Some mem
      by (intro exI [of _ "Returned True"] exI [of _ "?q\<lparr>RWTailBlock := Some ?n\<rparr>"] exI [of _ ?h3]
        exI [of _ "as @ [?n]"] exI [of _ "xss @ [[v]]"] exI [of _ "Suc t"]) (simp add: enq_outcome_def)
  qed
qed

lemma InnerEnqueue_spec:
  assumes inv: "rw_base e q h as xss t" and st: "\<not> EnqueueStatus q"
    and mem: "mode = RWAllocMode.CanAlloc \<Longrightarrow> 0 < RWQuota h"
  shows "\<exists>r q' h' as' xss' t'. RWQueue_InnerEnqueue (2 ^ e) mode arg q h = Some (r, q', h')
    \<and> rw_base e q' h' as' xss' t' \<and> \<not> EnqueueStatus q' \<and> DequeueStatus q' = DequeueStatus q
    \<and> RWQuota h \<le> RWQuota h' + 1 \<and> enq_outcome mode arg r h as xss (concat xss')
    \<and> (mode = RWAllocMode.CannotAlloc \<longrightarrow> as' = as \<and> cap h' = cap h)
    \<and> (arg \<noteq> None \<longrightarrow> dom (RWBlocks h') - set as' = dom (RWBlocks h) - set as)
    \<and> dom (RWBlocks h) - set as \<subseteq> dom (RWBlocks h') - set as'"
proof -
  note d = rw_baseD [OF inv]
  obtain b m f where b: "RWBlocks h (as ! t) = Some b" "rwb m b f (xss ! t)" by (rule rw_block [OF d(2,4)])
  let ?q = "q\<lparr>EnqueueStatus := True\<rparr>"
  let ?nt = "(Tail b + 1) AND SizeMask b"
  define b1 where "b1 = (if ?nt \<noteq> LocalFront b then b else b\<lparr>LocalFront := Front b\<rparr>)"
  let ?h1 = "rput (as ! t) b1 h"
  have b1: "rwb m b1 f (xss ! t)" "RWNext b1 = RWNext b" "SizeMask b1 = SizeMask b" "Tail b1 = Tail b" "Front b1 = Front b"
    using b(2) rwb_refresh_front by (auto simp: b1_def)
  have inv1: "rw_base e ?q ?h1 as xss t" using rw_base_refresh [OF inv d(4) b(1) b1(2,3,1)] by simp
  have c1: "cap ?h1 = cap h" by (rule rput_same(2) [OF b(1) b1(3)])
  have blk: "RWBlocks ?h1 (as ! t) = Some b1" by simp
  have dm: "dom (RWBlocks ?h1) = dom (RWBlocks h)" by (rule rput_dom [OF b(1)])
  have u: "RWQueue_InnerEnqueue (2 ^ e) mode arg q h =
    (if ?nt \<noteq> LocalFront b1 then
       (case arg of None \<Rightarrow> Some (Threw, EndEnqueue ?q, ?h1)
        | Some v \<Rightarrow> do { h2 \<leftarrow> PutTail (as ! t) v ?h1; Some (Returned True, EndEnqueue ?q, h2) })
     else if RWNext b1 \<noteq> FrontBlock ?q then do {
       (n, nb) \<leftarrow> rget ?h1 (RWNext b1);
       let nb1 = nb\<lparr>LocalFront := Front nb\<rparr>;
       if LocalFront nb1 \<noteq> Tail nb1 then None
       else (let h2 = rput n nb1 ?h1 in
         case arg of None \<Rightarrow> Some (Threw, EndEnqueue ?q, h2)
         | Some v \<Rightarrow> do {
             h3 \<leftarrow> PutTail n v h2;
             Some (Returned True, EndEnqueue (?q\<lparr>RWTailBlock := Some n\<rparr>), h3) }) }
     else if mode = RWAllocMode.CanAlloc then do {
       (r, q1, h2) \<leftarrow> EnqueueNewBlock (2 ^ e) arg (as ! t) ?q ?h1;
       Some (r, EndEnqueue q1, h2) }
     else Some (Returned False, EndEnqueue ?q, ?h1))"
    unfolding RWQueue_InnerEnqueue_def EnqueueGuard_def b1_def using st d(5) b(1)
    by (simp add: rget_def Let_def split del: if_split)
  have threw: "rw_base e (EndEnqueue ?q) h2 as xss t" if "rw_base e ?q h2 as xss t" for h2 :: "'a rwheap"
    using that by (simp add: EndEnqueue_def)
  show ?thesis
  proof (cases "?nt \<noteq> LocalFront b1")
    case True
    show ?thesis
    proof (cases arg)
      case None
      then show ?thesis using u True threw [OF inv1] c1 dm
        by (intro exI [of _ Threw] exI [of _ "EndEnqueue ?q"] exI [of _ ?h1] exI [of _ as] exI [of _ xss] exI [of _ t])
          (simp add: EndEnqueue_def enq_outcome_def)
    next
      case (Some v)
      have room: "(Tail b1 + 1) AND SizeMask b1 \<noteq> LocalFront b1" using True b1(3,4) by simp
      obtain h2 xss' where p: "PutTail (as ! t) v ?h1 = Some h2" "rw_base e ?q h2 as xss' t"
        "concat xss' = concat xss @ [v]" "RWQuota h2 = RWQuota ?h1" "cap h2 = cap ?h1" "dom (RWBlocks h2) = dom (RWBlocks ?h1)"
        using PutTail_put [OF inv1 d(4) blk b1(1) room, of ?q v] d(5) by (auto simp del: rw_base_fields)
      then show ?thesis using u True Some c1 dm
        by (intro exI [of _ "Returned True"] exI [of _ "EndEnqueue ?q"] exI [of _ h2] exI [of _ as] exI [of _ xss'] exI [of _ t])
          (simp add: EndEnqueue_def enq_outcome_def)
    qed
  next
    case full: False
    then have "?nt = Front b1" using b1(5) by (auto simp: b1_def split: if_splits)
    then have fl: "Suc (length (xss ! t)) = 2 ^ m" using rwb_full_iff [OF b1(1)] b1(3,4,5) by simp
    then have capt: "length (xss ! t) = cap ?h1 (as ! t)" using cap_rwb [OF blk b1(1)] by simp
    have nx: "RWNext b1 = Some (as ! (Suc t mod length as))"
      using ring_nth [OF d(1,4)] b(1) b1(2) by (simp add: rw_next_def)
    have fb: "FrontBlock ?q = Some (as ! 0)" using d(3,15) by (simp add: hd_conv_nth)
    show ?thesis
    proof (cases "Suc t < length as")
      case True
      have "0 < length as" using d(15) by simp
      then have "as ! Suc t \<noteq> as ! 0" using nth_eq_iff_index_eq [OF d(14) True] by blast
      then have ne: "RWNext b1 \<noteq> FrontBlock ?q" using nx fb True by simp
      have l2: "list_all2 (holds ?h1) as xss" using inv1 by (rule rw_baseD)
      obtain nb m' f' where nb: "RWBlocks ?h1 (as ! Suc t) = Some nb" "rwb m' nb f' (xss ! Suc t)"
        by (rule rw_block [OF l2 True])
      have emp: "xss ! Suc t = []" using d(6) True by simp
      let ?nb = "nb\<lparr>LocalFront := Front nb\<rparr>"
      let ?h2 = "rput (as ! Suc t) ?nb ?h1"
      have r: "rwb m' ?nb f' (xss ! Suc t)" using rwb_refresh_front [OF nb(2)] .
      have ft: "Front nb = Tail nb" using rwb_empty_iff [OF nb(2)] emp by simp
      have inv2: "rw_base e ?q ?h2 as xss t" by (rule rw_base_refresh [OF inv1 True nb(1) _ _ r]) simp_all
      have dm2: "dom (RWBlocks ?h2) = dom (RWBlocks h)" using rput_dom [OF nb(1)] dm by (simp only:)
      have c2: "cap ?h2 = cap h" using rput_same(2) [OF nb(1), of ?nb] c1 by simp
      have u2: "RWQueue_InnerEnqueue (2 ^ e) mode arg q h =
         (case arg of None \<Rightarrow> Some (Threw, EndEnqueue ?q, ?h2)
          | Some v \<Rightarrow> do { h3 \<leftarrow> PutTail (as ! Suc t) v ?h2;
              Some (Returned True, EndEnqueue (?q\<lparr>RWTailBlock := Some (as ! Suc t)\<rparr>), h3) })"
        using u full ne nx True nb(1) ft [symmetric] by (simp add: rget_def Let_def del: rput_simps fun_upd_apply)
      show ?thesis
      proof (cases arg)
        case None
        then show ?thesis using u2 threw [OF inv2] c2 dm2
          by (intro exI [of _ Threw] exI [of _ "EndEnqueue ?q"] exI [of _ ?h2] exI [of _ as] exI [of _ xss] exI [of _ t])
            (simp add: EndEnqueue_def enq_outcome_def)
      next
        case (Some v)
        let ?q2 = "?q\<lparr>RWTailBlock := Some (as ! Suc t)\<rparr>"
        have blk2: "RWBlocks ?h2 (as ! Suc t) = Some ?nb" by simp
        have "Suc 0 \<noteq> 2 ^ m'" using rwbD(10) [OF nb(2)] one_less_power [of "2 :: nat" m'] by simp
        then have room: "(Tail ?nb + 1) AND SizeMask ?nb \<noteq> LocalFront ?nb"
          using rwb_full_iff [OF nb(2)] emp by auto
        obtain h3 xss' where p: "PutTail (as ! Suc t) v ?h2 = Some h3" "rw_base e ?q2 h3 as xss' (Suc t)"
          "concat xss' = concat xss @ [v]" "RWQuota h3 = RWQuota ?h2" "cap h3 = cap ?h2" "dom (RWBlocks h3) = dom (RWBlocks ?h2)"
          using PutTail_put [OF inv2 True blk2 r room, of ?q2 v] capt c1 c2 by (auto simp del: rw_base_fields)
        have "rw_base e (EndEnqueue ?q2) h3 as xss' (Suc t)"
          using p(2) by (simp only: EndEnqueue_def rw_base_fields)
        then show ?thesis using u2 Some c2 p dm2
          by (intro exI [of _ "Returned True"] exI [of _ "EndEnqueue ?q2"] exI [of _ h3] exI [of _ as] exI [of _ xss'] exI [of _ "Suc t"])
            (simp add: EndEnqueue_def enq_outcome_def)
      qed
    next
      case False
      then have last: "Suc t = length as" using d(4) by simp
      then have eq: "RWNext b1 = FrontBlock ?q" using nx fb by simp
      show ?thesis
      proof (cases mode)
        case CanAlloc
        have q0: "0 < RWQuota ?h1" using mem CanAlloc by simp
        from EnqueueNewBlock_spec [OF inv1 last q0 blk b1(1) fl, of arg] obtain r q' h' as' xss' t' where
          n: "EnqueueNewBlock (2 ^ e) arg (as ! t) ?q ?h1 = Some (r, q', h')" "rw_base e q' h' as' xss' t'"
          "DequeueStatus q' = DequeueStatus ?q" "RWQuota ?h1 \<le> RWQuota h' + 1"
          "enq_outcome RWAllocMode.CanAlloc arg r ?h1 as xss (concat xss')"
          "arg \<noteq> None \<longrightarrow> dom (RWBlocks h') - set as' = dom (RWBlocks ?h1) - set as"
          "dom (RWBlocks ?h1) - set as \<subseteq> dom (RWBlocks h') - set as'" by blast
        have "arg \<noteq> None \<longrightarrow> dom (RWBlocks h') - set as' = dom (RWBlocks h) - set as" using n(6) dm by (simp only:)
        moreover have "dom (RWBlocks h) - set as \<subseteq> dom (RWBlocks h') - set as'" using n(7) dm by (simp only:)
        moreover have "enq_outcome mode arg r h as xss (concat xss')" using n(5) unfolding enq_outcome_def c1 CanAlloc .
        ultimately show ?thesis using n(1-4) u full eq CanAlloc
          by (intro exI [of _ r] exI [of _ "EndEnqueue q'"] exI [of _ h'] exI [of _ as'] exI [of _ xss'] exI [of _ t'])
            (simp add: EndEnqueue_def)
      next
        case CannotAlloc
        have all: "length (xss ! i) = cap h (as ! i)" if "i < length as" "0 < i \<or> length as = 1" for i
        proof (cases "i = t")
          case True
          then show ?thesis using capt c1 by simp
        next
          case False
          then show ?thesis using d(8) [of i] that last by auto
        qed
        then show ?thesis using u full eq CannotAlloc threw [OF inv1] c1 dm
          by (intro exI [of _ "Returned False"] exI [of _ "EndEnqueue ?q"] exI [of _ ?h1] exI [of _ as] exI [of _ xss] exI [of _ t])
            (simp add: EndEnqueue_def enq_outcome_def)
      qed
    qed
  qed
qed

end
