(* ===== verification/Spsc_Queue_Properties.thy ===== *)
theory Spsc_Queue_Properties
  imports Spsc_Queue_Correct
begin

text \<open>
  What the invariant of \<^verbatim>\<open>Spsc_Queue_Correct\<close> gives for \<^verbatim>\<open>ReaderWriterQueue\<close>, stated over the list of values
  the queue holds, from its construction to its destruction.
\<close>

section \<open>Construction\<close>

text \<open>A ring of empty blocks of \<open>2 ^ m\<close> slots.\<close>

definition empty_ring :: "nat \<Rightarrow> 'a rwheap \<Rightarrow> addr list \<Rightarrow> bool" where
  "empty_ring m h as \<longleftrightarrow> ring (rw_next h) as
     \<and> (\<forall>a \<in> set as. \<exists>b. RWBlocks h a = Some b \<and> rwb m b 0 [])
     \<and> (\<forall>a \<ge> RWBrk h. RWBlocks h a = None)"

lemma RW_CeilToPow2_eq: "RW_CeilToPow2 = CeilToPow2"
proof
  fix X :: size_t
  have "\<forall>i \<in> set [1..<8]. unat (push_bit 3 (of_nat i :: size_t)) = 8 * i" by code_simp
  then have "fold (\<lambda>i X. X OR drop_bit (unat (push_bit 3 (of_nat i :: size_t))) X) [1..<8]
    = (fold (\<lambda>i X. X OR drop_bit (8 * i) X) [1..<8] :: size_t \<Rightarrow> size_t)"
    by (intro ext fold_cong refl) auto
  then show "RW_CeilToPow2 X = CeilToPow2 X" by (simp only: RW_CeilToPow2_def CeilToPow2_def Let_def)
qed

text \<open>One more block at the end of the ring.\<close>

lemma MakeRing_step:
  fixes h :: "'a rwheap"
  assumes r: "empty_ring m h as" and m: "1 \<le> m" "m < 64" and mem: "0 < RWQuota h"
  shows "\<exists>n h3. MakeRing (Suc k) (2 ^ m) (Some (hd as)) (Some (last as)) h = MakeRing k (2 ^ m) (Some (hd as)) (Some n) h3
    \<and> empty_ring m h3 (as @ [n]) \<and> RWQuota h = RWQuota h3 + 1
    \<and> (\<forall>a. a \<notin> set (as @ [n]) \<longrightarrow> RWBlocks h3 a = RWBlocks h a) \<and> RWBrk h \<le> n \<and> RWBrk h \<le> RWBrk h3"
proof -
  let ?n = "RWBrk h"
  let ?h1 = "h\<lparr>RWBlocks := (RWBlocks h)(?n \<mapsto> new_rwblock (2 ^ m)), RWBrk := ?n + 1, RWQuota := RWQuota h - 1\<rparr>"
  have rg: "ring (rw_next h) as" and fresh: "\<forall>a \<ge> RWBrk h. RWBlocks h a = None"
    and blk: "\<forall>a \<in> set as. \<exists>b. RWBlocks h a = Some b \<and> rwb m b 0 []"
    using r by (simp_all add: empty_ring_def)
  have ne: "as \<noteq> []" using rg by (rule ring_nonempty)
  have n: "?n \<notin> set as" using blk fresh by force
  obtain lb where lb: "RWBlocks h (last as) = Some lb" "rwb m lb 0 []" using blk last_in_set [OF ne] by blast
  have ln: "last as \<noteq> ?n" using n last_in_set [OF ne] by metis
  let ?nb = "(new_rwblock (2 ^ m) :: 'a rwblock)\<lparr>RWNext := Some (hd as)\<rparr>"
  let ?h3 = "rput ?n ?nb (rput (last as) (lb\<lparr>RWNext := Some ?n\<rparr>) ?h1)"
  have mk: "MakeBlock (2 ^ m) h = Made (?n, ?h1)" using mem by (simp add: MakeBlock_def)
  have eq: "MakeRing (Suc k) (2 ^ m) (Some (hd as)) (Some (last as)) h = MakeRing k (2 ^ m) (Some (hd as)) (Some ?n) ?h3"
    using mk lb(1) ln by (simp add: set_next_def)
  have "ring (rw_next ?h3) (as @ [?n])"
    by (rule ring_link [OF rg n]) (use ln n in \<open>auto simp: rw_next_def\<close>)
  moreover have "\<forall>a \<in> set (as @ [?n]). \<exists>b. RWBlocks ?h3 a = Some b \<and> rwb m b 0 []"
    using blk lb(2) n rwb_new [OF m] by auto
  moreover have "\<forall>a \<ge> RWBrk ?h3. RWBlocks ?h3 a = None" using fresh lb(1) by force
  ultimately have "empty_ring m ?h3 (as @ [?n])" by (simp only: empty_ring_def)
  moreover have "RWBlocks ?h3 a = RWBlocks h a" if "a \<notin> set (as @ [?n])" for a
    using that ne by auto
  ultimately show ?thesis using eq mem by (intro exI [of _ ?n] exI [of _ ?h3]) simp
qed

lemma MakeRing_grow:
  assumes "empty_ring m h as" "1 \<le> m" "m < 64" "k \<le> RWQuota h"
  shows "\<exists>as' h'. MakeRing k (2 ^ m) (Some (hd as)) (Some (last as)) h = Some (Made (Some (hd as), h'))
    \<and> empty_ring m h' (as @ as') \<and> length as' = k \<and> RWQuota h = RWQuota h' + k
    \<and> (\<forall>a. a \<notin> set (as @ as') \<longrightarrow> RWBlocks h' a = RWBlocks h a) \<and> (\<forall>a \<in> set as'. RWBrk h \<le> a)"
  using assms(1,4)
proof (induction k arbitrary: as h)
  case 0
  then show ?case by (intro exI [of _ "[]"] exI [of _ h]) simp
next
  case (Suc k)
  obtain n h3 where s: "MakeRing (Suc k) (2 ^ m) (Some (hd as)) (Some (last as)) h = MakeRing k (2 ^ m) (Some (hd as)) (Some n) h3"
    "empty_ring m h3 (as @ [n])" "RWQuota h = RWQuota h3 + 1"
    "\<forall>a. a \<notin> set (as @ [n]) \<longrightarrow> RWBlocks h3 a = RWBlocks h a" "RWBrk h \<le> n" "RWBrk h \<le> RWBrk h3"
    using MakeRing_step [OF Suc.prems(1) assms(2,3), of k] Suc.prems(2) by auto
  have ne: "as \<noteq> []" using Suc.prems(1) by (auto simp: empty_ring_def dest: ring_nonempty)
  have "k \<le> RWQuota h3" using s(3) Suc.prems(2) by simp
  from Suc.IH [OF s(2) this] obtain as' h' where
    "MakeRing k (2 ^ m) (Some (hd as)) (Some n) h3 = Some (Made (Some (hd as), h'))"
    "empty_ring m h' ((as @ [n]) @ as')" "length as' = k" "RWQuota h3 = RWQuota h' + k"
    "\<forall>a. a \<notin> set ((as @ [n]) @ as') \<longrightarrow> RWBlocks h' a = RWBlocks h3 a" "\<forall>a \<in> set as'. RWBrk h3 \<le> a"
    using ne by (auto simp: hd_append)
  then show ?case using s by (intro exI [of _ "n # as'"] exI [of _ h']) (auto intro: order_trans)
qed

text \<open>The first block of an empty heap, and so the whole ring.\<close>

lemma MakeRing_ok:
  fixes h :: "'a rwheap"
  assumes fresh: "\<forall>a \<ge> RWBrk h. RWBlocks h a = None" and m: "1 \<le> m" "m < 64" and k: "0 < k" "k \<le> RWQuota h"
  shows "\<exists>as h'. MakeRing k (2 ^ m) None None h = Some (Made (Some (hd as), h')) \<and> empty_ring m h' as
    \<and> length as = k \<and> RWQuota h = RWQuota h' + k \<and> (\<forall>a. a \<notin> set as \<longrightarrow> RWBlocks h' a = RWBlocks h a)
    \<and> (\<forall>a \<in> set as. RWBrk h \<le> a)"
proof -
  obtain j where j: "k = Suc j" using k(1) by (cases k) auto
  let ?n = "RWBrk h"
  let ?nb = "(new_rwblock (2 ^ m) :: 'a rwblock)\<lparr>RWNext := Some ?n\<rparr>"
  let ?h1 = "h\<lparr>RWBlocks := (RWBlocks h)(?n \<mapsto> new_rwblock (2 ^ m)), RWBrk := ?n + 1, RWQuota := RWQuota h - 1\<rparr>"
  let ?h = "rput ?n ?nb ?h1"
  have "MakeBlock (2 ^ m) h = Made (?n, ?h1)" using k j by (simp add: MakeBlock_def)
  then have eq: "MakeRing k (2 ^ m) None None h = MakeRing j (2 ^ m) (Some ?n) (Some ?n) ?h"
    unfolding j by (simp add: set_next_def)
  have "empty_ring m ?h [?n]"
    using rwb_new [OF m] fresh by (auto simp: empty_ring_def rw_next_def)
  moreover have "j \<le> RWQuota ?h" using k j by simp
  ultimately obtain as' h' where g: "MakeRing j (2 ^ m) (Some (hd [?n])) (Some (last [?n])) ?h = Some (Made (Some (hd [?n]), h'))"
    "empty_ring m h' ([?n] @ as')" "length as' = j" "RWQuota ?h = RWQuota h' + j"
    "\<forall>a. a \<notin> set ([?n] @ as') \<longrightarrow> RWBlocks h' a = RWBlocks ?h a" "\<forall>a \<in> set as'. RWBrk ?h \<le> a"
    using MakeRing_grow [of m ?h "[?n]" j] m by blast
  show ?thesis
    by (intro exI [of _ "?n # as'"] exI [of _ h']) (use g k j eq in auto)
qed

text \<open>The number of blocks a reservation asks for, and how many blocks of \<open>E\<close> slots that is.\<close>

lemma initial_count:
  fixes R E :: nat
  assumes "2 \<le> E"
  defines "N \<equiv> (R + 2 * E - 3) div (E - 1)"
  shows "R \<le> (N - 1) * (E - 1)" "0 < N" "N \<le> R + 1"
proof -
  obtain d where d: "E = Suc d" "1 \<le> d" using assms(1) by (cases E) auto
  have N: "N = (R + (2 * d - 1)) div d" unfolding N_def d(1) using d(2) by simp
  have "R + (2 * d - 1) < (N + 1) * d" unfolding N using d(2) dividend_less_div_times [of d "R + (2 * d - 1)"] by simp
  then have "R + d \<le> N * d" using d(2) by (simp add: add_mult_distrib)
  then show "R \<le> (N - 1) * (E - 1)" using d by (cases N) (simp_all add: d(1))
  have "d \<le> N * d" using \<open>R + d \<le> N * d\<close> by linarith
  then show "0 < N" using d(2) by (cases N) auto
  have "R + (2 * d - 1) < (R + 2) * d"
  proof -
    have "R \<le> R * d" "(R + 2) * d = R * d + 2 * d" using d(2) by (simp_all add: add_mult_distrib)
    then show ?thesis using d(2) by linarith
  qed
  then have "N < R + 2" unfolding N using d(2) by (simp add: less_mult_imp_div_less)
  then show "N \<le> R + 1" by simp
qed

text \<open>
  \<open>reserved R h as\<close>: blocks of one size, so many that \<open>R\<close> elements fit in all but the first of them (the
  consumer's may be almost used up), or in the only one.
\<close>

definition reserved :: "nat \<Rightarrow> 'a rwheap \<Rightarrow> addr list \<Rightarrow> bool" where
  "reserved R h as \<longleftrightarrow> (\<exists>c. (\<forall>a \<in> set as. cap h a = c) \<and> (R \<le> (length as - 1) * c \<or> length as = 1 \<and> R \<le> c))"

lemma pow2_less: "i < 64 \<Longrightarrow> j < 64 \<Longrightarrow> (2 :: size_t) ^ i < 2 ^ j \<longleftrightarrow> i < j"
  using unat_pow2 [of i, where 'w = 64] unat_pow2 [of j, where 'w = 64] by (simp add: word_less_nat_alt)

lemma CeilToPow2_pow2: "e < 64 \<Longrightarrow> CeilToPow2 (2 ^ e) = 2 ^ e"
proof -
  assume e: "e < 64"
  then have u: "unat (2 ^ e :: size_t) = 2 ^ e" by (intro unat_pow2) simp
  have "(2::nat) ^ e \<le> 2 ^ 63" using e by (intro power_increasing) auto
  then obtain n where "CeilToPow2 (2 ^ e) = 2 ^ n" "(2::nat) ^ e \<le> 2 ^ n" "n \<le> e"
    using CeilToPow2_spec [of "2 ^ e"] unfolding u by auto
  then show ?thesis by (metis le_antisym power_le_imp_le_exp one_less_numeral_iff semiring_norm(76))
qed

lemma empty_ring_base:
  assumes r: "empty_ring m h as" and m: "m \<le> e" "1 \<le> e" "e < 64"
    and q: "FrontBlock q = Some (hd as)" "RWTailBlock q = Some (hd as)" "BlockSize q = 2 ^ m"
  shows "rw_base e q h as (replicate (length as) []) 0" "\<forall>a \<in> set as. cap h a = 2 ^ m - 1"
proof -
  have ne: "as \<noteq> []" using r by (auto simp: empty_ring_def dest: ring_nonempty)
  have "list_all2 (holds h) as (replicate (length as) [])"
    using r by (intro list_all2_all_nthI) (auto simp: empty_ring_def holds_def dest!: nth_mem, blast)
  then show "rw_base e q h as (replicate (length as) []) 0"
    using r m q ne by (auto simp: rw_base_def empty_ring_def hd_conv_nth)
  show "\<forall>a \<in> set as. cap h a = 2 ^ m - 1" using r cap_rwb by (fastforce simp: empty_ring_def)
qed

lemma RWQueue_new_ok:
  fixes h :: "'a rwheap"
  assumes fresh: "\<forall>a \<ge> RWBrk h. RWBlocks h a = None" and e: "1 \<le> e" "e < 64"
    and R: "1 \<le> unat R" "unat R < 2 ^ 63" and mem: "unat R + 1 \<le> RWQuota h"
  shows "\<exists>q h' as. RWQueue_new (2 ^ e) R h = Some (Made (q, h')) \<and> rw_base e q h' as (replicate (length as) []) 0
    \<and> \<not> DequeueStatus q \<and> \<not> EnqueueStatus q \<and> reserved (unat R) h' as \<and> RWQuota h \<le> RWQuota h' + unat R + 1
    \<and> (\<forall>a. a \<notin> set as \<longrightarrow> RWBlocks h' a = RWBlocks h a) \<and> (\<forall>a \<in> set as. RWBrk h \<le> a)"
proof -
  let ?E = "2 ^ e :: size_t"
  have uE: "unat ?E = 2 ^ e" using e by (intro unat_pow2) simp
  have E2: "(2::nat) \<le> 2 ^ e" using e(1) by (cases e) auto
  have chk: "\<not> (?E \<noteq> RW_CeilToPow2 ?E \<or> ?E < 2)"
    using CeilToPow2_pow2 [OF e(2)] E2 by (simp add: RW_CeilToPow2_eq word_less_nat_alt uE)
  have R1: "unat (R + 1) = unat R + 1" using R(2) by (simp add: unat_word_ariths)
  obtain n where n: "n < 64" "CeilToPow2 (R + 1) = 2 ^ n" "unat R + 1 \<le> 2 ^ n"
    using CeilToPow2_spec [of "R + 1"] R unfolding R1 by auto
  have n1: "1 \<le> n" using n(3) R(1) by (cases n) auto
  define Nw where "Nw = (R + push_bit 1 ?E - 3) div (?E - 1)"
  have u: "RWQueue_new ?E R h = (let (Size, Count) = (if n > e then (?E, Nw) else (2 ^ n, 1)) in do {
      r \<leftarrow> MakeRing (unat Count) Size None None h;
      Some (case r of Terminate \<Rightarrow> Terminate
        | Made (FirstBlock, h1) \<Rightarrow> Made (\<lparr>FrontBlock = FirstBlock, RWTailBlock = FirstBlock, BlockSize = Size,
            DequeueStatus = False, EnqueueStatus = False\<rparr>, h1)) })"
    using chk pow2_less [OF e(2) n(1)] unfolding RWQueue_new_def RW_CeilToPow2_eq n(2) by (simp add: Let_def Nw_def)
  obtain m k where mk: "(if n > e then (?E, Nw) else (2 ^ n, 1)) = (2 ^ m, k)" "1 \<le> m" "m \<le> e" "0 < unat k" "unat k \<le> unat R + 1"
    "unat R \<le> (unat k - 1) * (2 ^ m - 1) \<or> unat k = 1 \<and> unat R \<le> 2 ^ m - 1"
  proof (cases "n > e")
    case True
    have e62: "e \<le> 62" using True n(1) by simp
    have p: "push_bit 1 ?E = 2 ^ Suc e" by simp
    have up: "unat (2 ^ Suc e :: size_t) = 2 * 2 ^ e" using e62 unat_pow2 [of "Suc e", where 'w = 64] by simp
    have le: "(2::nat) * 2 ^ e \<le> 2 ^ 63" using power_increasing [of "Suc e" 63 "2 :: nat"] e62 by simp
    have s: "unat (R + 2 ^ Suc e :: size_t) = unat R + 2 * 2 ^ e"
      using R(2) le up by (simp add: unat_word_ariths)
    have "unat (R + 2 ^ Suc e - 3 :: size_t) = unat R + 2 * 2 ^ e - 3"
      using unat_sub [of 3 "R + 2 ^ Suc e :: size_t"] s R(1) E2 by (simp add: word_le_nat_alt)
    moreover have "unat (?E - 1) = 2 ^ e - 1" using unat_sub [of 1 ?E] uE by (simp add: word_le_nat_alt)
    ultimately have N: "unat Nw = (unat R + 2 * 2 ^ e - 3) div (2 ^ e - 1)" unfolding Nw_def p by (simp add: unat_div)
    show ?thesis using initial_count [OF E2, of "unat R"] True e by (intro that [of e Nw]) (auto simp: N)
  next
    case False
    then show ?thesis using n1 n(3) by (intro that [of n 1]) auto
  qed
  have m64: "m < 64" using mk(3) e(2) by simp
  have "unat k \<le> RWQuota h" using mk(5) mem by simp
  from MakeRing_ok [OF fresh mk(2) m64 mk(4) this] obtain as h' where r:
    "MakeRing (unat k) (2 ^ m) None None h = Some (Made (Some (hd as), h'))" "empty_ring m h' as"
    "length as = unat k" "RWQuota h = RWQuota h' + unat k" "\<forall>a. a \<notin> set as \<longrightarrow> RWBlocks h' a = RWBlocks h a"
    "\<forall>a \<in> set as. RWBrk h \<le> a" by blast
  let ?q = "\<lparr>FrontBlock = Some (hd as), RWTailBlock = Some (hd as), BlockSize = 2 ^ m,
    DequeueStatus = False, EnqueueStatus = False\<rparr>"
  have "RWQueue_new ?E R h = Some (Made (?q, h'))" unfolding u mk(1) using r(1) by simp
  moreover have "rw_base e ?q h' as (replicate (length as) []) 0"
    by (rule empty_ring_base(1) [OF r(2) mk(3) e]; simp)
  moreover have "\<forall>a \<in> set as. cap h' a = 2 ^ m - 1"
    by (rule empty_ring_base(2) [OF r(2) mk(3) e, of ?q]; simp)
  then have "reserved (unat R) h' as" unfolding reserved_def using mk(6) r(3) by metis
  ultimately show ?thesis using r(4-6) mk(5) by (intro exI [of _ ?q] exI [of _ h'] exI [of _ as]) simp
qed

section \<open>The queue as a list of values\<close>

text \<open>
  \<open>rw_rel e R V mode c\<close>: the queue holds the list and can serve \<open>c\<close> more operations.  \<open>V\<close> are the blocks of
  the memory that are not the queue's; \<open>R\<close> is its reservation, as long as no block has been added.
\<close>

definition rw_rel :: "nat \<Rightarrow> nat option \<Rightarrow> addr set \<Rightarrow> RWAllocMode \<Rightarrow> nat \<Rightarrow> rwq \<times> 'a rwheap \<Rightarrow> 'a list \<Rightarrow> bool" where
  "rw_rel e R V mode c st xs \<longleftrightarrow> (\<exists>as xss t. rw_base e (fst st) (snd st) as xss t \<and> xs = concat xss
     \<and> \<not> DequeueStatus (fst st) \<and> \<not> EnqueueStatus (fst st)
     \<and> (mode = RWAllocMode.CanAlloc \<longrightarrow> c \<le> RWQuota (snd st))
     \<and> dom (RWBlocks (snd st)) - set as = V
     \<and> (case R of None \<Rightarrow> True | Some r \<Rightarrow> mode = RWAllocMode.CannotAlloc \<and> reserved r (snd st) as))"

lemma rw_relI:
  "rw_base e q h as xss t \<Longrightarrow> \<not> DequeueStatus q \<Longrightarrow> \<not> EnqueueStatus q
    \<Longrightarrow> (mode = RWAllocMode.CanAlloc \<Longrightarrow> c \<le> RWQuota h) \<Longrightarrow> dom (RWBlocks h) - set as = V
    \<Longrightarrow> (\<And>r. R = Some r \<Longrightarrow> mode = RWAllocMode.CannotAlloc \<and> reserved r h as)
    \<Longrightarrow> rw_rel e R V mode c (q, h) (concat xss)"
  unfolding rw_rel_def by (intro exI [of _ as] exI [of _ xss] exI [of _ t]) (auto split: option.splits)

lemma rw_relE:
  assumes "rw_rel e R V mode c (q, h) xs"
  obtains as xss t where "rw_base e q h as xss t" "xs = concat xss" "\<not> DequeueStatus q" "\<not> EnqueueStatus q"
    "mode = RWAllocMode.CanAlloc \<longrightarrow> c \<le> RWQuota h" "dom (RWBlocks h) - set as = V"
    "\<forall>r. R = Some r \<longrightarrow> mode = RWAllocMode.CannotAlloc \<and> reserved r h as"
  using assms unfolding rw_rel_def by (auto split: option.splits)

lemma rw_rel_mono: "rw_rel e R V mode (Suc c) st xs \<Longrightarrow> rw_rel e R V mode c st xs"
  unfolding rw_rel_def using Suc_leD by blast

lemma rw_rel_end: "rw_rel e R V mode c (q, h) xs \<Longrightarrow> rw_rel e R V mode c (q\<lparr>DequeueStatus := False\<rparr>, h) xs"
proof -
  assume "rw_rel e R V mode c (q, h) xs"
  then obtain as xss t where b: "rw_base e q h as xss t" "xs = concat xss" "\<not> DequeueStatus q" "\<not> EnqueueStatus q"
    "mode = RWAllocMode.CanAlloc \<longrightarrow> c \<le> RWQuota h" "dom (RWBlocks h) - set as = V"
    "\<forall>r. R = Some r \<longrightarrow> mode = RWAllocMode.CannotAlloc \<and> reserved r h as" by (rule rw_relE)
  then show ?thesis unfolding b(2) by (intro rw_relI) auto
qed

lemma reserved_same_ring: "reserved R h as \<Longrightarrow> same_ring h as h' as' \<Longrightarrow> reserved R h' as'"
  by (simp add: reserved_def same_ring_def)

text \<open>A queue that is full holds at least as many elements as have been reserved.\<close>

lemma full_holds:
  assumes "reserved R h as" "\<forall>i < length as. 0 < i \<or> length as = 1 \<longrightarrow> length (xss ! i) = cap h (as ! i)"
    and "length xss = length as" "as \<noteq> []"
  shows "R \<le> length (concat xss)"
proof -
  obtain c where c: "\<forall>a \<in> set as. cap h a = c" "R \<le> (length as - 1) * c \<or> length as = 1 \<and> R \<le> c"
    using assms(1) by (auto simp: reserved_def)
  obtain xs yss where xss: "xss = xs # yss" using assms(3,4) by (cases xss) auto
  have len: "length yss = length as - 1" using assms(3) xss by simp
  have "length ys = c" if y: "ys \<in> set yss" for ys
  proof -
    obtain j where "j < length yss" "ys = yss ! j" using y by (auto simp: in_set_conv_nth)
    then have j: "Suc j < length as" "xss ! Suc j = ys" using len xss by simp_all
    have "length (xss ! Suc j) = cap h (as ! Suc j)" using assms(2) [rule_format, OF j(1)] by simp
    moreover have "cap h (as ! Suc j) = c" using c(1) nth_mem [OF j(1)] by blast
    ultimately show ?thesis using j(2) by simp
  qed
  then have 1: "length (concat yss) = length yss * c" by (induction yss) auto
  have 2: "length xs = c" if "length as = 1"
  proof -
    have "0 < length as" using that by simp
    then have "length (xss ! 0) = cap h (as ! 0)" "as ! 0 \<in> set as"
      using assms(2) [rule_format, of 0] that by simp_all
    then show ?thesis using c(1) xss by simp
  qed
  from c(2) show ?thesis
  proof
    assume "R \<le> (length as - 1) * c"
    then show ?thesis using 1 len xss by simp
  next
    assume "length as = 1 \<and> R \<le> c"
    then show ?thesis using 2 xss by simp
  qed
qed

text \<open>What the three operations of the consumer give, in terms of the lists.\<close>

lemma rw_taken:
  assumes rel: "rw_rel e R V mode c (q, h) xs" and base: "rw_base e q h as xss t" "xs = concat xss"
    and st: "\<not> DequeueStatus q" "\<not> EnqueueStatus q" "mode = RWAllocMode.CanAlloc \<longrightarrow> c \<le> RWQuota h"
      "dom (RWBlocks h) - set as = V" "\<forall>r. R = Some r \<longrightarrow> mode = RWAllocMode.CannotAlloc \<and> reserved r h as"
    and f: "found e (q\<lparr>DequeueStatus := True\<rparr>) h as xss t w h1"
  shows "case w of None \<Rightarrow> xs = [] \<and> rw_rel e R V mode c (q, h1) []
    | Some (a, moved) \<Rightarrow> \<exists>x ys h2. xs = x # ys \<and> TakeFront a h1 = Some (x, h2)
        \<and> rw_rel e R V mode c (if moved then q\<lparr>FrontBlock := Some a\<rparr> else q, h2) ys"
proof -
  have qu: "RWQuota h1 = RWQuota h" "cap h1 = cap h" "dom (RWBlocks h1) = dom (RWBlocks h)"
    using f by (simp_all add: found_def)
  show ?thesis
  proof (cases w)
    case None
    have b1: "rw_base e q h1 as xss t" "concat xss = []" using take_found [OF f] None by simp_all
    have "rw_rel e R V mode c (q, h1) (concat xss)"
      by (rule rw_relI [OF b1(1) st(1,2)]) (use st qu in \<open>auto simp: reserved_def\<close>)
    then show ?thesis using None b1(2) base(2) by simp
  next
    case (Some am)
    obtain a moved where am: "am = (a, moved)" by (cases am)
    obtain x h2 as' xss' t' where n: "TakeFront a h1 = Some (x, h2)"
      "rw_base e (if moved then q\<lparr>DequeueStatus := True, FrontBlock := Some a\<rparr> else q\<lparr>DequeueStatus := True\<rparr>) h2 as' xss' t'"
      "concat xss = x # concat xss'" "RWQuota h2 = RWQuota h" "same_ring h as h2 as'"
      using take_found [OF f] Some am by auto
    have n2: "rw_base e (if moved then q\<lparr>FrontBlock := Some a\<rparr> else q) h2 as' xss' t'"
      using n(2) by (simp add: rw_base_def split: if_splits)
    have "rw_rel e R V mode c (if moved then q\<lparr>FrontBlock := Some a\<rparr> else q, h2) (concat xss')"
      by (rule rw_relI [OF n2]) (use st n(4,5) reserved_same_ring [OF _ n(5)] in \<open>auto simp: same_ring_def\<close>)
    then show ?thesis using Some am n(1,3) base(2) by simp
  qed
qed

lemma TryDequeue_rel:
  assumes rel: "rw_rel e R V mode c (q, h) xs"
  shows "case xs of [] \<Rightarrow> \<exists>h'. RWQueue_TryDequeue q h = Some (None, q, h') \<and> rw_rel e R V mode c (q, h') []
    | x # ys \<Rightarrow> \<exists>q' h'. RWQueue_TryDequeue q h = Some (Some x, q', h') \<and> rw_rel e R V mode c (q', h') ys"
proof -
  obtain as xss t where b: "rw_base e q h as xss t" "xs = concat xss" and st: "\<not> DequeueStatus q" "\<not> EnqueueStatus q"
    "mode = RWAllocMode.CanAlloc \<longrightarrow> c \<le> RWQuota h" "dom (RWBlocks h) - set as = V"
    "\<forall>r. R = Some r \<longrightarrow> mode = RWAllocMode.CannotAlloc \<and> reserved r h as" by (rule rw_relE [OF rel])
  have q1: "rw_base e (q\<lparr>DequeueStatus := True\<rparr>) h as xss t" using b(1) by simp
  have eq: "q\<lparr>DequeueStatus := False\<rparr> = q" using st(1) by simp
  obtain w h1 where w: "DequeueFront (q\<lparr>DequeueStatus := True\<rparr>) h = Some (w, h1)"
    "found e (q\<lparr>DequeueStatus := True\<rparr>) h as xss t w h1" using DequeueFront_found [OF q1] by blast
  from rw_taken [OF rel b st w(2)] show ?thesis
    using w(1) st(1) eq
    by (cases w) (auto simp: RWQueue_TryDequeue_def DequeueGuard_def EndDequeue_def intro: rw_rel_end split: if_splits)
qed

lemma Pop_rel:
  assumes rel: "rw_rel e R V mode c (q, h) xs"
  shows "case xs of [] \<Rightarrow> \<exists>h'. RWQueue_Pop q h = Some (False, q, h') \<and> rw_rel e R V mode c (q, h') []
    | x # ys \<Rightarrow> \<exists>q' h'. RWQueue_Pop q h = Some (True, q', h') \<and> rw_rel e R V mode c (q', h') ys"
proof -
  obtain as xss t where b: "rw_base e q h as xss t" "xs = concat xss" and st: "\<not> DequeueStatus q" "\<not> EnqueueStatus q"
    "mode = RWAllocMode.CanAlloc \<longrightarrow> c \<le> RWQuota h" "dom (RWBlocks h) - set as = V"
    "\<forall>r. R = Some r \<longrightarrow> mode = RWAllocMode.CannotAlloc \<and> reserved r h as" by (rule rw_relE [OF rel])
  have q1: "rw_base e (q\<lparr>DequeueStatus := True\<rparr>) h as xss t" using b(1) by simp
  have eq: "q\<lparr>DequeueStatus := False\<rparr> = q" using st(1) by simp
  obtain w h1 where w: "PeekFront (q\<lparr>DequeueStatus := True\<rparr>) h = Some (w, h1)"
    "found e (q\<lparr>DequeueStatus := True\<rparr>) h as xss t w h1" using PeekFront_found [OF q1] by blast
  from rw_taken [OF rel b st w(2)] show ?thesis
    using w(1) st(1) eq
    by (cases w) (auto simp: RWQueue_Pop_def DequeueGuard_def EndDequeue_def intro: rw_rel_end split: if_splits)
qed

text \<open>\<^verbatim>\<open>Peek\<close> leaves the queue as it is and gives the place of the next element.\<close>

lemma Peek_rel:
  assumes rel: "rw_rel e R V mode c (q, h) xs"
  shows "case xs of [] \<Rightarrow> \<exists>h'. RWQueue_Peek q h = Some (None, q, h') \<and> rw_rel e R V mode c (q, h') []
    | x # ys \<Rightarrow> \<exists>a i h' b. RWQueue_Peek q h = Some (Some (a, i), q, h') \<and> RWBlocks h' a = Some b
        \<and> read_at (Data b) i = Some x \<and> rw_rel e R V mode c (q, h') xs"
proof -
  obtain as xss t where b: "rw_base e q h as xss t" "xs = concat xss" and st: "\<not> DequeueStatus q" "\<not> EnqueueStatus q"
    "mode = RWAllocMode.CanAlloc \<longrightarrow> c \<le> RWQuota h" "dom (RWBlocks h) - set as = V"
    "\<forall>r. R = Some r \<longrightarrow> mode = RWAllocMode.CannotAlloc \<and> reserved r h as" by (rule rw_relE [OF rel])
  have q1: "rw_base e (q\<lparr>DequeueStatus := True\<rparr>) h as xss t" using b(1) by simp
  have eq: "q\<lparr>DequeueStatus := False\<rparr> = q" using st(1) by simp
  obtain w h1 where w: "PeekFront (q\<lparr>DequeueStatus := True\<rparr>) h = Some (w, h1)"
    "found e (q\<lparr>DequeueStatus := True\<rparr>) h as xss t w h1" using PeekFront_found [OF q1] by blast
  have b1: "rw_base e q h1 as xss t" using w(2) by (simp add: found_def)
  have same: "rw_rel e R V mode c (q, h1) xs"
    unfolding b(2) by (rule rw_relI [OF b1 st(1,2)]) (use st w(2) in \<open>auto simp: found_def reserved_def\<close>)
  show ?thesis
  proof (cases w)
    case None
    then have "xs = []" using w(2) b(2) by (simp add: found_def)
    then show ?thesis using w(1) None st(1) eq same
      by (auto simp: RWQueue_Peek_def DequeueGuard_def EndDequeue_def)
  next
    case (Some am)
    obtain a moved where am: "am = (a, moved)" by (cases am)
    obtain x ys h2 where x: "xs = x # ys" "TakeFront a h1 = Some (x, h2)"
      using rw_taken [OF rel b st w(2)] Some am by auto
    obtain bb where bb: "RWBlocks h1 a = Some bb" "read_at (Data bb) (unat (Front bb)) = Some x"
      using x(2) by (auto simp: TakeFront_def split: bind_splits)
    then show ?thesis using w(1) Some am st(1) eq same x(1)
      by (auto simp: RWQueue_Peek_def DequeueGuard_def EndDequeue_def)
  qed
qed

text \<open>The producer.\<close>

lemma InnerEnqueue_rel:
  assumes rel: "rw_rel e R V mode (Suc c) (q, h) xs"
  shows "\<exists>r q' h' V'. RWQueue_InnerEnqueue (2 ^ e) mode arg q h = Some (r, q', h')
    \<and> V \<subseteq> V' \<and> (arg \<noteq> None \<longrightarrow> V' = V)
    \<and> (case r of
         Returned True \<Rightarrow> \<exists>v. arg = Some v \<and> rw_rel e R V' mode c (q', h') (xs @ [v])
       | Returned False \<Rightarrow> mode = RWAllocMode.CannotAlloc \<and> (\<forall>n. R = Some n \<longrightarrow> n \<le> length xs) \<and> rw_rel e R V' mode c (q', h') xs
       | Threw \<Rightarrow> arg = None \<and> rw_rel e R V' mode c (q', h') xs
       | Terminated \<Rightarrow> False)"
proof -
  obtain as xss t where b: "rw_base e q h as xss t" "xs = concat xss" and st: "\<not> DequeueStatus q" "\<not> EnqueueStatus q"
    "mode = RWAllocMode.CanAlloc \<longrightarrow> Suc c \<le> RWQuota h" "dom (RWBlocks h) - set as = V"
    "\<forall>r. R = Some r \<longrightarrow> mode = RWAllocMode.CannotAlloc \<and> reserved r h as" by (rule rw_relE [OF rel])
  have mem: "mode = RWAllocMode.CanAlloc \<Longrightarrow> 0 < RWQuota h" using st(3) by auto
  obtain r q' h' as' xss' t' where n: "RWQueue_InnerEnqueue (2 ^ e) mode arg q h = Some (r, q', h')"
    "rw_base e q' h' as' xss' t'" "\<not> EnqueueStatus q'" "DequeueStatus q' = DequeueStatus q"
    "RWQuota h \<le> RWQuota h' + 1" "enq_outcome mode arg r h as xss (concat xss')"
    "mode = RWAllocMode.CannotAlloc \<longrightarrow> as' = as \<and> cap h' = cap h"
    "arg \<noteq> None \<longrightarrow> dom (RWBlocks h') - set as' = dom (RWBlocks h) - set as"
    "dom (RWBlocks h) - set as \<subseteq> dom (RWBlocks h') - set as'"
    using InnerEnqueue_spec [OF b(1) st(2), where mode = mode and arg = arg] mem by blast
  let ?V = "dom (RWBlocks h') - set as'"
  have "rw_rel e R ?V mode c (q', h') (concat xss')"
    by (rule rw_relI [OF n(2)]) (use st n(3-5,7) in \<open>auto simp: reserved_def\<close>)
  moreover have "n \<le> length xs" if "R = Some n" "r = Returned False" for n
  proof -
    have "reserved n h as" using st(5) that(1) by simp
    moreover have full: "\<forall>i < length as. 0 < i \<or> length as = 1 \<longrightarrow> length (xss ! i) = cap h (as ! i)"
      using n(6) that(2) by (simp add: enq_outcome_def)
    ultimately show ?thesis unfolding b(2) by (rule full_holds [OF _ _ rw_baseD(13,15) [OF b(1)]])
  qed
  ultimately show ?thesis using n(1,6,8,9) st(4) b(2)
    by (intro exI [of _ r] exI [of _ q'] exI [of _ h'] exI [of _ ?V])
      (auto simp: enq_outcome_def split: enq_result.splits bool.splits)
qed

section \<open>Walks round the ring\<close>

lemma loop_ring:
  assumes body: "\<And>i acc. i < n \<Longrightarrow> body (acc, Some (as ! i))
      = Some (if Suc i < n then Inl (F i acc, Some (as ! Suc i)) else Inr (F i acc))"
    and i: "i < n"
  shows "loop body (acc, Some (as ! i)) = Some (fold F [i..<n] acc)"
  using i
proof (induction "n - i" arbitrary: i acc)
  case 0
  then show ?case by simp
next
  case (Suc k)
  have up: "[i..<n] = i # [Suc i..<n]" using Suc.prems by (rule upt_conv_Cons)
  show ?case
  proof (cases "Suc i < n")
    case True
    have "loop body (acc, Some (as ! i)) = loop body (F i acc, Some (as ! Suc i))"
      by (rule loop_again) (simp add: body [OF Suc.prems] True)
    then show ?thesis using Suc.hyps(1) [of "Suc i" "F i acc"] Suc.hyps(2) True up by simp
  next
    case False
    then have e: "[Suc i..<n] = []" by simp
    have "loop body (acc, Some (as ! i)) = Some (F i acc)"
      by (rule loop_exit) (simp add: body [OF Suc.prems] False)
    then show ?thesis unfolding up e by simp
  qed
qed

lemma loop_ring_sum:
  assumes body: "\<And>i acc. i < n \<Longrightarrow> body (acc, Some (as ! i))
      = Some (if Suc i < n then Inl (acc + g i, Some (as ! Suc i)) else Inr (acc + g i))"
    and i: "i < n"
  shows "loop body (acc, Some (as ! i)) = Some (acc + sum_list (List.map g [i..<n]) :: size_t)"
proof -
  have "fold (\<lambda>i acc. acc + g i) is acc = acc + sum_list (List.map g is)" for "is" and acc
    by (induction "is" arbitrary: acc) (simp_all add: add.assoc)
  then show ?thesis using loop_ring [OF body i] by simp
qed

lemma sum_nth: "sum_list (List.map (\<lambda>i. of_nat (f (xs ! i))) [0..<length xs]) = (of_nat (sum_list (List.map f xs)) :: size_t)"
proof -
  have "List.map (\<lambda>i. of_nat (f (xs ! i))) [0..<length xs] = (List.map (\<lambda>x. of_nat (f x)) xs :: size_t list)"
    by (rule nth_equalityI) simp_all
  moreover have "sum_list (List.map (\<lambda>x. of_nat (f x)) xs) = (of_nat (sum_list (List.map f xs)) :: size_t)"
    by (induction xs) simp_all
  ultimately show ?thesis by (simp only:)
qed

lemma rwb_size: "rwb m b f xs \<Longrightarrow> (Tail b - Front b) AND SizeMask b = of_nat (length xs)"
proof -
  assume r: "rwb m b f xs"
  note d = rwbD [OF r]
  have le: "f mod 2 ^ m \<le> 2 ^ m" by (simp add: less_imp_le)
  have "(f + length xs) mod 2 ^ m + 2 ^ m - f mod 2 ^ m = (f + length xs) mod 2 ^ m + (2 ^ m - f mod 2 ^ m)"
    using le by simp
  also have "\<dots> mod 2 ^ m = (f + length xs + (2 ^ m - f mod 2 ^ m)) mod 2 ^ m" by (rule mod_add_left_eq)
  also have "f + length xs + (2 ^ m - f mod 2 ^ m) = length xs + (f - f mod 2 ^ m) + 2 ^ m"
    using le mod_less_eq_dividend [of f "2 ^ m"] by linarith
  also have "\<dots> mod 2 ^ m = length xs" using d(4) by (simp add: minus_mod_eq_mult_div)
  finally have "ix (2 ^ m) ((f + length xs) mod 2 ^ m) (f mod 2 ^ m) = length xs" by (simp only: ix_def)
  then show ?thesis unfolding d(3,5,6) using mask_diff_of_nat [OF le d(1)] by simp
qed

lemma ring_step:
  assumes inv: "rw_base e q h as xss t" and i: "i < length as"
  obtains b m f where "RWBlocks h (as ! i) = Some b" "rwb m b f (xss ! i)"
    "RWNext b = Some (as ! (Suc i mod length as))"
    "RWNext b \<noteq> Some (as ! 0) \<longleftrightarrow> Suc i < length as" "Suc i < length as \<longrightarrow> Suc i mod length as = Suc i"
proof -
  note d = rw_baseD [OF inv]
  obtain b m f where b: "RWBlocks h (as ! i) = Some b" "rwb m b f (xss ! i)" by (rule rw_block [OF d(2) i])
  have nx: "RWNext b = Some (as ! (Suc i mod length as))" using ring_nth [OF d(1) i] b(1) by (simp add: rw_next_def)
  have l: "0 < length as" using d(15) by simp
  have lt: "Suc i mod length as < length as" using l by simp
  have "as ! (Suc i mod length as) = as ! 0 \<longleftrightarrow> Suc i mod length as = 0"
    by (rule nth_eq_iff_index_eq [OF d(14) lt l])
  moreover have "Suc i mod length as = 0 \<longleftrightarrow> \<not> Suc i < length as"
  proof (cases "Suc i < length as")
    case False
    then have "Suc i = length as" using i by simp
    then show ?thesis by simp
  qed simp
  ultimately show ?thesis using that b nx by simp
qed

lemma SizeApprox_walk:
  assumes inv: "rw_base e q h as xss t"
  shows "RWQueue_SizeApprox q h = Some (of_nat (length (concat xss)))"
    "RWQueue_MaxCapacity q h = Some (of_nat (sum_list (List.map (cap h) as)))"
proof -
  note d = rw_baseD [OF inv]
  have l: "0 < length as" using d(15) by simp
  have fb: "FrontBlock q = Some (as ! 0)" using d(3,15) by (simp add: hd_conv_nth)
  have s: "SizeApprox_body h (FrontBlock q) (acc, Some (as ! i)) = Some (if Suc i < length as
      then Inl (acc + of_nat (length (xss ! i)), Some (as ! Suc i)) else Inr (acc + of_nat (length (xss ! i))))"
    and c: "MaxCapacity_body h (FrontBlock q) (acc, Some (as ! i)) = Some (if Suc i < length as
      then Inl (acc + of_nat (cap h (as ! i)), Some (as ! Suc i)) else Inr (acc + of_nat (cap h (as ! i))))"
    if i: "i < length as" for i acc
  proof -
    obtain b m f where b: "RWBlocks h (as ! i) = Some b" "rwb m b f (xss ! i)"
      "RWNext b = Some (as ! (Suc i mod length as))" "RWNext b \<noteq> Some (as ! 0) \<longleftrightarrow> Suc i < length as"
      "Suc i < length as \<longrightarrow> Suc i mod length as = Suc i" by (rule ring_step [OF inv i])
    show "SizeApprox_body h (FrontBlock q) (acc, Some (as ! i)) = Some (if Suc i < length as
      then Inl (acc + of_nat (length (xss ! i)), Some (as ! Suc i)) else Inr (acc + of_nat (length (xss ! i))))"
      using b rwb_size [OF b(2)] fb by (simp add: SizeApprox_body_def rget_def)
    have "of_nat (cap h (as ! i)) = SizeMask b" using b(1) by (simp add: cap_def)
    then show "MaxCapacity_body h (FrontBlock q) (acc, Some (as ! i)) = Some (if Suc i < length as
      then Inl (acc + of_nat (cap h (as ! i)), Some (as ! Suc i)) else Inr (acc + of_nat (cap h (as ! i))))"
      using b fb by (simp add: MaxCapacity_body_def rget_def)
  qed
  have "sum_list (List.map (\<lambda>i. of_nat (length (xss ! i))) [0..<length as]) = (of_nat (length (concat xss)) :: size_t)"
    using sum_nth [of length xss] by (simp add: length_concat d(13))
  then show "RWQueue_SizeApprox q h = Some (of_nat (length (concat xss)))"
    unfolding RWQueue_SizeApprox_def using loop_ring_sum [OF s l, of 0] fb by simp
  show "RWQueue_MaxCapacity q h = Some (of_nat (sum_list (List.map (cap h) as)))"
    unfolding RWQueue_MaxCapacity_def using loop_ring_sum [OF c l, of 0] fb sum_nth [of "cap h" as] by simp
qed

text \<open>
  What the queue holds, read off the memory: the elements alive between \<^verbatim>\<open>Front\<close> and \<^verbatim>\<open>Tail\<close> of a block in the order of their
  slots, and those of all the blocks from \<^verbatim>\<open>FrontBlock\<close> round the ring, walked as \<^verbatim>\<open>SizeApprox\<close> does.
\<close>

definition slot_values :: "'a rwblock \<Rightarrow> nat \<Rightarrow> 'a list" where
  "slot_values b i = (case Data b ! unat ((Front b + of_nat i) AND SizeMask b) of None \<Rightarrow> [] | Some v \<Rightarrow> [v])"

definition block_values :: "'a rwblock \<Rightarrow> 'a list" where
  "block_values b = concat (List.map (slot_values b) [0..<unat ((Tail b - Front b) AND SizeMask b)])"

definition held_body :: "'a rwheap \<Rightarrow> addr option \<Rightarrow> 'a list \<times> addr option \<Rightarrow> (('a list \<times> addr option) + 'a list) option" where
  "held_body h FirstBlock = (\<lambda>(vs, CurrentBlock). do {
     (_, b) \<leftarrow> rget h CurrentBlock;
     let vs = vs @ block_values b;
     Some (if RWNext b \<noteq> FirstBlock then Inl (vs, RWNext b) else Inr vs) })"

definition held :: "rwq \<Rightarrow> 'a rwheap \<Rightarrow> 'a list option" where
  "held q h = loop (held_body h (FrontBlock q)) ([], FrontBlock q)"

lemma slot_index:
  assumes "rwb m b f xs"
  shows "unat ((Front b + of_nat i) AND SizeMask b) = (f + i) mod 2 ^ m"
proof -
  note d = rwbD [OF assms]
  have "(Front b + of_nat i) AND SizeMask b = of_nat ((f mod 2 ^ m + i) mod 2 ^ m)"
    unfolding d(3,5) using mask_of_nat [where n = "f mod 2 ^ m + i" and k = m and 'w = 64] by simp
  then show ?thesis using unat_pos [OF d(1), of "f mod 2 ^ m + i"] by (simp add: mod_add_left_eq)
qed

lemma concat_singles: "concat (List.map (\<lambda>i. [xs ! i]) [k..<length xs]) = drop k xs"
proof -
  have "concat (List.map (\<lambda>i. [f i]) js) = List.map f js" for js and f :: "nat \<Rightarrow> 'b" by (induction js) simp_all
  then show ?thesis by (simp add: drop_map [symmetric] map_nth flip: drop_upt) (metis add_0 drop_map drop_upt map_nth)
qed

lemma block_values_rwb:
  assumes r: "rwb m b f xs"
  shows "block_values b = xs"
proof -
  note d = rwbD [OF r]
  have n: "unat ((Tail b - Front b) AND SizeMask b) = length xs"
    using rwb_size [OF r] unat_pos [OF d(1), of "length xs"] d(4) by simp
  have "slot_values b i = [xs ! i]" if "i < length xs" for i
    using slot_index [OF r, of i] d(4) d(9) [of "f + i"] that by (simp add: slot_values_def)
  then have "block_values b = concat (List.map (\<lambda>i. [xs ! i]) [0..<length xs])"
    unfolding block_values_def n by (intro arg_cong [where f = concat] map_cong) simp_all
  then show ?thesis using concat_singles [of xs 0] by simp
qed

lemma held_walk:
  assumes fb: "FrontBlock q = Some (as ! 0)" and l: "0 < length as"
    and next_block: "\<And>i. i < length as \<Longrightarrow> \<exists>b. RWBlocks h (as ! i) = Some b \<and> (RWNext b \<noteq> Some (as ! 0) \<longleftrightarrow> Suc i < length as)
      \<and> (Suc i < length as \<longrightarrow> RWNext b = Some (as ! Suc i))"
  shows "held q h = Some (concat (List.map (\<lambda>i. block_values (the (RWBlocks h (as ! i)))) [0..<length as]))"
proof -
  let ?bv = "\<lambda>i. block_values (the (RWBlocks h (as ! i)))"
  have body: "held_body h (FrontBlock q) (acc, Some (as ! i))
      = Some (if Suc i < length as then Inl (acc @ ?bv i, Some (as ! Suc i)) else Inr (acc @ ?bv i))" if "i < length as" for i acc
    using next_block [OF that] fb by (auto simp: held_body_def rget_def)
  have "held q h = Some (fold (\<lambda>i acc. acc @ ?bv i) [0..<length as] [])"
    unfolding held_def using loop_ring [OF body l] fb by simp
  moreover have "fold (\<lambda>i acc. acc @ ?bv i) is acc = acc @ concat (List.map ?bv is)" for "is" acc
    by (induction "is" arbitrary: acc) simp_all
  ultimately show ?thesis by simp
qed

lemma rw_base_held:
  assumes inv: "rw_base e q h as xss t"
  shows "held q h = Some (concat xss)"
proof -
  note d = rw_baseD [OF inv]
  have l: "0 < length as" using d(15) by simp
  have fb: "FrontBlock q = Some (as ! 0)" using d(3,15) by (simp add: hd_conv_nth)
  have val: "block_values (the (RWBlocks h (as ! i))) = xss ! i"
    and walk: "\<exists>b. RWBlocks h (as ! i) = Some b \<and> (RWNext b \<noteq> Some (as ! 0) \<longleftrightarrow> Suc i < length as)
      \<and> (Suc i < length as \<longrightarrow> RWNext b = Some (as ! Suc i))" if i: "i < length as" for i
  proof -
    obtain b m f where b: "RWBlocks h (as ! i) = Some b" "rwb m b f (xss ! i)"
      "RWNext b = Some (as ! (Suc i mod length as))" "RWNext b \<noteq> Some (as ! 0) \<longleftrightarrow> Suc i < length as"
      "Suc i < length as \<longrightarrow> Suc i mod length as = Suc i" by (rule ring_step [OF inv i])
    show "block_values (the (RWBlocks h (as ! i))) = xss ! i" using b(1) block_values_rwb [OF b(2)] by simp
    show "\<exists>b. RWBlocks h (as ! i) = Some b \<and> (RWNext b \<noteq> Some (as ! 0) \<longleftrightarrow> Suc i < length as)
      \<and> (Suc i < length as \<longrightarrow> RWNext b = Some (as ! Suc i))" using b by auto
  qed
  have "List.map (\<lambda>i. block_values (the (RWBlocks h (as ! i)))) [0..<length as] = xss"
    by (rule nth_equalityI) (simp_all add: d(13) val)
  then show ?thesis using held_walk [OF fb l walk] by simp
qed

lemma rw_rel_held: "rw_rel e R V mode c st xs \<Longrightarrow> held (fst st) (snd st) = Some xs"
  by (cases st) (auto elim!: rw_relE simp: rw_base_held)

text \<open>The destructor of a block destroys every element in it, once.\<close>

lemma DestroyBlock_loop:
  assumes "rwb m b' f xs" "Tail b' = Tail b" "SizeMask b' = SizeMask b"
  shows "\<exists>d f'. loop (DestroyBlock_body b) (Front b', Data b') = Some d \<and> rwb m (b'\<lparr>Data := d, Front := Tail b, LocalTail := Tail b\<rparr>) f' []"
  using assms
proof (induction xs arbitrary: b' f)
  case Nil
  have "Front b' = Tail b" using rwb_empty_iff [OF Nil(1)] Nil(2) by simp
  then have "loop (DestroyBlock_body b) (Front b', Data b') = Some (Data b')"
    by (intro loop_exit) (simp add: DestroyBlock_body_def)
  moreover have "b'\<lparr>Data := Data b', Front := Tail b, LocalTail := Tail b\<rparr> = b'\<lparr>LocalTail := Tail b'\<rparr>"
    using \<open>Front b' = Tail b\<close> Nil(2) by (intro rwblock.equality) simp_all
  then have "rwb m (b'\<lparr>Data := Data b', Front := Tail b, LocalTail := Tail b\<rparr>) f []"
    using rwb_refresh_tail [OF Nil(1)] by (simp only:)
  ultimately show ?case by blast
next
  case (Cons x xs)
  let ?b = "b'\<lparr>LocalTail := Tail b'\<rparr>"
  have ne: "Front b' \<noteq> Tail b'" using rwb_empty_iff [OF Cons.prems(1)] by simp
  then obtain d where d: "destroy_at (Data b') (unat (Front b')) = Some d"
    "rwb m (?b\<lparr>Data := d, Front := (Front b' + 1) AND SizeMask b'\<rparr>) (Suc f) xs"
    using rwb_take [OF rwb_refresh_tail [OF Cons.prems(1)]] by auto
  have "loop (DestroyBlock_body b) (Front b', Data b') = loop (DestroyBlock_body b) ((Front b' + 1) AND SizeMask b', d)"
    by (intro loop_again) (use ne d(1) Cons.prems in \<open>simp add: DestroyBlock_body_def\<close>)
  moreover from Cons.IH [OF d(2)] Cons.prems(2,3) obtain d' f' where
    "loop (DestroyBlock_body b) ((Front b' + 1) AND SizeMask b', d) = Some d'"
    "rwb m (b'\<lparr>Data := d', Front := Tail b, LocalTail := Tail b\<rparr>) f' []" by auto
  ultimately show ?case by (intro exI [of _ d'] exI [of _ f']) simp
qed

lemma rwb_empty_slots:
  assumes "rwb m b f []"
  shows "set (Data b) \<subseteq> {None}"
proof -
  note d = rwbD [OF assms]
  have "Data b ! j = None" if j: "j < 2 ^ m" for j
  proof -
    let ?i = "f + (j + 2 ^ m - f mod 2 ^ m) mod 2 ^ m"
    have le: "f mod 2 ^ m \<le> 2 ^ m" by (simp add: less_imp_le)
    have "f + (j + 2 ^ m - f mod 2 ^ m) = (f - f mod 2 ^ m) + (j + 2 ^ m)"
      using le mod_less_eq_dividend [of f "2 ^ m"] by linarith
    also have "\<dots> mod 2 ^ m = j" using j by (simp add: minus_mod_eq_mult_div)
    finally have "?i mod 2 ^ m = j" by (simp add: mod_simps)
    then show ?thesis using d(9) [of ?i] by simp
  qed
  then show ?thesis using d(2) by (auto simp: in_set_conv_nth)
qed

lemma DestroyBlock_ok: "rwb m b f xs \<Longrightarrow> \<exists>d. DestroyBlock b = Some d \<and> set d \<subseteq> {None}"
  using DestroyBlock_loop [of m b f xs b] rwb_empty_slots by (fastforce simp: DestroyBlock_def)

text \<open>\<^verbatim>\<open>Clear\<close> frees the blocks of the ring, one after the other, and nothing else.\<close>

lemma Clear_loop:
  assumes inv: "rw_base e q h as xss t" and i: "i < length as"
    and h': "RWBlocks h' = (\<lambda>a. if a \<in> set (take i as) then None else RWBlocks h a)"
  shows "\<exists>h''. loop (RWQueue_Clear_body (Some (as ! 0))) (Some (as ! i), h') = Some h''
    \<and> RWBlocks h'' = (\<lambda>a. if a \<in> set as then None else RWBlocks h a) \<and> RWBrk h'' = RWBrk h' \<and> RWQuota h'' = RWQuota h'"
  using i h'
proof (induction "length as - i" arbitrary: i h')
  case 0
  then show ?case by simp
next
  case (Suc k)
  note d = rw_baseD [OF inv]
  obtain b m f where b: "RWBlocks h (as ! i) = Some b" "rwb m b f (xss ! i)"
    "RWNext b = Some (as ! (Suc i mod length as))" "RWNext b \<noteq> Some (as ! 0) \<longleftrightarrow> Suc i < length as"
    "Suc i < length as \<longrightarrow> Suc i mod length as = Suc i" by (rule ring_step [OF inv Suc.prems(1)])
  have nt: "as ! i \<notin> set (take i as)"
    using d(14) Suc.prems(1) by (auto simp: in_set_conv_nth nth_eq_iff_index_eq)
  then have bi: "RWBlocks h' (as ! i) = Some b" using b(1) Suc.prems(2) by simp
  obtain dd where dd: "DestroyBlock b = Some dd" using DestroyBlock_ok [OF b(2)] by blast
  let ?h1 = "h'\<lparr>RWBlocks := (RWBlocks h')(as ! i := None)\<rparr>"
  have step: "RWQueue_Clear_body (Some (as ! 0)) (Some (as ! i), h')
    = Some (if Suc i < length as then Inl (Some (as ! Suc i), ?h1) else Inr ?h1)"
    using bi dd b(3-5) by (simp add: RWQueue_Clear_body_def rget_def)
  have tk: "take (Suc i) as = take i as @ [as ! i]" using Suc.prems(1) by (rule take_Suc_conv_app_nth)
  have h1: "RWBlocks ?h1 = (\<lambda>a. if a \<in> set (take (Suc i) as) then None else RWBlocks h a)"
    unfolding tk using Suc.prems(2) by (auto simp: fun_eq_iff)
  show ?case
  proof (cases "Suc i < length as")
    case True
    have "loop (RWQueue_Clear_body (Some (as ! 0))) (Some (as ! i), h') = loop (RWQueue_Clear_body (Some (as ! 0))) (Some (as ! Suc i), ?h1)"
      by (rule loop_again) (simp add: step True)
    moreover have "k = length as - Suc i" using Suc.hyps(2) by simp
    ultimately show ?thesis using Suc.hyps(1) [OF _ True h1] by simp
  next
    case False
    then have "set (take (Suc i) as) = set as" by simp
    moreover have "loop (RWQueue_Clear_body (Some (as ! 0))) (Some (as ! i), h') = Some ?h1"
      by (rule loop_exit) (simp add: step False)
    ultimately show ?thesis using h1 by simp
  qed
qed

lemma RWQueue_Clear_rel:
  assumes "rw_rel e R V mode c (q, h) xs"
  shows "\<exists>h'. RWQueue_Clear q h = Some h' \<and> RWBlocks h' = RWBlocks h |` V
    \<and> (\<forall>a b. a \<notin> V \<and> RWBlocks h a = Some b \<longrightarrow> (\<exists>d. DestroyBlock b = Some d \<and> set d \<subseteq> {None}))"
proof -
  obtain as xss t where b: "rw_base e q h as xss t" "xs = concat xss" "dom (RWBlocks h) - set as = V"
    by (rule rw_relE [OF assms])
  note d = rw_baseD [OF b(1)]
  have l: "0 < length as" using d(15) by simp
  have fb: "FrontBlock q = Some (as ! 0)" using d(3,15) by (simp add: hd_conv_nth)
  obtain h' where h': "loop (RWQueue_Clear_body (Some (as ! 0))) (Some (as ! 0), h) = Some h'"
    "RWBlocks h' = (\<lambda>a. if a \<in> set as then None else RWBlocks h a)"
    using Clear_loop [OF b(1) l, of h] by auto
  have "RWBlocks h' = RWBlocks h |` V" unfolding h'(2) b(3) [symmetric] by (auto simp: fun_eq_iff restrict_map_def dom_def)
  moreover have "\<exists>d. DestroyBlock bb = Some d \<and> set d \<subseteq> {None}" if a: "a \<notin> V" "RWBlocks h a = Some bb" for a bb
  proof -
    have "a \<in> set as" using a b(3) by (auto simp: dom_def)
    then obtain i where i: "i < length as" "a = as ! i" by (auto simp: in_set_conv_nth)
    obtain b' m f where "RWBlocks h (as ! i) = Some b'" "rwb m b' f (xss ! i)" by (rule rw_block [OF d(2) i(1)])
    then show ?thesis using DestroyBlock_ok a(2) i(2) by auto
  qed
  ultimately show ?thesis using h'(1) fb unfolding RWQueue_Clear_def by auto
qed

section \<open>The contract of a queue\<close>

text \<open>
  \<^verbatim>\<open>Enqueue\<close> (\<open>CanAlloc\<close>) or \<^verbatim>\<open>TryEnqueue\<close> (\<open>CannotAlloc\<close>), and \<^verbatim>\<open>TryDequeue\<close>, as the operations of \<^verbatim>\<open>Fifo\<close>.  A
  program that ends in \<^verbatim>\<open>std::terminate\<close> gives no response.
\<close>

definition rw_enq :: "nat \<Rightarrow> RWAllocMode \<Rightarrow> 'a option \<Rightarrow> rwq \<times> 'a rwheap \<Rightarrow> (bool res \<times> rwq \<times> 'a rwheap) option" where
  "rw_enq e mode arg st = do {
     (r, st') \<leftarrow> (if mode = RWAllocMode.CanAlloc then RWQueue_Enqueue (2 ^ e) arg (fst st) (snd st)
                else RWQueue_TryEnqueue (2 ^ e) arg (fst st) (snd st));
     case r of Returned b \<Rightarrow> Some (Ret b, st') | Threw \<Rightarrow> Some (Exn, st') | Terminated \<Rightarrow> None }"

definition rw_deq :: "rwq \<times> 'a rwheap \<Rightarrow> ('a option res \<times> rwq \<times> 'a rwheap) option" where
  "rw_deq st = do {
     (x, st') \<leftarrow> RWQueue_TryDequeue (fst st) (snd st);
     Some (Ret x, st') }"

lemma enq_result_case:
  "(case r of Returned True \<Rightarrow> A | Returned False \<Rightarrow> B | Threw \<Rightarrow> C | Terminated \<Rightarrow> D)
     \<longleftrightarrow> r = Returned True \<and> A \<or> r = Returned False \<and> B \<or> r = Threw \<and> C \<or> r = Terminated \<and> D"
  by (auto split: enq_result.splits bool.splits)

lemma rw_enq_Inner: "rw_enq e mode arg (q, h) = do {
     (r, st') \<leftarrow> RWQueue_InnerEnqueue (2 ^ e) mode arg q h;
     case r of Returned b \<Rightarrow> Some (Ret b, st') | Threw \<Rightarrow> Some (Exn, st') | Terminated \<Rightarrow> None }"
  by (cases mode) (simp_all add: rw_enq_def RWQueue_Enqueue_def RWQueue_TryEnqueue_def)

definition rw_queue :: "nat \<Rightarrow> nat option \<Rightarrow> RWAllocMode \<Rightarrow> nat \<Rightarrow> rwq \<times> 'a rwheap \<Rightarrow> 'a list \<Rightarrow> bool" where
  "rw_queue e R mode c st xs \<longleftrightarrow> (\<exists>V. rw_rel e R V mode c st xs)"

lemma rw_queueD: "rw_queue e R mode (Suc c) st xs \<Longrightarrow> \<exists>V. rw_rel e R V mode c (fst st, snd st) xs"
  by (auto simp: rw_queue_def intro: rw_rel_mono)

interpretation spsc: budget_queue "rw_queue e R mode" "rw_enq e mode" rw_deq "\<lambda>_. False"
  for e R mode
proof
  fix c and st :: "rwq \<times> 'a rwheap" and xs arg
  assume "rw_queue e R mode (Suc c) st xs"
  then obtain V where "rw_rel e R V mode (Suc c) (fst st, snd st) xs" by (auto simp: rw_queue_def)
  from InnerEnqueue_rel [OF this, of arg] obtain r q' h' V' where
    r: "RWQueue_InnerEnqueue (2 ^ e) mode arg (fst st) (snd st) = Some (r, q', h')"
      "r = Returned True \<and> (\<exists>v. arg = Some v \<and> rw_rel e R V' mode c (q', h') (xs @ [v]))
        \<or> r = Returned False \<and> rw_rel e R V' mode c (q', h') xs \<or> r = Threw \<and> rw_rel e R V' mode c (q', h') xs"
    unfolding enq_result_case by blast
  have "rw_enq e mode arg st = (case r of Returned b \<Rightarrow> Some (Ret b, q', h') | Threw \<Rightarrow> Some (Exn, q', h') | Terminated \<Rightarrow> None)"
    using rw_enq_Inner [of e mode arg "fst st" "snd st"] r(1) by simp
  then show "\<exists>r s'. rw_enq e mode arg st = Some (r, s')
      \<and> (case r of Ret True \<Rightarrow> \<exists>v. arg = Some v \<and> rw_queue e R mode c s' (xs @ [v]) | _ \<Rightarrow> rw_queue e R mode c s' xs)"
    using r(2) unfolding rw_queue_def by (elim disjE conjE) fastforce+
next
  fix c and st :: "rwq \<times> 'a rwheap"
  assume "rw_queue e R mode (Suc c) st []"
  then obtain V where "rw_rel e R V mode c (fst st, snd st) []" using rw_queueD by blast
  from TryDequeue_rel [OF this] show "\<exists>s'. rw_deq st = Some (Ret None, s') \<and> rw_queue e R mode c s' []"
    by (auto simp: rw_deq_def rw_queue_def)
next
  fix c and st :: "rwq \<times> 'a rwheap" and x xs
  assume "rw_queue e R mode (Suc c) st (x # xs)"
  then obtain V where "rw_rel e R V mode c (fst st, snd st) (x # xs)" using rw_queueD by blast
  from TryDequeue_rel [OF this]
  show "\<exists>s'. rw_deq st = Some (if False then Exn else Ret (Some x), s') \<and> rw_queue e R mode c s' xs"
    by (auto simp: rw_deq_def rw_queue_def)
qed

text \<open>A new queue.\<close>

lemma rw_rel_new:
  fixes h :: "'a rwheap"
  assumes "\<forall>a \<ge> RWBrk h. RWBlocks h a = None" "1 \<le> e" "e < 64" "1 \<le> unat R" "unat R < 2 ^ 63" "unat R + 1 \<le> RWQuota h"
  shows "\<exists>q h'. RWQueue_new (2 ^ e) R h = Some (Made (q, h'))
    \<and> rw_rel e (Some (unat R)) (dom (RWBlocks h)) RWAllocMode.CannotAlloc c (q, h') []
    \<and> (c + unat R + 1 \<le> RWQuota h \<longrightarrow> rw_rel e None (dom (RWBlocks h)) mode c (q, h') [])"
proof -
  obtain q h' as where n: "RWQueue_new (2 ^ e) R h = Some (Made (q, h'))"
    "rw_base e q h' as (replicate (length as) []) 0" "\<not> DequeueStatus q" "\<not> EnqueueStatus q"
    "reserved (unat R) h' as" "RWQuota h \<le> RWQuota h' + unat R + 1" "\<forall>a. a \<notin> set as \<longrightarrow> RWBlocks h' a = RWBlocks h a"
    "\<forall>a \<in> set as. RWBrk h \<le> a"
    using RWQueue_new_ok [OF assms] by blast
  have c: "concat (replicate k []) = ([] :: 'a list)" for k by (induction k) simp_all
  have "a \<notin> dom (RWBlocks h)" if "a \<in> set as" for a using n(8) assms(1) that by (simp add: domIff)
  moreover have "a \<in> dom (RWBlocks h') \<longleftrightarrow> a \<in> dom (RWBlocks h)" if "a \<notin> set as" for a
    using n(7) that by (simp add: domIff)
  ultimately have V: "dom (RWBlocks h') - set as = dom (RWBlocks h)" by blast
  have "rw_rel e (Some (unat R)) (dom (RWBlocks h)) RWAllocMode.CannotAlloc c (q, h') (concat (replicate (length as) []))"
    by (rule rw_relI [OF n(2-4)]) (use n(5) V in auto)
  moreover have "rw_rel e None (dom (RWBlocks h)) mode c (q, h') (concat (replicate (length as) []))"
    if "c + unat R + 1 \<le> RWQuota h"
    by (rule rw_relI [OF n(2-4)]) (use n(6) V that in auto)
  ultimately show ?thesis using n(1) unfolding c by blast
qed

definition no_blocks :: "nat \<Rightarrow> 'a rwheap" where
  "no_blocks n = \<lparr>RWBlocks = Map.empty, RWBrk = 1, RWQuota = n\<rparr>"

lemma rw_example:
  "\<exists>q h. RWQueue_new 4 3 (no_blocks 30) = Some (Made (q, h))
    \<and> rw_rel 2 (Some 3) {} RWAllocMode.CannotAlloc 20 (q, h) ([] :: nat list)
    \<and> rw_rel 2 None {} RWAllocMode.CanAlloc 20 (q, h) []"
  using rw_rel_new [of "no_blocks 30 :: nat rwheap" 2 3 20 RWAllocMode.CanAlloc] by (simp add: no_blocks_def)

text \<open>Enqueuing several values into a queue that has room for them by its reservation.\<close>

lemma reservation_run:
  assumes "rw_queue e (Some R) RWAllocMode.CannotAlloc (length vs + c) st xs" "length xs + length vs \<le> R"
  shows "\<exists>st'. queue_run (rw_enq e RWAllocMode.CannotAlloc) rw_deq (List.map (\<lambda>v. Enq (Some v)) vs) st
      = Some (replicate (length vs) (EnqResp (Ret True)), st')
    \<and> rw_queue e (Some R) RWAllocMode.CannotAlloc c st' (xs @ vs)"
  using assms
proof (induction vs arbitrary: st xs)
  case Nil
  then show ?case by simp
next
  case (Cons v vs)
  from Cons.prems(1) obtain V where
    "rw_rel e (Some R) V RWAllocMode.CannotAlloc (Suc (length vs + c)) (fst st, snd st) xs" by (auto simp: rw_queue_def)
  from InnerEnqueue_rel [OF this, of "Some v"] obtain r q' h' V' where
    r: "RWQueue_InnerEnqueue (2 ^ e) RWAllocMode.CannotAlloc (Some v) (fst st) (snd st) = Some (r, q', h')"
      "r = Returned True \<and> rw_rel e (Some R) V' RWAllocMode.CannotAlloc (length vs + c) (q', h') (xs @ [v])
        \<or> r = Returned False \<and> R \<le> length xs"
    unfolding enq_result_case by auto
  have "r = Returned True" "rw_queue e (Some R) RWAllocMode.CannotAlloc (length vs + c) (q', h') (xs @ [v])"
    using r(2) Cons.prems(2) by (auto simp: rw_queue_def)
  moreover from Cons.IH [OF this(2)] Cons.prems(2) obtain st' where
    "queue_run (rw_enq e RWAllocMode.CannotAlloc) rw_deq (List.map (\<lambda>v. Enq (Some v)) vs) (q', h')
      = Some (replicate (length vs) (EnqResp (Ret True)), st')"
    "rw_queue e (Some R) RWAllocMode.CannotAlloc c st' (xs @ v # vs)" by auto
  ultimately show ?case using r(1) rw_enq_Inner [of e RWAllocMode.CannotAlloc "Some v" "fst st" "snd st"] by simp
qed

section \<open>Properties\<close>

text \<open>C4. \<^verbatim>\<open>ReaderWriterQueue\<close> refines a queue of values: any sequence of \<^verbatim>\<open>Enqueue\<close> (or \<^verbatim>\<open>TryEnqueue\<close>) and
  \<^verbatim>\<open>TryDequeue\<close>, with memory for as many blocks as operations where \<^verbatim>\<open>Enqueue\<close> is used, runs to its end
  without undefined behaviour, failed assertion or \<^verbatim>\<open>std::terminate\<close>, and answers as a queue of values does.\<close>

theorem RWQueue_refines_fifo:
  assumes "rw_queue e R mode (length ops) st xs"
  shows "\<exists>rs st' ys. queue_run (rw_enq e mode) rw_deq ops st = Some (rs, st')
    \<and> rw_queue e R mode 0 st' ys \<and> fifo_trace (\<lambda>_. False) xs ops rs ys"
  using spsc.run_refines [where c = 0] assms by simp

theorem RWQueue_refines_fifo_witness:
  "\<exists>(q :: rwq) (h :: nat rwheap) rs st' ys. RWQueue_new 4 3 (no_blocks 30) = Some (Made (q, h))
    \<and> queue_run (rw_enq 2 RWAllocMode.CanAlloc) rw_deq
        [Enq (Some 1), Enq (Some 2), Enq None, Enq (Some 3), Enq (Some 4), Deq, Enq (Some 5), Deq, Deq, Deq, Deq, Deq] (q, h) = Some (rs, st')
    \<and> fifo_trace (\<lambda>_. False) []
        [Enq (Some 1), Enq (Some 2), Enq None, Enq (Some 3), Enq (Some 4), Deq, Enq (Some 5), Deq, Deq, Deq, Deq, Deq] rs ys"
proof -
  let ?ops = "[Enq (Some 1), Enq (Some 2), Enq None, Enq (Some 3), Enq (Some 4), Deq, Enq (Some 5), Deq, Deq, Deq, Deq, Deq :: nat qop]"
  obtain q and h :: "nat rwheap" where q: "RWQueue_new 4 3 (no_blocks 30) = Some (Made (q, h))"
    "rw_rel 2 None {} RWAllocMode.CanAlloc 20 (q, h) ([] :: nat list)" using rw_example by blast
  have "rw_queue 2 None RWAllocMode.CanAlloc (length ?ops) (q, h) ([] :: nat list)"
    using q(2) by (force simp: rw_queue_def rw_rel_def)
  from RWQueue_refines_fifo [OF this] q(1) show ?thesis by blast
qed

lemma rw_rel_budget:
  "rw_rel e R V mode c st xs \<Longrightarrow> (mode = RWAllocMode.CanAlloc \<Longrightarrow> c' \<le> RWQuota (snd st)) \<Longrightarrow> rw_rel e R V mode c' st xs"
  unfolding rw_rel_def by auto

lemma rw_rel_mode:
  "rw_rel e None V m c st xs \<Longrightarrow> (mode = RWAllocMode.CanAlloc \<Longrightarrow> c' \<le> RWQuota (snd st)) \<Longrightarrow> rw_rel e None V mode c' st xs"
  unfolding rw_rel_def by auto

text \<open>Without memory the two modes differ only where a block is wanted.\<close>

lemma InnerEnqueue_no_memory:
  assumes "RWQuota h = 0" "RWQueue_InnerEnqueue EXP RWAllocMode.CannotAlloc arg q h = Some (r, q1, h1)"
  shows "r = Returned False \<Longrightarrow> \<exists>q2 h2. RWQueue_InnerEnqueue EXP RWAllocMode.CanAlloc arg q h = Some (Terminated, q2, h2)"
    "r \<noteq> Returned False \<Longrightarrow> RWQueue_InnerEnqueue EXP RWAllocMode.CanAlloc arg q h = Some (r, q1, h1)"
proof -
  obtain q0 a b where g: "EnqueueGuard q = Some q0" "rget h (RWTailBlock q0) = Some (a, b)"
    using assms(2) by (auto simp: RWQueue_InnerEnqueue_def bind_eq_Some_conv)
  let ?b1 = "if (Tail b + 1) AND SizeMask b \<noteq> LocalFront b then b else b\<lparr>LocalFront := Front b\<rparr>"
  note run = RWQueue_InnerEnqueue_def g Let_def Option.bind.simps prod.case
  have "if (Tail b + 1) AND SizeMask b = LocalFront ?b1 \<and> RWNext ?b1 = FrontBlock q0
    then r = Returned False \<and> (\<exists>q2 h2. RWQueue_InnerEnqueue EXP RWAllocMode.CanAlloc arg q h = Some (Terminated, q2, h2))
    else r \<noteq> Returned False \<and> RWQueue_InnerEnqueue EXP RWAllocMode.CanAlloc arg q h = Some (r, q1, h1)"
  proof (cases "(Tail b + 1) AND SizeMask b = LocalFront ?b1")
    case False
    then have "\<And>mode. RWQueue_InnerEnqueue EXP mode arg q h = (case arg of None \<Rightarrow> Some (Threw, EndEnqueue q0, rput a ?b1 h)
        | Some v \<Rightarrow> do { h2 \<leftarrow> PutTail a v (rput a ?b1 h); Some (Returned True, EndEnqueue q0, h2) })"
      unfolding run by (simp only: if_P not_False_eq_True)
    with assms(2) False show ?thesis by (cases arg) (auto simp: bind_eq_Some_conv simp del: rput_simps)
  next
    case full: True
    show ?thesis
    proof (cases "RWNext ?b1 = FrontBlock q0")
      case True
      have "RWQuota (rput a ?b1 h) = 0" using assms(1) by simp
      then have "\<exists>q2. EnqueueNewBlock EXP arg a q0 (rput a ?b1 h) = Some (Terminated, q2, rput a ?b1 h)"
        by (simp add: EnqueueNewBlock_def MakeBlock_def Let_def)
      then have "\<exists>q2 h2. RWQueue_InnerEnqueue EXP RWAllocMode.CanAlloc arg q h = Some (Terminated, q2, h2)"
        using full True unfolding run by auto
      moreover have "r = Returned False" using assms(2) full True unfolding run by simp
      ultimately show ?thesis using full True by simp
    next
      case False
      then have "\<And>mode mode'. RWQueue_InnerEnqueue EXP mode arg q h = RWQueue_InnerEnqueue EXP mode' arg q h"
        using full unfolding run by simp
      with assms(2) have "RWQueue_InnerEnqueue EXP RWAllocMode.CanAlloc arg q h = Some (r, q1, h1)" by metis
      moreover have "r \<noteq> Returned False" using assms(2) full False unfolding run by (auto simp: bind_eq_Some_conv split: if_splits option.splits)
      ultimately show ?thesis using False by simp
    qed
  qed
  then show "r = Returned False \<Longrightarrow> \<exists>q2 h2. RWQueue_InnerEnqueue EXP RWAllocMode.CanAlloc arg q h = Some (Terminated, q2, h2)"
    "r \<noteq> Returned False \<Longrightarrow> RWQueue_InnerEnqueue EXP RWAllocMode.CanAlloc arg q h = Some (r, q1, h1)" by (auto split: if_splits)
qed

text \<open>C24. \<^verbatim>\<open>InnerEnqueue\<close> on every path, the end of memory included, for a queue with blocks of at most 2^e slots: it puts the value at
  the end and returns true; or, only if it must not allocate, finds the queue full of at least the reserved number of values and returns
  false; or is left by the constructor's exception with the queue as it was; or ends the program, because a block is wanted and there is
  no memory for one and \<^verbatim>\<open>MakeBlock\<close> is \<^verbatim>\<open>noexcept\<close>: only if it may allocate, not a single block can be allocated, and \<^verbatim>\<open>TryEnqueue\<close> would
  have returned false.  A block is added to the memory outside the queue, lost, only by the constructor's exception.\<close>

theorem RWQueue_Enqueue_correct:
  assumes "rw_rel e R V mode c (q, h) xs"
  shows "\<exists>r q' h' V'. RWQueue_InnerEnqueue (2 ^ e) mode arg q h = Some (r, q', h')
    \<and> V \<subseteq> V' \<and> (arg \<noteq> None \<longrightarrow> V' = V)
    \<and> (case r of
         Returned True \<Rightarrow> \<exists>v. arg = Some v \<and> rw_rel e R V' mode (c - 1) (q', h') (xs @ [v])
       | Returned False \<Rightarrow> mode = RWAllocMode.CannotAlloc \<and> (\<forall>n. R = Some n \<longrightarrow> n \<le> length xs) \<and> rw_rel e R V' mode (c - 1) (q', h') xs
       | Threw \<Rightarrow> arg = None \<and> rw_rel e R V' mode (c - 1) (q', h') xs
       | Terminated \<Rightarrow> mode = RWAllocMode.CanAlloc \<and> RWQuota h = 0
           \<and> (\<exists>q2 h2. RWQueue_TryEnqueue (2 ^ e) arg q h = Some (Returned False, q2, h2)))"
proof (cases "mode = RWAllocMode.CanAlloc \<and> RWQuota h = 0")
  case False
  then have "rw_rel e R V mode (Suc (c - 1)) (q, h) xs" using assms by (intro rw_rel_budget [OF assms]) (auto simp: rw_rel_def)
  from InnerEnqueue_rel [OF this, of arg] obtain r q' h' V' where r: "RWQueue_InnerEnqueue (2 ^ e) mode arg q h = Some (r, q', h')"
    "V \<subseteq> V'" "arg \<noteq> None \<longrightarrow> V' = V" "case r of
         Returned True \<Rightarrow> \<exists>v. arg = Some v \<and> rw_rel e R V' mode (c - 1) (q', h') (xs @ [v])
       | Returned False \<Rightarrow> mode = RWAllocMode.CannotAlloc \<and> (\<forall>n. R = Some n \<longrightarrow> n \<le> length xs) \<and> rw_rel e R V' mode (c - 1) (q', h') xs
       | Threw \<Rightarrow> arg = None \<and> rw_rel e R V' mode (c - 1) (q', h') xs
       | Terminated \<Rightarrow> False" by blast
  then show ?thesis by (intro exI [of _ r] exI [of _ q'] exI [of _ h'] exI [of _ V']) (cases r; auto split: bool.splits)
next
  case True
  have R: "R = None" using assms True by (cases R) (auto simp: rw_rel_def)
  have c: "c = 0" using assms True by (auto simp: rw_rel_def)
  have can: "rw_rel e R W mode (c - 1) st ys" if "rw_rel e R W RWAllocMode.CannotAlloc c0 st ys" for W c0 st ys
    unfolding R by (rule rw_rel_mode [OF that [unfolded R]]) (simp add: c)
  have "rw_rel e R V RWAllocMode.CannotAlloc (Suc 0) (q, h) xs" unfolding R by (rule rw_rel_mode [OF assms [unfolded R]]) simp
  from InnerEnqueue_rel [OF this, of arg] obtain r q' h' V' where r:
    "RWQueue_InnerEnqueue (2 ^ e) RWAllocMode.CannotAlloc arg q h = Some (r, q', h')" "V \<subseteq> V'" "arg \<noteq> None \<longrightarrow> V' = V"
    "case r of
         Returned True \<Rightarrow> \<exists>v. arg = Some v \<and> rw_rel e R V' RWAllocMode.CannotAlloc 0 (q', h') (xs @ [v])
       | Returned False \<Rightarrow> RWAllocMode.CannotAlloc = RWAllocMode.CannotAlloc \<and> (\<forall>n. R = Some n \<longrightarrow> n \<le> length xs)
           \<and> rw_rel e R V' RWAllocMode.CannotAlloc 0 (q', h') xs
       | Threw \<Rightarrow> arg = None \<and> rw_rel e R V' RWAllocMode.CannotAlloc 0 (q', h') xs
       | Terminated \<Rightarrow> False" by blast
  show ?thesis
  proof (cases "r = Returned False")
    case full: True
    then obtain q2 h2 where "RWQueue_InnerEnqueue (2 ^ e) mode arg q h = Some (Terminated, q2, h2)"
      using InnerEnqueue_no_memory(1) [OF _ r(1) full] True by auto
    then show ?thesis using r(1) full True
      by (intro exI [of _ Terminated] exI [of _ q2] exI [of _ h2] exI [of _ V]) (auto simp: RWQueue_TryEnqueue_def)
  next
    case False
    then have "RWQueue_InnerEnqueue (2 ^ e) mode arg q h = Some (r, q', h')" using InnerEnqueue_no_memory(2) [OF _ r(1)] True by auto
    then show ?thesis using r(2-4) False can
      by (intro exI [of _ r] exI [of _ q'] exI [of _ h'] exI [of _ V']) (cases r; auto split: bool.splits)
  qed
qed

text \<open>With memory for one block the program goes on.\<close>

theorem RWQueue_Enqueue_correct_witness:
  "\<exists>(q :: rwq) (h :: nat rwheap) q' h'. RWQueue_new 4 3 (no_blocks 30) = Some (Made (q, h))
    \<and> RWQueue_InnerEnqueue 4 RWAllocMode.CanAlloc (Some 7) q h = Some (Returned True, q', h')
    \<and> rw_rel 2 None {} RWAllocMode.CanAlloc 19 (q', h') [7]"
proof -
  obtain q and h :: "nat rwheap" where q: "RWQueue_new 4 3 (no_blocks 30) = Some (Made (q, h))"
    "rw_rel 2 None {} RWAllocMode.CanAlloc (Suc 19) (q, h) ([] :: nat list)" using rw_example by auto
  have quota: "RWQuota h \<noteq> 0" using q(2) by (auto simp: rw_rel_def)
  obtain r q' h' V' where r: "RWQueue_InnerEnqueue (2 ^ 2) RWAllocMode.CanAlloc (Some 7) q h = Some (r, q', h')" "V' = {}"
    "r = Returned True \<and> rw_rel 2 None V' RWAllocMode.CanAlloc 19 (q', h') ([] @ [7])"
    using RWQueue_Enqueue_correct [OF q(2), of "Some 7"] quota unfolding enq_result_case by auto
  then show ?thesis using q(1) by auto
qed

text \<open>The three operations of the consumer agree on the next element: \<^verbatim>\<open>Peek\<close> gives its place and leaves
  the queue as it is, \<^verbatim>\<open>TryDequeue\<close> hands it out and \<^verbatim>\<open>Pop\<close> drops it; on an empty queue all three say so.\<close>

theorem RWQueue_consumer_agrees:
  assumes "rw_rel e R V mode c (q, h) xs"
  shows "case xs of
      [] \<Rightarrow> \<exists>h1 h2 h3. RWQueue_Peek q h = Some (None, q, h1) \<and> RWQueue_TryDequeue q h = Some (None, q, h2)
        \<and> RWQueue_Pop q h = Some (False, q, h3) \<and> rw_rel e R V mode c (q, h2) []
    | x # ys \<Rightarrow> \<exists>a i h1 b q2 h2 q3 h3.
        RWQueue_Peek q h = Some (Some (a, i), q, h1) \<and> RWBlocks h1 a = Some b \<and> read_at (Data b) i = Some x
        \<and> rw_rel e R V mode c (q, h1) xs
        \<and> RWQueue_TryDequeue q h = Some (Some x, q2, h2) \<and> rw_rel e R V mode c (q2, h2) ys
        \<and> RWQueue_Pop q h = Some (True, q3, h3) \<and> rw_rel e R V mode c (q3, h3) ys"
  using Peek_rel [OF assms] TryDequeue_rel [OF assms] Pop_rel [OF assms] by (cases xs) auto

theorem RWQueue_consumer_agrees_witness:
  "\<exists>(q :: rwq) (h :: nat rwheap) h1 h2 h3. RWQueue_new 4 3 (no_blocks 30) = Some (Made (q, h))
    \<and> RWQueue_Peek q h = Some (None, q, h1) \<and> RWQueue_TryDequeue q h = Some (None, q, h2)
    \<and> RWQueue_Pop q h = Some (False, q, h3)"
proof -
  obtain q and h :: "nat rwheap" where q: "RWQueue_new 4 3 (no_blocks 30) = Some (Made (q, h))"
    "rw_rel 2 None {} RWAllocMode.CanAlloc 20 (q, h) ([] :: nat list)" using rw_example by blast
  from RWQueue_consumer_agrees [OF q(2)] q(1) show ?thesis by auto
qed

text \<open>C35. The promise of the reservation: a queue constructed for \<open>R\<close> elements (from 1 to below 2^63, with blocks of at most 2^e slots, e from 1
  to 63, and memory for the construction), after any history of \<^verbatim>\<open>TryEnqueue\<close> and \<^verbatim>\<open>TryDequeue\<close>, still accepts values without allocating up
  to \<open>R\<close> in all, wherever in the ring its elements lie.\<close>

theorem RWQueue_keeps_reservation:
  fixes h :: "'a rwheap"
  assumes "\<forall>a \<ge> RWBrk h. RWBlocks h a = None" "1 \<le> e" "e < 64" "1 \<le> unat R" "unat R < 2 ^ 63" "unat R + 1 \<le> RWQuota h"
  shows "\<exists>q h' rs st ys. RWQueue_new (2 ^ e) R h = Some (Made (q, h'))
    \<and> queue_run (rw_enq e RWAllocMode.CannotAlloc) rw_deq ops (q, h') = Some (rs, st)
    \<and> fifo_trace (\<lambda>_. False) [] ops rs ys
    \<and> (\<forall>vs. length ys + length vs \<le> unat R \<longrightarrow>
        (\<exists>st'. queue_run (rw_enq e RWAllocMode.CannotAlloc) rw_deq (List.map (\<lambda>v. Enq (Some v)) vs) st
          = Some (replicate (length vs) (EnqResp (Ret True)), st')))"
proof -
  have any: "rw_queue e (Some (unat R)) RWAllocMode.CannotAlloc c st ys"
    if "rw_queue e (Some (unat R)) RWAllocMode.CannotAlloc c0 st ys" for c c0 st and ys :: "'a list"
    using that by (simp add: rw_queue_def rw_rel_def)
  obtain q h' where q: "RWQueue_new (2 ^ e) R h = Some (Made (q, h'))"
    "rw_rel e (Some (unat R)) (dom (RWBlocks h)) RWAllocMode.CannotAlloc (length ops) (q, h') []"
    using rw_rel_new [OF assms] by blast
  then have "rw_queue e (Some (unat R)) RWAllocMode.CannotAlloc (length ops) (q, h') []" by (auto simp: rw_queue_def)
  then have "rw_queue e (Some (unat R)) RWAllocMode.CannotAlloc (length ops + 0) (q, h') []" by simp
  from spsc.run_refines [OF this] obtain rs st ys where
    r: "queue_run (rw_enq e RWAllocMode.CannotAlloc) rw_deq ops (q, h') = Some (rs, st)"
    "rw_queue e (Some (unat R)) RWAllocMode.CannotAlloc 0 st ys" "fifo_trace (\<lambda>_. False) [] ops rs ys" by blast
  show ?thesis
    using q(1) r(1,3) reservation_run [OF any [OF r(2)], where c = 0] by blast
qed

theorem RWQueue_keeps_reservation_witness:
  "\<exists>q (h' :: nat rwheap) rs st st'. RWQueue_new 4 6 (no_blocks 7) = Some (Made (q, h'))
    \<and> queue_run (rw_enq 2 RWAllocMode.CannotAlloc) rw_deq [Enq (Some 1), Enq (Some 2), Deq, Deq] (q, h') = Some (rs, st)
    \<and> queue_run (rw_enq 2 RWAllocMode.CannotAlloc) rw_deq (List.map (\<lambda>v. Enq (Some v)) [3, 4, 5, 6, 7, 8]) st
      = Some (replicate 6 (EnqResp (Ret True)), st')"
proof -
  let ?ops = "[Enq (Some 1), Enq (Some 2), Deq, Deq :: nat qop]"
  have two: "(2 :: size_t) ^ 2 = 4" by simp
  obtain q and h' :: "nat rwheap" and rs st ys where r: "RWQueue_new 4 6 (no_blocks 7) = Some (Made (q, h'))"
    "queue_run (rw_enq 2 RWAllocMode.CannotAlloc) rw_deq ?ops (q, h') = Some (rs, st)" "fifo_trace (\<lambda>_. False) [] ?ops rs ys"
    "\<forall>vs. length ys + length vs \<le> unat (6 :: size_t) \<longrightarrow> (\<exists>st'. queue_run (rw_enq 2 RWAllocMode.CannotAlloc) rw_deq (List.map (\<lambda>v. Enq (Some v)) vs) st
       = Some (replicate (length vs) (EnqResp (Ret True)), st'))"
    using RWQueue_keeps_reservation [of "no_blocks 7 :: nat rwheap" 2 6 ?ops, unfolded two] by (auto simp: no_blocks_def)
  let ?vs = "[3, 4, 5, 6, 7, 8 :: nat]"
  have "ys = []" using r(3) by (auto split: list.splits qresp.splits res.splits bool.splits)
  then have room: "length ys + length ?vs \<le> unat (6 :: size_t)" and len: "length ?vs = 6" by simp_all
  show ?thesis using r(4) [rule_format, OF room, unfolded len] r(1,2) by blast
qed

text \<open>With one thread at work, \<^verbatim>\<open>SizeApprox\<close> is the number of elements, and \<^verbatim>\<open>MaxCapacity\<close>, as long as it does
  not overflow, is at least that.\<close>

theorem RWQueue_sizes:
  assumes "rw_rel e R V mode c (q, h) xs"
  shows "RWQueue_SizeApprox q h = Some (of_nat (length xs))
    \<and> (\<exists>n. RWQueue_MaxCapacity q h = Some (of_nat n) \<and> length xs \<le> n)"
proof -
  obtain as xss t where b: "rw_base e q h as xss t" "xs = concat xss" by (rule rw_relE [OF assms])
  have "length (concat xss) \<le> sum_list (List.map (cap h) as)"
    using rw_baseD(2) [OF b(1)]
  proof (induction rule: list_all2_induct)
    case (Cons a as ys yss)
    then have "length ys \<le> cap h a" unfolding holds_def using cap_rwb by blast
    then show ?case using Cons.IH by simp
  qed simp
  then show ?thesis using SizeApprox_walk [OF b(1)] b(2) by auto
qed

theorem RWQueue_sizes_witness:
  "\<exists>(q :: rwq) (h :: nat rwheap). RWQueue_new 4 3 (no_blocks 30) = Some (Made (q, h)) \<and> RWQueue_SizeApprox q h = Some 0"
proof -
  obtain q and h :: "nat rwheap" where q: "RWQueue_new 4 3 (no_blocks 30) = Some (Made (q, h))"
    "rw_rel 2 None {} RWAllocMode.CanAlloc 20 (q, h) ([] :: nat list)" using rw_example by blast
  from RWQueue_sizes [OF q(2)] q(1) show ?thesis by auto
qed

text \<open>C25. The destructor runs to its end and frees exactly the queue's blocks: the memory outside the queue
  stays as it is.  Each of those blocks destroys every element still in it, once, before it is freed.\<close>

theorem RWQueue_Clear_frees:
  assumes "rw_rel e R V mode c (q, h) xs"
  shows "\<exists>h'. RWQueue_Clear q h = Some h' \<and> RWBlocks h' = RWBlocks h |` V
    \<and> (\<forall>a b. a \<notin> V \<and> RWBlocks h a = Some b \<longrightarrow> (\<exists>d. DestroyBlock b = Some d \<and> set d \<subseteq> {None}))"
  using assms by (rule RWQueue_Clear_rel)

theorem RWQueue_Clear_frees_witness:
  "\<exists>(q :: rwq) (h :: nat rwheap) h'. RWQueue_new 4 3 (no_blocks 30) = Some (Made (q, h))
    \<and> RWQueue_Clear q h = Some h' \<and> RWBlocks h' = Map.empty"
proof -
  obtain q and h :: "nat rwheap" where q: "RWQueue_new 4 3 (no_blocks 30) = Some (Made (q, h))"
    "rw_rel 2 None {} RWAllocMode.CanAlloc 20 (q, h) ([] :: nat list)" using rw_example by blast
  from RWQueue_Clear_frees [OF q(2)] q(1) show ?thesis by auto
qed

text \<open>The reservation must not be zero: then the first block has one slot, which counts as full and as
  empty at once.  When the producer comes round to it, the element goes in but the block still looks empty,
  and the consumer's assertion that it is not empty fails.\<close>

theorem RWQueue_reserve_zero:
  "(case RWQueue_new 4 0 (no_blocks 9) of
     Some (Made st) \<Rightarrow> Some (map_option fst (queue_run (rw_enq 2 RWAllocMode.CanAlloc) rw_deq
         [Enq (Some (1::nat)), Deq, Enq (Some 2), Enq (Some 3), Deq] st),
       map_option fst (queue_run (rw_enq 2 RWAllocMode.CanAlloc) rw_deq
         [Enq (Some 1), Deq, Enq (Some 2), Enq (Some 3), Deq, Deq] st))
   | _ \<Rightarrow> None)
   = Some (Some [EnqResp (Ret True), DeqResp (Ret (Some 1)), EnqResp (Ret True), EnqResp (Ret True), DeqResp (Ret (Some 2))],
       None)"
  by code_simp

end
