(* ===== verification/Light_Semaphore.thy ===== *)
theory Light_Semaphore
  imports Spsc_Queue_Properties
begin

text \<open>
  \<^verbatim>\<open>LightWeightSemaphore\<close> of \<^verbatim>\<open>ReaderWriterQueue/readerwriterqueue.h\<close>, as the atomic steps of one waiting and one
  signalling thread.  The class is written twice: with \<^verbatim>\<open>std::binary_semaphore\<close> for C++20, and with a semaphore
  of the operating system before that; the two differ in what a wait that has timed out does.

  The semaphore underneath is library code: \<open>SemTokens\<close> is its counter.  Acquiring blocks until there is a
  token, acquiring with a timeout may give up at any moment, and trying to acquire may fail spuriously:
  these choices are the argument \<open>ok\<close> of a step.  Releasing a \<^verbatim>\<open>binary_semaphore\<close> that has its token is
  undefined.
\<close>

datatype cpp = Cpp11 | Cpp20

text \<open>\<open>Count\<close> is a signed word that stays far from its limits; it is an integer here.\<close>

record lws =
  Count :: int
  SemTokens :: nat

section \<open>Waiting\<close>

text \<open>
  Where a waiting thread is: before the load of \<^verbatim>\<open>TryWait\<close>; before the decrement that follows a positive load;
  spinning, with the iterations that are left; before the decrement after the spinning; in the semaphore,
  for ever or with a timeout; before the increment that takes the decrement back; before the second
  decrement (only before C++20); before the attempt to acquire; returning.
\<close>

datatype wait_pc = TryLoad | Take | Spin nat | Sub | Acquire | AcquireFor | Restore | Resub | TryAcquire | WReturn bool

text \<open>
  One step.  \<open>Timeout = None\<close> is a call of \<^verbatim>\<open>TryWait\<close>, \<open>Some t\<close> one of \<^verbatim>\<open>Wait(t)\<close>.  A thread that is blocked
  stays where it is.
\<close>

fun wait_step :: "cpp \<Rightarrow> int option \<Rightarrow> bool \<Rightarrow> wait_pc \<Rightarrow> lws \<Rightarrow> wait_pc \<times> lws" where
  "wait_step v Timeout ok TryLoad s =
     (if Count s > 0 then (Take, s)
      else case Timeout of None \<Rightarrow> (WReturn False, s) | Some _ \<Rightarrow> (Spin 1024, s))"
| "wait_step v Timeout ok Take s = (WReturn True, s\<lparr>Count := Count s - 1\<rparr>)"
| "wait_step v Timeout ok (Spin n) s =
     (case n of 0 \<Rightarrow> (Sub, s) | Suc n' \<Rightarrow> if Count s > 0 then (Take, s) else (Spin n', s))"
| "wait_step v Timeout ok Sub s =
     (if Count s > 0 then WReturn True
      else case Timeout of None \<Rightarrow> Restore
        | Some t \<Rightarrow> if t < 0 then Acquire else if t > 0 then AcquireFor else Restore,
      s\<lparr>Count := Count s - 1\<rparr>)"
| "wait_step v Timeout ok Acquire s =
     (if SemTokens s > 0 then (WReturn True, s\<lparr>SemTokens := SemTokens s - 1\<rparr>) else (Acquire, s))"
| "wait_step v Timeout ok AcquireFor s =
     (if \<not> ok then (Restore, s)
      else if SemTokens s > 0 then (WReturn True, s\<lparr>SemTokens := SemTokens s - 1\<rparr>) else (AcquireFor, s))"
| "wait_step v Timeout ok Restore s =
     (if Count s < 0 then WReturn False else case v of Cpp20 \<Rightarrow> TryAcquire | Cpp11 \<Rightarrow> Resub,
      s\<lparr>Count := Count s + 1\<rparr>)"
| "wait_step v Timeout ok Resub s = (if Count s > 0 then TryAcquire else Restore, s\<lparr>Count := Count s - 1\<rparr>)"
| "wait_step v Timeout ok TryAcquire s =
     (if ok \<and> SemTokens s > 0 then (WReturn True, s\<lparr>SemTokens := SemTokens s - 1\<rparr>) else (Restore, s))"
| "wait_step v Timeout ok (WReturn b) s = (WReturn b, s)"

section \<open>Signalling\<close>

datatype signal_pc = SAdd | SRelease | SReturn

text \<open>A step; \<open>None\<close> when an assertion fails or a \<^verbatim>\<open>binary_semaphore\<close> is released beyond its maximum.\<close>

fun signal_step :: "cpp \<Rightarrow> int \<Rightarrow> signal_pc \<Rightarrow> lws \<Rightarrow> (signal_pc \<times> lws) option" where
  "signal_step v Num SAdd s =
     (if (case v of Cpp20 \<Rightarrow> Num > 0 | Cpp11 \<Rightarrow> Num \<ge> 0) \<and> Count s \<ge> -1
      then Some (if Count s < 0 then SRelease else SReturn, s\<lparr>Count := Count s + Num\<rparr>) else None)"
| "signal_step v Num SRelease s =
     (if v = Cpp20 \<and> SemTokens s > 0 then None else Some (SReturn, s\<lparr>SemTokens := SemTokens s + 1\<rparr>))"
| "signal_step v Num SReturn s = Some (SReturn, s)"

definition Available :: "lws \<Rightarrow> nat" where
  "Available s = (if Count s > 0 then nat (Count s) else 0)"

definition LightWeightSemaphore_new :: "int \<Rightarrow> lws option" where
  "LightWeightSemaphore_new InitialCount = (if InitialCount \<ge> 0 then Some \<lparr>Count = InitialCount, SemTokens = 0\<rparr> else None)"

end
