(* ===== verification/Blocking_Queue.thy ===== *)
theory Blocking_Queue
  imports Light_Semaphore
begin

text \<open>
  \<^verbatim>\<open>BlockingReaderWriterQueue\<close> of \<^verbatim>\<open>ReaderWriterQueue/readerwriterqueue.h\<close>: a \<^verbatim>\<open>ReaderWriterQueue\<close> whose elements are
  counted by a semaphore.  The producer puts an element in and then signals; the consumer waits and then
  takes one out, and asserts that there was one.

  The model interleaves a producer and a consumer: each access to the semaphore is a step of its own, and
  so is each operation of the inner queue.
\<close>

section \<open>State\<close>

datatype consumer_op = OpTryDequeue | OpDequeue | OpDequeueWaitFor int | OpPop

text \<open>The producer is outside every operation or in \<^verbatim>\<open>Sem->Signal()\<close>; the consumer is outside, in a wait, or
  about to take its element.\<close>

datatype producer_pc = PIdle | PSignal signal_pc

datatype consumer_pc = CIdle | CWait consumer_op wait_pc | CTake consumer_op

text \<open>\<open>Sent\<close> and \<open>Received\<close> are the histories of the accepted values and of those taken out (\<open>None\<close>: dropped by \<^verbatim>\<open>Pop\<close>).\<close>

record 'a bq =
  Inner :: "rwq \<times> 'a rwheap"
  Sem :: lws
  Producer :: producer_pc
  Consumer :: consumer_pc
  Sent :: "'a list"
  Received :: "'a option list"

definition BlockingQueue_new :: "size_t \<Rightarrow> size_t \<Rightarrow> 'a rwheap \<Rightarrow> 'a bq option" where
  "BlockingQueue_new EXP ReservedSize h = do {
     r \<leftarrow> RWQueue_new EXP ReservedSize h;
     s \<leftarrow> LightWeightSemaphore_new 0;
     case r of Terminate \<Rightarrow> None
     | Made inner \<Rightarrow> Some \<lparr>Inner = inner, Sem = s, Producer = PIdle, Consumer = CIdle, Sent = [], Received = []\<rparr> }"

section \<open>Steps\<close>

datatype 'a bq_action = Produce RWAllocMode "'a option" | ProducerStep | Consume consumer_op | ConsumerStep bool

text \<open>\<^verbatim>\<open>Enqueue\<close> and \<^verbatim>\<open>TryEnqueue\<close>: the inner operation; after a true answer the producer goes on to signal.\<close>

definition Produce_step :: "size_t \<Rightarrow> RWAllocMode \<Rightarrow> 'a option \<Rightarrow> 'a bq \<Rightarrow> 'a bq option" where
  "Produce_step EXP mode arg st =
    (if Producer st \<noteq> PIdle then Some st
     else do {
       (r, inner) \<leftarrow> (if mode = RWAllocMode.CanAlloc then RWQueue_Enqueue EXP arg (fst (Inner st)) (snd (Inner st))
                    else RWQueue_TryEnqueue EXP arg (fst (Inner st)) (snd (Inner st)));
       let st1 = st\<lparr>Inner := inner\<rparr>;
       case r of
         Returned True \<Rightarrow> do { v \<leftarrow> arg; Some (st1\<lparr>Producer := PSignal SAdd, Sent := Sent st @ [v]\<rparr>) }
       | Returned False \<Rightarrow> Some st1
       | Threw \<Rightarrow> Some st1
       | Terminated \<Rightarrow> None })"

definition Producer_step :: "cpp \<Rightarrow> 'a bq \<Rightarrow> 'a bq option" where
  "Producer_step v st =
    (case Producer st of PIdle \<Rightarrow> Some st
     | PSignal pc \<Rightarrow> do {
         (pc', s) \<leftarrow> signal_step v 1 pc (Sem st);
         Some (st\<lparr>Sem := s, Producer := (if pc' = SReturn then PIdle else PSignal pc')\<rparr>) })"

text \<open>The argument of the wait: none for \<^verbatim>\<open>TryWait\<close>, \<open>-1\<close> for \<^verbatim>\<open>Wait()\<close>.\<close>

fun op_timeout :: "consumer_op \<Rightarrow> int option" where
  "op_timeout OpTryDequeue = None"
| "op_timeout OpPop = None"
| "op_timeout OpDequeue = Some (- 1)"
| "op_timeout (OpDequeueWaitFor t) = Some t"

definition Consume_step :: "consumer_op \<Rightarrow> 'a bq \<Rightarrow> 'a bq option" where
  "Consume_step op st = Some (if Consumer st = CIdle then st\<lparr>Consumer := CWait op TryLoad\<rparr> else st)"

text \<open>Taking the element: the assertion on \<^verbatim>\<open>Success\<close> is a fault when there is none.\<close>

definition Take_step :: "consumer_op \<Rightarrow> 'a bq \<Rightarrow> 'a bq option" where
  "Take_step op st =
    (if op = OpPop then do {
       (Success, inner) \<leftarrow> RWQueue_Pop (fst (Inner st)) (snd (Inner st));
       if Success then Some (st\<lparr>Inner := inner, Consumer := CIdle, Received := Received st @ [None]\<rparr>) else None }
     else do {
       (r, inner) \<leftarrow> RWQueue_TryDequeue (fst (Inner st)) (snd (Inner st));
       case r of None \<Rightarrow> None
       | Some x \<Rightarrow> Some (st\<lparr>Inner := inner, Consumer := CIdle, Received := Received st @ [Some x]\<rparr>) })"

definition Consumer_step :: "cpp \<Rightarrow> bool \<Rightarrow> 'a bq \<Rightarrow> 'a bq option" where
  "Consumer_step v ok st =
    (case Consumer st of CIdle \<Rightarrow> Some st
     | CTake op \<Rightarrow> Take_step op st
     | CWait op pc \<Rightarrow>
        (let (pc', s) = wait_step v (op_timeout op) ok pc (Sem st) in
         Some (st\<lparr>Sem := s, Consumer := (case pc' of WReturn True \<Rightarrow> CTake op | WReturn False \<Rightarrow> CIdle
           | _ \<Rightarrow> CWait op pc')\<rparr>)))"

fun bq_step :: "cpp \<Rightarrow> size_t \<Rightarrow> 'a bq_action \<Rightarrow> 'a bq \<Rightarrow> 'a bq option" where
  "bq_step v EXP (Produce mode arg) st = Produce_step EXP mode arg st"
| "bq_step v EXP ProducerStep st = Producer_step v st"
| "bq_step v EXP (Consume op) st = Consume_step op st"
| "bq_step v EXP (ConsumerStep ok) st = Consumer_step v ok st"

fun bq_run :: "cpp \<Rightarrow> size_t \<Rightarrow> 'a bq_action list \<Rightarrow> 'a bq \<Rightarrow> 'a bq option" where
  "bq_run v EXP [] st = Some st"
| "bq_run v EXP (a # as) st = do { st' \<leftarrow> bq_step v EXP a st; bq_run v EXP as st' }"

definition BlockingQueue_SizeApprox :: "'a bq \<Rightarrow> nat" where
  "BlockingQueue_SizeApprox st = Available (Sem st)"

definition BlockingQueue_MaxCapacity :: "'a bq \<Rightarrow> size_t option" where
  "BlockingQueue_MaxCapacity st = RWQueue_MaxCapacity (fst (Inner st)) (snd (Inner st))"

definition BlockingQueue_Peek :: "'a bq \<Rightarrow> ((addr \<times> nat) option \<times> 'a bq) option" where
  "BlockingQueue_Peek st = do {
     (r, inner) \<leftarrow> RWQueue_Peek (fst (Inner st)) (snd (Inner st));
     Some (r, st\<lparr>Inner := inner\<rparr>) }"

text \<open>
  The states an interleaving can reach.  The calls an interleaving makes are restricted by \<open>allowed\<close>.
\<close>

inductive bq_reach :: "('a bq_action \<Rightarrow> 'a bq \<Rightarrow> bool) \<Rightarrow> cpp \<Rightarrow> size_t \<Rightarrow> 'a bq \<Rightarrow> 'a bq \<Rightarrow> bool"
  for allowed v EXP st0 where
  start: "bq_reach allowed v EXP st0 st0"
| step: "bq_reach allowed v EXP st0 st \<Longrightarrow> allowed a st \<Longrightarrow> bq_step v EXP a st = Some st'
    \<Longrightarrow> bq_reach allowed v EXP st0 st'"

end
