(* ===== verification/Blocking_Queue_Properties.thy ===== *)
theory Blocking_Queue_Properties
  imports Blocking_Queue
begin

text \<open>
  The counting invariant of \<^verbatim>\<open>BlockingReaderWriterQueue\<close>: the count of the semaphore is the number of elements,
  less the one not yet signalled, less the one the consumer has claimed.  It holds in every interleaving of
  the version before C++20, and in that of C++20 as long as no wait has a time limit.
\<close>

section \<open>The count\<close>

text \<open>The elements not yet signalled, the claims of the consumer, and the releases still to come.\<close>

fun unsignalled :: "producer_pc \<Rightarrow> int" where
  "unsignalled (PSignal SAdd) = 1"
| "unsignalled _ = 0"

fun claimed :: "consumer_pc \<Rightarrow> int" where
  "claimed (CTake op) = 1"
| "claimed (CWait op pc) = (if pc \<in> {Acquire, AcquireFor, Restore, TryAcquire} then 1 else 0)"
| "claimed CIdle = 0"

fun pending :: "producer_pc \<Rightarrow> nat" where
  "pending (PSignal SRelease) = 1"
| "pending _ = 0"

text \<open>Whether the consumer is, or may still be, in the semaphore: one token is on its way when the count allows it.\<close>

fun tokens_due :: "consumer_pc \<Rightarrow> int \<Rightarrow> nat" where
  "tokens_due (CWait op pc) c =
     (if pc \<in> {Acquire, AcquireFor, Restore, TryAcquire} then (if 0 \<le> c then 1 else 0)
      else if pc = Resub then 1 else 0)"
| "tokens_due _ c = 0"

fun pc_ok :: "cpp \<Rightarrow> consumer_pc \<Rightarrow> int \<Rightarrow> bool" where
  "pc_ok v CIdle c \<longleftrightarrow> True"
| "pc_ok v (CTake op) c \<longleftrightarrow> 0 \<le> c"
| "pc_ok v (CWait op pc) c \<longleftrightarrow>
     (v = Cpp20 \<longrightarrow> (\<forall>t. op_timeout op = Some t \<longrightarrow> t < 0) \<and> pc \<notin> {AcquireFor, Restore, Resub, TryAcquire})
     \<and> (op_timeout op = None \<longrightarrow> pc \<in> {TryLoad, Take}) \<and> (\<forall>b. pc \<noteq> WReturn b)
     \<and> (pc \<in> {Take, Resub} \<longrightarrow> 0 < c)"

definition count_inv :: "cpp \<Rightarrow> nat \<Rightarrow> producer_pc \<Rightarrow> consumer_pc \<Rightarrow> lws \<Rightarrow> bool" where
  "count_inv v n P C s \<longleftrightarrow> Count s = int n - unsignalled P - claimed C \<and> 0 \<le> Count s + claimed C
     \<and> SemTokens s + pending P = tokens_due C (Count s) \<and> pc_ok v C (Count s) \<and> P \<noteq> PSignal SReturn"

definition wait_next :: "consumer_op \<Rightarrow> wait_pc \<Rightarrow> consumer_pc" where
  "wait_next op pc = (case pc of WReturn True \<Rightarrow> CTake op | WReturn False \<Rightarrow> CIdle | _ \<Rightarrow> CWait op pc)"

lemma count_inv_wait:
  assumes "count_inv v n P (CWait op pc) s" "wait_step v (op_timeout op) ok pc s = (pc', s')"
  shows "count_inv v n P (wait_next op pc') s'"
  using assms
  by (cases pc; cases "op_timeout op"; cases v)
    (auto simp: count_inv_def wait_next_def split: if_splits nat.splits)

lemma count_inv_signal:
  assumes "count_inv v n (PSignal pc) C s"
  shows "\<exists>pc' s'. signal_step v 1 pc s = Some (pc', s') \<and> count_inv v n (if pc' = SReturn then PIdle else PSignal pc') C s'"
proof (cases pc)
  case SAdd
  then show ?thesis using assms
    by (cases C; cases v) (auto simp: count_inv_def split: if_splits)
next
  case SRelease
  then show ?thesis using assms by (cases C; cases v) (auto simp: count_inv_def split: if_splits)
next
  case SReturn
  then show ?thesis using assms by (simp add: count_inv_def)
qed

lemma count_inv_produce: "count_inv v n PIdle C s \<Longrightarrow> count_inv v (Suc n) (PSignal SAdd) C s"
  by (auto simp: count_inv_def)

lemma count_inv_take: "count_inv v n P (CTake op) s \<Longrightarrow> 0 < n \<and> count_inv v (n - 1) P CIdle s"
proof -
  assume c: "count_inv v n P (CTake op) s"
  have "0 \<le> unsignalled P" by (cases P rule: unsignalled.cases) simp_all
  then show ?thesis using c by (auto simp: count_inv_def)
qed

lemma count_inv_consume:
  "count_inv v n P CIdle s \<Longrightarrow> (v = Cpp20 \<longrightarrow> (\<forall>t. op_timeout op = Some t \<longrightarrow> t < 0)) \<Longrightarrow> count_inv v n P (CWait op TryLoad) s"
  by (simp add: count_inv_def)

section \<open>The queue and its histories\<close>

text \<open>The accepted values are those taken out, or dropped by \<^verbatim>\<open>Pop\<close>, followed by those still inside.\<close>

definition bq_inv :: "nat \<Rightarrow> cpp \<Rightarrow> 'a bq \<Rightarrow> 'a list \<Rightarrow> bool" where
  "bq_inv e v st xs \<longleftrightarrow> (\<exists>V. rw_rel e None V RWAllocMode.CannotAlloc 0 (Inner st) xs)
     \<and> (\<exists>taken. Sent st = taken @ xs \<and> list_all2 (\<lambda>r x. r = None \<or> r = Some x) (Received st) taken)
     \<and> count_inv v (length xs) (Producer st) (Consumer st) (Sem st)"

text \<open>What a caller must respect: memory for \<^verbatim>\<open>Enqueue\<close>, and no time limits in C++20.\<close>

definition allowed :: "cpp \<Rightarrow> 'a bq_action \<Rightarrow> 'a bq \<Rightarrow> bool" where
  "allowed v a st \<longleftrightarrow> (case a of
      Produce mode arg \<Rightarrow> mode = RWAllocMode.CanAlloc \<longrightarrow> 0 < RWQuota (snd (Inner st))
    | Consume op \<Rightarrow> v = Cpp20 \<longrightarrow> (\<forall>t. op_timeout op = Some t \<longrightarrow> t < 0)
    | _ \<Rightarrow> True)"

lemma bq_produce:
  assumes inv: "bq_inv e v st xs" and al: "allowed v (Produce mode arg) st"
  shows "\<exists>st' xs'. Produce_step (2 ^ e) mode arg st = Some st' \<and> bq_inv e v st' xs'"
proof (cases "Producer st = PIdle")
  case False
  then show ?thesis using inv by (auto simp: Produce_step_def)
next
  case True
  obtain V taken where i: "rw_rel e None V RWAllocMode.CannotAlloc 0 (fst (Inner st), snd (Inner st)) xs"
    "Sent st = taken @ xs" "list_all2 (\<lambda>r x. r = None \<or> r = Some x) (Received st) taken"
    "count_inv v (length xs) PIdle (Consumer st) (Sem st)"
    using inv True by (auto simp: bq_inv_def)
  have "rw_rel e None V mode (Suc 0) (fst (Inner st), snd (Inner st)) xs"
    by (rule rw_rel_mode [OF i(1)]) (use al in \<open>simp add: allowed_def Suc_le_eq\<close>)
  from InnerEnqueue_rel [OF this, of arg] obtain r q' h' V' where
    r: "RWQueue_InnerEnqueue (2 ^ e) mode arg (fst (Inner st)) (snd (Inner st)) = Some (r, q', h')"
    "r = Returned True \<and> (\<exists>v. arg = Some v \<and> rw_rel e None V' mode 0 (q', h') (xs @ [v]))
      \<or> r = Returned False \<and> rw_rel e None V' mode 0 (q', h') xs \<or> r = Threw \<and> rw_rel e None V' mode 0 (q', h') xs"
    unfolding enq_result_case by blast
  have run: "(if mode = RWAllocMode.CanAlloc then RWQueue_Enqueue (2 ^ e) arg (fst (Inner st)) (snd (Inner st))
      else RWQueue_TryEnqueue (2 ^ e) arg (fst (Inner st)) (snd (Inner st))) = Some (r, q', h')"
    using r(1) by (cases mode) (simp_all add: RWQueue_Enqueue_def RWQueue_TryEnqueue_def)
  show ?thesis
  proof (cases "r = Returned True")
    case True
    then obtain x where x: "arg = Some x" "rw_rel e None V' mode 0 (q', h') (xs @ [x])" using r(2) by auto
    have "rw_rel e None V' RWAllocMode.CannotAlloc 0 (q', h') (xs @ [x])" by (rule rw_rel_mode [OF x(2)]) simp
    then show ?thesis
      using run True x(1) i(2,3) count_inv_produce [OF i(4)] \<open>Producer st = PIdle\<close>
      by (intro exI [of _ "st\<lparr>Inner := (q', h'), Producer := PSignal SAdd, Sent := Sent st @ [x]\<rparr>"] exI [of _ "xs @ [x]"])
        (auto simp: Produce_step_def bq_inv_def)
  next
    case False
    then have n: "rw_rel e None V' mode 0 (q', h') xs" "r = Returned False \<or> r = Threw" using r(2) by auto
    have "rw_rel e None V' RWAllocMode.CannotAlloc 0 (q', h') xs" by (rule rw_rel_mode [OF n(1)]) simp
    then show ?thesis
      using run n(2) i(2-4) \<open>Producer st = PIdle\<close>
      by (intro exI [of _ "st\<lparr>Inner := (q', h')\<rparr>"] exI [of _ xs]) (auto simp: Produce_step_def bq_inv_def)
  qed
qed

lemma bq_take:
  assumes inv: "bq_inv e v st xs" and c: "Consumer st = CTake op"
  shows "\<exists>st' xs'. Take_step op st = Some st' \<and> bq_inv e v st' xs'"
proof -
  obtain V taken where i: "rw_rel e None V RWAllocMode.CannotAlloc 0 (fst (Inner st), snd (Inner st)) xs"
    "Sent st = taken @ xs" "list_all2 (\<lambda>r x. r = None \<or> r = Some x) (Received st) taken"
    "count_inv v (length xs) (Producer st) (CTake op) (Sem st)"
    using inv c by (auto simp: bq_inv_def)
  note n = count_inv_take [OF i(4)]
  obtain x ys where xs: "xs = x # ys" using n by (cases xs) auto
  have l: "list_all2 (\<lambda>r x. r = None \<or> r = Some x) (Received st @ [r]) (taken @ [x])" if "r = None \<or> r = Some x" for r
    using i(3) that by (simp add: list_all2_appendI)
  show ?thesis
  proof (cases "op = OpPop")
    case True
    obtain q' h' where "RWQueue_Pop (fst (Inner st)) (snd (Inner st)) = Some (True, q', h')"
      "rw_rel e None V RWAllocMode.CannotAlloc 0 (q', h') ys" using Pop_rel [OF i(1)] xs by auto
    then show ?thesis using True i(2) l [of None] n xs
      by (intro exI [of _ "st\<lparr>Inner := (q', h'), Consumer := CIdle, Received := Received st @ [None]\<rparr>"] exI [of _ ys])
        (force simp: Take_step_def bq_inv_def)
  next
    case False
    obtain q' h' where "RWQueue_TryDequeue (fst (Inner st)) (snd (Inner st)) = Some (Some x, q', h')"
      "rw_rel e None V RWAllocMode.CannotAlloc 0 (q', h') ys" using TryDequeue_rel [OF i(1)] xs by auto
    then show ?thesis using False i(2) l [of "Some x"] n xs
      by (intro exI [of _ "st\<lparr>Inner := (q', h'), Consumer := CIdle, Received := Received st @ [Some x]\<rparr>"] exI [of _ ys])
        (force simp: Take_step_def bq_inv_def)
  qed
qed

lemma bq_step_inv:
  assumes inv: "bq_inv e v st xs" and al: "allowed v a st"
  shows "\<exists>st' xs'. bq_step v (2 ^ e) a st = Some st' \<and> bq_inv e v st' xs'"
proof (cases a)
  case (Produce mode arg)
  then show ?thesis using bq_produce inv al by simp
next
  case ProducerStep
  show ?thesis
  proof (cases "Producer st")
    case PIdle
    then show ?thesis using ProducerStep inv by (auto simp: Producer_step_def)
  next
    case (PSignal pc)
    then have "count_inv v (length xs) (PSignal pc) (Consumer st) (Sem st)" using inv by (simp add: bq_inv_def)
    from count_inv_signal [OF this] obtain pc' s' where s: "signal_step v 1 pc (Sem st) = Some (pc', s')"
      "count_inv v (length xs) (if pc' = SReturn then PIdle else PSignal pc') (Consumer st) s'" by blast
    then show ?thesis using ProducerStep PSignal inv by (auto simp: Producer_step_def bq_inv_def)
  qed
next
  case (Consume op)
  show ?thesis
  proof (cases "Consumer st = CIdle")
    case True
    then show ?thesis using Consume inv al count_inv_consume [of v "length xs" "Producer st" "Sem st" op]
      by (auto simp: Consume_step_def bq_inv_def allowed_def)
  next
    case False
    then show ?thesis using Consume inv by (auto simp: Consume_step_def)
  qed
next
  case (ConsumerStep ok)
  show ?thesis
  proof (cases "Consumer st")
    case CIdle
    then show ?thesis using ConsumerStep inv by (auto simp: Consumer_step_def)
  next
    case (CTake op)
    then show ?thesis using bq_take [OF inv CTake] ConsumerStep by (simp add: Consumer_step_def)
  next
    case (CWait op pc)
    obtain pc' s' where w: "wait_step v (op_timeout op) ok pc (Sem st) = (pc', s')" by (cases "wait_step v (op_timeout op) ok pc (Sem st)")
    have "count_inv v (length xs) (Producer st) (wait_next op pc') s'"
      by (rule count_inv_wait [OF _ w]) (use inv CWait in \<open>simp add: bq_inv_def\<close>)
    then show ?thesis using ConsumerStep CWait w inv by (auto simp: Consumer_step_def bq_inv_def wait_next_def)
  qed
qed

lemma bq_reach_inv:
  assumes "bq_reach (allowed v) v (2 ^ e) st0 st" "bq_inv e v st0 xs0"
  shows "\<exists>xs. bq_inv e v st xs"
  using assms
proof (induction rule: bq_reach.induct)
  case (step st a st')
  then obtain xs where "bq_inv e v st xs" by blast
  from bq_step_inv [OF this step.hyps(2)] step.hyps(3) show ?case by auto
qed blast

lemma bq_new:
  fixes h :: "'a rwheap"
  assumes "\<forall>a \<ge> RWBrk h. RWBlocks h a = None" "1 \<le> e" "e < 64" "1 \<le> unat R" "unat R < 2 ^ 63" "unat R + 1 \<le> RWQuota h"
  shows "\<exists>st. BlockingQueue_new (2 ^ e) R h = Some st \<and> bq_inv e v st []"
proof -
  obtain q h' where q: "RWQueue_new (2 ^ e) R h = Some (Made (q, h'))"
    "rw_rel e None (dom (RWBlocks h)) RWAllocMode.CannotAlloc 0 (q, h') []"
    using rw_rel_new [OF assms, of 0 RWAllocMode.CannotAlloc] assms(6) by auto
  then show ?thesis
    by (auto simp: BlockingQueue_new_def LightWeightSemaphore_new_def bq_inv_def count_inv_def)
qed

lemma bq_example: "\<exists>st. BlockingQueue_new 4 3 (no_blocks 30 :: nat rwheap) = Some st \<and> bq_inv 2 v st []"
  using bq_new [of "no_blocks 30 :: nat rwheap" 2 3] by (simp add: no_blocks_def)

section \<open>Properties\<close>

text \<open>C16. In every interleaving of a producer and a consumer, no step of \<^verbatim>\<open>BlockingReaderWriterQueue\<close> fails: no
  assertion (that the semaphore's count is at least \<open>-1\<close>, that a successful wait finds an element), no
  fault of the queue inside, no release of a full semaphore.  In C++20 this needs waits without time limit, and \<^verbatim>\<open>Enqueue\<close> needs memory for a block.\<close>

theorem BlockingQueue_never_fails:
  assumes "bq_inv e v st0 []" "bq_reach (allowed v) v (2 ^ e) st0 st" "allowed v a st"
  shows "bq_step v (2 ^ e) a st \<noteq> None"
  using bq_reach_inv [OF assms(2,1)] bq_step_inv assms(3) by blast

theorem BlockingQueue_never_fails_witness:
  "\<exists>st. BlockingQueue_new 4 3 (no_blocks 30 :: nat rwheap) = Some st
    \<and> bq_step Cpp20 4 (Produce RWAllocMode.CannotAlloc (Some 5)) st \<noteq> None"
proof -
  obtain st where st: "BlockingQueue_new 4 3 (no_blocks 30 :: nat rwheap) = Some st" "bq_inv 2 Cpp20 st []"
    using bq_example by blast
  have "bq_step Cpp20 (2 ^ 2) (Produce RWAllocMode.CannotAlloc (Some 5)) st \<noteq> None"
    by (rule BlockingQueue_never_fails [OF st(2) bq_reach.start]) (simp add: allowed_def)
  then show ?thesis using st(1) by auto
qed

text \<open>C17. In every interleaving of \<^verbatim>\<open>BlockingReaderWriterQueue\<close> that makes only the calls of \<open>allowed\<close>, that is without waits with a time
  limit in C++20 (with them it is false: the run of the phantom token makes the count one too high) and with memory for each
  \<^verbatim>\<open>Enqueue\<close>, the values come out in the order in which they went in, none twice and none left out: what has been accepted is what has
  been taken out followed by what the blocks of the queue inside hold.  When both threads are outside their operations, \<^verbatim>\<open>SizeApprox\<close> is the number of elements
  inside.  And no wake-up is lost: when the consumer sleeps in the semaphore without a token and the producer is outside, the queue is
  empty.\<close>

theorem BlockingQueue_order:
  assumes "bq_inv e v st0 []" "bq_reach (allowed v) v (2 ^ e) st0 st"
  shows "\<exists>taken xs. Sent st = taken @ xs \<and> list_all2 (\<lambda>r x. r = None \<or> r = Some x) (Received st) taken
    \<and> held (fst (Inner st)) (snd (Inner st)) = Some xs
    \<and> (Producer st = PIdle \<and> Consumer st = CIdle \<longrightarrow> BlockingQueue_SizeApprox st = length xs)
    \<and> (\<forall>op. Producer st = PIdle \<and> Consumer st = CWait op Acquire \<and> SemTokens (Sem st) = 0 \<longrightarrow> xs = [])"
proof -
  obtain xs where xs: "bq_inv e v st xs" using bq_reach_inv [OF assms(2,1)] by blast
  then obtain taken where t: "Sent st = taken @ xs" "list_all2 (\<lambda>r x. r = None \<or> r = Some x) (Received st) taken"
    "count_inv v (length xs) (Producer st) (Consumer st) (Sem st)" by (auto simp: bq_inv_def)
  have 1: "BlockingQueue_SizeApprox st = length xs" if "Producer st = PIdle" "Consumer st = CIdle"
    using t(3) that by (auto simp: count_inv_def BlockingQueue_SizeApprox_def Available_def)
  have 2: "xs = []" if "Producer st = PIdle" "Consumer st = CWait op Acquire" "SemTokens (Sem st) = 0" for op
    using t(3) that by (auto simp: count_inv_def split: if_splits)
  have 3: "held (fst (Inner st)) (snd (Inner st)) = Some xs" using xs by (auto simp: bq_inv_def dest: rw_rel_held)
  show ?thesis using t(1,2) 1 2 3 by blast
qed

theorem BlockingQueue_order_witness:
  "\<exists>st0 st. BlockingQueue_new 4 3 (no_blocks 30 :: nat rwheap) = Some st0
    \<and> bq_step Cpp20 4 (Produce RWAllocMode.CannotAlloc (Some 5)) st0 = Some st \<and> Sent st = [5]
    \<and> held (fst (Inner st)) (snd (Inner st)) = Some [5]"
proof -
  obtain st0 where st0: "BlockingQueue_new 4 3 (no_blocks 30 :: nat rwheap) = Some st0" "bq_inv 2 Cpp20 st0 []"
    using bq_example by blast
  have "map_option (\<lambda>st. (Sent st, Received st))
    (Option.bind (BlockingQueue_new 4 3 (no_blocks 30)) (bq_step Cpp20 4 (Produce RWAllocMode.CannotAlloc (Some 5)))) = Some ([5 :: nat], [])"
    by code_simp
  then obtain st where st: "bq_step Cpp20 4 (Produce RWAllocMode.CannotAlloc (Some 5)) st0 = Some st" "Sent st = [5]" "Received st = []"
    unfolding st0(1) Option.bind.simps by auto
  have "bq_reach (allowed Cpp20) Cpp20 (2 ^ 2) st0 st"
    by (rule bq_reach.step [OF bq_reach.start, where a = "Produce RWAllocMode.CannotAlloc (Some 5)"]) (use st(1) in \<open>simp_all add: allowed_def\<close>)
  from BlockingQueue_order [OF st0(2) this] st(2,3) have "held (fst (Inner st)) (snd (Inner st)) = Some [5]" by auto
  then show ?thesis using st0(1) st(1,2) by blast
qed

section \<open>Where the code misbehaves\<close>

text \<open>The rest of a run in which a wait has spun in vain, times out, and is signalled just then; and a \<^verbatim>\<open>TryDequeue\<close> after it, up
  to where the semaphore has let it in.\<close>

definition late_signal :: "nat bq_action list" where
  "late_signal = [ConsumerStep True, ConsumerStep True, ConsumerStep False, Produce RWAllocMode.CannotAlloc (Some 7),
     ProducerStep, ProducerStep, ConsumerStep True, ConsumerStep True, ConsumerStep True, ConsumerStep True]"

definition one_more :: "nat bq_action list" where
  "one_more = [Consume OpTryDequeue, ConsumerStep True, ConsumerStep True]"

lemma bq_run_append: "bq_run v E (as @ bs) st = Option.bind (bq_run v E as st) (bq_run v E bs)"
proof (induction as arbitrary: st)
  case (Cons a as)
  then show ?case by (cases "bq_step v E a st") simp_all
qed simp

lemma spin_run: "Consumer st = CWait op (Spin n) \<Longrightarrow> Count (Sem st) \<le> 0
  \<Longrightarrow> bq_run v E (replicate n (ConsumerStep ok)) st = Some (st\<lparr>Consumer := CWait op (Spin 0)\<rparr>)"
  by (induction n arbitrary: st) (simp_all add: Consumer_step_def)

lemma spin_in_vain:
  assumes "Consumer st = CIdle" "Count (Sem st) = 0" "op_timeout op = Some t"
  shows "bq_run v E (Consume op # replicate 1025 (ConsumerStep True) @ as) st = bq_run v E as (st\<lparr>Consumer := CWait op (Spin 0)\<rparr>)"
proof -
  have "replicate 1025 (ConsumerStep True) = ConsumerStep True # replicate 1024 (ConsumerStep True :: 'a bq_action)"
    by (simp only: replicate_Suc [symmetric] numeral_eq_Suc pred_numeral_simps BitM.simps)
  then show ?thesis
    using assms spin_run [of "st\<lparr>Consumer := CWait op (Spin 1024)\<rparr>" op 1024 v E True]
    by (simp add: Consume_step_def Consumer_step_def bq_run_append)
qed

text \<open>What the two versions come to, evaluated.\<close>

definition inner_size :: "'a bq \<Rightarrow> size_t option" where
  "inner_size st = RWQueue_SizeApprox (fst (Inner st)) (snd (Inner st))"

lemma late_signal_runs:
  "case Option.bind (BlockingQueue_new 4 3 (no_blocks 30)) (\<lambda>st. bq_run Cpp20 4 late_signal (st\<lparr>Consumer := CWait (OpDequeueWaitFor 5) (Spin 0)\<rparr>)) of
     None \<Rightarrow> False
   | Some st1 \<Rightarrow> Sent st1 = [7] \<and> Received st1 = [Some 7] \<and> Producer st1 = PIdle \<and> Consumer st1 = CIdle
      \<and> inner_size st1 = Some 0 \<and> BlockingQueue_SizeApprox st1 = 1
      \<and> (case bq_run Cpp20 4 one_more st1 of None \<Rightarrow> False
         | Some st2 \<Rightarrow> Consumer st2 = CTake OpTryDequeue
            \<and> map_option fst (RWQueue_TryDequeue (fst (Inner st2)) (snd (Inner st2))) = Some None)"
  "case Option.bind (BlockingQueue_new 4 3 (no_blocks 30)) (\<lambda>st. bq_run Cpp11 4 late_signal (st\<lparr>Consumer := CWait (OpDequeueWaitFor 5) (Spin 0)\<rparr>)) of
     None \<Rightarrow> False
   | Some st1 \<Rightarrow> Sent st1 = [7] \<and> Received st1 = [Some 7] \<and> Producer st1 = PIdle \<and> Consumer st1 = CIdle
      \<and> inner_size st1 = Some 0 \<and> BlockingQueue_SizeApprox st1 = 0
      \<and> (case bq_run Cpp11 4 one_more st1 of None \<Rightarrow> False
         | Some st2 \<Rightarrow> Consumer st2 = CIdle \<and> Received st2 = [Some 7])"
  by code_simp+

text \<open>C38. In C++20 a wait that times out just as the producer signals gives back its claim and takes the token all the same.  In the run
  of one \<^verbatim>\<open>DequeueWaitFor\<close> and one \<^verbatim>\<open>TryEnqueue\<close> the consumer gets its element, and when both calls are over the queue inside is empty while
  the count, and so \<^verbatim>\<open>SizeApprox\<close>, is one.  The next \<^verbatim>\<open>TryDequeue\<close> is then let in by the semaphore; the queue inside answers that it
  has nothing, and it is this that fails the assertion.  The version before C++20 ends the same run with a count of zero, and its next
  \<^verbatim>\<open>TryDequeue\<close> returns false.\<close>

theorem BlockingQueue_phantom_token:
  "(\<exists>st1 st2. Option.bind (BlockingQueue_new 4 3 (no_blocks 30))
       (bq_run Cpp20 4 (Consume (OpDequeueWaitFor 5) # replicate 1025 (ConsumerStep True) @ late_signal)) = Some st1
     \<and> Sent st1 = [7] \<and> Received st1 = [Some 7] \<and> Producer st1 = PIdle \<and> Consumer st1 = CIdle
     \<and> inner_size st1 = Some 0 \<and> BlockingQueue_SizeApprox st1 = 1
     \<and> bq_run Cpp20 4 one_more st1 = Some st2 \<and> Consumer st2 = CTake OpTryDequeue
     \<and> map_option fst (RWQueue_TryDequeue (fst (Inner st2)) (snd (Inner st2))) = Some None
     \<and> bq_step Cpp20 4 (ConsumerStep ok) st2 = None)
   \<and> (\<exists>st1 st2. Option.bind (BlockingQueue_new 4 3 (no_blocks 30))
       (bq_run Cpp11 4 (Consume (OpDequeueWaitFor 5) # replicate 1025 (ConsumerStep True) @ late_signal)) = Some st1
     \<and> Sent st1 = [7] \<and> Received st1 = [Some 7] \<and> Producer st1 = PIdle \<and> Consumer st1 = CIdle
     \<and> inner_size st1 = Some 0 \<and> BlockingQueue_SizeApprox st1 = 0
     \<and> bq_run Cpp11 4 one_more st1 = Some st2 \<and> Consumer st2 = CIdle \<and> Received st2 = [Some 7])"
proof -
  obtain st where st: "BlockingQueue_new 4 3 (no_blocks 30 :: nat rwheap) = Some st"
    using bq_example by blast
  have "Consumer st = CIdle" "Count (Sem st) = 0"
    using st by (auto simp: BlockingQueue_new_def LightWeightSemaphore_new_def split: bind_splits made.splits)
  then have spin: "bq_run v 4 (Consume (OpDequeueWaitFor 5) # replicate 1025 (ConsumerStep True) @ late_signal) st
      = bq_run v 4 late_signal (st\<lparr>Consumer := CWait (OpDequeueWaitFor 5) (Spin 0)\<rparr>)" for v
    by (rule spin_in_vain) simp
  note runs = late_signal_runs [unfolded st Option.bind.simps]
  have failed: "bq_step Cpp20 4 (ConsumerStep ok) st2 = None" if "Consumer st2 = CTake OpTryDequeue"
    "map_option fst (RWQueue_TryDequeue (fst (Inner st2)) (snd (Inner st2))) = Some None" for st2 :: "nat bq"
    using that by (auto simp: Consumer_step_def Take_step_def)
  have "\<exists>st1 st2. Option.bind (BlockingQueue_new 4 3 (no_blocks 30))
       (bq_run Cpp20 4 (Consume (OpDequeueWaitFor 5) # replicate 1025 (ConsumerStep True) @ late_signal)) = Some st1
     \<and> Sent st1 = [7] \<and> Received st1 = [Some 7] \<and> Producer st1 = PIdle \<and> Consumer st1 = CIdle
     \<and> inner_size st1 = Some 0 \<and> BlockingQueue_SizeApprox st1 = 1
     \<and> bq_run Cpp20 4 one_more st1 = Some st2 \<and> Consumer st2 = CTake OpTryDequeue
     \<and> map_option fst (RWQueue_TryDequeue (fst (Inner st2)) (snd (Inner st2))) = Some None
     \<and> bq_step Cpp20 4 (ConsumerStep ok) st2 = None"
    unfolding st Option.bind.simps spin using runs(1) failed by (auto split: option.splits)
  moreover have "\<exists>st1 st2. Option.bind (BlockingQueue_new 4 3 (no_blocks 30))
       (bq_run Cpp11 4 (Consume (OpDequeueWaitFor 5) # replicate 1025 (ConsumerStep True) @ late_signal)) = Some st1
     \<and> Sent st1 = [7] \<and> Received st1 = [Some 7] \<and> Producer st1 = PIdle \<and> Consumer st1 = CIdle
     \<and> inner_size st1 = Some 0 \<and> BlockingQueue_SizeApprox st1 = 0
     \<and> bq_run Cpp11 4 one_more st1 = Some st2 \<and> Consumer st2 = CIdle \<and> Received st2 = [Some 7]"
    unfolding st Option.bind.simps spin using runs(2) by (auto split: option.splits)
  ultimately show ?thesis by blast
qed

end
