(* ===== verification/Concurrent_Queue.thy ===== *)
theory Concurrent_Queue
  imports Slow_Queue Hash_Table
begin

text \<open>
  \<^verbatim>\<open>ConcurrentQueue\<close> of \<^verbatim>\<open>ConcurrentQueue/ConcurrentQueue.h\<close>: a list of producers, each with a queue of its own.
  A producer with a token has a \<^verbatim>\<open>FastQueue\<close>; a thread that enqueues without a token has a \<^verbatim>\<open>SlowQueue\<close>, found by
  its id in a hash table.  A consumer takes from any producer; a consumer's token makes it rotate among them.

  Every operation runs to its end before the next begins.  The explicit block manager, the implicit one
  and the remaining objects (producers, list nodes, hash arrays) allocate from a heap each.
\<close>

section \<open>State\<close>

text \<open>The template arguments: \<^verbatim>\<open>Traits\<close>, the two block types, \<^verbatim>\<open>thread_hash\<close> and the id of no thread.\<close>

record ('k, 'a) traits =
  TraitsBlockSize :: size_t
  ExplicitProto :: "'a block"
  ImplicitProto :: "'a block"
  InitialBlockPoolSize :: size_t
  InitialHashSize :: size_t
  InitialExplicitQueueSize :: size_t
  InitialImplicitQueueSize :: size_t
  thread_hash :: "'k \<Rightarrow> size_t"
  invalid_thread_id :: 'k

datatype ProducerType = Explicit | Implicit

datatype producer = ExplicitProducer fastq | ImplicitProducer slowq

text \<open>
  A \<^verbatim>\<open>ProducerListNode\<close>: its address, the address of the producer and the producer itself, with its type.
  Tokens and queues are known by a number.  The links \<^verbatim>\<open>Next\<close> are the order of the list of nodes.
\<close>

record producer_node =
  PN_Self :: addr
  Inactive :: bool
  PN_Producer :: addr
  PN_Queue :: producer
  PN_Token :: "nat option"
  Parent :: nat

definition PN_Type :: "producer_node \<Rightarrow> ProducerType" where
  "PN_Type N = (case PN_Queue N of ExplicitProducer _ \<Rightarrow> Explicit | ImplicitProducer _ \<Rightarrow> Implicit)"

record ('k, 'a) cq =
  CQ_Self :: nat
  ProducerLists :: "producer_node list"
  ProducerCount :: u32
  ImplicitMap :: "('k, addr) htable"
  ExplicitMem :: "'a mem"
  ImplicitMem :: "'a mem"
  NodeHeap :: "unit heap"
  GlobalExplicitConsumerOffset :: u32
  NextExplicitConsumerId :: u32

text \<open>What a \<^verbatim>\<open>noexcept\<close> function gives: an exception inside it ends the program.\<close>

datatype 'r noexcept = Completes 'r | Aborts

text \<open>Following a pointer to a node, or to a producer; \<open>None\<close> when there is none.  Writing a node.\<close>

definition node_at :: "addr \<Rightarrow> ('k, 'a) cq \<Rightarrow> producer_node option" where
  "node_at a c = List.find (\<lambda>N. PN_Self N = a) (ProducerLists c)"

definition node_of :: "addr \<Rightarrow> ('k, 'a) cq \<Rightarrow> producer_node option" where
  "node_of p c = List.find (\<lambda>N. PN_Producer N = p) (ProducerLists c)"

definition set_node :: "producer_node \<Rightarrow> ('k, 'a) cq \<Rightarrow> ('k, 'a) cq" where
  "set_node N c = c\<lparr>ProducerLists := List.map (\<lambda>M. if PN_Self M = PN_Self N then N else M) (ProducerLists c)\<rparr>"

definition list_head :: "('k, 'a) cq \<Rightarrow> addr option" where
  "list_head c = (case ProducerLists c of [] \<Rightarrow> None | N # _ \<Rightarrow> Some (PN_Self N))"

text \<open>The node after \<open>a\<close>: \<open>None\<close> when \<open>a\<close> is no node, \<open>Some None\<close> when it is the last.\<close>

fun next_in :: "addr \<Rightarrow> producer_node list \<Rightarrow> addr option option" where
  "next_in a [] = None"
| "next_in a (N # Ns) = (if PN_Self N = a then Some (case Ns of [] \<Rightarrow> None | M # _ \<Rightarrow> Some (PN_Self M)) else next_in a Ns)"

text \<open>\<^verbatim>\<open>Node = Node->Next; if ( Node == nullptr ) Node = Head;\<close>\<close>

definition next_or_head :: "addr \<Rightarrow> ('k, 'a) cq \<Rightarrow> addr option" where
  "next_or_head a c = do {
     n \<leftarrow> next_in a (ProducerLists c);
     case n of None \<Rightarrow> list_head c | Some b \<Rightarrow> Some b }"

section \<open>A producer's own operations\<close>

definition GetProducerSize :: "producer_node \<Rightarrow> size_t" where
  "GetProducerSize N = (case PN_Queue N of ExplicitProducer q \<Rightarrow> QueueBase_Size q | ImplicitProducer q \<Rightarrow> QueueBase_Size q)"

definition ProducerEnqueue :: "('k, 'a) traits \<Rightarrow> AllocMode \<Rightarrow> 'a option \<Rightarrow> producer_node \<Rightarrow> ('k, 'a) cq
    \<Rightarrow> (bool res \<times> ('k, 'a) cq) option" where
  "ProducerEnqueue tr Mode arg N c =
    (case PN_Queue N of
       ExplicitProducer q \<Rightarrow> do {
         (r, q', s) \<leftarrow> FastQueue_Enqueue (TraitsBlockSize tr) (ExplicitProto tr) Mode arg q (ExplicitMem c);
         Some (r, set_node (N\<lparr>PN_Queue := ExplicitProducer q'\<rparr>) (c\<lparr>ExplicitMem := s\<rparr>)) }
     | ImplicitProducer q \<Rightarrow> do {
         (r, q', s) \<leftarrow> SlowQueue_Enqueue (TraitsBlockSize tr) (ImplicitProto tr) Mode arg q (ImplicitMem c);
         Some (r, set_node (N\<lparr>PN_Queue := ImplicitProducer q'\<rparr>) (c\<lparr>ImplicitMem := s\<rparr>)) })"

definition ProducerEnqueueBulk :: "('k, 'a) traits \<Rightarrow> AllocMode \<Rightarrow> 'a option list \<Rightarrow> size_t \<Rightarrow> producer_node
    \<Rightarrow> ('k, 'a) cq \<Rightarrow> (bool res \<times> ('k, 'a) cq) option" where
  "ProducerEnqueueBulk tr Mode args Count N c =
    (case PN_Queue N of
       ExplicitProducer q \<Rightarrow> do {
         (r, q', s) \<leftarrow> FastQueue_EnqueueBulk (TraitsBlockSize tr) (ExplicitProto tr) Mode args Count q (ExplicitMem c);
         Some (r, set_node (N\<lparr>PN_Queue := ExplicitProducer q'\<rparr>) (c\<lparr>ExplicitMem := s\<rparr>)) }
     | ImplicitProducer q \<Rightarrow> do {
         (r, q', s) \<leftarrow> SlowQueue_EnqueueBulk (TraitsBlockSize tr) (ImplicitProto tr) Mode args Count q (ImplicitMem c);
         Some (r, set_node (N\<lparr>PN_Queue := ImplicitProducer q'\<rparr>) (c\<lparr>ImplicitMem := s\<rparr>)) })"

text \<open>The consumer's operations start from a pointer to the node.\<close>

definition ProducerDequeue :: "('k, 'a) traits \<Rightarrow> ('a \<Rightarrow> bool) \<Rightarrow> addr \<Rightarrow> ('k, 'a) cq \<Rightarrow> ('a option res \<times> ('k, 'a) cq) option" where
  "ProducerDequeue tr throws a c = do {
     N \<leftarrow> node_at a c;
     case PN_Queue N of
       ExplicitProducer q \<Rightarrow> do {
         (r, q', s) \<leftarrow> FastQueue_Dequeue (TraitsBlockSize tr) throws q (ExplicitMem c);
         Some (r, set_node (N\<lparr>PN_Queue := ExplicitProducer q'\<rparr>) (c\<lparr>ExplicitMem := s\<rparr>)) }
     | ImplicitProducer q \<Rightarrow> do {
         (r, q', s) \<leftarrow> SlowQueue_Dequeue (TraitsBlockSize tr) throws q (ImplicitMem c);
         Some (r, set_node (N\<lparr>PN_Queue := ImplicitProducer q'\<rparr>) (c\<lparr>ImplicitMem := s\<rparr>)) } }"

definition ProducerDequeueBulk :: "('k, 'a) traits \<Rightarrow> ('a \<Rightarrow> bool) \<Rightarrow> size_t \<Rightarrow> addr \<Rightarrow> ('k, 'a) cq
    \<Rightarrow> (size_t res \<times> 'a list \<times> ('k, 'a) cq) option" where
  "ProducerDequeueBulk tr throws MaxCount a c = do {
     N \<leftarrow> node_at a c;
     case PN_Queue N of
       ExplicitProducer q \<Rightarrow> do {
         (r, out, q', s) \<leftarrow> FastQueue_DequeueBulk (TraitsBlockSize tr) throws MaxCount q (ExplicitMem c);
         Some (r, out, set_node (N\<lparr>PN_Queue := ExplicitProducer q'\<rparr>) (c\<lparr>ExplicitMem := s\<rparr>)) }
     | ImplicitProducer q \<Rightarrow> do {
         (r, out, q', s) \<leftarrow> SlowQueue_DequeueBulk (TraitsBlockSize tr) throws MaxCount q (ImplicitMem c);
         Some (r, out, set_node (N\<lparr>PN_Queue := ImplicitProducer q'\<rparr>) (c\<lparr>ImplicitMem := s\<rparr>)) } }"

section \<open>The list of producers\<close>

text \<open>The producer allocated first is lost when the allocation of the node throws.\<close>

definition CreateProducerListNode :: "('k, 'a) traits \<Rightarrow> ProducerType \<Rightarrow> ('k, 'a) cq \<Rightarrow> (producer_node res \<times> ('k, 'a) cq) option" where
  "CreateProducerListNode tr Type c =
    (case Allocate 1 (NodeHeap c) of
       (Exn, h1) \<Rightarrow> Some (Exn, c\<lparr>NodeHeap := h1\<rparr>)
     | (Ret p, h1) \<Rightarrow> do {
         (q, c1) \<leftarrow> (case Type of
            Explicit \<Rightarrow> do {
              (q, s) \<leftarrow> FastQueue_new (InitialExplicitQueueSize tr) (ExplicitMem c);
              Some (ExplicitProducer q, c\<lparr>NodeHeap := h1, ExplicitMem := s\<rparr>) }
          | Implicit \<Rightarrow> do {
              (q, s) \<leftarrow> SlowQueue_new (InitialImplicitQueueSize tr) (ImplicitMem c);
              Some (ImplicitProducer q, c\<lparr>NodeHeap := h1, ImplicitMem := s\<rparr>) });
         Some (case Allocate 1 (NodeHeap c1) of
            (Exn, h2) \<Rightarrow> (Exn, c1\<lparr>NodeHeap := h2\<rparr>)
          | (Ret a, h2) \<Rightarrow> (Ret \<lparr>PN_Self = a, Inactive = False, PN_Producer = p, PN_Queue = q, PN_Token = None,
              Parent = CQ_Self c\<rparr>, c1\<lparr>NodeHeap := h2\<rparr>)) })"

definition AddProducer :: "producer_node \<Rightarrow> ('k, 'a) cq \<Rightarrow> addr \<times> ('k, 'a) cq" where
  "AddProducer N c = (PN_Self N, c\<lparr>ProducerCount := ProducerCount c + 1, ProducerLists := N # ProducerLists c\<rparr>)"

text \<open>
  \<^verbatim>\<open>GetProducerListNode\<close> takes over the first inactive node of the type, or makes a new one.  It is
  \<^verbatim>\<open>noexcept\<close>, while the allocations in \<^verbatim>\<open>CreateProducerListNode\<close> throw.
\<close>

definition GetProducerListNode :: "('k, 'a) traits \<Rightarrow> ProducerType \<Rightarrow> ('k, 'a) cq \<Rightarrow> (addr \<times> ('k, 'a) cq) noexcept option" where
  "GetProducerListNode tr Type c =
    (case List.find (\<lambda>N. Inactive N \<and> PN_Type N = Type) (ProducerLists c) of
       Some N \<Rightarrow> Some (Completes (PN_Self N, set_node (N\<lparr>Inactive := False\<rparr>) c))
     | None \<Rightarrow> do {
         (r, c1) \<leftarrow> CreateProducerListNode tr Type c;
         Some (case r of Exn \<Rightarrow> Aborts | Ret N \<Rightarrow> Completes (AddProducer N c1)) })"

definition ReclaimProducerLists :: "('k, 'a) cq \<Rightarrow> ('k, 'a) cq" where
  "ReclaimProducerLists c = c\<lparr>ProducerLists := List.map (\<lambda>N. N\<lparr>Parent := CQ_Self c\<rparr>) (ProducerLists c)\<rparr>"

definition DeleteProducerListNode :: "('k, 'a) traits \<Rightarrow> producer_node \<Rightarrow> ('k, 'a) cq \<Rightarrow> ('k, 'a) cq option" where
  "DeleteProducerListNode tr N c = do {
     let c1 = c\<lparr>ProducerCount := ProducerCount c - 1\<rparr>;
     c2 \<leftarrow> (case PN_Queue N of
        ExplicitProducer q \<Rightarrow> do {
          s \<leftarrow> FastQueue_Clear (TraitsBlockSize tr) q (ExplicitMem c1); Some (c1\<lparr>ExplicitMem := s\<rparr>) }
      | ImplicitProducer q \<Rightarrow> do {
          s \<leftarrow> SlowQueue_Clear (TraitsBlockSize tr) q (ImplicitMem c1); Some (c1\<lparr>ImplicitMem := s\<rparr>) });
     h1 \<leftarrow> Deallocate (Some (PN_Producer N)) 1 (NodeHeap c2);
     h2 \<leftarrow> Deallocate (Some (PN_Self N)) 1 h1;
     Some (c2\<lparr>NodeHeap := h2\<rparr>) }"

text \<open>\<^verbatim>\<open>ForEachProducerSafe\<close> with \<^verbatim>\<open>DeleteProducerListNode\<close>.\<close>

fun DeleteNodes :: "('k, 'a) traits \<Rightarrow> producer_node list \<Rightarrow> ('k, 'a) cq \<Rightarrow> ('k, 'a) cq option" where
  "DeleteNodes tr [] c = Some c"
| "DeleteNodes tr (N # Nodes) c = do { c1 \<leftarrow> DeleteProducerListNode tr N c; DeleteNodes tr Nodes c1 }"

definition ClearList :: "('k, 'a) traits \<Rightarrow> ('k, 'a) cq \<Rightarrow> ('k, 'a) cq option" where
  "ClearList tr c = do {
     c1 \<leftarrow> DeleteNodes tr (ProducerLists c) c;
     Some (c1\<lparr>ProducerLists := [], ProducerCount := 0\<rparr>) }"

definition ConcurrentQueue_Reset :: "('k, 'a) cq \<Rightarrow> ('k, 'a) cq" where
  "ConcurrentQueue_Reset c = c\<lparr>ProducerLists := [], ProducerCount := 0, GlobalExplicitConsumerOffset := 0,
     NextExplicitConsumerId := 0\<rparr>"

section \<open>Construction and destruction\<close>

text \<open>
  The members are constructed in the order of their declaration: the hash table, the explicit manager,
  the implicit one.  When one throws, those before it are destroyed, and what remains are the heaps.
\<close>

definition ConcurrentQueue_new :: "('k, 'a) traits \<Rightarrow> nat \<Rightarrow> size_t \<Rightarrow> size_t \<Rightarrow> 'a heap \<times> 'a heap \<times> unit heap
    \<Rightarrow> (('k, 'a) cq + ('a heap \<times> 'a heap \<times> unit heap)) option" where
  "ConcurrentQueue_new tr self ExplicitPool ImplicitPool = (\<lambda>(he, hi, hn).
    (case HashTable_new (InitialHashSize tr) (invalid_thread_id tr) hn of
       (Exn, hn1) \<Rightarrow> Some (Inr (he, hi, hn1))
     | (Ret T, hn1) \<Rightarrow> do {
         (r, he1) \<leftarrow> BlockManager_new (ExplicitProto tr) ExplicitPool he;
         case r of Exn \<Rightarrow> do { hn2 \<leftarrow> HashTable_Clear T hn1; Some (Inr (he1, hi, hn2)) }
         | Ret me \<Rightarrow> do {
             (r, hi1) \<leftarrow> BlockManager_new (ImplicitProto tr) ImplicitPool hi;
             case r of Exn \<Rightarrow> do {
               he2 \<leftarrow> BlockManager_destroy \<lparr>Hp = he1, Mg = me\<rparr>;
               hn2 \<leftarrow> HashTable_Clear T hn1;
               Some (Inr (he2, hi1, hn2)) }
             | Ret mi \<Rightarrow> Some (Inl \<lparr>CQ_Self = self, ProducerLists = [], ProducerCount = 0, ImplicitMap = T,
                 ExplicitMem = \<lparr>Hp = he1, Mg = me\<rparr>, ImplicitMem = \<lparr>Hp = hi1, Mg = mi\<rparr>, NodeHeap = hn1,
                 GlobalExplicitConsumerOffset = 0, NextExplicitConsumerId = 0\<rparr>) } }))"

text \<open>The constructor without arguments: both pools have the size the traits give.\<close>

definition ConcurrentQueue_default :: "('k, 'a) traits \<Rightarrow> nat \<Rightarrow> 'a heap \<times> 'a heap \<times> unit heap
    \<Rightarrow> (('k, 'a) cq + ('a heap \<times> 'a heap \<times> unit heap)) option" where
  "ConcurrentQueue_default tr self = ConcurrentQueue_new tr self (InitialBlockPoolSize tr) (InitialBlockPoolSize tr)"

text \<open>The destructor: the producers, then the members in the reverse order of their declaration.\<close>

definition ConcurrentQueue_destroy :: "('k, 'a) traits \<Rightarrow> ('k, 'a) cq \<Rightarrow> ('a heap \<times> 'a heap \<times> unit heap) option" where
  "ConcurrentQueue_destroy tr c = do {
     c1 \<leftarrow> ClearList tr c;
     hi \<leftarrow> BlockManager_destroy (ImplicitMem c1);
     he \<leftarrow> BlockManager_destroy (ExplicitMem c1);
     hn \<leftarrow> HashTable_Clear (ImplicitMap c1) (NodeHeap c1);
     Some (he, hi, hn) }"

section \<open>Enqueue\<close>

text \<open>
  \<^verbatim>\<open>GetOrAddImplicitProducer\<close>: the function it gives to the hash table makes a node; \<open>dead\<close> remembers that
  this ended the program.  The exception of the hash table itself leaves it.
\<close>

definition GetOrAddImplicitProducer :: "('k, 'a) traits \<Rightarrow> 'k \<Rightarrow> ('k, 'a) cq
    \<Rightarrow> (addr option res \<times> ('k, 'a) cq) noexcept option" where
  "GetOrAddImplicitProducer tr thread_id c = do {
     (r, T, (c1, dead), h) \<leftarrow> HashTable_GetOrAddByFunc (thread_hash tr) thread_id
       (\<lambda>(c, dead) h. do {
          g \<leftarrow> GetProducerListNode tr Implicit (c\<lparr>NodeHeap := h\<rparr>);
          case g of Aborts \<Rightarrow> Some (Exn, (c, True), h)
          | Completes (a, c') \<Rightarrow> do {
              N \<leftarrow> node_at a c';
              Some (Ret (Some (PN_Producer N)), (c', False), NodeHeap c') } })
       (ImplicitMap c) (c, False) (NodeHeap c);
     let c2 = c1\<lparr>ImplicitMap := T, NodeHeap := h\<rparr>;
     Some (if dead then Aborts
       else Completes (case r of Exn \<Rightarrow> Exn | Ret (st, p) \<Rightarrow> Ret (if st = FAILED then None else p), c2)) }"

definition InnerEnqueue :: "('k, 'a) traits \<Rightarrow> AllocMode \<Rightarrow> 'k \<Rightarrow> 'a option \<Rightarrow> ('k, 'a) cq
    \<Rightarrow> (bool res \<times> ('k, 'a) cq) noexcept option" where
  "InnerEnqueue tr Mode thread_id arg c = do {
     g \<leftarrow> GetOrAddImplicitProducer tr thread_id c;
     case g of Aborts \<Rightarrow> Some Aborts
     | Completes (Exn, c1) \<Rightarrow> Some (Completes (Exn, c1))
     | Completes (Ret None, c1) \<Rightarrow> Some (Completes (Ret False, c1))
     | Completes (Ret (Some p), c1) \<Rightarrow> do {
         N \<leftarrow> node_of p c1;
         if PN_Type N = Implicit then map_option Completes (ProducerEnqueue tr Mode arg N c1) else None } }"

definition InnerEnqueueBulk :: "('k, 'a) traits \<Rightarrow> AllocMode \<Rightarrow> 'k \<Rightarrow> 'a option list \<Rightarrow> size_t \<Rightarrow> ('k, 'a) cq
    \<Rightarrow> (bool res \<times> ('k, 'a) cq) noexcept option" where
  "InnerEnqueueBulk tr Mode thread_id args Count c = do {
     g \<leftarrow> GetOrAddImplicitProducer tr thread_id c;
     case g of Aborts \<Rightarrow> Some Aborts
     | Completes (Exn, c1) \<Rightarrow> Some (Completes (Exn, c1))
     | Completes (Ret None, c1) \<Rightarrow> Some (Completes (Ret False, c1))
     | Completes (Ret (Some p), c1) \<Rightarrow> do {
         N \<leftarrow> node_of p c1;
         if PN_Type N = Implicit then map_option Completes (ProducerEnqueueBulk tr Mode args Count N c1) else None } }"

text \<open>\<^verbatim>\<open>Enqueue\<close> and \<^verbatim>\<open>TryEnqueue\<close> without a token, of the calling thread, and \<^verbatim>\<open>EnqueueBulk\<close>, \<^verbatim>\<open>TryEnqueueBulk\<close>.\<close>

definition ConcurrentQueue_Enqueue :: "('k, 'a) traits \<Rightarrow> AllocMode \<Rightarrow> 'k \<Rightarrow> 'a option \<Rightarrow> ('k, 'a) cq
    \<Rightarrow> (bool res \<times> ('k, 'a) cq) noexcept option" where
  "ConcurrentQueue_Enqueue tr Mode thread_id arg c =
    (if InitialHashSize tr = 0 then Some (Completes (Ret False, c)) else InnerEnqueue tr Mode thread_id arg c)"

definition ConcurrentQueue_EnqueueBulk :: "('k, 'a) traits \<Rightarrow> AllocMode \<Rightarrow> 'k \<Rightarrow> 'a option list \<Rightarrow> size_t \<Rightarrow> ('k, 'a) cq
    \<Rightarrow> (bool res \<times> ('k, 'a) cq) noexcept option" where
  "ConcurrentQueue_EnqueueBulk tr Mode thread_id args Count c = InnerEnqueueBulk tr Mode thread_id args Count c"

section \<open>Tokens\<close>

record producer_token =
  PT_Self :: nat
  ProducerNode :: "addr option"

definition ProducerToken_new :: "('k, 'a) traits \<Rightarrow> nat \<Rightarrow> ('k, 'a) cq \<Rightarrow> (producer_token \<times> ('k, 'a) cq) noexcept option" where
  "ProducerToken_new tr self queue = do {
     g \<leftarrow> GetProducerListNode tr Explicit queue;
     Some (case g of Aborts \<Rightarrow> Aborts | Completes (a, c) \<Rightarrow> Completes (\<lparr>PT_Self = self, ProducerNode = Some a\<rparr>, c)) }"

text \<open>\<^verbatim>\<open>ProducerNode->Token = t\<close>.\<close>

definition set_token :: "addr option \<Rightarrow> nat option \<Rightarrow> ('k, 'a) cq \<Rightarrow> ('k, 'a) cq option" where
  "set_token p t c = (case p of None \<Rightarrow> Some c
     | Some a \<Rightarrow> do { N \<leftarrow> node_at a c; Some (set_node (N\<lparr>PN_Token := t\<rparr>) c) })"

definition ProducerToken_move :: "nat \<Rightarrow> producer_token \<Rightarrow> ('k, 'a) cq \<Rightarrow> (producer_token \<times> producer_token \<times> ('k, 'a) cq) option" where
  "ProducerToken_move self Other c = do {
     c1 \<leftarrow> set_token (ProducerNode Other) (Some self) c;
     Some (\<lparr>PT_Self = self, ProducerNode = ProducerNode Other\<rparr>, Other\<lparr>ProducerNode := None\<rparr>, c1) }"

definition ProducerToken_destroy :: "producer_token \<Rightarrow> ('k, 'a) cq \<Rightarrow> ('k, 'a) cq option" where
  "ProducerToken_destroy t c = (case ProducerNode t of None \<Rightarrow> Some c
     | Some a \<Rightarrow> do { N \<leftarrow> node_at a c; Some (set_node (N\<lparr>PN_Token := None, Inactive := True\<rparr>) c) })"

text \<open>\<^verbatim>\<open>swap\<close>, and with it the move assignment: the first line exchanges \<^verbatim>\<open>ProducerNode\<close> with itself.\<close>

definition ProducerToken_swap :: "producer_token \<Rightarrow> producer_token \<Rightarrow> ('k, 'a) cq
    \<Rightarrow> (producer_token \<times> producer_token \<times> ('k, 'a) cq) option" where
  "ProducerToken_swap this Other c = do {
     let this = this\<lparr>ProducerNode := ProducerNode this\<rparr>;
     c1 \<leftarrow> set_token (ProducerNode this) (Some (PT_Self this)) c;
     c2 \<leftarrow> set_token (ProducerNode Other) (Some (PT_Self Other)) c1;
     Some (this, Other, c2) }"

definition ProducerToken_Valid :: "producer_token \<Rightarrow> bool" where
  "ProducerToken_Valid t \<longleftrightarrow> ProducerNode t \<noteq> None"

definition EnqueueWithToken :: "('k, 'a) traits \<Rightarrow> AllocMode \<Rightarrow> producer_token \<Rightarrow> 'a option \<Rightarrow> ('k, 'a) cq
    \<Rightarrow> (bool res \<times> ('k, 'a) cq) option" where
  "EnqueueWithToken tr Mode Token arg c = do {
     a \<leftarrow> ProducerNode Token;
     N \<leftarrow> node_at a c;
     ProducerEnqueue tr Mode arg N c }"

definition EnqueueBulkWithToken :: "('k, 'a) traits \<Rightarrow> AllocMode \<Rightarrow> producer_token \<Rightarrow> 'a option list \<Rightarrow> size_t \<Rightarrow> ('k, 'a) cq
    \<Rightarrow> (bool res \<times> ('k, 'a) cq) option" where
  "EnqueueBulkWithToken tr Mode Token args Count c = do {
     a \<leftarrow> ProducerNode Token;
     N \<leftarrow> node_at a c;
     ProducerEnqueueBulk tr Mode args Count N c }"

record consumer_token =
  InitialOffset :: u32
  LastKnownGlobalOffset :: u32
  ItemsConsumed :: size_t
  CurrentProducer :: "addr option"
  DesiredProducer :: "addr option"

definition ConsumerToken_new :: "('k, 'a) cq \<Rightarrow> consumer_token \<times> ('k, 'a) cq" where
  "ConsumerToken_new queue =
    (\<lparr>InitialOffset = NextExplicitConsumerId queue, LastKnownGlobalOffset = - 1, ItemsConsumed = 0,
      CurrentProducer = None, DesiredProducer = None\<rparr>,
     queue\<lparr>NextExplicitConsumerId := NextExplicitConsumerId queue + 1\<rparr>)"

definition ConsumerToken_move :: "consumer_token \<Rightarrow> consumer_token \<times> consumer_token" where
  "ConsumerToken_move Other = (Other, Other)"

text \<open>\<^verbatim>\<open>swap\<close>, line by line.\<close>

definition ConsumerToken_swap :: "consumer_token \<Rightarrow> consumer_token \<Rightarrow> consumer_token \<times> consumer_token" where
  "ConsumerToken_swap this Other =
    (let (this, Other) = (this\<lparr>InitialOffset := InitialOffset Other\<rparr>, Other\<lparr>InitialOffset := InitialOffset this\<rparr>);
         (this, Other) = (this\<lparr>DesiredProducer := DesiredProducer Other\<rparr>, Other\<lparr>DesiredProducer := DesiredProducer this\<rparr>);
         (this, Other) = (this\<lparr>LastKnownGlobalOffset := LastKnownGlobalOffset Other\<rparr>,
           Other\<lparr>LastKnownGlobalOffset := LastKnownGlobalOffset this\<rparr>);
         (this, Other) = (this\<lparr>CurrentProducer := CurrentProducer Other\<rparr>, Other\<lparr>CurrentProducer := CurrentProducer this\<rparr>)
     in (this\<lparr>DesiredProducer := DesiredProducer Other\<rparr>, Other\<lparr>DesiredProducer := DesiredProducer this\<rparr>))"

section \<open>Dequeue\<close>

text \<open>\<^verbatim>\<open>ForEachProducerWithReturn\<close> with an operation that may take an element: the first that does, or throws, ends it.\<close>

fun ForEachProducerWithReturn :: "(addr \<Rightarrow> 's \<Rightarrow> ('r option res \<times> 's) option) \<Rightarrow> addr list \<Rightarrow> 's
    \<Rightarrow> ('r option res \<times> 's) option" where
  "ForEachProducerWithReturn F [] c = Some (Ret None, c)"
| "ForEachProducerWithReturn F (Node # Nodes) c = do {
     (r, c1) \<leftarrow> F Node c;
     if r = Ret None then ForEachProducerWithReturn F Nodes c1 else Some (r, c1) }"

definition node_addrs :: "('k, 'a) cq \<Rightarrow> addr list" where
  "node_addrs c = List.map PN_Self (ProducerLists c)"

text \<open>The first loop of \<^verbatim>\<open>TryDequeue\<close>: \<^verbatim>\<open>NonEmptyCount\<close>, \<^verbatim>\<open>Best\<close> and \<^verbatim>\<open>BestSize\<close>, over at most three producers that are not empty.\<close>

fun FindBest :: "producer_node list \<Rightarrow> size_t \<times> addr option \<times> size_t \<Rightarrow> size_t \<times> addr option \<times> size_t" where
  "FindBest [] st = st"
| "FindBest (Node # Nodes) (NonEmptyCount, Best, BestSize) =
    (let Size = GetProducerSize Node;
         st = (if Size > 0
               then (NonEmptyCount + 1, if Size > BestSize then Some (PN_Self Node) else Best,
                     if Size > BestSize then Size else BestSize)
               else (NonEmptyCount, Best, BestSize))
     in if fst st < 3 then FindBest Nodes st else st)"

definition ConcurrentQueue_TryDequeue :: "('k, 'a) traits \<Rightarrow> ('a \<Rightarrow> bool) \<Rightarrow> ('k, 'a) cq \<Rightarrow> ('a option res \<times> ('k, 'a) cq) option" where
  "ConcurrentQueue_TryDequeue tr throws c =
    (let (NonEmptyCount, Best, BestSize) = FindBest (ProducerLists c) (0, None, 0) in
     if NonEmptyCount > 0 then do {
       a \<leftarrow> Best;
       (r, c1) \<leftarrow> ProducerDequeue tr throws a c;
       if r \<noteq> Ret None then Some (r, c1)
       else ForEachProducerWithReturn
         (\<lambda>Node c. if Node \<noteq> a then ProducerDequeue tr throws Node c else Some (Ret None, c)) (node_addrs c1) c1 }
     else Some (Ret None, c))"

definition TryDequeueNonInterleaved :: "('k, 'a) traits \<Rightarrow> ('a \<Rightarrow> bool) \<Rightarrow> ('k, 'a) cq \<Rightarrow> ('a option res \<times> ('k, 'a) cq) option" where
  "TryDequeueNonInterleaved tr throws c = ForEachProducerWithReturn (ProducerDequeue tr throws) (node_addrs c) c"

definition TryDequeueFromProducer :: "('k, 'a) traits \<Rightarrow> ('a \<Rightarrow> bool) \<Rightarrow> producer_token \<Rightarrow> ('k, 'a) cq
    \<Rightarrow> ('a option res \<times> ('k, 'a) cq) option" where
  "TryDequeueFromProducer tr throws Token c = do { a \<leftarrow> ProducerNode Token; ProducerDequeue tr throws a c }"

fun SumSizes :: "producer_node list \<Rightarrow> size_t \<Rightarrow> size_t" where
  "SumSizes [] QueueSize = QueueSize"
| "SumSizes (Node # Nodes) QueueSize = SumSizes Nodes (QueueSize + GetProducerSize Node)"

definition ConcurrentQueue_Size :: "('k, 'a) cq \<Rightarrow> size_t" where
  "ConcurrentQueue_Size c = SumSizes (ProducerLists c) 0"

section \<open>Dequeue with a token\<close>

text \<open>The loops of \<^verbatim>\<open>UpdateProducerForConsumer\<close>: so many steps along the list, from its end back to its head.\<close>

fun advance :: "nat \<Rightarrow> addr \<Rightarrow> ('k, 'a) cq \<Rightarrow> addr option" where
  "advance 0 a c = Some a"
| "advance (Suc n) a c = do { b \<leftarrow> next_or_head a c; advance n b c }"

definition UpdateProducerForConsumer :: "consumer_token \<Rightarrow> ('k, 'a) cq \<Rightarrow> (bool \<times> consumer_token) option" where
  "UpdateProducerForConsumer Token c =
    (if DesiredProducer Token = None \<and> list_head c = None then Some (False, Token)
     else do {
       let Count = ProducerCount c;
       let GlobalOffset = GlobalExplicitConsumerOffset c;
       desired \<leftarrow> (case DesiredProducer Token of
          Some d \<Rightarrow> Some d
        | None \<Rightarrow> if Count = 0 then None
            else do { hd \<leftarrow> list_head c; advance (unat (InitialOffset Token mod Count)) hd c });
       let Delta = GlobalOffset - LastKnownGlobalOffset Token;
       if Delta \<ge> Count \<and> Count = 0 then None
       else do {
         desired \<leftarrow> advance (unat (if Delta \<ge> Count then Delta mod Count else Delta)) desired c;
         Some (True, Token\<lparr>DesiredProducer := Some desired, LastKnownGlobalOffset := GlobalOffset,
           CurrentProducer := Some desired, ItemsConsumed := 0\<rparr>) } })"

definition EXPLICIT_CONSUMER_CONSUMPTION_QUOTA_BEFORE_ROTATE :: size_t where
  "EXPLICIT_CONSUMER_CONSUMPTION_QUOTA_BEFORE_ROTATE = 256"

text \<open>The guard both operations begin with; \<open>None\<close> inside when there is no producer.\<close>

definition TokenReady :: "consumer_token \<Rightarrow> ('k, 'a) cq \<Rightarrow> (bool \<times> consumer_token) option" where
  "TokenReady Token c =
    (if DesiredProducer Token = None \<or> LastKnownGlobalOffset Token \<noteq> GlobalExplicitConsumerOffset c
     then UpdateProducerForConsumer Token c else Some (True, Token))"

definition rotate_global :: "('k, 'a) cq \<Rightarrow> ('k, 'a) cq" where
  "rotate_global c = c\<lparr>GlobalExplicitConsumerOffset := GlobalExplicitConsumerOffset c + 1\<rparr>"

text \<open>The loop over the other producers, from the one after the current back to it.\<close>

definition TryOthers_body :: "('k, 'a) traits \<Rightarrow> ('a \<Rightarrow> bool) \<Rightarrow> addr \<Rightarrow> addr \<times> ('k, 'a) cq
    \<Rightarrow> ((addr \<times> ('k, 'a) cq) + ('a option res \<times> addr option \<times> ('k, 'a) cq)) option" where
  "TryOthers_body tr throws Current = (\<lambda>(Node, c).
     if Node = Current then Some (Inr (Ret None, None, c))
     else do {
       (r, c1) \<leftarrow> ProducerDequeue tr throws Node c;
       case r of
         Exn \<Rightarrow> Some (Inr (Exn, None, c1))
       | Ret (Some v) \<Rightarrow> Some (Inr (r, Some Node, c1))
       | Ret None \<Rightarrow> do { n \<leftarrow> next_or_head Node c1; Some (Inl (n, c1)) } })"

definition TryDequeueWithToken :: "('k, 'a) traits \<Rightarrow> ('a \<Rightarrow> bool) \<Rightarrow> consumer_token \<Rightarrow> ('k, 'a) cq
    \<Rightarrow> ('a option res \<times> consumer_token \<times> ('k, 'a) cq) option" where
  "TryDequeueWithToken tr throws Token c = do {
     (ok, t) \<leftarrow> TokenReady Token c;
     if \<not> ok then Some (Ret None, t, c)
     else do {
       Current \<leftarrow> CurrentProducer t;
       (r, c1) \<leftarrow> ProducerDequeue tr throws Current c;
       case r of
         Exn \<Rightarrow> Some (Exn, t, c1)
       | Ret (Some v) \<Rightarrow>
          (let t = t\<lparr>ItemsConsumed := ItemsConsumed t + 1\<rparr> in
           Some (r, t, if ItemsConsumed t = EXPLICIT_CONSUMER_CONSUMPTION_QUOTA_BEFORE_ROTATE then rotate_global c1 else c1))
       | Ret None \<Rightarrow> do {
           n \<leftarrow> next_or_head Current c1;
           (r, found, c2) \<leftarrow> loop (TryOthers_body tr throws Current) (n, c1);
           Some (r, case found of None \<Rightarrow> t | Some a \<Rightarrow> t\<lparr>CurrentProducer := Some a, ItemsConsumed := 1\<rparr>, c2) } } }"

section \<open>Bulk dequeue\<close>

text \<open>The values the iterator received are collected in order, also those before an exception.\<close>

fun TryDequeueBulk_loop :: "('k, 'a) traits \<Rightarrow> ('a \<Rightarrow> bool) \<Rightarrow> size_t \<Rightarrow> addr list \<Rightarrow> size_t \<times> 'a list \<times> ('k, 'a) cq
    \<Rightarrow> (size_t res \<times> 'a list \<times> ('k, 'a) cq) option" where
  "TryDequeueBulk_loop tr throws MaxCount [] (Count, out, c) = Some (Ret Count, out, c)"
| "TryDequeueBulk_loop tr throws MaxCount (Node # Nodes) (Count, out, c) = do {
     (r, vs, c1) \<leftarrow> ProducerDequeueBulk tr throws (MaxCount - Count) Node c;
     case r of Exn \<Rightarrow> Some (Exn, out @ vs, c1)
     | Ret n \<Rightarrow> if Count + n \<noteq> MaxCount then TryDequeueBulk_loop tr throws MaxCount Nodes (Count + n, out @ vs, c1)
                else Some (Ret (Count + n), out @ vs, c1) }"

definition TryDequeueBulk :: "('k, 'a) traits \<Rightarrow> ('a \<Rightarrow> bool) \<Rightarrow> size_t \<Rightarrow> ('k, 'a) cq
    \<Rightarrow> (size_t res \<times> 'a list \<times> ('k, 'a) cq) option" where
  "TryDequeueBulk tr throws MaxCount c = TryDequeueBulk_loop tr throws MaxCount (node_addrs c) (0, [], c)"

definition TryDequeueBulkFromProducer :: "('k, 'a) traits \<Rightarrow> ('a \<Rightarrow> bool) \<Rightarrow> producer_token \<Rightarrow> size_t \<Rightarrow> ('k, 'a) cq
    \<Rightarrow> (size_t res \<times> 'a list \<times> ('k, 'a) cq) option" where
  "TryDequeueBulkFromProducer tr throws Token MaxCount c =
     do { a \<leftarrow> ProducerNode Token; ProducerDequeueBulk tr throws MaxCount a c }"

definition BulkOthers_body :: "('k, 'a) traits \<Rightarrow> ('a \<Rightarrow> bool) \<Rightarrow> size_t
    \<Rightarrow> addr \<times> addr \<times> size_t \<times> size_t \<times> 'a list \<times> ('k, 'a) cq
    \<Rightarrow> ((addr \<times> addr \<times> size_t \<times> size_t \<times> 'a list \<times> ('k, 'a) cq)
        + (size_t res \<times> addr \<times> size_t \<times> 'a list \<times> ('k, 'a) cq)) option" where
  "BulkOthers_body tr throws MaxCount = (\<lambda>(Node, Current, Items, Count, out, c).
     if Node = Current then Some (Inr (Ret Count, Current, Items, out, c))
     else do {
       (r, vs, c1) \<leftarrow> ProducerDequeueBulk tr throws (MaxCount - Count) Node c;
       case r of Exn \<Rightarrow> Some (Inr (Exn, Current, Items, out @ vs, c1))
       | Ret Dequeued \<Rightarrow> do {
           let Count = Count + Dequeued;
           let (Current, Items) = (if Dequeued \<noteq> 0 then (Node, Dequeued) else (Current, Items));
           if Count = MaxCount then Some (Inr (Ret Count, Current, Items, out @ vs, c1))
           else do { n \<leftarrow> next_or_head Node c1; Some (Inl (n, Current, Items, Count, out @ vs, c1)) } } })"

definition TryDequeueBulkWithToken :: "('k, 'a) traits \<Rightarrow> ('a \<Rightarrow> bool) \<Rightarrow> consumer_token \<Rightarrow> size_t \<Rightarrow> ('k, 'a) cq
    \<Rightarrow> (size_t res \<times> 'a list \<times> consumer_token \<times> ('k, 'a) cq) option" where
  "TryDequeueBulkWithToken tr throws Token MaxCount c = do {
     (ok, t) \<leftarrow> TokenReady Token c;
     if \<not> ok then Some (Ret 0, [], t, c)
     else do {
       Current \<leftarrow> CurrentProducer t;
       (r, vs, c1) \<leftarrow> ProducerDequeueBulk tr throws MaxCount Current c;
       case r of Exn \<Rightarrow> Some (Exn, vs, t, c1)
       | Ret Count \<Rightarrow>
          (let t = t\<lparr>ItemsConsumed := ItemsConsumed t + Count\<rparr> in
           if Count = MaxCount then
             Some (Ret Count, vs, t,
               if ItemsConsumed t \<ge> EXPLICIT_CONSUMER_CONSUMPTION_QUOTA_BEFORE_ROTATE
                  \<or> Count \<ge> EXPLICIT_CONSUMER_CONSUMPTION_QUOTA_BEFORE_ROTATE then rotate_global c1 else c1)
           else do {
             n \<leftarrow> next_or_head Current c1;
             (r, Current, Items, out, c2) \<leftarrow> loop (BulkOthers_body tr throws MaxCount)
               (n, Current, ItemsConsumed t, Count, vs, c1);
             Some (r, out, t\<lparr>CurrentProducer := Some Current, ItemsConsumed := Items\<rparr>, c2) }) } }"

end
