(* ===== verification/Producers.thy ===== *)
theory Producers
  imports Slow_Queue_Properties
begin

text \<open>
  Several producers' queues over one block manager.  Each queue's invariant speaks of the whole memory: of
  its own blocks, and of the blocks \<open>V\<close> the other clients of the manager hold.  The locale \<open>producers\<close> asks of a
  kind of queue what lets many of them share a memory: each operation changes only the queue's own
  blocks, and the invariant depends on no others.  It gives the operations of a family of queues.
\<close>

section \<open>Families of queues\<close>

text \<open>
  \<open>owns V B q s xs\<close>: the queue \<open>q\<close> holds \<open>xs\<close> in the blocks \<open>B\<close>, next to the blocks \<open>V\<close> of others; \<open>mok s U\<close>: the
  memory is in order and its clients hold the blocks \<open>U\<close>; \<open>ready n s\<close>: there is memory for \<open>n\<close> more operations.
\<close>

definition family :: "('a mem \<Rightarrow> addr set \<Rightarrow> bool) \<Rightarrow> (addr set \<Rightarrow> addr set \<Rightarrow> 'q \<Rightarrow> 'a mem \<Rightarrow> 'a list \<Rightarrow> bool)
    \<Rightarrow> (addr \<rightharpoonup> 'q) \<Rightarrow> 'a mem \<Rightarrow> (addr \<Rightarrow> 'a list) \<Rightarrow> bool" where
  "family mok owns qs s M \<longleftrightarrow> (\<exists>own.
     (\<forall>i \<in> dom qs. \<forall>j \<in> dom qs. i \<noteq> j \<longrightarrow> own i \<inter> own j = {})
     \<and> mok s (\<Union>i \<in> dom qs. own i)
     \<and> (\<forall>i q. qs i = Some q \<longrightarrow> owns (\<Union>j \<in> dom qs - {i}. own j) (own i) q s (M i)))"

lemma familyE:
  assumes "family mok owns qs s M"
  obtains own where "\<And>i j. i \<in> dom qs \<Longrightarrow> j \<in> dom qs \<Longrightarrow> i \<noteq> j \<Longrightarrow> own i \<inter> own j = {}"
    "mok s (\<Union>i \<in> dom qs. own i)"
    "\<And>i q. qs i = Some q \<Longrightarrow> owns (\<Union>j \<in> dom qs - {i}. own j) (own i) q s (M i)"
proof -
  from assms obtain own where own: "\<forall>i \<in> dom qs. \<forall>j \<in> dom qs. i \<noteq> j \<longrightarrow> own i \<inter> own j = {}"
    "mok s (\<Union>i \<in> dom qs. own i)" "\<forall>i q. qs i = Some q \<longrightarrow> owns (\<Union>j \<in> dom qs - {i}. own j) (own i) q s (M i)"
    unfolding family_def by (elim exE conjE)
  show ?thesis by (rule that [of own]) (use own in simp_all)
qed

lemma family_cong: "(\<And>i. i \<in> dom qs \<Longrightarrow> M i = M' i) \<Longrightarrow> family mok owns qs s M \<longleftrightarrow> family mok owns qs s M'"
proof -
  assume "\<And>i. i \<in> dom qs \<Longrightarrow> M i = M' i"
  then have "M i = M' i" if "qs i = Some q" for i q using that by (simp add: domI)
  then show ?thesis by (simp add: family_def cong: imp_cong)
qed

lemma family_empty: "mok s {} \<Longrightarrow> family mok owns Map.empty s M"
  by (simp add: family_def)

locale producers =
  fixes mok :: "'a mem \<Rightarrow> addr set \<Rightarrow> bool"
    and owns :: "addr set \<Rightarrow> addr set \<Rightarrow> 'q \<Rightarrow> 'a mem \<Rightarrow> 'a list \<Rightarrow> bool"
    and ready :: "nat \<Rightarrow> 'a mem \<Rightarrow> bool"
    and new :: "'a mem \<Rightarrow> ('q \<times> 'a mem) option"
    and enq :: "'a option \<Rightarrow> 'q \<Rightarrow> 'a mem \<Rightarrow> (bool res \<times> 'q \<times> 'a mem) option"
    and deq :: "'q \<Rightarrow> 'a mem \<Rightarrow> ('a option res \<times> 'q \<times> 'a mem) option"
    and size_of :: "'q \<Rightarrow> size_t"
    and throws :: "'a \<Rightarrow> bool"
  assumes owns_mok: "owns V B q s xs \<Longrightarrow> mok s (V \<union> B)"
    and owns_disjoint: "owns V B q s xs \<Longrightarrow> V \<inter> B = {}"
    and owns_frame: "owns V B q s xs \<Longrightarrow> mok s' (V' \<union> B) \<Longrightarrow> V' \<inter> B = {}
      \<Longrightarrow> (\<And>x. x \<in> B \<Longrightarrow> blk s' x = blk s x) \<Longrightarrow> owns V' B q s' xs"
    and new_law: "mok s U \<Longrightarrow> ready (Suc n) s \<Longrightarrow>
      \<exists>q s'. new s = Some (q, s') \<and> owns U {} q s' [] \<and> blk s' = blk s \<and> ready n s'"
    and enq_law: "owns V B q s xs \<Longrightarrow> ready (Suc n) s \<Longrightarrow>
      \<exists>r q' s' B'. enq arg q s = Some (r, q', s') \<and> (\<forall>x \<in> V. blk s' x = blk s x) \<and> ready n s'
        \<and> (r = Ret True \<longrightarrow> arg \<noteq> None)
        \<and> owns V B' q' s' (if r = Ret True then xs @ [the arg] else xs)"
    and deq_law: "owns V B q s xs \<Longrightarrow>
      \<exists>q' s' B'. deq q s = Some (case xs of [] \<Rightarrow> Ret None | x # _ \<Rightarrow> if throws x then Exn else Ret (Some x), q', s')
        \<and> (\<forall>x \<in> V. blk s' x = blk s x) \<and> (\<forall>n. ready n s \<longrightarrow> ready n s') \<and> owns V B' q' s' (tl xs)"
    and size_law: "owns V B q s xs \<Longrightarrow> unat (size_of q) = length xs"
begin

text \<open>One queue takes a step: whatever it does to its own blocks, the others are as before.\<close>

lemma family_step:
  assumes "family mok owns qs s M" "qs i = Some q"
  obtains V B where "owns V B q s (M i)"
    "\<And>q' s' B' ys. owns V B' q' s' ys \<Longrightarrow> (\<And>x. x \<in> V \<Longrightarrow> blk s' x = blk s x)
       \<Longrightarrow> family mok owns (qs(i \<mapsto> q')) s' (M(i := ys))"
proof -
  obtain own where own: "\<And>i j. i \<in> dom qs \<Longrightarrow> j \<in> dom qs \<Longrightarrow> i \<noteq> j \<Longrightarrow> own i \<inter> own j = {}"
    "\<And>i q. qs i = Some q \<Longrightarrow> owns (\<Union>j \<in> dom qs - {i}. own j) (own i) q s (M i)"
    using familyE [OF assms(1)] by metis
  let ?V = "\<Union>j \<in> dom qs - {i}. own j"
  have "family mok owns (qs(i \<mapsto> q')) s' (M(i := ys))"
    if o: "owns ?V B' q' s' ys" and same: "\<And>x. x \<in> ?V \<Longrightarrow> blk s' x = blk s x" for q' s' B' ys
  proof -
    let ?own = "own(i := B')" and ?qs = "qs(i \<mapsto> q')"
    have dom: "dom ?qs = dom qs" using assms(2) by auto
    note B' = owns_disjoint [OF o]
    have part: "(\<Union>j \<in> dom ?qs - {a}. ?own j) \<union> ?own a = ?V \<union> B'" if "a \<in> dom qs" for a
      using that assms(2) unfolding dom by (cases "a = i") auto
    have disj: "?own a \<inter> ?own b = {}" if "a \<in> dom ?qs" "b \<in> dom ?qs" "a \<noteq> b" for a b
      using that own(1) [of a b] B' unfolding dom by (cases "a = i"; cases "b = i") auto
    have mok: "mok s' (?V \<union> B')" by (rule owns_mok [OF o])
    have "owns (\<Union>j \<in> dom ?qs - {a}. ?own j) (?own a) p s' ((M(i := ys)) a)" if p: "?qs a = Some p" for a p
    proof (cases "a = i")
      case True
      then have "(\<Union>j \<in> dom ?qs - {a}. ?own j) = ?V" unfolding dom by auto
      with o p True show ?thesis by simp
    next
      case False
      with p have a: "qs a = Some p" "a \<in> dom qs" by auto
      have "owns (\<Union>j \<in> dom ?qs - {a}. ?own j) (own a) p s' (M a)"
      proof (rule owns_frame [OF own(2) [OF a(1)]])
        show "mok s' ((\<Union>j \<in> dom ?qs - {a}. ?own j) \<union> own a)"
          using mok part [OF a(2)] False by simp
        show "(\<Union>j \<in> dom ?qs - {a}. ?own j) \<inter> own a = {}"
          using disj [of _ a] a(2) False by (fastforce simp: dom)
        show "\<And>x. x \<in> own a \<Longrightarrow> blk s' x = blk s x" using same a(2) False by auto
      qed
      with False show ?thesis by simp
    qed
    moreover have "(\<Union>j \<in> dom ?qs. ?own j) = ?V \<union> B'" using part [of i] assms(2) unfolding dom by auto
    ultimately show ?thesis unfolding family_def using disj mok by (intro exI [of _ ?own]) auto
  qed
  with own(2) [OF assms(2)] show ?thesis by (rule that)
qed

lemma family_enq:
  assumes "family mok owns qs s M" "qs i = Some q" "ready (Suc n) s"
  shows "\<exists>r q' s'. enq arg q s = Some (r, q', s') \<and> ready n s' \<and> (r = Ret True \<longrightarrow> arg \<noteq> None)
    \<and> family mok owns (qs(i \<mapsto> q')) s' (if r = Ret True then M(i := M i @ [the arg]) else M)"
proof -
  obtain V B where o: "owns V B q s (M i)" and keep: "\<And>q' s' B' ys. owns V B' q' s' ys
      \<Longrightarrow> (\<And>x. x \<in> V \<Longrightarrow> blk s' x = blk s x) \<Longrightarrow> family mok owns (qs(i \<mapsto> q')) s' (M(i := ys))"
    using family_step [OF assms(1,2)] by metis
  from enq_law [OF o assms(3), of arg] obtain r q' s' B' where e: "enq arg q s = Some (r, q', s')"
    "\<forall>x \<in> V. blk s' x = blk s x" "ready n s'" "r = Ret True \<longrightarrow> arg \<noteq> None"
    "owns V B' q' s' (if r = Ret True then M i @ [the arg] else M i)" by blast
  with keep [OF e(5)] show ?thesis by (intro exI [of _ r] exI [of _ q'] exI [of _ s']) (simp split: if_splits)
qed

lemma family_deq:
  assumes "family mok owns qs s M" "qs i = Some q"
  shows "\<exists>q' s'. deq q s = Some (case M i of [] \<Rightarrow> Ret None | x # _ \<Rightarrow> if throws x then Exn else Ret (Some x), q', s')
    \<and> (\<forall>n. ready n s \<longrightarrow> ready n s') \<and> family mok owns (qs(i \<mapsto> q')) s' (M(i := tl (M i)))"
proof -
  obtain V B where o: "owns V B q s (M i)" and keep: "\<And>q' s' B' ys. owns V B' q' s' ys
      \<Longrightarrow> (\<And>x. x \<in> V \<Longrightarrow> blk s' x = blk s x) \<Longrightarrow> family mok owns (qs(i \<mapsto> q')) s' (M(i := ys))"
    using family_step [OF assms] by metis
  from deq_law [OF o] keep show ?thesis by blast
qed

lemma family_size: "family mok owns qs s M \<Longrightarrow> qs i = Some q \<Longrightarrow> unat (size_of q) = length (M i)"
  by (erule familyE) (blast intro: size_law)

lemma family_new:
  assumes "family mok owns qs s M" "qs i = None" "ready (Suc n) s"
  shows "\<exists>q s'. new s = Some (q, s') \<and> ready n s' \<and> family mok owns (qs(i \<mapsto> q)) s' (M(i := []))"
proof -
  obtain own where own: "\<And>i j. i \<in> dom qs \<Longrightarrow> j \<in> dom qs \<Longrightarrow> i \<noteq> j \<Longrightarrow> own i \<inter> own j = {}"
    "mok s (\<Union>i \<in> dom qs. own i)"
    "\<And>i q. qs i = Some q \<Longrightarrow> owns (\<Union>j \<in> dom qs - {i}. own j) (own i) q s (M i)"
    using familyE [OF assms(1)] by metis
  let ?U = "\<Union>i \<in> dom qs. own i"
  from new_law [OF own(2) assms(3)] obtain q s' where q: "new s = Some (q, s')" "owns ?U {} q s' []"
    "blk s' = blk s" "ready n s'" by blast
  let ?own = "own(i := {})" and ?qs = "qs(i \<mapsto> q)"
  have i: "i \<notin> dom qs" using assms(2) by auto
  have others: "(\<Union>j \<in> dom ?qs - {a}. ?own j) = (\<Union>j \<in> dom qs - {a}. own j)" for a
    using i by auto
  have U: "(\<Union>j \<in> dom ?qs. ?own j) = ?U" using i by auto
  have mok: "mok s' ?U" using owns_mok [OF q(2)] by simp
  have "owns (\<Union>j \<in> dom ?qs - {a}. ?own j) (?own a) p s' ((M(i := [])) a)" if p: "?qs a = Some p" for a p
  proof (cases "a = i")
    case True
    have "(\<Union>j \<in> dom qs - {i}. own j) = ?U" using i by auto
    with q(2) p True show ?thesis by (simp only: others) simp
  next
    case False
    with p have a: "qs a = Some p" by simp
    then have "(\<Union>j \<in> dom qs - {a}. own j) \<union> own a = ?U" by auto
    with owns_frame [OF own(3) [OF a], of s' "\<Union>j \<in> dom qs - {a}. own j"] mok q(3) owns_disjoint [OF own(3) [OF a]]
    have "owns (\<Union>j \<in> dom qs - {a}. own j) (own a) p s' (M a)" by simp
    with False show ?thesis by (simp only: others) simp
  qed
  moreover have "\<forall>a \<in> dom ?qs. \<forall>b \<in> dom ?qs. a \<noteq> b \<longrightarrow> ?own a \<inter> ?own b = {}" using own(1) by auto
  ultimately have "family mok owns ?qs s' (M(i := []))"
    unfolding family_def using mok U by (intro exI [of _ ?own]) simp
  with q show ?thesis by blast
qed

end

section \<open>Explicit producers\<close>

definition fast_mok :: "nat \<Rightarrow> size_t \<Rightarrow> 'a mem \<Rightarrow> addr set \<Rightarrow> bool" where
  "fast_mok k InSize s U \<longleftrightarrow> 1 \<le> k \<and> k \<le> 62 \<and> unat InSize \<le> 2 ^ (64 - k) \<and> mgr_inv (2 ^ k) s U"

definition fast_owns :: "nat \<Rightarrow> size_t \<Rightarrow> addr set \<Rightarrow> addr set \<Rightarrow> fastq \<Rightarrow> 'a mem \<Rightarrow> 'a list \<Rightarrow> bool" where
  "fast_owns k InSize V B q s xs \<longleftrightarrow> fast_mok k InSize s (V \<union> B)
     \<and> (\<exists>hn tn f fs ls. fast_inv k V q s hn tn f fs ls \<and> B = set (fs @ ls) \<and> xs = contents f hn tn)"

lemma fast_ownsE:
  assumes "fast_owns k InSize V B q s xs"
  obtains hn tn f fs ls where "fast_inv k V q s hn tn f fs ls" "B = set (fs @ ls)" "xs = contents f hn tn"
    "1 \<le> k" "k \<le> 62" "unat InSize \<le> 2 ^ (64 - k)"
  using assms unfolding fast_owns_def fast_mok_def by blast

lemma fast_ownsI: "fast_inv k V q s hn tn f fs ls \<Longrightarrow> k \<le> 62 \<Longrightarrow> unat InSize \<le> 2 ^ (64 - k) \<Longrightarrow>
   fast_owns k InSize V (set (fs @ ls)) q s (contents f hn tn)"
  unfolding fast_owns_def fast_mok_def using fast_invD(1,3) by blast

lemma window_cong: "(\<And>x. x \<in> set ls \<Longrightarrow> bl' x = bl x) \<Longrightarrow> window n hn tn f bl ls \<Longrightarrow> window n hn tn f bl' ls"
  by (simp add: window_def)

lemma fast_inv_frame:
  assumes "fast_inv k V q s hn tn f fs ls" "mgr_inv (2 ^ k) s' (V' \<union> set (fs @ ls))" "V' \<inter> set (fs @ ls) = {}"
    and same: "\<And>x. x \<in> set (fs @ ls) \<Longrightarrow> blk s' x = blk s x"
  shows "fast_inv k V' q s' hn tn f fs ls"
proof -
  note d = fast_invD [OF assms(1)]
  have "ring (next_of s') (fs @ ls)" if "fs @ ls \<noteq> []"
    using d(10) [OF that] ring_cong [of "fs @ ls" "next_of s'" "next_of s"] same by (simp add: next_of_def)
  moreover have "\<forall>a \<in> set fs. \<exists>b. blk s' a = Some b \<and> spent (2 ^ k) b" using d(11) same by simp
  moreover have "window (2 ^ k) hn tn f (blk s') ls" by (rule window_cong [OF _ d(12)]) (simp add: same)
  ultimately show ?thesis unfolding fast_inv_def using d(1,2,5-9,13) assms(2,3) by blast
qed

lemma fast_inv_size:
  assumes "fast_inv k V q s hn tn f fs ls"
  shows "unat (QueueBase_Size q) = tn - hn"
proof -
  have inv: "fast_rel k (new_block True (2 ^ k)) V (q, s) (contents f hn tn)"
    using assms fast_invD(1,2) [OF assms] new_block_proto [of "2 ^ k" True]
    by (intro fast_relI [OF assms]) (auto simp: block_size_def)
  from fast_rel_Size [OF this] show ?thesis by (simp add: contents_def)
qed

interpretation explicit: producers "fast_mok k InSize" "fast_owns k InSize" "\<lambda>_ _. True" "FastQueue_new InSize"
    "FastQueue_Enqueue (2 ^ k) (new_block c (2 ^ k)) mode" "FastQueue_Dequeue (2 ^ k) throws" QueueBase_Size throws
  for k InSize c mode throws
proof
  fix V B and q :: fastq and s :: "'a mem" and xs
  assume o: "fast_owns k InSize V B q s xs"
  from o show "fast_mok k InSize s (V \<union> B)" by (simp add: fast_owns_def)
  from o obtain hn tn f fs ls where inv: "fast_inv k V q s hn tn f fs ls" and B: "B = set (fs @ ls)"
    and xs: "xs = contents f hn tn" and k: "1 \<le> k" "k \<le> 62" "unat InSize \<le> 2 ^ (64 - k)" by (rule fast_ownsE)
  note le = fast_inv_span(1) [OF inv]
  show "V \<inter> B = {}" using fast_invD(4) [OF inv] B by simp
  show "unat (QueueBase_Size q) = length xs" using fast_inv_size [OF inv] by (simp add: xs contents_def)
  show "fast_owns k InSize V' B q s' xs" if "fast_mok k InSize s' (V' \<union> B)" "V' \<inter> B = {}"
    "\<And>x. x \<in> B \<Longrightarrow> blk s' x = blk s x" for s' V'
  proof -
    have "fast_inv k V' q s' hn tn f fs ls"
      by (rule fast_inv_frame [OF inv]) (use that B in \<open>simp_all add: fast_mok_def\<close>)
    then show ?thesis unfolding B xs using k by (intro fast_ownsI)
  qed
  show "\<exists>r q' s' B'. FastQueue_Enqueue (2 ^ k) (new_block c (2 ^ k)) mode arg q s = Some (r, q', s')
      \<and> (\<forall>x \<in> V. blk s' x = blk s x) \<and> True \<and> (r = Ret True \<longrightarrow> arg \<noteq> None)
      \<and> fast_owns k InSize V B' q' s' (if r = Ret True then xs @ [the arg] else xs)" for arg
  proof -
    have "fresh_proto (2 ^ k) (new_block c (2 ^ k) :: 'a block)"
      using k by (intro new_block_proto) (auto simp: block_size_def)
    from fast_Enqueue [OF inv this, of mode arg] obtain r q' s' where
      r: "FastQueue_Enqueue (2 ^ k) (new_block c (2 ^ k)) mode arg q s = Some (r, q', s')" "\<forall>x \<in> V. blk s' x = blk s x"
      and c: "case r of Ret True \<Rightarrow> \<exists>v fs' ls'. arg = Some v \<and> fast_inv k V q' s' hn (Suc tn) (f(tn := v)) fs' ls'
        | Ret False \<Rightarrow> fast_inv k V q' s' hn tn f fs ls \<and> (mode = CannotAlloc \<or> Quota (Hp s) < 3)
        | Exn \<Rightarrow> (arg = None \<or> Quota (Hp s) < 3) \<and> (\<exists>fs'. fast_inv k V q' s' hn tn f fs' ls)" by blast
    have "\<exists>B'. (r = Ret True \<longrightarrow> arg \<noteq> None) \<and> fast_owns k InSize V B' q' s' (if r = Ret True then xs @ [the arg] else xs)"
    proof (cases "r = Ret True")
      case True
      with c obtain v fs' ls' where "arg = Some v" "fast_inv k V q' s' hn (Suc tn) (f(tn := v)) fs' ls'" by auto
      with fast_ownsI [OF this(2) k(2,3)] True show ?thesis by (auto simp: xs contents_push [OF le])
    next
      case False
      with c obtain fs' where "fast_inv k V q' s' hn tn f fs' ls" by (auto split: res.splits bool.splits)
      with fast_ownsI [OF this k(2,3)] False show ?thesis by (auto simp: xs)
    qed
    with r show ?thesis by auto
  qed
  show "\<exists>q' s' B'. FastQueue_Dequeue (2 ^ k) throws q s
        = Some (case xs of [] \<Rightarrow> Ret None | x # _ \<Rightarrow> if throws x then Exn else Ret (Some x), q', s')
      \<and> (\<forall>x \<in> V. blk s' x = blk s x) \<and> (\<forall>n :: nat. True \<longrightarrow> True) \<and> fast_owns k InSize V B' q' s' (tl xs)"
  proof (cases "hn = tn")
    case True
    with inv have "fast_inv k V q s hn hn f fs ls" by simp
    from fast_Dequeue_empty [OF this] o show ?thesis using True by (auto simp: xs contents_def)
  next
    case False
    then have lt: "hn < tn" using le by simp
    from fast_Dequeue_next [OF inv lt, of throws] obtain q' s' fs' ls' where
      "FastQueue_Dequeue (2 ^ k) throws q s = Some (if throws (f hn) then Exn else Ret (Some (f hn)), q', s')"
      "fast_inv k V q' s' (Suc hn) tn f fs' ls'" "\<forall>x \<in> V. blk s' x = blk s x" by blast
    with fast_ownsI [OF this(2) k(2,3)] show ?thesis using lt by (auto simp: xs contents_pop)
  qed
next
  fix s :: "'a mem" and U and n :: nat
  assume m: "fast_mok k InSize s U"
  then obtain q s' where q: "FastQueue_new InSize s = Some (q, s')" "fast_inv k U q s' 0 0 (\<lambda>_. undefined) [] []"
    "blk s' = blk s" using fast_new [of k s U InSize] unfolding fast_mok_def by blast
  then show "\<exists>q s'. FastQueue_new InSize s = Some (q, s') \<and> fast_owns k InSize U {} q s' [] \<and> blk s' = blk s \<and> True"
    using m fast_ownsI [OF q(2)] by (auto simp: fast_mok_def contents_def)
qed

section \<open>Implicit producers\<close>

definition slow_mok :: "nat \<Rightarrow> size_t \<Rightarrow> 'a mem \<Rightarrow> addr set \<Rightarrow> bool" where
  "slow_mok k InSize s U \<longleftrightarrow> 1 \<le> k \<and> k \<le> 62 \<and> unat InSize \<le> 2 ^ (64 - k) \<and> mgr_inv (2 ^ k) s U \<and> uniform True s"

definition slow_owns :: "nat \<Rightarrow> size_t \<Rightarrow> addr set \<Rightarrow> addr set \<Rightarrow> slowq \<Rightarrow> 'a mem \<Rightarrow> 'a list \<Rightarrow> bool" where
  "slow_owns k InSize V B q s xs \<longleftrightarrow> slow_mok k InSize s (V \<union> B)
     \<and> (\<exists>hn tn f ls. slow_inv k V q s hn tn f ls \<and> B = set ls \<and> xs = contents f hn tn)"

definition slow_ready :: "nat \<Rightarrow> 'a mem \<Rightarrow> bool" where
  "slow_ready n s \<longleftrightarrow> 4 * n \<le> Quota (Hp s)"

lemma slow_ownsE:
  assumes "slow_owns k InSize V B q s xs"
  obtains hn tn f ls where "slow_inv k V q s hn tn f ls" "B = set ls" "xs = contents f hn tn"
    "1 \<le> k" "k \<le> 62" "unat InSize \<le> 2 ^ (64 - k)"
  using assms unfolding slow_owns_def slow_mok_def by blast

lemma slow_ownsI: "slow_inv k V q s hn tn f ls \<Longrightarrow> k \<le> 62 \<Longrightarrow> unat InSize \<le> 2 ^ (64 - k) \<Longrightarrow>
   slow_owns k InSize V (set ls) q s (contents f hn tn)"
  unfolding slow_owns_def slow_mok_def using slow_invD(1,3,5) [of k V q s hn tn f ls] by auto

lemma slow_inv_frame:
  assumes "slow_inv k V q s hn tn f ls" "mgr_inv (2 ^ k) s' (V' \<union> set ls)" "V' \<inter> set ls = {}" "uniform True s'"
    and same: "\<And>x. x \<in> set ls \<Longrightarrow> blk s' x = blk s x"
  shows "slow_inv k V' q s' hn tn f ls"
proof -
  note d = slow_invD [OF assms(1)]
  have "window (2 ^ k) hn tn f (blk s') ls" by (rule window_cong [OF _ d(11)]) (simp add: same)
  then show ?thesis unfolding slow_inv_def using d(1,2,6-10,12) assms(2-4) by blast
qed

lemma slow_inv_size:
  assumes "slow_inv k V q s hn tn f ls"
  shows "unat (QueueBase_Size q) = tn - hn"
proof -
  note d = slow_invD [OF assms] and span = slow_inv_span [OF assms]
  have "unat (of_nat tn - of_nat hn :: size_t) = tn - hn"
    using span(1,2) by (intro unat_of_nat_diff) auto
  then show ?thesis using slow_circ [OF assms] span(1) d(7,8) by (simp add: QueueBase_Size_def)
qed

interpretation implicit: producers "slow_mok k InSize" "slow_owns k InSize" slow_ready "SlowQueue_new InSize"
    "SlowQueue_Enqueue (2 ^ k) (new_block True (2 ^ k)) mode" "SlowQueue_Dequeue (2 ^ k) throws" QueueBase_Size throws
  for k InSize mode throws
proof
  fix V B and q :: slowq and s :: "'a mem" and xs
  assume o: "slow_owns k InSize V B q s xs"
  from o show "slow_mok k InSize s (V \<union> B)" by (simp add: slow_owns_def)
  from o obtain hn tn f ls where inv: "slow_inv k V q s hn tn f ls" and B: "B = set ls"
    and xs: "xs = contents f hn tn" and k: "1 \<le> k" "k \<le> 62" "unat InSize \<le> 2 ^ (64 - k)" by (rule slow_ownsE)
  note le = slow_inv_span(1) [OF inv]
  show "V \<inter> B = {}" using slow_invD(4) [OF inv] B by simp
  show "unat (QueueBase_Size q) = length xs" using slow_inv_size [OF inv] by (simp add: xs contents_def)
  show "slow_owns k InSize V' B q s' xs" if "slow_mok k InSize s' (V' \<union> B)" "V' \<inter> B = {}"
    "\<And>x. x \<in> B \<Longrightarrow> blk s' x = blk s x" for s' V'
  proof -
    have "slow_inv k V' q s' hn tn f ls"
      by (rule slow_inv_frame [OF inv]) (use that B in \<open>simp_all add: slow_mok_def\<close>)
    then show ?thesis unfolding B xs using k by (intro slow_ownsI)
  qed
  show "\<exists>r q' s' B'. SlowQueue_Enqueue (2 ^ k) (new_block True (2 ^ k)) mode arg q s = Some (r, q', s')
      \<and> (\<forall>x \<in> V. blk s' x = blk s x) \<and> slow_ready n s' \<and> (r = Ret True \<longrightarrow> arg \<noteq> None)
      \<and> slow_owns k InSize V B' q' s' (if r = Ret True then xs @ [the arg] else xs)"
    if ready: "slow_ready (Suc n) s" for n arg
  proof -
    have proto: "fresh_proto (2 ^ k) (new_block True (2 ^ k) :: 'a block)"
      using k by (intro new_block_proto) (auto simp: block_size_def)
    have kind: "HasMeaningfulSetResult (Policy (new_block True (2 ^ k) :: 'a block))" by (simp add: new_block_def)
    have "mode = CanAlloc \<longrightarrow> 4 \<le> Quota (Hp s)" using ready by (simp add: slow_ready_def)
    from slow_Enqueue [OF inv proto kind this, of arg] obtain r q' s' where
      r: "SlowQueue_Enqueue (2 ^ k) (new_block True (2 ^ k)) mode arg q s = Some (r, q', s')" "\<forall>x \<in> V. blk s' x = blk s x"
        "Quota (Hp s) \<le> Quota (Hp s') + 4"
      and c: "case r of Ret True \<Rightarrow> \<exists>v ls'. arg = Some v \<and> slow_inv k V q' s' hn (Suc tn) (f(tn := v)) ls'
        | Ret False \<Rightarrow> (mode = CannotAlloc \<or> SlowArrays q = []) \<and> slow_inv k V q' s' hn tn f ls
        | Exn \<Rightarrow> arg = None \<and> slow_inv k V q' s' hn tn f ls" by blast
    have "\<exists>B'. (r = Ret True \<longrightarrow> arg \<noteq> None) \<and> slow_owns k InSize V B' q' s' (if r = Ret True then xs @ [the arg] else xs)"
    proof (cases "r = Ret True")
      case True
      with c obtain v ls' where "arg = Some v" "slow_inv k V q' s' hn (Suc tn) (f(tn := v)) ls'" by auto
      with slow_ownsI [OF this(2) k(2,3)] True show ?thesis by (auto simp: xs contents_push [OF le])
    next
      case False
      with c have "slow_inv k V q' s' hn tn f ls" by (auto split: res.splits bool.splits)
      with slow_ownsI [OF this k(2,3)] False show ?thesis by (auto simp: xs)
    qed
    moreover have "slow_ready n s'" using ready r(3) by (simp add: slow_ready_def)
    ultimately show ?thesis using r by auto
  qed
  show "\<exists>q' s' B'. SlowQueue_Dequeue (2 ^ k) throws q s
        = Some (case xs of [] \<Rightarrow> Ret None | x # _ \<Rightarrow> if throws x then Exn else Ret (Some x), q', s')
      \<and> (\<forall>x \<in> V. blk s' x = blk s x) \<and> (\<forall>n. slow_ready n s \<longrightarrow> slow_ready n s') \<and> slow_owns k InSize V B' q' s' (tl xs)"
  proof (cases "hn = tn")
    case True
    with inv have "slow_inv k V q s hn hn f ls" by simp
    from slow_Dequeue_empty [OF this] o show ?thesis using True by (auto simp: xs contents_def)
  next
    case False
    then have lt: "hn < tn" using le by simp
    from slow_Dequeue_next [OF inv lt, of throws] obtain q' s' ls' where
      "SlowQueue_Dequeue (2 ^ k) throws q s = Some (if throws (f hn) then Exn else Ret (Some (f hn)), q', s')"
      "slow_inv k V q' s' (Suc hn) tn f ls'" "\<forall>x \<in> V. blk s' x = blk s x" "Quota (Hp s') = Quota (Hp s)" by blast
    with slow_ownsI [OF this(2) k(2,3)] show ?thesis using lt by (auto simp: xs contents_pop slow_ready_def)
  qed
next
  fix s :: "'a mem" and U and n :: nat
  assume m: "slow_mok k InSize s U" and ready: "slow_ready (Suc n) s"
  then obtain q s' where q: "SlowQueue_new InSize s = Some (q, s')" "slow_inv k U q s' 0 0 (\<lambda>_. undefined) []"
    "blk s' = blk s" "Quota (Hp s) \<le> Quota (Hp s') + 3"
    using slow_new [of k s U InSize] unfolding slow_mok_def by blast
  then show "\<exists>q s'. SlowQueue_new InSize s = Some (q, s') \<and> slow_owns k InSize U {} q s' [] \<and> blk s' = blk s \<and> slow_ready n s'"
    using m ready slow_ownsI [OF q(2)] by (auto simp: slow_mok_def slow_ready_def contents_def)
qed

end
