(* ===== verification/Concurrent_Queue_Correct.thy ===== *)
theory Concurrent_Queue_Correct
  imports Concurrent_Queue Producers Hash_Table_Properties
begin

text \<open>
  The invariant of \<^verbatim>\<open>ConcurrentQueue\<close> and what each of its operations does to it.  The abstract state is the list
  of producers, the values \<open>M a\<close> that the producer with the node \<open>a\<close> holds, and the node \<open>th t\<close> of each
  thread \<open>t\<close> that has enqueued without a token.
\<close>

section \<open>The invariant\<close>

definition traits_ok :: "nat \<Rightarrow> ('k, 'a) traits \<Rightarrow> bool" where
  "traits_ok k tr \<longleftrightarrow> 1 \<le> k \<and> k \<le> 62 \<and> TraitsBlockSize tr = 2 ^ k
     \<and> ExplicitProto tr = new_block False (2 ^ k) \<and> ImplicitProto tr = new_block True (2 ^ k)
     \<and> InitialHashSize tr \<noteq> 0"

definition explicit_qs :: "producer_node list \<Rightarrow> addr \<rightharpoonup> fastq" where
  "explicit_qs Ns a = (case List.find (\<lambda>N. PN_Self N = a) Ns of None \<Rightarrow> None
     | Some N \<Rightarrow> (case PN_Queue N of ExplicitProducer q \<Rightarrow> Some q | ImplicitProducer _ \<Rightarrow> None))"

definition implicit_qs :: "producer_node list \<Rightarrow> addr \<rightharpoonup> slowq" where
  "implicit_qs Ns a = (case List.find (\<lambda>N. PN_Self N = a) Ns of None \<Rightarrow> None
     | Some N \<Rightarrow> (case PN_Queue N of ExplicitProducer _ \<Rightarrow> None | ImplicitProducer q \<Rightarrow> Some q))"

text \<open>What of the list of nodes only the list operations change: everything but the queues and the tokens.\<close>

definition node_key :: "producer_node \<Rightarrow> addr \<times> addr \<times> ProducerType \<times> bool" where
  "node_key N = (PN_Self N, PN_Producer N, PN_Type N, Inactive N)"

definition nodes_ok :: "(addr \<times> addr \<times> ProducerType \<times> bool) list \<Rightarrow> nat \<Rightarrow> bool" where
  "nodes_ok ks brk \<longleftrightarrow> distinct (List.map fst ks) \<and> distinct (List.map (fst \<circ> snd) ks)
     \<and> (\<forall>(a, p, ty, inactive) \<in> set ks. a < brk \<and> p < brk \<and> (ty = Implicit \<longrightarrow> \<not> inactive))"

text \<open>The threads' nodes: the hash table maps a thread to the address of its node's producer.\<close>

definition threads_ok :: "(addr \<times> addr \<times> ProducerType \<times> bool) list \<Rightarrow> ('k \<rightharpoonup> addr) \<Rightarrow> ('k \<rightharpoonup> addr) \<Rightarrow> bool" where
  "threads_ok ks th m \<longleftrightarrow> inj_on th (dom th) \<and> dom m = dom th
     \<and> (\<forall>t a. th t = Some a \<longrightarrow> (\<exists>p. m t = Some p \<and> (a, p, Implicit, False) \<in> set ks))"

definition cq_core :: "('k, 'a) traits \<Rightarrow> nat \<Rightarrow> ('k, 'a) cq \<Rightarrow> (addr \<Rightarrow> 'a list) \<Rightarrow> bool" where
  "cq_core tr k c M \<longleftrightarrow> traits_ok k tr
     \<and> nodes_ok (List.map node_key (ProducerLists c)) (Brk (NodeHeap c))
     \<and> ProducerCount c = of_nat (length (ProducerLists c))
     \<and> family (fast_mok k (InitialExplicitQueueSize tr)) (fast_owns k (InitialExplicitQueueSize tr))
         (explicit_qs (ProducerLists c)) (ExplicitMem c) M
     \<and> family (slow_mok k (InitialImplicitQueueSize tr)) (slow_owns k (InitialImplicitQueueSize tr))
         (implicit_qs (ProducerLists c)) (ImplicitMem c) M"

text \<open>
  \<open>n\<close> is the number of operations for which there is memory: a thread's first enqueue makes a node, a producer, a
  hash array and the parts of a queue.
\<close>

definition cq_rel :: "('k, 'a) traits \<Rightarrow> nat \<Rightarrow> nat \<Rightarrow> ('k, 'a) cq \<Rightarrow> (addr \<Rightarrow> 'a list) \<Rightarrow> ('k \<rightharpoonup> addr) \<Rightarrow> bool" where
  "cq_rel tr k n c M th \<longleftrightarrow> cq_core tr k c M \<and> length (ProducerLists c) + n < 2 ^ 32 \<and> slow_ready (2 * n) (ImplicitMem c)
     \<and> (\<exists>m. ht_rel (thread_hash tr) (invalid_thread_id tr) (2 * n) (ImplicitMap c, NodeHeap c) m
          \<and> threads_ok (List.map node_key (ProducerLists c)) th m)"

lemma cq_coreD:
  assumes "cq_core tr k c M"
  shows "traits_ok k tr" "nodes_ok (List.map node_key (ProducerLists c)) (Brk (NodeHeap c))"
    "ProducerCount c = of_nat (length (ProducerLists c))"
    "family (fast_mok k (InitialExplicitQueueSize tr)) (fast_owns k (InitialExplicitQueueSize tr))
         (explicit_qs (ProducerLists c)) (ExplicitMem c) M"
    "family (slow_mok k (InitialImplicitQueueSize tr)) (slow_owns k (InitialImplicitQueueSize tr))
         (implicit_qs (ProducerLists c)) (ImplicitMem c) M"
  using assms unfolding cq_core_def by blast+

lemma cq_relE:
  assumes "cq_rel tr k n c M th"
  obtains m where "cq_core tr k c M" "length (ProducerLists c) + n < 2 ^ 32" "slow_ready (2 * n) (ImplicitMem c)"
    "ht_rel (thread_hash tr) (invalid_thread_id tr) (2 * n) (ImplicitMap c, NodeHeap c) m"
    "threads_ok (List.map node_key (ProducerLists c)) th m"
  using assms unfolding cq_rel_def by blast

lemma cq_relI: "cq_core tr k c M \<Longrightarrow> length (ProducerLists c) + n < 2 ^ 32 \<Longrightarrow> slow_ready (2 * n) (ImplicitMem c) \<Longrightarrow>
    ht_rel (thread_hash tr) (invalid_thread_id tr) (2 * n) (ImplicitMap c, NodeHeap c) m \<Longrightarrow>
    threads_ok (List.map node_key (ProducerLists c)) th m \<Longrightarrow> cq_rel tr k n c M th"
  unfolding cq_rel_def by blast

lemma cq_rel_core: "cq_rel tr k n c M th \<Longrightarrow> cq_core tr k c M"
  by (simp add: cq_rel_def)

section \<open>Nodes\<close>

lemma find_set_node:
  assumes "List.find (\<lambda>N. PN_Self N = PN_Self N') Ns = Some N"
  shows "List.find (\<lambda>N. PN_Self N = a) (List.map (\<lambda>M. if PN_Self M = PN_Self N' then N' else M) Ns)
    = (if a = PN_Self N' then Some N' else List.find (\<lambda>N. PN_Self N = a) Ns)"
proof -
  have "List.find (\<lambda>N. PN_Self N = a) (List.map (\<lambda>M. if PN_Self M = PN_Self N' then N' else M) Ns)
      = List.find (\<lambda>N. PN_Self N = a) Ns" if "a \<noteq> PN_Self N'"
    using that by (induction Ns) auto
  moreover have "List.find (\<lambda>N. PN_Self N = PN_Self N') (List.map (\<lambda>M. if PN_Self M = PN_Self N' then N' else M) Ns) = Some N'"
    using assms by (induction Ns) (auto split: if_splits)
  ultimately show ?thesis by simp
qed

lemma find_SomeD: "List.find P xs = Some x \<Longrightarrow> x \<in> set xs \<and> P x"
  by (auto simp: find_Some_iff)

lemma find_node:
  assumes "distinct (List.map PN_Self Ns)" "N \<in> set Ns"
  shows "List.find (\<lambda>M. PN_Self M = PN_Self N) Ns = Some N"
  using assms by (induction Ns) (auto simp: image_iff)

lemma map_set_node:
  assumes "List.find (\<lambda>M. PN_Self M = PN_Self N') Ns = Some N" "distinct (List.map PN_Self Ns)" "f N' = f N"
  shows "List.map f (List.map (\<lambda>M. if PN_Self M = PN_Self N' then N' else M) Ns) = List.map f Ns"
proof -
  have "f M = f N" if "M \<in> set Ns" "PN_Self M = PN_Self N'" for M
    using find_node [OF assms(2) that(1)] that(2) assms(1) by simp
  then show ?thesis using assms(3) by auto
qed

lemma nodes_okD:
  assumes "nodes_ok (List.map node_key Ns) b"
  shows "distinct (List.map PN_Self Ns)" "distinct (List.map PN_Producer Ns)"
    "\<And>N. N \<in> set Ns \<Longrightarrow> PN_Self N < b \<and> PN_Producer N < b \<and> (PN_Type N = Implicit \<longrightarrow> \<not> Inactive N)"
  using assms by (auto simp: nodes_ok_def node_key_def comp_def)

lemma nodes_ok_mono: "nodes_ok ks b \<Longrightarrow> b \<le> b' \<Longrightarrow> nodes_ok ks b'"
  by (fastforce simp: nodes_ok_def)

lemma node_addrs_eq: "node_addrs c = List.map fst (List.map node_key (ProducerLists c))"
  by (simp add: node_addrs_def node_key_def comp_def)

text \<open>A node \<open>N\<close> that is found at its address is replaced by one of the same type.\<close>

lemma set_node_qs:
  assumes N: "node_at a c = Some N" and key: "PN_Self N' = a" "PN_Type N' = PN_Type N"
  shows "explicit_qs (ProducerLists (set_node N' c)) = (case PN_Queue N' of
       ExplicitProducer q \<Rightarrow> (explicit_qs (ProducerLists c))(a \<mapsto> q) | _ \<Rightarrow> explicit_qs (ProducerLists c))"
    "implicit_qs (ProducerLists (set_node N' c)) = (case PN_Queue N' of
       ImplicitProducer q \<Rightarrow> (implicit_qs (ProducerLists c))(a \<mapsto> q) | _ \<Rightarrow> implicit_qs (ProducerLists c))"
    "length (ProducerLists (set_node N' c)) = length (ProducerLists c)"
proof -
  have f: "List.find (\<lambda>M. PN_Self M = PN_Self N') (ProducerLists c) = Some N" using N key(1) by (simp add: node_at_def)
  have new: "List.find (\<lambda>N. PN_Self N = x) (ProducerLists (set_node N' c))
      = (if x = a then Some N' else List.find (\<lambda>N. PN_Self N = x) (ProducerLists c))" for x
    using find_set_node [OF f, of x] key(1) by (simp add: set_node_def)
  show "explicit_qs (ProducerLists (set_node N' c)) = (case PN_Queue N' of
       ExplicitProducer q \<Rightarrow> (explicit_qs (ProducerLists c))(a \<mapsto> q) | _ \<Rightarrow> explicit_qs (ProducerLists c))"
    using key f by (auto simp: fun_eq_iff explicit_qs_def new PN_Type_def split: producer.splits)
  show "implicit_qs (ProducerLists (set_node N' c)) = (case PN_Queue N' of
       ImplicitProducer q \<Rightarrow> (implicit_qs (ProducerLists c))(a \<mapsto> q) | _ \<Rightarrow> implicit_qs (ProducerLists c))"
    using key f by (auto simp: fun_eq_iff implicit_qs_def new PN_Type_def split: producer.splits)
  show "length (ProducerLists (set_node N' c)) = length (ProducerLists c)" by (simp add: set_node_def)
qed

lemma set_node_keys:
  assumes ok: "nodes_ok (List.map node_key (ProducerLists c)) b" and N: "node_at a c = Some N" and f: "PN_Self N' = a" "f N' = f N"
  shows "List.map f (ProducerLists (set_node N' c)) = List.map f (ProducerLists c)"
proof -
  have "List.find (\<lambda>M. PN_Self M = PN_Self N') (ProducerLists c) = Some N" using N f(1) by (simp add: node_at_def)
  from map_set_node [OF this nodes_okD(1) [OF ok], of f] f(2) show ?thesis by (simp add: set_node_def)
qed

lemma node_at_self: "node_at a c = Some N \<Longrightarrow> PN_Self N = a"
  using find_SomeD by (fastforce simp: node_at_def)

lemma set_queue:
  assumes ok: "nodes_ok (List.map node_key (ProducerLists c)) b" and N: "node_at a c = Some N"
    and key: "node_key N' = node_key N"
  shows "List.map node_key (ProducerLists (set_node N' c)) = List.map node_key (ProducerLists c)"
    "explicit_qs (ProducerLists (set_node N' c)) = (case PN_Queue N' of
       ExplicitProducer q \<Rightarrow> (explicit_qs (ProducerLists c))(a \<mapsto> q) | _ \<Rightarrow> explicit_qs (ProducerLists c))"
    "implicit_qs (ProducerLists (set_node N' c)) = (case PN_Queue N' of
       ImplicitProducer q \<Rightarrow> (implicit_qs (ProducerLists c))(a \<mapsto> q) | _ \<Rightarrow> implicit_qs (ProducerLists c))"
    "length (ProducerLists (set_node N' c)) = length (ProducerLists c)"
proof -
  have k: "PN_Self N' = a" "PN_Type N' = PN_Type N" using key node_at_self [OF N] by (simp_all add: node_key_def)
  show "List.map node_key (ProducerLists (set_node N' c)) = List.map node_key (ProducerLists c)"
    by (rule set_node_keys [OF ok N k(1) key])
qed (use set_node_qs [OF N] key node_at_self [OF N] in \<open>simp_all add: node_key_def\<close>)

lemma set_node_fields [simp]:
  "ProducerCount (set_node N c) = ProducerCount c" "ImplicitMap (set_node N c) = ImplicitMap c"
  "ExplicitMem (set_node N c) = ExplicitMem c" "ImplicitMem (set_node N c) = ImplicitMem c"
  "NodeHeap (set_node N c) = NodeHeap c" "CQ_Self (set_node N c) = CQ_Self c"
  "GlobalExplicitConsumerOffset (set_node N c) = GlobalExplicitConsumerOffset c"
  "NextExplicitConsumerId (set_node N c) = NextExplicitConsumerId c"
  by (simp_all add: set_node_def)

lemma node_at_mem:
  assumes "node_at a c = Some N"
  shows "N \<in> set (ProducerLists c)" "PN_Self N = a" "a \<in> set (node_addrs c)"
proof -
  show "N \<in> set (ProducerLists c)" "PN_Self N = a" using find_SomeD [OF assms [unfolded node_at_def]] by blast+
  then show "a \<in> set (node_addrs c)" by (auto simp: node_addrs_def)
qed

lemma node_at_ex: "a \<in> set (node_addrs c) \<Longrightarrow> \<exists>N. node_at a c = Some N"
proof (cases "node_at a c")
  case None
  then have "\<forall>N \<in> set (ProducerLists c). PN_Self N \<noteq> a" by (auto simp: node_at_def find_None_iff)
  moreover assume "a \<in> set (node_addrs c)"
  ultimately show ?thesis by (auto simp: node_addrs_def)
qed simp

lemma qs_at:
  assumes "node_at a c = Some N"
  shows "explicit_qs (ProducerLists c) a = (case PN_Queue N of ExplicitProducer q \<Rightarrow> Some q | _ \<Rightarrow> None)"
    "implicit_qs (ProducerLists c) a = (case PN_Queue N of ImplicitProducer q \<Rightarrow> Some q | _ \<Rightarrow> None)"
  using assms by (auto simp: explicit_qs_def implicit_qs_def node_at_def split: producer.splits)

section \<open>A step of one producer\<close>

text \<open>What the operations on elements leave as it is.\<close>

definition same_shape :: "('k, 'a) cq \<Rightarrow> ('k, 'a) cq \<Rightarrow> bool" where
  "same_shape c c' \<longleftrightarrow> List.map node_key (ProducerLists c') = List.map node_key (ProducerLists c)
     \<and> ProducerCount c' = ProducerCount c \<and> GlobalExplicitConsumerOffset c' = GlobalExplicitConsumerOffset c
     \<and> NextExplicitConsumerId c' = NextExplicitConsumerId c \<and> CQ_Self c' = CQ_Self c"

lemma same_shape_refl [simp]: "same_shape c c"
  by (simp add: same_shape_def)

lemma same_shape_trans: "same_shape c c' \<Longrightarrow> same_shape c' c'' \<Longrightarrow> same_shape c c''"
  by (simp add: same_shape_def)

lemma same_shape_addrs: "same_shape c c' \<Longrightarrow> node_addrs c' = node_addrs c"
  by (simp add: same_shape_def node_addrs_eq del: map_map)

lemma node_key_queue: "node_key (N\<lparr>PN_Queue := p\<rparr>) = node_key N \<longleftrightarrow> PN_Type (N\<lparr>PN_Queue := p\<rparr>) = PN_Type N"
  by (auto simp: node_key_def)

lemma not_explicit: "node_at a c = Some N \<Longrightarrow> PN_Type N = Implicit \<Longrightarrow> a \<notin> dom (explicit_qs (ProducerLists c))"
  by (auto simp: qs_at PN_Type_def split: producer.splits)

lemma not_implicit: "node_at a c = Some N \<Longrightarrow> PN_Type N = Explicit \<Longrightarrow> a \<notin> dom (implicit_qs (ProducerLists c))"
  by (auto simp: qs_at PN_Type_def split: producer.splits)

lemma family_outside: "a \<notin> dom qs \<Longrightarrow> family mok owns qs s (M(a := ys)) \<longleftrightarrow> family mok owns qs s M"
  by (rule family_cong) auto

lemma cq_core_explicit:
  assumes core: "cq_core tr k c M" and N: "node_at a c = Some N" "PN_Queue N = ExplicitProducer q"
    and fam: "family (fast_mok k (InitialExplicitQueueSize tr)) (fast_owns k (InitialExplicitQueueSize tr))
      ((explicit_qs (ProducerLists c))(a \<mapsto> q')) s' (M(a := ys))"
  defines "c' \<equiv> set_node (N\<lparr>PN_Queue := ExplicitProducer q'\<rparr>) (c\<lparr>ExplicitMem := s'\<rparr>)"
  shows "cq_core tr k c' (M(a := ys))" "same_shape c c'"
proof -
  note d = cq_coreD [OF core]
  let ?N = "N\<lparr>PN_Queue := ExplicitProducer q'\<rparr>" and ?c = "c\<lparr>ExplicitMem := s'\<rparr>"
  have key: "node_key ?N = node_key N" using N(2) by (simp add: node_key_def PN_Type_def)
  have ok: "nodes_ok (List.map node_key (ProducerLists ?c)) (Brk (NodeHeap c))" using d(2) by simp
  have at: "node_at a ?c = Some N" using N(1) by (simp add: node_at_def)
  note s = set_queue [OF ok at key]
  have out: "a \<notin> dom (implicit_qs (ProducerLists c))" by (rule not_implicit [OF N(1)]) (simp add: PN_Type_def N(2))
  show "cq_core tr k c' (M(a := ys))"
    unfolding cq_core_def c'_def using d s fam by (simp add: family_outside [OF out])
  show "same_shape c c'" using s(1) by (simp add: same_shape_def c'_def)
qed

lemma cq_core_implicit:
  assumes core: "cq_core tr k c M" and N: "node_at a c = Some N" "PN_Queue N = ImplicitProducer q"
    and fam: "family (slow_mok k (InitialImplicitQueueSize tr)) (slow_owns k (InitialImplicitQueueSize tr))
      ((implicit_qs (ProducerLists c))(a \<mapsto> q')) s' (M(a := ys))"
  defines "c' \<equiv> set_node (N\<lparr>PN_Queue := ImplicitProducer q'\<rparr>) (c\<lparr>ImplicitMem := s'\<rparr>)"
  shows "cq_core tr k c' (M(a := ys))" "same_shape c c'"
proof -
  note d = cq_coreD [OF core]
  let ?N = "N\<lparr>PN_Queue := ImplicitProducer q'\<rparr>" and ?c = "c\<lparr>ImplicitMem := s'\<rparr>"
  have key: "node_key ?N = node_key N" using N(2) by (simp add: node_key_def PN_Type_def)
  have ok: "nodes_ok (List.map node_key (ProducerLists ?c)) (Brk (NodeHeap c))" using d(2) by simp
  have at: "node_at a ?c = Some N" using N(1) by (simp add: node_at_def)
  note s = set_queue [OF ok at key]
  have out: "a \<notin> dom (explicit_qs (ProducerLists c))" by (rule not_explicit [OF N(1)]) (simp add: PN_Type_def N(2))
  show "cq_core tr k c' (M(a := ys))"
    unfolding cq_core_def c'_def using d s fam by (simp add: family_outside [OF out])
  show "same_shape c c'" using s(1) by (simp add: same_shape_def c'_def)
qed

text \<open>The rest of the relation is about what such a step leaves alone.\<close>

lemma cq_rel_shape:
  assumes "cq_rel tr k n c M th" "cq_core tr k c' M'" "same_shape c c'"
    "ImplicitMap c' = ImplicitMap c" "NodeHeap c' = NodeHeap c" "n' \<le> n" "slow_ready (2 * n') (ImplicitMem c')"
  shows "cq_rel tr k n' c' M' th"
proof -
  obtain m where m: "length (ProducerLists c) + n < 2 ^ 32"
    "ht_rel (thread_hash tr) (invalid_thread_id tr) (2 * n) (ImplicitMap c, NodeHeap c) m"
    "threads_ok (List.map node_key (ProducerLists c)) th m" by (rule cq_relE [OF assms(1)])
  have len: "length (ProducerLists c') = length (ProducerLists c)"
    using assms(3) unfolding same_shape_def by (metis length_map)
  have "ht_rel (thread_hash tr) (invalid_thread_id tr) (2 * n') (ImplicitMap c', NodeHeap c') m"
    using m(2) assms(4-6) by (simp add: ht_rel_def)
  then show ?thesis using assms(2,3,6,7) m(1,3) len by (intro cq_relI [where m = m]) (simp_all add: same_shape_def)
qed

lemma slow_ready_le: "slow_ready n s \<Longrightarrow> n' \<le> n \<Longrightarrow> slow_ready n' s"
  by (simp add: slow_ready_def)

lemma cq_rel_mono: "cq_rel tr k n c M th \<Longrightarrow> n' \<le> n \<Longrightarrow> cq_rel tr k n' c M th"
  by (rule cq_rel_shape [where c = c and M' = M]) (auto simp: cq_rel_def slow_ready_def)

text \<open>Taking the next element of a producer.\<close>

definition handed_out :: "('a \<Rightarrow> bool) \<Rightarrow> 'a list \<Rightarrow> 'a option res" where
  "handed_out throws xs = (case xs of [] \<Rightarrow> Ret None | x # _ \<Rightarrow> if throws x then Exn else Ret (Some x))"

lemma handed_out_None [simp]: "handed_out throws xs = Ret None \<longleftrightarrow> xs = []"
  by (simp add: handed_out_def split: list.splits)

lemma ProducerDequeue_rel:
  assumes rel: "cq_rel tr k n c M th" and a: "a \<in> set (node_addrs c)"
  shows "\<exists>c'. ProducerDequeue tr throws a c = Some (handed_out throws (M a), c')
    \<and> cq_rel tr k n c' (M(a := tl (M a))) th \<and> same_shape c c'"
proof -
  note d = cq_coreD [OF cq_rel_core [OF rel]]
  have ready: "slow_ready (2 * n) (ImplicitMem c)" using rel by (rule cq_relE)
  have bs: "TraitsBlockSize tr = 2 ^ k" using d(1) by (simp add: traits_ok_def)
  obtain N where N: "node_at a c = Some N" using node_at_ex [OF a] by blast
  show ?thesis
  proof (cases "PN_Queue N")
    case (ExplicitProducer q)
    then have "explicit_qs (ProducerLists c) a = Some q" by (simp add: qs_at [OF N])
    from explicit.family_deq [OF d(4) this, of throws] obtain q' s' where
      q: "FastQueue_Dequeue (2 ^ k) throws q (ExplicitMem c) = Some (handed_out throws (M a), q', s')"
      "family (fast_mok k (InitialExplicitQueueSize tr)) (fast_owns k (InitialExplicitQueueSize tr))
        ((explicit_qs (ProducerLists c))(a \<mapsto> q')) s' (M(a := tl (M a)))" by (auto simp: handed_out_def)
    note step = cq_core_explicit [OF cq_rel_core [OF rel] N ExplicitProducer q(2)]
    have "cq_rel tr k n (set_node (N\<lparr>PN_Queue := ExplicitProducer q'\<rparr>) (c\<lparr>ExplicitMem := s'\<rparr>)) (M(a := tl (M a))) th"
      by (rule cq_rel_shape [OF rel step]) (simp_all add: ready)
    with step(2) q(1) show ?thesis using N ExplicitProducer bs by (simp add: ProducerDequeue_def)
  next
    case (ImplicitProducer q)
    then have "implicit_qs (ProducerLists c) a = Some q" by (simp add: qs_at [OF N])
    from implicit.family_deq [OF d(5) this, of throws] obtain q' s' where
      q: "SlowQueue_Dequeue (2 ^ k) throws q (ImplicitMem c) = Some (handed_out throws (M a), q', s')"
      "\<forall>n. slow_ready n (ImplicitMem c) \<longrightarrow> slow_ready n s'"
      "family (slow_mok k (InitialImplicitQueueSize tr)) (slow_owns k (InitialImplicitQueueSize tr))
        ((implicit_qs (ProducerLists c))(a \<mapsto> q')) s' (M(a := tl (M a)))" by (auto simp: handed_out_def)
    note step = cq_core_implicit [OF cq_rel_core [OF rel] N ImplicitProducer q(3)]
    have "cq_rel tr k n (set_node (N\<lparr>PN_Queue := ImplicitProducer q'\<rparr>) (c\<lparr>ImplicitMem := s'\<rparr>)) (M(a := tl (M a))) th"
      by (rule cq_rel_shape [OF rel step]) (simp_all add: ready q(2))
    with step(2) q(1) show ?thesis using N ImplicitProducer bs by (simp add: ProducerDequeue_def)
  qed
qed

text \<open>Enqueueing with a producer, as one of \<open>n + 1\<close> operations.\<close>

lemma ProducerEnqueue_rel:
  assumes core: "cq_core tr k c M" and ready: "slow_ready (Suc n) (ImplicitMem c)" and N: "node_at a c = Some N"
  shows "\<exists>r c'. ProducerEnqueue tr mode arg N c = Some (r, c') \<and> (r = Ret True \<longrightarrow> arg \<noteq> None)
    \<and> cq_core tr k c' (if r = Ret True then M(a := M a @ [the arg]) else M) \<and> same_shape c c'
    \<and> ImplicitMap c' = ImplicitMap c \<and> NodeHeap c' = NodeHeap c \<and> slow_ready n (ImplicitMem c')"
proof -
  note d = cq_coreD [OF core]
  have tr: "TraitsBlockSize tr = 2 ^ k" "ExplicitProto tr = new_block False (2 ^ k)" "ImplicitProto tr = new_block True (2 ^ k)"
    using d(1) by (simp_all add: traits_ok_def)
  have upd: "(if r = Ret True then M(a := M a @ [the arg]) else M) = M(a := if r = Ret True then M a @ [the arg] else M a)" for r
    by simp
  show ?thesis
  proof (cases "PN_Queue N")
    case (ExplicitProducer q)
    then have "explicit_qs (ProducerLists c) a = Some q" by (simp add: qs_at [OF N])
    from explicit.family_enq [OF d(4) this TrueI, of False mode arg] obtain r q' s' where
      q: "FastQueue_Enqueue (2 ^ k) (new_block False (2 ^ k)) mode arg q (ExplicitMem c) = Some (r, q', s')"
      "r = Ret True \<longrightarrow> arg \<noteq> None"
      "family (fast_mok k (InitialExplicitQueueSize tr)) (fast_owns k (InitialExplicitQueueSize tr))
        ((explicit_qs (ProducerLists c))(a \<mapsto> q')) s' (M(a := if r = Ret True then M a @ [the arg] else M a))"
      unfolding upd by blast
    have "slow_ready n (ImplicitMem c)" using ready by (rule slow_ready_le) simp
    with cq_core_explicit [OF core N ExplicitProducer q(3)] q(1,2) show ?thesis
      using ExplicitProducer unfolding upd by (simp add: ProducerEnqueue_def tr)
  next
    case (ImplicitProducer q)
    then have "implicit_qs (ProducerLists c) a = Some q" by (simp add: qs_at [OF N])
    from implicit.family_enq [OF d(5) this ready, of mode arg] obtain r q' s' where
      q: "SlowQueue_Enqueue (2 ^ k) (new_block True (2 ^ k)) mode arg q (ImplicitMem c) = Some (r, q', s')"
      "r = Ret True \<longrightarrow> arg \<noteq> None" "slow_ready n s'"
      "family (slow_mok k (InitialImplicitQueueSize tr)) (slow_owns k (InitialImplicitQueueSize tr))
        ((implicit_qs (ProducerLists c))(a \<mapsto> q')) s' (M(a := if r = Ret True then M a @ [the arg] else M a))"
      unfolding upd by blast
    from cq_core_implicit [OF core N ImplicitProducer q(4)] q(1-3) show ?thesis
      using ImplicitProducer unfolding upd by (simp add: ProducerEnqueue_def tr)
  qed
qed

lemma GetProducerSize_core:
  assumes "cq_core tr k c M" "node_at a c = Some N"
  shows "unat (GetProducerSize N) = length (M a)"
proof (cases "PN_Queue N")
  case (ExplicitProducer q)
  then show ?thesis using explicit.family_size [OF cq_coreD(4) [OF assms(1)], of a q] qs_at [OF assms(2)]
    by (simp add: GetProducerSize_def)
next
  case (ImplicitProducer q)
  then show ?thesis using implicit.family_size [OF cq_coreD(5) [OF assms(1)], of a q] qs_at [OF assms(2)]
    by (simp add: GetProducerSize_def)
qed

section \<open>Getting a node\<close>

lemma find_fresh: "a \<notin> PN_Self ` set Ns \<Longrightarrow> List.find (\<lambda>M. PN_Self M = a) Ns = None"
  by (induction Ns) auto

lemma qs_Cons:
  assumes "PN_Self N \<notin> PN_Self ` set Ns"
  shows "explicit_qs (N # Ns) = (case PN_Queue N of ExplicitProducer q \<Rightarrow> (explicit_qs Ns)(PN_Self N \<mapsto> q) | _ \<Rightarrow> explicit_qs Ns)"
    "implicit_qs (N # Ns) = (case PN_Queue N of ImplicitProducer q \<Rightarrow> (implicit_qs Ns)(PN_Self N \<mapsto> q) | _ \<Rightarrow> implicit_qs Ns)"
proof -
  note find_fresh [OF assms]
  then show "explicit_qs (N # Ns) = (case PN_Queue N of ExplicitProducer q \<Rightarrow> (explicit_qs Ns)(PN_Self N \<mapsto> q) | _ \<Rightarrow> explicit_qs Ns)"
    "implicit_qs (N # Ns) = (case PN_Queue N of ImplicitProducer q \<Rightarrow> (implicit_qs Ns)(PN_Self N \<mapsto> q) | _ \<Rightarrow> implicit_qs Ns)"
    by (auto simp: fun_eq_iff explicit_qs_def implicit_qs_def split: producer.splits)
qed

lemma qs_None:
  assumes "a \<notin> PN_Self ` set Ns"
  shows "explicit_qs Ns a = None" "implicit_qs Ns a = None"
proof -
  note find_fresh [OF assms]
  then show "explicit_qs Ns a = None" "implicit_qs Ns a = None" by (simp_all add: explicit_qs_def implicit_qs_def)
qed

lemma Allocate_room: "0 < Quota h \<Longrightarrow> Allocate 1 h = (Ret (Brk h), h\<lparr>Alloc := (Alloc h)(Brk h := 1), Brk := Brk h + 1, Quota := Quota h - 1\<rparr>)"
  by (simp add: Allocate_def)

text \<open>\<open>added\<close>: a new node \<open>a\<close> of a producer at \<open>p\<close> stands at the head, and the memory for it is used.\<close>

definition added :: "ProducerType \<Rightarrow> addr \<Rightarrow> addr \<Rightarrow> ('k, 'a) cq \<Rightarrow> ('k, 'a) cq \<Rightarrow> bool" where
  "added Type a p c c' \<longleftrightarrow> a \<notin> set (node_addrs c) \<and> p \<notin> PN_Producer ` set (ProducerLists c)
     \<and> List.map node_key (ProducerLists c') = (a, p, Type, False) # List.map node_key (ProducerLists c)
     \<and> (\<exists>N. node_at a c' = Some N \<and> PN_Producer N = p) \<and> ImplicitMap c' = ImplicitMap c
     \<and> Quota (NodeHeap c) = Quota (NodeHeap c') + 2
     \<and> GlobalExplicitConsumerOffset c' = GlobalExplicitConsumerOffset c
     \<and> NextExplicitConsumerId c' = NextExplicitConsumerId c \<and> CQ_Self c' = CQ_Self c"

lemma new_node_core:
  assumes core: "cq_core tr k c M" and q: "case q of ExplicitProducer q' \<Rightarrow>
        family (fast_mok k (InitialExplicitQueueSize tr)) (fast_owns k (InitialExplicitQueueSize tr))
          ((explicit_qs (ProducerLists c))(Brk (NodeHeap c) + 1 \<mapsto> q')) se (M(Brk (NodeHeap c) + 1 := [])) \<and> si = ImplicitMem c
      | ImplicitProducer q' \<Rightarrow>
        family (slow_mok k (InitialImplicitQueueSize tr)) (slow_owns k (InitialImplicitQueueSize tr))
          ((implicit_qs (ProducerLists c))(Brk (NodeHeap c) + 1 \<mapsto> q')) si (M(Brk (NodeHeap c) + 1 := [])) \<and> se = ExplicitMem c"
    and N: "PN_Self N = Brk (NodeHeap c) + 1" "PN_Producer N = Brk (NodeHeap c)" "PN_Queue N = q" "\<not> Inactive N"
    and c': "c' = c\<lparr>ExplicitMem := se, ImplicitMem := si, NodeHeap := h, ProducerCount := ProducerCount c + 1,
      ProducerLists := N # ProducerLists c\<rparr>" and h: "Brk h = Brk (NodeHeap c) + 2" "Quota (NodeHeap c) = Quota h + 2"
  shows "cq_core tr k c' (M(Brk (NodeHeap c) + 1 := []))" "added (PN_Type N) (Brk (NodeHeap c) + 1) (Brk (NodeHeap c)) c c'"
proof -
  let ?a = "Brk (NodeHeap c) + 1"
  note d = cq_coreD [OF core]
  note ok = nodes_okD [OF d(2)]
  have fresh: "PN_Self N \<notin> PN_Self ` set (ProducerLists c)" "Brk (NodeHeap c) \<notin> PN_Producer ` set (ProducerLists c)"
    using ok(3) N(1) by force+
  then have fresh_a: "?a \<notin> PN_Self ` set (ProducerLists c)" by (simp add: N(1))
  note none = qs_None [OF fresh_a] and cons = qs_Cons [OF fresh(1)]
  have nodes: "nodes_ok (List.map node_key (N # ProducerLists c)) (Brk h)"
    unfolding nodes_ok_def
  proof (intro conjI)
    show "distinct (List.map fst (List.map node_key (N # ProducerLists c)))"
      using ok(1) fresh(1) by (simp add: node_key_def comp_def)
    show "distinct (List.map (fst \<circ> snd) (List.map node_key (N # ProducerLists c)))"
      using ok(2) fresh(2) N(2) by (simp add: node_key_def comp_def)
    show "\<forall>(a, p, ty, inactive) \<in> set (List.map node_key (N # ProducerLists c)). a < Brk h \<and> p < Brk h \<and> (ty = Implicit \<longrightarrow> \<not> inactive)"
      using ok(3) N h by (fastforce simp: node_key_def)
  qed
  have out: "?a \<notin> dom (explicit_qs (ProducerLists c))" "?a \<notin> dom (implicit_qs (ProducerLists c))"
    using none by (simp_all add: domIff)
  show "cq_core tr k c' (M(?a := []))"
    unfolding cq_core_def using d(1,3-5) nodes q N(1,3) none
    by (cases q) (simp_all add: c' cons family_outside [OF out(1), simplified] family_outside [OF out(2), simplified])
  show "added (PN_Type N) ?a (Brk (NodeHeap c)) c c'"
    unfolding added_def using fresh fresh_a N h
    by (simp add: c' node_key_def node_addrs_def node_at_def)
qed

lemma GetProducerListNode_new:
  assumes core: "cq_core tr k c M" and none: "List.find (\<lambda>N. Inactive N \<and> PN_Type N = Type) (ProducerLists c) = None"
    and room: "2 \<le> Quota (NodeHeap c)" "slow_ready (Suc n) (ImplicitMem c)"
  shows "\<exists>a p c'. GetProducerListNode tr Type c = Some (Completes (a, c')) \<and> added Type a p c c'
    \<and> cq_core tr k c' (M(a := [])) \<and> slow_ready n (ImplicitMem c')"
proof -
  note d = cq_coreD [OF core]
  let ?h = "NodeHeap c" and ?a = "Brk (NodeHeap c) + 1"
  define h1 where "h1 = ?h\<lparr>Alloc := (Alloc ?h)(Brk ?h := 1), Brk := Brk ?h + 1, Quota := Quota ?h - 1\<rparr>"
  define h2 where "h2 = h1\<lparr>Alloc := (Alloc h1)(Brk h1 := 1), Brk := Brk h1 + 1, Quota := Quota h1 - 1\<rparr>"
  have alloc: "Allocate 1 ?h = (Ret (Brk ?h), h1)" "Allocate 1 h1 = (Ret ?a, h2)"
    using room(1) Allocate_room [of ?h] Allocate_room [of h1] by (simp_all add: h1_def h2_def)
  have h: "Brk h2 = Brk ?h + 2" "Quota ?h = Quota h2 + 2" using room(1) by (simp_all add: h1_def h2_def)
  have fresh: "?a \<notin> PN_Self ` set (ProducerLists c)" using nodes_okD(3) [OF d(2)] by force
  show ?thesis
  proof (cases Type)
    case Explicit
    from explicit.family_new [OF d(4) qs_None(1) [OF fresh] TrueI] obtain q s where
      q: "FastQueue_new (InitialExplicitQueueSize tr) (ExplicitMem c) = Some (q, s)"
      "family (fast_mok k (InitialExplicitQueueSize tr)) (fast_owns k (InitialExplicitQueueSize tr))
        ((explicit_qs (ProducerLists c))(?a \<mapsto> q)) s (M(?a := []))" by blast
    let ?N = "\<lparr>PN_Self = ?a, Inactive = False, PN_Producer = Brk ?h, PN_Queue = ExplicitProducer q, PN_Token = None,
      Parent = CQ_Self c\<rparr>"
    let ?c' = "c\<lparr>ExplicitMem := s, ImplicitMem := ImplicitMem c, NodeHeap := h2, ProducerCount := ProducerCount c + 1,
      ProducerLists := ?N # ProducerLists c\<rparr>"
    have run: "GetProducerListNode tr Type c = Some (Completes (?a, ?c'))"
      using none Explicit alloc q(1)
      by (simp add: GetProducerListNode_def CreateProducerListNode_def AddProducer_def)
    have "cq_core tr k ?c' (M(?a := []))" "added Explicit ?a (Brk ?h) c ?c'"
      using new_node_core [OF core _ _ _ _ _ refl h, where q = "ExplicitProducer q" and se = s and si = "ImplicitMem c" and N = ?N] q(2)
      by (simp_all add: PN_Type_def)
    with run room(2) Explicit show ?thesis by (fastforce intro: slow_ready_le)
  next
    case Implicit
    from implicit.family_new [OF d(5) qs_None(2) [OF fresh] room(2)] obtain q s where
      q: "SlowQueue_new (InitialImplicitQueueSize tr) (ImplicitMem c) = Some (q, s)" "slow_ready n s"
      "family (slow_mok k (InitialImplicitQueueSize tr)) (slow_owns k (InitialImplicitQueueSize tr))
        ((implicit_qs (ProducerLists c))(?a \<mapsto> q)) s (M(?a := []))" by blast
    let ?N = "\<lparr>PN_Self = ?a, Inactive = False, PN_Producer = Brk ?h, PN_Queue = ImplicitProducer q, PN_Token = None,
      Parent = CQ_Self c\<rparr>"
    let ?c' = "c\<lparr>ExplicitMem := ExplicitMem c, ImplicitMem := s, NodeHeap := h2, ProducerCount := ProducerCount c + 1,
      ProducerLists := ?N # ProducerLists c\<rparr>"
    have run: "GetProducerListNode tr Type c = Some (Completes (?a, ?c'))"
      using none Implicit alloc q(1)
      by (simp add: GetProducerListNode_def CreateProducerListNode_def AddProducer_def)
    have "cq_core tr k ?c' (M(?a := []))" "added Implicit ?a (Brk ?h) c ?c'"
      using new_node_core [OF core _ _ _ _ _ refl h, where q = "ImplicitProducer q" and se = "ExplicitMem c" and si = s and N = ?N] q(3)
      by (simp_all add: PN_Type_def)
    with run q(2) Implicit show ?thesis by fastforce
  qed
qed

text \<open>An inactive node is taken over, or a node becomes inactive: only the flag changes, of an explicit producer.\<close>

definition set_flag :: "addr \<Rightarrow> bool \<Rightarrow> addr \<times> addr \<times> ProducerType \<times> bool \<Rightarrow> addr \<times> addr \<times> ProducerType \<times> bool" where
  "set_flag a b = (\<lambda>(a', p, ty, i). (a', p, ty, if a' = a then b else i))"

lemma nodes_ok_flag:
  assumes "nodes_ok ks brk" "\<And>p ty i. (a, p, ty, i) \<in> set ks \<Longrightarrow> ty = Explicit"
  shows "nodes_ok (List.map (set_flag a b) ks) brk"
proof -
  have "List.map fst (List.map (set_flag a b) ks) = List.map fst ks"
    "List.map (fst \<circ> snd) (List.map (set_flag a b) ks) = List.map (fst \<circ> snd) ks"
    by (auto simp: set_flag_def)
  moreover have "x < brk \<and> p < brk \<and> (ty = Implicit \<longrightarrow> \<not> i)"
    if "(x, p, ty, i) \<in> set (List.map (set_flag a b) ks)" for x p ty i
  proof -
    from that obtain i' where i': "(x, p, ty, i') \<in> set ks" "i = (if x = a then b else i')"
      by (auto simp: set_flag_def)
    then have "x < brk \<and> p < brk \<and> (ty = Implicit \<longrightarrow> \<not> i')" using assms(1) by (auto simp: nodes_ok_def)
    then show ?thesis using i' assms(2) by auto
  qed
  then have "\<forall>(x, p, ty, i) \<in> set (List.map (set_flag a b) ks). x < brk \<and> p < brk \<and> (ty = Implicit \<longrightarrow> \<not> i)" by blast
  ultimately show ?thesis using assms(1) by (simp only: nodes_ok_def)
qed

lemma set_inactive_core:
  assumes core: "cq_core tr k c M" and N: "node_at a c = Some N" "PN_Type N = Explicit"
    and N': "PN_Self N' = a" "PN_Producer N' = PN_Producer N" "PN_Queue N' = PN_Queue N"
  shows "cq_core tr k (set_node N' c) M"
    "List.map node_key (ProducerLists (set_node N' c)) = List.map (set_flag a (Inactive N')) (List.map node_key (ProducerLists c))"
proof -
  note d = cq_coreD [OF core]
  have ty: "PN_Type N' = PN_Type N" using N'(3) by (simp add: PN_Type_def)
  have self: "PN_Self N = a" by (rule node_at_self [OF N(1)])
  note qs = set_node_qs [OF N(1) N'(1) ty]
  obtain q where q: "PN_Queue N = ExplicitProducer q" using N(2) by (auto simp: PN_Type_def split: producer.splits)
  then have e: "explicit_qs (ProducerLists c) a = Some q" by (simp add: qs_at [OF N(1)])
  have same: "explicit_qs (ProducerLists (set_node N' c)) = explicit_qs (ProducerLists c)"
    "implicit_qs (ProducerLists (set_node N' c)) = implicit_qs (ProducerLists c)"
    using qs q e N'(3) by (simp_all add: fun_upd_idem)
  have ok: "distinct (List.map PN_Self (ProducerLists c))" using nodes_okD(1) [OF d(2)] .
  have uniq: "M' = N" if "M' \<in> set (ProducerLists c)" "PN_Self M' = a" for M'
    using find_node [OF ok that(1)] that(2) N(1) by (simp add: node_at_def)
  show keys: "List.map node_key (ProducerLists (set_node N' c)) = List.map (set_flag a (Inactive N')) (List.map node_key (ProducerLists c))"
    using uniq N' ty self by (auto simp: set_node_def node_key_def set_flag_def)
  have "ty = Explicit" if "(a, p, ty, i) \<in> set (List.map node_key (ProducerLists c))" for p ty i
    using that uniq N(2) by (auto simp: node_key_def)
  with nodes_ok_flag [OF d(2)]
  have "nodes_ok (List.map (set_flag a (Inactive N')) (List.map node_key (ProducerLists c))) (Brk (NodeHeap c))" by metis
  then show "cq_core tr k (set_node N' c) M"
    unfolding cq_core_def using d(1,3-5) same qs(3) keys by simp
qed

lemma threads_ok_flag:
  assumes "threads_ok ks th m" "\<And>p ty i. (a, p, ty, i) \<in> set ks \<Longrightarrow> ty = Explicit"
  shows "threads_ok (List.map (set_flag a b) ks) th m"
proof -
  have "(x, p, Implicit, False) \<in> set (List.map (set_flag a b) ks)" if "(x, p, Implicit, False) \<in> set ks" for x p
  proof -
    have "x \<noteq> a" using assms(2) that by blast
    then have "set_flag a b (x, p, Implicit, False) = (x, p, Implicit, False)" by (simp add: set_flag_def)
    then show ?thesis using that by (metis image_eqI set_map)
  qed
  then show ?thesis using assms(1) unfolding threads_ok_def by blast
qed

section \<open>The producer of a thread\<close>

lemma node_of_key:
  assumes ok: "nodes_ok (List.map node_key (ProducerLists c)) b" and mem: "(a, p, ty, i) \<in> set (List.map node_key (ProducerLists c))"
  obtains N where "node_of p c = Some N" "node_at a c = Some N" "PN_Type N = ty" "PN_Self N = a" "PN_Producer N = p"
proof -
  from mem obtain N where N: "N \<in> set (ProducerLists c)" "PN_Self N = a" "PN_Producer N = p" "PN_Type N = ty"
    by (auto simp: node_key_def)
  have "List.find (\<lambda>M. PN_Producer M = PN_Producer N) Ns = Some N"
    if "distinct (List.map PN_Producer Ns)" "N \<in> set Ns" for Ns
    using that by (induction Ns) (auto simp: image_iff)
  from this [OF nodes_okD(2) [OF ok] N(1)] find_node [OF nodes_okD(1) [OF ok] N(1)] N show ?thesis
    by (intro that [of N]) (simp_all add: node_of_def node_at_def)
qed

lemma cq_core_heap: "cq_core tr k c M \<Longrightarrow> Brk (NodeHeap c) \<le> Brk h \<Longrightarrow> cq_core tr k (c\<lparr>ImplicitMap := T, NodeHeap := h\<rparr>) M"
  by (auto simp: cq_core_def intro: nodes_ok_mono)

lemma threads_ok_add:
  assumes "threads_ok ks th m" "a \<notin> fst ` set ks" "th t = None"
  shows "threads_ok ((a, p, Implicit, False) # ks) (th(t \<mapsto> a)) (m(t \<mapsto> p))"
proof -
  have "a \<notin> ran th" using assms(1,2) by (force simp: threads_ok_def ran_def)
  then have "inj_on (th(t \<mapsto> a)) (dom (th(t \<mapsto> a)))"
    using assms(1,3) by (auto simp: threads_ok_def inj_on_def ran_def)
  moreover have "\<exists>q. (m(t \<mapsto> p)) s = Some q \<and> (b, q, Implicit, False) \<in> set ((a, p, Implicit, False) # ks)"
    if "(th(t \<mapsto> a)) s = Some b" for s b
  proof (cases "s = t")
    case False
    with that have "th s = Some b" by simp
    then obtain q where "m s = Some q" "(b, q, Implicit, False) \<in> set ks"
      using assms(1) unfolding threads_ok_def by blast
    with False show ?thesis by simp
  qed (use that in simp)
  moreover have "dom (m(t \<mapsto> p)) = dom (th(t \<mapsto> a))" using assms(1) by (simp add: threads_ok_def)
  ultimately show ?thesis unfolding threads_ok_def by blast
qed

text \<open>
  \<open>located\<close>: the node \<open>a\<close> of the thread \<open>t\<close> afterwards, which it had before or which is new and holds nothing.
\<close>

definition located :: "'k \<Rightarrow> addr \<Rightarrow> ('k, 'a) cq \<Rightarrow> (addr \<Rightarrow> 'a list) \<Rightarrow> ('k \<rightharpoonup> addr)
    \<Rightarrow> ('k, 'a) cq \<Rightarrow> (addr \<Rightarrow> 'a list) \<Rightarrow> ('k \<rightharpoonup> addr) \<Rightarrow> bool" where
  "located t a c M th c' M' th' \<longleftrightarrow> (case th t of
       Some b \<Rightarrow> a = b \<and> th' = th \<and> M' = M
         \<and> List.map node_key (ProducerLists c') = List.map node_key (ProducerLists c)
     | None \<Rightarrow> a \<notin> set (node_addrs c) \<and> th' = th(t \<mapsto> a) \<and> M' = M(a := [])
         \<and> (\<exists>p. List.map node_key (ProducerLists c') = (a, p, Implicit, False) # List.map node_key (ProducerLists c)))"

lemma located_addrs:
  assumes "located t a c M th c' M' th'"
  shows "node_addrs c' = (if th t = None then a # node_addrs c else node_addrs c)"
  using assms unfolding located_def node_addrs_eq by (auto split: option.splits simp del: map_map)

lemma GetOrAdd_rel:
  assumes rel: "cq_rel tr k (Suc n) c M th" and t: "t \<noteq> invalid_thread_id tr"
  shows "\<exists>p c1 N a M1 th1 m. GetOrAddImplicitProducer tr t c = Some (Completes (Ret (Some p), c1))
    \<and> node_of p c1 = Some N \<and> node_at a c1 = Some N \<and> PN_Type N = Implicit \<and> located t a c M th c1 M1 th1
    \<and> cq_core tr k c1 M1 \<and> slow_ready (Suc (2 * n)) (ImplicitMem c1) \<and> length (ProducerLists c1) + n < 2 ^ 32
    \<and> ht_rel (thread_hash tr) (invalid_thread_id tr) (2 * n) (ImplicitMap c1, NodeHeap c1) m
    \<and> threads_ok (List.map node_key (ProducerLists c1)) th1 m"
proof -
  obtain m where core: "cq_core tr k c M" and len: "length (ProducerLists c) + Suc n < 2 ^ 32"
    and ready: "slow_ready (2 * Suc n) (ImplicitMem c)"
    and ht: "ht_rel (thread_hash tr) (invalid_thread_id tr) (2 * Suc n) (ImplicitMap c, NodeHeap c) m"
    and th: "threads_ok (List.map node_key (ProducerLists c)) th m" by (rule cq_relE [OF rel])
  note d = cq_coreD [OF core]
  have quota: "4 * n + 4 \<le> Quota (NodeHeap c)" using ht_relD(4) [OF ht] by simp
  have none: "List.find (\<lambda>N. Inactive N \<and> PN_Type N = Implicit) (ProducerLists c) = None"
    using nodes_okD(3) [OF d(2)] by (auto simp: find_None_iff)
  have ready': "slow_ready (Suc (Suc (2 * n))) (ImplicitMem c)" using ready by simp
  from GetProducerListNode_new [OF core none _ ready'] quota obtain a0 p0 c0 where
    g: "GetProducerListNode tr Implicit c = Some (Completes (a0, c0))" "added Implicit a0 p0 c c0"
      "cq_core tr k c0 (M(a0 := []))" "slow_ready (Suc (2 * n)) (ImplicitMem c0)" by auto
  obtain N0 where N0: "node_at a0 c0 = Some N0" "PN_Producer N0 = p0" using g(2) by (auto simp: added_def)
  define F where "F = (\<lambda>(c, dead :: bool) h. do {
          g \<leftarrow> GetProducerListNode tr Implicit (c\<lparr>NodeHeap := h\<rparr>);
          case g of Aborts \<Rightarrow> Some (Exn, (c, True), h)
          | Completes (a, c') \<Rightarrow> do {
              N \<leftarrow> node_at a c';
              Some (Ret (Some (PN_Producer N)), (c', False), NodeHeap c') } })"
  have F: "F (c, False) (NodeHeap c) = Some (Ret (Some p0), (c0, False), NodeHeap c0)"
    using g(1) N0 by (simp add: F_def)
  have ht1: "ht_rel (thread_hash tr) (invalid_thread_id tr) (Suc (2 * n)) (ImplicitMap c, NodeHeap c) m"
    using ht by (auto simp: ht_rel_def)
  have room: "2 * Suc (2 * n) \<le> Quota (NodeHeap c0)" using g(2) quota by (simp add: added_def)
  obtain T h where r: "HashTable_GetOrAddByFunc (thread_hash tr) t F (ImplicitMap c) (c, False) (NodeHeap c)
      = Some (case m t of Some v \<Rightarrow> Ret (GET_SUCCESS, Some v) | None \<Rightarrow> Ret (ADD_SUCCESS, Some p0),
          T, if m t = None then (c0, False) else (c, False), h)"
    "ht_rel (thread_hash tr) (invalid_thread_id tr) (2 * n) (T, h) (case m t of None \<Rightarrow> m(t \<mapsto> p0) | Some _ \<Rightarrow> m)"
    "Brk (if m t = None then NodeHeap c0 else NodeHeap c) \<le> Brk h"
    using GetOrAddByFunc_rel [where F = F and x = "(c, False)" and h = "NodeHeap c", OF ht1 t F room]
    by (auto split: option.splits)
  have dom: "m t = None \<longleftrightarrow> th t = None" using th unfolding threads_ok_def by (metis domIff)
  show ?thesis
  proof (cases "th t")
    case (Some a)
    then obtain p where p: "m t = Some p" "(a, p, Implicit, False) \<in> set (List.map node_key (ProducerLists c))"
      using th unfolding threads_ok_def by blast
    let ?c = "c\<lparr>ImplicitMap := T, NodeHeap := h\<rparr>"
    have run: "GetOrAddImplicitProducer tr t c = Some (Completes (Ret (Some p), ?c))"
      using r(1) p(1) unfolding GetOrAddImplicitProducer_def F_def [symmetric] by simp
    have core': "cq_core tr k ?c M" using cq_core_heap [OF core] r(3) p(1) by simp
    have key: "(a, p, Implicit, False) \<in> set (List.map node_key (ProducerLists ?c))" using p(2) by simp
    obtain N where N: "node_of p ?c = Some N" "node_at a ?c = Some N" "PN_Type N = Implicit"
      by (rule node_of_key [OF cq_coreD(2) [OF core'] key])
    have loc: "located t a c M th ?c M th" using Some by (simp add: located_def)
    have "ht_rel (thread_hash tr) (invalid_thread_id tr) (2 * n) (ImplicitMap ?c, NodeHeap ?c) m" using r(2) p(1) by simp
    moreover have "slow_ready (Suc (2 * n)) (ImplicitMem ?c)" using ready' by (simp add: slow_ready_def)
    ultimately show ?thesis using run core' N loc len th
      by (intro exI [of _ p] exI [of _ ?c] exI [of _ N] exI [of _ a] exI [of _ M] exI [of _ th] exI [of _ m]) simp
  next
    case None
    with dom have m: "m t = None" by simp
    let ?c = "c0\<lparr>ImplicitMap := T, NodeHeap := h\<rparr>"
    have keys: "List.map node_key (ProducerLists c0) = (a0, p0, Implicit, False) # List.map node_key (ProducerLists c)"
      and out: "a0 \<notin> set (node_addrs c)" using g(2) by (simp_all add: added_def)
    have run: "GetOrAddImplicitProducer tr t c = Some (Completes (Ret (Some p0), ?c))"
      using r(1) m unfolding GetOrAddImplicitProducer_def F_def [symmetric] by simp
    have core': "cq_core tr k ?c (M(a0 := []))" using cq_core_heap [OF g(3)] r(3) m by simp
    have key: "(a0, p0, Implicit, False) \<in> set (List.map node_key (ProducerLists ?c))" using keys by simp
    obtain N where N: "node_of p0 ?c = Some N" "node_at a0 ?c = Some N" "PN_Type N = Implicit"
      by (rule node_of_key [OF cq_coreD(2) [OF core'] key])
    have loc: "located t a0 c M th ?c (M(a0 := [])) (th(t \<mapsto> a0))" using None out keys by (simp add: located_def)
    have "a0 \<notin> fst ` set (List.map node_key (ProducerLists c))" using out by (auto simp: node_addrs_def node_key_def)
    from threads_ok_add [OF th this None]
    have th': "threads_ok (List.map node_key (ProducerLists ?c)) (th(t \<mapsto> a0)) (m(t \<mapsto> p0))" using keys by simp
    have "length (List.map node_key (ProducerLists c0)) = Suc (length (List.map node_key (ProducerLists c)))"
      by (simp only: keys list.size(4))
    with len have len': "length (ProducerLists ?c) + n < 2 ^ 32" by simp
    have "ht_rel (thread_hash tr) (invalid_thread_id tr) (2 * n) (ImplicitMap ?c, NodeHeap ?c) (m(t \<mapsto> p0))" using r(2) m by simp
    moreover have "slow_ready (Suc (2 * n)) (ImplicitMem ?c)" using g(4) by simp
    ultimately show ?thesis using run core' N loc len' th'
      by (intro exI [of _ p0] exI [of _ ?c] exI [of _ N] exI [of _ a0] exI [of _ "M(a0 := [])"]
          exI [of _ "th(t \<mapsto> a0)"] exI [of _ "m(t \<mapsto> p0)"]) simp
  qed
qed

lemma Enqueue_rel:
  assumes rel: "cq_rel tr k (Suc n) c M th" and t: "t \<noteq> invalid_thread_id tr"
  shows "\<exists>r c' a M1 th1. ConcurrentQueue_Enqueue tr mode t arg c = Some (Completes (r, c'))
    \<and> located t a c M th c' M1 th1 \<and> (r = Ret True \<longrightarrow> arg \<noteq> None)
    \<and> cq_rel tr k n c' (if r = Ret True then M1(a := M1 a @ [the arg]) else M1) th1"
proof -
  obtain p c1 N a M1 th1 m where g: "GetOrAddImplicitProducer tr t c = Some (Completes (Ret (Some p), c1))"
    "node_of p c1 = Some N" "PN_Type N = Implicit" and N: "node_at a c1 = Some N"
    and loc: "located t a c M th c1 M1 th1" and core: "cq_core tr k c1 M1"
    and ready: "slow_ready (Suc (2 * n)) (ImplicitMem c1)" and len: "length (ProducerLists c1) + n < 2 ^ 32"
    and ht: "ht_rel (thread_hash tr) (invalid_thread_id tr) (2 * n) (ImplicitMap c1, NodeHeap c1) m"
    and th: "threads_ok (List.map node_key (ProducerLists c1)) th1 m" using GetOrAdd_rel [OF rel t] by blast
  from ProducerEnqueue_rel [OF core ready N, of mode arg] obtain r c' where e: "ProducerEnqueue tr mode arg N c1 = Some (r, c')"
    "r = Ret True \<longrightarrow> arg \<noteq> None" "cq_core tr k c' (if r = Ret True then M1(a := M1 a @ [the arg]) else M1)"
    "same_shape c1 c'" "ImplicitMap c' = ImplicitMap c1" "NodeHeap c' = NodeHeap c1" "slow_ready (2 * n) (ImplicitMem c')" by blast
  have "InitialHashSize tr \<noteq> 0" using cq_coreD(1) [OF core] by (simp add: traits_ok_def)
  then have run: "ConcurrentQueue_Enqueue tr mode t arg c = Some (Completes (r, c'))"
    using g e(1) by (simp add: ConcurrentQueue_Enqueue_def InnerEnqueue_def)
  have keys: "List.map node_key (ProducerLists c') = List.map node_key (ProducerLists c1)" using e(4) by (simp add: same_shape_def)
  then have "length (ProducerLists c') = length (ProducerLists c1)" by (metis length_map)
  then have "cq_rel tr k n c' (if r = Ret True then M1(a := M1 a @ [the arg]) else M1) th1"
    using e(3,5-7) len ht th keys by (intro cq_relI [where m = m]) simp_all
  moreover have "located t a c M th c' M1 th1"
    using loc keys by (simp add: located_def split: option.splits)
  ultimately show ?thesis using run e(2) by blast
qed

end
