(* ===== verification/Concurrent_Queue_Properties.thy ===== *)
theory Concurrent_Queue_Properties
  imports Concurrent_Queue_Correct
begin

text \<open>
  What \<^verbatim>\<open>ConcurrentQueue\<close> promises: an enqueue appends to the thread's or the token's producer, a dequeue finds
  an element exactly when there is one and takes the oldest of some producer, the elements of one
  producer keep their order; and what its tokens do when they are exchanged.
\<close>

section \<open>Looking for the longest producer\<close>

text \<open>\<open>longest_of M as Best\<close>: of the producers \<open>as\<close>, \<open>Best\<close> holds the most values.\<close>

definition longest_of :: "(addr \<Rightarrow> 'a list) \<Rightarrow> addr list \<Rightarrow> addr option \<Rightarrow> bool" where
  "longest_of M as Best \<longleftrightarrow> (case Best of None \<Rightarrow> as = []
     | Some a \<Rightarrow> a \<in> set as \<and> (\<forall>b \<in> set as. length (M b) \<le> length (M a)))"

lemma three_less: "n < 3 \<Longrightarrow> (of_nat n :: size_t) < 3"
  by (simp add: word_less_nat_alt unat_of_nat)

lemma FindBest_spec:
  assumes "\<And>N. N \<in> set Ns \<Longrightarrow> unat (GetProducerSize N) = length (M (PN_Self N))"
    and "length as < 3" "longest_of M as Best" "unat BestSize = (case Best of None \<Rightarrow> 0 | Some a \<Rightarrow> length (M a))"
  shows "\<exists>Best' BestSize'. FindBest Ns (of_nat (length as), Best, BestSize)
      = (of_nat (length (as @ take (3 - length as) (filter (\<lambda>a. M a \<noteq> []) (List.map PN_Self Ns)))), Best', BestSize')
    \<and> longest_of M (as @ take (3 - length as) (filter (\<lambda>a. M a \<noteq> []) (List.map PN_Self Ns))) Best'"
  using assms
proof (induction Ns arbitrary: as Best BestSize)
  case Nil
  then show ?case by simp
next
  case (Cons N Ns)
  let ?a = "PN_Self N"
  have size: "unat (GetProducerSize N) = length (M ?a)" using Cons.prems(1) by simp
  have IH: "\<exists>Best' BestSize'. FindBest Ns (of_nat (length bs), B, S)
      = (of_nat (length (bs @ take (3 - length bs) (filter (\<lambda>a. M a \<noteq> []) (List.map PN_Self Ns)))), Best', BestSize')
    \<and> longest_of M (bs @ take (3 - length bs) (filter (\<lambda>a. M a \<noteq> []) (List.map PN_Self Ns))) Best'"
    if "length bs < 3" "longest_of M bs B" "unat S = (case B of None \<Rightarrow> 0 | Some a \<Rightarrow> length (M a))" for bs B S
    using Cons.IH [OF _ that] Cons.prems(1) by simp
  show ?case
  proof (cases "M ?a = []")
    case True
    then have "GetProducerSize N = 0" using size by (simp add: unat_eq_0)
    moreover have "(of_nat (length as) :: size_t) < 3"
      using Cons.prems(2) by (simp add: word_less_nat_alt unat_of_nat)
    ultimately show ?thesis using IH [OF Cons.prems(2-4)] True by (simp add: Let_def)
  next
    case False
    then have pos: "GetProducerSize N > 0" using size by (auto simp: word_less_nat_alt)
    let ?B = "if GetProducerSize N > BestSize then Some ?a else Best"
    let ?S = "if GetProducerSize N > BestSize then GetProducerSize N else BestSize"
    let ?as = "as @ [?a]"
    have cmp: "GetProducerSize N > BestSize \<longleftrightarrow> length (M ?a) > (case Best of None \<Rightarrow> 0 | Some a \<Rightarrow> length (M a))"
      using Cons.prems(4) size by (simp add: word_less_nat_alt)
    have best: "longest_of M ?as ?B" "unat ?S = (case ?B of None \<Rightarrow> 0 | Some a \<Rightarrow> length (M a))"
      using Cons.prems(3,4) cmp size False by (auto simp: longest_of_def split: option.splits)
    have cnt: "(of_nat (length as) + 1 :: size_t) = of_nat (length ?as)" by simp
    have step: "FindBest (N # Ns) (of_nat (length as), Best, BestSize)
        = (if (of_nat (length ?as) :: size_t) < 3 then FindBest Ns (of_nat (length ?as), ?B, ?S) else (of_nat (length ?as), ?B, ?S))"
      using pos by (simp add: Let_def add.commute)
    have all: "as @ take (3 - length as) (filter (\<lambda>a. M a \<noteq> []) (List.map PN_Self (N # Ns)))
        = ?as @ take (3 - length ?as) (filter (\<lambda>a. M a \<noteq> []) (List.map PN_Self Ns))"
      using False Cons.prems(2) by (simp add: take_Cons' Suc_diff_Suc)
    show ?thesis
    proof (cases "length ?as < 3")
      case True
      note three_less [OF True]
      with IH [OF True best] step show ?thesis unfolding all by simp
    next
      case False
      with Cons.prems(2) have three: "length ?as = 3" by simp
      then have "\<not> (of_nat (length ?as) :: size_t) < 3" by (simp only: three) simp
      with step have "FindBest (N # Ns) (of_nat (length as), Best, BestSize) = (of_nat (length ?as), ?B, ?S)" by simp
      moreover have "?as @ take (3 - length ?as) xs = ?as" for xs by (simp only: three) simp
      ultimately show ?thesis using best(1) unfolding all by (simp only:) blast
    qed
  qed
qed

text \<open>The producers \<^verbatim>\<open>TryDequeue\<close> chooses from: the first three that are not empty.\<close>

definition candidates :: "('k, 'a) cq \<Rightarrow> (addr \<Rightarrow> 'a list) \<Rightarrow> addr list" where
  "candidates c M = take 3 (filter (\<lambda>a. M a \<noteq> []) (node_addrs c))"

lemma candidates_mem: "a \<in> set (candidates c M) \<Longrightarrow> a \<in> set (node_addrs c) \<and> M a \<noteq> []"
  unfolding candidates_def using set_take_subset by fastforce

lemma candidates_empty: "candidates c M = [] \<longleftrightarrow> (\<forall>a \<in> set (node_addrs c). M a = [])"
  by (auto simp: candidates_def filter_empty_conv)

lemma FindBest_core:
  assumes "cq_core tr k c M"
  obtains Best BestSize where "FindBest (ProducerLists c) (0, None, 0) = (of_nat (length (candidates c M)), Best, BestSize)"
    "longest_of M (candidates c M) Best"
proof -
  have "unat (GetProducerSize N) = length (M (PN_Self N))" if "N \<in> set (ProducerLists c)" for N
  proof (rule GetProducerSize_core [OF assms])
    show "node_at (PN_Self N) c = Some N"
      using find_node [OF nodes_okD(1) [OF cq_coreD(2) [OF assms]] that] by (simp add: node_at_def)
  qed
  from FindBest_spec [OF this, where as = "[]" and Best = None and BestSize = 0] that show ?thesis
    by (auto simp: longest_of_def candidates_def node_addrs_def)
qed

lemma CQ_TryDequeue_rel:
  assumes rel: "cq_rel tr k n c M th"
  shows "if \<forall>a \<in> set (node_addrs c). M a = [] then ConcurrentQueue_TryDequeue tr throws c = Some (Ret None, c)
    else \<exists>a c'. longest_of M (candidates c M) (Some a) \<and> M a \<noteq> [] \<and> a \<in> set (node_addrs c)
      \<and> ConcurrentQueue_TryDequeue tr throws c = Some (handed_out throws (M a), c')
      \<and> cq_rel tr k n c' (M(a := tl (M a))) th \<and> same_shape c c'"
proof -
  obtain Best BestSize where b: "FindBest (ProducerLists c) (0, None, 0) = (of_nat (length (candidates c M)), Best, BestSize)"
    "longest_of M (candidates c M) Best" by (rule FindBest_core [OF cq_rel_core [OF rel]])
  have len: "length (candidates c M) \<le> 3" by (simp add: candidates_def)
  have pos: "(0 :: size_t) < of_nat (length (candidates c M)) \<longleftrightarrow> candidates c M \<noteq> []"
    using len by (simp add: word_less_nat_alt unat_of_nat)
  show ?thesis
  proof (cases "candidates c M = []")
    case True
    then show ?thesis using b pos candidates_empty [of c M] by (simp add: ConcurrentQueue_TryDequeue_def)
  next
    case False
    then obtain a where a: "Best = Some a" "a \<in> set (candidates c M)" using b(2) by (auto simp: longest_of_def split: option.splits)
    note mem = candidates_mem [OF a(2)]
    from ProducerDequeue_rel [OF rel, of a throws] mem obtain c' where
      c': "ProducerDequeue tr throws a c = Some (handed_out throws (M a), c')"
      "cq_rel tr k n c' (M(a := tl (M a))) th" "same_shape c c'" by blast
    have "ConcurrentQueue_TryDequeue tr throws c = Some (handed_out throws (M a), c')"
      using b a(1) c'(1) False pos mem by (simp add: ConcurrentQueue_TryDequeue_def)
    moreover have "\<not> (\<forall>a \<in> set (node_addrs c). M a = [])" using mem by blast
    ultimately show ?thesis using a b(2) c'(2,3) mem by auto
  qed
qed

lemma SumSizes_eq: "(\<And>N. N \<in> set Ns \<Longrightarrow> GetProducerSize N = of_nat (length (M (PN_Self N)))) \<Longrightarrow>
   SumSizes Ns s = s + of_nat (\<Sum>a \<leftarrow> List.map PN_Self Ns. length (M a))"
  by (induction Ns arbitrary: s) (simp_all add: add.assoc)

lemma Size_rel:
  assumes "cq_rel tr k n c M th"
  shows "ConcurrentQueue_Size c = of_nat (\<Sum>a \<leftarrow> node_addrs c. length (M a))"
proof -
  note core = cq_rel_core [OF assms]
  have "GetProducerSize N = of_nat (length (M (PN_Self N)))" if "N \<in> set (ProducerLists c)" for N
  proof -
    have "node_at (PN_Self N) c = Some N"
      using find_node [OF nodes_okD(1) [OF cq_coreD(2) [OF core]] that] by (simp add: node_at_def)
    then show ?thesis by (simp flip: GetProducerSize_core [OF core])
  qed
  from SumSizes_eq [of "ProducerLists c" M 0, OF this] show ?thesis by (simp add: ConcurrentQueue_Size_def node_addrs_def comp_def)
qed

section \<open>Construction\<close>

lemma BlockManager_new_more:
  assumes "BlockManager_new proto InSize h = Some (Ret m, h')" "Blocks h = Map.empty"
  shows "Quota h \<le> Quota h' + 1" "uniform (HasMeaningfulSetResult (Policy proto)) \<lparr>Hp = h', Mg = m\<rparr>"
  using assms by (auto simp: BlockManager_new_def BlockPool_new_def BlockPool_fill_eq Allocate_def uniform_def
      bind_eq_Some_conv split: if_splits prod.splits res.splits)

text \<open>The memory a queue is constructed in: two heaps for blocks and one for the rest, with room for \<open>n\<close> operations.\<close>

definition heaps_ok :: "('k, 'a) traits \<Rightarrow> nat \<Rightarrow> nat \<Rightarrow> size_t \<Rightarrow> size_t \<Rightarrow> 'a heap \<Rightarrow> 'a heap \<Rightarrow> unit heap \<Rightarrow> bool" where
  "heaps_ok tr k n pe pi he hi hn \<longleftrightarrow> traits_ok k tr \<and> Blocks he = Map.empty \<and> Blocks hi = Map.empty
     \<and> (\<exists>j. 1 \<le> j \<and> j < 64 \<and> InitialHashSize tr = 2 ^ j)
     \<and> unat (InitialExplicitQueueSize tr) \<le> 2 ^ (64 - k) \<and> unat (InitialImplicitQueueSize tr) \<le> 2 ^ (64 - k)
     \<and> (unat pe + Quota he) * 2 ^ k < 2 ^ 63 \<and> (unat pi + Quota hi) * 2 ^ k < 2 ^ 63
     \<and> 0 < Quota he \<and> 8 * n + 1 \<le> Quota hi \<and> 4 * n + 2 \<le> Quota hn \<and> n < 2 ^ 32"

lemma ConcurrentQueue_new_rel:
  fixes tr :: "('k, 'a) traits"
  assumes ok: "heaps_ok tr k n pe pi he hi hn"
  shows "\<exists>c. ConcurrentQueue_new tr self pe pi (he, hi, hn) = Some (Inl c) \<and> node_addrs c = []
    \<and> GlobalExplicitConsumerOffset c = 0 \<and> NextExplicitConsumerId c = 0
    \<and> (\<forall>M. cq_rel tr k n c M Map.empty)"
proof -
  have tr: "1 \<le> k" "k \<le> 62" "ExplicitProto tr = new_block False (2 ^ k)" "ImplicitProto tr = new_block True (2 ^ k)"
    using ok by (simp_all add: heaps_ok_def traits_ok_def)
  have proto: "fresh_proto (2 ^ k) (new_block b (2 ^ k) :: 'a block)" for b
    using tr(1,2) by (intro new_block_proto) (auto simp: block_size_def)
  obtain j where j: "1 \<le> j" "j < 64" "InitialHashSize tr = 2 ^ j" using ok by (auto simp: heaps_ok_def)
  obtain T :: "('k, addr) htable" and hn' where T: "HashTable_new (InitialHashSize tr) (invalid_thread_id tr) hn = (Ret T, hn')"
    "ht_rel (thread_hash tr) (invalid_thread_id tr) (2 * n) (T, hn') Map.empty"
    using ht_rel_new [OF j(1,2), of "2 * n" hn "invalid_thread_id tr" "thread_hash tr"] ok j(3) by (auto simp: heaps_ok_def)
  have mgr: "\<exists>m h'. BlockManager_new (new_block b (2 ^ k)) sz h = Some (Ret m, h') \<and> mgr_inv (2 ^ k) \<lparr>Hp = h', Mg = m\<rparr> {}
      \<and> Quota h \<le> Quota h' + 1 \<and> uniform b \<lparr>Hp = h', Mg = m\<rparr>"
    if h: "Blocks h = Map.empty" "(unat sz + Quota h) * 2 ^ k < 2 ^ 63" "0 < Quota h" for b sz and h :: "'a heap"
  proof -
    obtain r h' where r: "BlockManager_new (new_block b (2 ^ k)) sz h = Some (r, h')"
      "case r of Exn \<Rightarrow> 0 < sz \<and> Quota h = 0 \<and> h' = h
        | Ret m \<Rightarrow> mgr_inv (2 ^ k) \<lparr>Hp = h', Mg = m\<rparr> {} \<and> card (pool_avail (Pool m)) = unat sz"
      using BlockManager_new_spec [OF h(1) _ _ h(2), of "new_block b (2 ^ k)"] proto [of b] unfolding fresh_proto_def by blast
    then obtain m where m: "r = Ret m" "mgr_inv (2 ^ k) \<lparr>Hp = h', Mg = m\<rparr> {}" using h(3) by (cases r) auto
    have "HasMeaningfulSetResult (Policy (new_block b (2 ^ k) :: 'a block)) = b" by (simp add: new_block_def)
    then show ?thesis using r(1) m BlockManager_new_more [OF r(1) [unfolded m(1)] h(1)] by auto
  qed
  obtain me he' where me: "BlockManager_new (new_block False (2 ^ k)) pe he = Some (Ret me, he')"
    "mgr_inv (2 ^ k) \<lparr>Hp = he', Mg = me\<rparr> {}" using mgr [of he pe False] ok by (auto simp: heaps_ok_def)
  obtain mi hi' where mi: "BlockManager_new (new_block True (2 ^ k)) pi hi = Some (Ret mi, hi')"
    "mgr_inv (2 ^ k) \<lparr>Hp = hi', Mg = mi\<rparr> {}" "Quota hi \<le> Quota hi' + 1" "uniform True \<lparr>Hp = hi', Mg = mi\<rparr>"
    using mgr [of hi pi True] ok by (auto simp: heaps_ok_def)
  let ?c = "\<lparr>CQ_Self = self, ProducerLists = [], ProducerCount = 0, ImplicitMap = T,
                 ExplicitMem = \<lparr>Hp = he', Mg = me\<rparr>, ImplicitMem = \<lparr>Hp = hi', Mg = mi\<rparr>, NodeHeap = hn',
                 GlobalExplicitConsumerOffset = 0, NextExplicitConsumerId = 0\<rparr>"
  have run: "ConcurrentQueue_new tr self pe pi (he, hi, hn) = Some (Inl ?c)"
    using T(1) me(1) mi(1) tr by (simp add: ConcurrentQueue_new_def)
  have no: "explicit_qs [] = Map.empty" "implicit_qs [] = Map.empty" by (simp_all add: explicit_qs_def implicit_qs_def fun_eq_iff)
  have "cq_core tr k ?c M" for M
    unfolding cq_core_def using ok me(2) mi(2,4)
    by (simp add: heaps_ok_def traits_ok_def nodes_ok_def no family_empty fast_mok_def slow_mok_def)
  moreover have "slow_ready (2 * n) \<lparr>Hp = hi', Mg = mi\<rparr>" using mi(3) ok by (simp add: slow_ready_def heaps_ok_def)
  ultimately have "cq_rel tr k n ?c M Map.empty" for M
    using T(2) ok by (intro cq_relI [where m = Map.empty]) (simp_all add: heaps_ok_def threads_ok_def)
  then show ?thesis using run by (intro exI [of _ ?c]) (simp add: node_addrs_def)
qed

section \<open>Going round the producers\<close>

lemma next_in_nth:
  assumes "distinct (List.map PN_Self Ns)" "i < length Ns"
  shows "next_in (PN_Self (Ns ! i)) Ns = Some (if Suc i < length Ns then Some (PN_Self (Ns ! Suc i)) else None)"
  using assms
proof (induction Ns arbitrary: i)
  case (Cons N Ns)
  show ?case
  proof (cases i)
    case 0
    then show ?thesis by (cases Ns) simp_all
  next
    case (Suc j)
    with Cons.prems have "PN_Self (Ns ! j) \<noteq> PN_Self N" by (metis image_eqI length_Cons Suc_less_eq distinct.simps(2) list.map(2) list.set_map nth_mem)
    with Suc Cons show ?thesis by simp
  qed
qed simp

lemma next_or_head_nth:
  assumes "distinct (node_addrs c)" "i < length (node_addrs c)"
  shows "next_or_head (node_addrs c ! i) c = Some (node_addrs c ! (Suc i mod length (node_addrs c)))"
proof -
  have len: "length (node_addrs c) = length (ProducerLists c)" by (simp add: node_addrs_def)
  have nth: "node_addrs c ! j = PN_Self (ProducerLists c ! j)" if "j < length (ProducerLists c)" for j
    using that by (simp add: node_addrs_def)
  have i: "i < length (ProducerLists c)" using assms(2) len by simp
  note nx = next_in_nth [OF assms(1) [unfolded node_addrs_def] i]
  show ?thesis
  proof (cases "Suc i < length (ProducerLists c)")
    case True
    with nx nth [OF i] nth [OF True] len show ?thesis by (simp add: next_or_head_def)
  next
    case False
    with i have l: "Suc i = length (ProducerLists c)" by simp
    have "list_head c = Some (PN_Self (ProducerLists c ! 0))" using i by (cases "ProducerLists c") (auto simp: list_head_def)
    moreover have "node_addrs c ! 0 = PN_Self (ProducerLists c ! 0)" using i nth by fastforce
    ultimately show ?thesis using nx nth [OF i] len l by (simp add: next_or_head_def)
  qed
qed

lemma next_or_head_mem:
  assumes "distinct (node_addrs c)" "a \<in> set (node_addrs c)"
  shows "\<exists>b. next_or_head a c = Some b \<and> b \<in> set (node_addrs c)"
proof -
  obtain i where i: "i < length (node_addrs c)" "node_addrs c ! i = a" using assms(2) by (auto simp: in_set_conv_nth)
  then have "Suc i mod length (node_addrs c) < length (node_addrs c)" by (metis length_pos_if_in_set assms(2) mod_less_divisor)
  with next_or_head_nth [OF assms(1) i(1)] i(2) show ?thesis by simp
qed

lemma advance_mem: "distinct (node_addrs c) \<Longrightarrow> a \<in> set (node_addrs c) \<Longrightarrow> \<exists>b. advance n a c = Some b \<and> b \<in> set (node_addrs c)"
proof (induction n arbitrary: a)
  case (Suc n)
  from next_or_head_mem [OF Suc.prems] obtain b where "next_or_head a c = Some b" "b \<in> set (node_addrs c)" by blast
  with Suc show ?case by simp
qed simp

lemma node_addrs_distinct: "cq_rel tr k n c M th \<Longrightarrow> distinct (node_addrs c)"
  using nodes_okD(1) [OF cq_coreD(2) [OF cq_rel_core]] by (metis node_addrs_def)

section \<open>Dequeue with a token\<close>

text \<open>A consumer's token that has chosen a producer has a current one; both are nodes of the queue.\<close>

definition token_ok :: "consumer_token \<Rightarrow> ('k, 'a) cq \<Rightarrow> bool" where
  "token_ok t c \<longleftrightarrow> (\<forall>d. DesiredProducer t = Some d \<longrightarrow>
     d \<in> set (node_addrs c) \<and> (\<exists>a \<in> set (node_addrs c). CurrentProducer t = Some a))"

lemma token_ok_addrs: "token_ok t c \<Longrightarrow> set (node_addrs c) \<subseteq> set (node_addrs c') \<Longrightarrow> token_ok t c'"
  unfolding token_ok_def by blast

lemma TokenReady_spec:
  assumes rel: "cq_rel tr k n c M th" and ok: "token_ok t c"
  shows "if node_addrs c = [] then TokenReady t c = Some (False, t)
    else \<exists>t' a. TokenReady t c = Some (True, t') \<and> token_ok t' c \<and> CurrentProducer t' = Some a \<and> a \<in> set (node_addrs c)
      \<and> DesiredProducer t' \<noteq> None"
proof -
  note dist = node_addrs_distinct [OF rel]
  have count: "ProducerCount c = of_nat (length (node_addrs c))" "length (node_addrs c) < 2 ^ 32"
    using rel by (auto simp: cq_rel_def cq_core_def node_addrs_def)
  have hd: "list_head c = (if node_addrs c = [] then None else Some (hd (node_addrs c)))"
    by (auto simp: list_head_def node_addrs_def split: list.splits)
  show ?thesis
  proof (cases "node_addrs c = []")
    case True
    then have "DesiredProducer t = None" using ok by (cases "DesiredProducer t") (auto simp: token_ok_def)
    with True hd show ?thesis by (simp add: TokenReady_def UpdateProducerForConsumer_def)
  next
    case False
    have "unat (ProducerCount c) = length (node_addrs c)" using count by (simp add: unat_of_nat)
    with False have ne: "ProducerCount c \<noteq> 0" by auto
    have "\<exists>d. (case DesiredProducer t of Some d \<Rightarrow> Some d
        | None \<Rightarrow> if ProducerCount c = 0 then None
            else do { hd \<leftarrow> list_head c; advance (unat (InitialOffset t mod ProducerCount c)) hd c }) = Some d \<and> d \<in> set (node_addrs c)"
    proof (cases "DesiredProducer t")
      case None
      from advance_mem [OF dist hd_in_set [OF False]] show ?thesis using None ne hd False by simp
    next
      case (Some d)
      then show ?thesis using ok by (auto simp: token_ok_def)
    qed
    then obtain d where d: "(case DesiredProducer t of Some d \<Rightarrow> Some d
        | None \<Rightarrow> if ProducerCount c = 0 then None
            else do { hd \<leftarrow> list_head c; advance (unat (InitialOffset t mod ProducerCount c)) hd c }) = Some d"
      "d \<in> set (node_addrs c)" by blast
    let ?Delta = "GlobalExplicitConsumerOffset c - LastKnownGlobalOffset t"
    obtain d' where d': "advance (unat (if ?Delta \<ge> ProducerCount c then ?Delta mod ProducerCount c else ?Delta)) d c = Some d'"
      "d' \<in> set (node_addrs c)" using advance_mem [OF dist d(2)] by blast
    let ?t = "t\<lparr>DesiredProducer := Some d', LastKnownGlobalOffset := GlobalExplicitConsumerOffset c,
           CurrentProducer := Some d', ItemsConsumed := 0\<rparr>"
    have upd: "UpdateProducerForConsumer t c = Some (True, ?t)"
      unfolding UpdateProducerForConsumer_def Let_def using d(1) d'(1) ne hd False by simp
    have tok: "token_ok ?t c" using d'(2) by (simp add: token_ok_def)
    show ?thesis
    proof (cases "DesiredProducer t = None \<or> LastKnownGlobalOffset t \<noteq> GlobalExplicitConsumerOffset c")
      case True
      then show ?thesis using upd tok d'(2) False by (intro if_not_P [THEN iffD2]) (auto simp: TokenReady_def)
    next
      case kept: False
      then obtain a where "CurrentProducer t = Some a" "a \<in> set (node_addrs c)" using ok by (auto simp: token_ok_def)
      then show ?thesis using kept ok False by (auto simp: TokenReady_def)
    qed
  qed
qed

text \<open>
  \<open>takes_from\<close>: nothing when all the producers \<open>as\<close> are empty, otherwise the oldest value of one of them, which
  becomes the current one unless handing the value out throws; \<open>P\<close> holds of what is left.
\<close>

definition takes_from :: "('a \<Rightarrow> bool) \<Rightarrow> addr list \<Rightarrow> (addr \<Rightarrow> 'a list) \<Rightarrow> ((addr \<Rightarrow> 'a list) \<Rightarrow> bool)
    \<Rightarrow> 'a option res \<Rightarrow> addr option \<Rightarrow> bool" where
  "takes_from throws as M P r found \<longleftrightarrow>
    (if \<forall>a \<in> set as. M a = [] then r = Ret None \<and> found = None \<and> P M
     else \<exists>a \<in> set as. M a \<noteq> [] \<and> r = handed_out throws (M a) \<and> P (M(a := tl (M a)))
       \<and> found = (if throws (hd (M a)) then None else Some a))"

lemma takes_fromI: "a \<in> set as \<Longrightarrow> M a \<noteq> [] \<Longrightarrow> P (M(a := tl (M a))) \<Longrightarrow> found = (if throws (hd (M a)) then None else Some a)
    \<Longrightarrow> takes_from throws as M P (handed_out throws (M a)) found"
  unfolding takes_from_def by auto

text \<open>
  The loop over the other producers, at the one that is \<open>d\<close> steps behind the current: all those before it
  are empty.
\<close>

lemma TryOthers_loop:
  assumes "cq_rel tr k n c M th" and as: "node_addrs c = as" and i: "i < length as" and d: "0 < d" "d \<le> length as"
    and before: "\<forall>e < d. M (as ! ((i + e) mod length as)) = []"
  shows "\<exists>r found c'. loop (TryOthers_body tr throws (as ! i)) (as ! ((i + d) mod length as), c) = Some (r, found, c')
    \<and> same_shape c c' \<and> takes_from throws as M (\<lambda>M. cq_rel tr k n c' M th) r found"
  using assms(1,2) d before
proof (induction "length as - d" arbitrary: d c)
  case 0
  then have d: "d = length as" by simp
  have all: "\<forall>a \<in> set as. M a = []"
  proof
    fix a assume "a \<in> set as"
    then obtain j where j: "j < length as" "as ! j = a" by (auto simp: in_set_conv_nth)
    define e where "e = (if i \<le> j then j - i else j + length as - i)"
    have "e < d" "(i + e) mod length as = j" using i j(1) d by (auto simp: e_def)
    with "0.prems"(5) j(2) show "M a = []" by metis
  qed
  have "(i + d) mod length as = i" using i d by simp
  then have "loop (TryOthers_body tr throws (as ! i)) (as ! ((i + d) mod length as), c) = Some (Ret None, None, c)"
    by (intro loop_exit) (simp add: TryOthers_body_def)
  with all "0.prems"(1) show ?case by (auto simp: takes_from_def)
next
  case (Suc x)
  let ?j = "(i + d) mod length as"
  have dl: "d < length as" using Suc.hyps(2) by simp
  have "0 < length as" using i by linarith
  then have j: "?j < length as" by (rule mod_less_divisor)
  have ne: "?j \<noteq> i" using i dl Suc.prems(3) by (auto simp: mod_if)
  have dist: "distinct as" using node_addrs_distinct [OF Suc.prems(1)] Suc.prems(2) by simp
  have other: "as ! ?j \<noteq> as ! i" using dist j i ne by (simp add: nth_eq_iff_index_eq)
  have mem: "as ! ?j \<in> set (node_addrs c)" using j Suc.prems(2) by simp
  from ProducerDequeue_rel [OF Suc.prems(1) mem, of throws] obtain c1 where
    c1: "ProducerDequeue tr throws (as ! ?j) c = Some (handed_out throws (M (as ! ?j)), c1)"
    "cq_rel tr k n c1 (M(as ! ?j := tl (M (as ! ?j)))) th" "same_shape c c1" by blast
  show ?case
  proof (cases "M (as ! ?j)")
    case Nil
    then have rel: "cq_rel tr k n c1 M th" using c1(2) by (simp add: fun_upd_idem)
    have as1: "node_addrs c1 = as" using same_shape_addrs [OF c1(3)] Suc.prems(2) by simp
    have "next_or_head (as ! ?j) c1 = Some (as ! ((i + Suc d) mod length as))"
      using next_or_head_nth [of c1 ?j] as1 dist j by (simp add: mod_Suc_eq)
    then have "loop (TryOthers_body tr throws (as ! i)) (as ! ?j, c)
        = loop (TryOthers_body tr throws (as ! i)) (as ! ((i + Suc d) mod length as), c1)"
      using c1(1) Nil other by (intro loop_again) (simp add: TryOthers_body_def handed_out_def)
    moreover have "\<forall>e < Suc d. M (as ! ((i + e) mod length as)) = []" using Suc.prems(5) Nil by (auto simp: less_Suc_eq)
    ultimately have "\<exists>r found c'. loop (TryOthers_body tr throws (as ! i)) (as ! ?j, c) = Some (r, found, c')
        \<and> same_shape c1 c' \<and> takes_from throws as M (\<lambda>M. cq_rel tr k n c' M th) r found"
      using Suc.hyps(1) [of "Suc d" c1] Suc.hyps(2) rel as1 dl by simp
    then show ?thesis using same_shape_trans [OF c1(3)] by blast
  next
    case (Cons v vs)
    then have "loop (TryOthers_body tr throws (as ! i)) (as ! ?j, c)
        = Some (handed_out throws (M (as ! ?j)), if throws v then None else Some (as ! ?j), c1)"
      using c1(1) other by (intro loop_exit) (simp add: TryOthers_body_def handed_out_def)
    moreover have "takes_from throws as M (\<lambda>M. cq_rel tr k n c1 M th) (handed_out throws (M (as ! ?j)))
        (if throws v then None else Some (as ! ?j))"
      by (rule takes_fromI [where P = "\<lambda>M. cq_rel tr k n c1 M th", OF nth_mem [OF j] _ c1(2)]) (simp_all add: Cons)
    ultimately show ?thesis using c1(3) by blast
  qed
qed

text \<open>The nodes, their producers, types and flags are the same.\<close>

definition same_nodes :: "('k, 'a) cq \<Rightarrow> ('k, 'a) cq \<Rightarrow> bool" where
  "same_nodes c c' \<longleftrightarrow> List.map node_key (ProducerLists c') = List.map node_key (ProducerLists c)"

lemma same_nodes_addrs: "same_nodes c c' \<Longrightarrow> node_addrs c' = node_addrs c"
  by (simp only: same_nodes_def node_addrs_eq)

lemma TryDequeueWithToken_rel:
  assumes rel: "cq_rel tr k n c M th" and ok: "token_ok t c"
  shows "\<exists>r t' c'. TryDequeueWithToken tr throws t c = Some (r, t', c') \<and> token_ok t' c' \<and> same_nodes c c'
    \<and> (if \<forall>a \<in> set (node_addrs c). M a = [] then r = Ret None \<and> cq_rel tr k n c' M th
       else \<exists>a \<in> set (node_addrs c). M a \<noteq> [] \<and> r = handed_out throws (M a) \<and> cq_rel tr k n c' (M(a := tl (M a))) th
         \<and> (\<not> throws (hd (M a)) \<longrightarrow> CurrentProducer t' = Some a))"
proof (cases "node_addrs c = []")
  case True
  then have "TryDequeueWithToken tr throws t c = Some (Ret None, t, c)"
    using TokenReady_spec [OF assms] by (simp add: TryDequeueWithToken_def)
  with True assms show ?thesis by (simp add: same_nodes_def)
next
  case False
  obtain t' a where t': "TokenReady t c = Some (True, t')" "token_ok t' c" "CurrentProducer t' = Some a"
    "a \<in> set (node_addrs c)" "DesiredProducer t' \<noteq> None" using TokenReady_spec [OF assms] False by auto
  from ProducerDequeue_rel [OF rel t'(4), of throws] obtain c1 where
    c1: "ProducerDequeue tr throws a c = Some (handed_out throws (M a), c1)"
    "cq_rel tr k n c1 (M(a := tl (M a))) th" "same_shape c c1" by blast
  note addrs = same_shape_addrs [OF c1(3)]
  have keep: "same_nodes c c1" using c1(3) by (simp add: same_nodes_def same_shape_def)
  show ?thesis
  proof (cases "M a")
    case (Cons v vs)
    let ?t = "t'\<lparr>ItemsConsumed := ItemsConsumed t' + 1\<rparr>"
    let ?c = "if ItemsConsumed ?t = EXPLICIT_CONSUMER_CONSUMPTION_QUOTA_BEFORE_ROTATE then rotate_global c1 else c1"
    have rel': "cq_rel tr k n ?c (M(a := tl (M a))) th" "node_addrs ?c = node_addrs c" "same_nodes c ?c"
      using c1(2) addrs keep by (simp_all add: rotate_global_def cq_rel_def cq_core_def node_addrs_def same_nodes_def)
    have tok: "token_ok t' ?c" "token_ok ?t ?c" using t'(2) rel'(2) by (simp_all add: token_ok_def)
    have "token_ok t' c1" using t'(2) addrs by (simp add: token_ok_def)
    then obtain t'' c' where run: "TryDequeueWithToken tr throws t c = Some (handed_out throws (M a), t'', c')"
      "token_ok t'' c'" "same_nodes c c'" "cq_rel tr k n c' (M(a := tl (M a))) th" "CurrentProducer t'' = Some a"
    proof (cases "throws v")
      case True
      then have "TryDequeueWithToken tr throws t c = Some (handed_out throws (M a), t', c1)"
        using t'(1,3) c1(1) Cons by (simp add: TryDequeueWithToken_def handed_out_def)
      from that [OF this] show ?thesis using \<open>token_ok t' c1\<close> keep c1(2) t'(3) by simp
    next
      case False
      then have "TryDequeueWithToken tr throws t c = Some (handed_out throws (M a), ?t, ?c)"
        using t'(1,3) c1(1) Cons by (simp add: TryDequeueWithToken_def handed_out_def Let_def)
      from that [OF this] show ?thesis using tok(2) rel' t'(3) by simp
    qed
    moreover have "\<not> (\<forall>a \<in> set (node_addrs c). M a = [])" using t'(4) Cons by (metis list.distinct(1))
    moreover have "M a \<noteq> []" using Cons by simp
    ultimately show ?thesis using t'(4) by (intro exI [of _ "handed_out throws (M a)"] exI [of _ t''] exI [of _ c']) metis
  next
    case Nil
    then have rel1: "cq_rel tr k n c1 M th" using c1(2) by (simp add: fun_upd_idem)
    obtain i where i: "i < length (node_addrs c)" "node_addrs c ! i = a" using t'(4) by (auto simp: in_set_conv_nth)
    have next1: "next_or_head a c1 = Some (node_addrs c ! ((i + 1) mod length (node_addrs c)))"
      using next_or_head_nth [of c1 i] addrs node_addrs_distinct [OF rel1] i by simp
    have "\<forall>e < 1. M (node_addrs c ! ((i + e) mod length (node_addrs c))) = []" using i Nil by simp
    from TryOthers_loop [OF rel1 addrs i(1) _ _ this, of throws] i(1) obtain r found c2 where
      l: "loop (TryOthers_body tr throws a) (node_addrs c ! ((i + 1) mod length (node_addrs c)), c1) = Some (r, found, c2)"
      "same_shape c1 c2" "takes_from throws (node_addrs c) M (\<lambda>M. cq_rel tr k n c2 M th) r found" using i(2) by auto
    have addrs2: "node_addrs c2 = node_addrs c" using same_shape_addrs [OF l(2)] addrs by simp
    have keep2: "same_nodes c c2" using keep l(2) by (simp add: same_nodes_def same_shape_def)
    let ?t = "case found of None \<Rightarrow> t' | Some a \<Rightarrow> t'\<lparr>CurrentProducer := Some a, ItemsConsumed := 1\<rparr>"
    have run: "TryDequeueWithToken tr throws t c = Some (r, ?t, c2)"
      using t'(1,3) c1(1) Nil next1 l(1) by (simp add: TryDequeueWithToken_def handed_out_def)
    have "token_ok ?t c2" using t'(2) l(3) addrs2 by (auto simp: token_ok_def takes_from_def split: if_splits option.splits)
    with run l(3) keep2 show ?thesis by (auto simp: takes_from_def split: if_splits)
  qed
qed

section \<open>Producer tokens\<close>

text \<open>The nodes that belong to a live token.\<close>

definition active_explicit :: "('k, 'a) cq \<Rightarrow> addr set" where
  "active_explicit c = {a. \<exists>p. (a, p, Explicit, False) \<in> set (List.map node_key (ProducerLists c))}"

lemma set_flag_mem: "(x, q, ty, i) \<in> set (List.map (set_flag a b) ks)
    \<longleftrightarrow> (if x = a then i = b \<and> (\<exists>j. (x, q, ty, j) \<in> set ks) else (x, q, ty, i) \<in> set ks)"
  by (induction ks) (auto simp: set_flag_def)

lemma active_explicit_flag:
  assumes "List.map node_key (ProducerLists c') = List.map (set_flag a b) (List.map node_key (ProducerLists c))"
    and "(a, p, Explicit, i) \<in> set (List.map node_key (ProducerLists c))"
  shows "active_explicit c' = (if b then active_explicit c - {a} else insert a (active_explicit c))"
proof -
  show ?thesis
  proof (intro set_eqI)
    fix x
    show "x \<in> active_explicit c' \<longleftrightarrow> x \<in> (if b then active_explicit c - {a} else insert a (active_explicit c))"
      unfolding active_explicit_def assms(1) mem_Collect_eq set_flag_mem using assms(2) by auto
  qed
qed

lemma cq_rel_flag:
  assumes rel: "cq_rel tr k n c M th" and N: "node_at a c = Some N" "PN_Type N = Explicit"
    and N': "PN_Self N' = a" "PN_Producer N' = PN_Producer N" "PN_Queue N' = PN_Queue N"
  shows "cq_rel tr k n (set_node N' c) M th" "node_addrs (set_node N' c) = node_addrs c"
    "active_explicit (set_node N' c) = (if Inactive N' then active_explicit c - {a} else insert a (active_explicit c))"
proof -
  note core = cq_rel_core [OF rel]
  note s = set_inactive_core [OF core N N']
  obtain m where m: "length (ProducerLists c) + n < 2 ^ 32" "slow_ready (2 * n) (ImplicitMem c)"
    "ht_rel (thread_hash tr) (invalid_thread_id tr) (2 * n) (ImplicitMap c, NodeHeap c) m"
    "threads_ok (List.map node_key (ProducerLists c)) th m" by (rule cq_relE [OF rel])
  have mem: "N \<in> set (ProducerLists c)" "PN_Self N = a" using node_at_mem [OF N(1)] by simp_all
  have "ty = Explicit" if k: "(a, p, ty, i) \<in> set (List.map node_key (ProducerLists c))" for p ty i
  proof -
    obtain N1 where "node_at a c = Some N1" "PN_Type N1 = ty" by (rule node_of_key [OF cq_coreD(2) [OF core] k])
    with N show ?thesis by simp
  qed
  then have "threads_ok (List.map node_key (ProducerLists (set_node N' c))) th m"
    unfolding s(2) by (rule threads_ok_flag [OF m(4)])
  with s(1) m(1-3) show "cq_rel tr k n (set_node N' c) M th"
    by (intro cq_relI [where m = m]) (simp_all add: set_node_def)
  have self: "PN_Self N' = PN_Self N" using N'(1) mem(2) by simp
  have "List.map PN_Self (ProducerLists (set_node N' c)) = List.map PN_Self (ProducerLists c)"
    by (rule set_node_keys [OF cq_coreD(2) [OF core] N(1) N'(1) self])
  then show "node_addrs (set_node N' c) = node_addrs c" by (simp add: node_addrs_def)
  have "(a, PN_Producer N, Explicit, Inactive N) \<in> set (List.map node_key (ProducerLists c))"
    using mem N(2) by (force simp: node_key_def)
  from active_explicit_flag [OF s(2) this]
  show "active_explicit (set_node N' c) = (if Inactive N' then active_explicit c - {a} else insert a (active_explicit c))" .
qed

lemma ProducerToken_new_rel:
  assumes rel: "cq_rel tr k (Suc n) c M th"
  shows "\<exists>a c' M'. ProducerToken_new tr self c = Some (Completes (\<lparr>PT_Self = self, ProducerNode = Some a\<rparr>, c'))
    \<and> cq_rel tr k n c' M' th \<and> a \<notin> active_explicit c \<and> active_explicit c' = insert a (active_explicit c)
    \<and> (if a \<in> set (node_addrs c) then M' = M \<and> node_addrs c' = node_addrs c
       else M' = M(a := []) \<and> node_addrs c' = a # node_addrs c)"
proof -
  note core = cq_rel_core [OF rel]
  note ok = nodes_okD [OF cq_coreD(2) [OF core]]
  show ?thesis
  proof (cases "List.find (\<lambda>N. Inactive N \<and> PN_Type N = Explicit) (ProducerLists c)")
    case (Some N)
    let ?a = "PN_Self N" and ?N = "N\<lparr>Inactive := False\<rparr>"
    have N: "N \<in> set (ProducerLists c)" "Inactive N" "PN_Type N = Explicit" using find_SomeD [OF Some] by auto
    have at: "node_at ?a c = Some N" using find_node [OF ok(1) N(1)] by (simp add: node_at_def)
    have run: "ProducerToken_new tr self c = Some (Completes (\<lparr>PT_Self = self, ProducerNode = Some ?a\<rparr>, set_node ?N c))"
      using Some by (simp add: ProducerToken_new_def GetProducerListNode_def)
    note f = cq_rel_flag [OF rel at N(3), of ?N]
    have "?a \<notin> active_explicit c"
    proof
      assume "?a \<in> active_explicit c"
      then obtain N1 where "N1 \<in> set (ProducerLists c)" "PN_Self N1 = ?a" "\<not> Inactive N1"
        by (auto simp: active_explicit_def node_key_def)
      moreover from this have "N1 = N" using find_node [OF ok(1), of N1] at by (simp add: node_at_def)
      ultimately show False using N(2) by simp
    qed
    moreover have "?a \<in> set (node_addrs c)" using N(1) by (simp add: node_addrs_def)
    moreover have "cq_rel tr k n (set_node ?N c) M th" using f(1) by (rule cq_rel_mono) simp_all
    ultimately show ?thesis using run f(2,3) by (intro exI [of _ ?a] exI [of _ "set_node ?N c"] exI [of _ M]) simp
  next
    case None
    obtain m where m: "length (ProducerLists c) + Suc n < 2 ^ 32" "slow_ready (2 * Suc n) (ImplicitMem c)"
      "ht_rel (thread_hash tr) (invalid_thread_id tr) (2 * Suc n) (ImplicitMap c, NodeHeap c) m"
      "threads_ok (List.map node_key (ProducerLists c)) th m" by (rule cq_relE [OF rel])
    have room: "2 \<le> Quota (NodeHeap c)" "4 * n + 4 \<le> Quota (NodeHeap c)" using ht_relD(4) [OF m(3)] by simp_all
    have "slow_ready (Suc (2 * n)) (ImplicitMem c)" using m(2) by (rule slow_ready_le) simp
    from GetProducerListNode_new [OF core None room(1) this] obtain a p c' where
      g: "GetProducerListNode tr Explicit c = Some (Completes (a, c'))" "added Explicit a p c c'"
        "cq_core tr k c' (M(a := []))" "slow_ready (2 * n) (ImplicitMem c')" by blast
    have keys: "List.map node_key (ProducerLists c') = (a, p, Explicit, False) # List.map node_key (ProducerLists c)"
      and out: "a \<notin> set (node_addrs c)" and map: "ImplicitMap c' = ImplicitMap c"
      and quota: "Quota (NodeHeap c) = Quota (NodeHeap c') + 2" using g(2) by (simp_all add: added_def)
    have addrs: "node_addrs c' = a # node_addrs c" by (simp only: node_addrs_eq keys list.map fst_conv)
    have "length (List.map node_key (ProducerLists c')) = Suc (length (List.map node_key (ProducerLists c)))"
      by (simp only: keys list.size(4))
    then have len: "length (ProducerLists c') + n < 2 ^ 32" using m(1) by simp
    have "ht_rel (thread_hash tr) (invalid_thread_id tr) (2 * n) (ImplicitMap c', NodeHeap c') m"
      using m(3) map quota room(2) by (simp add: ht_rel_def)
    moreover have "threads_ok (List.map node_key (ProducerLists c')) th m" using m(4) unfolding keys threads_ok_def by auto
    ultimately have "cq_rel tr k n c' (M(a := [])) th" using g(3,4) len by (intro cq_relI [where m = m]) simp_all
    moreover have "active_explicit c' = insert a (active_explicit c)" unfolding active_explicit_def keys by auto
    moreover have "a \<notin> active_explicit c" using out by (auto simp: active_explicit_def node_addrs_eq node_key_def)
    ultimately show ?thesis using g(1) out addrs by (intro exI [of _ a] exI [of _ c'] exI [of _ "M(a := [])"]) (simp add: ProducerToken_new_def)
  qed
qed

lemma ProducerToken_destroy_rel:
  assumes rel: "cq_rel tr k n c M th" and a: "ProducerNode t = Some a" "a \<in> active_explicit c"
  shows "\<exists>c'. ProducerToken_destroy t c = Some c' \<and> cq_rel tr k n c' M th \<and> node_addrs c' = node_addrs c
    \<and> active_explicit c' = active_explicit c - {a}"
proof -
  from a(2) obtain p where p: "(a, p, Explicit, False) \<in> set (List.map node_key (ProducerLists c))"
    by (auto simp: active_explicit_def)
  obtain N where N: "node_at a c = Some N" "PN_Type N = Explicit" "PN_Self N = a"
    by (rule node_of_key [OF cq_coreD(2) [OF cq_rel_core [OF rel]] p])
  show ?thesis using cq_rel_flag [OF rel N(1,2), of "N\<lparr>PN_Token := None, Inactive := True\<rparr>"] N a(1)
    by (simp add: ProducerToken_destroy_def)
qed

lemma active_explicit_mem: "active_explicit c \<subseteq> set (node_addrs c)"
  by (auto simp: active_explicit_def node_addrs_def node_key_def)

lemma EnqueueWithToken_rel:
  assumes rel: "cq_rel tr k (Suc n) c M th" and a: "ProducerNode t = Some a" "a \<in> active_explicit c"
  shows "\<exists>r c'. EnqueueWithToken tr mode t arg c = Some (r, c') \<and> (r = Ret True \<longrightarrow> arg \<noteq> None)
    \<and> cq_rel tr k n c' (if r = Ret True then M(a := M a @ [the arg]) else M) th \<and> same_shape c c'"
proof -
  obtain N where N: "node_at a c = Some N" using node_at_ex active_explicit_mem a(2) by blast
  have ready: "slow_ready (2 * Suc n) (ImplicitMem c)" using rel by (rule cq_relE)
  then have "slow_ready (Suc (2 * n)) (ImplicitMem c)" by (rule slow_ready_le) simp
  from ProducerEnqueue_rel [OF cq_rel_core [OF rel] this N, of mode arg] obtain r c' where
    e: "ProducerEnqueue tr mode arg N c = Some (r, c')" "r = Ret True \<longrightarrow> arg \<noteq> None"
    "cq_core tr k c' (if r = Ret True then M(a := M a @ [the arg]) else M)" "same_shape c c'"
    "ImplicitMap c' = ImplicitMap c" "NodeHeap c' = NodeHeap c" "slow_ready (2 * n) (ImplicitMem c')" by blast
  have "cq_rel tr k n c' (if r = Ret True then M(a := M a @ [the arg]) else M) th"
    by (rule cq_rel_shape [OF rel e(3-6) _ e(7)]) simp
  with e(1,2,4) show ?thesis using a(1) N by (simp add: EnqueueWithToken_def)
qed

section \<open>An example\<close>

text \<open>Blocks of two slots, no pools, a hash table of two entries; threads are numbers, and 0 is no thread.\<close>

definition small_traits :: "(nat, 'a) traits" where
  "small_traits = \<lparr>TraitsBlockSize = 2, ExplicitProto = new_block False 2, ImplicitProto = new_block True 2,
     InitialBlockPoolSize = 0, InitialHashSize = 2, InitialExplicitQueueSize = 2, InitialImplicitQueueSize = 2,
     thread_hash = of_nat, invalid_thread_id = 0\<rparr>"

definition small_queue :: "(nat, 'a) cq option" where
  "small_queue = Option.bind (ConcurrentQueue_default small_traits 0 (empty_heap 100, empty_heap 100, empty_heap 100))
     (\<lambda>r. case r of Inl c \<Rightarrow> Some c | Inr _ \<Rightarrow> None)"

lemma small_queue_rel:
  obtains c :: "(nat, 'a) cq" where "small_queue = Some c" "node_addrs c = []" "\<forall>M. cq_rel small_traits 1 10 c M Map.empty"
proof -
  have "heaps_ok (small_traits :: (nat, 'a) traits) 1 10 0 0 (empty_heap 100) (empty_heap 100) (empty_heap 100)"
    unfolding heaps_ok_def traits_ok_def small_traits_def empty_heap_def by (auto intro!: exI [of _ 1])
  from ConcurrentQueue_new_rel [OF this, of 0] obtain c :: "(nat, 'a) cq" where
    "ConcurrentQueue_new small_traits 0 0 0 (empty_heap 100, empty_heap 100, empty_heap 100) = Some (Inl c)"
    "node_addrs c = []" "\<forall>M. cq_rel small_traits 1 10 c M Map.empty" by blast
  then show ?thesis by (intro that [of c]) (simp_all add: small_queue_def ConcurrentQueue_default_def small_traits_def)
qed

section \<open>Properties\<close>

text \<open>C8. \<^verbatim>\<open>Enqueue\<close> and \<^verbatim>\<open>TryEnqueue\<close> of a thread, with memory for the operation: they find the thread's own
  producer, or give it a new one that is empty, and append there; nothing else changes.  Unless they return
  true, no producer's values change.\<close>

theorem ConcurrentQueue_Enqueue_correct:
  assumes "cq_rel tr k (Suc n) c M th" "t \<noteq> invalid_thread_id tr"
  shows "\<exists>r c' a M1 th1. ConcurrentQueue_Enqueue tr mode t arg c = Some (Completes (r, c'))
    \<and> located t a c M th c' M1 th1 \<and> (r = Ret True \<longrightarrow> arg \<noteq> None)
    \<and> cq_rel tr k n c' (if r = Ret True then M1(a := M1 a @ [the arg]) else M1) th1"
  using assms by (rule Enqueue_rel)

theorem ConcurrentQueue_Enqueue_correct_witness:
  "\<exists>(c :: (nat, nat) cq) r c' a. small_queue = Some c
    \<and> ConcurrentQueue_Enqueue small_traits CanAlloc 7 (Some 5) c = Some (Completes (r, c')) \<and> node_addrs c' = [a]"
proof -
  obtain c :: "(nat, nat) cq" where c: "small_queue = Some c" "node_addrs c = []"
    "\<forall>M. cq_rel small_traits 1 10 c M Map.empty" by (rule small_queue_rel)
  have "cq_rel small_traits 1 (Suc 9) c (\<lambda>_. []) Map.empty" using c(3) by simp
  from ConcurrentQueue_Enqueue_correct [OF this, of 7 CanAlloc "Some 5"] obtain r c' a M1 th1 where
    "ConcurrentQueue_Enqueue small_traits CanAlloc 7 (Some 5) c = Some (Completes (r, c'))"
    "located 7 a c (\<lambda>_. []) Map.empty c' M1 th1" by (auto simp: small_traits_def)
  with located_addrs [OF this(2)] c(1,2) show ?thesis by auto
qed

text \<open>C18. \<^verbatim>\<open>TryDequeue\<close>: it reports that there is nothing exactly when every producer is empty; otherwise it
  takes the oldest value of the longest among the first three producers that are not empty, and the other
  producers keep what they have.\<close>

theorem ConcurrentQueue_TryDequeue_correct:
  assumes "cq_rel tr k n c M th"
  shows "if \<forall>a \<in> set (node_addrs c). M a = [] then ConcurrentQueue_TryDequeue tr throws c = Some (Ret None, c)
    else \<exists>a c'. longest_of M (candidates c M) (Some a) \<and> M a \<noteq> [] \<and> a \<in> set (node_addrs c)
      \<and> ConcurrentQueue_TryDequeue tr throws c = Some (handed_out throws (M a), c')
      \<and> cq_rel tr k n c' (M(a := tl (M a))) th \<and> same_shape c c'"
  using assms by (rule CQ_TryDequeue_rel)

theorem ConcurrentQueue_TryDequeue_correct_witness:
  "\<exists>c :: (nat, nat) cq. small_queue = Some c \<and> ConcurrentQueue_TryDequeue small_traits (\<lambda>_. False) c = Some (Ret None, c)"
proof -
  obtain c :: "(nat, nat) cq" where c: "small_queue = Some c" "node_addrs c = []"
    "\<forall>M. cq_rel small_traits 1 10 c M Map.empty" by (rule small_queue_rel)
  from ConcurrentQueue_TryDequeue_correct [OF c(3) [THEN spec], of "\<lambda>_. []" "\<lambda>_. False"] c(1) show ?thesis
    by (intro exI [of _ c]) simp
qed

text \<open>C9. \<^verbatim>\<open>TryDequeue\<close> with a consumer's token ends its search round the producers and finds a value
  exactly when there is one: it takes the oldest value of some producer, which becomes the token's
  current one, and the token stays in order.\<close>

theorem ConcurrentQueue_token_dequeue_correct:
  assumes "cq_rel tr k n c M th" "token_ok t c"
  shows "\<exists>r t' c'. TryDequeueWithToken tr throws t c = Some (r, t', c') \<and> token_ok t' c' \<and> same_nodes c c'
    \<and> (if \<forall>a \<in> set (node_addrs c). M a = [] then r = Ret None \<and> cq_rel tr k n c' M th
       else \<exists>a \<in> set (node_addrs c). M a \<noteq> [] \<and> r = handed_out throws (M a) \<and> cq_rel tr k n c' (M(a := tl (M a))) th
         \<and> (\<not> throws (hd (M a)) \<longrightarrow> CurrentProducer t' = Some a))"
  using assms by (rule TryDequeueWithToken_rel)

theorem ConcurrentQueue_token_dequeue_correct_witness:
  "\<exists>(c :: (nat, nat) cq) t' c'. small_queue = Some c
    \<and> TryDequeueWithToken small_traits (\<lambda>_. False) (fst (ConsumerToken_new c)) c = Some (Ret None, t', c')"
proof -
  obtain c :: "(nat, nat) cq" where c: "small_queue = Some c" "node_addrs c = []"
    "\<forall>M. cq_rel small_traits 1 10 c M Map.empty" by (rule small_queue_rel)
  have "token_ok (fst (ConsumerToken_new c)) c" by (simp add: token_ok_def ConsumerToken_new_def)
  from ConcurrentQueue_token_dequeue_correct [OF c(3) [THEN spec] this, of "\<lambda>_. False" "\<lambda>_. []"] c(1,2) show ?thesis by auto
qed

text \<open>Exchanging tokens does not exchange them.  \<^verbatim>\<open>ProducerToken::swap\<close> leaves each token its own producer, and
  \<^verbatim>\<open>ConsumerToken::swap\<close> exchanges all but the desired producer and the number of elements consumed.\<close>

theorem token_swaps_keep:
  "map_option (\<lambda>(t, u, c). (t, u)) (ProducerToken_swap this Other c) \<in> {None, Some (this, Other)}
    \<and> (case ConsumerToken_swap t u of (t', u') \<Rightarrow>
         InitialOffset t' = InitialOffset u \<and> LastKnownGlobalOffset t' = LastKnownGlobalOffset u
       \<and> CurrentProducer t' = CurrentProducer u \<and> InitialOffset u' = InitialOffset t
       \<and> LastKnownGlobalOffset u' = LastKnownGlobalOffset t \<and> CurrentProducer u' = CurrentProducer t
       \<and> DesiredProducer t' = DesiredProducer t \<and> ItemsConsumed t' = ItemsConsumed t
       \<and> DesiredProducer u' = DesiredProducer u \<and> ItemsConsumed u' = ItemsConsumed u)"
proof
  show "map_option (\<lambda>(t, u, c). (t, u)) (ProducerToken_swap this Other c) \<in> {None, Some (this, Other)}"
    by (cases "ProducerToken_swap this Other c") (auto simp: ProducerToken_swap_def Let_def bind_eq_Some_conv)
qed (simp add: ConsumerToken_swap_def)

end
