(* ===== verification/Concurrent_Queue_Clients.thy ===== *)
theory Concurrent_Queue_Clients
  imports Concurrent_Queue_Properties "HOL-Library.Multiset"
begin

text \<open>
  Any number of threads with any number of tokens at work on one \<^verbatim>\<open>ConcurrentQueue\<close>, one operation after the
  other: that every operation has a result, that no element is lost, doubled or made up, and that
  the elements one thread puts in come out in order.
\<close>

section \<open>Clients\<close>

text \<open>The queue, the live tokens, and the histories of the values accepted and handed out.\<close>

record ('k, 'a) client =
  Queue :: "('k, 'a) cq"
  ProducerTokens :: "producer_token list"
  ConsumerTokens :: "consumer_token list"
  Puts :: "'a list"
  Gots :: "'a list"

datatype ('k, 'a) action =
    EnqueueBy 'k AllocMode "'a option" | MakeProducerToken | EnqueueVia nat AllocMode "'a option" | DropProducerToken nat
  | MakeConsumerToken | Dequeue | DequeueVia nat | DequeueFrom nat

definition log_put :: "bool res \<Rightarrow> 'a option \<Rightarrow> ('k, 'a) client \<Rightarrow> ('k, 'a) client" where
  "log_put r arg cl = (if r = Ret True then (case arg of Some v \<Rightarrow> cl\<lparr>Puts := Puts cl @ [v]\<rparr> | None \<Rightarrow> cl) else cl)"

definition taken :: "'a option res \<Rightarrow> 'a list" where
  "taken r = (case r of Ret (Some v) \<Rightarrow> [v] | _ \<Rightarrow> [])"

definition log_got :: "'a option res \<Rightarrow> ('k, 'a) client \<Rightarrow> ('k, 'a) client" where
  "log_got r cl = cl\<lparr>Gots := Gots cl @ taken r\<rparr>"

text \<open>An action on a token that does not exist does nothing.  Handing elements out does not throw here.\<close>

fun client_step :: "('k, 'a) traits \<Rightarrow> ('k, 'a) action \<Rightarrow> ('k, 'a) client \<Rightarrow> ('k, 'a) client noexcept option" where
  "client_step tr (EnqueueBy t mode arg) cl = do {
     r \<leftarrow> ConcurrentQueue_Enqueue tr mode t arg (Queue cl);
     Some (case r of Aborts \<Rightarrow> Aborts | Completes (r, c) \<Rightarrow> Completes (log_put r arg (cl\<lparr>Queue := c\<rparr>))) }"
| "client_step tr MakeProducerToken cl = do {
     r \<leftarrow> ProducerToken_new tr (length (ProducerTokens cl)) (Queue cl);
     Some (case r of Aborts \<Rightarrow> Aborts
       | Completes (t, c) \<Rightarrow> Completes (cl\<lparr>Queue := c, ProducerTokens := ProducerTokens cl @ [t]\<rparr>)) }"
| "client_step tr (EnqueueVia i mode arg) cl =
     (if i < length (ProducerTokens cl) then do {
        (r, c) \<leftarrow> EnqueueWithToken tr mode (ProducerTokens cl ! i) arg (Queue cl);
        Some (Completes (log_put r arg (cl\<lparr>Queue := c\<rparr>))) }
      else Some (Completes cl))"
| "client_step tr (DropProducerToken i) cl =
     (if i < length (ProducerTokens cl) then do {
        c \<leftarrow> ProducerToken_destroy (ProducerTokens cl ! i) (Queue cl);
        Some (Completes (cl\<lparr>Queue := c, ProducerTokens := take i (ProducerTokens cl) @ drop (Suc i) (ProducerTokens cl)\<rparr>)) }
      else Some (Completes cl))"
| "client_step tr MakeConsumerToken cl =
     (let (t, c) = ConsumerToken_new (Queue cl) in
      Some (Completes (cl\<lparr>Queue := c, ConsumerTokens := ConsumerTokens cl @ [t]\<rparr>)))"
| "client_step tr Dequeue cl = do {
     (r, c) \<leftarrow> ConcurrentQueue_TryDequeue tr (\<lambda>_. False) (Queue cl);
     Some (Completes (log_got r (cl\<lparr>Queue := c\<rparr>))) }"
| "client_step tr (DequeueVia i) cl =
     (if i < length (ConsumerTokens cl) then do {
        (r, t, c) \<leftarrow> TryDequeueWithToken tr (\<lambda>_. False) (ConsumerTokens cl ! i) (Queue cl);
        Some (Completes (log_got r (cl\<lparr>Queue := c, ConsumerTokens := (ConsumerTokens cl)[i := t]\<rparr>))) }
      else Some (Completes cl))"
| "client_step tr (DequeueFrom i) cl =
     (if i < length (ProducerTokens cl) then do {
        (r, c) \<leftarrow> TryDequeueFromProducer tr (\<lambda>_. False) (ProducerTokens cl ! i) (Queue cl);
        Some (Completes (log_got r (cl\<lparr>Queue := c\<rparr>))) }
      else Some (Completes cl))"

fun client_run :: "('k, 'a) traits \<Rightarrow> ('k, 'a) action list \<Rightarrow> ('k, 'a) client \<Rightarrow> ('k, 'a) client noexcept option" where
  "client_run tr [] cl = Some (Completes cl)"
| "client_run tr (a # as) cl = do {
     r \<leftarrow> client_step tr a cl;
     case r of Aborts \<Rightarrow> Some Aborts | Completes cl' \<Rightarrow> client_run tr as cl' }"

definition new_client :: "('k, 'a) cq \<Rightarrow> ('k, 'a) client" where
  "new_client c = \<lparr>Queue = c, ProducerTokens = [], ConsumerTokens = [], Puts = [], Gots = []\<rparr>"

section \<open>The histories\<close>

text \<open>
  \<open>logs_ok\<close>: what has been put in is what has come out together with what the producers \<open>as\<close> hold; and of
  the values with the property \<open>P\<close>, all of which the thread \<open>t\<close> puts in, those put in are those that have come
  out followed by those its producer holds.
\<close>

definition logs_ok :: "addr list \<Rightarrow> (addr \<Rightarrow> 'a list) \<Rightarrow> ('k \<rightharpoonup> addr) \<Rightarrow> 'k \<Rightarrow> ('a \<Rightarrow> bool) \<Rightarrow> 'a list \<Rightarrow> 'a list \<Rightarrow> bool" where
  "logs_ok as M th t P puts gots \<longleftrightarrow> distinct as \<and> (\<forall>b. th t = Some b \<longrightarrow> b \<in> set as)
     \<and> mset puts = mset gots + mset (concat (List.map M as))
     \<and> filter P puts = filter P gots @ (case th t of None \<Rightarrow> [] | Some b \<Rightarrow> filter P (M b))
     \<and> (\<forall>a \<in> set as. th t \<noteq> Some a \<longrightarrow> filter P (M a) = [])"

lemma mset_concat_upd:
  assumes "distinct as" "a \<in> set as"
  shows "mset (concat (List.map (M(a := ys)) as)) + mset (M a) = mset (concat (List.map M as)) + mset ys"
  using assms
proof (induction as)
  case (Cons b bs)
  show ?case
  proof (cases "a = b")
    case True
    with Cons.prems have "List.map (M(a := ys)) bs = List.map M bs" by (intro map_cong) auto
    then show ?thesis unfolding True [symmetric] by (simp only: list.map fun_upd_same concat.simps mset_append add_ac)
  next
    case False
    with Cons show ?thesis by (simp add: add_ac)
  qed
qed simp

lemma logs_put:
  assumes "logs_ok as M th t P puts gots" "a \<in> set as" "P v \<Longrightarrow> th t = Some a"
  shows "logs_ok as (M(a := M a @ [v])) th t P (puts @ [v]) gots"
proof -
  note l = assms(1) [unfolded logs_ok_def]
  have "mset (concat (List.map (M(a := M a @ [v])) as)) + mset (M a) = mset (concat (List.map M as)) + mset (M a @ [v])"
    using l assms(2) by (intro mset_concat_upd) auto
  then have "mset (concat (List.map (M(a := M a @ [v])) as)) = add_mset v (mset (concat (List.map M as)))" by simp
  then show ?thesis using l assms(2,3) unfolding logs_ok_def by (auto split: option.splits)
qed

lemma logs_got:
  assumes "logs_ok as M th t P puts gots" "a \<in> set as" "M a = v # vs"
  shows "logs_ok as (M(a := vs)) th t P puts (gots @ [v])"
proof -
  note l = assms(1) [unfolded logs_ok_def]
  have "mset (concat (List.map (M(a := vs)) as)) + mset (M a) = mset (concat (List.map M as)) + mset vs"
    using l assms(2) by (intro mset_concat_upd) auto
  then have m: "mset (concat (List.map M as)) = add_mset v (mset (concat (List.map (M(a := vs)) as)))"
    using assms(3) by simp
  have "\<not> P v" if "th t \<noteq> Some a" using l assms(2,3) that by (auto split: if_splits)
  then show ?thesis using l assms(2,3) m unfolding logs_ok_def by (auto split: option.splits if_splits)
qed

lemma logs_new:
  assumes "logs_ok as M th t P puts gots" "a \<notin> set as"
  shows "logs_ok (a # as) (M(a := [])) th t P puts gots"
proof -
  note l = assms(1) [unfolded logs_ok_def]
  have "List.map (M(a := [])) as = List.map M as" using assms(2) by (intro map_cong) auto
  then show ?thesis using l assms(2) unfolding logs_ok_def by (auto split: option.splits)
qed

lemma logs_thread:
  assumes "logs_ok as M th t P puts gots" "a \<notin> set as" "th s = None"
  shows "logs_ok (a # as) (M(a := [])) (th(s \<mapsto> a)) t P puts gots"
proof -
  note l = assms(1) [unfolded logs_ok_def]
  have "List.map (M(a := [])) as = List.map M as" using assms(2) by (intro map_cong) auto
  then show ?thesis using l assms(2,3) unfolding logs_ok_def by (auto split: option.splits)
qed

lemma logs_located:
  assumes "logs_ok (node_addrs c) M th t P puts gots" "located s a c M th c' M' th'"
  shows "logs_ok (node_addrs c') M' th' t P puts gots"
  using assms located_addrs [OF assms(2)] logs_thread [OF assms(1)]
  by (auto simp: located_def split: option.splits)

section \<open>The invariant\<close>

definition tokens_ok :: "('k, 'a) client \<Rightarrow> bool" where
  "tokens_ok cl \<longleftrightarrow> distinct (List.map ProducerNode (ProducerTokens cl))
     \<and> (\<forall>p \<in> set (ProducerTokens cl). \<exists>a \<in> active_explicit (Queue cl). ProducerNode p = Some a)
     \<and> (\<forall>u \<in> set (ConsumerTokens cl). token_ok u (Queue cl))"

definition client_inv :: "('k, 'a) traits \<Rightarrow> nat \<Rightarrow> nat \<Rightarrow> 'k \<Rightarrow> ('a \<Rightarrow> bool) \<Rightarrow> (addr \<Rightarrow> 'a list) \<Rightarrow> ('k \<rightharpoonup> addr)
    \<Rightarrow> ('k, 'a) client \<Rightarrow> bool" where
  "client_inv tr k n t P M th cl \<longleftrightarrow> cq_rel tr k n (Queue cl) M th \<and> tokens_ok cl
     \<and> logs_ok (node_addrs (Queue cl)) M th t P (Puts cl) (Gots cl)"

text \<open>Threads have ids, and only the thread \<open>t\<close> puts values with the property \<open>P\<close> in.\<close>

fun permitted :: "('k, 'a) traits \<Rightarrow> 'k \<Rightarrow> ('a \<Rightarrow> bool) \<Rightarrow> ('k, 'a) action \<Rightarrow> bool" where
  "permitted tr t P (EnqueueBy s mode arg) \<longleftrightarrow> s \<noteq> invalid_thread_id tr \<and> (s = t \<or> (case arg of None \<Rightarrow> True | Some v \<Rightarrow> \<not> P v))"
| "permitted tr t P (EnqueueVia i mode arg) \<longleftrightarrow> (case arg of None \<Rightarrow> True | Some v \<Rightarrow> \<not> P v)"
| "permitted tr t P _ \<longleftrightarrow> True"

lemma tokens_ok_mono:
  assumes "tokens_ok cl" "active_explicit (Queue cl) \<subseteq> active_explicit (Queue cl')" "set (node_addrs (Queue cl)) \<subseteq> set (node_addrs (Queue cl'))"
    "ProducerTokens cl' = ProducerTokens cl" "ConsumerTokens cl' = ConsumerTokens cl"
  shows "tokens_ok cl'"
  using assms token_ok_addrs unfolding tokens_ok_def by (metis subsetD)

lemma active_shape: "same_shape c c' \<Longrightarrow> active_explicit c' = active_explicit c"
  by (simp add: same_shape_def active_explicit_def)

lemma active_nodes: "same_nodes c c' \<Longrightarrow> active_explicit c' = active_explicit c"
  by (simp add: same_nodes_def active_explicit_def)

lemma log_fields [simp]:
  "Queue (log_put r arg cl) = Queue cl" "ProducerTokens (log_put r arg cl) = ProducerTokens cl"
  "ConsumerTokens (log_put r arg cl) = ConsumerTokens cl" "Gots (log_put r arg cl) = Gots cl"
  "Puts (log_put r arg cl) = (if r = Ret True \<and> arg \<noteq> None then Puts cl @ [the arg] else Puts cl)"
  "Queue (log_got r' cl) = Queue cl" "ProducerTokens (log_got r' cl) = ProducerTokens cl"
  "ConsumerTokens (log_got r' cl) = ConsumerTokens cl" "Puts (log_got r' cl) = Puts cl"
  "Gots (log_got r' cl) = Gots cl @ taken r'"
  by (auto simp: log_put_def log_got_def split: option.splits res.splits)

lemma client_fields:
  "Queue (cl\<lparr>Queue := c\<rparr>) = c" "Puts (cl\<lparr>Queue := c\<rparr>) = Puts cl" "Gots (cl\<lparr>Queue := c\<rparr>) = Gots cl"
  by simp_all

text \<open>An enqueue, then a dequeue, on a queue whose nodes stay as they are.\<close>

lemma logs_enqueue:
  assumes "logs_ok as M th t P puts gots" "a \<in> set as" "r = Ret True \<longrightarrow> arg \<noteq> None"
    "\<And>v. arg = Some v \<Longrightarrow> P v \<Longrightarrow> th t = Some a"
  shows "logs_ok as (if r = Ret True then M(a := M a @ [the arg]) else M) th t P
    (if r = Ret True \<and> arg \<noteq> None then puts @ [the arg] else puts) gots"
  using assms logs_put [OF assms(1,2), of "the arg"] by auto

lemma logs_dequeue:
  assumes "logs_ok as M th t P puts gots" "a \<in> set as"
  shows "logs_ok as (M(a := tl (M a))) th t P puts (gots @ taken (handed_out (\<lambda>_. False) (M a)))"
proof (cases "M a")
  case Nil
  then show ?thesis using assms(1) by (simp add: handed_out_def taken_def fun_upd_idem)
next
  case (Cons v vs)
  then show ?thesis using logs_got [OF assms Cons] by (simp add: handed_out_def taken_def)
qed

section \<open>A step\<close>

lemma tokens_okD:
  assumes "tokens_ok cl" "i < length (ProducerTokens cl)"
  obtains a where "a \<in> active_explicit (Queue cl)" "ProducerNode (ProducerTokens cl ! i) = Some a"
  using assms unfolding tokens_ok_def by (meson nth_mem)

lemma active_located: "located s a c M th c' M' th' \<Longrightarrow> active_explicit c' = active_explicit c"
proof -
  assume "located s a c M th c' M' th'"
  then have "List.map node_key (ProducerLists c') = List.map node_key (ProducerLists c)
      \<or> (\<exists>p. List.map node_key (ProducerLists c') = (a, p, Implicit, False) # List.map node_key (ProducerLists c))"
    unfolding located_def by (cases "th s") auto
  then show ?thesis unfolding active_explicit_def by (elim disjE exE) (simp_all only: list.set, simp)
qed

lemma client_invI:
  assumes "cq_rel tr k n (Queue cl) M th" "tokens_ok cl" "logs_ok (node_addrs (Queue cl)) M th t P (Puts cl) (Gots cl)"
  shows "client_inv tr k n t P M th cl"
  using assms by (simp add: client_inv_def)

lemma client_invD:
  assumes "client_inv tr k n t P M th cl"
  shows "cq_rel tr k n (Queue cl) M th" "tokens_ok cl" "logs_ok (node_addrs (Queue cl)) M th t P (Puts cl) (Gots cl)"
  using assms by (simp_all add: client_inv_def)

lemma cq_rel_thread: "cq_rel tr k n c M th \<Longrightarrow> th s = Some a \<Longrightarrow> a \<in> set (node_addrs c)"
proof -
  assume rel: "cq_rel tr k n c M th" and s: "th s = Some a"
  obtain m where "threads_ok (List.map node_key (ProducerLists c)) th m" by (rule cq_relE [OF rel])
  with s obtain p where "(a, p, Implicit, False) \<in> set (List.map node_key (ProducerLists c))" unfolding threads_ok_def by blast
  from image_eqI [where f = fst, OF _ this] show ?thesis unfolding node_addrs_eq by (simp only: list.set_map fst_conv)
qed

lemma step_enqueue:
  assumes inv: "client_inv tr k (Suc n) t P M th cl" and al: "permitted tr t P (EnqueueBy s mode arg)"
  shows "\<exists>cl' M' th'. client_step tr (EnqueueBy s mode arg) cl = Some (Completes cl') \<and> client_inv tr k n t P M' th' cl'"
proof -
  note i = client_invD [OF inv]
  obtain r c' a M1 th1 where e: "ConcurrentQueue_Enqueue tr mode s arg (Queue cl) = Some (Completes (r, c'))"
    "located s a (Queue cl) M th c' M1 th1" "r = Ret True \<longrightarrow> arg \<noteq> None"
    "cq_rel tr k n c' (if r = Ret True then M1(a := M1 a @ [the arg]) else M1) th1"
    using Enqueue_rel [OF i(1), of s mode arg] al by auto
  have logs: "logs_ok (node_addrs c') M1 th1 t P (Puts cl) (Gots cl)" using logs_located [OF i(3) e(2)] .
  have th1: "th1 s = Some a" using e(2) by (auto simp: located_def split: option.splits)
  with al have th1: "a \<in> set (node_addrs c')" "\<And>v. arg = Some v \<Longrightarrow> P v \<Longrightarrow> th1 t = Some a"
    using cq_rel_thread [OF e(4)] by auto
  let ?cl = "log_put r arg (cl\<lparr>Queue := c'\<rparr>)"
  have "tokens_ok ?cl"
    using active_located [OF e(2)] located_addrs [OF e(2)] by (intro tokens_ok_mono [OF i(2)]) auto
  moreover note logs_enqueue [OF logs th1(1) e(3) th1(2)]
  ultimately have "client_inv tr k n t P (if r = Ret True then M1(a := M1 a @ [the arg]) else M1) th1 ?cl"
    using e(4) by (intro client_invI) (simp_all only: log_fields client_fields)
  moreover have "client_step tr (EnqueueBy s mode arg) cl = Some (Completes ?cl)" using e(1) by simp
  ultimately show ?thesis by blast
qed

lemma step_enqueue_token:
  assumes inv: "client_inv tr k (Suc n) t P M th cl" and al: "permitted tr t P (EnqueueVia j mode arg)"
    and j: "j < length (ProducerTokens cl)"
  shows "\<exists>cl' M' th'. client_step tr (EnqueueVia j mode arg) cl = Some (Completes cl') \<and> client_inv tr k n t P M' th' cl'"
proof -
  note i = client_invD [OF inv]
  obtain a where a: "a \<in> active_explicit (Queue cl)" "ProducerNode (ProducerTokens cl ! j) = Some a"
    by (rule tokens_okD [OF i(2) j])
  obtain r c' where e: "EnqueueWithToken tr mode (ProducerTokens cl ! j) arg (Queue cl) = Some (r, c')"
    "r = Ret True \<longrightarrow> arg \<noteq> None" "cq_rel tr k n c' (if r = Ret True then M(a := M a @ [the arg]) else M) th"
    "same_shape (Queue cl) c'" using EnqueueWithToken_rel [OF i(1) a(2,1), of mode arg] by blast
  note addrs = same_shape_addrs [OF e(4)]
  let ?cl = "log_put r arg (cl\<lparr>Queue := c'\<rparr>)"
  have mem: "a \<in> set (node_addrs (Queue cl))" using a(1) active_explicit_mem by blast
  have "tokens_ok ?cl" using active_shape [OF e(4)] addrs by (intro tokens_ok_mono [OF i(2)]) auto
  moreover have "logs_ok (node_addrs (Queue cl)) (if r = Ret True then M(a := M a @ [the arg]) else M) th t P
      (if r = Ret True \<and> arg \<noteq> None then Puts cl @ [the arg] else Puts cl) (Gots cl)"
    using al e(2) by (intro logs_enqueue [OF i(3) mem]) auto
  ultimately have "client_inv tr k n t P (if r = Ret True then M(a := M a @ [the arg]) else M) th ?cl"
    using e(3) by (intro client_invI) (simp_all only: log_fields client_fields addrs)
  moreover have "client_step tr (EnqueueVia j mode arg) cl = Some (Completes ?cl)" using e(1) j by simp
  ultimately show ?thesis by blast
qed

lemma step_new_token:
  assumes inv: "client_inv tr k (Suc n) t P M th cl"
  shows "\<exists>cl' M' th'. client_step tr MakeProducerToken cl = Some (Completes cl') \<and> client_inv tr k n t P M' th' cl'"
proof -
  note i = client_invD [OF inv]
  let ?self = "length (ProducerTokens cl)"
  obtain a c' M' where e: "ProducerToken_new tr ?self (Queue cl) = Some (Completes (\<lparr>PT_Self = ?self, ProducerNode = Some a\<rparr>, c'))"
    "cq_rel tr k n c' M' th" "a \<notin> active_explicit (Queue cl)" "active_explicit c' = insert a (active_explicit (Queue cl))"
    "if a \<in> set (node_addrs (Queue cl)) then M' = M \<and> node_addrs c' = node_addrs (Queue cl)
       else M' = M(a := []) \<and> node_addrs c' = a # node_addrs (Queue cl)"
    using ProducerToken_new_rel [OF i(1), of ?self] by blast
  let ?cl = "cl\<lparr>Queue := c', ProducerTokens := ProducerTokens cl @ [\<lparr>PT_Self = ?self, ProducerNode = Some a\<rparr>]\<rparr>"
  have "set (node_addrs (Queue cl)) \<subseteq> set (node_addrs c')" using e(5) by (auto split: if_splits)
  then have "tokens_ok (cl\<lparr>Queue := c'\<rparr>)" using e(4) by (intro tokens_ok_mono [OF i(2)]) auto
  moreover have "Some a \<notin> ProducerNode ` set (ProducerTokens cl)" using i(2) e(3) by (force simp: tokens_ok_def)
  ultimately have "tokens_ok ?cl" using e(4) by (simp add: tokens_ok_def)
  moreover have "logs_ok (node_addrs c') M' th t P (Puts cl) (Gots cl)"
    using i(3) e(5) logs_new [OF i(3), of a] by (simp split: if_splits)
  ultimately have "client_inv tr k n t P M' th ?cl" using e(2) by (intro client_invI) simp_all
  moreover have "client_step tr MakeProducerToken cl = Some (Completes ?cl)" using e(1) by simp
  ultimately show ?thesis by blast
qed

lemma nth_removed: "distinct (List.map f xs) \<Longrightarrow> i < length xs \<Longrightarrow> x \<in> set (take i xs @ drop (Suc i) xs) \<Longrightarrow> x \<in> set xs \<and> f x \<noteq> f (xs ! i)"
proof -
  assume d: "distinct (List.map f xs)" and i: "i < length xs" and x: "x \<in> set (take i xs @ drop (Suc i) xs)"
  have "xs = take i xs @ xs ! i # drop (Suc i) xs" by (rule id_take_nth_drop [OF i])
  then have "distinct (List.map f (take i xs @ xs ! i # drop (Suc i) xs))" using d by simp
  with x have "f x \<noteq> f (xs ! i)" by auto (metis image_eqI)+
  with x show ?thesis using set_take_subset set_drop_subset by fastforce
qed

lemma distinct_removed: "distinct xs \<Longrightarrow> distinct (take i xs @ drop (Suc i) xs)"
  using set_take_disj_set_drop_if_distinct [of xs i "Suc i"] by simp

lemma step_drop_token:
  assumes inv: "client_inv tr k (Suc n) t P M th cl" and j: "j < length (ProducerTokens cl)"
  shows "\<exists>cl' M' th'. client_step tr (DropProducerToken j) cl = Some (Completes cl') \<and> client_inv tr k n t P M' th' cl'"
proof -
  note i = client_invD [OF inv]
  obtain a where a: "a \<in> active_explicit (Queue cl)" "ProducerNode (ProducerTokens cl ! j) = Some a"
    by (rule tokens_okD [OF i(2) j])
  obtain c' where e: "ProducerToken_destroy (ProducerTokens cl ! j) (Queue cl) = Some c'" "cq_rel tr k (Suc n) c' M th"
    "node_addrs c' = node_addrs (Queue cl)" "active_explicit c' = active_explicit (Queue cl) - {a}"
    using ProducerToken_destroy_rel [OF i(1) a(2,1)] by blast
  let ?ts = "take j (ProducerTokens cl) @ drop (Suc j) (ProducerTokens cl)"
  let ?cl = "cl\<lparr>Queue := c', ProducerTokens := ?ts\<rparr>"
  have d: "distinct (List.map ProducerNode (ProducerTokens cl))" using i by (simp add: tokens_ok_def)
  have "distinct (List.map ProducerNode ?ts)" using distinct_removed [OF d, of j] by (simp add: take_map drop_map)
  moreover have "\<exists>b \<in> active_explicit c'. ProducerNode p = Some b" if "p \<in> set ?ts" for p
    using nth_removed [OF d j that] i(2) a(2) e(4) unfolding tokens_ok_def by force
  ultimately have "tokens_ok ?cl" using i(2) e(3) token_ok_addrs [of _ "Queue cl" c'] by (simp add: tokens_ok_def del: set_append map_append)
  then have "client_inv tr k n t P M th ?cl" using i cq_rel_mono [OF e(2), of n] e(3) by (intro client_invI) simp_all
  moreover have "client_step tr (DropProducerToken j) cl = Some (Completes ?cl)" using e(1) j by simp
  ultimately show ?thesis by blast
qed

lemma step_new_consumer:
  assumes inv: "client_inv tr k (Suc n) t P M th cl"
  shows "\<exists>cl' M' th'. client_step tr MakeConsumerToken cl = Some (Completes cl') \<and> client_inv tr k n t P M' th' cl'"
proof -
  note i = client_invD [OF inv]
  define u where "u = fst (ConsumerToken_new (Queue cl))"
  let ?c = "(Queue cl)\<lparr>NextExplicitConsumerId := NextExplicitConsumerId (Queue cl) + 1\<rparr>"
  let ?cl = "cl\<lparr>Queue := ?c, ConsumerTokens := ConsumerTokens cl @ [u]\<rparr>"
  have "cq_rel tr k (Suc n) ?c M th" using i by (simp add: cq_rel_def cq_core_def)
  then have "cq_rel tr k n ?c M th" by (rule cq_rel_mono) simp
  moreover have addrs: "node_addrs ?c = node_addrs (Queue cl)" by (simp add: node_addrs_def)
  moreover have "tokens_ok ?cl"
    using i addrs by (auto simp: tokens_ok_def token_ok_def active_explicit_def u_def ConsumerToken_new_def)
  ultimately have "client_inv tr k n t P M th ?cl" using i by (intro client_invI) simp_all
  moreover have "client_step tr MakeConsumerToken cl = Some (Completes ?cl)" by (simp add: ConsumerToken_new_def u_def)
  ultimately show ?thesis by blast
qed

text \<open>What the three ways to take an element give: the oldest value of one producer, or nothing when the nodes are empty.\<close>

lemma logs_take:
  assumes logs: "logs_ok as M th t P (Puts cl) (Gots cl)"
    and take: "if \<forall>a \<in> set as. M a = [] then r = Ret None \<and> rel M else \<exists>a \<in> set as. r = handed_out (\<lambda>_. False) (M a) \<and> rel (M(a := tl (M a)))"
  shows "\<exists>M'. rel M' \<and> logs_ok as M' th t P (Puts cl) (Gots (log_got r cl))"
proof (cases "\<forall>a \<in> set as. M a = []")
  case True
  with take logs show ?thesis by (intro exI [of _ M]) (simp add: taken_def)
next
  case False
  with take obtain a where "a \<in> set as" "r = handed_out (\<lambda>_. False) (M a)" "rel (M(a := tl (M a)))" by auto
  with logs_dequeue [OF logs] show ?thesis by (intro exI [of _ "M(a := tl (M a))"]) simp
qed

lemma step_dequeue:
  assumes inv: "client_inv tr k (Suc n) t P M th cl"
  shows "\<exists>cl' M' th'. client_step tr Dequeue cl = Some (Completes cl') \<and> client_inv tr k n t P M' th' cl'"
proof -
  note i = client_invD [OF inv]
  obtain r c' where e: "ConcurrentQueue_TryDequeue tr (\<lambda>_. False) (Queue cl) = Some (r, c')" "same_shape (Queue cl) c'"
    "if \<forall>a \<in> set (node_addrs (Queue cl)). M a = [] then r = Ret None \<and> cq_rel tr k (Suc n) c' M th
     else \<exists>a \<in> set (node_addrs (Queue cl)). r = handed_out (\<lambda>_. False) (M a) \<and> cq_rel tr k (Suc n) c' (M(a := tl (M a))) th"
    using CQ_TryDequeue_rel [OF i(1), of "\<lambda>_. False"] i(1) by (cases "\<forall>a \<in> set (node_addrs (Queue cl)). M a = []") auto
  note addrs = same_shape_addrs [OF e(2)]
  obtain M' where M': "cq_rel tr k (Suc n) c' M' th" "logs_ok (node_addrs (Queue cl)) M' th t P (Puts cl) (Gots (log_got r cl))"
    using logs_take [OF i(3) e(3)] by blast
  let ?cl = "log_got r (cl\<lparr>Queue := c'\<rparr>)"
  have "tokens_ok ?cl" using active_shape [OF e(2)] addrs by (intro tokens_ok_mono [OF i(2)]) auto
  then have "client_inv tr k n t P M' th ?cl"
    using cq_rel_mono [OF M'(1), of n] M'(2) addrs by (intro client_invI) simp_all
  moreover have "client_step tr Dequeue cl = Some (Completes ?cl)" using e(1) by simp
  ultimately show ?thesis by blast
qed

lemma step_dequeue_token:
  assumes inv: "client_inv tr k (Suc n) t P M th cl" and j: "j < length (ConsumerTokens cl)"
  shows "\<exists>cl' M' th'. client_step tr (DequeueVia j) cl = Some (Completes cl') \<and> client_inv tr k n t P M' th' cl'"
proof -
  note i = client_invD [OF inv]
  let ?as = "node_addrs (Queue cl)"
  have "token_ok (ConsumerTokens cl ! j) (Queue cl)" using i(2) j by (simp add: tokens_ok_def)
  from TryDequeueWithToken_rel [OF i(1) this, of "\<lambda>_. False"] obtain r u c' where
    e: "TryDequeueWithToken tr (\<lambda>_. False) (ConsumerTokens cl ! j) (Queue cl) = Some (r, u, c')" "token_ok u c'" "same_nodes (Queue cl) c'"
    and take: "if \<forall>a \<in> set ?as. M a = [] then r = Ret None \<and> cq_rel tr k (Suc n) c' M th
     else \<exists>a \<in> set ?as. r = handed_out (\<lambda>_. False) (M a) \<and> cq_rel tr k (Suc n) c' (M(a := tl (M a))) th"
    by (cases "\<forall>a \<in> set ?as. M a = []") auto
  note same = same_nodes_addrs [OF e(3)] active_nodes [OF e(3)]
  obtain M' where M': "cq_rel tr k (Suc n) c' M' th" "logs_ok ?as M' th t P (Puts cl) (Gots (log_got r cl))"
    using logs_take [OF i(3) take] by blast
  let ?cl = "log_got r (cl\<lparr>Queue := c', ConsumerTokens := (ConsumerTokens cl)[j := u]\<rparr>)"
  have "token_ok u' c'" if "u' \<in> set ((ConsumerTokens cl)[j := u])" for u'
  proof -
    from that have "u' = u \<or> u' \<in> set (ConsumerTokens cl)" using set_update_subset_insert by fastforce
    then show ?thesis using e(2) same i(2) token_ok_addrs [of u' "Queue cl" c'] by (auto simp: tokens_ok_def)
  qed
  then have "tokens_ok ?cl" using i(2) same by (simp add: tokens_ok_def)
  then have "client_inv tr k n t P M' th ?cl"
    using cq_rel_mono [OF M'(1), of n] M'(2) same by (intro client_invI) simp_all
  moreover have "client_step tr (DequeueVia j) cl = Some (Completes ?cl)" using e(1) j by simp
  ultimately show ?thesis by blast
qed

lemma step_dequeue_from:
  assumes inv: "client_inv tr k (Suc n) t P M th cl" and j: "j < length (ProducerTokens cl)"
  shows "\<exists>cl' M' th'. client_step tr (DequeueFrom j) cl = Some (Completes cl') \<and> client_inv tr k n t P M' th' cl'"
proof -
  note i = client_invD [OF inv]
  obtain a where a: "a \<in> active_explicit (Queue cl)" "ProducerNode (ProducerTokens cl ! j) = Some a"
    by (rule tokens_okD [OF i(2) j])
  have mem: "a \<in> set (node_addrs (Queue cl))" using a(1) active_explicit_mem by blast
  obtain c' where e: "ProducerDequeue tr (\<lambda>_. False) a (Queue cl) = Some (handed_out (\<lambda>_. False) (M a), c')"
    "cq_rel tr k (Suc n) c' (M(a := tl (M a))) th" "same_shape (Queue cl) c'"
    using ProducerDequeue_rel [OF i(1) mem, of "\<lambda>_. False"] by blast
  note addrs = same_shape_addrs [OF e(3)]
  let ?cl = "log_got (handed_out (\<lambda>_. False) (M a)) (cl\<lparr>Queue := c'\<rparr>)"
  have "tokens_ok ?cl" using active_shape [OF e(3)] addrs by (intro tokens_ok_mono [OF i(2)]) auto
  then have "client_inv tr k n t P (M(a := tl (M a))) th ?cl"
    using cq_rel_mono [OF e(2), of n] logs_dequeue [OF i(3) mem] addrs by (intro client_invI) simp_all
  moreover have "client_step tr (DequeueFrom j) cl = Some (Completes ?cl)" using e(1) a(2) j by (simp add: TryDequeueFromProducer_def)
  ultimately show ?thesis by blast
qed

lemma client_inv_mono: "client_inv tr k n t P M th cl \<Longrightarrow> n' \<le> n \<Longrightarrow> client_inv tr k n' t P M th cl"
  using cq_rel_mono by (fastforce simp: client_inv_def)

lemma client_step_inv:
  assumes inv: "client_inv tr k (Suc n) t P M th cl" and al: "permitted tr t P act"
  shows "\<exists>cl' M' th'. client_step tr act cl = Some (Completes cl') \<and> client_inv tr k n t P M' th' cl'"
proof -
  have skip: ?thesis if "client_step tr act cl = Some (Completes cl)" using that client_inv_mono [OF inv, of n] by auto
  show ?thesis
  proof (cases act)
    case (EnqueueBy s mode arg)
    with step_enqueue [OF inv] al show ?thesis by simp
  next
    case MakeProducerToken
    with step_new_token [OF inv] show ?thesis by simp
  next
    case (EnqueueVia j mode arg)
    with step_enqueue_token [OF inv] al skip show ?thesis by (cases "j < length (ProducerTokens cl)") auto
  next
    case (DropProducerToken j)
    with step_drop_token [OF inv] skip show ?thesis by (cases "j < length (ProducerTokens cl)") auto
  next
    case MakeConsumerToken
    with step_new_consumer [OF inv] show ?thesis by simp
  next
    case Dequeue
    with step_dequeue [OF inv] show ?thesis by simp
  next
    case (DequeueVia j)
    with step_dequeue_token [OF inv] skip show ?thesis by (cases "j < length (ConsumerTokens cl)") auto
  next
    case (DequeueFrom j)
    with step_dequeue_from [OF inv] skip show ?thesis by (cases "j < length (ProducerTokens cl)") auto
  qed
qed

section \<open>Runs\<close>

lemma client_run_inv:
  assumes "client_inv tr k n t P M th cl" "length acts \<le> n" "list_all (permitted tr t P) acts"
  shows "\<exists>cl' M' th'. client_run tr acts cl = Some (Completes cl') \<and> client_inv tr k (n - length acts) t P M' th' cl'"
  using assms
proof (induction acts arbitrary: n M th cl)
  case (Cons act acts)
  then obtain n' where n: "n = Suc n'" by (cases n) auto
  with Cons.prems client_step_inv [of tr k n' t P M th cl act] obtain cl1 M1 th1 where
    s: "client_step tr act cl = Some (Completes cl1)" "client_inv tr k n' t P M1 th1 cl1" by auto
  with Cons.IH [OF s(2)] Cons.prems(2,3) n show ?case by simp
qed auto

lemma new_client_inv:
  assumes "\<forall>M. cq_rel tr k n c M Map.empty" "node_addrs c = []"
  shows "client_inv tr k n t P (\<lambda>_. []) Map.empty (new_client c)"
  using assms by (simp add: client_inv_def new_client_def tokens_ok_def logs_ok_def)

text \<open>
  Runs from a new queue with memory for \<open>n\<close> operations, in which every thread has an id; and in which, besides,
  only the thread \<open>t\<close> puts values with the property \<open>P\<close> in, without a token.
\<close>

definition new_queue :: "('k, 'a) traits \<Rightarrow> nat \<Rightarrow> ('k, 'a) cq \<Rightarrow> bool" where
  "new_queue tr n c \<longleftrightarrow> (\<exists>k self pe pi he hi hn. heaps_ok tr k n pe pi he hi hn
     \<and> ConcurrentQueue_new tr self pe pi (he, hi, hn) = Some (Inl c))"

fun has_thread :: "('k, 'a) traits \<Rightarrow> ('k, 'a) action \<Rightarrow> bool" where
  "has_thread tr (EnqueueBy s mode arg) \<longleftrightarrow> s \<noteq> invalid_thread_id tr"
| "has_thread tr _ \<longleftrightarrow> True"

lemma has_thread_allowed: "has_thread tr act \<Longrightarrow> permitted tr t (\<lambda>_. False) act"
  by (cases act) (simp_all split: option.splits)

lemma new_queue_run:
  assumes "new_queue tr n c" "length acts \<le> n" "list_all (permitted tr t P) acts"
  obtains cl k m M th where "client_run tr acts (new_client c) = Some (Completes cl)" "client_inv tr k m t P M th cl"
proof -
  obtain k self pe pi he hi hn where new: "heaps_ok tr k n pe pi he hi hn"
    "ConcurrentQueue_new tr self pe pi (he, hi, hn) = Some (Inl c)" using assms(1) by (auto simp: new_queue_def)
  from ConcurrentQueue_new_rel [OF new(1), of self] new(2)
  have "\<forall>M. cq_rel tr k n c M Map.empty" "node_addrs c = []" by auto
  from client_run_inv [OF new_client_inv [OF this] assms(2,3)] obtain cl M th where
    cl: "client_run tr acts (new_client c) = Some (Completes cl)" "client_inv tr k (n - length acts) t P M th cl" by blast
  show ?thesis by (rule that [OF cl])
qed

lemma new_queue_run_named:
  assumes "new_queue tr n c" "length acts \<le> n" "list_all (has_thread tr) acts"
  obtains cl k m t M th where "client_run tr acts (new_client c) = Some (Completes cl)"
    "client_inv tr k m t (\<lambda>_. False) M th cl"
proof -
  have "list_all (permitted tr undefined (\<lambda>_. False)) acts" using assms(3) by (auto simp: list_all_iff has_thread_allowed)
  from new_queue_run [OF assms(1,2) this] obtain cl k m M th where
    cl: "client_run tr acts (new_client c) = Some (Completes cl)" "client_inv tr k m undefined (\<lambda>_. False) M th cl" .
  show ?thesis by (rule that [OF cl])
qed

lemma new_queue_small:
  obtains c :: "(nat, 'a) cq" where "small_queue = Some c" "new_queue small_traits 10 c"
proof -
  have ok: "heaps_ok (small_traits :: (nat, 'a) traits) 1 10 0 0 (empty_heap 100) (empty_heap 100) (empty_heap 100)"
    unfolding heaps_ok_def traits_ok_def small_traits_def empty_heap_def by (auto intro!: exI [of _ 1])
  from ConcurrentQueue_new_rel [OF ok, of 0] obtain c :: "(nat, 'a) cq" where
    c: "ConcurrentQueue_new small_traits 0 0 0 (empty_heap 100, empty_heap 100, empty_heap 100) = Some (Inl c)" by blast
  with ok have "new_queue small_traits 10 c" unfolding new_queue_def by blast
  moreover have "small_queue = Some c" using c by (simp add: small_queue_def ConcurrentQueue_default_def small_traits_def)
  ultimately show ?thesis using that by blast
qed

lemma size_logs: "mset puts = mset gots + mset (concat (List.map M as)) \<Longrightarrow> length puts = length gots + (\<Sum>a \<leftarrow> as. length (M a))"
  by (drule arg_cong [where f = size]) (simp add: length_concat comp_def)

lemma client_inv_counts:
  assumes "client_inv tr k m t P M th cl"
  shows "mset (Gots cl) \<subseteq># mset (Puts cl)" "ConcurrentQueue_Size (Queue cl) = of_nat (length (Puts cl) - length (Gots cl))"
    "(\<exists>c'. ConcurrentQueue_TryDequeue tr (\<lambda>_. False) (Queue cl) = Some (Ret None, c')) \<longleftrightarrow> mset (Gots cl) = mset (Puts cl)"
proof -
  note i = client_invD [OF assms]
  have bag: "mset (Puts cl) = mset (Gots cl) + mset (concat (List.map M (node_addrs (Queue cl))))"
    using i(3) by (simp add: logs_ok_def)
  then show "mset (Gots cl) \<subseteq># mset (Puts cl)" by (simp only: mset_subset_eq_add_left)
  show "ConcurrentQueue_Size (Queue cl) = of_nat (length (Puts cl) - length (Gots cl))"
    using Size_rel [OF i(1)] size_logs [OF bag] by simp
  have "mset (Gots cl) = mset (Puts cl) \<longleftrightarrow> (\<forall>a \<in> set (node_addrs (Queue cl)). M a = [])" unfolding bag by simp
  moreover have "(\<exists>c'. ConcurrentQueue_TryDequeue tr (\<lambda>_. False) (Queue cl) = Some (Ret None, c'))
      \<longleftrightarrow> (\<forall>a \<in> set (node_addrs (Queue cl)). M a = [])"
  proof (cases "\<forall>a \<in> set (node_addrs (Queue cl)). M a = []")
    case True
    with CQ_TryDequeue_rel [OF i(1), of "\<lambda>_. False"] show ?thesis by simp
  next
    case False
    with CQ_TryDequeue_rel [OF i(1), of "\<lambda>_. False"] obtain a c' where "M a \<noteq> []"
      "ConcurrentQueue_TryDequeue tr (\<lambda>_. False) (Queue cl) = Some (handed_out (\<lambda>_. False) (M a), c')" by auto
    with False show ?thesis by simp
  qed
  ultimately show "(\<exists>c'. ConcurrentQueue_TryDequeue tr (\<lambda>_. False) (Queue cl) = Some (Ret None, c')) \<longleftrightarrow> mset (Gots cl) = mset (Puts cl)"
    by simp
qed

section \<open>Properties\<close>

text \<open>C19. Every sequence of operations on single items has a result: no thread's or token's operation meets an undefined
  value, runs for ever or ends the program while there is memory; and no two live producer tokens share a
  producer.\<close>

theorem ConcurrentQueue_runs_have_results:
  assumes "new_queue tr n c" "length acts \<le> n" "list_all (has_thread tr) acts"
  shows "\<exists>cl. client_run tr acts (new_client c) = Some (Completes cl)
    \<and> distinct (List.map ProducerNode (ProducerTokens cl)) \<and> list_all ProducerToken_Valid (ProducerTokens cl)"
proof -
  obtain cl k m t M th where cl: "client_run tr acts (new_client c) = Some (Completes cl)"
    "client_inv tr k m t (\<lambda>_. False) M th cl" by (rule new_queue_run_named [OF assms])
  with client_invD(2) [OF cl(2)] show ?thesis
    by (intro exI [of _ cl]) (auto simp: tokens_ok_def list_all_iff ProducerToken_Valid_def)
qed

theorem ConcurrentQueue_runs_have_results_witness:
  "\<exists>(c :: (nat, nat) cq) cl. small_queue = Some c \<and> client_run small_traits
     [MakeProducerToken, EnqueueVia 0 CanAlloc (Some 1), DropProducerToken 0, MakeProducerToken, MakeProducerToken, DequeueFrom 1]
     (new_client c) = Some (Completes cl) \<and> distinct (List.map ProducerNode (ProducerTokens cl))"
proof -
  obtain c :: "(nat, nat) cq" where c: "small_queue = Some c" "new_queue small_traits 10 c" by (rule new_queue_small)
  from ConcurrentQueue_runs_have_results [OF c(2), of "[MakeProducerToken, EnqueueVia 0 CanAlloc (Some 1), DropProducerToken 0,
      MakeProducerToken, MakeProducerToken, DequeueFrom 1]"] c(1) show ?thesis by auto
qed

text \<open>C6. No value is lost, doubled or made up: after any sequence of operations of any threads and tokens on single
  items, from the construction on, with memory for each and an assignment that does not throw, those handed out are, as a multiset, among those accepted; \<^verbatim>\<open>Size\<close> is the number of the others; and
  \<^verbatim>\<open>TryDequeue\<close> reports that there is nothing exactly when all have been handed out.\<close>

theorem ConcurrentQueue_runs_conserve:
  assumes "new_queue tr n c" "length acts \<le> n" "list_all (has_thread tr) acts"
  shows "\<exists>cl. client_run tr acts (new_client c) = Some (Completes cl) \<and> mset (Gots cl) \<subseteq># mset (Puts cl)
    \<and> ConcurrentQueue_Size (Queue cl) = of_nat (length (Puts cl) - length (Gots cl))
    \<and> ((\<exists>c'. ConcurrentQueue_TryDequeue tr (\<lambda>_. False) (Queue cl) = Some (Ret None, c')) \<longleftrightarrow> mset (Gots cl) = mset (Puts cl))"
proof -
  obtain cl k m t M th where cl: "client_run tr acts (new_client c) = Some (Completes cl)"
    "client_inv tr k m t (\<lambda>_. False) M th cl" by (rule new_queue_run_named [OF assms])
  with client_inv_counts [OF cl(2)] show ?thesis by blast
qed

theorem ConcurrentQueue_runs_conserve_witness:
  "\<exists>(c :: (nat, nat) cq) cl. small_queue = Some c \<and> client_run small_traits
     [EnqueueBy 3 CanAlloc (Some 1), MakeConsumerToken, EnqueueBy 4 CanAlloc (Some 2), DequeueVia 0, Dequeue]
     (new_client c) = Some (Completes cl) \<and> mset (Gots cl) \<subseteq># mset (Puts cl)"
proof -
  obtain c :: "(nat, nat) cq" where c: "small_queue = Some c" "new_queue small_traits 10 c" by (rule new_queue_small)
  have "list_all (has_thread (small_traits :: (nat, nat) traits)) [EnqueueBy 3 CanAlloc (Some 1), MakeConsumerToken,
      EnqueueBy 4 CanAlloc (Some 2), DequeueVia 0, Dequeue]" by (simp add: small_traits_def)
  from ConcurrentQueue_runs_conserve [OF c(2) _ this] c(1) show ?thesis by auto
qed

text \<open>C7. First in, first out for each producer, in the same sequences of operations: when one thread alone puts the values with a property in,
  without a token, those come out in the order in which it put them in, whoever takes them out and
  whatever the other threads do.\<close>

theorem ConcurrentQueue_runs_fifo:
  assumes "new_queue tr n c" "length acts \<le> n" "list_all (permitted tr t P) acts"
  shows "\<exists>cl waiting. client_run tr acts (new_client c) = Some (Completes cl)
    \<and> filter P (Puts cl) = filter P (Gots cl) @ waiting"
proof -
  obtain cl k m M th where cl: "client_run tr acts (new_client c) = Some (Completes cl)"
    "client_inv tr k m t P M th cl" by (rule new_queue_run [OF assms])
  with client_invD(3) [OF cl(2)] show ?thesis by (auto simp: logs_ok_def)
qed

theorem ConcurrentQueue_runs_fifo_witness:
  "\<exists>(c :: (nat, nat) cq) cl waiting. small_queue = Some c \<and> client_run small_traits
     [EnqueueBy 3 CanAlloc (Some 1), EnqueueBy 4 CanAlloc (Some 20), EnqueueBy 3 CanAlloc (Some 2), Dequeue, Dequeue]
     (new_client c) = Some (Completes cl)
     \<and> filter (\<lambda>v. v < 10) (Puts cl) = filter (\<lambda>v. v < 10) (Gots cl) @ waiting"
proof -
  obtain c :: "(nat, nat) cq" where c: "small_queue = Some c" "new_queue small_traits 10 c" by (rule new_queue_small)
  have "list_all (permitted (small_traits :: (nat, nat) traits) 3 (\<lambda>v. v < 10)) [EnqueueBy 3 CanAlloc (Some 1),
      EnqueueBy 4 CanAlloc (Some 20), EnqueueBy 3 CanAlloc (Some 2), Dequeue, Dequeue]" by (simp add: small_traits_def)
  from ConcurrentQueue_runs_fifo [OF c(2) _ this] c(1) show ?thesis by auto
qed

end
