(* ===== verification/Dequeue_Counters.thy ===== *)
theory Dequeue_Counters
  imports Fast_Queue Slow_Queue
begin

text \<open>
  The four counters of \<^verbatim>\<open>_QueueBase\<close> with many consumers at work at once: \<^verbatim>\<open>Dequeue\<close> and \<^verbatim>\<open>DequeueBulk\<close>, which
  \<^verbatim>\<open>FastQueue\<close> and \<^verbatim>\<open>SlowQueue\<close> share word for word up to the index they obtain, one access of a
  counter at a time, interleaved with each other and with the producer's stores to \<^verbatim>\<open>TailIndex\<close>.  Every
  consumer sees the accesses of the others in one order.  Shown is that each index is obtained once, and
  only after the producer has published it.
\<close>

section \<open>The steps\<close>

text \<open>A call of \<^verbatim>\<open>Dequeue\<close>, or of \<^verbatim>\<open>DequeueBulk\<close> with its \<^verbatim>\<open>MaxCount\<close>.\<close>

datatype request = One | Many size_t

text \<open>
  Where a consumer is, with the locals it has: \<^verbatim>\<open>FailedCount\<close>, the operands of the first comparison it has
  loaded, \<^verbatim>\<open>DesiredCount\<close>, \<^verbatim>\<open>AttemptsCount\<close> and \<^verbatim>\<open>ActualCount\<close>.  \<open>Obtained i n\<close>: the call has the \<open>n\<close> indices from \<open>i\<close>.
\<close>

datatype dequeue_pc = Idle | Begin request | Loaded request size_t
  | HaveAttempts request size_t size_t | HaveTail request size_t size_t
  | Attempt request size_t size_t | Recheck request size_t size_t size_t
  | GiveBack size_t size_t | Claim size_t | Fail size_t | Obtained size_t size_t

text \<open>The comparison: how much the call may ask for, \<open>None\<close> when the queue looks empty.\<close>

definition wanted :: "request \<Rightarrow> size_t \<Rightarrow> size_t \<Rightarrow> size_t \<Rightarrow> size_t option" where
  "wanted r FailedCount Attempts Tail = (case r of
     One \<Rightarrow> if CircularLessThan (Attempts - FailedCount) Tail then Some 1 else None
   | Many MaxCount \<Rightarrow>
      (let DesiredCount = Tail - (Attempts - FailedCount) in
       if CircularLessThan 0 DesiredCount then Some (min DesiredCount MaxCount) else None))"

text \<open>The second comparison, after the attempt has been counted.\<close>

definition recheck :: "request \<Rightarrow> size_t \<Rightarrow> size_t \<Rightarrow> size_t \<Rightarrow> size_t \<Rightarrow> dequeue_pc" where
  "recheck r FailedCount DesiredCount AttemptsCount Tail = (case r of
     One \<Rightarrow> if CircularLessThan (AttemptsCount - FailedCount) Tail then Claim 1 else Fail 1
   | Many _ \<Rightarrow>
      (let ActualCount = Tail - (AttemptsCount - FailedCount) in
       if CircularLessThan 0 ActualCount then
         (let ActualCount = min ActualCount DesiredCount in
          if ActualCount < DesiredCount then GiveBack DesiredCount ActualCount else Claim ActualCount)
       else Fail DesiredCount))"

text \<open>
  One step.  The order in which the operands of the first comparison are loaded is not specified: \<open>choice\<close>
  decides it.
\<close>

fun dequeue_step :: "bool \<Rightarrow> dequeue_pc \<Rightarrow> 'z qbase_scheme \<Rightarrow> dequeue_pc \<times> 'z qbase_scheme" where
  "dequeue_step choice (Begin r) q = (Loaded r (DequeueFailedCount q), q)"
| "dequeue_step choice (Loaded r f) q =
     (if choice then HaveAttempts r f (DequeueAttemptsCount q) else HaveTail r f (TailIndex q), q)"
| "dequeue_step choice (HaveAttempts r f a) q =
     (case wanted r f a (TailIndex q) of Some d \<Rightarrow> Attempt r f d | None \<Rightarrow> Obtained 0 0, q)"
| "dequeue_step choice (HaveTail r f t) q =
     (case wanted r f (DequeueAttemptsCount q) t of Some d \<Rightarrow> Attempt r f d | None \<Rightarrow> Obtained 0 0, q)"
| "dequeue_step choice (Attempt r f d) q =
     (Recheck r f d (DequeueAttemptsCount q), q\<lparr>DequeueAttemptsCount := DequeueAttemptsCount q + d\<rparr>)"
| "dequeue_step choice (Recheck r f d a) q = (recheck r f d a (TailIndex q), q)"
| "dequeue_step choice (GiveBack d n) q = (Claim n, q\<lparr>DequeueFailedCount := DequeueFailedCount q + (d - n)\<rparr>)"
| "dequeue_step choice (Claim n) q = (Obtained (HeadIndex q) n, q\<lparr>HeadIndex := HeadIndex q + n\<rparr>)"
| "dequeue_step choice (Fail d) q = (Obtained 0 0, q\<lparr>DequeueFailedCount := DequeueFailedCount q + d\<rparr>)"
| "dequeue_step choice Idle q = (Idle, q)"
| "dequeue_step choice (Obtained i n) q = (Obtained i n, q)"

text \<open>The counters, the consumers and the history of the indices obtained, as pairs of the first and their number.\<close>

record counters =
  Counters :: qbase
  Consumers :: "dequeue_pc list"
  Taken :: "(size_t \<times> size_t) list"

text \<open>
  What can happen: the producer stores a tail that is \<open>n\<close> further, a consumer that is not in a call begins one,
  a consumer makes a step.  No counter reaches \<open>2 ^ 63\<close> here; beyond that there is no value.
\<close>

datatype counter_event = Publish size_t | Call nat request | Step nat bool

definition in_call :: "dequeue_pc \<Rightarrow> bool" where
  "in_call p \<longleftrightarrow> (case p of Idle \<Rightarrow> False | Obtained _ _ \<Rightarrow> False | _ \<Rightarrow> True)"

definition fits :: "dequeue_pc \<Rightarrow> qbase \<Rightarrow> bool" where
  "fits p q \<longleftrightarrow> (case p of Attempt r f d \<Rightarrow> unat (DequeueAttemptsCount q) + unat d < 2 ^ 63 | _ \<Rightarrow> True)"

definition note_claim :: "dequeue_pc \<Rightarrow> qbase \<Rightarrow> (size_t \<times> size_t) list \<Rightarrow> (size_t \<times> size_t) list" where
  "note_claim p q taken = (case p of Claim n \<Rightarrow> taken @ [(HeadIndex q, n)] | _ \<Rightarrow> taken)"

fun counter_step :: "counter_event \<Rightarrow> counters \<Rightarrow> counters option" where
  "counter_step (Publish n) s =
     (if unat (TailIndex (Counters s)) + unat n < 2 ^ 63
      then Some (s\<lparr>Counters := Counters s\<lparr>TailIndex := TailIndex (Counters s) + n\<rparr>\<rparr>) else None)"
| "counter_step (Call i r) s =
     (if i < length (Consumers s) \<and> \<not> in_call (Consumers s ! i)
      then Some (s\<lparr>Consumers := (Consumers s)[i := Begin r]\<rparr>) else None)"
| "counter_step (Step i choice) s =
     (if i < length (Consumers s) \<and> fits (Consumers s ! i) (Counters s)
      then (let (p, q) = dequeue_step choice (Consumers s ! i) (Counters s) in
            Some (s\<lparr>Counters := q, Consumers := (Consumers s)[i := p],
              Taken := note_claim (Consumers s ! i) (Counters s) (Taken s)\<rparr>)) else None)"

fun counter_run :: "counter_event list \<Rightarrow> counters \<Rightarrow> counters option" where
  "counter_run [] s = Some s"
| "counter_run (e # es) s = Option.bind (counter_step e s) (counter_run es)"

definition new_counters :: "nat \<Rightarrow> counters" where
  "new_counters n = \<lparr>Counters = \<lparr>HeadIndex = 0, TailIndex = 0, DequeueAttemptsCount = 0, DequeueFailedCount = 0, TailBlock = None\<rparr>,
     Consumers = replicate n Idle, Taken = []\<rparr>"

section \<open>Alone\<close>

text \<open>A call with nothing in between is what the sequential models of the queues do with the counters.\<close>

fun steps :: "nat \<Rightarrow> dequeue_pc \<times> 'z qbase_scheme \<Rightarrow> dequeue_pc \<times> 'z qbase_scheme" where
  "steps 0 x = x"
| "steps (Suc n) x = steps n (dequeue_step True (fst x) (snd x))"

definition alone :: "request \<Rightarrow> 'z qbase_scheme \<Rightarrow> dequeue_pc \<times> 'z qbase_scheme" where
  "alone r q = steps 7 (Begin r, q)"

lemma steps_Suc [simp]: "steps (Suc n) (p, q) = steps n (dequeue_step True p q)"
  by simp

lemma alone_One:
  "alone One q = (if CircularLessThan (DequeueAttemptsCount q - DequeueFailedCount q) (TailIndex q)
     then (Obtained (HeadIndex q) 1, q\<lparr>DequeueAttemptsCount := DequeueAttemptsCount q + 1, HeadIndex := HeadIndex q + 1\<rparr>)
     else (Obtained 0 0, q))"
  by (simp add: alone_def numeral_eq_Suc wanted_def recheck_def)

lemma FastQueue_Dequeue_alone:
  assumes "FastQueue_Dequeue bs throws q s = Some (r, q', s')"
  shows "q' = snd (alone One q)"
  using assms by (auto simp: alone_One FastQueue_Dequeue_def Let_def bind_eq_Some_conv split: if_splits prod.splits)

lemma alone_Many:
  "alone (Many MaxCount) q =
    (let d = TailIndex q - (DequeueAttemptsCount q - DequeueFailedCount q); n = min d MaxCount in
     if CircularLessThan 0 d
     then (Obtained (HeadIndex q) n, q\<lparr>DequeueAttemptsCount := DequeueAttemptsCount q + n, HeadIndex := HeadIndex q + n\<rparr>)
     else (Obtained 0 0, q))"
  by (simp add: alone_def numeral_eq_Suc wanted_def recheck_def Let_def)

lemma FastQueue_DequeueBulk_alone:
  assumes "FastQueue_DequeueBulk bs throws MaxCount q s = Some (r, out, q', s')"
  shows "q' = snd (alone (Many MaxCount) q)"
  using assms by (auto simp: alone_Many FastQueue_DequeueBulk_def Let_def bind_eq_Some_conv split: if_splits prod.splits)

lemma Retire_counters: "Retire e Entry Block q s = Some (q', s') \<Longrightarrow> qbase.truncate q' = qbase.truncate q"
  by (auto simp: Retire_def store_Value_def qbase.truncate_def bind_eq_Some_conv split: if_splits prod.splits option.splits)

lemma SlowQueue_Dequeue_alone:
  assumes "SlowQueue_Dequeue bs throws q s = Some (r, q', s')"
  shows "qbase.truncate q' = qbase.truncate (snd (alone One q))"
  using assms by (auto simp: alone_One SlowQueue_Dequeue_def Let_def bind_eq_Some_conv split: if_splits prod.splits dest!: Retire_counters)

section \<open>The comparisons\<close>

lemma counter_diff:
  assumes "unat f \<le> unat a" "unat a < 2 ^ 63" "unat t < 2 ^ 63"
  shows "CircularLessThan (a - f) (t :: size_t) \<longleftrightarrow> unat a < unat t + unat f"
    "CircularLessThan 0 (t - (a - f)) \<longleftrightarrow> unat a < unat t + unat f"
    "unat a < unat t + unat f \<Longrightarrow> unat (t - (a - f)) = unat t + unat f - unat a"
proof -
  have eq: "unat (a - f) = unat a - unat f" using assms(1) by (simp add: unat_sub word_le_nat_alt)
  have "CircularLessThan (of_nat (unat (a - f)) :: size_t) (of_nat (unat t)) \<longleftrightarrow> unat (a - f) < unat t"
    using assms eq by (intro CircularLessThan_size_t) linarith+
  then show lt: "CircularLessThan (a - f) t \<longleftrightarrow> unat a < unat t + unat f" using eq assms(1) by auto
  have d: "unat (t - (a - f)) = unat t + unat f - unat a" if "unat a < unat t + unat f"
  proof -
    have "a - f \<le> t" using that eq assms(1) by (simp add: word_le_nat_alt)
    with eq assms(1) that show ?thesis by (simp add: unat_sub)
  qed
  then show "unat a < unat t + unat f \<Longrightarrow> unat (t - (a - f)) = unat t + unat f - unat a" .
  show "CircularLessThan 0 (t - (a - f)) \<longleftrightarrow> unat a < unat t + unat f"
    unfolding lt [symmetric] by (simp add: CircularLessThan_def)
qed

lemma recheck_cases:
  assumes "unat f \<le> unat a" "unat a < 2 ^ 63" "unat t < 2 ^ 63" "r = One \<longrightarrow> d = 1"
  shows "recheck r f d a t = Fail d \<or> (\<exists>n. n \<le> d \<and> unat a + unat n \<le> unat t + unat f
    \<and> (recheck r f d a t = GiveBack d n \<or> n = d \<and> recheck r f d a t = Claim d))"
proof (cases "unat a < unat t + unat f")
  case False
  then show ?thesis using counter_diff(1,2) [OF assms(1-3)] assms(4) by (cases r) (simp_all add: recheck_def Let_def)
next
  case True
  note c = counter_diff [OF assms(1-3)]
  show ?thesis
  proof (cases r)
    case One
    with True c assms(4) show ?thesis by (intro disjI2 exI [of _ 1]) (simp add: recheck_def)
  next
    case (Many m)
    let ?n = "min (t - (a - f)) d"
    have "unat ?n \<le> unat t + unat f - unat a" using c(3) [OF True] by (simp add: min_def word_le_nat_alt)
    with True have "unat a + unat ?n \<le> unat t + unat f" by linarith
    moreover have "?n = d" if "\<not> ?n < d" using that by (auto simp: min_def)
    ultimately show ?thesis using True c(2) Many
      by (intro disjI2 exI [of _ ?n]) (auto simp: recheck_def Let_def)
  qed
qed

section \<open>Tickets\<close>

text \<open>
  An attempt draws as many tickets as it asks for.  A ticket is open until the second comparison, which
  makes it won or lost.  \<open>lost st k\<close> counts the lost tickets before \<open>k\<close>.
\<close>

datatype ticket = Open | Won | Lost

definition count_of :: "ticket \<Rightarrow> (nat \<Rightarrow> ticket) \<Rightarrow> nat \<Rightarrow> nat" where
  "count_of x st k = card {j. j < k \<and> st j = x}"

lemma count_of_Suc: "count_of x st (Suc k) = count_of x st k + (if st k = x then 1 else 0)"
proof -
  have "{j. j < Suc k \<and> st j = x} = (if st k = x then insert k {j. j < k \<and> st j = x} else {j. j < k \<and> st j = x})"
    by (auto simp: less_Suc_eq)
  then show ?thesis by (simp add: count_of_def)
qed

lemma count_of_0 [simp]: "count_of x st 0 = 0"
  by (simp add: count_of_def)

lemma count_of_sum: "count_of Open st k + count_of Won st k + count_of Lost st k = k"
proof (induction k)
  case (Suc k)
  then show ?case by (cases "st k") (simp_all add: count_of_Suc)
qed simp

lemma count_of_cong: "(\<And>j. j < k \<Longrightarrow> st j = st' j) \<Longrightarrow> count_of x st k = count_of x st' k"
  unfolding count_of_def by (rule arg_cong [where f = card]) auto

lemma count_of_mono: "(\<And>j. j < k \<Longrightarrow> st j = x \<Longrightarrow> st' j = x) \<Longrightarrow> count_of x st k \<le> count_of x st' k"
  unfolding count_of_def by (rule card_mono) auto

lemma count_of_le: "k \<le> k' \<Longrightarrow> count_of x st k \<le> count_of x st k'"
  unfolding count_of_def by (rule card_mono) auto

text \<open>The tickets from \<open>a\<close> on are drawn, or decided: \<open>n\<close> of them won, the rest of the \<open>d\<close> lost.\<close>

definition decide :: "nat \<Rightarrow> nat \<Rightarrow> nat \<Rightarrow> (nat \<Rightarrow> ticket) \<Rightarrow> nat \<Rightarrow> ticket" where
  "decide a n d st = (\<lambda>j. if a \<le> j \<and> j < a + n then Won else if a \<le> j \<and> j < a + d then Lost else st j)"

lemma count_of_decide:
  assumes "n \<le> d" "a + d \<le> k" "\<forall>j. a \<le> j \<and> j < a + d \<longrightarrow> st j = Open"
  shows "count_of Won (decide a n d st) k = count_of Won st k + n"
    "count_of Lost (decide a n d st) k = count_of Lost st k + (d - n)"
proof -
  have "{j. j < k \<and> decide a n d st j = Won} = {j. j < k \<and> st j = Won} \<union> {a ..< a + n}"
    using assms by (auto simp: decide_def split: if_splits)
  moreover have "{j. j < k \<and> st j = Won} \<inter> {a ..< a + n} = {}" using assms by force
  ultimately show "count_of Won (decide a n d st) k = count_of Won st k + n"
    by (simp add: count_of_def card_Un_disjoint)
  have "{j. j < k \<and> decide a n d st j = Lost} = {j. j < k \<and> st j = Lost} \<union> {a + n ..< a + d}"
    using assms by (auto simp: decide_def split: if_splits)
  moreover have "{j. j < k \<and> st j = Lost} \<inter> {a + n ..< a + d} = {}" using assms by force
  ultimately show "count_of Lost (decide a n d st) k = count_of Lost st k + (d - n)"
    by (simp add: count_of_def card_Un_disjoint)
qed

text \<open>When no won ticket is too far ahead of the lost ones before it, there are at most \<open>T\<close> won ones.\<close>

lemma won_bound:
  assumes "\<forall>j < k. st j = Won \<longrightarrow> Suc j \<le> T + count_of Lost st j"
  shows "count_of Won st k \<le> T"
  using assms
proof (induction k)
  case (Suc k)
  show ?case
  proof (cases "st k = Won")
    case True
    then have "Suc k \<le> T + count_of Lost st k" using Suc.prems by simp
    with count_of_sum [of st k] True show ?thesis by (simp add: count_of_Suc)
  next
    case False
    with Suc show ?thesis by (simp add: count_of_Suc)
  qed
qed simp

section \<open>The invariant\<close>

text \<open>
  What a consumer still owes: indices to obtain, failures to count, open tickets.  \<open>tickets\<close> is the interval
  of its open ones.
\<close>

definition to_claim :: "dequeue_pc \<Rightarrow> nat" where
  "to_claim p = (case p of GiveBack d n \<Rightarrow> unat n | Claim n \<Rightarrow> unat n | _ \<Rightarrow> 0)"

definition to_fail :: "dequeue_pc \<Rightarrow> nat" where
  "to_fail p = (case p of GiveBack d n \<Rightarrow> unat d - unat n | Fail d \<Rightarrow> unat d | _ \<Rightarrow> 0)"

definition tickets :: "dequeue_pc \<Rightarrow> nat set" where
  "tickets p = (case p of Recheck r f d a \<Rightarrow> {unat a ..< unat a + unat d} | _ \<Rightarrow> {})"

definition pc_ok :: "(nat \<Rightarrow> ticket) \<Rightarrow> 'z qbase_scheme \<Rightarrow> dequeue_pc \<Rightarrow> bool" where
  "pc_ok st q p = (let A = unat (DequeueAttemptsCount q); F = unat (DequeueFailedCount q); T = unat (TailIndex q) in
    case p of
      Loaded r f \<Rightarrow> unat f \<le> F
    | HaveAttempts r f a \<Rightarrow> unat f \<le> F \<and> unat f \<le> unat a \<and> unat a \<le> A
    | HaveTail r f t \<Rightarrow> unat f \<le> F
    | Attempt r f d \<Rightarrow> unat f \<le> F \<and> (r = One \<longrightarrow> d = 1)
    | Recheck r f d a \<Rightarrow> unat a + unat d \<le> A \<and> unat f \<le> count_of Lost st (unat a) \<and> (r = One \<longrightarrow> d = 1)
        \<and> (\<forall>j \<in> tickets p. st j = Open)
    | GiveBack d n \<Rightarrow> n \<le> d
    | _ \<Rightarrow> True)"

definition range_of :: "size_t \<times> size_t \<Rightarrow> nat list" where
  "range_of x = [unat (fst x) ..< unat (fst x) + unat (snd x)]"

definition ghost_ok :: "(nat \<Rightarrow> ticket) \<Rightarrow> counters \<Rightarrow> bool" where
  "ghost_ok st s \<longleftrightarrow> (let q = Counters s; ps = Consumers s; A = unat (DequeueAttemptsCount q) in
     A < 2 ^ 63 \<and> unat (TailIndex q) < 2 ^ 63
     \<and> count_of Won st A = unat (HeadIndex q) + sum_list (List.map to_claim ps)
     \<and> count_of Lost st A = unat (DequeueFailedCount q) + sum_list (List.map to_fail ps)
     \<and> count_of Open st A = sum_list (List.map (card \<circ> tickets) ps)
     \<and> (\<forall>j < A. st j = Won \<longrightarrow> Suc j \<le> unat (TailIndex q) + count_of Lost st j)
     \<and> (\<forall>i < length ps. pc_ok st q (ps ! i))
     \<and> (\<forall>i < length ps. \<forall>j < length ps. i \<noteq> j \<longrightarrow> tickets (ps ! i) \<inter> tickets (ps ! j) = {})
     \<and> concat (List.map range_of (Taken s)) = [0 ..< unat (HeadIndex q)])"

lemma ghost_okD:
  assumes "ghost_ok st s"
  shows "unat (DequeueAttemptsCount (Counters s)) < 2 ^ 63" "unat (TailIndex (Counters s)) < 2 ^ 63"
    "count_of Won st (unat (DequeueAttemptsCount (Counters s))) = unat (HeadIndex (Counters s)) + sum_list (List.map to_claim (Consumers s))"
    "count_of Lost st (unat (DequeueAttemptsCount (Counters s))) = unat (DequeueFailedCount (Counters s)) + sum_list (List.map to_fail (Consumers s))"
    "count_of Open st (unat (DequeueAttemptsCount (Counters s))) = sum_list (List.map (card \<circ> tickets) (Consumers s))"
    "\<And>j. j < unat (DequeueAttemptsCount (Counters s)) \<Longrightarrow> st j = Won \<Longrightarrow> Suc j \<le> unat (TailIndex (Counters s)) + count_of Lost st j"
    "\<And>i. i < length (Consumers s) \<Longrightarrow> pc_ok st (Counters s) (Consumers s ! i)"
    "\<And>i j. i < length (Consumers s) \<Longrightarrow> j < length (Consumers s) \<Longrightarrow> i \<noteq> j \<Longrightarrow> tickets (Consumers s ! i) \<inter> tickets (Consumers s ! j) = {}"
    "concat (List.map range_of (Taken s)) = [0 ..< unat (HeadIndex (Counters s))]"
  using assms by (simp_all add: ghost_ok_def Let_def)

lemma sum_list_upd: "i < length ps \<Longrightarrow> sum_list (List.map f (ps[i := p])) + f (ps ! i) = sum_list (List.map f ps) + (f p :: nat)"
proof (induction ps arbitrary: i)
  case (Cons x xs)
  then show ?case by (cases i) (auto simp: add_ac)
qed simp

text \<open>What other consumers rely on: counters grow, lost tickets stay lost, open ones of others stay open.\<close>

lemma pc_ok_stable:
  assumes "pc_ok st q p" "unat (DequeueAttemptsCount q) \<le> unat (DequeueAttemptsCount q')"
    "unat (DequeueFailedCount q) \<le> unat (DequeueFailedCount q')"
    "\<And>k. k \<le> unat (DequeueAttemptsCount q) \<Longrightarrow> count_of Lost st k \<le> count_of Lost st' k" "\<And>j. j \<in> tickets p \<Longrightarrow> st j = Open \<Longrightarrow> st' j = Open"
  shows "pc_ok st' q' p"
proof (cases p)
  case (Recheck r f d a)
  with assms(1) have "unat a + unat d \<le> unat (DequeueAttemptsCount q)" "unat f \<le> count_of Lost st (unat a)"
    "r = One \<longrightarrow> d = 1" "\<forall>j \<in> tickets p. st j = Open" by (simp_all add: pc_ok_def Let_def)
  moreover from this(1) have "count_of Lost st (unat a) \<le> count_of Lost st' (unat a)" by (intro assms(4)) simp
  ultimately show ?thesis using assms(2,5) Recheck by (simp add: pc_ok_def Let_def)
qed (use assms(1-3) in \<open>auto simp: pc_ok_def Let_def\<close>)

text \<open>One consumer moves, the tickets and the counters change with it.\<close>

lemma ghost_okI:
  assumes g: "ghost_ok st s" and i: "i < length (Consumers s)"
    and q: "unat (DequeueAttemptsCount (Counters s)) \<le> unat (DequeueAttemptsCount q)" "unat (DequeueAttemptsCount q) < 2 ^ 63"
      "TailIndex q = TailIndex (Counters s)" "unat (DequeueFailedCount (Counters s)) \<le> unat (DequeueFailedCount q)"
    and won: "count_of Won st' (unat (DequeueAttemptsCount q)) + unat (HeadIndex (Counters s)) + to_claim (Consumers s ! i)
      = count_of Won st (unat (DequeueAttemptsCount (Counters s))) + unat (HeadIndex q) + to_claim p"
    and lost: "count_of Lost st' (unat (DequeueAttemptsCount q)) + unat (DequeueFailedCount (Counters s)) + to_fail (Consumers s ! i)
      = count_of Lost st (unat (DequeueAttemptsCount (Counters s))) + unat (DequeueFailedCount q) + to_fail p"
    and opened: "count_of Open st' (unat (DequeueAttemptsCount q)) + card (tickets (Consumers s ! i))
      = count_of Open st (unat (DequeueAttemptsCount (Counters s))) + card (tickets p)"
    and mono: "\<And>k. k \<le> unat (DequeueAttemptsCount (Counters s)) \<Longrightarrow> count_of Lost st k \<le> count_of Lost st' k"
    and bound: "\<And>j. j < unat (DequeueAttemptsCount q) \<Longrightarrow> st' j = Won \<Longrightarrow>
      (j < unat (DequeueAttemptsCount (Counters s)) \<and> st j = Won) \<or> Suc j \<le> unat (TailIndex q) + count_of Lost st' j"
    and p: "pc_ok st' q p"
    and others: "\<And>j k. j < length (Consumers s) \<Longrightarrow> j \<noteq> i \<Longrightarrow> k \<in> tickets (Consumers s ! j) \<Longrightarrow> st k = Open \<Longrightarrow> st' k = Open"
    and own: "\<And>j. j < length (Consumers s) \<Longrightarrow> j \<noteq> i \<Longrightarrow> tickets p \<inter> tickets (Consumers s ! j) = {}"
    and taken: "concat (List.map range_of taken) = [0 ..< unat (HeadIndex q)]"
  shows "ghost_ok st' \<lparr>Counters = q, Consumers = (Consumers s)[i := p], Taken = taken\<rparr>"
proof -
  note d = ghost_okD [OF g]
  note upd = sum_list_upd [OF i, where p = p]
  have "count_of Won st' (unat (DequeueAttemptsCount q)) = unat (HeadIndex q) + sum_list (List.map to_claim ((Consumers s)[i := p]))"
    using upd [of to_claim] won d(3) by linarith
  moreover have "count_of Lost st' (unat (DequeueAttemptsCount q)) = unat (DequeueFailedCount q) + sum_list (List.map to_fail ((Consumers s)[i := p]))"
    using upd [of to_fail] lost d(4) by linarith
  moreover have "count_of Open st' (unat (DequeueAttemptsCount q)) = sum_list (List.map (card \<circ> tickets) ((Consumers s)[i := p]))"
    using upd [of "card \<circ> tickets"] opened d(5) by simp
  moreover have "Suc j \<le> unat (TailIndex q) + count_of Lost st' j" if "j < unat (DequeueAttemptsCount q)" "st' j = Won" for j
    using bound [OF that]
  proof
    assume j: "j < unat (DequeueAttemptsCount (Counters s)) \<and> st j = Won"
    then have "count_of Lost st j \<le> count_of Lost st' j" by (intro mono) simp
    moreover have "Suc j \<le> unat (TailIndex q) + count_of Lost st j" using d(6) [of j] j q(3) by simp
    ultimately show ?thesis by linarith
  qed
  moreover have "pc_ok st' q ((Consumers s)[i := p] ! j)" if "j < length (Consumers s)" for j
  proof (cases "j = i")
    case True
    with p i show ?thesis by simp
  next
    case False
    have "pc_ok st' q (Consumers s ! j)" by (rule pc_ok_stable [OF d(7) [OF that] q(1,4) mono others [OF that False]])
    with False show ?thesis by simp
  qed
  moreover have "tickets ((Consumers s)[i := p] ! j) \<inter> tickets ((Consumers s)[i := p] ! k) = {}"
    if "j < length (Consumers s)" "k < length (Consumers s)" "j \<noteq> k" for j k
    using own [of j] own [of k] d(8) [of j k] that i by (cases "j = i"; cases "k = i") auto
  ultimately show ?thesis using q(2,3) d(2) taken by (simp add: ghost_ok_def Let_def)
qed

lemma ghost_quiet:
  assumes g: "ghost_ok st s" and i: "i < length (Consumers s)"
    and same: "to_claim p = to_claim (Consumers s ! i)" "to_fail p = to_fail (Consumers s ! i)"
      "tickets p = {}" "tickets (Consumers s ! i) = {}" and p: "pc_ok st (Counters s) p"
  shows "ghost_ok st (s\<lparr>Consumers := (Consumers s)[i := p]\<rparr>)"
proof -
  have "ghost_ok st \<lparr>Counters = Counters s, Consumers = (Consumers s)[i := p], Taken = Taken s\<rparr>"
    using ghost_okD [OF g] same p by (intro ghost_okI [OF g i]) simp_all
  then show ?thesis by (cases s) simp
qed

lemma ghost_publish:
  assumes g: "ghost_ok st s" and n: "unat (TailIndex (Counters s)) + unat n < 2 ^ 63"
  shows "ghost_ok st (s\<lparr>Counters := Counters s\<lparr>TailIndex := TailIndex (Counters s) + n\<rparr>\<rparr>)"
proof -
  have T: "unat (TailIndex (Counters s) + n) = unat (TailIndex (Counters s)) + unat n"
    using n by (intro unat_add_lem [THEN iffD1]) simp
  have "pc_ok st (Counters s\<lparr>TailIndex := t\<rparr>) p" if "pc_ok st (Counters s) p" for p t
    using that by (simp add: pc_ok_def Let_def)
  moreover have "Suc j \<le> unat (TailIndex (Counters s)) + unat n + count_of Lost st j"
    if "j < unat (DequeueAttemptsCount (Counters s))" "st j = Won" for j
    using ghost_okD(6) [OF g that] by linarith
  ultimately show ?thesis using ghost_okD [OF g] n T by (simp add: ghost_ok_def Let_def)
qed

lemma ghost_attempt:
  assumes g: "ghost_ok st s" and i: "i < length (Consumers s)" and pc: "Consumers s ! i = Attempt r f d"
    and fit: "unat (DequeueAttemptsCount (Counters s)) + unat d < 2 ^ 63"
  shows "\<exists>st'. ghost_ok st' \<lparr>Counters = Counters s\<lparr>DequeueAttemptsCount := DequeueAttemptsCount (Counters s) + d\<rparr>,
    Consumers = (Consumers s)[i := Recheck r f d (DequeueAttemptsCount (Counters s))], Taken = Taken s\<rparr>"
proof -
  note D = ghost_okD [OF g]
  let ?q = "Counters s" and ?A = "unat (DequeueAttemptsCount (Counters s))"
  have A: "unat (DequeueAttemptsCount ?q + d) = ?A + unat d"
    using fit by (intro unat_add_lem [THEN iffD1]) simp
  define st' where "st' = (\<lambda>j. if j < ?A then st j else Open)"
  have below: "count_of x st' k = count_of x st k" if "k \<le> ?A" for x k
    using that by (intro count_of_cong) (simp add: st'_def)
  have new: "st' (?A + m) = Open" for m by (simp add: st'_def)
  have above: "count_of Won st' (?A + m) = count_of Won st ?A \<and> count_of Lost st' (?A + m) = count_of Lost st ?A
      \<and> count_of Open st' (?A + m) = count_of Open st ?A + m" for m
    using new by (induction m) (simp_all add: below count_of_Suc)
  have ok: "unat f \<le> unat (DequeueFailedCount ?q)" "r = One \<longrightarrow> d = 1"
    using D(7) [OF i] pc by (simp_all add: pc_ok_def Let_def)
  have "unat f \<le> count_of Lost st ?A" using ok(1) D(4) by linarith
  then have p: "pc_ok st' (?q\<lparr>DequeueAttemptsCount := DequeueAttemptsCount ?q + d\<rparr>) (Recheck r f d (DequeueAttemptsCount ?q))"
    using A ok(2) below by (simp add: pc_ok_def Let_def tickets_def st'_def)
  have "tickets (Consumers s ! j) \<subseteq> {..< ?A}" if "j < length (Consumers s)" for j
    using D(7) [OF that] by (auto simp: pc_ok_def Let_def tickets_def split: dequeue_pc.splits)
  then have own: "tickets (Recheck r f d (DequeueAttemptsCount ?q)) \<inter> tickets (Consumers s ! j) = {}" if "j < length (Consumers s)" for j
    using that by (fastforce simp: tickets_def)
  have "ghost_ok st' \<lparr>Counters = ?q\<lparr>DequeueAttemptsCount := DequeueAttemptsCount ?q + d\<rparr>,
      Consumers = (Consumers s)[i := Recheck r f d (DequeueAttemptsCount ?q)], Taken = Taken s\<rparr>"
    using fit p own A above [of "unat d"] below D(9)
    by (intro ghost_okI [OF g i]) (auto simp: pc to_claim_def to_fail_def st'_def tickets_def split: if_splits)
  then show ?thesis by blast
qed

lemma ghost_recheck:
  assumes g: "ghost_ok st s" and i: "i < length (Consumers s)" and pc: "Consumers s ! i = Recheck r f d a"
  shows "\<exists>st'. ghost_ok st' \<lparr>Counters = Counters s, Consumers = (Consumers s)[i := recheck r f d a (TailIndex (Counters s))],
    Taken = Taken s\<rparr>"
proof -
  note D = ghost_okD [OF g]
  let ?q = "Counters s" and ?p = "recheck r f d a (TailIndex (Counters s))"
  let ?A = "unat (DequeueAttemptsCount ?q)"
  have ok: "unat a + unat d \<le> ?A" "unat f \<le> count_of Lost st (unat a)" "r = One \<longrightarrow> d = 1"
    and opened: "\<forall>j. unat a \<le> j \<and> j < unat a + unat d \<longrightarrow> st j = Open"
    using D(7) [OF i] pc by (simp_all add: pc_ok_def Let_def tickets_def)
  have fa: "unat f \<le> unat a" using ok(2) count_of_sum [of st "unat a"] by linarith
  have a: "unat a < 2 ^ 63" using ok(1) D(1) by linarith
  have split: "\<exists>n :: size_t. unat n \<le> unat d \<and> to_claim ?p = unat n \<and> to_fail ?p = unat d - unat n \<and> tickets ?p = {}
      \<and> pc_ok (decide (unat a) (unat n) (unat d) st) ?q ?p \<and> (unat n = 0 \<or> unat a + unat n \<le> unat (TailIndex ?q) + unat f)"
    using recheck_cases [OF fa a D(2) ok(3)]
  proof (elim disjE exE conjE)
    assume "?p = Fail d"
    then show ?thesis by (intro exI [of _ 0]) (simp add: to_claim_def to_fail_def tickets_def pc_ok_def Let_def)
  next
    fix n assume "n \<le> d" "unat a + unat n \<le> unat (TailIndex ?q) + unat f" "?p = GiveBack d n"
    then show ?thesis
      by (intro exI [of _ n]) (simp add: to_claim_def to_fail_def tickets_def pc_ok_def Let_def word_le_nat_alt)
  next
    fix n assume "n \<le> d" "unat a + unat n \<le> unat (TailIndex ?q) + unat f" "n = d" "?p = Claim d"
    then show ?thesis
      by (intro exI [of _ n]) (simp add: to_claim_def to_fail_def tickets_def pc_ok_def Let_def)
  qed
  then obtain n :: size_t where n: "unat n \<le> unat d" "to_claim ?p = unat n" "to_fail ?p = unat d - unat n" "tickets ?p = {}"
    "pc_ok (decide (unat a) (unat n) (unat d) st) ?q ?p" "unat n = 0 \<or> unat a + unat n \<le> unat (TailIndex ?q) + unat f" by blast
  let ?st = "decide (unat a) (unat n) (unat d) st"
  note c = count_of_decide [OF n(1) ok(1) opened]
  have card: "card (tickets (Consumers s ! i)) = unat d" by (simp add: pc tickets_def)
  have sum: "count_of Open ?st ?A + unat d = count_of Open st ?A"
    using c n(1) count_of_sum [of st ?A] count_of_sum [of ?st ?A] by linarith
  have mono: "count_of Lost st k \<le> count_of Lost ?st k" for k
    using opened n(1) by (intro count_of_mono) (auto simp: decide_def)
  have bound: "j < ?A \<and> st j = Won \<or> Suc j \<le> unat (TailIndex ?q) + count_of Lost ?st j" if "j < ?A" "?st j = Won" for j
  proof (cases "unat a \<le> j \<and> j < unat a + unat n")
    case True
    then have "Suc j \<le> unat (TailIndex ?q) + unat f" using n(6) by auto
    moreover have "count_of Lost st (unat a) \<le> count_of Lost st j" using True by (intro count_of_le) simp
    ultimately have "Suc j \<le> unat (TailIndex ?q) + count_of Lost ?st j" using ok(2) mono [of j] by linarith
    then show ?thesis ..
  next
    case False
    with that show ?thesis by (auto simp: decide_def split: if_splits)
  qed
  have others: "?st k = Open" if "j < length (Consumers s)" "j \<noteq> i" "k \<in> tickets (Consumers s ! j)" "st k = Open" for j k
  proof -
    have "k \<notin> tickets (Consumers s ! i)" using D(8) [OF that(1) i that(2)] that(3) by blast
    with n(1) that(4) show ?thesis by (auto simp: pc tickets_def decide_def)
  qed
  have "ghost_ok ?st \<lparr>Counters = ?q, Consumers = (Consumers s)[i := ?p], Taken = Taken s\<rparr>"
  proof (rule ghost_okI [OF g i _ _ _ _ _ _ _ mono bound n(5) others _ D(9)])
    show "count_of Won ?st ?A + unat (HeadIndex ?q) + to_claim (Consumers s ! i) = count_of Won st ?A + unat (HeadIndex ?q) + to_claim ?p"
      using c(1) n(2) by (simp add: pc to_claim_def)
    show "count_of Lost ?st ?A + unat (DequeueFailedCount ?q) + to_fail (Consumers s ! i)
        = count_of Lost st ?A + unat (DequeueFailedCount ?q) + to_fail ?p"
      using c(2) n(3) by (simp add: pc to_fail_def)
    show "count_of Open ?st ?A + card (tickets (Consumers s ! i)) = count_of Open st ?A + card (tickets ?p)"
      using sum card n(4) by simp
  qed (use D(1) n(4) in simp_all)
  then show ?thesis by blast
qed

lemma ghost_head:
  assumes g: "ghost_ok st s" and i: "i < length (Consumers s)"
  shows "unat (HeadIndex (Counters s)) + to_claim (Consumers s ! i) \<le> unat (TailIndex (Counters s))"
proof -
  note D = ghost_okD [OF g]
  have "count_of Won st (unat (DequeueAttemptsCount (Counters s))) \<le> unat (TailIndex (Counters s))"
    using D(6) by (intro won_bound) simp
  moreover have "to_claim (Consumers s ! i) \<le> sum_list (List.map to_claim (Consumers s))"
    using i by (intro member_le_sum_list) simp_all
  ultimately show ?thesis using D(3) by linarith
qed

lemma ghost_failed:
  assumes g: "ghost_ok st s" and i: "i < length (Consumers s)"
  shows "unat (DequeueFailedCount (Counters s)) + to_fail (Consumers s ! i) < 2 ^ 63"
proof -
  note D = ghost_okD [OF g]
  have "count_of Lost st (unat (DequeueAttemptsCount (Counters s))) \<le> unat (DequeueAttemptsCount (Counters s))"
    using count_of_sum [of st "unat (DequeueAttemptsCount (Counters s))"] by linarith
  moreover have "to_fail (Consumers s ! i) \<le> sum_list (List.map to_fail (Consumers s))"
    using i by (intro member_le_sum_list) simp_all
  ultimately show ?thesis using D(1,4) by linarith
qed

lemma ghost_claim:
  assumes g: "ghost_ok st s" and i: "i < length (Consumers s)" and pc: "Consumers s ! i = Claim n"
  shows "ghost_ok st \<lparr>Counters = Counters s\<lparr>HeadIndex := HeadIndex (Counters s) + n\<rparr>,
    Consumers = (Consumers s)[i := Obtained (HeadIndex (Counters s)) n], Taken = Taken s @ [(HeadIndex (Counters s), n)]\<rparr>"
proof -
  note D = ghost_okD [OF g]
  have H: "unat (HeadIndex (Counters s) + n) = unat (HeadIndex (Counters s)) + unat n"
    using ghost_head [OF g i] D(2) pc by (intro unat_add_lem [THEN iffD1]) (simp add: to_claim_def)
  have taken: "concat (List.map range_of (Taken s @ [(HeadIndex (Counters s), n)]))
      = [0 ..< unat (HeadIndex (Counters s\<lparr>HeadIndex := HeadIndex (Counters s) + n\<rparr>))]"
  proof -
    have "[0 ..< unat (HeadIndex (Counters s)) + unat n] = [0 ..< unat (HeadIndex (Counters s))]
        @ [unat (HeadIndex (Counters s)) ..< unat (HeadIndex (Counters s)) + unat n]" by (rule upt_add_eq_append) simp
    with D(9) H show ?thesis by (simp add: range_of_def)
  qed
  have H': "unat (HeadIndex (Counters s\<lparr>HeadIndex := HeadIndex (Counters s) + n\<rparr>)) = unat (HeadIndex (Counters s)) + unat n"
    using H by simp
  show ?thesis
  proof (rule ghost_okI [OF g i _ _ _ _ _ _ _ _ _ _ _ _ taken])
    show "count_of Won st (unat (DequeueAttemptsCount (Counters s\<lparr>HeadIndex := HeadIndex (Counters s) + n\<rparr>)))
        + unat (HeadIndex (Counters s)) + to_claim (Consumers s ! i)
      = count_of Won st (unat (DequeueAttemptsCount (Counters s)))
        + unat (HeadIndex (Counters s\<lparr>HeadIndex := HeadIndex (Counters s) + n\<rparr>)) + to_claim (Obtained (HeadIndex (Counters s)) n)"
      unfolding H' by (simp add: pc to_claim_def)
  qed (use D(1) in \<open>simp_all add: pc to_fail_def tickets_def pc_ok_def\<close>)
qed

lemma ghost_fail:
  assumes g: "ghost_ok st s" and i: "i < length (Consumers s)" and pc: "to_fail (Consumers s ! i) = unat m"
    and p: "to_claim p = to_claim (Consumers s ! i)" "to_fail p = 0" "tickets p = {}" "tickets (Consumers s ! i) = {}"
      "pc_ok st (Counters s\<lparr>DequeueFailedCount := DequeueFailedCount (Counters s) + m\<rparr>) p"
  shows "ghost_ok st \<lparr>Counters = Counters s\<lparr>DequeueFailedCount := DequeueFailedCount (Counters s) + m\<rparr>,
    Consumers = (Consumers s)[i := p], Taken = Taken s\<rparr>"
proof -
  note D = ghost_okD [OF g]
  have F: "unat (DequeueFailedCount (Counters s) + m) = unat (DequeueFailedCount (Counters s)) + unat m"
    using ghost_failed [OF g i] pc by (intro unat_add_lem [THEN iffD1]) simp
  show ?thesis using D(1,9) F pc p by (intro ghost_okI [OF g i]) simp_all
qed

lemma wanted_One: "wanted One f a t = Some d \<Longrightarrow> d = 1"
  by (simp add: wanted_def split: if_splits)

lemma counter_step_ghost:
  assumes g: "ghost_ok st s" and step: "counter_step e s = Some s'"
  shows "\<exists>st'. ghost_ok st' s'"
proof (cases e)
  case (Publish n)
  with step ghost_publish [OF g, of n] show ?thesis by (auto split: if_splits)
next
  case (Call i r)
  with step have i: "i < length (Consumers s)" "\<not> in_call (Consumers s ! i)" "s' = s\<lparr>Consumers := (Consumers s)[i := Begin r]\<rparr>"
    by (auto split: if_splits)
  from i(2) have "ghost_ok st s'" unfolding i(3)
    by (intro ghost_quiet [OF g i(1)]) (auto simp: in_call_def to_claim_def to_fail_def tickets_def pc_ok_def split: dequeue_pc.splits)
  then show ?thesis by blast
next
  case (Step i choice)
  note D = ghost_okD [OF g]
  let ?q = "Counters s"
  from Step step have i: "i < length (Consumers s)" and fit: "fits (Consumers s ! i) ?q"
    and s': "s' = s\<lparr>Counters := snd (dequeue_step choice (Consumers s ! i) ?q),
      Consumers := (Consumers s)[i := fst (dequeue_step choice (Consumers s ! i) ?q)], Taken := note_claim (Consumers s ! i) ?q (Taken s)\<rparr>"
    by (auto split: if_splits prod.splits)
  have s'_eq: "s' = \<lparr>Counters = snd (dequeue_step choice (Consumers s ! i) ?q),
      Consumers = (Consumers s)[i := fst (dequeue_step choice (Consumers s ! i) ?q)], Taken = note_claim (Consumers s ! i) ?q (Taken s)\<rparr>"
    unfolding s' by (cases s) simp
  have FA: "unat (DequeueFailedCount ?q) \<le> unat (DequeueAttemptsCount ?q)"
    using D(4) count_of_sum [of st "unat (DequeueAttemptsCount ?q)"] by linarith
  note ok = D(7) [OF i]
  note quiet = ghost_quiet [OF g i]
  note w = to_claim_def to_fail_def tickets_def pc_ok_def Let_def note_claim_def
  show ?thesis
  proof (cases "Consumers s ! i")
    case (Attempt r f d)
    then show ?thesis using ghost_attempt [OF g i Attempt] fit by (simp add: s'_eq fits_def note_claim_def)
  next
    case (Recheck r f d a)
    then show ?thesis using ghost_recheck [OF g i Recheck] by (simp add: s'_eq note_claim_def)
  next
    case (GiveBack d n)
    then have "n \<le> d" using ok by (simp add: w)
    then have "unat (d - n) = unat d - unat n" by (simp add: unat_sub)
    with GiveBack show ?thesis using ghost_fail [OF g i, of "d - n" "Claim n"] by (auto simp: s'_eq w)
  next
    case (Claim n)
    then show ?thesis using ghost_claim [OF g i Claim] by (auto simp: s'_eq note_claim_def)
  next
    case (Fail d)
    then show ?thesis using ghost_fail [OF g i, of d "Obtained 0 0"] by (auto simp: s'_eq w)
  next
    case Idle
    with g show ?thesis unfolding s' by (auto simp: note_claim_def list_update_id [of "Consumers s" i, unfolded Idle])
  next
    case (Obtained j n)
    with g show ?thesis unfolding s' by (auto simp: note_claim_def list_update_id [of "Consumers s" i, unfolded Obtained])
  next
    case (Begin r)
    then show ?thesis using quiet [of "Loaded r (DequeueFailedCount ?q)"] unfolding s' by (auto simp: w)
  next
    case (Loaded r f)
    then show ?thesis
      using ok FA quiet [of "HaveAttempts r f (DequeueAttemptsCount ?q)"] quiet [of "HaveTail r f (TailIndex ?q)"] unfolding s' by (auto simp: w)
  next
    case (HaveAttempts r f a)
    note ok = ok [unfolded HaveAttempts]
    show ?thesis
    proof (cases "wanted r f a (TailIndex ?q)")
      case None
      with HaveAttempts show ?thesis using quiet [of "Obtained 0 0"] unfolding s' by (auto simp: w)
    next
      case (Some d)
      have "r = One \<longrightarrow> d = 1" using Some wanted_One by blast
      with ok have "pc_ok st ?q (Attempt r f d)" by (simp add: pc_ok_def Let_def)
      with Some HaveAttempts show ?thesis using quiet [of "Attempt r f d"] unfolding s' by (auto simp: w)
    qed
  next
    case (HaveTail r f t)
    note ok = ok [unfolded HaveTail]
    show ?thesis
    proof (cases "wanted r f (DequeueAttemptsCount ?q) t")
      case None
      with HaveTail show ?thesis using quiet [of "Obtained 0 0"] unfolding s' by (auto simp: w)
    next
      case (Some d)
      have "r = One \<longrightarrow> d = 1" using Some wanted_One by blast
      with ok have "pc_ok st ?q (Attempt r f d)" by (simp add: pc_ok_def Let_def)
      with Some HaveTail show ?thesis using quiet [of "Attempt r f d"] unfolding s' by (auto simp: w)
    qed
  qed
qed

lemma counter_run_ghost: "ghost_ok st s \<Longrightarrow> counter_run es s = Some s' \<Longrightarrow> \<exists>st'. ghost_ok st' s'"
proof (induction es arbitrary: st s)
  case (Cons e es)
  then obtain s1 where s1: "counter_step e s = Some s1" "counter_run es s1 = Some s'" by (auto simp: bind_eq_Some_conv)
  from counter_step_ghost [OF Cons.prems(1) s1(1)] obtain st1 where "ghost_ok st1 s1" ..
  from Cons.IH [OF this s1(2)] show ?case .
qed auto

lemma new_counters_ghost: "ghost_ok (\<lambda>_. Open) (new_counters n)"
  by (simp add: ghost_ok_def new_counters_def sum_list_0 to_claim_def to_fail_def tickets_def pc_ok_def comp_def sum_list_replicate)

section \<open>Properties\<close>

lemma counter_run_bounds:
  assumes "counter_run es (new_counters n) = Some s"
  shows "concat (List.map range_of (Taken s)) = [0 ..< unat (HeadIndex (Counters s))]"
    "unat (HeadIndex (Counters s)) \<le> unat (TailIndex (Counters s))"
    "unat (TailIndex (Counters s)) < 2 ^ 63" "unat (DequeueAttemptsCount (Counters s)) < 2 ^ 63"
    "unat (HeadIndex (Counters s)) + unat (DequeueFailedCount (Counters s)) \<le> unat (DequeueAttemptsCount (Counters s))"
    "\<forall>p \<in> set (Consumers s). \<not> in_call p \<Longrightarrow>
      unat (DequeueAttemptsCount (Counters s)) = unat (HeadIndex (Counters s)) + unat (DequeueFailedCount (Counters s))"
proof -
  obtain st where g: "ghost_ok st s" using counter_run_ghost [OF new_counters_ghost assms] by blast
  note D = ghost_okD [OF g]
  show "concat (List.map range_of (Taken s)) = [0 ..< unat (HeadIndex (Counters s))]" by (rule D(9))
  have "count_of Won st (unat (DequeueAttemptsCount (Counters s))) \<le> unat (TailIndex (Counters s))"
    using D(6) by (intro won_bound) simp
  then show "unat (HeadIndex (Counters s)) \<le> unat (TailIndex (Counters s))" using D(3) by linarith
  show "unat (TailIndex (Counters s)) < 2 ^ 63" "unat (DequeueAttemptsCount (Counters s)) < 2 ^ 63" by (rule D(2), rule D(1))
  note sum = count_of_sum [of st "unat (DequeueAttemptsCount (Counters s))"]
  show "unat (HeadIndex (Counters s)) + unat (DequeueFailedCount (Counters s)) \<le> unat (DequeueAttemptsCount (Counters s))"
    using sum D(3,4) by linarith
  assume "\<forall>p \<in> set (Consumers s). \<not> in_call p"
  then have none: "to_claim p = 0 \<and> to_fail p = 0 \<and> card (tickets p) = 0" if "p \<in> set (Consumers s)" for p
    using that by (cases p) (auto simp: in_call_def to_claim_def to_fail_def tickets_def)
  have "sum_list (List.map to_claim (Consumers s)) = 0" "sum_list (List.map to_fail (Consumers s)) = 0"
    "sum_list (List.map (card \<circ> tickets) (Consumers s)) = 0" using none by (simp_all add: sum_list_eq_0_iff)
  with sum D(3,4,5) show "unat (DequeueAttemptsCount (Counters s)) = unat (HeadIndex (Counters s)) + unat (DequeueFailedCount (Counters s))"
    by linarith
qed

text \<open>C10. However the accesses of any number of consumers, in single and bulk dequeues, and of the producer
  interleave, as long as no counter reaches 2^63: the indices obtained, in the order in which they were, are 0, 1, 2 and so on, each
  once, and all of them lie below \<^verbatim>\<open>TailIndex\<close>.\<close>

theorem dequeue_indices_unique:
  assumes "counter_run es (new_counters n) = Some s"
  shows "concat (List.map range_of (Taken s)) = [0 ..< unat (HeadIndex (Counters s))]
    \<and> unat (HeadIndex (Counters s)) \<le> unat (TailIndex (Counters s))"
  using counter_run_bounds(1,2) [OF assms] by blast

text \<open>Two consumers pass the first comparison for the only element; the second comparison turns one away.\<close>

definition race :: "counter_event list" where
  "race = [Publish 1, Call 0 One, Call 1 (Many 5), Step 0 True, Step 1 True, Step 0 True, Step 1 False, Step 0 True, Step 1 True,
     Step 0 True, Step 1 True, Step 1 True, Step 0 True, Step 1 True, Step 0 True]"

lemma race_result:
  "map_option (\<lambda>s. (Taken s, Consumers s)) (counter_run race (new_counters 2)) = Some ([(0, 1)], [Obtained 0 1, Obtained 0 0])"
proof -
  have two: "replicate 2 Idle = [Idle, Idle]" by (simp add: numeral_2_eq_2)
  show ?thesis
    by (simp add: race_def new_counters_def two wanted_def recheck_def CircularLessThan_def in_call_def fits_def note_claim_def Let_def min_def)
qed

theorem dequeue_indices_unique_witness:
  "\<exists>s. counter_run race (new_counters 2) = Some s \<and> Taken s = [(0, 1)] \<and> unat (HeadIndex (Counters s)) = 1
    \<and> unat (HeadIndex (Counters s)) \<le> unat (TailIndex (Counters s))"
proof -
  obtain s where s: "counter_run race (new_counters 2) = Some s" "Taken s = [(0, 1)]" using race_result by auto
  from dequeue_indices_unique [OF s(1)] s(2) have "[0 ..< unat (HeadIndex (Counters s))] = [0]"
    "unat (HeadIndex (Counters s)) \<le> unat (TailIndex (Counters s))" by (simp_all add: range_of_def)
  moreover from this(1) have "unat (HeadIndex (Counters s)) = 1" by (metis length_upt length_Cons list.size(3) One_nat_def diff_zero)
  ultimately show ?thesis using s by blast
qed

text \<open>C13. No index is lost to the race, as long as no counter reaches 2^63: once the calls are over, the attempts are the indices obtained and the
  failures counted, and the next call of \<^verbatim>\<open>Dequeue\<close> obtains the next index exactly when one is published.\<close>

theorem dequeue_counters_settle:
  assumes "counter_run es (new_counters n) = Some s" "\<forall>p \<in> set (Consumers s). \<not> in_call p"
  shows "DequeueAttemptsCount (Counters s) = HeadIndex (Counters s) + DequeueFailedCount (Counters s)
    \<and> fst (alone One (Counters s)) = (if HeadIndex (Counters s) < TailIndex (Counters s) then Obtained (HeadIndex (Counters s)) 1
        else Obtained 0 0)"
proof -
  note b = counter_run_bounds [OF assms(1)]
  note eq = b(6) [OF assms(2)]
  have "unat (HeadIndex (Counters s) + DequeueFailedCount (Counters s)) = unat (HeadIndex (Counters s)) + unat (DequeueFailedCount (Counters s))"
    using b(4,5) by (intro unat_add_lem [THEN iffD1]) simp
  then have sum: "DequeueAttemptsCount (Counters s) = HeadIndex (Counters s) + DequeueFailedCount (Counters s)"
    using eq by (simp add: word_unat_eq_iff)
  have "CircularLessThan (DequeueAttemptsCount (Counters s) - DequeueFailedCount (Counters s)) (TailIndex (Counters s))
      \<longleftrightarrow> HeadIndex (Counters s) < TailIndex (Counters s)"
    using counter_diff(1) [of "DequeueFailedCount (Counters s)" "DequeueAttemptsCount (Counters s)" "TailIndex (Counters s)"] b(3,4) eq
    by (simp add: word_less_nat_alt)
  with sum show ?thesis by (simp add: alone_One)
qed

theorem dequeue_counters_settle_witness:
  "\<exists>s. counter_run race (new_counters 2) = Some s \<and> DequeueAttemptsCount (Counters s) = HeadIndex (Counters s) + DequeueFailedCount (Counters s)"
proof -
  obtain s where s: "counter_run race (new_counters 2) = Some s" "Consumers s = [Obtained 0 1, Obtained 0 0]" using race_result by auto
  with dequeue_counters_settle [OF s(1)] show ?thesis by (auto simp: in_call_def)
qed

end
