(* ===== verification/Free_List_Steps.thy ===== *)
theory Free_List_Steps
  imports Free_List
begin

text \<open>
  \<^verbatim>\<open>FreeList\<close> with many threads at work on it at once, one atomic access at a time: its reference counts, which
  keep a node from coming back to the list while a thread still looks at it.  Every thread sees the
  accesses of the others in one order; nodes are not freed meanwhile.  Shown is that no node is given to
  two threads and that none is lost.
\<close>

section \<open>The steps\<close>

text \<open>
  Where a thread is, with its locals.  The steps of \<^verbatim>\<open>InnerAdd\<close> carry the node, \<^verbatim>\<open>CurrentHead\<close> and where they
  return to: \<open>None\<close> out of \<^verbatim>\<open>Add\<close>, \<open>Some c\<close> into the loop of \<^verbatim>\<open>TryGet\<close>, with \<open>c\<close> its \<^verbatim>\<open>CurrentHead\<close>.
\<close>

datatype fl_pc = Idle | AddFetch addr | AddLoad addr "addr option option"
  | AddNext addr "addr option" "addr option option" | AddRefs addr "addr option" "addr option option"
  | AddCas addr "addr option" "addr option option" | AddBack addr "addr option" "addr option option"
  | GetLoad | GetCheck "addr option" | GetInc addr u32 | GetNext addr | GetCas addr "addr option"
  | GetDec2 addr | GetDec1 addr "addr option" | Returned "addr option"

text \<open>The list and the nodes; \<open>Owned\<close> are the nodes that belong to the users of the list, as these get them.\<close>

record fl_mem =
  FL_Head :: "addr option"
  Refs :: "addr \<Rightarrow> u32"
  FL_Next :: "addr \<Rightarrow> addr option"
  Owned :: "addr list"

definition back_to :: "addr option option \<Rightarrow> fl_pc" where
  "back_to k = (case k of None \<Rightarrow> Idle | Some c \<Rightarrow> GetCheck c)"

definition add_refs :: "addr \<Rightarrow> u32 \<Rightarrow> fl_mem \<Rightarrow> fl_mem" where
  "add_refs n d m = m\<lparr>Refs := (Refs m)(n := Refs m n + d)\<rparr>"

fun fl_step :: "fl_pc \<Rightarrow> fl_mem \<Rightarrow> fl_pc \<times> fl_mem" where
  "fl_step (AddFetch n) m = (if Refs m n = 0 then AddLoad n None else Idle, add_refs n AddFlag m)"
| "fl_step (AddLoad n k) m = (AddNext n (FL_Head m) k, m)"
| "fl_step (AddNext n cur k) m = (AddRefs n cur k, m\<lparr>FL_Next := (FL_Next m)(n := cur)\<rparr>)"
| "fl_step (AddRefs n cur k) m = (AddCas n cur k, m\<lparr>Refs := (Refs m)(n := 1)\<rparr>)"
| "fl_step (AddCas n cur k) m =
     (if FL_Head m = cur then (back_to k, m\<lparr>FL_Head := Some n\<rparr>) else (AddBack n (FL_Head m) k, m))"
| "fl_step (AddBack n cur k) m = (if Refs m n = 1 then AddNext n cur k else back_to k, add_refs n (AddFlag - 1) m)"
| "fl_step GetLoad m = (GetCheck (FL_Head m), m)"
| "fl_step (GetCheck c) m = (case c of None \<Rightarrow> Returned None
     | Some n \<Rightarrow> if Refs m n AND RefsMask = 0 then GetLoad else GetInc n (Refs m n), m)"
| "fl_step (GetInc n r) m = (if Refs m n = r then (GetNext n, m\<lparr>Refs := (Refs m)(n := r + 1)\<rparr>) else (GetLoad, m))"
| "fl_step (GetNext n) m = (GetCas n (FL_Next m n), m)"
| "fl_step (GetCas n nx) m =
     (if FL_Head m = Some n then (GetDec2 n, m\<lparr>FL_Head := nx\<rparr>) else (GetDec1 n (FL_Head m), m))"
| "fl_step (GetDec2 n) m = (Returned (Some n), add_refs n (- 2) m\<lparr>Owned := Owned m @ [n]\<rparr>)"
| "fl_step (GetDec1 n c) m = (if Refs m n = AddFlag + 1 then AddLoad n (Some c) else GetCheck c, add_refs n (- 1) m)"
| "fl_step Idle m = (Idle, m)"
| "fl_step (Returned r) m = (Returned r, m)"

record fl_sys =
  Mem :: fl_mem
  Threads :: "fl_pc list"

text \<open>What can happen: a thread that is not in a call adds a node its user owns, or calls \<^verbatim>\<open>TryGet\<close>; a thread makes a step.\<close>

datatype fl_event = CallAdd nat addr | CallTryGet nat | Step nat

definition resting :: "fl_pc \<Rightarrow> bool" where
  "resting p \<longleftrightarrow> (case p of Idle \<Rightarrow> True | Returned _ \<Rightarrow> True | _ \<Rightarrow> False)"

fun fl_event_step :: "fl_event \<Rightarrow> fl_sys \<Rightarrow> fl_sys option" where
  "fl_event_step (CallAdd i n) s =
     (if i < length (Threads s) \<and> resting (Threads s ! i) \<and> n \<in> set (Owned (Mem s))
      then Some (s\<lparr>Mem := Mem s\<lparr>Owned := remove1 n (Owned (Mem s))\<rparr>, Threads := (Threads s)[i := AddFetch n]\<rparr>) else None)"
| "fl_event_step (CallTryGet i) s =
     (if i < length (Threads s) \<and> resting (Threads s ! i)
      then Some (s\<lparr>Threads := (Threads s)[i := GetLoad]\<rparr>) else None)"
| "fl_event_step (Step i) s =
     (if i < length (Threads s)
      then (let (p, m) = fl_step (Threads s ! i) (Mem s) in Some (s\<lparr>Mem := m, Threads := (Threads s)[i := p]\<rparr>)) else None)"

fun fl_run :: "fl_event list \<Rightarrow> fl_sys \<Rightarrow> fl_sys option" where
  "fl_run [] s = Some s"
| "fl_run (e # es) s = Option.bind (fl_event_step e s) (fl_run es)"

text \<open>An empty list, \<open>t\<close> threads, and the nodes below \<open>m\<close>, all with the users.\<close>

definition new_fl :: "nat \<Rightarrow> nat \<Rightarrow> fl_sys" where
  "new_fl m t = \<lparr>Mem = \<lparr>FL_Head = None, Refs = (\<lambda>_. 0), FL_Next = (\<lambda>_. None), Owned = [0 ..< m]\<rparr>, Threads = replicate t Idle\<rparr>"

section \<open>The invariant\<close>

text \<open>
  What a node is: with a user; flagged, but still held by some thread, which will add it; being
  prepared by the thread that adds it; with its count set, not yet linked in; in the list; unlinked, not
  yet handed out.
\<close>

datatype phase = User | Waiting | Adding | Published | Listed | Taken

definition holds :: "addr \<Rightarrow> fl_pc \<Rightarrow> bool" where
  "holds n p \<longleftrightarrow> (case p of GetNext c \<Rightarrow> c = n | GetCas c _ \<Rightarrow> c = n | GetDec2 c \<Rightarrow> c = n | GetDec1 c _ \<Rightarrow> c = n | _ \<Rightarrow> False)"

definition holders :: "addr \<Rightarrow> fl_pc list \<Rightarrow> nat" where
  "holders n ps = length (filter (holds n) ps)"

text \<open>The node a thread is responsible for, and what that node is then.\<close>

definition duty :: "fl_pc \<Rightarrow> (addr \<times> phase) option" where
  "duty p = (case p of AddFetch n \<Rightarrow> Some (n, User) | AddLoad n _ \<Rightarrow> Some (n, Adding) | AddNext n _ _ \<Rightarrow> Some (n, Adding)
     | AddRefs n _ _ \<Rightarrow> Some (n, Adding) | AddCas n _ _ \<Rightarrow> Some (n, Published) | AddBack n _ _ \<Rightarrow> Some (n, Published)
     | GetDec2 n \<Rightarrow> Some (n, Taken) | _ \<Rightarrow> None)"

text \<open>The counts that go with a phase, for \<open>h\<close> holders.\<close>

definition refs_of :: "phase \<Rightarrow> nat \<Rightarrow> u32 \<Rightarrow> bool" where
  "refs_of ph h r \<longleftrightarrow> (case ph of User \<Rightarrow> r = of_nat h | Waiting \<Rightarrow> r = AddFlag + of_nat h \<and> 0 < h
     | Adding \<Rightarrow> r = AddFlag \<and> h = 0 | _ \<Rightarrow> r = 1 + of_nat h)"

text \<open>What a thread relies on: the link of a node it prepares or holds does not change; it adds to a count only when that is not 0.\<close>

definition fl_pc_ok :: "(addr \<Rightarrow> addr option) \<Rightarrow> fl_pc \<Rightarrow> bool" where
  "fl_pc_ok nx p \<longleftrightarrow> (case p of AddRefs n cur _ \<Rightarrow> nx n = cur | AddCas n cur _ \<Rightarrow> nx n = cur | GetCas n c \<Rightarrow> nx n = c
     | GetInc n r \<Rightarrow> r AND RefsMask \<noteq> 0 | _ \<Rightarrow> True)"

fun linked :: "(addr \<Rightarrow> addr option) \<Rightarrow> addr option \<Rightarrow> addr list \<Rightarrow> bool" where
  "linked nx p [] \<longleftrightarrow> p = None"
| "linked nx p (a # as) \<longleftrightarrow> p = Some a \<and> linked nx (nx a) as"

text \<open>The three by cases.\<close>

lemma pc_simps [simp]:
  "duty (Idle) = None"
  "duty (AddFetch n) = Some (n, User)"
  "duty (AddLoad n c) = Some (n, Adding)"
  "duty (AddNext n cur c) = Some (n, Adding)"
  "duty (AddRefs n cur c) = Some (n, Adding)"
  "duty (AddCas n cur c) = Some (n, Published)"
  "duty (AddBack n cur c) = Some (n, Published)"
  "duty (GetLoad) = None"
  "duty (GetCheck cur) = None"
  "duty (GetInc n r) = None"
  "duty (GetNext n) = None"
  "duty (GetCas n cur) = None"
  "duty (GetDec2 n) = Some (n, Taken)"
  "duty (GetDec1 n cur) = None"
  "duty (Returned cur) = None"
  "holds y (Idle) \<longleftrightarrow> False"
  "holds y (AddFetch n) \<longleftrightarrow> False"
  "holds y (AddLoad n c) \<longleftrightarrow> False"
  "holds y (AddNext n cur c) \<longleftrightarrow> False"
  "holds y (AddRefs n cur c) \<longleftrightarrow> False"
  "holds y (AddCas n cur c) \<longleftrightarrow> False"
  "holds y (AddBack n cur c) \<longleftrightarrow> False"
  "holds y (GetLoad) \<longleftrightarrow> False"
  "holds y (GetCheck cur) \<longleftrightarrow> False"
  "holds y (GetInc n r) \<longleftrightarrow> False"
  "holds y (GetNext n) \<longleftrightarrow> n = y"
  "holds y (GetCas n cur) \<longleftrightarrow> n = y"
  "holds y (GetDec2 n) \<longleftrightarrow> n = y"
  "holds y (GetDec1 n cur) \<longleftrightarrow> n = y"
  "holds y (Returned cur) \<longleftrightarrow> False"
  "fl_pc_ok nx (Idle) \<longleftrightarrow> True"
  "fl_pc_ok nx (AddFetch n) \<longleftrightarrow> True"
  "fl_pc_ok nx (AddLoad n c) \<longleftrightarrow> True"
  "fl_pc_ok nx (AddNext n cur c) \<longleftrightarrow> True"
  "fl_pc_ok nx (AddRefs n cur c) \<longleftrightarrow> nx n = cur"
  "fl_pc_ok nx (AddCas n cur c) \<longleftrightarrow> nx n = cur"
  "fl_pc_ok nx (AddBack n cur c) \<longleftrightarrow> True"
  "fl_pc_ok nx (GetLoad) \<longleftrightarrow> True"
  "fl_pc_ok nx (GetCheck cur) \<longleftrightarrow> True"
  "fl_pc_ok nx (GetInc n r) \<longleftrightarrow> r AND RefsMask \<noteq> 0"
  "fl_pc_ok nx (GetNext n) \<longleftrightarrow> True"
  "fl_pc_ok nx (GetCas n cur) \<longleftrightarrow> nx n = cur"
  "fl_pc_ok nx (GetDec2 n) \<longleftrightarrow> True"
  "fl_pc_ok nx (GetDec1 n cur) \<longleftrightarrow> True"
  "fl_pc_ok nx (Returned cur) \<longleftrightarrow> True"
  by (simp_all add: duty_def holds_def fl_pc_ok_def)

definition fl_inv :: "nat \<Rightarrow> (addr \<Rightarrow> phase) \<Rightarrow> addr list \<Rightarrow> fl_mem \<Rightarrow> fl_pc list \<Rightarrow> bool" where
  "fl_inv k ph L m ps \<longleftrightarrow> length ps < 2 ^ 31 - 1
     \<and> linked (FL_Next m) (FL_Head m) L \<and> distinct L \<and> distinct (Owned m) \<and> (\<forall>n. n \<in> set L \<longleftrightarrow> ph n = Listed)
     \<and> (\<forall>n. refs_of (ph n) (holders n ps) (Refs m n))
     \<and> (\<forall>n \<in> set (Owned m). ph n = User \<and> n < k)
     \<and> (\<forall>i < length ps. \<forall>n x. duty (ps ! i) = Some (n, x) \<longrightarrow> ph n = x \<and> n < k \<and> n \<notin> set (Owned m))
     \<and> (\<forall>i < length ps. fl_pc_ok (FL_Next m) (ps ! i))
     \<and> (\<forall>i < length ps. \<forall>j < length ps. i \<noteq> j \<longrightarrow> duty (ps ! i) \<noteq> None \<longrightarrow> duty (ps ! i) \<noteq> duty (ps ! j))
     \<and> (\<forall>n < k. ph n = Listed \<or> ph n = Waiting \<or> n \<in> set (Owned m) \<or> (\<exists>i < length ps. duty (ps ! i) = Some (n, ph n)))
     \<and> (\<forall>n. k \<le> n \<longrightarrow> ph n = User \<and> holders n ps = 0)"

lemma fl_invD:
  assumes "fl_inv k ph L m ps"
  shows "length ps < 2 ^ 31 - 1" "linked (FL_Next m) (FL_Head m) L" "distinct L" "distinct (Owned m)"
    "\<And>n. n \<in> set L \<longleftrightarrow> ph n = Listed" "\<And>n. refs_of (ph n) (holders n ps) (Refs m n)"
    "\<And>n. n \<in> set (Owned m) \<Longrightarrow> ph n = User \<and> n < k"
    "\<And>i n x. i < length ps \<Longrightarrow> duty (ps ! i) = Some (n, x) \<Longrightarrow> ph n = x \<and> n < k \<and> n \<notin> set (Owned m)"
    "\<And>i. i < length ps \<Longrightarrow> fl_pc_ok (FL_Next m) (ps ! i)"
    "\<And>i j. i < length ps \<Longrightarrow> j < length ps \<Longrightarrow> i \<noteq> j \<Longrightarrow> duty (ps ! i) \<noteq> None \<Longrightarrow> duty (ps ! i) \<noteq> duty (ps ! j)"
    "\<And>n. n < k \<Longrightarrow> ph n = Listed \<or> ph n = Waiting \<or> n \<in> set (Owned m) \<or> (\<exists>i < length ps. duty (ps ! i) = Some (n, ph n))"
    "\<And>n. k \<le> n \<Longrightarrow> ph n = User \<and> holders n ps = 0"
  using assms by (simp_all add: fl_inv_def)

lemma linked_cong: "linked nx p as \<Longrightarrow> (\<And>a. a \<in> set as \<Longrightarrow> nx' a = nx a) \<Longrightarrow> linked nx' p as"
  by (induction as arbitrary: p) auto

lemma holders_upd: "i < length ps \<Longrightarrow>
   holders n (ps[i := p]) + (if holds n (ps ! i) then 1 else 0) = holders n ps + (if holds n p then 1 else 0)"
  unfolding holders_def
proof (induction ps arbitrary: i)
  case (Cons q qs)
  then show ?case by (cases i) auto
qed simp

lemma holders_pos: "i < length ps \<Longrightarrow> holds n (ps ! i) \<Longrightarrow> 0 < holders n ps"
  by (auto simp: holders_def filter_empty_conv)

lemma holders_le: "holders n ps \<le> length ps"
  by (simp add: holders_def)

text \<open>
  One thread moves, and with it one node \<open>n\<close>, which gets the phase \<open>x\<close>.
\<close>

lemma fl_move:
  assumes inv: "fl_inv k ph L m ps" and i: "i < length ps" and n: "n < k"
    and list: "linked (FL_Next m') (FL_Head m') L'" "distinct L'" "\<And>y. y \<in> set L' \<longleftrightarrow> (ph(n := x)) y = Listed"
    and own: "distinct (Owned m')" "\<And>y. y \<noteq> n \<Longrightarrow> y \<in> set (Owned m') \<longleftrightarrow> y \<in> set (Owned m)"
      "n \<in> set (Owned m') \<Longrightarrow> x = User \<and> p' \<noteq> AddFetch n \<and> duty p' = None"
    and refs: "\<And>y. y \<noteq> n \<Longrightarrow> Refs m' y = Refs m y" "refs_of x (holders n (ps[i := p'])) (Refs m' n)"
    and holds: "\<And>y. y \<noteq> n \<Longrightarrow> holds y p' = holds y (ps ! i)"
    and ok: "fl_pc_ok (FL_Next m') p'" "\<And>j. j < length ps \<Longrightarrow> j \<noteq> i \<Longrightarrow> fl_pc_ok (FL_Next m') (ps ! j)"
    and duties: "duty p' = None \<or> duty p' = Some (n, x)" "duty (ps ! i) = None \<or> duty (ps ! i) = Some (n, ph n)"
    and others: "\<And>j y. j < length ps \<Longrightarrow> j \<noteq> i \<Longrightarrow> duty (ps ! j) = Some (n, y) \<Longrightarrow> x = ph n \<and> duty p' = None \<and> n \<notin> set (Owned m')"
    and kept: "x = Listed \<or> x = Waiting \<or> n \<in> set (Owned m') \<or> duty p' = Some (n, x) \<or> (\<exists>j < length ps. j \<noteq> i \<and> duty (ps ! j) = Some (n, x))"
  shows "fl_inv k (ph(n := x)) L' m' (ps[i := p'])"
proof -
  note D = fl_invD [OF inv]
  have same: "holders y (ps[i := p']) = holders y ps" if "y \<noteq> n" for y
    using holders_upd [OF i, of y p'] holds [OF that] by simp
  have d1: "(ph(n := x)) y = z \<and> y < k \<and> y \<notin> set (Owned m')" if j: "j < length ps" "duty (ps[i := p'] ! j) = Some (y, z)" for j y z
  proof (cases "j = i")
    case True
    with j i duties(1) n own(3) show ?thesis by auto
  next
    case False
    with j have dj: "duty (ps ! j) = Some (y, z)" by simp
    with D(8) [OF j(1) this] others [OF j(1) False, of z] own(2) [of y] show ?thesis by (cases "y = n") auto
  qed
  have d2: "duty (ps[i := p'] ! j) \<noteq> duty (ps[i := p'] ! l)"
    if jl: "j < length ps" "l < length ps" "j \<noteq> l" "duty (ps[i := p'] ! j) \<noteq> None" for j l
  proof -
    have "duty p' \<noteq> duty (ps ! l)" if "j = i" "l \<noteq> i"
      using jl that i duties(1) others [of l x] by auto
    moreover have "duty (ps ! j) \<noteq> duty p'" if "l = i" "j \<noteq> i"
      using jl that i duties(1) others [of j x] by auto
    ultimately show ?thesis using jl i D(10) [of j l] by (cases "j = i"; cases "l = i") auto
  qed
  have acc: "(ph(n := x)) y = Listed \<or> (ph(n := x)) y = Waiting \<or> y \<in> set (Owned m')
      \<or> (\<exists>j < length ps. duty (ps[i := p'] ! j) = Some (y, (ph(n := x)) y))" if y: "y < k" for y
  proof (cases "y = n")
    case True
    with kept show ?thesis
    proof (elim disjE exE conjE)
      assume "duty p' = Some (n, x)"
      with i True show ?thesis by (intro disjI2 exI [of _ i]) simp
    next
      fix j assume "j < length ps" "j \<noteq> i" "duty (ps ! j) = Some (n, x)"
      with True show ?thesis by (intro disjI2 exI [of _ j]) simp
    qed auto
  next
    case False
    from D(11) [OF y] own(2) [OF False] False show ?thesis
    proof (elim disjE exE conjE)
      fix j assume j: "j < length ps" "duty (ps ! j) = Some (y, ph y)"
      with duties(2) False have "j \<noteq> i" by auto
      with j False show ?thesis by (intro disjI2 exI [of _ j]) simp
    qed auto
  qed
  have above: "(ph(n := x)) y = User \<and> holders y (ps[i := p']) = 0" if "k \<le> y" for y
    using D(12) [OF that] same [of y] that n by auto
  have refs': "refs_of ((ph(n := x)) y) (holders y (ps[i := p'])) (Refs m' y)" for y
    using D(6) [of y] refs same [of y] by (cases "y = n") simp_all
  have own': "(ph(n := x)) y = User \<and> y < k" if "y \<in> set (Owned m')" for y
    using that own(2) [of y] own(3) D(7) [of y] n by (cases "y = n") auto
  have ok': "fl_pc_ok (FL_Next m') (ps[i := p'] ! j)" if "j < length ps" for j
    using that ok i by (cases "j = i") simp_all
  show ?thesis
    unfolding fl_inv_def length_list_update
    using D(1) list own(1) refs' own' d1 ok' d2 acc above by blast
qed

section \<open>The counts\<close>

lemma AddFlag_eq: "AddFlag = 2 ^ 31"
  by (simp add: AddFlag_def)

lemma unat_small: "h < 2 ^ 31 \<Longrightarrow> unat (of_nat h :: u32) = h" "h < 2 ^ 31 \<Longrightarrow> unat (1 + of_nat h :: u32) = Suc h"
  "h < 2 ^ 31 \<Longrightarrow> unat (AddFlag + of_nat h) = 2 ^ 31 + h"
proof -
  assume h: "h < 2 ^ 31"
  then show "unat (of_nat h :: u32) = h" by (intro unat_of_nat_small) simp
  have "unat (of_nat (Suc h) :: u32) = Suc h" using h by (intro unat_of_nat_small) simp
  then show "unat (1 + of_nat h :: u32) = Suc h" by (simp add: add.commute)
  have "unat (of_nat (2 ^ 31 + h) :: u32) = 2 ^ 31 + h" using h by (intro unat_of_nat_small) simp
  then show "unat (AddFlag + of_nat h) = 2 ^ 31 + h" by (simp add: AddFlag_eq)
qed

lemma refs_mask: "(r :: u32) AND RefsMask = 0 \<longleftrightarrow> unat r mod 2 ^ 31 = 0"
proof -
  have mask: "RefsMask = 2 ^ 31 - 1" by (simp add: RefsMask_def)
  have "unat (r AND RefsMask) = unat r mod 2 ^ 31" unfolding mask by (rule unat_and_mask)
  then show ?thesis by (metis unat_0 unat_eq_0)
qed

lemma refs_cases:
  assumes "refs_of ph h r" "h < 2 ^ 31 - 1"
  shows "r AND RefsMask = 0 \<longleftrightarrow> h = 0 \<and> ph \<in> {User, Adding}"
    "r = 0 \<longleftrightarrow> ph = User \<and> h = 0" "r = 1 \<longleftrightarrow> ph = User \<and> h = 1 \<or> ph \<in> {Published, Listed, Taken} \<and> h = 0"
    "r = AddFlag + 1 \<longleftrightarrow> ph = Waiting \<and> h = 1"
proof -
  have h: "h < 2 ^ 31" "Suc h < 2 ^ 31" using assms(2) by simp_all
  note u = unat_small [OF h(1)]
  have one: "unat (AddFlag + 1) = Suc (2 ^ 31)" using unat_small(3) [of 1] by simp
  have flag: "unat AddFlag = 2 ^ 31" by (simp add: AddFlag_def)
  show "r AND RefsMask = 0 \<longleftrightarrow> h = 0 \<and> ph \<in> {User, Adding}"
    unfolding refs_mask using assms(1) u h flag by (cases ph) (simp_all add: refs_of_def)
  show "r = 0 \<longleftrightarrow> ph = User \<and> h = 0"
    unfolding word_unat_eq_iff using assms(1) u flag by (cases ph) (simp_all add: refs_of_def)
  show "r = 1 \<longleftrightarrow> ph = User \<and> h = 1 \<or> ph \<in> {Published, Listed, Taken} \<and> h = 0"
    unfolding word_unat_eq_iff using assms(1) u flag by (cases ph) (simp_all add: refs_of_def)
  show "r = AddFlag + 1 \<longleftrightarrow> ph = Waiting \<and> h = 1"
    unfolding word_unat_eq_iff one using assms(1) u flag h by (cases ph) (auto simp: refs_of_def)
qed

section \<open>Every step keeps the invariant\<close>

lemma fl_quiet:
  assumes inv: "fl_inv k ph L m ps" and i: "i < length ps"
    and same: "duty p' = duty (ps ! i)" "\<And>y. holds y p' = holds y (ps ! i)" and ok: "fl_pc_ok (FL_Next m) p'"
  shows "fl_inv k ph L m (ps[i := p'])"
proof -
  note D = fl_invD [OF inv]
  have h: "holders y (ps[i := p']) = holders y ps" for y using holders_upd [OF i, of y p'] same(2) by simp
  have d: "duty (ps[i := p'] ! j) = duty (ps ! j)" for j using same(1) i by (cases "j = i") simp_all
  have "fl_pc_ok (FL_Next m) (ps[i := p'] ! j)" if "j < length ps" for j using D(9) [OF that] ok i by (cases "j = i") simp_all
  with D show ?thesis unfolding fl_inv_def length_list_update h d by blast
qed

lemma holders_bound: "fl_inv k ph L m ps \<Longrightarrow> holders n ps < 2 ^ 31 - 1"
  using fl_invD(1) [of k ph L m ps] holders_le [of n ps] by linarith

text \<open>A node of a duty is nobody else's.\<close>

lemma duty_alone:
  assumes "fl_inv k ph L m ps" "i < length ps" "duty (ps ! i) = Some (n, ph n)" "j < length ps" "j \<noteq> i" "duty (ps ! j) = Some (n, y)"
  shows False
  using fl_invD(8,10) [OF assms(1)] assms(2-6) by (metis option.distinct(1))

lemma fl_add_fetch:
  assumes inv: "fl_inv k ph L m ps" and i: "i < length ps" and pc: "ps ! i = AddFetch n"
  shows "\<exists>ph' L'. fl_inv k ph' L' (snd (fl_step (ps ! i) m)) (ps[i := fst (fl_step (ps ! i) m)])"
proof -
  note D = fl_invD [OF inv]
  have n: "ph n = User" "n < k" "n \<notin> set (Owned m)" using D(8) [OF i, of n User] by (simp_all add: pc)
  have duty: "duty (ps ! i) = Some (n, ph n)" by (simp add: pc n(1))
  note r = refs_cases [OF D(6) [of n] holders_bound [OF inv]]
  let ?x = "if Refs m n = 0 then Adding else Waiting"
  have h: "holders n (ps[i := fst (fl_step (ps ! i) m)]) = holders n ps"
    using holders_upd [OF i, of n "fst (fl_step (ps ! i) m)"] by (simp add: pc split: if_splits)
  have "fl_inv k (ph(n := ?x)) L (snd (fl_step (ps ! i) m)) (ps[i := fst (fl_step (ps ! i) m)])"
  proof (rule fl_move [OF inv i n(2)])
    show "refs_of ?x (holders n (ps[i := fst (fl_step (ps ! i) m)])) (Refs (snd (fl_step (ps ! i) m)) n)"
      using D(6) [of n] n(1) r(2) unfolding h by (simp add: pc add_refs_def refs_of_def add.commute)
    show "fl_pc_ok (FL_Next (snd (fl_step (ps ! i) m))) (ps ! j)" if "j < length ps" "j \<noteq> i" for j
      using D(9) [OF that(1)] by (simp add: pc add_refs_def)
    show "?x = ph n \<and> duty (fst (fl_step (ps ! i) m)) = None \<and> n \<notin> set (Owned (snd (fl_step (ps ! i) m)))"
      if "j < length ps" "j \<noteq> i" "duty (ps ! j) = Some (n, y)" for j y
      using duty_alone [OF inv i duty that] ..
  qed (use D n in \<open>auto simp: pc add_refs_def\<close>)
  then show ?thesis by blast
qed

text \<open>The steps of a thread that has node \<open>n\<close> in its duty and leaves the owners alone.\<close>

lemma fl_duty_move:
  assumes inv: "fl_inv k ph L m ps" and i: "i < length ps" and duty: "duty (ps ! i) = Some (n, y)"
    and list: "linked (FL_Next m') (FL_Head m') L'" "distinct L'" "\<And>y. y \<in> set L' \<longleftrightarrow> (ph(n := x)) y = Listed"
    and own: "Owned m' = Owned m"
    and refs: "\<And>y. y \<noteq> n \<Longrightarrow> Refs m' y = Refs m y" "refs_of x (holders n ps) (Refs m' n)"
    and holds: "\<And>y. holds y p' = holds y (ps ! i)"
    and ok: "fl_pc_ok (FL_Next m') p'" "\<And>j. j < length ps \<Longrightarrow> j \<noteq> i \<Longrightarrow> fl_pc_ok (FL_Next m') (ps ! j)"
    and duties: "duty p' = Some (n, x) \<or> duty p' = None \<and> x \<in> {Listed, Waiting}"
  shows "\<exists>ph' L'. fl_inv k ph' L' m' (ps[i := p'])"
proof -
  note D = fl_invD [OF inv]
  have n: "ph n = y" "n < k" "n \<notin> set (Owned m)" using D(8) [OF i duty] by simp_all
  have d: "duty (ps ! i) = Some (n, ph n)" using duty n(1) by simp
  have h: "holders n (ps[i := p']) = holders n ps" using holders_upd [OF i, of n p'] holds by simp
  have "fl_inv k (ph(n := x)) L' m' (ps[i := p'])"
  proof (rule fl_move [OF inv i n(2) list _ _ _ refs(1)])
    show "x = ph n \<and> duty p' = None \<and> n \<notin> set (Owned m')" if "j < length ps" "j \<noteq> i" "duty (ps ! j) = Some (n, z)" for j z
      using duty_alone [OF inv i d that] ..
    show "refs_of x (holders n (ps[i := p'])) (Refs m' n)" using refs(2) h by simp
    show "fl_pc_ok (FL_Next m') (ps ! j)" if "j < length ps" "j \<noteq> i" for j by (rule ok(2) [OF that])
  qed (use D(4) n d own holds ok(1) duties in auto)
  then show ?thesis by blast
qed

lemma fl_add_next:
  assumes inv: "fl_inv k ph L m ps" and i: "i < length ps" and pc: "ps ! i = AddNext n cur c"
  shows "\<exists>ph' L'. fl_inv k ph' L' (snd (fl_step (ps ! i) m)) (ps[i := fst (fl_step (ps ! i) m)])"
proof -
  note D = fl_invD [OF inv]
  have duty: "duty (ps ! i) = Some (n, Adding)" by (simp add: pc)
  have n: "ph n = Adding" using D(8) [OF i duty] by simp
  then have L: "n \<notin> set L" using D(5) by simp
  have h: "holders n ps = 0" using D(6) [of n] n by (simp add: refs_of_def)
  have ok: "fl_pc_ok ((FL_Next m)(n := cur)) (ps ! j)" if "j < length ps" "j \<noteq> i" for j
  proof -
    have "\<not> holds n (ps ! j)" using holders_pos [OF that(1)] h by fastforce
    moreover have "duty (ps ! j) \<noteq> Some (n, z)" for z using duty_alone [OF inv i _ that] duty n by auto
    ultimately show ?thesis using D(9) [OF that(1)] by (cases "ps ! j") (auto simp:)
  qed
  show ?thesis
  proof (rule fl_duty_move [OF inv i duty, where L' = L and x = Adding])
    show "linked (FL_Next (snd (fl_step (ps ! i) m))) (FL_Head (snd (fl_step (ps ! i) m))) L"
      using L by (auto simp: pc intro: linked_cong [OF D(2)])
    show "fl_pc_ok (FL_Next (snd (fl_step (ps ! i) m))) (ps ! j)" if "j < length ps" "j \<noteq> i" for j
      using ok [OF that] by (simp add: pc)
    show "refs_of Adding (holders n ps) (Refs (snd (fl_step (ps ! i) m)) n)" using D(6) [of n] n by (simp add: pc)
  qed (use D n in \<open>auto simp: pc\<close>)
qed

lemma fl_add_refs:
  assumes inv: "fl_inv k ph L m ps" and i: "i < length ps" and pc: "ps ! i = AddRefs n cur c"
  shows "\<exists>ph' L'. fl_inv k ph' L' (snd (fl_step (ps ! i) m)) (ps[i := fst (fl_step (ps ! i) m)])"
proof -
  note D = fl_invD [OF inv]
  have duty: "duty (ps ! i) = Some (n, Adding)" by (simp add: pc)
  have n: "ph n = Adding" using D(8) [OF i duty] by simp
  have h: "holders n ps = 0" using D(6) [of n] n by (simp add: refs_of_def)
  have nx: "FL_Next m n = cur" using D(9) [OF i] by (simp add: pc)
  show ?thesis
  proof (rule fl_duty_move [OF inv i duty, where L' = L and x = Published])
    show "fl_pc_ok (FL_Next (snd (fl_step (ps ! i) m))) (ps ! j)" if "j < length ps" "j \<noteq> i" for j
      using D(9) [OF that(1)] by (simp add: pc)
  qed (use D n h nx in \<open>auto simp: pc refs_of_def\<close>)
qed

lemma back_to_simps [simp]: "duty (back_to c) = None" "holds y (back_to c) = False" "fl_pc_ok nx (back_to c)"
  by (simp_all add: back_to_def split: option.split)

lemma fl_add_cas:
  assumes inv: "fl_inv k ph L m ps" and i: "i < length ps" and pc: "ps ! i = AddCas n cur c"
  shows "\<exists>ph' L'. fl_inv k ph' L' (snd (fl_step (ps ! i) m)) (ps[i := fst (fl_step (ps ! i) m)])"
proof -
  note D = fl_invD [OF inv]
  have duty: "duty (ps ! i) = Some (n, Published)" by (simp add: pc)
  have n: "ph n = Published" using D(8) [OF i duty] by simp
  have nx: "FL_Next m n = cur" using D(9) [OF i] by (simp add: pc)
  show ?thesis
  proof (cases "FL_Head m = cur")
    case False
    have "fl_inv k ph L m (ps[i := AddBack n (FL_Head m) c])"
      by (rule fl_quiet [OF inv i]) (simp_all add: pc)
    with False show ?thesis by (auto simp: pc)
  next
    case True
    show ?thesis
    proof (rule fl_duty_move [OF inv i duty, where L' = "n # L" and x = Listed])
      show "fl_pc_ok (FL_Next (snd (fl_step (ps ! i) m))) (ps ! j)" if "j < length ps" "j \<noteq> i" for j
        using D(9) [OF that(1)] by (simp add: pc)
      show "refs_of Listed (holders n ps) (Refs (snd (fl_step (ps ! i) m)) n)" using D(6) [of n] n by (simp add: pc refs_of_def)
    qed (use D n nx True in \<open>auto simp: pc\<close>)
  qed
qed

lemma fl_add_back:
  assumes inv: "fl_inv k ph L m ps" and i: "i < length ps" and pc: "ps ! i = AddBack n cur c"
  shows "\<exists>ph' L'. fl_inv k ph' L' (snd (fl_step (ps ! i) m)) (ps[i := fst (fl_step (ps ! i) m)])"
proof -
  note D = fl_invD [OF inv]
  have duty: "duty (ps ! i) = Some (n, Published)" by (simp add: pc)
  have n: "ph n = Published" using D(8) [OF i duty] by simp
  note r = refs_cases [OF D(6) [of n] holders_bound [OF inv]]
  show ?thesis
  proof (rule fl_duty_move [OF inv i duty, where L' = L and x = "if Refs m n = 1 then Adding else Waiting"])
    show "fl_pc_ok (FL_Next (snd (fl_step (ps ! i) m))) (ps ! j)" if "j < length ps" "j \<noteq> i" for j
      using D(9) [OF that(1)] by (simp add: pc add_refs_def)
    show "refs_of (if Refs m n = 1 then Adding else Waiting) (holders n ps) (Refs (snd (fl_step (ps ! i) m)) n)"
      using D(6) [of n] n r(3) by (auto simp: pc add_refs_def refs_of_def)
  qed (use D n in \<open>auto simp: pc add_refs_def\<close>)
qed

text \<open>The steps of a thread that holds node \<open>n\<close>, or begins or ends to.\<close>

lemma fl_get_inc:
  assumes inv: "fl_inv k ph L m ps" and i: "i < length ps" and pc: "ps ! i = GetInc n r"
  shows "\<exists>ph' L'. fl_inv k ph' L' (snd (fl_step (ps ! i) m)) (ps[i := fst (fl_step (ps ! i) m)])"
proof (cases "Refs m n = r")
  case False
  have "fl_inv k ph L m (ps[i := GetLoad])" by (rule fl_quiet [OF inv i]) (simp_all add: pc)
  with False show ?thesis by (auto simp: pc)
next
  case True
  note D = fl_invD [OF inv]
  have "r AND RefsMask \<noteq> 0" using D(9) [OF i] by (simp add: pc)
  with True have busy: "\<not> (holders n ps = 0 \<and> ph n \<in> {User, Adding})"
    using refs_cases(1) [OF D(6) [of n] holders_bound [OF inv]] by simp
  then have n: "n < k" using D(12) [of n] by (cases "k \<le> n") auto
  have h: "holders n (ps[i := GetNext n]) = Suc (holders n ps)" using holders_upd [OF i, of n "GetNext n"] by (simp add: pc)
  have "fl_inv k (ph(n := ph n)) L (snd (fl_step (ps ! i) m)) (ps[i := fst (fl_step (ps ! i) m)])"
  proof (rule fl_move [OF inv i n])
    show "refs_of (ph n) (holders n (ps[i := fst (fl_step (ps ! i) m)])) (Refs (snd (fl_step (ps ! i) m)) n)"
      using D(6) [of n] busy h True by (cases "ph n") (auto simp: pc refs_of_def)
    show "fl_pc_ok (FL_Next (snd (fl_step (ps ! i) m))) (ps ! j)" if "j < length ps" "j \<noteq> i" for j
      using D(9) [OF that(1)] True by (simp add: pc)
    show "ph n = ph n \<and> duty (fst (fl_step (ps ! i) m)) = None \<and> n \<notin> set (Owned (snd (fl_step (ps ! i) m)))"
      if "j < length ps" "j \<noteq> i" "duty (ps ! j) = Some (n, y)" for j y
      using D(8) [OF that(1,3)] True by (simp add: pc)
    show "ph n = Listed \<or> ph n = Waiting \<or> n \<in> set (Owned (snd (fl_step (ps ! i) m)))
      \<or> duty (fst (fl_step (ps ! i) m)) = Some (n, ph n) \<or> (\<exists>j<length ps. j \<noteq> i \<and> duty (ps ! j) = Some (n, ph n))"
      using D(11) [OF n] True by (fastforce simp: pc)
  qed (use D True in \<open>auto simp: pc\<close>)
  then show ?thesis by blast
qed

lemma fl_get_next:
  assumes inv: "fl_inv k ph L m ps" and i: "i < length ps" and pc: "ps ! i = GetNext n"
  shows "\<exists>ph' L'. fl_inv k ph' L' (snd (fl_step (ps ! i) m)) (ps[i := fst (fl_step (ps ! i) m)])"
proof -
  have "fl_inv k ph L m (ps[i := GetCas n (FL_Next m n)])" by (rule fl_quiet [OF inv i]) (simp_all add: pc)
  then show ?thesis by (auto simp: pc)
qed

lemma fl_get_cas:
  assumes inv: "fl_inv k ph L m ps" and i: "i < length ps" and pc: "ps ! i = GetCas n nx"
  shows "\<exists>ph' L'. fl_inv k ph' L' (snd (fl_step (ps ! i) m)) (ps[i := fst (fl_step (ps ! i) m)])"
proof (cases "FL_Head m = Some n")
  case False
  have "fl_inv k ph L m (ps[i := GetDec1 n (FL_Head m)])" by (rule fl_quiet [OF inv i]) (simp_all add: pc)
  with False show ?thesis by (auto simp: pc)
next
  case True
  note D = fl_invD [OF inv]
  obtain L' where L: "L = n # L'" "linked (FL_Next m) (FL_Next m n) L'" using D(2) True by (cases L) auto
  have nx: "FL_Next m n = nx" using D(9) [OF i] by (simp add: pc)
  have ph: "ph n = Listed" using D(5) [of n] L(1) by simp
  then have n: "n < k" using D(12) [of n] by (cases "k \<le> n") auto
  have h: "holders n (ps[i := GetDec2 n]) = holders n ps" using holders_upd [OF i, of n "GetDec2 n"] by (simp add: pc)
  have "fl_inv k (ph(n := Taken)) L' (snd (fl_step (ps ! i) m)) (ps[i := fst (fl_step (ps ! i) m)])"
  proof (rule fl_move [OF inv i n])
    show "refs_of Taken (holders n (ps[i := fst (fl_step (ps ! i) m)])) (Refs (snd (fl_step (ps ! i) m)) n)"
      using D(6) [of n] ph h True by (simp add: pc refs_of_def)
    show "fl_pc_ok (FL_Next (snd (fl_step (ps ! i) m))) (ps ! j)" if "j < length ps" "j \<noteq> i" for j
      using D(9) [OF that(1)] True by (simp add: pc)
    show "Taken = ph n \<and> duty (fst (fl_step (ps ! i) m)) = None \<and> n \<notin> set (Owned (snd (fl_step (ps ! i) m)))"
      if "j < length ps" "j \<noteq> i" "duty (ps ! j) = Some (n, y)" for j y
      using D(8) [OF that(1,3)] ph that fl_invD(8) [OF inv] by (cases "ps ! j") auto
    show "y \<in> set L' \<longleftrightarrow> (ph(n := Taken)) y = Listed" for y using D(3) D(5) [of y] L(1) by auto
    show "n \<in> set (Owned (snd (fl_step (ps ! i) m))) \<Longrightarrow> Taken = User \<and> fst (fl_step (ps ! i) m) \<noteq> AddFetch n \<and> duty (fst (fl_step (ps ! i) m)) = None"
      using D(7) [of n] ph True by (simp add: pc)
  qed (use D L nx True in \<open>auto simp: pc\<close>)
  then show ?thesis by blast
qed

lemma fl_get_dec2:
  assumes inv: "fl_inv k ph L m ps" and i: "i < length ps" and pc: "ps ! i = GetDec2 n"
  shows "\<exists>ph' L'. fl_inv k ph' L' (snd (fl_step (ps ! i) m)) (ps[i := fst (fl_step (ps ! i) m)])"
proof -
  note D = fl_invD [OF inv]
  have duty: "duty (ps ! i) = Some (n, Taken)" by (simp add: pc)
  have n: "ph n = Taken" "n < k" "n \<notin> set (Owned m)" using D(8) [OF i duty] by simp_all
  have d: "duty (ps ! i) = Some (n, ph n)" using duty n(1) by simp
  have h: "Suc (holders n (ps[i := Returned (Some n)])) = holders n ps" using holders_upd [OF i, of n "Returned (Some n)"] by (simp add: pc)
  have r: "refs_of User (holders n (ps[i := Returned (Some n)])) (Refs m n + - 2)"
    using D(6) [of n] n(1) unfolding h [symmetric] by (simp add: refs_of_def)
  have "fl_inv k (ph(n := User)) L (snd (fl_step (ps ! i) m)) (ps[i := fst (fl_step (ps ! i) m)])"
  proof (rule fl_move [OF inv i n(2)])
    show "refs_of User (holders n (ps[i := fst (fl_step (ps ! i) m)])) (Refs (snd (fl_step (ps ! i) m)) n)"
      using r by (simp add: pc add_refs_def)
    show "fl_pc_ok (FL_Next (snd (fl_step (ps ! i) m))) (ps ! j)" if "j < length ps" "j \<noteq> i" for j
      using D(9) [OF that(1)] by (simp add: pc add_refs_def)
    show "User = ph n \<and> duty (fst (fl_step (ps ! i) m)) = None \<and> n \<notin> set (Owned (snd (fl_step (ps ! i) m)))"
      if "j < length ps" "j \<noteq> i" "duty (ps ! j) = Some (n, y)" for j y
      using duty_alone [OF inv i d that] ..
  qed (use D n in \<open>auto simp: pc add_refs_def\<close>)
  then show ?thesis by blast
qed

lemma fl_get_dec1:
  assumes inv: "fl_inv k ph L m ps" and i: "i < length ps" and pc: "ps ! i = GetDec1 n c"
  shows "\<exists>ph' L'. fl_inv k ph' L' (snd (fl_step (ps ! i) m)) (ps[i := fst (fl_step (ps ! i) m)])"
proof -
  note D = fl_invD [OF inv]
  let ?p = "fst (fl_step (ps ! i) m)" and ?m = "snd (fl_step (ps ! i) m)"
  let ?last = "ph n = Waiting \<and> holders n ps = 1"
  have last: "Refs m n = AddFlag + 1 \<longleftrightarrow> ?last" by (rule refs_cases(4) [OF D(6) holders_bound [OF inv]])
  have step: "?p = (if ?last then AddLoad n (Some c) else GetCheck c)" "?m = add_refs n (- 1) m" using last by (simp_all add: pc)
  have h: "Suc (holders n (ps[i := ?p])) = holders n ps" using holders_upd [OF i, of n ?p] by (simp add: step(1) pc)
  then have n: "n < k" using D(12) [of n] by (cases "k \<le> n") auto
  have "fl_inv k (ph(n := if ?last then Adding else ph n)) L ?m (ps[i := ?p])"
  proof (rule fl_move [OF inv i n])
    show "refs_of (if ?last then Adding else ph n) (holders n (ps[i := ?p])) (Refs ?m n)"
      using D(6) [of n] unfolding h [symmetric] by (cases "ph n") (auto simp: step(2) add_refs_def refs_of_def)
    show "fl_pc_ok (FL_Next ?m) (ps ! j)" if "j < length ps" "j \<noteq> i" for j
      using D(9) [OF that(1)] by (simp add: step(2) add_refs_def)
    show "(if ?last then Adding else ph n) = ph n \<and> duty ?p = None \<and> n \<notin> set (Owned ?m)"
      if "j < length ps" "j \<noteq> i" "duty (ps ! j) = Some (n, y)" for j y
    proof -
      have "ph n \<noteq> Waiting" using D(8) [OF that(1,3)] that(3) by (cases "ps ! j") auto
      then show ?thesis using D(8) [OF that(1,3)] by (simp add: step add_refs_def)
    qed
    show "(if ?last then Adding else ph n) = Listed \<or> (if ?last then Adding else ph n) = Waiting \<or> n \<in> set (Owned ?m)
      \<or> duty ?p = Some (n, if ?last then Adding else ph n) \<or> (\<exists>j<length ps. j \<noteq> i \<and> duty (ps ! j) = Some (n, if ?last then Adding else ph n))"
    proof (cases ?last)
      case True
      then show ?thesis by (simp add: step)
    next
      case False
      have "j \<noteq> i" if "duty (ps ! j) = Some (n, ph n)" for j using that by (auto simp: pc)
      with D(11) [OF n] False show ?thesis by (auto simp: step(2) add_refs_def)
    qed
    show "n \<in> set (Owned ?m) \<Longrightarrow> (if ?last then Adding else ph n) = User \<and> ?p \<noteq> AddFetch n \<and> duty ?p = None"
      using D(7) [of n] by (simp add: step add_refs_def)
    show "y \<in> set L \<longleftrightarrow> (ph(n := if ?last then Adding else ph n)) y = Listed" for y using D(5) [of y] by auto
  qed (use D last in \<open>auto simp: pc add_refs_def\<close>)
  then show ?thesis by blast
qed

lemma fl_step_inv:
  assumes inv: "fl_inv k ph L m ps" and i: "i < length ps"
  shows "\<exists>ph' L'. fl_inv k ph' L' (snd (fl_step (ps ! i) m)) (ps[i := fst (fl_step (ps ! i) m)])"
proof -
  note quiet = fl_quiet [OF inv i]
  show ?thesis
  proof (cases "ps ! i")
    case Idle
    then show ?thesis using quiet [of Idle] inv by auto
  next
    case (AddFetch n)
    then show ?thesis by (rule fl_add_fetch [OF inv i])
  next
    case (AddLoad n c)
    then show ?thesis using quiet [of "AddNext n (FL_Head m) c"] by auto
  next
    case (AddNext n cur c)
    then show ?thesis by (rule fl_add_next [OF inv i])
  next
    case (AddRefs n cur c)
    then show ?thesis by (rule fl_add_refs [OF inv i])
  next
    case (AddCas n cur c)
    then show ?thesis by (rule fl_add_cas [OF inv i])
  next
    case (AddBack n cur c)
    then show ?thesis by (rule fl_add_back [OF inv i])
  next
    case GetLoad
    then show ?thesis using quiet [of "GetCheck (FL_Head m)"] by auto
  next
    case (GetCheck c)
    then show ?thesis using quiet [of "Returned None"] quiet [of GetLoad] quiet [of "GetInc n (Refs m n)" for n]
      by (auto split: option.splits)
  next
    case (GetInc n r)
    then show ?thesis by (rule fl_get_inc [OF inv i])
  next
    case (GetNext n)
    then show ?thesis by (rule fl_get_next [OF inv i])
  next
    case (GetCas n nx)
    then show ?thesis by (rule fl_get_cas [OF inv i])
  next
    case (GetDec2 n)
    then show ?thesis by (rule fl_get_dec2 [OF inv i])
  next
    case (GetDec1 n c)
    then show ?thesis by (rule fl_get_dec1 [OF inv i])
  next
    case (Returned r)
    then show ?thesis using quiet [of "Returned r"] inv by auto
  qed
qed

lemma resting_cases: "resting p \<Longrightarrow> duty p = None \<and> (\<forall>n. \<not> holds n p)"
  by (cases p) (simp_all add: resting_def)

lemma fl_event_inv:
  assumes inv: "fl_inv k ph L (Mem s) (Threads s)" and step: "fl_event_step e s = Some s'"
  shows "\<exists>ph' L'. fl_inv k ph' L' (Mem s') (Threads s')"
proof (cases e)
  case (Step i)
  with step have i: "i < length (Threads s)" and s': "Mem s' = snd (fl_step (Threads s ! i) (Mem s))"
    "Threads s' = (Threads s)[i := fst (fl_step (Threads s ! i) (Mem s))]" by (auto split: if_splits prod.splits)
  show ?thesis unfolding s' by (rule fl_step_inv [OF inv i])
next
  case (CallTryGet i)
  with step have i: "i < length (Threads s)" "resting (Threads s ! i)" "s' = s\<lparr>Threads := (Threads s)[i := GetLoad]\<rparr>"
    by (auto split: if_splits)
  have "fl_inv k ph L (Mem s) ((Threads s)[i := GetLoad])"
    by (rule fl_quiet [OF inv i(1)]) (use resting_cases [OF i(2)] in simp_all)
  with i(3) show ?thesis by auto
next
  case (CallAdd i n)
  note D = fl_invD [OF inv]
  let ?m = "Mem s\<lparr>Owned := remove1 n (Owned (Mem s))\<rparr>"
  from CallAdd step have i: "i < length (Threads s)" "resting (Threads s ! i)" "n \<in> set (Owned (Mem s))"
    "s' = s\<lparr>Mem := ?m, Threads := (Threads s)[i := AddFetch n]\<rparr>" by (auto split: if_splits)
  have n: "ph n = User" "n < k" using D(7) [OF i(3)] by simp_all
  note rest = resting_cases [OF i(2)]
  have h: "holders n ((Threads s)[i := AddFetch n]) = holders n (Threads s)"
    using holders_upd [OF i(1), of n "AddFetch n"] rest by simp
  have "fl_inv k (ph(n := User)) L ?m ((Threads s)[i := AddFetch n])"
  proof (rule fl_move [OF inv i(1) n(2)])
    show "refs_of User (holders n ((Threads s)[i := AddFetch n])) (Refs ?m n)" using D(6) [of n] n(1) h by simp
    show "fl_pc_ok (FL_Next ?m) (Threads s ! j)" if "j < length (Threads s)" "j \<noteq> i" for j using D(9) [OF that(1)] by simp
    show "User = ph n \<and> duty (AddFetch n) = None \<and> n \<notin> set (Owned ?m)"
      if "j < length (Threads s)" "j \<noteq> i" "duty (Threads s ! j) = Some (n, y)" for j y
      using D(8) [OF that(1,3)] i(3) by simp
  qed (use D n rest in \<open>auto simp: distinct_remove1\<close>)
  with i(4) show ?thesis by auto
qed

lemma fl_run_inv: "fl_inv k ph L (Mem s) (Threads s) \<Longrightarrow> fl_run es s = Some s' \<Longrightarrow> \<exists>ph' L'. fl_inv k ph' L' (Mem s') (Threads s')"
proof (induction es arbitrary: ph L s)
  case (Cons e es)
  then obtain s1 where s1: "fl_event_step e s = Some s1" "fl_run es s1 = Some s'" by (auto simp: bind_eq_Some_conv)
  from fl_event_inv [OF Cons.prems(1) s1(1)] obtain ph1 L1 where "fl_inv k ph1 L1 (Mem s1) (Threads s1)" by blast
  from Cons.IH [OF this s1(2)] show ?case .
qed auto

lemma new_fl_inv: "t < 2 ^ 31 - 1 \<Longrightarrow> fl_inv m (\<lambda>_. User) [] (Mem (new_fl m t)) (Threads (new_fl m t))"
  by (auto simp: fl_inv_def new_fl_def holders_def refs_of_def filter_replicate)

section \<open>Properties\<close>

text \<open>C11. However the accesses of the threads interleave, the nodes that \<^verbatim>\<open>TryGet\<close> has handed out and that
  have not been added again are all different, and none of them is in the list, which stays a proper one.\<close>

theorem FreeList_no_node_twice:
  assumes "fl_run es (new_fl m t) = Some s" "t < 2 ^ 31 - 1"
  shows "\<exists>L. linked (FL_Next (Mem s)) (FL_Head (Mem s)) L \<and> distinct (L @ Owned (Mem s))"
proof -
  obtain ph L where "fl_inv m ph L (Mem s) (Threads s)" using fl_run_inv [OF new_fl_inv [OF assms(2)] assms(1)] by blast
  note D = fl_invD [OF this]
  have "set L \<inter> set (Owned (Mem s)) = {}" using D(5,7) by fastforce
  with D(2-4) show ?thesis by (intro exI [of _ L]) simp
qed

text \<open>
  A thread is about to exchange the head when another takes the node and adds it again: it is not linked in
  under the first one's eyes, but by the first one itself, when it lets go of it.
\<close>

definition aba :: "fl_event list" where
  "aba = CallAdd 0 0 # replicate 5 (Step 0) @ CallTryGet 0 # replicate 4 (Step 0) @ CallTryGet 1 # replicate 6 (Step 1)
     @ CallAdd 1 0 # Step 1 # replicate 8 (Step 0)"

lemma aba_result:
  "map_option (\<lambda>s. (Threads s, Owned (Mem s), FL_Head (Mem s), FL_Next (Mem s) 0, Refs (Mem s) 0)) (fl_run aba (new_fl 2 2))
    = Some ([Returned None, Idle], [1], Some 0, None, 1)"
proof -
  have two: "replicate 2 Idle = [Idle, Idle]" "[0 ..< 2] = [0, 1]" by (simp_all add: numeral_2_eq_2)
  show ?thesis
    by (simp add: aba_def new_fl_def two resting_def add_refs_def AddFlag_def RefsMask_def back_to_def numeral_eq_Suc)
qed

theorem FreeList_no_node_twice_witness:
  "\<exists>s L. fl_run aba (new_fl 2 2) = Some s \<and> linked (FL_Next (Mem s)) (Some 0) L \<and> distinct (L @ [1])"
proof -
  obtain s where s: "fl_run aba (new_fl 2 2) = Some s" "Owned (Mem s) = [1]" "FL_Head (Mem s) = Some 0" using aba_result by auto
  from FreeList_no_node_twice [OF s(1)] s show ?thesis by auto
qed

text \<open>C12. No node is lost: when the threads have returned from their calls, every node is in the list, with a
  count of one, or with a user.\<close>

theorem FreeList_keeps_every_node:
  assumes "fl_run es (new_fl m t) = Some s" "t < 2 ^ 31 - 1" "\<forall>p \<in> set (Threads s). resting p"
  shows "\<exists>L. linked (FL_Next (Mem s)) (FL_Head (Mem s)) L \<and> distinct (L @ Owned (Mem s)) \<and> set (L @ Owned (Mem s)) = {..< m}
    \<and> (\<forall>n \<in> set L. Refs (Mem s) n = 1)"
proof -
  obtain ph L where "fl_inv m ph L (Mem s) (Threads s)" using fl_run_inv [OF new_fl_inv [OF assms(2)] assms(1)] by blast
  note D = fl_invD [OF this]
  have rest: "duty p = None \<and> (\<forall>n. \<not> holds n p)" if "p \<in> set (Threads s)" for p
    using that assms(3) resting_cases by blast
  then have h: "holders n (Threads s) = 0" for n by (simp add: holders_def filter_empty_conv)
  have none: "duty (Threads s ! i) = None" if "i < length (Threads s)" for i using rest [OF nth_mem [OF that]] by simp
  have "n \<in> set L \<or> n \<in> set (Owned (Mem s))" if "n < m" for n
    using D(11) [OF that] D(5) [of n] D(6) [of n] none h by (auto simp: refs_of_def)
  moreover have "n < m" if "n \<in> set L" for n using D(5) [of n] D(12) [of n] that by (cases "m \<le> n") auto
  ultimately have all: "set (L @ Owned (Mem s)) = {..< m}" using D(7) by auto
  have disj: "set L \<inter> set (Owned (Mem s)) = {}" using D(5,7) by fastforce
  have "Refs (Mem s) n = 1" if "n \<in> set L" for n
    using D(5) [of n] D(6) [of n] that h by (simp add: refs_of_def)
  with D(2-4) all disj show ?thesis by (intro exI [of _ L]) simp
qed

theorem FreeList_keeps_every_node_witness:
  "\<exists>s L. fl_run aba (new_fl 2 2) = Some s \<and> linked (FL_Next (Mem s)) (Some 0) L \<and> set (L @ [1]) = {..< 2}"
proof -
  obtain s where s: "fl_run aba (new_fl 2 2) = Some s" "Owned (Mem s) = [1]" "FL_Head (Mem s) = Some 0"
    "Threads s = [Returned None, Idle]" using aba_result by auto
  from FreeList_keeps_every_node [OF s(1)] s show ?thesis by (auto simp: resting_def)
qed

end
