(* ===== verification/Raw_Memory.thy ===== *)
theory Raw_Memory
  imports Prelude
begin

text \<open>
  \<^verbatim>\<open>common/memory.h\<close> and \<^verbatim>\<open>HakleAllocator\<close> of \<^verbatim>\<open>common/allocator.h\<close>: allocation in bytes, construction and destruction
  of objects in raw storage, and the allocator that counts both to report leaks.  The queues are modelled
  over heaps that allocate whole objects; here is what that rests on, and where it stops to be true.
\<close>

section \<open>Storage\<close>

text \<open>The type of the objects: its size, which is not 0, and its alignment.\<close>

record ctype =
  SizeOf :: size_t
  AlignOf :: size_t

text \<open>
  A chunk is what one call of \<^verbatim>\<open>operator new\<close> gave: whether it was the one with an alignment, its bytes, and as
  many slots for objects as they hold.  \<open>BytesLeft\<close> is what the system can still give; beyond it
  \<^verbatim>\<open>std::bad_alloc\<close> is thrown.
\<close>

record 'a chunk =
  ChunkAligned :: bool
  ChunkBytes :: nat
  ChunkSlots :: "'a slots"

record 'a storage =
  Chunks :: "'a chunk store"
  FreshChunk :: addr
  BytesLeft :: nat

text \<open>A pointer that is not null: a chunk and the slot in it.  Memory is given from its first slot.\<close>

type_synonym slot_ptr = "addr \<times> nat"

definition operator_new :: "ctype \<Rightarrow> bool \<Rightarrow> size_t \<Rightarrow> 'a storage \<Rightarrow> slot_ptr res \<times> 'a storage" where
  "operator_new T aligned bytes m =
    (if unat bytes \<le> BytesLeft m
     then (Ret (FreshChunk m, 0), m\<lparr>Chunks := (Chunks m)(FreshChunk m \<mapsto> \<lparr>ChunkAligned = aligned,
         ChunkBytes = unat bytes, ChunkSlots = replicate (unat bytes div unat (SizeOf T)) None\<rparr>),
       FreshChunk := FreshChunk m + 1, BytesLeft := BytesLeft m - unat bytes\<rparr>)
     else (Exn, m))"

text \<open>Deleting the null pointer does nothing; otherwise the pointer is the one that was given, and the form of \<^verbatim>\<open>operator delete\<close> has to be that of \<^verbatim>\<open>operator new\<close>.\<close>

definition operator_delete :: "bool \<Rightarrow> slot_ptr option \<Rightarrow> 'a storage \<Rightarrow> 'a storage option" where
  "operator_delete aligned p m = (case p of None \<Rightarrow> Some m
     | Some (a, i) \<Rightarrow> do {
         c \<leftarrow> Chunks m a;
         if i = 0 \<and> ChunkAligned c = aligned
         then Some (m\<lparr>Chunks := (Chunks m)(a := None), BytesLeft := BytesLeft m + ChunkBytes c\<rparr>) else None })"

definition set_slots :: "addr \<Rightarrow> 'a slots \<Rightarrow> 'a storage \<Rightarrow> 'a storage option" where
  "set_slots a xs m = map_option (\<lambda>cs. m\<lparr>Chunks := cs\<rparr>) (modify (Chunks m) (Some a) (\<lambda>c. c\<lparr>ChunkSlots := xs\<rparr>))"

section \<open>memory.h\<close>

definition RequiresSpecialAlignment :: "ctype \<Rightarrow> bool" where
  "RequiresSpecialAlignment T \<longleftrightarrow> AlignOf T > 16"

definition HakleOperatorNew :: "ctype \<Rightarrow> 'a storage \<Rightarrow> slot_ptr res \<times> 'a storage" where
  "HakleOperatorNew T m = operator_new T (RequiresSpecialAlignment T) (SizeOf T) m"

text \<open>The product is one of \<^verbatim>\<open>std::size_t\<close>.\<close>

definition HakleOperatorNewArray :: "ctype \<Rightarrow> size_t \<Rightarrow> 'a storage \<Rightarrow> slot_ptr res \<times> 'a storage" where
  "HakleOperatorNewArray T N m = operator_new T (RequiresSpecialAlignment T) (N * SizeOf T) m"

definition HakleOperatorDelete :: "ctype \<Rightarrow> slot_ptr option \<Rightarrow> 'a storage \<Rightarrow> 'a storage option" where
  "HakleOperatorDelete T ptr m = operator_delete (RequiresSpecialAlignment T) ptr m"

text \<open>Construction in a slot of a chunk; the constructor throws when its argument is \<open>None\<close>.\<close>

definition HakleConstruct :: "slot_ptr \<Rightarrow> 'a option \<Rightarrow> 'a storage \<Rightarrow> (unit res \<times> 'a storage) option" where
  "HakleConstruct ptr arg m = (case ptr of (a, i) \<Rightarrow> do {
     c \<leftarrow> Chunks m a;
     if i < length (ChunkSlots c) then
       (case arg of None \<Rightarrow> Some (Exn, m)
        | Some v \<Rightarrow> do { xs \<leftarrow> construct_at (ChunkSlots c) i v; m' \<leftarrow> set_slots a xs m; Some (Ret (), m') })
     else None })"

definition destroy_slot :: "addr \<Rightarrow> nat \<Rightarrow> 'a storage \<Rightarrow> 'a storage option" where
  "destroy_slot a i m = do { c \<leftarrow> Chunks m a; xs \<leftarrow> destroy_at (ChunkSlots c) i; set_slots a xs m }"

definition HakleDestroy :: "slot_ptr option \<Rightarrow> 'a storage \<Rightarrow> 'a storage option" where
  "HakleDestroy ptr m = (case ptr of None \<Rightarrow> Some m | Some (a, i) \<Rightarrow> destroy_slot a i m)"

text \<open>The loop, with the number of rounds that are left.\<close>

fun destroy_from :: "addr \<Rightarrow> nat \<Rightarrow> nat \<Rightarrow> 'a storage \<Rightarrow> 'a storage option" where
  "destroy_from a i 0 m = Some m"
| "destroy_from a i (Suc k) m = do { m' \<leftarrow> destroy_slot a i m; destroy_from a (Suc i) k m' }"

definition HakleDestroyArray :: "slot_ptr option \<Rightarrow> size_t \<Rightarrow> 'a storage \<Rightarrow> 'a storage option" where
  "HakleDestroyArray ptr N m = (case ptr of None \<Rightarrow> Some m | Some (a, i) \<Rightarrow> destroy_from a i (unat N) m)"

text \<open>\<^verbatim>\<open>operator new\<close> does not return null, so the test for it is not passed.\<close>

definition HakleNew :: "ctype \<Rightarrow> 'a option \<Rightarrow> 'a storage \<Rightarrow> (slot_ptr res \<times> 'a storage) option" where
  "HakleNew T arg m = (case HakleOperatorNew T m of
     (Exn, m1) \<Rightarrow> Some (Exn, m1)
   | (Ret Ptr, m1) \<Rightarrow> do {
       (r, m2) \<leftarrow> HakleConstruct Ptr arg m1;
       Some (case r of Exn \<Rightarrow> Exn | Ret _ \<Rightarrow> Ret Ptr, m2) })"

definition HakleDelete :: "ctype \<Rightarrow> slot_ptr option \<Rightarrow> 'a storage \<Rightarrow> 'a storage option" where
  "HakleDelete T ptr m = (case ptr of None \<Rightarrow> Some m
     | Some _ \<Rightarrow> do { m1 \<leftarrow> HakleDestroy ptr m; HakleOperatorDelete T ptr m1 })"

definition HakleDeleteArray :: "ctype \<Rightarrow> slot_ptr option \<Rightarrow> size_t \<Rightarrow> 'a storage \<Rightarrow> 'a storage option" where
  "HakleDeleteArray T ptr N m = (case ptr of None \<Rightarrow> Some m
     | Some _ \<Rightarrow> do { m1 \<leftarrow> HakleDestroyArray ptr N m; HakleOperatorDelete T ptr m1 })"

text \<open>The loop of \<^verbatim>\<open>HakleCreateArray\<close>; \<open>ctor i\<close> is what the default constructor makes in round \<open>i\<close>.  An exception leaves it.\<close>

fun construct_from :: "(nat \<Rightarrow> 'a option) \<Rightarrow> addr \<Rightarrow> nat \<Rightarrow> nat \<Rightarrow> 'a storage \<Rightarrow> (unit res \<times> 'a storage) option" where
  "construct_from ctor a i 0 m = Some (Ret (), m)"
| "construct_from ctor a i (Suc k) m = do {
     (r, m') \<leftarrow> HakleConstruct (a, i) (ctor i) m;
     case r of Exn \<Rightarrow> Some (Exn, m') | Ret _ \<Rightarrow> construct_from ctor a (Suc i) k m' }"

definition HakleCreateArray :: "ctype \<Rightarrow> (nat \<Rightarrow> 'a option) \<Rightarrow> size_t \<Rightarrow> 'a storage \<Rightarrow> (slot_ptr res \<times> 'a storage) option" where
  "HakleCreateArray T ctor N m = (case HakleOperatorNewArray T N m of
     (Exn, m1) \<Rightarrow> Some (Exn, m1)
   | (Ret ptr, m1) \<Rightarrow> do {
       (r, m2) \<leftarrow> construct_from ctor (fst ptr) (snd ptr) (unat N) m1;
       Some (case r of Exn \<Rightarrow> Exn | Ret _ \<Rightarrow> Ret ptr, m2) })"

section \<open>Arrays\<close>

text \<open>The chunk \<open>a\<close> of storage \<open>m\<close> has the slots \<open>xs\<close>; with other slots it is \<open>with_slots a xs m\<close>.\<close>

definition with_slots :: "addr \<Rightarrow> 'a slots \<Rightarrow> 'a storage \<Rightarrow> 'a storage" where
  "with_slots a xs m = m\<lparr>Chunks := (Chunks m)(a := map_option (\<lambda>c. c\<lparr>ChunkSlots := xs\<rparr>) (Chunks m a))\<rparr>"

lemma with_slots_simps [simp]:
  "with_slots a ys (with_slots a xs m) = with_slots a ys m"
  "Chunks (with_slots a xs m) a = map_option (\<lambda>c. c\<lparr>ChunkSlots := xs\<rparr>) (Chunks m a)"
  "Chunks m a = Some c \<Longrightarrow> with_slots a (ChunkSlots c) m = m"
  by (auto simp: with_slots_def fun_upd_def option.map_comp comp_def fun_eq_iff intro!: storage.equality)

lemma set_slots_eq: "Chunks m a = Some c \<Longrightarrow> set_slots a xs m = Some (with_slots a xs m)"
  by (simp add: set_slots_def modify_Some with_slots_def)

lemma HakleConstruct_eq:
  assumes "Chunks m a = Some c" "i < length (ChunkSlots c)" "ChunkSlots c ! i = None"
  shows "HakleConstruct (a, i) arg m = Some (case arg of None \<Rightarrow> (Exn, m) | Some v \<Rightarrow> (Ret (), with_slots a ((ChunkSlots c)[i := Some v]) m))"
  using assms by (simp add: HakleConstruct_def set_slots_eq split: option.split)

lemma destroy_slot_eq:
  assumes "Chunks m a = Some c" "i < length (ChunkSlots c)" "ChunkSlots c ! i = Some v"
  shows "destroy_slot a i m = Some (with_slots a ((ChunkSlots c)[i := None]) m)"
  using assms by (simp add: destroy_slot_def set_slots_eq)

text \<open>The loops construct, and destroy, one slot after the other.\<close>

lemma construct_from_eq:
  assumes "Chunks m a = Some c" "ChunkSlots c = List.map Some xs @ replicate n None" "k \<le> n" "\<forall>j < k. ctor (length xs + j) \<noteq> None"
  shows "construct_from ctor a (length xs) k m = Some (Ret (),
    with_slots a (List.map Some xs @ List.map ctor [length xs ..< length xs + k] @ replicate (n - k) None) m)"
  using assms
proof (induction k arbitrary: m c xs n)
  case 0
  from 0(2) have "with_slots a (List.map Some xs @ replicate n None) m = m" using with_slots_simps(3) [OF 0(1)] by simp
  then show ?case by simp
next
  case (Suc k)
  obtain v where v: "ctor (length xs) = Some v" using Suc.prems(4) by fastforce
  obtain n' where n: "n = Suc n'" using Suc.prems(3) by (cases n) auto
  let ?c = "c\<lparr>ChunkSlots := List.map Some (xs @ [v]) @ replicate n' None\<rparr>"
  let ?m = "with_slots a (List.map Some (xs @ [v]) @ replicate n' None) m"
  have step: "HakleConstruct (a, length xs) (ctor (length xs)) m = Some (Ret (), ?m)"
    using HakleConstruct_eq [OF Suc.prems(1), of "length xs" "Some v"] Suc.prems(2) n v by (simp add: nth_append list_update_append)
  have "construct_from ctor a (length (xs @ [v])) k ?m = Some (Ret (), with_slots a (List.map Some (xs @ [v])
      @ List.map ctor [length (xs @ [v]) ..< length (xs @ [v]) + k] @ replicate (n' - k) None) ?m)"
  proof (rule Suc.IH [where c = ?c])
    show "\<forall>j < k. ctor (length (xs @ [v]) + j) \<noteq> None" using Suc.prems(4) by fastforce
  qed (use Suc.prems n in simp_all)
  moreover have "[length xs ..< Suc (length xs + k)] = length xs # [Suc (length xs) ..< Suc (length xs + k)]" by (simp add: upt_conv_Cons)
  ultimately show ?case using step v n by simp
qed

lemma construct_from_split:
  "construct_from ctor a i (k + l) m = do {
     (r, m') \<leftarrow> construct_from ctor a i k m;
     case r of Exn \<Rightarrow> Some (Exn, m') | Ret _ \<Rightarrow> construct_from ctor a (i + k) l m' }"
  by (induction k arbitrary: i m) (auto simp: bind_eq_None_conv split: Option.bind_split prod.split res.split)

lemma destroy_from_eq:
  assumes "Chunks m a = Some c" "ChunkSlots c = replicate i None @ List.map Some xs @ ys"
  shows "destroy_from a i (length xs) m = Some (with_slots a (replicate (i + length xs) None @ ys) m)"
  using assms
proof (induction xs arbitrary: i m c)
  case Nil
  then show ?case using with_slots_simps(3) [OF Nil(1)] by simp
next
  case (Cons v xs)
  have slots: "replicate (Suc i) None = replicate i None @ [None :: 'a option]" by (simp add: replicate_append_same)
  let ?m = "with_slots a (replicate (Suc i) None @ List.map Some xs @ ys) m"
  have "destroy_slot a i m = Some ?m"
    using destroy_slot_eq [OF Cons.prems(1), of i v] Cons.prems(2) unfolding slots by (simp add: nth_append list_update_append)
  moreover have "destroy_from a (Suc i) (length xs) ?m = Some (with_slots a (replicate (Suc i + length xs) None @ ys) ?m)"
    by (rule Cons.IH [where c = "c\<lparr>ChunkSlots := replicate (Suc i) None @ List.map Some xs @ ys\<rparr>"]) (use Cons.prems(1) in simp_all)
  ultimately show ?case by simp
qed

text \<open>Storage in which addresses from \<open>FreshChunk\<close> on are free.\<close>

definition storage_ok :: "'a storage \<Rightarrow> bool" where
  "storage_ok m \<longleftrightarrow> BytesLeft m < 2 ^ 64 \<and> (\<forall>a. FreshChunk m \<le> a \<longrightarrow> Chunks m a = None)"

text \<open>The storage with an array of \<open>N\<close> objects, as many slots as asked for, in the next chunk.\<close>

definition with_array :: "ctype \<Rightarrow> size_t \<Rightarrow> 'a slots \<Rightarrow> 'a storage \<Rightarrow> 'a storage" where
  "with_array T N xs m = m\<lparr>Chunks := (Chunks m)(FreshChunk m \<mapsto> \<lparr>ChunkAligned = RequiresSpecialAlignment T,
     ChunkBytes = unat N * unat (SizeOf T), ChunkSlots = xs\<rparr>),
     FreshChunk := FreshChunk m + 1, BytesLeft := BytesLeft m - unat N * unat (SizeOf T)\<rparr>"

lemma with_array_simps [simp]:
  "with_slots (FreshChunk m) ys (with_array T N xs m) = with_array T N ys m"
  "Chunks (with_array T N xs m) (FreshChunk m) = Some \<lparr>ChunkAligned = RequiresSpecialAlignment T,
     ChunkBytes = unat N * unat (SizeOf T), ChunkSlots = xs\<rparr>"
  by (simp_all add: with_array_def with_slots_def)

lemma array_bytes: "unat N * unat (SizeOf T) < 2 ^ 64 \<Longrightarrow> unat (N * SizeOf T) = unat N * unat (SizeOf T)"
  by (intro unat_mult_lem [THEN iffD1]) simp

lemma HakleOperatorNewArray_fits:
  assumes "storage_ok m" "0 < SizeOf T" "unat N * unat (SizeOf T) \<le> BytesLeft m"
  shows "HakleOperatorNewArray T N m = (Ret (FreshChunk m, 0), with_array T N (replicate (unat N) None) m)"
proof -
  have "unat N * unat (SizeOf T) < 2 ^ 64" using assms(1,3) by (simp add: storage_ok_def)
  note bytes = array_bytes [OF this]
  have "0 < unat (SizeOf T)" using assms(2) by (simp add: word_less_nat_alt)
  with bytes assms(3) show ?thesis by (simp add: HakleOperatorNewArray_def operator_new_def with_array_def)
qed

lemma construct_from_new:
  assumes "k \<le> unat N" "\<forall>i < k. ctor i \<noteq> None"
  shows "construct_from ctor (FreshChunk m) 0 k (with_array T N (replicate (unat N) None) m)
    = Some (Ret (), with_array T N (List.map ctor [0 ..< k] @ replicate (unat N - k) None) m)"
  using construct_from_eq [of "with_array T N (replicate (unat N) None) m" "FreshChunk m" _ "[]" "unat N" k ctor] assms by simp

lemma HakleCreateArray_ok:
  assumes "storage_ok m" "0 < SizeOf T" "unat N * unat (SizeOf T) \<le> BytesLeft m" "\<forall>i < unat N. ctor i \<noteq> None"
  shows "HakleCreateArray T ctor N m = Some (Ret (FreshChunk m, 0), with_array T N (List.map ctor [0 ..< unat N]) m)"
  using construct_from_new [of "unat N" N ctor m T] assms by (simp add: HakleCreateArray_def HakleOperatorNewArray_fits)

lemma HakleCreateArray_throws:
  assumes "storage_ok m" "0 < SizeOf T" "unat N * unat (SizeOf T) \<le> BytesLeft m" "e < unat N" "\<forall>i < e. ctor i \<noteq> None" "ctor e = None"
  shows "HakleCreateArray T ctor N m = Some (Exn, with_array T N (List.map ctor [0 ..< e] @ replicate (unat N - e) None) m)"
proof -
  let ?m = "with_array T N (List.map ctor [0 ..< e] @ replicate (unat N - e) None) m"
  have N: "unat N = e + Suc (unat N - Suc e)" using assms(4) by simp
  have stop: "construct_from ctor (FreshChunk m) e (Suc (unat N - Suc e)) ?m = Some (Exn, ?m)"
    using assms(4,6) by (simp add: HakleConstruct_def)
  have "construct_from ctor (FreshChunk m) 0 (e + Suc (unat N - Suc e)) (with_array T N (replicate (unat N) None) m) = Some (Exn, ?m)"
    unfolding construct_from_split using construct_from_new [of e N ctor m T] assms(4,5) stop by simp
  then have "construct_from ctor (FreshChunk m) 0 (unat N) (with_array T N (replicate (unat N) None) m) = Some (Exn, ?m)"
    by (simp only: N [symmetric])
  with assms(1-3) show ?thesis by (simp add: HakleCreateArray_def HakleOperatorNewArray_fits)
qed

lemma HakleDestroyArray_ok:
  assumes "length xs = unat N"
  shows "HakleDestroyArray (Some (FreshChunk m, 0)) N (with_array T N (List.map Some xs) m) = Some (with_array T N (replicate (unat N) None) m)"
  using destroy_from_eq [of "with_array T N (List.map Some xs) m" "FreshChunk m" _ 0 xs "[]"] assms by (simp add: HakleDestroyArray_def)

lemma HakleDeleteArray_ok:
  assumes "storage_ok m" "unat N * unat (SizeOf T) \<le> BytesLeft m" "length xs = unat N"
  shows "HakleDeleteArray T (Some (FreshChunk m, 0)) N (with_array T N (List.map Some xs) m) = Some (m\<lparr>FreshChunk := FreshChunk m + 1\<rparr>)"
proof -
  have "(Chunks m)(FreshChunk m := None) = Chunks m" using assms(1) by (simp add: storage_ok_def fun_upd_idem)
  then show ?thesis using assms(2) HakleDestroyArray_ok [OF assms(3)]
    by (simp add: HakleDeleteArray_def HakleOperatorDelete_def operator_delete_def) (simp add: with_array_def)
qed

text \<open>Fewer slots than objects: the loop runs over the end of the chunk.\<close>

lemma construct_from_overrun:
  assumes "Chunks m a = Some c" "ChunkSlots c = replicate n None" "\<forall>i < n. ctor i \<noteq> None" "n < k"
  shows "construct_from ctor a 0 k m = None"
proof -
  have "construct_from ctor a (length ([] :: 'a list)) n m = Some (Ret (),
      with_slots a (List.map Some [] @ List.map ctor [length ([] :: 'a list) ..< length ([] :: 'a list) + n] @ replicate (n - n) None) m)"
    by (rule construct_from_eq [OF assms(1)]) (use assms(2,3) in simp_all)
  then have "construct_from ctor a 0 n m = Some (Ret (), with_slots a (List.map ctor [0 ..< n]) m)" by simp
  moreover have "HakleConstruct (a, n) (ctor n) (with_slots a (List.map ctor [0 ..< n]) m) = None"
    using assms(1) by (simp add: HakleConstruct_def)
  ultimately have "construct_from ctor a 0 (n + Suc (k - Suc n)) m = None" unfolding construct_from_split by simp
  with assms(4) show ?thesis by simp
qed

section \<open>Properties\<close>

text \<open>C32. \<^verbatim>\<open>HakleCreateArray\<close> and \<^verbatim>\<open>HakleDeleteArray\<close> are inverse: where the array fits and no default constructor
  throws, the array is created with exactly \<open>N\<close> live objects, object \<open>i\<close> being what constructor call \<open>i\<close> made, and
  deleting it with the same \<open>N\<close> destroys each of them once, gives back every byte with the matching form of
  \<^verbatim>\<open>operator delete\<close>, and leaves all other storage as it was.
\<close>

theorem HakleCreateArray_HakleDeleteArray:
  assumes "storage_ok m" "0 < SizeOf T" "unat N * unat (SizeOf T) \<le> BytesLeft m" "\<forall>i < unat N. ctor i \<noteq> None"
  shows "\<exists>p m'. HakleCreateArray T ctor N m = Some (Ret p, m') \<and>
    map_option ChunkSlots (Chunks m' (fst p)) = Some (List.map ctor [0 ..< unat N]) \<and>
    map_option (\<lambda>m1. map_option ChunkSlots (Chunks m1 (fst p))) (HakleDestroyArray (Some p) N m') = Some (Some (replicate (unat N) None)) \<and>
    HakleDeleteArray T (Some p) N m' = Some (m\<lparr>FreshChunk := FreshChunk m + 1\<rparr>)"
proof -
  have made: "List.map ctor [0 ..< unat N] = List.map Some (List.map (the \<circ> ctor) [0 ..< unat N])" using assms(4) by auto
  have "HakleDeleteArray T (Some (FreshChunk m, 0)) N (with_array T N (List.map ctor [0 ..< unat N]) m) = Some (m\<lparr>FreshChunk := FreshChunk m + 1\<rparr>)"
    unfolding made by (rule HakleDeleteArray_ok) (use assms in simp_all)
  moreover have "HakleDestroyArray (Some (FreshChunk m, 0)) N (with_array T N (List.map ctor [0 ..< unat N]) m)
      = Some (with_array T N (replicate (unat N) None) m)"
    unfolding made by (rule HakleDestroyArray_ok) simp
  ultimately show ?thesis using HakleCreateArray_ok [OF assms] by simp
qed

text \<open>C39. What \<^verbatim>\<open>HakleCreateArray\<close> does where it cannot finish.  A default constructor that throws leaves the function with
  the memory still allocated and the objects made before it alive, which nobody has a pointer to.  And the number of bytes is a
  \<^verbatim>\<open>std::size_t\<close>: where \<open>N\<close> objects need \<open>2 ^ 64\<close> bytes or more it wraps, the request for what is left of it
  succeeds, and the loop constructs over the end of the memory, where \<^verbatim>\<open>new T[N]\<close> would throw.
\<close>

theorem HakleCreateArray_failures:
  assumes "storage_ok m" "0 < SizeOf T"
  shows "(unat N * unat (SizeOf T) \<le> BytesLeft m \<longrightarrow> e < unat N \<longrightarrow> (\<forall>i < e. ctor i \<noteq> None) \<longrightarrow> ctor e = None \<longrightarrow>
      HakleCreateArray T ctor N m = Some (Exn, with_array T N (List.map ctor [0 ..< e] @ replicate (unat N - e) None) m)) \<and>
    (2 ^ 64 \<le> unat N * unat (SizeOf T) \<longrightarrow> unat (N * SizeOf T) \<le> BytesLeft m \<longrightarrow> (\<forall>i < unat N. ctor i \<noteq> None) \<longrightarrow>
      HakleCreateArray T ctor N m = None)"
proof (intro conjI impI)
  assume over: "2 ^ 64 \<le> unat N * unat (SizeOf T)" and fits: "unat (N * SizeOf T) \<le> BytesLeft m" and ok: "\<forall>i < unat N. ctor i \<noteq> None"
  let ?n = "unat (N * SizeOf T) div unat (SizeOf T)"
  have "unat (N * SizeOf T) < 2 ^ 64" using unsigned_less [of "N * SizeOf T"] by simp
  with over have "?n < unat N" by (intro less_mult_imp_div_less) simp
  with ok have "construct_from ctor (FreshChunk m) 0 (unat N) m1 = None"
    if "Chunks m1 (FreshChunk m) = Some c" "ChunkSlots c = replicate ?n None" for m1 c
    using that by (intro construct_from_overrun [where n = ?n]) simp_all
  with fits show "HakleCreateArray T ctor N m = None"
    by (simp add: HakleCreateArray_def HakleOperatorNewArray_def operator_new_def)
qed (use HakleCreateArray_throws assms in blast)

section \<open>Witnesses\<close>

definition empty_storage :: "nat \<Rightarrow> 'a storage" where
  "empty_storage B = \<lparr>Chunks = \<lambda>_. None, FreshChunk = 0, BytesLeft = B\<rparr>"

definition word_type :: ctype where
  "word_type = \<lparr>SizeOf = 8, AlignOf = 8\<rparr>"

lemma HakleCreateArray_HakleDeleteArray_witness:
  "\<exists>p m'. HakleCreateArray word_type (\<lambda>i. Some i) 3 (empty_storage 24) = Some (Ret p, m') \<and>
    map_option ChunkSlots (Chunks m' (fst p)) = Some (List.map Some [0 ..< 3]) \<and>
    map_option (\<lambda>m1. map_option ChunkSlots (Chunks m1 (fst p))) (HakleDestroyArray (Some p) 3 m') = Some (Some (replicate 3 None)) \<and>
    HakleDeleteArray word_type (Some p) 3 m' = Some (empty_storage 24\<lparr>FreshChunk := 1\<rparr>)"
  using HakleCreateArray_HakleDeleteArray [of "empty_storage 24" word_type 3 "\<lambda>i. Some i"]
  by (simp add: empty_storage_def word_type_def storage_ok_def)

text \<open>Two objects of which the second throws; and \<open>2 ^ 61\<close> objects of 8 bytes, for which no byte is asked.\<close>

lemma HakleCreateArray_failures_witness:
  "HakleCreateArray word_type (\<lambda>i. if i = 1 then None else Some i) 2 (empty_storage 24) =
     Some (Exn, with_array word_type 2 [Some 0, None] (empty_storage 24)) \<and>
   HakleCreateArray word_type (\<lambda>i. Some i) (2 ^ 61) (empty_storage 24) = None"
proof -
  have ok: "storage_ok (empty_storage 24)" "0 < SizeOf word_type" by (simp_all add: empty_storage_def word_type_def storage_ok_def)
  have "HakleCreateArray word_type (\<lambda>i. Some i) (2 ^ 61) (empty_storage 24) = None"
    using HakleCreateArray_failures [OF ok, of "2 ^ 61" 0 "\<lambda>i. Some i"] by (simp add: empty_storage_def word_type_def)
  moreover have "HakleCreateArray word_type (\<lambda>i. if i = 1 then None else Some i) 2 (empty_storage 24) =
      Some (Exn, with_array word_type 2 [Some 0, None] (empty_storage 24))"
    using HakleCreateArray_failures [OF ok, of 2 1 "\<lambda>i. if i = 1 then None else Some i"] by (simp add: empty_storage_def word_type_def)
  ultimately show ?thesis by blast
qed

end
