(* ===== verification/Leak_Allocator.thy ===== *)
theory Leak_Allocator
  imports Raw_Memory
begin

text \<open>
  \<^verbatim>\<open>HakleAllocator\<close> of \<^verbatim>\<open>common/allocator.h\<close> in its two forms, the one that only forwards to \<^verbatim>\<open>memory.h\<close> and the
  one with \<^verbatim>\<open>ENABLE_MEMORY_LEAK_DETECTION\<close>, which counts what is allocated and constructed and reports at
  exit what is left.  The storage is that of the one type \<^verbatim>\<open>Tp\<close> of the allocator.
\<close>

section \<open>The allocator that counts\<close>

text \<open>The counters are \<^verbatim>\<open>std::atomic<int>\<close>: 32 bits, wrapping.\<close>

record 'a allocator =
  ConstructCount :: u32
  AllocateCount :: u32
  Storage :: "'a storage"

text \<open>The destructor of \<^verbatim>\<open>Info\<close>: what it prints, if it prints.\<close>

definition Info_report :: "'a allocator \<Rightarrow> (int \<times> int) option" where
  "Info_report s = (if AllocateCount s \<noteq> 0 \<or> ConstructCount s \<noteq> 0
     then Some (sint (AllocateCount s), sint (ConstructCount s)) else None)"

definition HakleAllocator_Allocate :: "ctype \<Rightarrow> 'a allocator \<Rightarrow> slot_ptr res \<times> 'a allocator" where
  "HakleAllocator_Allocate T s = (let s = s\<lparr>AllocateCount := AllocateCount s + 1\<rparr>; (r, m) = HakleOperatorNew T (Storage s)
     in (r, s\<lparr>Storage := m\<rparr>))"

definition HakleAllocator_Allocate_n :: "ctype \<Rightarrow> size_t \<Rightarrow> 'a allocator \<Rightarrow> slot_ptr res \<times> 'a allocator" where
  "HakleAllocator_Allocate_n T n s = (let s = s\<lparr>AllocateCount := AllocateCount s + ucast n\<rparr>;
     (r, m) = HakleOperatorNewArray T n (Storage s) in (r, s\<lparr>Storage := m\<rparr>))"

definition HakleAllocator_Deallocate :: "ctype \<Rightarrow> slot_ptr option \<Rightarrow> 'a allocator \<Rightarrow> 'a allocator option" where
  "HakleAllocator_Deallocate T ptr s = do {
     m \<leftarrow> HakleOperatorDelete T ptr (Storage s);
     Some (s\<lparr>Storage := m, AllocateCount := AllocateCount s - 1\<rparr>) }"

definition HakleAllocator_Deallocate_n :: "ctype \<Rightarrow> slot_ptr option \<Rightarrow> size_t \<Rightarrow> 'a allocator \<Rightarrow> 'a allocator option" where
  "HakleAllocator_Deallocate_n T ptr n s = do {
     s \<leftarrow> HakleAllocator_Deallocate T ptr s;
     Some (s\<lparr>AllocateCount := AllocateCount s - ucast (n - 1)\<rparr>) }"

text \<open>An exception of the constructor leaves before the count.\<close>

definition HakleAllocator_Construct :: "slot_ptr \<Rightarrow> 'a option \<Rightarrow> 'a allocator \<Rightarrow> (unit res \<times> 'a allocator) option" where
  "HakleAllocator_Construct ptr arg s = do {
     (r, m) \<leftarrow> HakleConstruct ptr arg (Storage s);
     let s = s\<lparr>Storage := m\<rparr>;
     Some (r, case r of Exn \<Rightarrow> s | Ret _ \<Rightarrow> s\<lparr>ConstructCount := ConstructCount s + 1\<rparr>) }"

definition HakleAllocator_Destroy :: "slot_ptr option \<Rightarrow> 'a allocator \<Rightarrow> 'a allocator option" where
  "HakleAllocator_Destroy ptr s = do {
     m \<leftarrow> HakleDestroy ptr (Storage s);
     Some (s\<lparr>Storage := m, ConstructCount := ConstructCount s - 1\<rparr>) }"

definition HakleAllocator_Destroy_n :: "slot_ptr option \<Rightarrow> size_t \<Rightarrow> 'a allocator \<Rightarrow> 'a allocator option" where
  "HakleAllocator_Destroy_n ptr n s = do {
     m \<leftarrow> HakleDestroyArray ptr n (Storage s);
     Some (s\<lparr>Storage := m, ConstructCount := ConstructCount s - ucast n\<rparr>) }"

text \<open>\<^verbatim>\<open>last - first\<close>, a \<^verbatim>\<open>std::ptrdiff_t\<close> read as a \<^verbatim>\<open>std::size_t\<close>; only pointers into one array have a difference.\<close>

definition ptr_minus :: "slot_ptr \<Rightarrow> slot_ptr \<Rightarrow> size_t option" where
  "ptr_minus q p = (if fst q = fst p then Some (of_nat (snd q) - of_nat (snd p)) else None)"

text \<open>The operations that change state, as a client calls them through \<^verbatim>\<open>HakeAllocatorTraits\<close>.\<close>

datatype 'a allocator_call =
  Allocate | Allocate_n size_t | Deallocate "slot_ptr option" | Deallocate_n "slot_ptr option" size_t
| Construct slot_ptr "'a option" | Destroy "slot_ptr option" | Destroy_n "slot_ptr option" size_t | Destroy_range slot_ptr slot_ptr

fun allocator_step :: "ctype \<Rightarrow> 'a allocator_call \<Rightarrow> 'a allocator \<Rightarrow> (slot_ptr option res \<times> 'a allocator) option" where
  "allocator_step T Allocate s = (case HakleAllocator_Allocate T s of (r, s) \<Rightarrow> Some (case r of Exn \<Rightarrow> Exn | Ret p \<Rightarrow> Ret (Some p), s))"
| "allocator_step T (Allocate_n n) s = (case HakleAllocator_Allocate_n T n s of (r, s) \<Rightarrow> Some (case r of Exn \<Rightarrow> Exn | Ret p \<Rightarrow> Ret (Some p), s))"
| "allocator_step T (Deallocate p) s = map_option (Pair (Ret None)) (HakleAllocator_Deallocate T p s)"
| "allocator_step T (Deallocate_n p n) s = map_option (Pair (Ret None)) (HakleAllocator_Deallocate_n T p n s)"
| "allocator_step T (Construct p arg) s = map_option (\<lambda>(r, s). (case r of Exn \<Rightarrow> Exn | Ret _ \<Rightarrow> Ret None, s)) (HakleAllocator_Construct p arg s)"
| "allocator_step T (Destroy p) s = map_option (Pair (Ret None)) (HakleAllocator_Destroy p s)"
| "allocator_step T (Destroy_n p n) s = map_option (Pair (Ret None)) (HakleAllocator_Destroy_n p n s)"
| "allocator_step T (Destroy_range p q) s = do { n \<leftarrow> ptr_minus q p; map_option (Pair (Ret None)) (HakleAllocator_Destroy_n (Some p) n s) }"

section \<open>The allocator that does not\<close>

fun plain_step :: "ctype \<Rightarrow> 'a allocator_call \<Rightarrow> 'a storage \<Rightarrow> (slot_ptr option res \<times> 'a storage) option" where
  "plain_step T Allocate m = (case HakleOperatorNew T m of (r, m) \<Rightarrow> Some (case r of Exn \<Rightarrow> Exn | Ret p \<Rightarrow> Ret (Some p), m))"
| "plain_step T (Allocate_n n) m = (case HakleOperatorNewArray T n m of (r, m) \<Rightarrow> Some (case r of Exn \<Rightarrow> Exn | Ret p \<Rightarrow> Ret (Some p), m))"
| "plain_step T (Deallocate p) m = map_option (Pair (Ret None)) (HakleOperatorDelete T p m)"
| "plain_step T (Deallocate_n p n) m = map_option (Pair (Ret None)) (HakleOperatorDelete T p m)"
| "plain_step T (Construct p arg) m = map_option (\<lambda>(r, m). (case r of Exn \<Rightarrow> Exn | Ret _ \<Rightarrow> Ret None, m)) (HakleConstruct p arg m)"
| "plain_step T (Destroy p) m = map_option (Pair (Ret None)) (HakleDestroy p m)"
| "plain_step T (Destroy_n p n) m = map_option (Pair (Ret None)) (HakleDestroyArray p n m)"
| "plain_step T (Destroy_range p q) m = do { n \<leftarrow> ptr_minus q p; map_option (Pair (Ret None)) (HakleDestroyArray (Some p) n m) }"

lemma allocator_step_plain:
  "map_option (map_prod id Storage) (allocator_step T e s) = plain_step T e (Storage s)"
  by (cases e) (auto simp: HakleAllocator_Allocate_def HakleAllocator_Allocate_n_def HakleAllocator_Deallocate_def HakleAllocator_Deallocate_n_def
    HakleAllocator_Construct_def HakleAllocator_Destroy_def HakleAllocator_Destroy_n_def Let_def bind_eq_None_conv
    split: prod.splits res.splits Option.bind_splits)

section \<open>What is there to count\<close>

text \<open>The slots that are allocated and the objects that are alive.\<close>

definition chunk_sum :: "('a chunk \<Rightarrow> nat) \<Rightarrow> 'a storage \<Rightarrow> nat" where
  "chunk_sum f m = (\<Sum>a < FreshChunk m. case Chunks m a of None \<Rightarrow> 0 | Some c \<Rightarrow> f c)"

definition live :: "'a slots \<Rightarrow> nat" where
  "live xs = length (filter (\<lambda>x. x \<noteq> None) xs)"

definition slots_allocated :: "'a storage \<Rightarrow> nat" where
  "slots_allocated = chunk_sum (\<lambda>c. length (ChunkSlots c))"

definition objects_alive :: "'a storage \<Rightarrow> nat" where
  "objects_alive = chunk_sum (\<lambda>c. live (ChunkSlots c))"

definition fresh_ok :: "'a storage \<Rightarrow> bool" where
  "fresh_ok m \<longleftrightarrow> (\<forall>a. FreshChunk m \<le> a \<longrightarrow> Chunks m a = None)"

definition counted :: "'a allocator \<Rightarrow> bool" where
  "counted s \<longleftrightarrow> AllocateCount s = of_nat (slots_allocated (Storage s)) \<and> ConstructCount s = of_nat (objects_alive (Storage s))
     \<and> fresh_ok (Storage s)"

text \<open>
  How the allocator is to be used: memory is there for what is asked, an array is given back with its length
  and after its objects, and the null pointer only as an array of no objects, as \<^verbatim>\<open>BlockPool::Clear\<close> does.
\<close>

definition gives_back :: "nat \<Rightarrow> slot_ptr option \<Rightarrow> 'a storage \<Rightarrow> bool" where
  "gives_back n p m = (case p of None \<Rightarrow> n = 0 | Some (a, i) \<Rightarrow> (case Chunks m a of None \<Rightarrow> False
     | Some c \<Rightarrow> ChunkSlots c = replicate n None))"

fun proper :: "ctype \<Rightarrow> 'a allocator_call \<Rightarrow> 'a storage \<Rightarrow> bool" where
  "proper T Allocate m = (unat (SizeOf T) \<le> BytesLeft m)"
| "proper T (Allocate_n n) m = (unat n * unat (SizeOf T) \<le> BytesLeft m \<and> unat n * unat (SizeOf T) < 2 ^ 64)"
| "proper T (Deallocate p) m = gives_back 1 p m"
| "proper T (Deallocate_n p n) m = gives_back (unat n) p m"
| "proper T (Construct p arg) m = True"
| "proper T (Destroy p) m = (p \<noteq> None)"
| "proper T (Destroy_n p n) m = (p \<noteq> None \<or> n = 0)"
| "proper T (Destroy_range p q) m = True"

lemma fresh_okD: "fresh_ok m \<Longrightarrow> Chunks m a = Some c \<Longrightarrow> a < FreshChunk m"
  by (rule ccontr) (simp add: fresh_ok_def)

lemma chunk_sum_upd:
  assumes "fresh_ok m" "Chunks m a = Some c" "Chunks m' = (Chunks m)(a := x)" "FreshChunk m' = FreshChunk m"
  shows "chunk_sum f m' + f c = chunk_sum f m + (case x of None \<Rightarrow> 0 | Some d \<Rightarrow> f d)" "fresh_ok m'"
proof -
  have a: "a \<in> {..< FreshChunk m}" using fresh_okD [OF assms(1,2)] by simp
  show "chunk_sum f m' + f c = chunk_sum f m + (case x of None \<Rightarrow> 0 | Some d \<Rightarrow> f d)"
    unfolding chunk_sum_def assms(3,4) by (simp add: sum.remove [OF _ a] assms(2))
  show "fresh_ok m'" using assms(1,3,4) a by (simp add: fresh_ok_def)
qed

lemma chunk_sum_new:
  assumes "fresh_ok m" "Chunks m' = (Chunks m)(FreshChunk m \<mapsto> c)" "FreshChunk m' = FreshChunk m + 1"
  shows "chunk_sum f m' = chunk_sum f m + f c" "fresh_ok m'"
  using assms by (simp_all add: chunk_sum_def fresh_ok_def lessThan_Suc)

lemma live_simps [simp]:
  "live [] = 0" "live (None # xs) = live xs" "live (Some v # xs) = Suc (live xs)" "live (replicate n None) = 0"
  by (simp_all add: live_def)

lemma live_construct: "i < length xs \<Longrightarrow> xs ! i = None \<Longrightarrow> live (xs[i := Some v]) = live xs + 1"
proof (induction xs arbitrary: i)
  case (Cons x xs)
  then show ?case by (cases i; cases x) auto
qed simp

lemma live_destroy: "i < length xs \<Longrightarrow> xs ! i = Some v \<Longrightarrow> live (xs[i := None]) + 1 = live xs"
proof (induction xs arbitrary: i)
  case (Cons x xs)
  then show ?case by (cases i; cases x) auto
qed simp

text \<open>What \<^verbatim>\<open>memory.h\<close> does to the two numbers.\<close>

definition amounts :: "'a storage \<Rightarrow> nat \<Rightarrow> nat \<Rightarrow> bool" where
  "amounts m n k \<longleftrightarrow> fresh_ok m \<and> slots_allocated m = n \<and> objects_alive m = k"

lemma amounts_upd:
  assumes "amounts m n k" "Chunks m a = Some c" "Chunks m' = (Chunks m)(a := x)" "FreshChunk m' = FreshChunk m"
  shows "fresh_ok m'"
    "slots_allocated m' + length (ChunkSlots c) = n + (case x of None \<Rightarrow> 0 | Some d \<Rightarrow> length (ChunkSlots d))"
    "objects_alive m' + live (ChunkSlots c) = k + (case x of None \<Rightarrow> 0 | Some d \<Rightarrow> live (ChunkSlots d))"
  using chunk_sum_upd(2) [OF _ assms(2-4)] chunk_sum_upd(1) [OF _ assms(2-4), of "\<lambda>c. length (ChunkSlots c)"]
    chunk_sum_upd(1) [OF _ assms(2-4), of "\<lambda>c. live (ChunkSlots c)"] assms(1)
  by (auto simp: amounts_def slots_allocated_def objects_alive_def)

lemma with_slots_amounts:
  assumes "amounts m n k" "Chunks m a = Some c" "length xs = length (ChunkSlots c)" "live xs + k = live (ChunkSlots c) + k'"
  shows "amounts (with_slots a xs m) n k'"
  using amounts_upd [OF assms(1,2), of "with_slots a xs m" "Some (c\<lparr>ChunkSlots := xs\<rparr>)"] assms(2-4)
  by (simp add: amounts_def) (simp add: with_slots_def)

lemma operator_new_amounts:
  assumes "amounts m n k" "operator_new T al bytes m = (Ret p, m')"
  shows "amounts m' (n + unat bytes div unat (SizeOf T)) k"
proof -
  let ?c = "\<lparr>ChunkAligned = al, ChunkBytes = unat bytes, ChunkSlots = replicate (unat bytes div unat (SizeOf T)) None\<rparr> :: 'a chunk"
  have m': "Chunks m' = (Chunks m)(FreshChunk m \<mapsto> ?c)" "FreshChunk m' = FreshChunk m + 1"
    using assms(2) by (auto simp: operator_new_def split: if_splits)
  have "fresh_ok m" using assms(1) by (simp add: amounts_def)
  note new = chunk_sum_new [OF this m']
  show ?thesis using assms(1) new(2) new(1) [of "\<lambda>c. length (ChunkSlots c)"] new(1) [of "\<lambda>c. live (ChunkSlots c)"]
    by (simp add: amounts_def slots_allocated_def objects_alive_def)
qed

lemma operator_delete_amounts:
  assumes "amounts m (n + j) k" "operator_delete al p m = Some m'" "gives_back j p m"
  shows "amounts m' n k"
proof (cases p)
  case None
  then show ?thesis using assms by (simp add: gives_back_def operator_delete_def)
next
  case (Some q)
  then obtain a i c where c: "p = Some (a, i)" "Chunks m a = Some c" "ChunkSlots c = replicate j None"
    using assms(3) by (auto simp: gives_back_def split: option.splits)
  have "m' = m\<lparr>Chunks := (Chunks m)(a := None), BytesLeft := BytesLeft m + ChunkBytes c\<rparr>"
    using assms(2) by (simp add: operator_delete_def c(1,2) split: if_splits)
  then have "Chunks m' = (Chunks m)(a := None)" "FreshChunk m' = FreshChunk m" by simp_all
  from amounts_upd [OF assms(1) c(2) this] c(3) show ?thesis by (simp add: amounts_def)
qed

lemma gives_back_le:
  assumes "amounts m n k" "gives_back j p m"
  shows "j \<le> n"
proof (cases p)
  case None
  then show ?thesis using assms by (simp add: gives_back_def)
next
  case (Some q)
  then obtain a i c where c: "p = Some (a, i)" "Chunks m a = Some c" "ChunkSlots c = replicate j None"
    using assms(2) by (auto simp: gives_back_def split: option.splits)
  show ?thesis using amounts_upd(2) [OF assms(1) c(2), of "m\<lparr>Chunks := (Chunks m)(a := None)\<rparr>" None] c(3) by simp
qed

lemma HakleConstruct_amounts:
  assumes "amounts m n k" "HakleConstruct p arg m = Some (r, m')"
  shows "amounts m' n (if r = Exn then k else k + 1)"
proof (cases arg)
  case None
  with assms show ?thesis by (auto simp: HakleConstruct_def split: prod.splits if_splits Option.bind_splits)
next
  case (Some v)
  obtain a i where p: "p = (a, i)" by (cases p)
  obtain c where c: "Chunks m a = Some c" "i < length (ChunkSlots c)" "ChunkSlots c ! i = None" "r = Ret ()"
      "m' = with_slots a ((ChunkSlots c)[i := Some v]) m"
    using assms(2) Some p by (auto simp: HakleConstruct_def set_slots_eq split: if_splits Option.bind_splits dest: construct_at_SomeD)
  with with_slots_amounts [OF assms(1) c(1), of "(ChunkSlots c)[i := Some v]" "k + 1"] show ?thesis by (simp add: live_construct)
qed

lemma destroy_slot_amounts:
  assumes "amounts m n k" "destroy_slot a i m = Some m'"
  shows "0 < k \<and> amounts m' n (k - 1)"
proof -
  obtain c v where c: "Chunks m a = Some c" "i < length (ChunkSlots c)" "ChunkSlots c ! i = Some v" "m' = with_slots a ((ChunkSlots c)[i := None]) m"
    using assms(2) by (auto simp: destroy_slot_def set_slots_eq split: Option.bind_splits dest: destroy_at_SomeD)
  have "live ((ChunkSlots c)[i := None]) + 1 = live (ChunkSlots c)" using c by (intro live_destroy)
  moreover have "live (ChunkSlots c) \<le> k" using amounts_upd(3) [OF assms(1) c(1), of "m\<lparr>Chunks := (Chunks m)(a := None)\<rparr>" None] by simp
  ultimately show ?thesis using with_slots_amounts [OF assms(1) c(1), of "(ChunkSlots c)[i := None]" "k - 1"] c(4) by simp
qed

lemma destroy_from_amounts:
  "amounts m n k \<Longrightarrow> destroy_from a i j m = Some m' \<Longrightarrow> j \<le> k \<and> amounts m' n (k - j)"
proof (induction j arbitrary: i m k)
  case (Suc j)
  then obtain m1 where "destroy_slot a i m = Some m1" "destroy_from a (Suc i) j m1 = Some m'" by (auto split: Option.bind_splits)
  with Suc.IH [of m1 "k - 1" "Suc i"] destroy_slot_amounts [OF Suc.prems(1)] show ?case by fastforce
qed simp

lemma counted_amounts:
  "counted s \<longleftrightarrow> (\<exists>n k. amounts (Storage s) n k \<and> AllocateCount s = of_nat n \<and> ConstructCount s = of_nat k)"
  by (auto simp: counted_def amounts_def)

text \<open>\<^verbatim>\<open>static_cast<int>\<close> goes through sums and differences.\<close>

lemma of_nat_add_ucast: "of_nat (n + unat (N :: size_t)) = (of_nat n + ucast N :: u32)"
  by simp

lemma ucast_diff: "(ucast (a - b :: size_t) :: u32) = ucast a - ucast b"
proof transfer
  fix a b :: int
  have "take_bit 32 (take_bit 64 a - take_bit 64 b) = take_bit 32 (take_bit 32 (take_bit 64 a) - take_bit 32 (take_bit 64 b))"
    by (simp only: take_bit_diff)
  also have "\<dots> = take_bit 32 (take_bit 32 a - take_bit 32 b)" by simp
  finally have "take_bit 32 (take_bit 64 (a - b)) = take_bit 32 (take_bit 64 a - take_bit 64 b)" by (simp add: take_bit_diff)
  then show "take_bit LENGTH(32) (take_bit LENGTH(64) (a - b)) = take_bit LENGTH(32) (take_bit LENGTH(64) a - take_bit LENGTH(64) b)" by simp
qed

lemma countedI:
  "amounts m n k \<Longrightarrow> Storage s = m \<Longrightarrow> AllocateCount s = of_nat n \<Longrightarrow> ConstructCount s = of_nat k \<Longrightarrow> counted s"
  unfolding counted_amounts by blast

text \<open>Each operation keeps the counts.\<close>

lemma HakleAllocator_Allocate_n_counted:
  assumes "counted s" "0 < SizeOf T" "proper T (Allocate_n N) (Storage s)" "HakleAllocator_Allocate_n T N s = (r, s')"
  shows "counted s'"
proof -
  obtain n k where n: "amounts (Storage s) n k" "AllocateCount s = of_nat n" "ConstructCount s = of_nat k"
    using assms(1) by (auto simp: counted_amounts)
  have bytes: "unat (N * SizeOf T) = unat N * unat (SizeOf T)" using assms(3) by (intro array_bytes) simp
  have pos: "0 < unat (SizeOf T)" using assms(2) by (simp add: word_less_nat_alt)
  obtain p m where m: "HakleOperatorNewArray T N (Storage s) = (Ret p, m)"
    using assms(3) bytes by (simp add: HakleOperatorNewArray_def operator_new_def)
  have "amounts m (n + unat N) k"
    using operator_new_amounts [OF n(1) m [unfolded HakleOperatorNewArray_def]] bytes pos by simp
  then show ?thesis
  proof (rule countedI)
    have s': "s' = s\<lparr>AllocateCount := AllocateCount s + ucast N, Storage := m\<rparr>"
      using assms(4) m by (simp add: HakleAllocator_Allocate_n_def)
    show "Storage s' = m" "AllocateCount s' = of_nat (n + unat N)" "ConstructCount s' = of_nat k"
      by (simp_all only: s' n(2,3) of_nat_add_ucast) (simp_all add: n(2,3))
  qed
qed

lemma HakleAllocator_Allocate_counted:
  assumes "counted s" "0 < SizeOf T" "proper T Allocate (Storage s)" "HakleAllocator_Allocate T s = (r, s')"
  shows "counted s'"
proof (rule HakleAllocator_Allocate_n_counted [OF assms(1,2), of 1])
  show "proper T (Allocate_n 1) (Storage s)" using assms(3) unsigned_less [of "SizeOf T"] by simp
  show "HakleAllocator_Allocate_n T 1 s = (r, s')"
    using assms(4) by (simp add: HakleAllocator_Allocate_n_def HakleAllocator_Allocate_def HakleOperatorNewArray_def HakleOperatorNew_def)
qed

lemma HakleAllocator_Deallocate_n_counted:
  assumes "counted s" "proper T (Deallocate_n p N) (Storage s)" "HakleAllocator_Deallocate_n T p N s = Some s'"
  shows "counted s'"
proof -
  obtain n k where n: "amounts (Storage s) n k" "AllocateCount s = of_nat n" "ConstructCount s = of_nat k"
    using assms(1) by (auto simp: counted_amounts)
  obtain m where m: "operator_delete (RequiresSpecialAlignment T) p (Storage s) = Some m"
    "s' = s\<lparr>Storage := m, AllocateCount := AllocateCount s - 1 - ucast (N - 1)\<rparr>"
    using assms(3) by (auto simp: HakleAllocator_Deallocate_n_def HakleAllocator_Deallocate_def HakleOperatorDelete_def split: Option.bind_splits)
  have le: "unat N \<le> n" using gives_back_le [OF n(1)] assms(2) by simp
  then obtain d where d: "n = d + unat N" using le_Suc_ex by (metis add.commute)
  have "amounts m d k" by (rule operator_delete_amounts [OF _ m(1)]) (use n(1) d assms(2) in simp_all)
  then show ?thesis unfolding m(2) by (rule countedI) (simp_all add: n(2,3) d ucast_diff)
qed

lemma HakleAllocator_Deallocate_counted:
  assumes "counted s" "proper T (Deallocate p) (Storage s)" "HakleAllocator_Deallocate T p s = Some s'"
  shows "counted s'"
  by (rule HakleAllocator_Deallocate_n_counted [OF assms(1), of T p 1]) (use assms(2,3) in \<open>simp_all add: HakleAllocator_Deallocate_n_def\<close>)

lemma HakleAllocator_Construct_counted:
  assumes "counted s" "HakleAllocator_Construct p arg s = Some (r, s')"
  shows "counted s'"
proof -
  obtain n k where n: "amounts (Storage s) n k" "AllocateCount s = of_nat n" "ConstructCount s = of_nat k"
    using assms(1) by (auto simp: counted_amounts)
  obtain m where m: "HakleConstruct p arg (Storage s) = Some (r, m)"
    "s' = (case r of Exn \<Rightarrow> s\<lparr>Storage := m\<rparr> | Ret _ \<Rightarrow> s\<lparr>Storage := m, ConstructCount := ConstructCount s + 1\<rparr>)"
    using assms(2) by (auto simp: HakleAllocator_Construct_def Let_def split: Option.bind_splits res.splits)
  show ?thesis using HakleConstruct_amounts [OF n(1) m(1)]
    by (rule countedI) (simp_all add: m(2) n(2,3) split: res.split)
qed

lemma HakleAllocator_Destroy_n_counted:
  assumes "counted s" "p \<noteq> None \<or> N = 0" "HakleAllocator_Destroy_n p N s = Some s'"
  shows "counted s'"
proof (cases "p = None")
  case True
  then show ?thesis using assms by (simp add: HakleAllocator_Destroy_n_def HakleDestroyArray_def)
next
  case False
  obtain n k where n: "amounts (Storage s) n k" "AllocateCount s = of_nat n" "ConstructCount s = of_nat k"
    using assms(1) by (auto simp: counted_amounts)
  obtain a i where p: "p = Some (a, i)" using False by auto
  obtain m where m: "destroy_from a i (unat N) (Storage s) = Some m"
    "s' = s\<lparr>Storage := m, ConstructCount := ConstructCount s - ucast N\<rparr>"
    using assms(3) by (auto simp: HakleAllocator_Destroy_n_def HakleDestroyArray_def p split: Option.bind_splits)
  from destroy_from_amounts [OF n(1) m(1)] obtain d where d: "k = d + unat N" "amounts m n d"
    by (metis add_diff_cancel_left' add.commute le_Suc_ex)
  from d(2) show ?thesis unfolding m(2) by (rule countedI) (simp_all add: n(2,3) d(1))
qed

lemma HakleAllocator_Destroy_counted:
  assumes "counted s" "p \<noteq> None" "HakleAllocator_Destroy p s = Some s'"
  shows "counted s'"
  by (rule HakleAllocator_Destroy_n_counted [of s p 1])
    (use assms in \<open>auto simp: HakleAllocator_Destroy_n_def HakleAllocator_Destroy_def HakleDestroyArray_def HakleDestroy_def
      split: Option.bind_splits\<close>)

lemmas counted_intros = HakleAllocator_Allocate_counted HakleAllocator_Allocate_n_counted HakleAllocator_Deallocate_counted
  HakleAllocator_Deallocate_n_counted HakleAllocator_Construct_counted HakleAllocator_Destroy_counted HakleAllocator_Destroy_n_counted

lemma allocator_step_counted:
  assumes "allocator_step T e s = Some (r, s')" "counted s" "0 < SizeOf T" "proper T e (Storage s)"
  shows "counted s'"
  using assms(1,2,4)
  by (cases e) (auto intro: counted_intros [OF assms(2)] counted_intros(1,2) [OF assms(2,3)] split: prod.splits Option.bind_splits)

text \<open>Calls in a row, each of them proper and none of them undefined; a new allocator has \<open>B\<close> bytes to give.\<close>

fun allocator_run :: "ctype \<Rightarrow> 'a allocator_call list \<Rightarrow> 'a allocator \<Rightarrow> 'a allocator option" where
  "allocator_run T [] s = Some s"
| "allocator_run T (e # es) s = (if proper T e (Storage s)
     then do { (_, s') \<leftarrow> allocator_step T e s; allocator_run T es s' } else None)"

definition new_allocator :: "nat \<Rightarrow> 'a allocator" where
  "new_allocator B = \<lparr>ConstructCount = 0, AllocateCount = 0, Storage = \<lparr>Chunks = \<lambda>_. None, FreshChunk = 0, BytesLeft = B\<rparr>\<rparr>"

lemma new_allocator_counted: "counted (new_allocator B)"
  by (simp add: counted_def new_allocator_def slots_allocated_def objects_alive_def chunk_sum_def fresh_ok_def)

lemma allocator_run_counted:
  "allocator_run T es s = Some s' \<Longrightarrow> counted s \<Longrightarrow> 0 < SizeOf T \<Longrightarrow> counted s'"
  by (induction es arbitrary: s) (auto split: if_splits Option.bind_splits dest: allocator_step_counted)

lemma of_nat_u32_eq_0: "n < 2 ^ 32 \<Longrightarrow> (of_nat n :: u32) = 0 \<longleftrightarrow> n = 0"
  by (auto simp: word_of_nat_eq_0_iff dest: dvd_imp_le)

section \<open>Properties\<close>

text \<open>C40. Leak detection is transparent: on every call, whatever its arguments and with every outcome, exceptions
  and undefined behaviour included, the allocator with \<^verbatim>\<open>ENABLE_MEMORY_LEAK_DETECTION\<close> returns what the allocator without it returns and
  leaves the storage as that one does.
\<close>

theorem HakleAllocator_detection_transparent:
  "map_option (map_prod id Storage) (allocator_step T e s) = plain_step T e (Storage s)"
  by (rule allocator_step_plain)

text \<open>C31. Leak detection is right where the allocator is used as it is meant to be: after any calls in which no memory ran
  out, arrays were given back with their length and after their objects, and the null pointer only as an array of none, the counters
  are the number of slots still allocated and the number of objects still alive, as far as an \<^verbatim>\<open>int\<close> holds them, constructors that threw
  included.  The report at exit is then silent exactly when nothing is left.
\<close>

theorem HakleAllocator_counts:
  assumes "allocator_run T es (new_allocator B) = Some s" "0 < SizeOf T"
  shows "AllocateCount s = of_nat (slots_allocated (Storage s)) \<and> ConstructCount s = of_nat (objects_alive (Storage s)) \<and>
    (slots_allocated (Storage s) < 2 ^ 32 \<longrightarrow> objects_alive (Storage s) < 2 ^ 32 \<longrightarrow>
      (Info_report s = None \<longleftrightarrow> slots_allocated (Storage s) = 0 \<and> objects_alive (Storage s) = 0))"
proof -
  have "counted s" by (rule allocator_run_counted [OF assms(1) new_allocator_counted assms(2)])
  then show ?thesis by (simp add: counted_def Info_report_def of_nat_u32_eq_0)
qed

text \<open>
  The counter is raised before the memory is there.  When \<^verbatim>\<open>operator new\<close> throws, \<^verbatim>\<open>Allocate( n )\<close> leaves with the storage as it was
  and \<open>n\<close> on the counter, so a client that handles \<^verbatim>\<open>std::bad_alloc\<close> as it should and frees all it has is told of a leak of \<open>n\<close>.
\<close>

theorem HakleAllocator_false_leak:
  assumes "Info_report s = None" "BytesLeft (Storage s) < unat (n * SizeOf T)" "(ucast n :: u32) \<noteq> 0"
  shows "\<exists>s'. HakleAllocator_Allocate_n T n s = (Exn, s') \<and> Storage s' = Storage s \<and> Info_report s' = Some (sint (ucast n :: u32), 0)"
  using assms by (simp add: HakleAllocator_Allocate_n_def HakleOperatorNewArray_def operator_new_def Info_report_def split: if_splits)

section \<open>Witnesses\<close>

definition example_calls :: "string allocator_call list" where
  "example_calls = [Allocate_n 2, Construct (0, 0) (Some ''a''), Construct (0, 1) None, Construct (0, 1) (Some ''c''), Destroy_range (0, 0) (0, 1)]"

definition example_type :: ctype where
  "example_type = \<lparr>SizeOf = 8, AlignOf = 32\<rparr>"

lemma replicate_two: "replicate 2 x = [x, x]"
  by (simp add: numeral_2_eq_2)

lemma example_run:
  "\<exists>s. allocator_run example_type example_calls (new_allocator 100) = Some s
     \<and> slots_allocated (Storage s) = 2 \<and> objects_alive (Storage s) = 1"
  by (simp add: example_type_def example_calls_def new_allocator_def ptr_minus_def HakleAllocator_Allocate_n_def HakleOperatorNewArray_def
      operator_new_def HakleAllocator_Construct_def HakleConstruct_def set_slots_def modify_Some HakleAllocator_Destroy_n_def HakleDestroyArray_def
      destroy_slot_def slots_allocated_def objects_alive_def chunk_sum_def replicate_two Let_def)

lemma HakleAllocator_counts_witness:
  "\<exists>s. allocator_run example_type example_calls (new_allocator 100) = Some s \<and> AllocateCount s = 2 \<and> ConstructCount s = 1"
proof -
  obtain s where s: "allocator_run example_type example_calls (new_allocator 100) = Some s"
    "slots_allocated (Storage s) = 2" "objects_alive (Storage s) = 1" using example_run by blast
  have "0 < SizeOf example_type" by (simp add: example_type_def)
  from HakleAllocator_counts [OF s(1) this] s show ?thesis by simp
qed

lemma HakleAllocator_false_leak_witness:
  "\<exists>s'. HakleAllocator_Allocate_n \<lparr>SizeOf = 8, AlignOf = 8\<rparr> 5 (new_allocator 39 :: nat allocator) = (Exn, s')
     \<and> Storage s' = Storage (new_allocator 39) \<and> Info_report s' = Some (5, 0)"
  using HakleAllocator_false_leak [of "new_allocator 39 :: nat allocator" 5 "\<lparr>SizeOf = 8, AlignOf = 8\<rparr>"]
  by (simp add: new_allocator_def Info_report_def)

end
