(* ===== verification/Spsc_Steps.thy ===== *)
theory Spsc_Steps
  imports Spsc_Queue_Correct
begin

text \<open>
  \<^verbatim>\<open>ReaderWriterQueue\<close> with its producer and its consumer at work at once: \<^verbatim>\<open>InnerEnqueue\<close> and \<^verbatim>\<open>TryDequeue\<close>, one
  access of an atomic variable at a time, in any interleaving.  Each thread sees the accesses of the other in one
  order.  The debug guards are left out: they look for a second thread in a role, and there is one of each here.
  Shown is that no step is undefined, that the values come out in order, and what an empty answer means.
\<close>

section \<open>The producer\<close>

text \<open>
  Where the producer is in \<^verbatim>\<open>InnerEnqueue\<close>, with its locals; \<open>arg = None\<close> is a constructor that throws.  The names are those of
  the access to come: the tail and the front of \<^verbatim>\<open>CurrentBlock\<close>, the construction, the store of the new tail; the next block
  and \<^verbatim>\<open>FrontBlock\<close>; the same in the next block; the store of \<^verbatim>\<open>TailBlock\<close>; the new block and its two links.
\<close>

datatype 'a put_pc = PIdle | PBegin RWAllocMode "'a option" | PTail RWAllocMode "'a option" addr
  | PFront RWAllocMode "'a option" addr size_t | PConstruct "'a option" addr size_t | PPublish 'a addr size_t
  | PNext RWAllocMode "'a option" addr | PFrontBlock RWAllocMode "'a option" addr "addr option"
  | PNext2 "'a option" addr | PNextTail "'a option" addr | PNextFront "'a option" addr size_t
  | PNextConstruct "'a option" addr size_t | PNextPublish 'a addr size_t | PTailBlock addr
  | PMake "'a option" addr | PLink 'a addr addr | PJoin 'a addr addr | PReturned enq_result

fun put_step :: "size_t \<Rightarrow> 'a put_pc \<Rightarrow> rwq \<Rightarrow> 'a rwheap \<Rightarrow> ('a put_pc \<times> rwq \<times> 'a rwheap) option" where
  "put_step EXP (PBegin mode arg) q h = do { a \<leftarrow> RWTailBlock q; Some (PTail mode arg a, q, h) }"
| "put_step EXP (PTail mode arg a) q h = do {
     b \<leftarrow> RWBlocks h a;
     Some (if (Tail b + 1) AND SizeMask b \<noteq> LocalFront b then PConstruct arg a (Tail b) else PFront mode arg a (Tail b), q, h) }"
| "put_step EXP (PFront mode arg a BlockTail) q h = do {
     b \<leftarrow> RWBlocks h a;
     let b1 = b\<lparr>LocalFront := Front b\<rparr>;
     Some (if (BlockTail + 1) AND SizeMask b1 \<noteq> LocalFront b1 then PConstruct arg a BlockTail else PNext mode arg a, q, rput a b1 h) }"
| "put_step EXP (PConstruct arg a BlockTail) q h = do {
     b \<leftarrow> RWBlocks h a;
     case arg of None \<Rightarrow> Some (PReturned Threw, q, h)
     | Some v \<Rightarrow> do {
         d \<leftarrow> construct_at (Data b) (unat BlockTail) v;
         Some (PPublish v a ((BlockTail + 1) AND SizeMask b), q, rput a (b\<lparr>Data := d\<rparr>) h) } }"
| "put_step EXP (PPublish v a NextBlockTail) q h = do {
     b \<leftarrow> RWBlocks h a;
     Some (PReturned (Returned True), q, rput a (b\<lparr>Tail := NextBlockTail\<rparr>) h) }"
| "put_step EXP (PNext mode arg a) q h = do { b \<leftarrow> RWBlocks h a; Some (PFrontBlock mode arg a (RWNext b), q, h) }"
| "put_step EXP (PFrontBlock mode arg a n) q h =
     Some (if n \<noteq> FrontBlock q then PNext2 arg a
       else if mode = RWAllocMode.CanAlloc then PMake arg a else PReturned (Returned False), q, h)"
| "put_step EXP (PNext2 arg a) q h = do { b \<leftarrow> RWBlocks h a; n \<leftarrow> RWNext b; Some (PNextTail arg n, q, h) }"
| "put_step EXP (PNextTail arg n) q h = do { b \<leftarrow> RWBlocks h n; Some (PNextFront arg n (Tail b), q, h) }"
| "put_step EXP (PNextFront arg n NextBlockTail) q h = do {
     b \<leftarrow> RWBlocks h n;
     let b1 = b\<lparr>LocalFront := Front b\<rparr>;
     if LocalFront b1 \<noteq> NextBlockTail then None else Some (PNextConstruct arg n NextBlockTail, q, rput n b1 h) }"
| "put_step EXP (PNextConstruct arg n NextBlockTail) q h = do {
     b \<leftarrow> RWBlocks h n;
     case arg of None \<Rightarrow> Some (PReturned Threw, q, h)
     | Some v \<Rightarrow> do {
         d \<leftarrow> construct_at (Data b) (unat NextBlockTail) v;
         Some (PNextPublish v n ((NextBlockTail + 1) AND SizeMask b), q, rput n (b\<lparr>Data := d\<rparr>) h) } }"
| "put_step EXP (PNextPublish v n NewTail) q h = do {
     b \<leftarrow> RWBlocks h n;
     Some (PTailBlock n, q, rput n (b\<lparr>Tail := NewTail\<rparr>) h) }"
| "put_step EXP (PTailBlock n) q h = Some (PReturned (Returned True), q\<lparr>RWTailBlock := Some n\<rparr>, h)"
| "put_step EXP (PMake arg a) q h =
     (let Size = BlockSize q;
          Size = (if Size < EXP then (if Size * 2 > EXP then EXP else Size * 2) else Size);
          q1 = q\<lparr>BlockSize := Size\<rparr> in
      case MakeBlock Size h of Terminate \<Rightarrow> Some (PReturned Terminated, q1, h)
      | Made (n, h1) \<Rightarrow>
         (case arg of None \<Rightarrow> Some (PReturned Threw, q1, h1)
          | Some v \<Rightarrow> do {
              nb \<leftarrow> RWBlocks h1 n;
              d \<leftarrow> construct_at (Data nb) 0 v;
              if Front nb \<noteq> 0 then None
              else Some (PLink v a n, q1, rput n (nb\<lparr>Data := d, Tail := 1, LocalTail := 1\<rparr>) h1) }))"
| "put_step EXP (PLink v a n) q h = do {
     cb \<leftarrow> RWBlocks h a;
     h1 \<leftarrow> set_next n (RWNext cb) h;
     Some (PJoin v a n, q, h1) }"
| "put_step EXP (PJoin v a n) q h = do { h1 \<leftarrow> set_next a (Some n) h; Some (PTailBlock n, q, h1) }"
| "put_step EXP PIdle q h = Some (PIdle, q, h)"
| "put_step EXP (PReturned r) q h = Some (PReturned r, q, h)"

section \<open>The consumer\<close>

text \<open>The same for \<^verbatim>\<open>TryDequeue\<close>: the front and the cached tail, \<^verbatim>\<open>TailBlock\<close>, the two loads of the tail, the next block, and the element.\<close>

datatype 'a get_pc = GIdle | GBegin | GFront addr | GTailBlock addr size_t size_t | GTail addr size_t | GTail2 addr size_t
  | GNext addr | GNextFront addr | GNextTail addr size_t | GFrontBlock addr size_t | GTake addr size_t | GPublish 'a addr size_t
  | GReturned "'a option"

fun get_step :: "'a get_pc \<Rightarrow> rwq \<Rightarrow> 'a rwheap \<Rightarrow> ('a get_pc \<times> rwq \<times> 'a rwheap) option" where
  "get_step GBegin q h = do { a \<leftarrow> FrontBlock q; Some (GFront a, q, h) }"
| "get_step (GFront a) q h = do { b \<leftarrow> RWBlocks h a; Some (GTailBlock a (Front b) (LocalTail b), q, h) }"
| "get_step (GTailBlock a BlockFront BlockTail) q h =
     Some (if Some a \<noteq> RWTailBlock q then GTail a BlockFront
       else if BlockFront \<noteq> BlockTail then GTake a BlockFront else GTail2 a BlockFront, q, h)"
| "get_step (GTail a BlockFront) q h = do {
     b \<leftarrow> RWBlocks h a;
     let b1 = b\<lparr>LocalTail := Tail b\<rparr>;
     Some (if BlockFront = LocalTail b1 then GNext a else GTake a BlockFront, q, rput a b1 h) }"
| "get_step (GTail2 a BlockFront) q h = do {
     b \<leftarrow> RWBlocks h a;
     let b1 = b\<lparr>LocalTail := Tail b\<rparr>;
     Some (if BlockFront \<noteq> LocalTail b1 then GTake a BlockFront else GReturned None, q, rput a b1 h) }"
| "get_step (GNext a) q h = do { b \<leftarrow> RWBlocks h a; n \<leftarrow> RWNext b; Some (GNextFront n, q, h) }"
| "get_step (GNextFront n) q h = do { b \<leftarrow> RWBlocks h n; Some (GNextTail n (Front b), q, h) }"
| "get_step (GNextTail n BlockFront) q h = do {
     b \<leftarrow> RWBlocks h n;
     let b1 = b\<lparr>LocalTail := Tail b\<rparr>;
     if BlockFront = LocalTail b1 then None else Some (GFrontBlock n BlockFront, q, rput n b1 h) }"
| "get_step (GFrontBlock n BlockFront) q h = Some (GTake n BlockFront, q\<lparr>FrontBlock := Some n\<rparr>, h)"
| "get_step (GTake a BlockFront) q h = do {
     b \<leftarrow> RWBlocks h a;
     Element \<leftarrow> read_at (Data b) (unat BlockFront);
     d \<leftarrow> destroy_at (Data b) (unat BlockFront);
     Some (GPublish Element a ((BlockFront + 1) AND SizeMask b), q, rput a (b\<lparr>Data := d\<rparr>) h) }"
| "get_step (GPublish Element a BlockFront) q h = do {
     b \<leftarrow> RWBlocks h a;
     Some (GReturned (Some Element), q, rput a (b\<lparr>Front := BlockFront\<rparr>) h) }"
| "get_step GIdle q h = Some (GIdle, q, h)"
| "get_step (GReturned r) q h = Some (GReturned r, q, h)"

section \<open>Alone\<close>

text \<open>A call with no step of the other thread in between does what the sequential model of \<open>Spsc_Queue\<close> says, faults included.\<close>

fun put_steps :: "size_t \<Rightarrow> nat \<Rightarrow> 'a put_pc \<times> rwq \<times> 'a rwheap \<Rightarrow> ('a put_pc \<times> rwq \<times> 'a rwheap) option" where
  "put_steps EXP 0 x = Some x"
| "put_steps EXP (Suc n) x = Option.bind (put_step EXP (fst x) (fst (snd x)) (snd (snd x))) (put_steps EXP n)"

fun get_steps :: "nat \<Rightarrow> 'a get_pc \<times> rwq \<times> 'a rwheap \<Rightarrow> ('a get_pc \<times> rwq \<times> 'a rwheap) option" where
  "get_steps 0 x = Some x"
| "get_steps (Suc n) x = Option.bind (get_step (fst x) (fst (snd x)) (snd (snd x))) (get_steps n)"

lemma rput_rput [simp]: "rput a b (rput a c h) = rput a b h"
  by (simp add: rput_def)

lemma rput_at: "RWBlocks (rput a b h) a = Some b"
  by simp

lemma TryDequeue_alone:
  assumes "\<not> DequeueStatus q"
  shows "get_steps 10 (GBegin, q, h) = map_option (\<lambda>(r, q', h'). (GReturned r, q', h')) (RWQueue_TryDequeue q h)"
proof (cases "rget h (FrontBlock q)")
  case None
  then have "(do { a \<leftarrow> FrontBlock q; RWBlocks h a }) = None" by (auto simp: rget_def bind_eq_None_conv)
  then show ?thesis using assms None
    by (cases "FrontBlock q") (simp_all add: numeral_eq_Suc RWQueue_TryDequeue_def DequeueGuard_def DequeueFront_def)
next
  case (Some ab)
  then obtain a b where ab: "FrontBlock q = Some a" "RWBlocks h a = Some b" "rget h (Some a) = Some (a, b)"
    by (auto simp: rget_def bind_eq_Some_conv)
  have same: "q\<lparr>DequeueStatus := False\<rparr> = q" using assms by simp
  note defs = RWQueue_TryDequeue_def DequeueGuard_def EndDequeue_def DequeueFront_def TakeFront_def Let_def numeral_eq_Suc
  consider "Some a \<noteq> RWTailBlock q" "Front b = Tail b" | "Some a \<noteq> RWTailBlock q" "Front b \<noteq> Tail b"
    | "Some a = RWTailBlock q" "Front b \<noteq> LocalTail b" | "Some a = RWTailBlock q" "Front b = LocalTail b" by blast
  then show ?thesis
  proof cases
    case 1
    let ?h = "rput a (b\<lparr>LocalTail := Tail b\<rparr>) h"
    show ?thesis
    proof (cases "RWNext b")
      case None
      then show ?thesis using 1 ab assms by (simp add: defs NextFront_def rget_def)
    next
      case (Some n)
      show ?thesis
      proof (cases "RWBlocks ?h n")
        case None
        then show ?thesis using 1 Some ab assms by (simp add: defs NextFront_def rget_def split: if_splits)
      next
        case (Some nb)
        then show ?thesis using 1 \<open>RWNext b = Some n\<close> ab assms same
          by (auto simp: defs NextFront_def rget_def destroy_at_def rput_at simp del: rput_simps(1) split: Option.bind_split)
      qed
    qed
  next
    case 2
    then show ?thesis using ab assms same
      by (auto simp: defs destroy_at_def split: Option.bind_split)
  next
    case 3
    then show ?thesis using ab assms same
      by (auto simp: defs destroy_at_def split: Option.bind_split)
  next
    case 4
    then show ?thesis using ab assms same
      by (auto simp: defs destroy_at_def split: Option.bind_split)
  qed
qed

lemma InnerEnqueue_alone:
  assumes "\<not> EnqueueStatus q" "RWBlocks h (RWBrk h) = None"
  shows "put_steps EXP 11 (PBegin mode arg, q, h) = map_option (\<lambda>(r, q', h'). (PReturned r, q', h')) (RWQueue_InnerEnqueue EXP mode arg q h)"
proof (cases "rget h (RWTailBlock q)")
  case None
  then have "(do { a \<leftarrow> RWTailBlock q; RWBlocks h a }) = None" by (auto simp: rget_def bind_eq_None_conv)
  then show ?thesis using assms None
    by (cases "RWTailBlock q") (simp_all add: numeral_eq_Suc RWQueue_InnerEnqueue_def EnqueueGuard_def)
next
  case (Some ab)
  then obtain a b where ab: "RWTailBlock q = Some a" "RWBlocks h a = Some b" "rget h (Some a) = Some (a, b)"
    by (auto simp: rget_def bind_eq_Some_conv)
  have same: "q\<lparr>EnqueueStatus := False\<rparr> = q" using assms(1) by simp
  note defs = RWQueue_InnerEnqueue_def EnqueueGuard_def EndEnqueue_def PutTail_def Let_def numeral_eq_Suc
  let ?nt = "(Tail b + 1) AND SizeMask b" and ?h = "rput a (b\<lparr>LocalFront := Front b\<rparr>) h"
  have here: "rput a b h = h" using ab(2) by (simp add: rput_def fun_upd_idem)
  consider "?nt \<noteq> LocalFront b" | "?nt = LocalFront b" "?nt \<noteq> Front b"
    | "?nt = LocalFront b" "?nt = Front b" "RWNext b \<noteq> FrontBlock q" | "?nt = LocalFront b" "?nt = Front b" "RWNext b = FrontBlock q" by blast
  then show ?thesis
  proof cases
    case 1
    then show ?thesis using ab assms same here
      by (cases arg) (auto simp: defs split: Option.bind_split)
  next
    case 2
    then show ?thesis using ab assms same here
      by (cases arg) (auto simp: defs split: Option.bind_split)
  next
    case 3
    show ?thesis
    proof (cases "RWNext b")
      case None
      then show ?thesis using 3 ab assms by (simp add: defs rget_def)
    next
      case (Some n)
      show ?thesis
      proof (cases "RWBlocks ?h n")
        case None
        then show ?thesis using 3 Some ab assms by (simp add: defs rget_def split: if_splits)
      next
        case (Some nb)
        then show ?thesis using 3 \<open>RWNext b = Some n\<close> ab assms same
          by (cases arg) (auto simp: defs rget_def rput_at simp del: rput_simps(1) split: Option.bind_split)
      qed
    qed
  next
    case 4
    have n: "a \<noteq> RWBrk h" using ab(2) assms(2) by auto
    have swap: "rput a x (rput (RWBrk h) y k) = rput (RWBrk h) y (rput a x k)" for x y and k :: "'a rwheap"
      using n by (simp add: rput_def fun_upd_twist)
    show ?thesis using 4 ab assms same n
      by (cases mode; cases arg; cases "RWQuota h = 0")
        (auto simp: defs EnqueueNewBlock_def MakeBlock_def set_next_def rget_def swap split: Option.bind_split)
  qed
qed

section \<open>Both\<close>

text \<open>
  The history: \<open>Put\<close> are the values whose new tail, or link, has been stored, \<open>Completed\<close> counts the enqueues that
  returned true, \<open>Taken\<close> are the values whose new front has been stored, \<open>AtCall\<close> is \<open>Completed\<close> when the dequeue under way began.
\<close>

record 'a spsc =
  SQueue :: rwq
  SHeap :: "'a rwheap"
  Producer :: "'a put_pc"
  Consumer :: "'a get_pc"
  Put :: "'a list"
  Completed :: nat
  Taken :: "'a list"
  AtCall :: nat

datatype 'a spsc_event = CallEnqueue RWAllocMode "'a option" | ProducerStep | CallDequeue | ConsumerStep

definition put_rests :: "'a put_pc \<Rightarrow> bool" where
  "put_rests p \<longleftrightarrow> (case p of PIdle \<Rightarrow> True | PReturned r \<Rightarrow> r \<noteq> Terminated | _ \<Rightarrow> False)"

definition get_rests :: "'a get_pc \<Rightarrow> bool" where
  "get_rests g \<longleftrightarrow> (case g of GIdle \<Rightarrow> True | GReturned r \<Rightarrow> True | _ \<Rightarrow> False)"

definition publishes :: "'a put_pc \<Rightarrow> 'a list" where
  "publishes p = (case p of PPublish v _ _ \<Rightarrow> [v] | PNextPublish v _ _ \<Rightarrow> [v] | PJoin v _ _ \<Rightarrow> [v] | _ \<Rightarrow> [])"

definition completes :: "'a put_pc \<Rightarrow> nat" where
  "completes p = (case p of PPublish v _ _ \<Rightarrow> 1 | PTailBlock _ \<Rightarrow> 1 | _ \<Rightarrow> 0)"

definition takes :: "'a get_pc \<Rightarrow> 'a list" where
  "takes g = (case g of GPublish v _ _ \<Rightarrow> [v] | _ \<Rightarrow> [])"

text \<open>A call while the last one is not over is not possible; \<open>None\<close> otherwise is a step that is undefined or fails an assertion.\<close>

definition spsc_enabled :: "'a spsc_event \<Rightarrow> 'a spsc \<Rightarrow> bool" where
  "spsc_enabled ev s \<longleftrightarrow> (case ev of CallEnqueue _ _ \<Rightarrow> put_rests (Producer s) | CallDequeue \<Rightarrow> get_rests (Consumer s) | _ \<Rightarrow> True)"

fun spsc_step :: "size_t \<Rightarrow> 'a spsc_event \<Rightarrow> 'a spsc \<Rightarrow> 'a spsc option" where
  "spsc_step EXP (CallEnqueue mode arg) s = Some (s\<lparr>Producer := PBegin mode arg\<rparr>)"
| "spsc_step EXP CallDequeue s = Some (s\<lparr>Consumer := GBegin, AtCall := Completed s\<rparr>)"
| "spsc_step EXP ProducerStep s = do {
     (p, q, h) \<leftarrow> put_step EXP (Producer s) (SQueue s) (SHeap s);
     Some (s\<lparr>SQueue := q, SHeap := h, Producer := p, Put := Put s @ publishes (Producer s),
       Completed := Completed s + completes (Producer s)\<rparr>) }"
| "spsc_step EXP ConsumerStep s = do {
     (g, q, h) \<leftarrow> get_step (Consumer s) (SQueue s) (SHeap s);
     Some (s\<lparr>SQueue := q, SHeap := h, Consumer := g, Taken := Taken s @ takes (Consumer s)\<rparr>) }"

text \<open>Events that are not enabled are passed over, so that every list of events is a run.\<close>

fun spsc_run :: "size_t \<Rightarrow> 'a spsc_event list \<Rightarrow> 'a spsc \<Rightarrow> 'a spsc option" where
  "spsc_run EXP [] s = Some s"
| "spsc_run EXP (ev # evs) s =
     (if spsc_enabled ev s then do { s' \<leftarrow> spsc_step EXP ev s; spsc_run EXP evs s' } else spsc_run EXP evs s)"

definition spsc_new :: "size_t \<Rightarrow> size_t \<Rightarrow> nat \<Rightarrow> 'a spsc option" where
  "spsc_new EXP ReservedSize quota =
    (case RWQueue_new EXP ReservedSize \<lparr>RWBlocks = \<lambda>_. None, RWBrk = 0, RWQuota = quota\<rparr> of
       Some (Made (q, h)) \<Rightarrow> Some \<lparr>SQueue = q, SHeap = h, Producer = PIdle, Consumer = GIdle, Put = [], Completed = 0, Taken = [], AtCall = 0\<rparr>
     | _ \<Rightarrow> None)"

section \<open>Settled memory\<close>

text \<open>
  An element that is constructed but not yet published, and one that is destroyed while its front is not yet stored, are the
  only differences between the memory and one in which both threads rest: \<open>view\<close> takes them back.
\<close>

definition put_at :: "'a put_pc \<Rightarrow> addr \<Rightarrow> bool" where
  "put_at p a \<longleftrightarrow> (case p of PPublish _ c _ \<Rightarrow> c = a | PNextPublish _ c _ \<Rightarrow> c = a | _ \<Rightarrow> False)"

definition got_at :: "'a get_pc \<Rightarrow> addr \<Rightarrow> 'a option" where
  "got_at g a = (case g of GPublish v c _ \<Rightarrow> if c = a then Some v else None | _ \<Rightarrow> None)"

definition put_back :: "'a get_pc \<Rightarrow> addr \<Rightarrow> 'a rwblock \<Rightarrow> 'a slots" where
  "put_back g a b = (case got_at g a of None \<Rightarrow> Data b | Some v \<Rightarrow> (Data b)[unat (Front b) := Some v])"

definition view_block :: "'a put_pc \<Rightarrow> 'a get_pc \<Rightarrow> addr \<Rightarrow> 'a rwblock \<Rightarrow> 'a rwblock" where
  "view_block p g a b = b\<lparr>Data := if put_at p a then (put_back g a b)[unat (Tail b) := None] else put_back g a b\<rparr>"

definition view :: "'a put_pc \<Rightarrow> 'a get_pc \<Rightarrow> 'a rwheap \<Rightarrow> 'a rwheap" where
  "view p g h = h\<lparr>RWBlocks := \<lambda>a. map_option (view_block p g a) (RWBlocks h a)\<rparr>"

text \<open>A block that is complete but for the store of \<^verbatim>\<open>TailBlock\<close>.\<close>

definition view_q :: "'a put_pc \<Rightarrow> rwq \<Rightarrow> rwq" where
  "view_q p q = (case p of PTailBlock n \<Rightarrow> q\<lparr>RWTailBlock := Some n\<rparr> | _ \<Rightarrow> q)"

lemma put_back_length [simp]: "length (put_back g a b) = length (Data b)"
  by (simp add: put_back_def split: option.split)

lemma view_block_simps [simp]:
  "Front (view_block p g a b) = Front b" "LocalTail (view_block p g a b) = LocalTail b" "Tail (view_block p g a b) = Tail b"
  "LocalFront (view_block p g a b) = LocalFront b" "RWNext (view_block p g a b) = RWNext b" "SizeMask (view_block p g a b) = SizeMask b"
  "length (Data (view_block p g a b)) = length (Data b)"
  by (simp_all add: view_block_def put_back_def split: option.split prod.split)

lemma view_simps [simp]:
  "RWBlocks (view p g h) a = map_option (view_block p g a) (RWBlocks h a)" "RWBrk (view p g h) = RWBrk h"
  "RWQuota (view p g h) = RWQuota h"
  by (simp_all add: view_def)

lemma view_fields [simp]: "rw_next (view p g h) = rw_next h" "cap (view p g h) = cap h"
proof -
  have "rw_next (view p g h) a = rw_next h a \<and> cap (view p g h) a = cap h a" for a
    by (cases "RWBlocks h a") (simp_all add: rw_next_def cap_def)
  then show "rw_next (view p g h) = rw_next h" "cap (view p g h) = cap h" by auto
qed

lemma view_cong:
  assumes "\<And>a. put_at p' a = put_at p a" "\<And>a. got_at g' a = got_at g a"
  shows "view p' g' h = view p g h"
proof -
  have "view_block p' g' = view_block p g" by (intro ext) (simp add: view_block_def put_back_def assms)
  then show ?thesis by (simp add: view_def)
qed

lemma view_rput:
  assumes "\<And>c. c \<noteq> a \<Longrightarrow> put_at p' c = put_at p c" "\<And>c. c \<noteq> a \<Longrightarrow> got_at g' c = got_at g c"
  shows "view p' g' (rput a b h) = rput a (view_block p' g' a b) (view p g h)"
proof -
  have "view_block p' g' c = view_block p g c" if "c \<noteq> a" for c using assms that by (simp add: view_block_def put_back_def fun_eq_iff)
  then have "(\<lambda>c. map_option (view_block p' g' c) (((RWBlocks h)(a \<mapsto> b)) c))
      = (\<lambda>c. map_option (view_block p g c) (RWBlocks h c))(a \<mapsto> view_block p' g' a b)" by (intro ext) simp
  then show ?thesis by (simp add: view_def rput_def)
qed

section \<open>The ring\<close>

text \<open>A block outside the ring may change; one may come in after the producer's.\<close>

lemma rw_base_outside:
  assumes inv: "rw_base e q h as xss t"
    and h': "\<And>a. a \<in> set as \<Longrightarrow> RWBlocks h' a = RWBlocks h a" "\<And>a. RWBrk h' \<le> a \<Longrightarrow> RWBlocks h' a = None"
    and q': "FrontBlock q' = FrontBlock q" "RWTailBlock q' = RWTailBlock q" "\<exists>s \<le> e. BlockSize q' = 2 ^ s"
  shows "rw_base e q' h' as xss t"
proof -
  note d = rw_baseD [OF inv]
  have r: "ring (rw_next h') as" using d(1) ring_cong [of as "rw_next h" "rw_next h'"] h'(1) by (simp add: rw_next_def)
  have l: "list_all2 (holds h') as xss"
    using list_all2_nthD [OF d(2)] h'(1) d(13) by (intro list_all2_all_nthI) (simp_all add: holds_def)
  have full: "\<forall>i. 0 < i \<and> i < t \<longrightarrow> length (xss ! i) = cap h' (as ! i)" using d(4,8) h'(1) by (auto simp: cap_def)
  show ?thesis unfolding rw_base_def using r l full d(3-7,11,12) q' h'(2) by (intro conjI) auto
qed

lemma ring_rotate: "ring nx (xs @ ys) \<Longrightarrow> ring nx (ys @ xs)"
proof (induction xs arbitrary: ys)
  case (Cons x xs)
  then show ?case using ring_rotate1 [of nx "(x # xs) @ ys"] Cons.IH [of "ys @ [x]"] by simp
qed simp

lemma ring_insert:
  assumes "ring nx (xs @ ys)" "xs \<noteq> []" "a \<notin> set (xs @ ys)" "nx' a = nx (last xs)" "nx' (last xs) = Some a"
    "\<And>x. x \<in> set (xs @ ys) \<Longrightarrow> x \<noteq> last xs \<Longrightarrow> nx' x = nx x"
  shows "ring nx' (xs @ a # ys)"
proof -
  have r: "ring nx (ys @ xs)" by (rule ring_rotate [OF assms(1)])
  have "ring nx' ((ys @ xs) @ [a])"
    by (rule ring_link [OF r]) (use assms ring_last [OF r] in auto)
  then have "ring nx' (ys @ (xs @ [a]))" by simp
  from ring_rotate [OF this] show ?thesis by simp
qed

lemma rw_base_insert:
  assumes inv: "rw_base e q h as xss t" and full: "0 < t \<Longrightarrow> length (xss ! t) = cap h (as ! t)"
    and b: "RWBlocks h (as ! t) = Some b" and new: "n \<notin> set as" "RWBlocks h n = Some nb" "RWNext nb = RWNext b" "rwb m' nb f' [v]"
    and q': "FrontBlock q' = FrontBlock q" "RWTailBlock q' = Some n" "BlockSize q' = BlockSize q"
  shows "rw_base e q' (rput (as ! t) (b\<lparr>RWNext := Some n\<rparr>) h) (take (Suc t) as @ n # drop (Suc t) as)
    (take (Suc t) xss @ [v] # drop (Suc t) xss) (Suc t)" (is "rw_base e q' ?h ?as ?xss (Suc t)")
proof -
  note d = rw_baseD [OF inv]
  have tl: "as ! t \<noteq> n" using new(1) d(4) by auto
  have lst: "last (take (Suc t) as) = as ! t" using d(4) by (simp add: take_Suc_conv_app_nth)
  have nx: "rw_next ?h a = (if a = as ! t then Some n else rw_next h a)" for a by (simp add: rw_next_def)
  have r: "ring (rw_next ?h) ?as"
  proof (rule ring_insert [where nx = "rw_next h"])
    show "ring (rw_next h) (take (Suc t) as @ drop (Suc t) as)" using d(1) by simp
    show "rw_next ?h n = rw_next h (last (take (Suc t) as))" using tl b new(2,3) by (simp add: lst nx rw_next_def)
  qed (use d(15) new(1) lst nx in auto)
  have len: "length ?as = Suc (length as)" "length ?xss = Suc (length xss)" using d(4,13) by auto
  have ind: "\<not> i \<le> t \<Longrightarrow> i \<noteq> Suc t \<Longrightarrow> Suc (i - 2) = i - Suc 0" for i by linarith
  have as_nth: "?as ! i = (if i \<le> t then as ! i else if i = Suc t then n else as ! (i - 1))" if "i < length ?as" for i
    using that d(4) ind [of i] by (auto simp: nth_append nth_Cons')
  have xss_nth: "?xss ! i = (if i \<le> t then xss ! i else if i = Suc t then [v] else xss ! (i - 1))" if "i < length ?xss" for i
    using that d(4,13) ind [of i] by (auto simp: nth_append nth_Cons')
  have old: "holds ?h (as ! i) (xss ! i)" if i: "i < length as" for i
  proof -
    obtain b1 m f where b1: "RWBlocks h (as ! i) = Some b1" "rwb m b1 f (xss ! i)" by (rule rw_block [OF d(2) i])
    then show ?thesis using b by (cases "as ! i = as ! t") (auto simp: holds_def)
  qed
  have l: "list_all2 (holds ?h) ?as ?xss"
  proof (rule list_all2_all_nthI)
    fix i assume i: "i < length ?as"
    have "holds ?h n [v]" using new(2,4) tl by (auto simp: holds_def)
    then show "holds ?h (?as ! i) (?xss ! i)" using i old len d(13) d(4) unfolding as_nth [OF i] by (subst xss_nth) auto
  qed (simp add: len d(13))
  have ca: "cap ?h a = cap h a" for a using b by (simp add: cap_def)
  have 1: "?xss ! i = []" if "i < length ?as" "Suc t < i" for i
    using that d(6) [of "i - 1"] len d(13) by (subst xss_nth) auto
  have 2: "?xss ! i \<noteq> []" if "0 < i" "i \<le> Suc t" for i
    using that d(4,7,13) len by (subst xss_nth) auto
  have 3: "length (?xss ! i) = cap ?h (?as ! i)" if "0 < i" "i < Suc t" for i
    using that d(4,8,13) len full by (subst xss_nth, simp, subst as_nth) (auto simp: ca less_Suc_eq)
  have "?as ! Suc t = n" using len d(4) by (subst as_nth) auto
  moreover have "hd ?as = hd as" using d(15) by (cases as) auto
  ultimately show ?thesis
    unfolding rw_base_def using r l len d(3,4,10,11,12) q' 1 2 3 d(9) b by (intro conjI) (auto simp del: take_append drop_append)
qed

section \<open>The invariant\<close>

definition at_block :: "'a rwheap \<Rightarrow> addr \<Rightarrow> ('a rwblock \<Rightarrow> bool) \<Rightarrow> bool" where
  "at_block h a P \<longleftrightarrow> (case RWBlocks h a of None \<Rightarrow> False | Some b \<Rightarrow> P b)"

lemma at_block_Some [simp]: "RWBlocks h a = Some b \<Longrightarrow> at_block h a P \<longleftrightarrow> P b"
  by (simp add: at_block_def)

lemma at_block_rput: "at_block (rput a b h) c P \<longleftrightarrow> (if c = a then P b else at_block h c P)"
  by (simp add: at_block_def)

lemma at_blockE: "at_block h a P \<Longrightarrow> (\<And>b. RWBlocks h a = Some b \<Longrightarrow> P b \<Longrightarrow> thesis) \<Longrightarrow> thesis"
  by (auto simp: at_block_def split: option.splits)

lemma at_block_mono: "at_block h a P \<Longrightarrow> (\<And>b. P b \<Longrightarrow> Q b) \<Longrightarrow> at_block h a Q"
  by (auto simp: at_block_def split: option.splits)

definition next_tail :: "'a rwblock \<Rightarrow> size_t" where
  "next_tail b = (Tail b + 1) AND SizeMask b"

definition may_put :: "'a rwblock \<Rightarrow> bool" where
  "may_put b \<longleftrightarrow> next_tail b \<noteq> LocalFront b"

definition may_take :: "'a rwblock \<Rightarrow> bool" where
  "may_take b \<longleftrightarrow> Front b \<noteq> LocalTail b"

text \<open>The producer's block is full, or it is the consumer's too.\<close>

definition filled :: "'a rwheap \<Rightarrow> addr list \<Rightarrow> 'a list list \<Rightarrow> nat \<Rightarrow> bool" where
  "filled h as xss t \<longleftrightarrow> (0 < t \<longrightarrow> length (xss ! t) = cap h (as ! t))"

definition next_is :: "addr list \<Rightarrow> nat \<Rightarrow> addr \<Rightarrow> bool" where
  "next_is as t n \<longleftrightarrow> Suc t < length as \<and> n = as ! Suc t"

text \<open>What the producer knows, with the ring \<open>as\<close>, its contents \<open>xss\<close> and its own place \<open>t\<close> there.\<close>

fun put_ok :: "'a put_pc \<Rightarrow> rwq \<Rightarrow> 'a rwheap \<Rightarrow> addr list \<Rightarrow> 'a list list \<Rightarrow> nat \<Rightarrow> bool" where
  "put_ok (PTail mode arg a) q h as xss t \<longleftrightarrow> a = as ! t"
| "put_ok (PFront mode arg a bt) q h as xss t \<longleftrightarrow> a = as ! t \<and> at_block h a (\<lambda>b. Tail b = bt)"
| "put_ok (PConstruct arg a bt) q h as xss t \<longleftrightarrow> a = as ! t \<and> at_block h a (\<lambda>b. Tail b = bt \<and> may_put b)"
| "put_ok (PPublish v a nt) q h as xss t \<longleftrightarrow> a = as ! t \<and> at_block h a (\<lambda>b. nt = next_tail b \<and> may_put b \<and> Data b ! unat (Tail b) = Some v)"
| "put_ok (PNext mode arg a) q h as xss t \<longleftrightarrow> a = as ! t \<and> filled h as xss t"
| "put_ok (PFrontBlock mode arg a n) q h as xss t \<longleftrightarrow> a = as ! t \<and> filled h as xss t \<and> at_block h a (\<lambda>b. RWNext b = n)"
| "put_ok (PNext2 arg a) q h as xss t \<longleftrightarrow> a = as ! t \<and> filled h as xss t \<and> Suc t < length as"
| "put_ok (PNextTail arg n) q h as xss t \<longleftrightarrow> filled h as xss t \<and> next_is as t n"
| "put_ok (PNextFront arg n bt) q h as xss t \<longleftrightarrow> filled h as xss t \<and> next_is as t n \<and> at_block h n (\<lambda>b. Tail b = bt)"
| "put_ok (PNextConstruct arg n bt) q h as xss t \<longleftrightarrow> filled h as xss t \<and> next_is as t n \<and> at_block h n (\<lambda>b. Tail b = bt \<and> may_put b)"
| "put_ok (PNextPublish v n nt) q h as xss t \<longleftrightarrow> filled h as xss t \<and> next_is as t n
     \<and> at_block h n (\<lambda>b. nt = next_tail b \<and> may_put b \<and> Data b ! unat (Tail b) = Some v)"
| "put_ok (PTailBlock n) q h as xss t \<longleftrightarrow> n = as ! t \<and> 0 < t \<and> length (xss ! t) = 1 \<and> RWTailBlock q = Some (as ! (t - 1))"
| "put_ok (PMake arg a) q h as xss t \<longleftrightarrow> a = as ! t \<and> filled h as xss t"
| "put_ok (PLink v a n) q h as xss t \<longleftrightarrow> a = as ! t \<and> filled h as xss t \<and> n \<notin> set as \<and> at_block h n (\<lambda>b. \<exists>m. rwb m b 0 [v])"
| "put_ok (PJoin v a n) q h as xss t \<longleftrightarrow> a = as ! t \<and> filled h as xss t \<and> n \<notin> set as \<and> at_block h n (\<lambda>b. \<exists>m. rwb m b 0 [v])
     \<and> at_block h a (\<lambda>b. at_block h n (\<lambda>nb. RWNext nb = RWNext b))"
| "put_ok (PReturned r) q h as xss t \<longleftrightarrow> True"
| "put_ok (PBegin mode arg) q h as xss t \<longleftrightarrow> True"
| "put_ok PIdle q h as xss t \<longleftrightarrow> True"

text \<open>What the consumer knows; \<open>c\<close> are the enqueues completed when its call began, \<open>k\<close> the values taken so far.\<close>

definition behind :: "rwq \<Rightarrow> addr list \<Rightarrow> bool" where
  "behind q as \<longleftrightarrow> RWTailBlock q \<noteq> Some (as ! 0)"

fun get_ok :: "'a get_pc \<Rightarrow> rwq \<Rightarrow> 'a rwheap \<Rightarrow> addr list \<Rightarrow> 'a list list \<Rightarrow> nat \<Rightarrow> nat \<Rightarrow> bool" where
  "get_ok (GFront a) q h as xss c k \<longleftrightarrow> a = as ! 0"
| "get_ok (GTailBlock a f bt) q h as xss c k \<longleftrightarrow> a = as ! 0 \<and> at_block h a (\<lambda>b. Front b = f \<and> LocalTail b = bt)"
| "get_ok (GTail a f) q h as xss c k \<longleftrightarrow> a = as ! 0 \<and> at_block h a (\<lambda>b. Front b = f) \<and> behind q as"
| "get_ok (GTail2 a f) q h as xss c k \<longleftrightarrow> a = as ! 0 \<and> at_block h a (\<lambda>b. Front b = f) \<and> c \<le> k + length (xss ! 0)"
| "get_ok (GNext a) q h as xss c k \<longleftrightarrow> a = as ! 0 \<and> xss ! 0 = [] \<and> behind q as"
| "get_ok (GNextFront n) q h as xss c k \<longleftrightarrow> n = as ! 1 \<and> xss ! 0 = [] \<and> behind q as"
| "get_ok (GNextTail n f) q h as xss c k \<longleftrightarrow> n = as ! 1 \<and> xss ! 0 = [] \<and> behind q as \<and> at_block h n (\<lambda>b. Front b = f)"
| "get_ok (GFrontBlock n f) q h as xss c k \<longleftrightarrow> n = as ! 1 \<and> xss ! 0 = [] \<and> behind q as \<and> at_block h n (\<lambda>b. Front b = f \<and> may_take b)"
| "get_ok (GTake a f) q h as xss c k \<longleftrightarrow> a = as ! 0 \<and> at_block h a (\<lambda>b. Front b = f \<and> may_take b)"
| "get_ok (GPublish v a nf) q h as xss c k \<longleftrightarrow> a = as ! 0
     \<and> at_block h a (\<lambda>b. nf = (Front b + 1) AND SizeMask b \<and> may_take b \<and> Data b ! unat (Front b) = None)"
| "get_ok (GReturned r) q h as xss c k \<longleftrightarrow> (r = None \<longrightarrow> c \<le> k)"
| "get_ok GBegin q h as xss c k \<longleftrightarrow> True"
| "get_ok GIdle q h as xss c k \<longleftrightarrow> True"

definition unfinished :: "'a put_pc \<Rightarrow> nat" where
  "unfinished p = (case p of PTailBlock _ \<Rightarrow> 1 | _ \<Rightarrow> 0)"

definition spsc_at :: "nat \<Rightarrow> 'a spsc \<Rightarrow> addr list \<Rightarrow> 'a list list \<Rightarrow> nat \<Rightarrow> bool" where
  "spsc_at e s as xss t \<longleftrightarrow> rw_base e (view_q (Producer s) (SQueue s)) (view (Producer s) (Consumer s) (SHeap s)) as xss t
     \<and> put_ok (Producer s) (SQueue s) (SHeap s) as xss t
     \<and> get_ok (Consumer s) (SQueue s) (SHeap s) as xss (AtCall s) (length (Taken s))
     \<and> Taken s @ concat xss = Put s \<and> Completed s + unfinished (Producer s) = length (Put s) \<and> AtCall s \<le> Completed s"

definition spsc_inv :: "nat \<Rightarrow> 'a spsc \<Rightarrow> bool" where
  "spsc_inv e s \<longleftrightarrow> (\<exists>as xss t. spsc_at e s as xss t)"

lemma put_at_simps [simp]:
  "put_at PIdle = (\<lambda>_. False)" "put_at (PBegin mode arg) = (\<lambda>_. False)" "put_at (PTail mode arg a) = (\<lambda>_. False)"
  "put_at (PFront mode arg a bt) = (\<lambda>_. False)" "put_at (PConstruct arg a bt) = (\<lambda>_. False)" "put_at (PPublish v a nt) = (\<lambda>c. a = c)"
  "put_at (PNext mode arg a) = (\<lambda>_. False)" "put_at (PFrontBlock mode arg a on) = (\<lambda>_. False)" "put_at (PNext2 arg a) = (\<lambda>_. False)"
  "put_at (PNextTail arg a) = (\<lambda>_. False)" "put_at (PNextFront arg a bt) = (\<lambda>_. False)" "put_at (PNextConstruct arg a bt) = (\<lambda>_. False)"
  "put_at (PNextPublish v a nt) = (\<lambda>c. a = c)" "put_at (PTailBlock a) = (\<lambda>_. False)" "put_at (PMake arg a) = (\<lambda>_. False)"
  "put_at (PLink v a n) = (\<lambda>_. False)" "put_at (PJoin v a n) = (\<lambda>_. False)" "put_at (PReturned r) = (\<lambda>_. False)"
  by (auto simp: put_at_def fun_eq_iff)

lemma got_at_simps [simp]:
  "got_at GIdle = (\<lambda>_. None)" "got_at GBegin = (\<lambda>_. None)" "got_at (GFront a) = (\<lambda>_. None)" "got_at (GTailBlock a f bt) = (\<lambda>_. None)"
  "got_at (GTail a f) = (\<lambda>_. None)" "got_at (GTail2 a f) = (\<lambda>_. None)" "got_at (GNext a) = (\<lambda>_. None)" "got_at (GNextFront a) = (\<lambda>_. None)"
  "got_at (GNextTail a f) = (\<lambda>_. None)" "got_at (GFrontBlock a f) = (\<lambda>_. None)" "got_at (GTake a f) = (\<lambda>_. None)"
  "got_at (GPublish v a nf) = (\<lambda>c. if a = c then Some v else None)" "got_at (GReturned r) = (\<lambda>_. None)"
  by (auto simp: got_at_def fun_eq_iff)

text \<open>What one thread knows stays true through the steps of the other.\<close>

lemma put_ok_frame:
  assumes "put_ok p q h as xss t" "RWBlocks h c = Some b" "c \<in> set as" "t < length as"
    "Tail b' = Tail b" "LocalFront b' = LocalFront b" "RWNext b' = RWNext b" "SizeMask b' = SizeMask b"
    "put_at p c \<Longrightarrow> Data b' ! unat (Tail b) = Data b ! unat (Tail b)"
    "\<And>i. 0 < i \<Longrightarrow> length (xss' ! i) = length (xss ! i)"
  shows "put_ok p q (rput c b' h) as xss' t"
proof -
  have ca: "cap (rput c b' h) = cap h" by (rule rput_same(2) [OF assms(2,8)])
  have f: "filled (rput c b' h) as xss' t" if "filled h as xss t" using that assms(10) by (auto simp: filled_def ca)
  have nt: "next_tail b' = next_tail b" "may_put b' = may_put b" using assms(5,6,8) by (simp_all add: next_tail_def may_put_def)
  have n: "n \<noteq> c" if "n \<notin> set as" for n using that assms(3) by blast
  show ?thesis
    using assms(1-9) assms(10) [of t] f n nt by (cases p) (auto simp: at_block_rput)
qed

lemma get_ok_frame:
  assumes "get_ok g q h as xss c k" "RWBlocks h d = Some b" "Front b' = Front b" "LocalTail b' = LocalTail b" "SizeMask b' = SizeMask b"
    "got_at g d \<noteq> None \<Longrightarrow> Data b' ! unat (Front b) = Data b ! unat (Front b)"
    "length (xss ! 0) \<le> length (xss' ! 0)" "behind q as \<Longrightarrow> xss' ! 0 = xss ! 0"
  shows "get_ok g q (rput d b' h) as xss' c k"
proof -
  have mt: "may_take b' = may_take b" using assms(3,4) by (simp add: may_take_def)
  show ?thesis using assms mt by (cases g) (auto simp: at_block_rput)
qed

end
