(* ===== verification/Spsc_Steps_Correct.thy ===== *)
theory Spsc_Steps_Correct
  imports Spsc_Steps Spsc_Queue_Properties
begin

text \<open>
  Every step of the producer and of the consumer of an interleaved \<^verbatim>\<open>ReaderWriterQueue\<close> is defined and keeps the invariant of
  \<open>Spsc_Steps\<close>; what follows for every interleaving.
\<close>

section \<open>The steps of the producer\<close>

lemma spsc_atD:
  assumes "spsc_at e s as xss t"
  shows "rw_base e (view_q (Producer s) (SQueue s)) (view (Producer s) (Consumer s) (SHeap s)) as xss t"
    "put_ok (Producer s) (SQueue s) (SHeap s) as xss t" "get_ok (Consumer s) (SQueue s) (SHeap s) as xss (AtCall s) (length (Taken s))"
    "Taken s @ concat xss = Put s" "Completed s + unfinished (Producer s) = length (Put s)" "AtCall s \<le> Completed s"
  using assms by (simp_all add: spsc_at_def)

lemma spsc_block:
  assumes "rw_base e q (view p g h) as xss t" "i < length as"
  obtains b m f where "RWBlocks h (as ! i) = Some b" "rwb m (view_block p g (as ! i) b) f (xss ! i)"
proof -
  obtain b' m f where "RWBlocks (view p g h) (as ! i) = Some b'" "rwb m b' f (xss ! i)"
    by (rule rw_block [OF rw_baseD(2) [OF assms(1)] assms(2)])
  with that show thesis by auto
qed

lemma producer_stepI:
  assumes "spsc_at e s as xss t" "put_step EXP (Producer s) (SQueue s) (SHeap s) = Some (p', q', h')"
    "rw_base e (view_q p' q') (view p' (Consumer s) h') as' xss' t'" "put_ok p' q' h' as' xss' t'"
    "get_ok (Consumer s) q' h' as' xss' (AtCall s) (length (Taken s))"
    "concat xss' = concat xss @ publishes (Producer s)"
    "completes (Producer s) + unfinished p' = unfinished (Producer s) + length (publishes (Producer s))"
  shows "\<exists>s'. spsc_step EXP ProducerStep s = Some s' \<and> spsc_inv e s'"
proof -
  note d = spsc_atD [OF assms(1)]
  let ?s = "s\<lparr>SQueue := q', SHeap := h', Producer := p', Put := Put s @ publishes (Producer s), Completed := Completed s + completes (Producer s)\<rparr>"
  have "spsc_at e ?s as' xss' t'"
    using assms(3-7) d(4-6) unfolding spsc_at_def by (simp add: append_eq_append_conv2) (metis append.assoc)?
  then show ?thesis using assms(2) by (auto simp: spsc_inv_def)
qed

text \<open>Steps that only load.\<close>

lemma producer_load:
  assumes at: "spsc_at e s as xss t" and run: "put_step EXP (Producer s) (SQueue s) (SHeap s) = Some (p', SQueue s, SHeap s)"
    and p': "put_ok p' (SQueue s) (SHeap s) as xss t" "put_at p' = put_at (Producer s)"
    and no: "publishes (Producer s) = []" "completes (Producer s) = 0" "unfinished (Producer s) = 0" "unfinished p' = 0"
    "view_q (Producer s) (SQueue s) = SQueue s" "view_q p' (SQueue s) = SQueue s"
  shows "\<exists>s'. spsc_step EXP ProducerStep s = Some s' \<and> spsc_inv e s'"
proof -
  note d = spsc_atD [OF at]
  have "view p' (Consumer s) (SHeap s) = view (Producer s) (Consumer s) (SHeap s)" by (rule view_cong) (simp_all add: p'(2))
  then show ?thesis using d(1,3) no by (intro producer_stepI [OF at run _ p'(1)]) simp_all
qed

lemma put_pc_simps [simp]:
  "publishes PIdle = []" "publishes (PBegin mode arg) = []" "publishes (PTail mode arg a) = []"
  "publishes (PFront mode arg a bt) = []" "publishes (PConstruct arg a bt) = []" "publishes (PPublish v a nt) = [v]"
  "publishes (PNext mode arg a) = []" "publishes (PFrontBlock mode arg a on) = []" "publishes (PNext2 arg a) = []"
  "publishes (PNextTail arg a) = []" "publishes (PNextFront arg a bt) = []" "publishes (PNextConstruct arg a bt) = []"
  "publishes (PNextPublish v a nt) = [v]" "publishes (PTailBlock a) = []" "publishes (PMake arg a) = []"
  "publishes (PLink v a n) = []" "publishes (PJoin v a n) = [v]" "publishes (PReturned r) = []"
  "completes PIdle = 0" "completes (PBegin mode arg) = 0" "completes (PTail mode arg a) = 0"
  "completes (PFront mode arg a bt) = 0" "completes (PConstruct arg a bt) = 0" "completes (PPublish v a nt) = 1"
  "completes (PNext mode arg a) = 0" "completes (PFrontBlock mode arg a on) = 0" "completes (PNext2 arg a) = 0"
  "completes (PNextTail arg a) = 0" "completes (PNextFront arg a bt) = 0" "completes (PNextConstruct arg a bt) = 0"
  "completes (PNextPublish v a nt) = 0" "completes (PTailBlock a) = 1" "completes (PMake arg a) = 0"
  "completes (PLink v a n) = 0" "completes (PJoin v a n) = 0" "completes (PReturned r) = 0"
  "unfinished PIdle = 0" "unfinished (PBegin mode arg) = 0" "unfinished (PTail mode arg a) = 0"
  "unfinished (PFront mode arg a bt) = 0" "unfinished (PConstruct arg a bt) = 0" "unfinished (PPublish v a nt) = 0"
  "unfinished (PNext mode arg a) = 0" "unfinished (PFrontBlock mode arg a on) = 0" "unfinished (PNext2 arg a) = 0"
  "unfinished (PNextTail arg a) = 0" "unfinished (PNextFront arg a bt) = 0" "unfinished (PNextConstruct arg a bt) = 0"
  "unfinished (PNextPublish v a nt) = 0" "unfinished (PTailBlock a) = 1" "unfinished (PMake arg a) = 0"
  "unfinished (PLink v a n) = 0" "unfinished (PJoin v a n) = 0" "unfinished (PReturned r) = 0"
  "view_q PIdle q = q" "view_q (PBegin mode arg) q = q" "view_q (PTail mode arg a) q = q"
  "view_q (PFront mode arg a bt) q = q" "view_q (PConstruct arg a bt) q = q" "view_q (PPublish v a nt) q = q"
  "view_q (PNext mode arg a) q = q" "view_q (PFrontBlock mode arg a on) q = q" "view_q (PNext2 arg a) q = q"
  "view_q (PNextTail arg a) q = q" "view_q (PNextFront arg a bt) q = q" "view_q (PNextConstruct arg a bt) q = q"
  "view_q (PNextPublish v a nt) q = q" "view_q (PTailBlock a) q = q\<lparr>RWTailBlock := Some a\<rparr>" "view_q (PMake arg a) q = q"
  "view_q (PLink v a n) q = q" "view_q (PJoin v a n) q = q" "view_q (PReturned r) q = q"
  by (simp_all add: publishes_def completes_def unfinished_def view_q_def)

lemma get_pc_simps [simp]:
  "takes GIdle = []" "takes GBegin = []" "takes (GFront a) = []" "takes (GTailBlock a f bt) = []" "takes (GTail a f) = []"
  "takes (GTail2 a f) = []" "takes (GNext a) = []" "takes (GNextFront a) = []" "takes (GNextTail a f) = []"
  "takes (GFrontBlock a f) = []" "takes (GTake a f) = []" "takes (GPublish v a nf) = [v]" "takes (GReturned r) = []"
  by (simp_all add: takes_def)

lemma producer_loads:
  assumes at: "spsc_at e s as xss t"
    and p: "case Producer s of PIdle \<Rightarrow> True | PReturned _ \<Rightarrow> True | PBegin _ _ \<Rightarrow> True | PTail _ _ _ \<Rightarrow> True | PNext _ _ _ \<Rightarrow> True
      | PFrontBlock _ _ _ _ \<Rightarrow> True | PNext2 _ _ \<Rightarrow> True | PNextTail _ _ \<Rightarrow> True | _ \<Rightarrow> False"
  shows "\<exists>s'. spsc_step EXP ProducerStep s = Some s' \<and> spsc_inv e s'"
proof -
  note d = spsc_atD [OF at]
  note rd = rw_baseD [OF d(1)]
  obtain b m f where b: "RWBlocks (SHeap s) (as ! t) = Some b" "rwb m (view_block (Producer s) (Consumer s) (as ! t) b) f (xss ! t)"
    by (rule spsc_block [OF d(1) rd(4)])
  have nx: "RWNext b = Some (as ! (Suc t mod length as))"
    using ring_nth [OF rd(1,4)] b(1) by (simp add: rw_next_def)
  have hd: "hd as = as ! 0" using rd(15) by (simp add: hd_conv_nth)
  show ?thesis
  proof (cases "Producer s")
    case (PFrontBlock mode arg a n)
    have "Suc t < length as" if "n \<noteq> FrontBlock (SQueue s)"
    proof (rule ccontr)
      assume "\<not> Suc t < length as"
      then have "Suc t = length as" using rd(4) by simp
      then show False using that nx b(1) d(2) rd(3) hd PFrontBlock by auto
    qed
    then show ?thesis using d(2) PFrontBlock by (intro producer_load [OF at]) auto
  next
    case (PNext2 arg a)
    then show ?thesis using d(2) b(1) nx by (intro producer_load [OF at]) (auto simp: next_is_def)
  next
    case (PNextTail arg n)
    then obtain b1 m1 f1 where "RWBlocks (SHeap s) n = Some b1"
      using d(2) spsc_block [OF d(1), of "Suc t"] by (auto simp: next_is_def)
    then show ?thesis using d(2) PNextTail by (intro producer_load [OF at]) auto
  next
    case PIdle
    then show ?thesis using d(2) b(1) rd(5) by (intro producer_load [OF at]) (auto simp: may_put_def next_tail_def split: if_splits)
  next
    case (PReturned r)
    then show ?thesis using d(2) b(1) rd(5) by (intro producer_load [OF at]) (auto simp: may_put_def next_tail_def split: if_splits)
  next
    case (PBegin mode arg)
    then show ?thesis using d(2) b(1) rd(5) by (intro producer_load [OF at]) (auto simp: may_put_def next_tail_def split: if_splits)
  next
    case (PTail mode arg a)
    then show ?thesis using d(2) b(1) rd(5) by (intro producer_load [OF at]) (auto simp: may_put_def next_tail_def split: if_splits)
  next
    case (PNext mode arg a)
    then show ?thesis using d(2) b(1) rd(5) by (intro producer_load [OF at]) (auto simp: may_put_def next_tail_def split: if_splits)
  qed (use p in simp_all)
qed

text \<open>The slots at the tail and at the front.\<close>

lemma rwb_tail_slot: "rwb m b f xs \<Longrightarrow> unat (Tail b) < length (Data b) \<and> Data b ! unat (Tail b) = None"
  using rwbD(9) [of m b f xs "f + length xs"] unat_pos [of m "f + length xs"] by (simp add: rwb_def)

lemma rwb_front_slot: "rwb m b f xs \<Longrightarrow> xs \<noteq> [] \<Longrightarrow> unat (Front b) < length (Data b) \<and> Data b ! unat (Front b) = Some (hd xs)"
  using rwbD(9) [of m b f xs f] unat_pos [of m f] by (cases xs) (simp_all add: rwb_def)

lemma got_front:
  assumes "get_ok g q h as xss c k" "got_at g a \<noteq> None" "RWBlocks h a = Some b" "rwb m (view_block p g a b) f xs"
  shows "Front b \<noteq> Tail b" "may_take b"
proof -
  show "may_take b" using assms(1-3) by (cases g) (auto split: if_splits)
  then have "Front (view_block p g a b) \<noteq> LocalTail (view_block p g a b)" by (simp add: may_take_def)
  from rwb_ready [OF assms(4) this] show "Front b \<noteq> Tail b" using rwb_empty_iff [OF assms(4)] by simp
qed

lemma view_refresh_front:
  assumes inv: "rw_base e q (view p g h) as xss t" and i: "i < length as" "RWBlocks h (as ! i) = Some b"
    and no: "put_at p = (\<lambda>_. False)" "put_at p' = (\<lambda>_. False)"
  shows "rw_base e q (view p' g (rput (as ! i) (b\<lparr>LocalFront := Front b\<rparr>) h)) as xss t"
proof -
  obtain b1 m f where b1: "RWBlocks h (as ! i) = Some b1" "rwb m (view_block p g (as ! i) b1) f (xss ! i)" by (rule spsc_block [OF inv i(1)])
  have eq: "view_block p' g (as ! i) (b\<lparr>LocalFront := Front b\<rparr>) = (view_block p g (as ! i) b)\<lparr>LocalFront := Front (view_block p g (as ! i) b)\<rparr>"
    by (simp add: view_block_def put_back_def no split: option.split)
  have "view p' g (rput (as ! i) (b\<lparr>LocalFront := Front b\<rparr>) h) = rput (as ! i) (view_block p' g (as ! i) (b\<lparr>LocalFront := Front b\<rparr>)) (view p g h)"
    by (rule view_rput) (simp_all add: no)
  then show ?thesis unfolding eq using rw_base_refresh [OF inv i(1), of "view_block p g (as ! i) b" _ m f] rwb_refresh_front [OF b1(2)] b1(1) i(2)
    by simp
qed

text \<open>An element that is constructed is not seen in the settled memory; when its tail is stored, it is there.\<close>

lemma view_construct:
  assumes inv: "rw_base e q (view p g h) as xss t" and i: "i < length as" "RWBlocks h (as ! i) = Some b"
    and no: "put_at p = (\<lambda>_. False)" "put_at p' = (\<lambda>c. as ! i = c)" and g: "get_ok g q' h as xss c k"
  shows "construct_at (Data b) (unat (Tail b)) v = Some ((Data b)[unat (Tail b) := Some v])"
    "view p' g (rput (as ! i) (b\<lparr>Data := (Data b)[unat (Tail b) := Some v]\<rparr>) h) = view p g h"
    "got_at g (as ! i) \<noteq> None \<Longrightarrow> unat (Front b) \<noteq> unat (Tail b)" "unat (Tail b) < length (Data b)"
proof -
  let ?a = "as ! i"
  obtain b1 m f where "RWBlocks h ?a = Some b1" "rwb m (view_block p g ?a b1) f (xss ! i)" by (rule spsc_block [OF inv i(1)])
  with i have r: "rwb m (view_block p g ?a b) f (xss ! i)" by simp
  have slot: "unat (Tail b) < length (Data b)" "put_back g ?a b ! unat (Tail b) = None"
    using rwb_tail_slot [OF r] by (simp_all add: view_block_def no)
  show ne: "got_at g ?a \<noteq> None \<Longrightarrow> unat (Front b) \<noteq> unat (Tail b)"
    using got_front(1) [OF g _ i(2) r] by (simp add: word_unat_eq_iff)
  have none: "Data b ! unat (Tail b) = None" using slot(2) ne by (auto simp: put_back_def split: option.splits)
  show "construct_at (Data b) (unat (Tail b)) v = Some ((Data b)[unat (Tail b) := Some v])" using slot(1) none by simp
  show "unat (Tail b) < length (Data b)" by (rule slot(1))
  have same: "(Data b)[unat (Tail b) := None] = Data b" using none by (metis list_update_id)
  have "view_block p' g ?a (b\<lparr>Data := (Data b)[unat (Tail b) := Some v]\<rparr>) = view_block p g ?a b"
    using ne by (auto simp: view_block_def put_back_def no same list_update_swap split: option.split)
  moreover have "view p' g (rput ?a (b\<lparr>Data := (Data b)[unat (Tail b) := Some v]\<rparr>) h)
      = rput ?a (view_block p' g ?a (b\<lparr>Data := (Data b)[unat (Tail b) := Some v]\<rparr>)) (view p g h)"
    by (rule view_rput) (simp_all add: no)
  moreover have "rput ?a (view_block p g ?a b) (view p g h) = view p g h"
    using i(2) by (simp add: rput_def fun_upd_idem)
  ultimately show "view p' g (rput ?a (b\<lparr>Data := (Data b)[unat (Tail b) := Some v]\<rparr>) h) = view p g h" by simp
qed

lemma view_publish:
  assumes inv: "rw_base e q (view p g h) as xss t" and i: "i < length as" "RWBlocks h (as ! i) = Some b"
    and pc: "put_at p = (\<lambda>c. as ! i = c)" "put_at p' = (\<lambda>_. False)"
    and b: "may_put b" "Data b ! unat (Tail b) = Some v" and g: "get_ok g q'' h as xss c k"
    and it: "i = t \<or> i = Suc t \<and> filled h as xss t"
    and q': "FrontBlock q' = FrontBlock q" "RWTailBlock q' = Some (as ! i)" "BlockSize q' = BlockSize q"
  shows "rw_base e q' (view p' g (rput (as ! i) (b\<lparr>Tail := next_tail b\<rparr>) h)) as (xss[i := xss ! i @ [v]]) i"
    "concat (xss[i := xss ! i @ [v]]) = concat xss @ [v]"
proof -
  note d = rw_baseD [OF inv]
  let ?a = "as ! i" and ?bv = "view_block p g (as ! i) b"
  obtain b1 m f where "RWBlocks h ?a = Some b1" "rwb m (view_block p g ?a b1) f (xss ! i)" by (rule spsc_block [OF inv i(1)])
  with i have r: "rwb m ?bv f (xss ! i)" by simp
  have ne: "got_at g ?a \<noteq> None \<Longrightarrow> unat (Front b) \<noteq> unat (Tail b)"
    using got_front(1) [OF g _ i(2) r] by (simp add: word_unat_eq_iff)
  have room: "(Tail ?bv + 1) AND SizeMask ?bv \<noteq> LocalFront ?bv" using b(1) by (simp add: may_put_def next_tail_def)
  obtain dd where dd: "construct_at (Data ?bv) (unat (Tail ?bv)) v = Some dd"
    "rwb m (?bv\<lparr>Data := dd, Tail := (Tail ?bv + 1) AND SizeMask ?bv\<rparr>) f (xss ! i @ [v])"
    using rwb_put [OF r room] by blast
  have dd': "dd = (Data ?bv)[unat (Tail b) := Some v]" using construct_at_SomeD [OF dd(1)] by simp
  have same: "(Data b)[unat (Tail b) := Some v] = Data b" using b(2) by (metis list_update_id)
  have "(Data b)[unat (Front b) := x, unat (Tail b) := Some v] = (Data b)[unat (Front b) := x]"
    if "unat (Front b) \<noteq> unat (Tail b)" for x using list_update_swap [OF that, of "Data b" x "Some v"] same by simp
  with same have eq: "view_block p' g ?a (b\<lparr>Tail := next_tail b\<rparr>) = ?bv\<lparr>Data := dd, Tail := (Tail ?bv + 1) AND SizeMask ?bv\<rparr>"
    using ne unfolding dd' by (auto simp: view_block_def put_back_def pc next_tail_def split: option.split)
  have v: "view p' g (rput ?a (b\<lparr>Tail := next_tail b\<rparr>) h) = rput ?a (view_block p' g ?a (b\<lparr>Tail := next_tail b\<rparr>)) (view p g h)"
    by (rule view_rput) (simp_all add: pc)
  show "rw_base e q' (view p' g (rput ?a (b\<lparr>Tail := next_tail b\<rparr>) h)) as (xss[i := xss ! i @ [v]]) i"
    unfolding v eq
    by (rule rw_base_rput [OF inv i(1) _ _ _ dd(2) q' i(1), of ?bv])
      (use i it d(6,7,8,13) in \<open>auto simp: nth_list_update le_Suc_eq less_Suc_eq filled_def\<close>)
  show "concat (xss[i := xss ! i @ [v]]) = concat xss @ [v]" by (rule concat_put) (use i(1) it d(6,13) in auto)
qed

lemma producer_refresh:
  assumes at: "spsc_at e s as xss t" and p: "put_at (Producer s) = (\<lambda>_. False)" "view_q (Producer s) (SQueue s) = SQueue s"
      "publishes (Producer s) = []" "completes (Producer s) = 0" "unfinished (Producer s) = 0"
    and i: "i < length as" "RWBlocks (SHeap s) (as ! i) = Some b"
    and run: "put_step EXP (Producer s) (SQueue s) (SHeap s)
      = Some (p', SQueue s, rput (as ! i) (b\<lparr>LocalFront := Front b\<rparr>) (SHeap s))"
    and p': "put_ok p' (SQueue s) (rput (as ! i) (b\<lparr>LocalFront := Front b\<rparr>) (SHeap s)) as xss t"
      "put_at p' = (\<lambda>_. False)" "view_q p' (SQueue s) = SQueue s" "unfinished p' = 0"
  shows "\<exists>s'. spsc_step EXP ProducerStep s = Some s' \<and> spsc_inv e s'"
proof -
  note d = spsc_atD [OF at]
  have "rw_base e (SQueue s) (view p' (Consumer s) (rput (as ! i) (b\<lparr>LocalFront := Front b\<rparr>) (SHeap s))) as xss t"
    by (rule view_refresh_front [OF _ i p(1) p'(2)]) (use d(1) p(2) in simp)
  moreover have "get_ok (Consumer s) (SQueue s) (rput (as ! i) (b\<lparr>LocalFront := Front b\<rparr>) (SHeap s)) as xss (AtCall s) (length (Taken s))"
    by (rule get_ok_frame [OF d(3) i(2)]) simp_all
  ultimately show ?thesis using p p' by (intro producer_stepI [OF at run _ p'(1)]) simp_all
qed

lemma producer_PFront:
  assumes at: "spsc_at e s as xss t" and p: "Producer s = PFront mode arg a bt"
  shows "\<exists>s'. spsc_step EXP ProducerStep s = Some s' \<and> spsc_inv e s'"
proof -
  note d = spsc_atD [OF at, unfolded p]
  note t = rw_baseD(4) [OF d(1)]
  obtain b m f where b: "RWBlocks (SHeap s) (as ! t) = Some b" "rwb m (view_block (Producer s) (Consumer s) (as ! t) b) f (xss ! t)"
    unfolding p by (rule spsc_block [OF d(1) t])
  let ?b = "b\<lparr>LocalFront := Front b\<rparr>"
  have ok: "a = as ! t" "bt = Tail b" using d(2) b(1) by auto
  have full: "filled (rput (as ! t) ?b (SHeap s)) as xss t" if "next_tail b = Front b"
  proof -
    have "Suc (length (xss ! t)) = 2 ^ m" using rwb_full_iff [OF b(2)] that by (simp add: next_tail_def)
    then have "length (xss ! t) = 2 ^ m - 1" by (metis diff_Suc_1)
    moreover have "cap (SHeap s) (as ! t) = 2 ^ m - 1" using cap_rwb [of "view (Producer s) (Consumer s) (SHeap s)", OF _ b(2)] b(1) by simp
    moreover have "cap (rput (as ! t) ?b (SHeap s)) = cap (SHeap s)" by (rule rput_same(2) [OF b(1)]) simp
    ultimately show ?thesis by (simp add: filled_def)
  qed
  show ?thesis
    by (rule producer_refresh [OF at _ _ _ _ _ t b(1), where p' = "if next_tail b \<noteq> Front b then PConstruct arg a bt else PNext mode arg a"])
      (use p ok b(1) full in \<open>auto simp: at_block_rput may_put_def next_tail_def\<close>)
qed

lemma producer_PNextFront:
  assumes at: "spsc_at e s as xss t" and p: "Producer s = PNextFront arg n bt"
  shows "\<exists>s'. spsc_step EXP ProducerStep s = Some s' \<and> spsc_inv e s'"
proof -
  note d = spsc_atD [OF at, unfolded p]
  have n: "Suc t < length as" "n = as ! Suc t" using d(2) by (simp_all add: next_is_def)
  obtain b m f where b: "RWBlocks (SHeap s) (as ! Suc t) = Some b" "rwb m (view_block (Producer s) (Consumer s) (as ! Suc t) b) f (xss ! Suc t)"
    unfolding p by (rule spsc_block [OF d(1) n(1)])
  let ?b = "b\<lparr>LocalFront := Front b\<rparr>"
  have e: "xss ! Suc t = []" using rw_baseD(6) [OF d(1) n(1)] by simp
  have front: "Front b = Tail b" using rwb_empty_iff [OF b(2)] e by simp
  have "(1::nat) < 2 ^ m" using rwbD(10) [OF b(2)] by (intro one_less_power) simp_all
  then have room: "next_tail b \<noteq> Front b" using rwb_full_iff [OF b(2)] e by (simp add: next_tail_def)
  have ca: "cap (rput (as ! Suc t) ?b (SHeap s)) = cap (SHeap s)" by (rule rput_same(2) [OF b(1)]) simp
  show ?thesis
    by (rule producer_refresh [OF at _ _ _ _ _ n(1) b(1), where p' = "PNextConstruct arg n bt"])
      (use p n b(1) d(2) front room ca in \<open>auto simp: at_block_rput may_put_def next_tail_def filled_def\<close>)
qed

lemma producer_PConstruct:
  assumes at: "spsc_at e s as xss t" and p: "Producer s = PConstruct arg a bt"
  shows "\<exists>s'. spsc_step EXP ProducerStep s = Some s' \<and> spsc_inv e s'"
proof -
  note d = spsc_atD [OF at, unfolded p]
  note t = rw_baseD(4) [OF d(1)]
  obtain b where b: "RWBlocks (SHeap s) (as ! t) = Some b" by (rule spsc_block [OF d(1) t])
  have ok: "a = as ! t" "bt = Tail b" "may_put b" using d(2) b by auto
  show ?thesis
  proof (cases arg)
    case None
    then show ?thesis using ok b by (intro producer_load [OF at]) (auto simp: p)
  next
    case (Some v)
    let ?p = "PPublish v a (next_tail b)" and ?b = "b\<lparr>Data := (Data b)[unat (Tail b) := Some v]\<rparr>"
    note c = view_construct [OF d(1) t b, of ?p, OF _ _ d(3)]
    have "view ?p (Consumer s) (rput (as ! t) ?b (SHeap s)) = view (PConstruct arg a bt) (Consumer s) (SHeap s)"
      by (rule c(2)) (simp_all add: ok fun_eq_iff)
    moreover have "get_ok (Consumer s) (SQueue s) (rput (as ! t) ?b (SHeap s)) as xss (AtCall s) (length (Taken s))"
      by (rule get_ok_frame [OF d(3) b]) (use c(3) ok(1) in \<open>auto simp: fun_eq_iff\<close>)
    moreover have "put_step EXP (Producer s) (SQueue s) (SHeap s) = Some (?p, SQueue s, rput (as ! t) ?b (SHeap s))"
      using c(1) ok b Some by (simp add: p next_tail_def fun_eq_iff)
    ultimately show ?thesis using d(1) c(4) ok
      by (intro producer_stepI [OF at, where as' = as and xss' = xss and t' = t]) (auto simp: p at_block_rput next_tail_def may_put_def fun_eq_iff)
  qed
qed

lemma producer_PNextConstruct:
  assumes at: "spsc_at e s as xss t" and p: "Producer s = PNextConstruct arg n bt"
  shows "\<exists>s'. spsc_step EXP ProducerStep s = Some s' \<and> spsc_inv e s'"
proof -
  note d = spsc_atD [OF at, unfolded p]
  have n: "Suc t < length as" "n = as ! Suc t" "filled (SHeap s) as xss t" using d(2) by (simp_all add: next_is_def)
  obtain b where b: "RWBlocks (SHeap s) (as ! Suc t) = Some b" by (rule spsc_block [OF d(1) n(1)])
  have ok: "bt = Tail b" "may_put b" using d(2) n b by auto
  show ?thesis
  proof (cases arg)
    case None
    then show ?thesis using n b by (intro producer_load [OF at]) (auto simp: p)
  next
    case (Some v)
    let ?p = "PNextPublish v n (next_tail b)" and ?b = "b\<lparr>Data := (Data b)[unat (Tail b) := Some v]\<rparr>"
    note c = view_construct [OF d(1) n(1) b, of ?p, OF _ _ d(3)]
    have "view ?p (Consumer s) (rput (as ! Suc t) ?b (SHeap s)) = view (PNextConstruct arg n bt) (Consumer s) (SHeap s)"
      by (rule c(2)) (simp_all add: n fun_eq_iff)
    moreover have "get_ok (Consumer s) (SQueue s) (rput (as ! Suc t) ?b (SHeap s)) as xss (AtCall s) (length (Taken s))"
      by (rule get_ok_frame [OF d(3) b]) (use c(3) n(2) in \<open>auto simp: fun_eq_iff\<close>)
    moreover have "put_step EXP (Producer s) (SQueue s) (SHeap s) = Some (?p, SQueue s, rput (as ! Suc t) ?b (SHeap s))"
      using c(1) n ok b Some by (simp add: p next_tail_def fun_eq_iff)
    moreover have "cap (rput (as ! Suc t) ?b (SHeap s)) = cap (SHeap s)" by (rule rput_same(2) [OF b]) simp
    ultimately show ?thesis using d(1) c(4) n ok
      by (intro producer_stepI [OF at, where as' = as and xss' = xss and t' = t]) (auto simp: p at_block_rput next_tail_def may_put_def next_is_def filled_def fun_eq_iff)
  qed
qed

lemma behind_pos: "rw_base e q h as xss t \<Longrightarrow> behind q as \<Longrightarrow> 0 < t"
  by (cases t) (auto simp: behind_def dest: rw_baseD(5))

lemma producer_PPublish:
  assumes at: "spsc_at e s as xss t" and p: "Producer s = PPublish v a nt"
  shows "\<exists>s'. spsc_step EXP ProducerStep s = Some s' \<and> spsc_inv e s'"
proof -
  note d = spsc_atD [OF at, unfolded p]
  have base: "rw_base e (SQueue s) (view (PPublish v a nt) (Consumer s) (SHeap s)) as xss t" using d(1) by simp
  note rd = rw_baseD [OF base]
  obtain b where b: "RWBlocks (SHeap s) (as ! t) = Some b" by (rule spsc_block [OF d(1) rd(4)])
  have ok: "a = as ! t" "nt = next_tail b" "may_put b" "Data b ! unat (Tail b) = Some v" using d(2) b by auto
  let ?p = "PReturned (Returned True)" and ?b = "b\<lparr>Tail := next_tail b\<rparr>" and ?xss = "xss[t := xss ! t @ [v]]"
  have pc: "put_at (PPublish v a nt) = (\<lambda>c. as ! t = c)" "put_at ?p = (\<lambda>_. False)" by (simp_all add: ok(1))
  note pub = view_publish [OF base rd(4) b pc ok(3,4) d(3), of "SQueue s", OF _ refl rd(5) refl]
  have "get_ok (Consumer s) (SQueue s) (rput (as ! t) ?b (SHeap s)) as ?xss (AtCall s) (length (Taken s))"
    by (rule get_ok_frame [OF d(3) b]) (use behind_pos [OF base] rd(4,13) in \<open>auto simp: nth_list_update\<close>)
  moreover have "put_step EXP (Producer s) (SQueue s) (SHeap s) = Some (?p, SQueue s, rput (as ! t) ?b (SHeap s))"
    using ok b by (simp add: p)
  ultimately show ?thesis using pub
    by (intro producer_stepI [OF at, where as' = as and xss' = ?xss and t' = t and p' = ?p]) (auto simp: p)
qed

lemma producer_PNextPublish:
  assumes at: "spsc_at e s as xss t" and p: "Producer s = PNextPublish v n nt"
  shows "\<exists>s'. spsc_step EXP ProducerStep s = Some s' \<and> spsc_inv e s'"
proof -
  note d = spsc_atD [OF at, unfolded p]
  have base: "rw_base e (SQueue s) (view (PNextPublish v n nt) (Consumer s) (SHeap s)) as xss t" using d(1) by simp
  note rd = rw_baseD [OF base]
  have n: "Suc t < length as" "n = as ! Suc t" "filled (SHeap s) as xss t" using d(2) by (simp_all add: next_is_def)
  obtain b where b: "RWBlocks (SHeap s) (as ! Suc t) = Some b" by (rule spsc_block [OF d(1) n(1)])
  have ok: "nt = next_tail b" "may_put b" "Data b ! unat (Tail b) = Some v" using d(2) b n by auto
  let ?p = "PTailBlock n" and ?b = "b\<lparr>Tail := next_tail b\<rparr>" and ?xss = "xss[Suc t := xss ! Suc t @ [v]]"
  have pc: "put_at (PNextPublish v n nt) = (\<lambda>c. as ! Suc t = c)" "put_at ?p = (\<lambda>_. False)" by (simp_all add: n(2))
  note pub = view_publish [OF base n(1) b pc ok(2,3) d(3), of "view_q ?p (SQueue s)"]
  have "get_ok (Consumer s) (SQueue s) (rput (as ! Suc t) ?b (SHeap s)) as ?xss (AtCall s) (length (Taken s))"
    by (rule get_ok_frame [OF d(3) b]) (use n rd(13) in \<open>auto simp: nth_list_update\<close>)
  moreover have "put_step EXP (Producer s) (SQueue s) (SHeap s) = Some (?p, SQueue s, rput (as ! Suc t) ?b (SHeap s))"
    using ok n b by (simp add: p)
  moreover have "put_ok ?p (SQueue s) (rput (as ! Suc t) ?b (SHeap s)) as ?xss (Suc t)"
    using rd(5,13) rd(6) [OF n(1)] n by simp
  ultimately show ?thesis using pub n
    by (intro producer_stepI [OF at, where as' = as and xss' = ?xss and t' = "Suc t" and p' = ?p]) (auto simp: p)
qed

lemma get_ok_cong:
  assumes "get_ok g q h as xss c k" "as' ! 0 = as ! 0" "xss' ! 0 = xss ! 0" "\<And>P. at_block h' (as ! 0) P = at_block h (as ! 0) P"
    "behind q as \<Longrightarrow> behind q' as \<and> as' ! 1 = as ! 1 \<and> (\<forall>P. at_block h' (as ! 1) P = at_block h (as ! 1) P)"
  shows "get_ok g q' h' as' xss' c k"
proof -
  have "behind q' as' = behind q' as" using assms(2) by (simp add: behind_def)
  then show ?thesis using assms by (cases g) auto
qed

lemma producer_PTailBlock:
  assumes at: "spsc_at e s as xss t" and p: "Producer s = PTailBlock n"
  shows "\<exists>s'. spsc_step EXP ProducerStep s = Some s' \<and> spsc_inv e s'"
proof -
  note d = spsc_atD [OF at, unfolded p]
  note rd = rw_baseD [OF d(1)]
  let ?q = "(SQueue s)\<lparr>RWTailBlock := Some n\<rparr>" and ?p = "PReturned (Returned True)"
  have t: "n = as ! t" "0 < t" using d(2) by simp_all
  have "as ! t \<noteq> as ! 0" using rd(4,14,15) t(2) by (simp add: nth_eq_iff_index_eq)
  then have "get_ok (Consumer s) ?q (SHeap s) as xss (AtCall s) (length (Taken s))"
    by (intro get_ok_cong [OF d(3)]) (simp_all add: behind_def t(1))
  moreover have "view ?p (Consumer s) (SHeap s) = view (PTailBlock n) (Consumer s) (SHeap s)" by (rule view_cong) simp_all
  ultimately show ?thesis using d(1)
    by (intro producer_stepI [OF at, where as' = as and xss' = xss and t' = t and p' = ?p]) (auto simp: p)
qed

text \<open>The new block.\<close>

lemma rwb_first:
  assumes "1 \<le> m" "m < 64"
  shows "construct_at (Data (new_rwblock (2 ^ m))) 0 v = Some ((Data (new_rwblock (2 ^ m)))[0 := Some v])"
    "rwb m (new_rwblock (2 ^ m)\<lparr>Data := (Data (new_rwblock (2 ^ m)))[0 := Some v], Tail := 1, LocalTail := 1, RWNext := n\<rparr>) 0 [v]"
proof -
  have sz: "unat (2 ^ m :: size_t) = 2 ^ m" using assms(2) by (intro unat_pow2) simp
  then show "construct_at (Data (new_rwblock (2 ^ m))) 0 v = Some ((Data (new_rwblock (2 ^ m)))[0 := Some v])"
    by (intro construct_at_ok) (simp_all add: new_rwblock_def)
  have p: "(1::nat) < 2 ^ m" using assms(1) by (intro one_less_power) simp_all
  then have q: "(1::nat) mod 2 ^ m = 1" by (rule mod_less)
  show "rwb m (new_rwblock (2 ^ m)\<lparr>Data := (Data (new_rwblock (2 ^ m)))[0 := Some v], Tail := 1, LocalTail := 1, RWNext := n\<rparr>) 0 [v]"
    using p q assms sz
    by (auto simp del: one_less_power simp: rwb_def new_rwblock_def nth_Cons' intro!: exI [of _ "0 :: nat"] exI [of _ "1 :: nat"])
qed

lemma view_outside:
  assumes inv: "rw_base e q (view p g h) as xss t"
    and h': "\<And>a. a \<in> set as \<Longrightarrow> RWBlocks h' a = RWBlocks h a" "\<And>a. RWBrk h' \<le> a \<Longrightarrow> RWBlocks h' a = None"
    and p: "put_at p = (\<lambda>_. False)" "put_at p' = (\<lambda>_. False)"
    and q': "FrontBlock q' = FrontBlock q" "RWTailBlock q' = RWTailBlock q" "\<exists>s \<le> e. BlockSize q' = 2 ^ s"
    and g: "get_ok g q h as xss c k"
  shows "rw_base e q' (view p' g h') as xss t" "get_ok g q' h' as xss c k"
proof -
  note d = rw_baseD [OF inv]
  have same: "view_block p' g = view_block p g" by (intro ext) (simp add: view_block_def p)
  show "rw_base e q' (view p' g h') as xss t"
    by (rule rw_base_outside [OF inv _ _ q']) (simp_all add: h' same)
  have at: "at_block h' (as ! i) P = at_block h (as ! i) P" if "i < length as" for i P
    using h'(1) [of "as ! i"] that by (simp add: at_block_def)
  show "get_ok g q' h' as xss c k"
    by (rule get_ok_cong [OF g]) (use at d(4,15) behind_pos [OF inv] q'(2) in \<open>auto simp: behind_def\<close>)
qed

lemma producer_PMake:
  assumes at: "spsc_at e s as xss t" and p: "Producer s = PMake arg a"
  shows "\<exists>s'. spsc_step (2 ^ e) ProducerStep s = Some s' \<and> spsc_inv e s'"
proof -
  note d = spsc_atD [OF at, unfolded p]
  have base: "rw_base e (SQueue s) (view (PMake arg a) (Consumer s) (SHeap s)) as xss t" using d(1) by simp
  note rd = rw_baseD [OF base]
  let ?h = "SHeap s" and ?n = "RWBrk (SHeap s)"
  obtain s0 where s0: "s0 \<le> e" "BlockSize (SQueue s) = 2 ^ s0" using rd(10) by blast
  obtain m where m: "1 \<le> m" "m \<le> e" "grown (2 ^ e) (2 ^ s0) = (2 ^ m :: size_t)" using grown_pow2 [OF s0(1) rd(11,12)] by blast
  have m64: "m < 64" using m(2) rd(12) by simp
  let ?q = "(SQueue s)\<lparr>BlockSize := 2 ^ m\<rparr>" and ?nb = "new_rwblock (2 ^ m) :: 'a rwblock"
  let ?h1 = "?h\<lparr>RWBlocks := (RWBlocks ?h)(?n \<mapsto> ?nb), RWBrk := ?n + 1, RWQuota := RWQuota ?h - 1\<rparr>"
  have size: "(let Size = BlockSize (SQueue s); Size = (if Size < 2 ^ e then (if Size * 2 > 2 ^ e then 2 ^ e else Size * 2) else Size)
      in P Size) = P (2 ^ m)" for P :: "size_t \<Rightarrow> ('a put_pc \<times> rwq \<times> 'a rwheap) option"
    using s0(2) m(3) by (simp add: grown_def Let_def)
  have free: "RWBlocks ?h b = None" if "?n \<le> b" for b using rd(9) [of b] that by simp
  have old: "b \<noteq> ?n" if "b \<in> set as" for b using rw_live(1) [OF rd(2,9) that] by simp
  show ?thesis
  proof (cases "RWQuota ?h = 0")
    case True
    let ?p = "PReturned Terminated :: 'a put_pc"
    have "rw_base e ?q (view ?p (Consumer s) ?h) as xss t \<and> get_ok (Consumer s) ?q ?h as xss (AtCall s) (length (Taken s))"
      by (intro conjI view_outside [OF base _ _ _ _ _ _ _ d(3), where p' = ?p]) (use free m(2) in auto)
    moreover have "put_step (2 ^ e) (Producer s) (SQueue s) ?h = Some (?p, ?q, ?h)"
      unfolding p put_step.simps size by (simp add: MakeBlock_def True)
    ultimately show ?thesis
      by (intro producer_stepI [OF at, where as' = as and xss' = xss and t' = t and p' = ?p]) (auto simp: p)
  next
    case False
    then have make: "MakeBlock (2 ^ m) ?h = Made (?n, ?h1)" by (simp add: MakeBlock_def)
    show ?thesis
    proof (cases arg)
      case None
      let ?p = "PReturned Threw :: 'a put_pc"
      have "rw_base e ?q (view ?p (Consumer s) ?h1) as xss t \<and> get_ok (Consumer s) ?q ?h1 as xss (AtCall s) (length (Taken s))"
        by (intro conjI view_outside [OF base _ _ _ _ _ _ _ d(3), where p' = ?p]) (use free old m(2) in auto)
      moreover have "put_step (2 ^ e) (Producer s) (SQueue s) ?h = Some (?p, ?q, ?h1)"
        unfolding p put_step.simps size by (simp add: make None)
      ultimately show ?thesis
        by (intro producer_stepI [OF at, where as' = as and xss' = xss and t' = t and p' = ?p]) (auto simp: p)
    next
      case (Some v)
      let ?p = "PLink v a ?n" and ?d = "(Data ?nb)[0 := Some v]"
      let ?h2 = "rput ?n (?nb\<lparr>Data := ?d, Tail := 1, LocalTail := 1\<rparr>) ?h1"
      have keep: "?nb\<lparr>Data := ?d, Tail := 1, LocalTail := 1\<rparr> = ?nb\<lparr>Data := ?d, Tail := 1, LocalTail := 1, RWNext := None\<rparr>"
        by (simp add: new_rwblock_def)
      have "rw_base e ?q (view ?p (Consumer s) ?h2) as xss t \<and> get_ok (Consumer s) ?q ?h2 as xss (AtCall s) (length (Taken s))"
        by (intro conjI view_outside [OF base _ _ _ _ _ _ _ d(3), where p' = ?p]) (use free old m(2) in auto)
      moreover have "put_step (2 ^ e) (Producer s) (SQueue s) ?h = Some (?p, ?q, ?h2)"
        unfolding p put_step.simps size using rwb_first(1) [OF m(1) m64, where v = v] by (simp add: make Some) (simp add: new_rwblock_def)
      moreover have "put_ok ?p ?q ?h2 as xss t"
      proof -
        have "filled ?h2 as xss t"
          using d(2) old [of "as ! t"] rd(4) by (auto simp: filled_def cap_def)
        moreover have "?n \<notin> set as" using old by blast
        moreover have "rwb m (?nb\<lparr>Data := ?d, Tail := 1, LocalTail := 1\<rparr>) 0 [v]"
          using rwb_first(2) [OF m(1) m64, where v = v and n = None] unfolding keep [symmetric] .
        ultimately show ?thesis using d(2) by (auto simp: at_block_rput)
      qed
      ultimately show ?thesis
        by (intro producer_stepI [OF at, where as' = as and xss' = xss and t' = t and p' = ?p]) (auto simp: p)
    qed
  qed
qed

lemma producer_PLink:
  assumes at: "spsc_at e s as xss t" and p: "Producer s = PLink v a n"
  shows "\<exists>s'. spsc_step EXP ProducerStep s = Some s' \<and> spsc_inv e s'"
proof -
  note d = spsc_atD [OF at, unfolded p]
  have base: "rw_base e (SQueue s) (view (PLink v a n) (Consumer s) (SHeap s)) as xss t" using d(1) by simp
  note rd = rw_baseD [OF base]
  obtain b where b: "RWBlocks (SHeap s) (as ! t) = Some b" by (rule spsc_block [OF d(1) rd(4)])
  obtain nb m where nb: "RWBlocks (SHeap s) n = Some nb" "rwb m nb 0 [v]" using d(2) by (auto elim: at_blockE)
  have ok: "a = as ! t" "n \<notin> set as" "filled (SHeap s) as xss t" "as ! t \<noteq> n" using d(2) rd(4) by auto
  let ?p = "PJoin v a n" and ?h = "rput n (nb\<lparr>RWNext := RWNext b\<rparr>) (SHeap s)"
  have free: "RWBlocks (SHeap s) c = None" if "RWBrk (SHeap s) \<le> c" for c using rd(9) [of c] that by simp
  then have "n < RWBrk (SHeap s)" using nb(1) by (cases "n < RWBrk (SHeap s)") auto
  then have "rw_base e (SQueue s) (view ?p (Consumer s) ?h) as xss t \<and> get_ok (Consumer s) (SQueue s) ?h as xss (AtCall s) (length (Taken s))"
    by (intro conjI view_outside [OF base _ _ _ _ _ _ _ d(3), where p' = ?p]) (use free ok(2) rd(10) in auto)
  moreover have "put_step EXP (Producer s) (SQueue s) (SHeap s) = Some (?p, SQueue s, ?h)"
    using b nb(1) ok(1) by (simp add: p set_next_def)
  moreover have "cap ?h = cap (SHeap s)" by (rule rput_same(2) [OF nb(1)]) simp
  ultimately show ?thesis using ok b nb
    by (intro producer_stepI [OF at, where as' = as and xss' = xss and t' = t and p' = ?p]) (auto simp: p at_block_rput filled_def)
qed

lemma producer_PJoin:
  assumes at: "spsc_at e s as xss t" and p: "Producer s = PJoin v a n"
  shows "\<exists>s'. spsc_step EXP ProducerStep s = Some s' \<and> spsc_inv e s'"
proof -
  note d = spsc_atD [OF at, unfolded p]
  have base: "rw_base e (SQueue s) (view (PJoin v a n) (Consumer s) (SHeap s)) as xss t" using d(1) by simp
  note rd = rw_baseD [OF base]
  obtain b where b: "RWBlocks (SHeap s) (as ! t) = Some b" by (rule spsc_block [OF d(1) rd(4)])
  obtain nb m where nb: "RWBlocks (SHeap s) n = Some nb" "rwb m nb 0 [v]" "RWNext nb = RWNext b"
    using d(2) b by (auto elim!: at_blockE)
  have ok: "a = as ! t" "n \<notin> set as" "filled (SHeap s) as xss t" "as ! t \<noteq> n" using d(2) rd(4) by auto
  let ?p = "PTailBlock n" and ?b = "b\<lparr>RWNext := Some n\<rparr>" and ?as = "take (Suc t) as @ n # drop (Suc t) as"
    and ?xss = "take (Suc t) xss @ [v] # drop (Suc t) xss" and ?old = "view (PJoin v a n) (Consumer s) (SHeap s)"
  let ?vb = "view_block (PJoin v a n) (Consumer s) (as ! t) b"
  have "got_at (Consumer s) n = None" using d(3) ok(2) rd(15) nth_mem [of 0 as] by (cases "Consumer s") auto
  then have vn: "view_block (PJoin v a n) (Consumer s) n nb = nb" by (simp add: view_block_def put_back_def)
  have vb: "view_block ?p (Consumer s) (as ! t) ?b = ?vb\<lparr>RWNext := Some n\<rparr>" by (simp add: view_block_def put_back_def split: option.split)
  have v: "view ?p (Consumer s) (rput (as ! t) ?b (SHeap s)) = rput (as ! t) (?vb\<lparr>RWNext := Some n\<rparr>) ?old"
    unfolding vb [symmetric] by (rule view_rput) simp_all
  have new: "rw_base e (view_q ?p (SQueue s)) (view ?p (Consumer s) (rput (as ! t) ?b (SHeap s))) ?as ?xss (Suc t)"
    unfolding v by (rule rw_base_insert [OF base _ _ ok(2), where nb = nb and m' = m and f' = 0])
      (use ok(3) b nb vn in \<open>simp_all add: filled_def\<close>)
  have nth: "?as ! i = as ! i" if "i \<le> t" for i using that rd(4) by (simp add: nth_append)
  have "get_ok (Consumer s) (SQueue s) (rput (as ! t) ?b (SHeap s)) as xss (AtCall s) (length (Taken s))"
    by (rule get_ok_frame [OF d(3) b]) simp_all
  then have "get_ok (Consumer s) (SQueue s) (rput (as ! t) ?b (SHeap s)) ?as ?xss (AtCall s) (length (Taken s))"
    by (rule get_ok_cong) (use nth [of 0] nth [of 1] behind_pos [OF base] rd(4,13) in \<open>auto simp: nth_append\<close>)
  moreover have "put_step EXP (Producer s) (SQueue s) (SHeap s) = Some (?p, SQueue s, rput (as ! t) ?b (SHeap s))"
    using b ok(1) by (simp add: p set_next_def)
  moreover have "put_ok ?p (SQueue s) (rput (as ! t) ?b (SHeap s)) ?as ?xss (Suc t)"
    using rd(4,5,13) by (simp add: nth_append)
  moreover have "concat ?xss = concat xss @ [v]"
  proof -
    have "\<forall>x \<in> set (drop (Suc t) xss). x = []" using rd(6,13) by (auto simp: in_set_conv_nth)
    then have e: "concat (drop (Suc t) xss) = []" by simp
    have all: "concat xss = concat (take (Suc t) xss) @ concat (drop (Suc t) xss)" by (simp flip: concat_append)
    show ?thesis unfolding all concat_append concat.simps(2) e by simp
  qed
  ultimately show ?thesis using new
    by (intro producer_stepI [OF at, where as' = ?as and xss' = ?xss and t' = "Suc t" and p' = ?p]) (auto simp: p)
qed

lemma producer_step_ok:
  assumes "spsc_inv e s"
  shows "\<exists>s'. spsc_step (2 ^ e) ProducerStep s = Some s' \<and> spsc_inv e s'"
proof -
  obtain as xss t where at: "spsc_at e s as xss t" using assms by (auto simp: spsc_inv_def)
  note steps = producer_PFront [OF at] producer_PNextFront [OF at] producer_PConstruct [OF at] producer_PNextConstruct [OF at]
    producer_PPublish [OF at] producer_PNextPublish [OF at] producer_PTailBlock [OF at] producer_PMake [OF at] producer_PLink [OF at]
    producer_PJoin [OF at]
  show ?thesis
    by (cases "Producer s") (rule steps producer_loads [OF at], simp; fail)+
qed

section \<open>The steps of the consumer\<close>

lemma consumer_stepI:
  assumes "spsc_at e s as xss t" "get_step (Consumer s) (SQueue s) (SHeap s) = Some (g', q', h')"
    "rw_base e (view_q (Producer s) q') (view (Producer s) g' h') as' xss' t'" "put_ok (Producer s) q' h' as' xss' t'"
    "get_ok g' q' h' as' xss' (AtCall s) (length (Taken s @ takes (Consumer s)))" "concat xss = takes (Consumer s) @ concat xss'"
  shows "\<exists>s'. spsc_step EXP ConsumerStep s = Some s' \<and> spsc_inv e s'"
proof -
  note d = spsc_atD [OF assms(1)]
  have "spsc_at e (s\<lparr>SQueue := q', SHeap := h', Consumer := g', Taken := Taken s @ takes (Consumer s)\<rparr>) as' xss' t'"
    using assms(3-6) d(4-6) unfolding spsc_at_def by simp
  then show ?thesis using assms(2) by (auto simp: spsc_inv_def)
qed

lemma consumer_load:
  assumes at: "spsc_at e s as xss t" and run: "get_step (Consumer s) (SQueue s) (SHeap s) = Some (g', SQueue s, SHeap s)"
    and g': "get_ok g' (SQueue s) (SHeap s) as xss (AtCall s) (length (Taken s))" "got_at g' = got_at (Consumer s)" "takes (Consumer s) = []"
  shows "\<exists>s'. spsc_step EXP ConsumerStep s = Some s' \<and> spsc_inv e s'"
proof -
  note d = spsc_atD [OF at]
  have "view (Producer s) g' (SHeap s) = view (Producer s) (Consumer s) (SHeap s)" by (rule view_cong) (simp_all add: g'(2))
  then show ?thesis using d(1,2) g' by (intro consumer_stepI [OF at run]) simp_all
qed

lemma contents_upto:
  assumes inv: "rw_base e q h as xss t"
  shows "concat xss = concat (take (Suc t) xss)"
proof -
  note d = rw_baseD [OF inv]
  have "\<forall>x \<in> set (drop (Suc t) xss). x = []" using d(6,13) by (auto simp: in_set_conv_nth)
  then have e: "concat (drop (Suc t) xss) = []" by simp
  have "concat xss = concat (take (Suc t) xss) @ concat (drop (Suc t) xss)" by (simp flip: concat_append)
  then show ?thesis unfolding e by simp
qed

text \<open>When \<^verbatim>\<open>TailBlock\<close> is the consumer's block, all that was completed before the call is in this block or taken.\<close>

lemma last_block:
  assumes at: "spsc_at e s as xss t" and tail: "RWTailBlock (SQueue s) = Some (as ! 0)"
  shows "AtCall s \<le> length (Taken s) + length (xss ! 0)"
proof -
  note d = spsc_atD [OF at]
  note rd = rw_baseD [OF d(1)]
  have ne: "0 < length xss" using rd(13,15) by simp
  have len: "length (Taken s) + length (concat xss) = length (Put s)" by (simp flip: d(4))
  have "Completed s \<le> length (Taken s) + length (xss ! 0)"
  proof (cases "\<exists>n. Producer s = PTailBlock n")
    case True
    then have t: "0 < t" "length (xss ! t) = 1" "as ! (t - 1) = as ! 0" using d(2) tail by auto
    have "t - 1 < length as" using rd(4) by simp
    then have "t = 1" using t rd(14,15) nth_eq_iff_index_eq [of as "t - 1" 0] by simp
    moreover have "take 2 xss = [xss ! 0, xss ! 1]" using \<open>t = 1\<close> rd(4,13) by (cases xss; cases "tl xss") auto
    ultimately have "length (concat xss) = length (xss ! 0) + 1"
      unfolding contents_upto [OF d(1)] using t(2) by (simp add: numeral_2_eq_2)
    then show ?thesis using d(5) len True by auto
  next
    case False
    then have q: "view_q (Producer s) (SQueue s) = SQueue s" "unfinished (Producer s) = 0" by (cases "Producer s"; simp)+
    then have "as ! t = as ! 0" using rd(5) tail by simp
    then have "t = 0" using rd(4,14,15) nth_eq_iff_index_eq [of as t 0] by simp
    then have "length (concat xss) = length (xss ! 0)" unfolding contents_upto [OF d(1)] using ne by (simp add: take_Suc_conv_app_nth)
    then show ?thesis using d(5) len q(2) by simp
  qed
  then show ?thesis using d(6) by simp
qed

lemma behind_view: "RWTailBlock (SQueue s) \<noteq> Some (as ! 0) \<Longrightarrow> spsc_at e s as xss t \<Longrightarrow> 0 < t"
proof (rule ccontr)
  assume a: "RWTailBlock (SQueue s) \<noteq> Some (as ! 0)" "spsc_at e s as xss t" "\<not> 0 < t"
  note d = spsc_atD [OF a(2)]
  show False using a(1,3) d(2) rw_baseD(5) [OF d(1)] by (cases "Producer s") auto
qed

lemma consumer_loads:
  assumes at: "spsc_at e s as xss t"
    and g: "case Consumer s of GIdle \<Rightarrow> True | GBegin \<Rightarrow> True | GFront _ \<Rightarrow> True | GTailBlock _ _ _ \<Rightarrow> True | GNext _ \<Rightarrow> True
      | GNextFront _ \<Rightarrow> True | GReturned _ \<Rightarrow> True | _ \<Rightarrow> False"
  shows "\<exists>s'. spsc_step EXP ConsumerStep s = Some s' \<and> spsc_inv e s'"
proof -
  note d = spsc_atD [OF at]
  note rd = rw_baseD [OF d(1)]
  have l: "0 < length as" using rd(15) by simp
  obtain b where b: "RWBlocks (SHeap s) (as ! 0) = Some b" by (rule spsc_block [OF d(1) l])
  have front: "FrontBlock (SQueue s) = Some (as ! 0)" using rd(3,15) by (cases "Producer s") (simp_all add: hd_conv_nth)
  have nx: "RWNext b = Some (as ! 1)" if "behind (SQueue s) as"
    using behind_view [of s as, OF _ at] that ring_nth [OF rd(1) l] b rd(4) by (simp add: rw_next_def behind_def)
  show ?thesis
  proof (cases "Consumer s")
    case (GTailBlock a f bt)
    then show ?thesis using d(3) b last_block [OF at]
      by (intro consumer_load [OF at]) (auto simp: may_take_def behind_def split: if_splits)
  next
    case (GNextFront n)
    then have "behind (SQueue s) as" using d(3) by simp
    then have "Suc 0 < length as" using behind_view [of s as, OF _ at] rd(4) by (simp add: behind_def)
    then obtain b1 where "RWBlocks (SHeap s) (as ! 1) = Some b1" using spsc_block [OF d(1), of 1] by auto
    then show ?thesis using d(3) GNextFront by (intro consumer_load [OF at]) auto
  next
    case (GNext a)
    then show ?thesis using d(3) b nx by (intro consumer_load [OF at]) auto
  next
    case GIdle
    then show ?thesis by (intro consumer_load [OF at]) auto
  next
    case GBegin
    then show ?thesis using front by (intro consumer_load [OF at]) auto
  next
    case (GFront a)
    then show ?thesis using d(3) b by (intro consumer_load [OF at]) auto
  next
    case (GReturned r)
    then show ?thesis using d(3) by (intro consumer_load [OF at]) auto
  qed (use g in simp_all)
qed

lemma view_refresh_tail:
  assumes inv: "rw_base e q (view p g h) as xss t" and i: "i < length as" "RWBlocks h (as ! i) = Some b"
    and no: "got_at g = (\<lambda>_. None)" "got_at g' = (\<lambda>_. None)"
  shows "rw_base e q (view p g' (rput (as ! i) (b\<lparr>LocalTail := Tail b\<rparr>) h)) as xss t"
proof -
  obtain b1 m f where b1: "RWBlocks h (as ! i) = Some b1" "rwb m (view_block p g (as ! i) b1) f (xss ! i)" by (rule spsc_block [OF inv i(1)])
  have eq: "view_block p g' (as ! i) (b\<lparr>LocalTail := Tail b\<rparr>) = (view_block p g (as ! i) b)\<lparr>LocalTail := Tail (view_block p g (as ! i) b)\<rparr>"
    by (simp add: view_block_def put_back_def no)
  have "view p g' (rput (as ! i) (b\<lparr>LocalTail := Tail b\<rparr>) h) = rput (as ! i) (view_block p g' (as ! i) (b\<lparr>LocalTail := Tail b\<rparr>)) (view p g h)"
    by (rule view_rput) (simp_all add: no)
  then show ?thesis unfolding eq using rw_base_refresh [OF inv i(1), of "view_block p g (as ! i) b" _ m f] rwb_refresh_tail [OF b1(2)] b1(1) i(2)
    by simp
qed

lemma consumer_refresh:
  assumes at: "spsc_at e s as xss t" and g: "got_at (Consumer s) = (\<lambda>_. None)" "takes (Consumer s) = []"
    and i: "i < length as" "RWBlocks (SHeap s) (as ! i) = Some b"
    and run: "get_step (Consumer s) (SQueue s) (SHeap s) = Some (g', SQueue s, rput (as ! i) (b\<lparr>LocalTail := Tail b\<rparr>) (SHeap s))"
    and g': "get_ok g' (SQueue s) (rput (as ! i) (b\<lparr>LocalTail := Tail b\<rparr>) (SHeap s)) as xss (AtCall s) (length (Taken s))"
      "got_at g' = (\<lambda>_. None)"
  shows "\<exists>s'. spsc_step EXP ConsumerStep s = Some s' \<and> spsc_inv e s'"
proof -
  note d = spsc_atD [OF at]
  have "rw_base e (view_q (Producer s) (SQueue s)) (view (Producer s) g' (rput (as ! i) (b\<lparr>LocalTail := Tail b\<rparr>) (SHeap s))) as xss t"
    by (rule view_refresh_tail [OF d(1) i g(1) g'(2)])
  moreover have "put_ok (Producer s) (SQueue s) (rput (as ! i) (b\<lparr>LocalTail := Tail b\<rparr>) (SHeap s)) as xss t"
    by (rule put_ok_frame [OF d(2) i(2)]) (use i(1) rw_baseD(4) [OF d(1)] in simp_all)
  ultimately show ?thesis using g g' by (intro consumer_stepI [OF at run]) simp_all
qed

lemma consumer_tails:
  assumes at: "spsc_at e s as xss t" and g: "Consumer s = GTail a f \<or> Consumer s = GTail2 a f"
  shows "\<exists>s'. spsc_step EXP ConsumerStep s = Some s' \<and> spsc_inv e s'"
proof -
  note d = spsc_atD [OF at]
  note rd = rw_baseD [OF d(1)]
  have l: "0 < length as" using rd(15) by simp
  obtain b m fr where b: "RWBlocks (SHeap s) (as ! 0) = Some b" "rwb m (view_block (Producer s) (Consumer s) (as ! 0) b) fr (xss ! 0)"
    by (rule spsc_block [OF d(1) l])
  have empty: "Front b = Tail b \<longleftrightarrow> xss ! 0 = []" using rwb_empty_iff [OF b(2)] by simp
  show ?thesis
  proof (cases "Consumer s = GTail a f")
    case True
    then show ?thesis using d(3) b(1) empty
      by (intro consumer_refresh [OF at _ _ l b(1), where g' = "if f = Tail b then GNext a else GTake a f"]) (auto simp: at_block_rput may_take_def)
  next
    case False
    then have "Consumer s = GTail2 a f" using g by simp
    then show ?thesis using d(3) b(1) empty
      by (intro consumer_refresh [OF at _ _ l b(1), where g' = "if f \<noteq> Tail b then GTake a f else GReturned None"])
        (auto simp: at_block_rput may_take_def)
  qed
qed

lemma consumer_GNextTail:
  assumes at: "spsc_at e s as xss t" and g: "Consumer s = GNextTail n f"
  shows "\<exists>s'. spsc_step EXP ConsumerStep s = Some s' \<and> spsc_inv e s'"
proof -
  note d = spsc_atD [OF at]
  note rd = rw_baseD [OF d(1)]
  have t: "0 < t" using d(3) g behind_view [of s as, OF _ at] by (simp add: behind_def)
  then have l: "1 < length as" using rd(4) by simp
  obtain b m fr where b: "RWBlocks (SHeap s) (as ! 1) = Some b" "rwb m (view_block (Producer s) (Consumer s) (as ! 1) b) fr (xss ! 1)"
    by (rule spsc_block [OF d(1) l])
  have "xss ! 1 \<noteq> []" using rd(7) [of 1] t by simp
  then have "Front b \<noteq> Tail b" using rwb_empty_iff [OF b(2)] by simp
  then show ?thesis using d(3) b(1) g
    by (intro consumer_refresh [OF at _ _ l b(1), where g' = "GFrontBlock n f"]) (auto simp: at_block_rput may_take_def)
qed

lemma put_ok_rotate:
  assumes ok: "put_ok p q h as xss t" and len: "t < length as" "length xss = length as" and t: "0 < t" "\<And>n. p = PTailBlock n \<Longrightarrow> 1 < t"
  shows "put_ok p (q\<lparr>FrontBlock := x\<rparr>) h (rotate1 as) (rotate1 xss) (t - 1)"
proof -
  have nth: "rotate1 ys ! i = ys ! Suc i" if "Suc i < length ys" for ys :: "'z list" and i
    using that by (cases ys) (simp_all add: nth_append)
  have a: "rotate1 as ! (t - Suc 0) = as ! t" and x: "rotate1 xss ! (t - Suc 0) = xss ! t"
    using nth [of "t - 1" as] nth [of "t - 1" xss] len t(1) by simp_all
  have f: "filled h (rotate1 as) (rotate1 xss) (t - Suc 0)" if "filled h as xss t" using that a x t(1) by (simp add: filled_def)
  have n: "next_is (rotate1 as) (t - Suc 0) n" if "next_is as t n" for n
    using that nth [of t as] t(1) by (simp add: next_is_def)
  have b: "rotate1 as ! (t - 2) = as ! (t - Suc 0)" if "1 < t"
  proof -
    have "Suc (t - 2) = t - Suc 0" using that by linarith
    then show ?thesis using nth [of "t - 2" as] len by simp
  qed
  show ?thesis using ok a x f n t b by (cases p) (auto simp: numeral_2_eq_2)
qed

lemma consumer_GFrontBlock:
  assumes at: "spsc_at e s as xss t" and g: "Consumer s = GFrontBlock n f"
  shows "\<exists>s'. spsc_step EXP ConsumerStep s = Some s' \<and> spsc_inv e s'"
proof -
  note d = spsc_atD [OF at]
  note rd = rw_baseD [OF d(1)]
  have ok: "n = as ! 1" "xss ! 0 = []" "behind (SQueue s) as" "at_block (SHeap s) n (\<lambda>b. Front b = f \<and> may_take b)" using d(3) g by auto
  have t: "0 < t" using ok(3) behind_view [of s as, OF _ at] by (simp add: behind_def)
  let ?g = "GTake n f" and ?q = "(SQueue s)\<lparr>FrontBlock := Some n\<rparr>"
  have t': "1 < t" if "Producer s = PTailBlock m" for m
  proof (rule ccontr)
    assume "\<not> 1 < t"
    then have "t = 1" using t by simp
    then show False using ok(3) d(2) that by (simp add: behind_def)
  qed
  note rot = rw_base_rotate [OF d(1) t ok(2)]
  have "view (Producer s) ?g (SHeap s) = view (Producer s) (Consumer s) (SHeap s)" by (rule view_cong) (simp_all add: g)
  moreover have "view_q (Producer s) ?q = (view_q (Producer s) (SQueue s))\<lparr>FrontBlock := Some (as ! 1)\<rparr>"
    by (cases "Producer s") (simp_all add: ok(1))
  ultimately have "rw_base e (view_q (Producer s) ?q) (view (Producer s) ?g (SHeap s)) (rotate1 as) (rotate1 xss) (t - 1)" using rot(1) by simp
  moreover have "put_ok (Producer s) ?q (SHeap s) (rotate1 as) (rotate1 xss) (t - 1)"
    by (rule put_ok_rotate [OF d(2) rd(4,13) t t'])
  moreover have "get_step (Consumer s) (SQueue s) (SHeap s) = Some (?g, ?q, SHeap s)" by (simp add: g)
  ultimately show ?thesis using rot(2,3) ok(1,4)
    by (intro consumer_stepI [OF at, where as' = "rotate1 as" and xss' = "rotate1 xss" and t' = "t - 1" and g' = ?g]) (auto simp: g)
qed

lemma consumer_GTake:
  assumes at: "spsc_at e s as xss t" and g: "Consumer s = GTake a f"
  shows "\<exists>s'. spsc_step EXP ConsumerStep s = Some s' \<and> spsc_inv e s'"
proof -
  note d = spsc_atD [OF at]
  note rd = rw_baseD [OF d(1)]
  let ?p = "Producer s"
  have l: "0 < length as" using rd(15) by simp
  obtain b m fr where b: "RWBlocks (SHeap s) (as ! 0) = Some b" "rwb m (view_block ?p (Consumer s) (as ! 0) b) fr (xss ! 0)"
    by (rule spsc_block [OF d(1) l])
  have ok: "a = as ! 0" "f = Front b" "may_take b" using d(3) g b(1) by auto
  have "xss ! 0 \<noteq> []" using rwb_ready [OF b(2)] ok(3) by (simp add: may_take_def)
  then obtain v where slot: "unat f < length (Data b)" "Data (view_block ?p (Consumer s) (as ! 0) b) ! unat f = Some v"
    using rwb_front_slot [OF b(2)] ok(2) by auto
  have ne: "put_at ?p (as ! 0) \<Longrightarrow> unat f \<noteq> unat (Tail b)"
    using slot by (auto simp: view_block_def put_back_def g nth_list_update split: if_splits)
  then have v: "Data b ! unat f = Some v"
    using slot by (auto simp: view_block_def put_back_def g split: if_splits)
  let ?g = "GPublish v a ((f + 1) AND SizeMask b)" and ?b = "b\<lparr>Data := (Data b)[unat f := None]\<rparr>"
  have "(Data b)[unat f := Some v] = Data b" using v by (metis list_update_id)
  then have "view_block ?p ?g (as ! 0) ?b = view_block ?p (Consumer s) (as ! 0) b"
    by (simp add: view_block_def put_back_def g ok(1,2))
  moreover have "view ?p ?g (rput (as ! 0) ?b (SHeap s)) = rput (as ! 0) (view_block ?p ?g (as ! 0) ?b) (view ?p (Consumer s) (SHeap s))"
    by (rule view_rput) (simp_all add: g ok(1))
  moreover have "rput (as ! 0) (view_block ?p (Consumer s) (as ! 0) b) (view ?p (Consumer s) (SHeap s)) = view ?p (Consumer s) (SHeap s)"
    using b(1) by (simp add: rput_def fun_upd_idem)
  ultimately have view: "view ?p ?g (rput (as ! 0) ?b (SHeap s)) = view ?p (Consumer s) (SHeap s)" by simp
  have "put_ok ?p (SQueue s) (rput (as ! 0) ?b (SHeap s)) as xss t"
    by (rule put_ok_frame [OF d(2) b(1)]) (use l rd(4) ne in simp_all)
  moreover have "get_step (Consumer s) (SQueue s) (SHeap s) = Some (?g, SQueue s, rput (as ! 0) ?b (SHeap s))"
    using b(1) ok slot(1) v by (simp add: g)
  ultimately show ?thesis using view d(1) ok slot(1)
    by (intro consumer_stepI [OF at, where as' = as and xss' = xss and t' = t and g' = ?g]) (auto simp: g at_block_rput may_take_def)
qed

lemma consumer_GPublish:
  assumes at: "spsc_at e s as xss t" and g: "Consumer s = GPublish v a nf"
  shows "\<exists>s'. spsc_step EXP ConsumerStep s = Some s' \<and> spsc_inv e s'"
proof -
  note d = spsc_atD [OF at]
  note rd = rw_baseD [OF d(1)]
  let ?p = "Producer s"
  have l: "0 < length as" using rd(15) by simp
  obtain b m fr where b: "RWBlocks (SHeap s) (as ! 0) = Some b" "rwb m (view_block ?p (Consumer s) (as ! 0) b) fr (xss ! 0)"
    by (rule spsc_block [OF d(1) l])
  let ?bv = "view_block ?p (Consumer s) (as ! 0) b"
  have ok: "a = as ! 0" "nf = (Front b + 1) AND SizeMask b" "may_take b" "Data b ! unat (Front b) = None" using d(3) g b(1) by auto
  have "Front ?bv \<noteq> LocalTail ?bv" using ok(3) by (simp add: may_take_def)
  from rwb_take [OF b(2) this] obtain x ys dd where x: "xss ! 0 = x # ys" "read_at (Data ?bv) (unat (Front ?bv)) = Some x"
    "destroy_at (Data ?bv) (unat (Front ?bv)) = Some dd"
    "rwb m (?bv\<lparr>Data := dd, Front := (Front ?bv + 1) AND SizeMask ?bv\<rparr>) (Suc fr) ys" by blast
  have dd: "dd = (Data ?bv)[unat (Front b) := None]" and lt: "unat (Front b) < length (Data b)" using destroy_at_SomeD [OF x(3)] by simp_all
  have xv: "Data ?bv ! unat (Front b) = Some x" using x(2) lt by simp
  have ne: "put_at ?p (as ! 0) \<Longrightarrow> unat (Front b) \<noteq> unat (Tail b)"
    using xv lt ok(1) by (auto simp: view_block_def put_back_def g nth_list_update split: if_splits)
  then have v: "x = v"
    using xv lt ok(1) by (auto simp: view_block_def put_back_def g split: if_splits)
  let ?g = "GReturned (Some v)" and ?b = "b\<lparr>Front := nf\<rparr>" and ?xss = "xss[0 := ys]"
  have same: "(Data b)[unat (Front b) := None] = Data b" using ok(4) by (metis list_update_id)
  have "(Data b)[unat (Tail b) := None, unat (Front b) := None] = (Data b)[unat (Tail b) := None]"
    if "unat (Front b) \<noteq> unat (Tail b)" using list_update_swap [OF that, of "Data b" None None] same by simp
  with same ne have eq: "view_block ?p ?g (as ! 0) ?b = ?bv\<lparr>Data := dd, Front := (Front ?bv + 1) AND SizeMask ?bv\<rparr>"
    unfolding dd by (auto simp: view_block_def put_back_def g ok(1,2) list_update_swap)
  have vw: "view ?p ?g (rput (as ! 0) ?b (SHeap s)) = rput (as ! 0) (view_block ?p ?g (as ! 0) ?b) (view ?p (Consumer s) (SHeap s))"
    by (rule view_rput) (simp_all add: g ok(1))
  have base: "rw_base e (view_q ?p (SQueue s)) (view ?p ?g (rput (as ! 0) ?b (SHeap s))) as ?xss t"
    unfolding vw eq by (rule rw_base_rput [OF d(1) l _ _ _ x(4) refl rd(5) refl rd(4), of ?bv])
      (use b(1) rd(4,6,7,8) in auto)
  have "put_ok ?p (SQueue s) (rput (as ! 0) ?b (SHeap s)) as ?xss t"
    by (rule put_ok_frame [OF d(2) b(1)]) (use l rd(4) in simp_all)
  moreover have "get_step (Consumer s) (SQueue s) (SHeap s) = Some (?g, SQueue s, rput (as ! 0) ?b (SHeap s))"
    using b(1) ok(1) by (simp add: g)
  moreover have "concat xss = v # concat ?xss" using x(1) v l rd(13) by (cases xss) auto
  ultimately show ?thesis using base
    by (intro consumer_stepI [OF at, where as' = as and xss' = ?xss and t' = t and g' = ?g]) (auto simp: g)
qed

lemma consumer_step_ok:
  assumes "spsc_inv e s"
  shows "\<exists>s'. spsc_step EXP ConsumerStep s = Some s' \<and> spsc_inv e s'"
proof -
  obtain as xss t where at: "spsc_at e s as xss t" using assms by (auto simp: spsc_inv_def)
  note steps = consumer_tails [OF at] consumer_GNextTail [OF at] consumer_GFrontBlock [OF at] consumer_GTake [OF at] consumer_GPublish [OF at]
  show ?thesis
    by (cases "Consumer s") (rule steps consumer_loads [OF at], simp; fail)+
qed

section \<open>Runs\<close>

lemma spsc_step_ok:
  assumes "spsc_inv e s" "spsc_enabled ev s"
  shows "\<exists>s'. spsc_step (2 ^ e) ev s = Some s' \<and> spsc_inv e s'"
proof -
  obtain as xss t where at: "spsc_at e s as xss t" using assms(1) by (auto simp: spsc_inv_def)
  note d = spsc_atD [OF at]
  show ?thesis
  proof (cases ev)
    case (CallEnqueue mode arg)
    let ?s = "s\<lparr>Producer := PBegin mode arg\<rparr>"
    have r: "put_at (Producer s) = (\<lambda>_. False)" "view_q (Producer s) = (\<lambda>q. q)" "unfinished (Producer s) = 0"
      using assms(2) CallEnqueue by (cases "Producer s"; auto simp: spsc_enabled_def put_rests_def)+
    have "view (PBegin mode arg) (Consumer s) (SHeap s) = view (Producer s) (Consumer s) (SHeap s)" by (rule view_cong) (simp_all add: r)
    then have "spsc_at e ?s as xss t" using d r unfolding spsc_at_def by simp
    then show ?thesis using CallEnqueue by (auto simp: spsc_inv_def)
  next
    case CallDequeue
    let ?s = "s\<lparr>Consumer := GBegin, AtCall := Completed s\<rparr>"
    have r: "got_at (Consumer s) = (\<lambda>_. None)"
      using assms(2) CallDequeue by (cases "Consumer s") (auto simp: spsc_enabled_def get_rests_def)
    have "view (Producer s) GBegin (SHeap s) = view (Producer s) (Consumer s) (SHeap s)" by (rule view_cong) (simp_all add: r)
    then have "spsc_at e ?s as xss t" using d unfolding spsc_at_def by simp
    then show ?thesis using CallDequeue by (auto simp: spsc_inv_def)
  next
    case ProducerStep
    then show ?thesis using producer_step_ok [OF assms(1)] by simp
  next
    case ConsumerStep
    then show ?thesis using consumer_step_ok [OF assms(1)] by simp
  qed
qed

lemma spsc_run_ok: "spsc_inv e s \<Longrightarrow> \<exists>s'. spsc_run (2 ^ e) evs s = Some s' \<and> spsc_inv e s'"
proof (induction evs arbitrary: s)
  case (Cons ev evs)
  show ?case
  proof (cases "spsc_enabled ev s")
    case True
    then obtain s1 where "spsc_step (2 ^ e) ev s = Some s1" "spsc_inv e s1" using spsc_step_ok [OF Cons.prems] by blast
    then show ?thesis using Cons.IH True by simp
  qed (use Cons in simp)
qed simp

lemma spsc_new_ok:
  assumes "1 \<le> e" "e < 64" "1 \<le> unat R" "unat R < 2 ^ 63" "unat R + 1 \<le> quota"
  shows "\<exists>s. spsc_new (2 ^ e) R quota = Some s \<and> spsc_inv e s"
proof -
  let ?h = "\<lparr>RWBlocks = \<lambda>_. None, RWBrk = 0, RWQuota = quota\<rparr> :: 'a rwheap"
  obtain q h' as where q: "RWQueue_new (2 ^ e) R ?h = Some (Made (q, h'))" "rw_base e q h' as (replicate (length as) []) 0"
    using RWQueue_new_ok [of ?h e R] assms by auto
  let ?s = "\<lparr>SQueue = q, SHeap = h', Producer = PIdle, Consumer = GIdle, Put = [], Completed = 0, Taken = [], AtCall = 0\<rparr> :: 'a spsc"
  have "view_block PIdle GIdle = (\<lambda>a b :: 'a rwblock. b)" by (intro ext) (simp add: view_block_def put_back_def)
  then have "view PIdle GIdle h' = h'" by (simp add: view_def option.map_id [unfolded id_def])
  then have "spsc_at e ?s as (replicate (length as) []) 0" using q(2) by (simp add: spsc_at_def concat_replicate_trivial)
  then show ?thesis using q(1) by (auto simp: spsc_new_def spsc_inv_def)
qed

text \<open>The steps a call still has at most.\<close>

fun put_rank :: "'a put_pc \<Rightarrow> nat" where
  "put_rank (PBegin mode arg) = 11" | "put_rank (PTail mode arg a) = 10" | "put_rank (PFront mode arg a bt) = 9"
| "put_rank (PConstruct arg a bt) = 2" | "put_rank (PPublish v a nt) = 1" | "put_rank (PNext mode arg a) = 8"
| "put_rank (PFrontBlock mode arg a n) = 7" | "put_rank (PNext2 arg a) = 6" | "put_rank (PNextTail arg n) = 5"
| "put_rank (PNextFront arg n bt) = 4" | "put_rank (PNextConstruct arg n bt) = 3" | "put_rank (PNextPublish v n nt) = 2"
| "put_rank (PTailBlock n) = 1" | "put_rank (PMake arg a) = 4" | "put_rank (PLink v a n) = 3" | "put_rank (PJoin v a n) = 2"
| "put_rank PIdle = 0" | "put_rank (PReturned r) = 0"

fun get_rank :: "'a get_pc \<Rightarrow> nat" where
  "get_rank GBegin = 10" | "get_rank (GFront a) = 9" | "get_rank (GTailBlock a f bt) = 8" | "get_rank (GTail a f) = 7"
| "get_rank (GTail2 a f) = 3" | "get_rank (GNext a) = 6" | "get_rank (GNextFront n) = 5" | "get_rank (GNextTail n f) = 4"
| "get_rank (GFrontBlock n f) = 3" | "get_rank (GTake a f) = 2" | "get_rank (GPublish v a nf) = 1"
| "get_rank GIdle = 0" | "get_rank (GReturned r) = 0"

lemma put_step_rank: "put_step EXP p q h = Some (p', q', h') \<Longrightarrow> put_rank p' \<le> put_rank p - 1"
  by (cases p) (auto simp: Let_def bind_eq_Some_conv split: if_splits option.splits made.splits)

lemma get_step_rank: "get_step g q h = Some (g', q', h') \<Longrightarrow> get_rank g' \<le> get_rank g - 1"
  by (cases g) (auto simp: Let_def bind_eq_Some_conv split: if_splits)

lemma spsc_run_ranks:
  assumes "spsc_run EXP evs s = Some s'"
  shows "(\<forall>mode arg. CallEnqueue mode arg \<notin> set evs) \<Longrightarrow> put_rank (Producer s') \<le> put_rank (Producer s) - count_list evs ProducerStep"
    "CallDequeue \<notin> set evs \<Longrightarrow> get_rank (Consumer s') \<le> get_rank (Consumer s) - count_list evs ConsumerStep"
  using assms
proof (induction evs arbitrary: s)
  case (Cons ev evs)
  {
    case 1
    then obtain s1 where s1: "spsc_run EXP evs s1 = Some s'" "put_rank (Producer s1) \<le> put_rank (Producer s) - (if ev = ProducerStep then 1 else 0)"
      by (cases ev) (auto simp: bind_eq_Some_conv spsc_enabled_def split: if_splits dest!: put_step_rank)
    have "put_rank (Producer s') \<le> put_rank (Producer s1) - count_list evs ProducerStep" using Cons.IH(1) [of s1] 1 s1(1) by simp
    then show ?case using s1(2) by (auto split: if_splits)
  next
    case 2
    then obtain s1 where s1: "spsc_run EXP evs s1 = Some s'" "get_rank (Consumer s1) \<le> get_rank (Consumer s) - (if ev = ConsumerStep then 1 else 0)"
      by (cases ev) (auto simp: bind_eq_Some_conv spsc_enabled_def split: if_splits dest!: get_step_rank)
    have "get_rank (Consumer s') \<le> get_rank (Consumer s1) - count_list evs ConsumerStep" using Cons.IH(2) [of s1] 2 s1(1) by simp
    then show ?case using s1(2) by (auto split: if_splits)
  }
qed simp_all

text \<open>What a call publishes is its own argument.\<close>

fun put_value :: "'a put_pc \<Rightarrow> 'a option" where
  "put_value (PBegin mode arg) = arg" | "put_value (PTail mode arg a) = arg" | "put_value (PFront mode arg a bt) = arg"
| "put_value (PConstruct arg a bt) = arg" | "put_value (PPublish v a nt) = Some v" | "put_value (PNext mode arg a) = arg"
| "put_value (PFrontBlock mode arg a n) = arg" | "put_value (PNext2 arg a) = arg" | "put_value (PNextTail arg n) = arg"
| "put_value (PNextFront arg n bt) = arg" | "put_value (PNextConstruct arg n bt) = arg" | "put_value (PNextPublish v n nt) = Some v"
| "put_value (PMake arg a) = arg" | "put_value (PLink v a n) = Some v" | "put_value (PJoin v a n) = Some v"
| "put_value _ = None"

lemma put_step_value:
  "put_step EXP p q h = Some (p', q', h') \<Longrightarrow> put_value p' \<noteq> None \<Longrightarrow> put_value p' = put_value p"
  "put_step EXP p q h = Some (p', q', h') \<Longrightarrow> publishes p \<noteq> [] \<Longrightarrow> put_value p = Some (hd (publishes p))"
  by (cases p; auto simp: Let_def bind_eq_Some_conv split: if_splits option.splits made.splits)+

section \<open>What the queue holds\<close>

text \<open>An element that the consumer has moved out but whose slot it has not yet given up, by the store of \<^verbatim>\<open>Front\<close>, is in its hand.\<close>

definition in_hand :: "'a get_pc \<Rightarrow> 'a list" where
  "in_hand g = (case g of GPublish v _ _ \<Rightarrow> [v] | _ \<Rightarrow> [])"

definition in_hand_at :: "'a get_pc \<Rightarrow> addr \<Rightarrow> 'a list" where
  "in_hand_at g a = (case got_at g a of None \<Rightarrow> [] | Some v \<Rightarrow> [v])"

lemma view_slot:
  assumes r: "rwb m (view_block p g a b) f xs" and i: "i < length xs"
  shows "put_back g a b ! ((f + i) mod 2 ^ m) = Some (xs ! i)"
proof -
  note d = rwbD [OF r]
  have "(f + i) mod 2 ^ m \<noteq> (f + length xs) mod 2 ^ m" using mod_window [of "f + i" "f + length xs" "2 ^ m"] i d(4) by auto
  then have "unat (Tail b) \<noteq> (f + i) mod 2 ^ m" using d(6) unat_pos [OF d(1), of "f + length xs"] by simp
  then have "put_back g a b ! ((f + i) mod 2 ^ m) = Data (view_block p g a b) ! ((f + i) mod 2 ^ m)" by (simp add: view_block_def)
  also have "\<dots> = Some (xs ! i)" using d(9) [of "f + i"] i d(4) by simp
  finally show ?thesis .
qed

lemma block_values_view:
  assumes r: "rwb m (view_block p g a b) f xs"
    and g: "got_at g a \<noteq> None \<Longrightarrow> xs \<noteq> [] \<and> Data b ! unat (Front b) = None"
  shows "in_hand_at g a @ block_values b = xs"
proof -
  note d = rwbD [OF r]
  have n: "unat ((Tail b - Front b) AND SizeMask b) = length xs"
    using rwb_size [OF r] unat_pos [OF d(1), of "length xs"] d(4) by simp
  have ix: "slot_values b i = (case Data b ! ((f + i) mod 2 ^ m) of None \<Rightarrow> [] | Some v \<Rightarrow> [v])" for i
    using slot_index [OF r, of i] by (simp add: slot_values_def)
  have fr: "unat (Front b) = f mod 2 ^ m" using d(5) unat_pos [OF d(1), of f] by simp
  show ?thesis
  proof (cases "got_at g a")
    case None
    have "slot_values b i = [xs ! i]" if "i < length xs" for i
      using view_slot [OF r that] None by (simp add: ix put_back_def)
    then have "block_values b = concat (List.map (\<lambda>i. [xs ! i]) [0..<length xs])"
      unfolding block_values_def n by (intro arg_cong [where f = concat] map_cong) simp_all
    then show ?thesis using None concat_singles [of xs 0] by (simp add: in_hand_at_def)
  next
    case (Some v)
    then have ne: "xs \<noteq> []" "Data b ! (f mod 2 ^ m) = None" using g fr by simp_all
    have len: "f mod 2 ^ m < length (Data b)" using d(2) by simp
    have v: "xs ! 0 = v" using view_slot [OF r, of 0] ne(1) Some len by (simp add: put_back_def fr)
    have rest: "slot_values b i = [xs ! i]" if i: "0 < i" "i < length xs" for i
    proof -
      have "f mod 2 ^ m \<noteq> (f + i) mod 2 ^ m" using mod_window [of f "f + i" "2 ^ m"] i d(4) by auto
      then show ?thesis using view_slot [OF r i(2)] Some by (simp add: ix put_back_def fr)
    qed
    have up: "[0..<length xs] = 0 # [1..<length xs]" using ne(1) by (simp add: upt_conv_Cons)
    have "block_values b = slot_values b 0 @ concat (List.map (slot_values b) [1..<length xs])"
      unfolding block_values_def n up by simp
    also have "List.map (slot_values b) [1..<length xs] = List.map (\<lambda>i. [xs ! i]) [1..<length xs]"
      by (intro map_cong) (simp_all add: rest)
    also have "slot_values b 0 = []" using ne(2) by (simp add: ix)
    finally have "block_values b = drop 1 xs" by (simp only: concat_singles append_Nil)
    then show ?thesis using Some v ne(1) by (cases xs) (simp_all add: in_hand_at_def)
  qed
qed

lemma held_spsc:
  assumes at: "spsc_at e s as xss t"
  shows "\<exists>ys. held (SQueue s) (SHeap s) = Some ys \<and> in_hand (Consumer s) @ ys = concat xss"
proof -
  note d = spsc_atD [OF at]
  note rd = rw_baseD [OF d(1)]
  let ?bv = "\<lambda>i. block_values (the (RWBlocks (SHeap s) (as ! i)))"
  have l: "0 < length as" using rd(15) by simp
  have fb: "FrontBlock (SQueue s) = Some (as ! 0)"
    using rd(3,15) by (simp add: hd_conv_nth view_q_def split: put_pc.splits)
  have blk: "in_hand_at (Consumer s) (as ! i) @ ?bv i = xss ! i"
    and walk: "\<exists>b. RWBlocks (SHeap s) (as ! i) = Some b \<and> (RWNext b \<noteq> Some (as ! 0) \<longleftrightarrow> Suc i < length as)
      \<and> (Suc i < length as \<longrightarrow> RWNext b = Some (as ! Suc i))" if i: "i < length as" for i
  proof -
    obtain b' m f where b': "RWBlocks (view (Producer s) (Consumer s) (SHeap s)) (as ! i) = Some b'" "rwb m b' f (xss ! i)"
      "RWNext b' = Some (as ! (Suc i mod length as))" "RWNext b' \<noteq> Some (as ! 0) \<longleftrightarrow> Suc i < length as"
      "Suc i < length as \<longrightarrow> Suc i mod length as = Suc i" by (rule ring_step [OF d(1) i])
    then obtain b where b: "RWBlocks (SHeap s) (as ! i) = Some b" "b' = view_block (Producer s) (Consumer s) (as ! i) b" by auto
    have r: "rwb m (view_block (Producer s) (Consumer s) (as ! i) b) f (xss ! i)" using b' b by simp
    have "xss ! i \<noteq> [] \<and> Data b ! unat (Front b) = None" if g: "got_at (Consumer s) (as ! i) \<noteq> None"
    proof
      show "xss ! i \<noteq> []" using got_front(1) [OF d(3) g b(1) r] rwb_empty_iff [OF r] by simp
      show "Data b ! unat (Front b) = None" using d(3) g b(1) by (cases "Consumer s") (auto split: if_splits)
    qed
    from block_values_view [OF r this] show "in_hand_at (Consumer s) (as ! i) @ ?bv i = xss ! i" using b(1) by simp
    show "\<exists>b. RWBlocks (SHeap s) (as ! i) = Some b \<and> (RWNext b \<noteq> Some (as ! 0) \<longleftrightarrow> Suc i < length as)
      \<and> (Suc i < length as \<longrightarrow> RWNext b = Some (as ! Suc i))" using b' b by auto
  qed
  have h: "held (SQueue s) (SHeap s) = Some (concat (List.map ?bv [0..<length as]))" by (rule held_walk [OF fb l walk])
  have up: "[0..<length as] = 0 # [1..<length as]" using l by (simp add: upt_conv_Cons)
  have first: "in_hand (Consumer s) = in_hand_at (Consumer s) (as ! 0)"
    using d(3) by (cases "Consumer s") (simp_all add: in_hand_def in_hand_at_def)
  have rest: "?bv i = xss ! i" if i: "0 < i" "i < length as" for i
  proof -
    have "as ! 0 \<noteq> as ! i" using nth_eq_iff_index_eq [OF rd(14) l i(2)] i(1) by simp
    then have "got_at (Consumer s) (as ! i) = None" using d(3) by (cases "Consumer s") auto
    then show ?thesis using blk [OF i(2)] by (simp add: in_hand_at_def)
  qed
  have tail: "List.map ?bv [1..<length as] = List.map ((!) xss) [1..<length as]" using rest by (intro map_cong) simp_all
  have "in_hand (Consumer s) @ concat (List.map ?bv [0..<length as])
      = (in_hand_at (Consumer s) (as ! 0) @ ?bv 0) @ concat (List.map ?bv [1..<length as])" unfolding up first by simp
  also have "\<dots> = concat (List.map ((!) xss) [0..<length as])" unfolding blk [OF l] tail up by simp
  also have "\<dots> = concat xss" using map_nth [of xss] rd(13) by simp
  finally show ?thesis using h by blast
qed

section \<open>Properties\<close>

text \<open>C1. The producer and the consumer of a \<^verbatim>\<open>ReaderWriterQueue\<close> may work at once.  Let the queue be constructed with blocks of at most
  2^e slots (e from 1 to 63), a reservation of at least one element (with none, the first enqueue fails an assertion) and below 2^63, and
  memory for the blocks of the construction.  Then in every interleaving of their accesses, whatever the modes, the values, throwing
  constructors and the end of memory, no step is undefined and no assertion fails, and the values come out in the order in which
  they went in, none twice and none left out: what has been published is what has been taken, followed by the element in the hand of a
  consumer that has yet to store the front, followed by the elements that the blocks hold from \<^verbatim>\<open>FrontBlock\<close> on, each from \<^verbatim>\<open>Front\<close>
  to \<^verbatim>\<open>Tail\<close>.\<close>

theorem RWQueue_interleaved_safe:
  assumes "1 \<le> e" "e < 64" "1 \<le> unat R" "unat R < 2 ^ 63" "unat R + 1 \<le> quota"
  shows "\<exists>s0 :: 'a spsc. spsc_new (2 ^ e) R quota = Some s0 \<and>
    (\<forall>evs. \<exists>s xs. spsc_run (2 ^ e) evs s0 = Some s \<and> held (SQueue s) (SHeap s) = Some xs
       \<and> Put s = Taken s @ in_hand (Consumer s) @ xs)"
proof -
  obtain s0 :: "'a spsc" where s0: "spsc_new (2 ^ e) R quota = Some s0" "spsc_inv e s0" using spsc_new_ok [OF assms] by blast
  have "\<exists>s xs. spsc_run (2 ^ e) evs s0 = Some s \<and> held (SQueue s) (SHeap s) = Some xs \<and> Put s = Taken s @ in_hand (Consumer s) @ xs" for evs
  proof -
    obtain s as xss t where s: "spsc_run (2 ^ e) evs s0 = Some s" "spsc_at e s as xss t"
      using spsc_run_ok [OF s0(2), of evs] by (auto simp: spsc_inv_def)
    then show ?thesis using held_spsc [OF s(2)] spsc_atD(4) [OF s(2)] by metis
  qed
  with s0(1) show ?thesis by blast
qed

text \<open>C14. What an empty answer means while the producer is at work, in a queue constructed with a reservation of at least one
  element and memory for it: when \<^verbatim>\<open>TryDequeue\<close> finds nothing, every value whose enqueue was completed
  when the call began has been taken.  The published values are those of the completed enqueues and at most one more.\<close>

theorem RWQueue_interleaved_empty:
  fixes s0 :: "'a spsc"
  assumes "1 \<le> e" "e < 64" "1 \<le> unat R" "unat R < 2 ^ 63" "unat R + 1 \<le> quota"
    and "spsc_new (2 ^ e) R quota = Some s0" "spsc_run (2 ^ e) evs s0 = Some s" "Consumer s = GReturned None"
  shows "AtCall s \<le> length (Taken s) \<and> Completed s \<le> length (Put s) \<and> length (Put s) \<le> Completed s + 1"
proof -
  have "spsc_inv e s0" using spsc_new_ok [OF assms(1-5), where 'a = 'a] assms(6) by auto
  then obtain as xss t where at: "spsc_at e s as xss t" using spsc_run_ok [of e s0 evs] assms(7) by (auto simp: spsc_inv_def)
  note d = spsc_atD [OF at]
  have "unfinished (Producer s) \<le> 1" by (simp add: unfinished_def split: put_pc.split)
  then show ?thesis using d(3,5) assms(8) by auto
qed

text \<open>C15. Both operations are free of waiting: whatever the other thread does in between, a call of \<^verbatim>\<open>InnerEnqueue\<close> is over after at most 11 steps of
  its own, and one of \<^verbatim>\<open>TryDequeue\<close> after at most 10.\<close>

theorem RWQueue_wait_free:
  assumes "spsc_run EXP evs s = Some s'"
  shows "(Producer s = PBegin mode arg \<longrightarrow> (\<forall>mode arg. CallEnqueue mode arg \<notin> set evs) \<longrightarrow> 11 \<le> count_list evs ProducerStep \<longrightarrow>
      (\<exists>r. Producer s' = PReturned r) \<or> Producer s' = PIdle) \<and>
    (Consumer s = GBegin \<longrightarrow> CallDequeue \<notin> set evs \<longrightarrow> 10 \<le> count_list evs ConsumerStep \<longrightarrow>
      (\<exists>r. Consumer s' = GReturned r) \<or> Consumer s' = GIdle)"
proof (intro conjI impI)
  assume "Producer s = PBegin mode arg" "\<forall>mode arg. CallEnqueue mode arg \<notin> set evs" "11 \<le> count_list evs ProducerStep"
  then have "put_rank (Producer s') = 0" using spsc_run_ranks(1) [OF assms] by fastforce
  then show "(\<exists>r. Producer s' = PReturned r) \<or> Producer s' = PIdle" by (cases "Producer s'") auto
next
  assume "Consumer s = GBegin" "CallDequeue \<notin> set evs" "10 \<le> count_list evs ConsumerStep"
  then have "get_rank (Consumer s') = 0" using spsc_run_ranks(2) [OF assms] by fastforce
  then show "(\<exists>r. Consumer s' = GReturned r) \<or> Consumer s' = GIdle" by (cases "Consumer s'") auto
qed

section \<open>Witnesses\<close>

text \<open>A dequeue that finds the queue empty while the producer is in the middle of its call.\<close>

definition early :: "nat spsc_event list" where
  "early = [CallEnqueue RWAllocMode.CanAlloc (Some 7), ProducerStep, ProducerStep, ProducerStep, CallDequeue, ConsumerStep, ConsumerStep,
     ConsumerStep, ConsumerStep]"

lemma early_run:
  "\<exists>s0 s. spsc_new 4 3 9 = Some s0 \<and> spsc_run 4 early s0 = Some s \<and> Consumer s = GReturned None \<and> Producer s = PPublish 7 0 1"
proof -
  have "case spsc_new 4 3 9 of None \<Rightarrow> False | Some s0 \<Rightarrow> (case spsc_run 4 early s0 of None \<Rightarrow> False
     | Some s \<Rightarrow> Consumer s = GReturned None \<and> Producer s = PPublish 7 0 1)" by code_simp
  then show ?thesis by (auto split: option.splits)
qed

text \<open>Two values are in the queue, and the consumer has one of them in its hand.\<close>

definition taking :: "nat spsc_event list" where
  "taking = concat (List.map (\<lambda>v. CallEnqueue RWAllocMode.CanAlloc (Some v) # replicate 5 ProducerStep) [7, 8])
     @ CallDequeue # replicate 5 ConsumerStep"

lemma taking_run:
  "\<exists>s0 s. spsc_new 4 3 9 = Some s0 \<and> spsc_run 4 taking s0 = Some s \<and> in_hand (Consumer s) = [7] \<and> Put s = [7, 8]"
proof -
  have "case spsc_new 4 3 9 of None \<Rightarrow> False | Some s0 \<Rightarrow> (case spsc_run 4 taking s0 of None \<Rightarrow> False
     | Some s \<Rightarrow> in_hand (Consumer s) = [7] \<and> Put s = [7, 8])" by code_simp
  then show ?thesis by (auto split: option.splits)
qed

lemma RWQueue_interleaved_safe_witness:
  "\<exists>(s0 :: nat spsc) s. spsc_new 4 3 9 = Some s0 \<and> spsc_run 4 taking s0 = Some s \<and> in_hand (Consumer s) = [7]
     \<and> held (SQueue s) (SHeap s) = Some [8] \<and> Put s = [7, 8]"
proof -
  obtain s0 s where s: "spsc_new 4 3 9 = Some s0" "spsc_run 4 taking s0 = Some s" "in_hand (Consumer s) = [7]" "Put s = [7, 8]"
    using taking_run by blast
  have four: "(2 :: size_t) ^ 2 = 4" by simp
  obtain s0' :: "nat spsc" where s0': "spsc_new 4 3 9 = Some s0'" "\<forall>evs. \<exists>s xs. spsc_run 4 evs s0' = Some s
     \<and> held (SQueue s) (SHeap s) = Some xs \<and> Put s = Taken s @ in_hand (Consumer s) @ xs"
    using RWQueue_interleaved_safe [of 2 3 9, where 'a = nat] unfolding four by auto
  then obtain xs where xs: "held (SQueue s) (SHeap s) = Some xs" "Put s = Taken s @ in_hand (Consumer s) @ xs"
    using s(1,2) by (metis option.inject)
  then have "Taken s @ 7 # xs = [7, 8]" using s(3,4) by simp
  then have "xs = [8]" by (cases "Taken s") (auto simp: Cons_eq_append_conv append_eq_Cons_conv)
  then show ?thesis using s xs(1) by auto
qed

lemma RWQueue_interleaved_empty_witness:
  "\<exists>s0 s. spsc_new 4 3 9 = Some s0 \<and> spsc_run 4 early s0 = Some s \<and> Consumer s = GReturned None \<and>
     AtCall s \<le> length (Taken s) \<and> length (Put s) \<le> Completed s + 1"
proof -
  obtain s0 s where s: "spsc_new 4 3 9 = Some s0" "spsc_run 4 early s0 = Some s" "Consumer s = GReturned None" using early_run by blast
  with RWQueue_interleaved_empty [of 2 3 9 s0 early s] show ?thesis by auto
qed

text \<open>The whole of an enqueue that fills the block and so links a new one.\<close>

definition filling :: "nat spsc_event list" where
  "filling = concat (replicate 3 (CallEnqueue RWAllocMode.CanAlloc (Some 7) # replicate 5 ProducerStep)) @ [CallEnqueue RWAllocMode.CanAlloc (Some 8)]"

lemma filling_run:
  "\<exists>s0 s s'. spsc_new 4 3 9 = Some s0 \<and> spsc_run 4 filling s0 = Some s \<and> Producer s = PBegin RWAllocMode.CanAlloc (Some 8)
     \<and> spsc_run 4 (replicate 11 ProducerStep) s = Some s'"
proof -
  have "case spsc_new 4 3 9 of None \<Rightarrow> False | Some s0 \<Rightarrow> (case spsc_run 4 filling s0 of None \<Rightarrow> False
     | Some s \<Rightarrow> Producer s = PBegin RWAllocMode.CanAlloc (Some 8) \<and> spsc_run 4 (replicate 11 ProducerStep) s \<noteq> None)" by code_simp
  then show ?thesis by (auto split: option.splits)
qed

lemma RWQueue_wait_free_witness:
  "\<exists>s0 s s'. spsc_new 4 3 9 = Some s0 \<and> spsc_run 4 filling s0 = Some s \<and> spsc_run 4 (replicate 11 ProducerStep) s = Some s'
     \<and> ((\<exists>r. Producer s' = PReturned r) \<or> Producer s' = PIdle)"
proof -
  obtain s0 s s' where s: "spsc_new 4 3 9 = Some s0" "spsc_run 4 filling s0 = Some s" "Producer s = PBegin RWAllocMode.CanAlloc (Some 8)"
    "spsc_run 4 (replicate 11 ProducerStep) s = Some s'" using filling_run by blast
  have "count_list (replicate 11 ProducerStep) (ProducerStep :: nat spsc_event) = 11" by (simp add: numeral_eq_Suc)
  with RWQueue_wait_free [OF s(4), of RWAllocMode.CanAlloc "Some 8"] s show ?thesis by auto
qed

end
