(* ===== verification/Spec2Isabelle.thy ===== *)
theory Spec2Isabelle
  imports Manager_Properties Fast_Queue_Properties Slow_Queue_Properties Sample_Maps Blocking_Queue_Properties Concurrent_Queue_Clients
    Dequeue_Counters Free_List_Steps Leak_Allocator Spsc_Steps_Correct
begin

text \<open>
  Verification of LockFreeStructures: a multi-producer multi-consumer queue built from queues of a single
  producer (\<^verbatim>\<open>src/ConcurrentQueue\<close>), a queue of one producer and one consumer (\<^verbatim>\<open>src/ReaderWriterQueue\<close>), two
  sample maps (\<^verbatim>\<open>src/Hash\<close>), and what they share (\<^verbatim>\<open>src/common\<close>).

  \<^bold>\<open>The program.\<close>  Every producer of a \<^verbatim>\<open>ConcurrentQueue\<close> owns a queue of its own: a \<^verbatim>\<open>FastQueue\<close> when it holds
  a token, a \<^verbatim>\<open>SlowQueue\<close> found by the thread's id in a \<^verbatim>\<open>HashTable\<close> when it does not.  Both keep their elements in
  blocks of a power of two slots, which they take from a \<^verbatim>\<open>HakleBlockManager\<close>: a pool allocated at the
  start, then a \<^verbatim>\<open>FreeList\<close> of returned blocks, then the allocator.  A block knows by its policy (a flag per slot or
  a counter) when its slots have all been emptied.  A producer queue finds the block of an index in an
  array of entries that doubles when it is full: the fast queue keeps its blocks in a ring and uses them
  again, the slow queue returns them.  The \<^verbatim>\<open>ReaderWriterQueue\<close> is a ring of ring buffers, and
  \<^verbatim>\<open>BlockingReaderWriterQueue\<close> puts a semaphore around it.

  \<^bold>\<open>Theories\<close>, from the bottom; the functions of a theory have the names of the functions they model.

  \<^item> \<open>Prelude\<close>: the result type \<open>res\<close> (\<open>Ret\<close> or an exception \<open>Exn\<close>), the loop combinator \<open>loop\<close>, which has the value
    \<open>None\<close> when the loop never ends, lemmas on words, lists and maps.
  \<^item> \<open>Utility\<close>: \<^verbatim>\<open>common/utility.h\<close>.  \<open>CircularLessThan\<close> is the order of free-running counters, \<open>CeilToPow2\<close> the
    least power of two above its argument.
  \<^item> \<open>Block\<close>: \<^verbatim>\<open>ConcurrentQueue/Block.h\<close>, the blocks and their two policies.  The locale \<open>emptiness_policy\<close> states what a policy
    promises (a block is empty exactly when each slot has been marked) and is interpreted for both.
  \<^item> \<open>Free_List\<close>, \<open>Block_Manager\<close>, \<open>Manager_Properties\<close>: \<^verbatim>\<open>ConcurrentQueue/BlockManager.h\<close>.  The invariant \<open>mgr_inv\<close> says which
    blocks lie in the pool, in the free list and with the queues; a requisitioned block belongs to nobody else.
    The locale \<open>block_provider\<close> is that promise.
  \<^item> \<open>Queue_Base\<close>, \<open>Index_Arith\<close>: the class \<^verbatim>\<open>_QueueBase\<close> and the slots of a block; arithmetic on indices modulo \<open>2 ^ 64\<close>.
  \<^item> \<open>Fast_Queue\<close>, \<open>Fast_Queue_Correct\<close>, \<open>Fast_Queue_Properties\<close>: \<^verbatim>\<open>FastQueue\<close> of \<^verbatim>\<open>ConcurrentQueue/ConcurrentQueue.h\<close>, its invariant
    and its refinement of a queue of values.
  \<^item> \<open>Slow_Queue\<close>, \<open>Slow_Queue_Correct\<close>, \<open>Slow_Queue_Properties\<close>: the same for \<^verbatim>\<open>SlowQueue\<close>; the
    blocks lent to it, read off the memory (\<open>lent\<close>), are given back as soon as they are spent.
  \<^item> \<open>Fifo\<close>: the abstract queue.  The locale \<open>budget_queue\<close> asks of a representation relation what one operation does
    and gives the refinement of every sequence of operations; it is interpreted for the fast, the slow and the
    reader-writer queue.
  \<^item> \<open>Probing\<close>, \<open>Hash_Table\<close>, \<open>Hash_Table_Correct\<close>, \<open>Hash_Table_Properties\<close>: linear probing, and \<^verbatim>\<open>ConcurrentQueue/HashTable.h\<close>, which keeps
    older arrays in a chain behind the newest; it refines a finite map.  The locale \<open>keyed_store\<close> is the contract of a
    map, interpreted for the table and for the two sample maps.
  \<^item> \<open>Sample_Maps\<close>: \<^verbatim>\<open>Hash/HashTable.h\<close> and \<^verbatim>\<open>Hash/LinearSearchMap.h\<close>.
  \<^item> \<open>Spsc_Queue\<close>, \<open>Spsc_Queue_Correct\<close>, \<open>Spsc_Queue_Properties\<close>: \<^verbatim>\<open>ReaderWriterQueue\<close> of \<^verbatim>\<open>ReaderWriterQueue/readerwriterqueue.h\<close>.
  \<^item> \<open>Spsc_Steps\<close>, \<open>Spsc_Steps_Correct\<close>: \<^verbatim>\<open>InnerEnqueue\<close> and \<^verbatim>\<open>TryDequeue\<close> of one producer and one consumer, interleaved access by access.
    A call alone is what the sequential model does.  \<open>view\<close> takes back what is constructed or destroyed but not yet published, and the invariant of the sequential model holds of the
    result.  \<open>held\<close> reads what the queue holds off its blocks.  No step is undefined, the order is kept, an empty answer is true of the start of the call, and neither side waits.
  \<^item> \<open>Light_Semaphore\<close>, \<open>Blocking_Queue\<close>, \<open>Blocking_Queue_Properties\<close>: \<^verbatim>\<open>LightWeightSemaphore\<close>, before and since C++20, and
    \<^verbatim>\<open>BlockingReaderWriterQueue\<close>, as interleavings of a producer and a consumer.
  \<^item> \<open>Producers\<close>: several queues of one kind over one block manager.  The locale \<open>producers\<close> asks what one queue does to its
    values and to the manager, and gives that the others keep theirs; it is interpreted for both kinds.
  \<^item> \<open>Concurrent_Queue\<close>, \<open>Concurrent_Queue_Correct\<close>, \<open>Concurrent_Queue_Properties\<close>: \<^verbatim>\<open>ConcurrentQueue\<close> of
    \<^verbatim>\<open>ConcurrentQueue/ConcurrentQueue.h\<close>: the list of producers, the tokens, the search of a consumer.  The relation \<open>cq_rel\<close>
    says which values each producer holds, in order, and which producer is a thread's.
  \<^item> \<open>Concurrent_Queue_Clients\<close>: sequences of operations of any threads and tokens on one \<^verbatim>\<open>ConcurrentQueue\<close>, with the
    histories of the values accepted and handed out.
  \<^item> \<open>Dequeue_Counters\<close>: the counters of \<^verbatim>\<open>_QueueBase\<close> under any number of consumers, interleaved access by access.  Each
    index is obtained once and not before it is published; a call alone is what the sequential models do.
  \<^item> \<open>Free_List_Steps\<close>: \<^verbatim>\<open>FreeList\<close> under any number of threads, interleaved access by access, with its reference counts.  No node
    is handed out twice and none is lost.
  \<^item> \<open>Raw_Memory\<close>, \<open>Leak_Allocator\<close>: \<^verbatim>\<open>common/memory.h\<close>, allocation in bytes and objects in raw storage, and \<^verbatim>\<open>HakleAllocator\<close> of
    \<^verbatim>\<open>common/allocator.h\<close> with its counters.  A \<open>chunk\<close> is what one \<^verbatim>\<open>operator new\<close> gave.

  \<^bold>\<open>How code becomes definitions.\<close>  A class is a record, named after the class, with the class's fields.
  The blocks live in a heap, a map from addresses; a pointer is an \<open>addr option\<close>.  An operation takes the objects
  it works on and the heap and returns them changed.  Its value is an option: \<open>None\<close> is undefined behaviour (a null
  or dangling pointer, an index outside an array, reading a slot that holds no element, constructing over
  one), a failed assertion, or a loop that never ends; so a theorem that an operation has a value says that
  none of these happens and that it terminates.  Indices, counters and sizes are words of their width and wrap around.
  The constructor of an element is an argument of type \<open>'a option\<close>: \<open>None\<close> throws.  Allocation fails (\<open>bad_alloc\<close>)
  when the field \<open>Quota\<close> of the heap is used up; theorems that speak of success state the quota they need.

  \<^bold>\<open>What is not modelled.\<close>  In the blocking queue, \<open>Spsc_Steps\<close>, \<open>Dequeue_Counters\<close> and \<open>Free_List_Steps\<close> the operations are interleaved, every
  access being seen by all threads in one order; elsewhere an operation runs to its end before the next one begins.  Weak memory
  orders are left out, and \<^verbatim>\<open>WeakAtomic\<close> with them.  The semaphores of the operating systems are a counter of tokens, with
  spurious failure where their documentation allows it.  The queues allocate whole blocks and arrays from the quota of the heap,
  not the bytes of \<open>Raw_Memory\<close>; \<^verbatim>\<open>CompressPair\<close> is two fields of a record; \<^verbatim>\<open>constexpr\<close> variants are not distinguished, nor
  is the memory a \<^verbatim>\<open>std::function\<close> may take.  Moving, assigning and swapping a whole \<^verbatim>\<open>ConcurrentQueue\<close> is left out: its producers
  point to the managers inside the queue, which have no address in the model.
  Tests, benchmark and the vendored queue it compares with are not part of the library.
\<close>

end
